(* ===== verification/SparkPrelude.thy ===== *)
theory SparkPrelude
  imports Main "HOL-Library.Word"
begin

text \<open>
  Shared vocabulary of the development: bytes, the exceptions of the C++ code as values,
  the two sequencing operators used by the models of functions that throw
  (\<open>rbind\<close>) and of functions that read from a stream and throw (\<open>sbind\<close>), the
  little-endian layout of machine words, and the generic lemmas on lists and words that
  several components use.
\<close>

unbundle bit_operations_syntax

section \<open>Types\<close>

type_synonym byte = "8 word"
type_synonym bytes = "8 word list"

text \<open>
  The exceptions the code throws, each with its message. \<open>Abort\<close> is a failed \<open>assert\<close>. \<open>Undefined\<close> stands for
  executions the C++ standard gives no meaning to (an out-of-bounds access); a property
  that rules it out says that the code never gets there.
\<close>

datatype exn =
    Invalid_Argument string
  | Runtime_Error string
  | Ios_Failure string
  | Length_Error string
  | Abort string
  | Undefined string

type_synonym 'a res = "exn + 'a"

section \<open>Lemma collections\<close>

named_theorems enc_simps \<open>byte layouts of the serialised types\<close>
named_theorems bitwise_simps \<open>bit-level reading of the word operations\<close>
named_theorems step_defs \<open>definitions unfolded when a model is executed\<close>

section \<open>Sequencing\<close>

definition rbind :: "'a res \<Rightarrow> ('a \<Rightarrow> 'b res) \<Rightarrow> 'b res" where
  "rbind m f = (case m of Inl e \<Rightarrow> Inl e | Inr x \<Rightarrow> f x)"

lemma rbind_simps [simp]:
  "rbind (Inl e) f = Inl e"
  "rbind (Inr x) f = f x"
  by (simp_all add: rbind_def)

lemma rbind_Inr_iff: "rbind m f = Inr y \<longleftrightarrow> (\<exists>x. m = Inr x \<and> f x = Inr y)"
  by (cases m) simp_all

lemma rbind_cong [fundef_cong]:
  "m = m' \<Longrightarrow> (\<And>x. m' = Inr x \<Longrightarrow> f x = f' x) \<Longrightarrow> rbind m f = rbind m' f'"
  by (cases m') auto

text \<open>A reader consumes part of a state of type \<open>'s\<close> and may throw.\<close>

type_synonym ('s, 'a) reader = "'s \<Rightarrow> ('a \<times> 's) res"

definition sreturn :: "'a \<Rightarrow> ('s, 'a) reader" where
  "sreturn x s = Inr (x, s)"

definition sthrow :: "exn \<Rightarrow> ('s, 'a) reader" where
  "sthrow e s = Inl e"

definition sbind :: "('s, 'a) reader \<Rightarrow> ('a \<Rightarrow> ('s, 'b) reader) \<Rightarrow> ('s, 'b) reader" where
  "sbind m f s = rbind (m s) (\<lambda>(x, s'). f x s')"

lemma sreturn_apply [simp]: "sreturn x s = Inr (x, s)"
  by (simp add: sreturn_def)

lemma sthrow_apply [simp]: "sthrow e s = Inl e"
  by (simp add: sthrow_def)

lemma sbind_Inr [simp]: "m s = Inr (x, s') \<Longrightarrow> sbind m f s = f x s'"
  by (simp add: sbind_def)

lemma sbind_Inl [simp]: "m s = Inl e \<Longrightarrow> sbind m f s = Inl e"
  by (simp add: sbind_def)

lemma sbind_eq_Inr:
  "sbind m f s = Inr (y, t) \<longleftrightarrow> (\<exists>x s'. m s = Inr (x, s') \<and> f x s' = Inr (y, t))"
  by (auto simp: sbind_def rbind_Inr_iff)

section \<open>Little-endian layout of machine words\<close>

text \<open>
  \<open>le_bytes n x\<close> is what \<open>memcpy\<close> of the first \<open>n\<close> bytes of an integer
  produces on the little-endian hosts the library supports; \<open>le_word\<close> reads such
  bytes back.
\<close>

definition le_bytes :: "nat \<Rightarrow> 'a::len word \<Rightarrow> bytes" where
  "le_bytes n x = map (\<lambda>i. ucast (drop_bit (8 * i) x)) [0..<n]"

fun le_word :: "bytes \<Rightarrow> 'a::len word" where
  "le_word [] = 0"
| "le_word (b # bs) = ucast b OR push_bit 8 (le_word bs)"

lemma length_le_bytes [simp]: "length (le_bytes n x) = n"
  by (simp add: le_bytes_def)

lemma bit_le_word [bitwise_simps]:
  "bit (le_word bs :: 'a::len word) i \<longleftrightarrow>
     i < LENGTH('a) \<and> i div 8 < length bs \<and> bit (bs ! (i div 8)) (i mod 8)"
proof (induction bs arbitrary: i)
  case Nil
  then show ?case by simp
next
  case (Cons b bs)
  show ?case
  proof (cases "i < 8")
    case True
    then show ?thesis
      by (auto simp: bit_simps)
  next
    case False
    then have "i div 8 = Suc ((i - 8) div 8)" and "i mod 8 = (i - 8) mod 8"
      by (simp_all add: div_if mod_if)
    moreover have "\<not> bit b i"
      using False bit_imp_le_length [of b i] by auto
    ultimately show ?thesis
      using False by (auto simp: bit_simps Cons.IH not_less)
  qed
qed

lemma bit_le_bytes [bitwise_simps]:
  fixes x :: "'a::len word"
  shows "j < n \<Longrightarrow> bit (le_bytes n x ! j) k \<longleftrightarrow> k < 8 \<and> bit x (8 * j + k)"
  using bit_imp_le_length [of x "8 * j + k"] by (auto simp: le_bytes_def bit_simps)

lemma le_word_le_bytes:
  fixes x :: "'a::len word"
  assumes "LENGTH('a) \<le> 8 * n"
  shows "le_word (le_bytes n x) = x"
proof (rule bit_word_eqI)
  fix i
  assume "i < LENGTH('a)"
  with assms have "i div 8 < n"
    by (simp add: div_less_iff_less_mult)
  then show "bit (le_word (le_bytes n x) :: 'a word) i = bit x i"
    using \<open>i < LENGTH('a)\<close> by (simp add: bit_le_word bit_le_bytes)
qed

lemma le_bytes_le_word:
  assumes "length bs = n" and "8 * n \<le> LENGTH('a::len)"
  shows "le_bytes n (le_word bs :: 'a word) = bs"
proof (rule nth_equalityI)
  show "length (le_bytes n (le_word bs :: 'a word)) = length bs"
    using assms by simp
next
  fix j
  assume "j < length (le_bytes n (le_word bs :: 'a word))"
  then have j: "j < n" by simp
  show "le_bytes n (le_word bs :: 'a word) ! j = bs ! j"
  proof (rule bit_word_eqI)
    fix k
    assume "k < LENGTH(8)"
    then have k: "k < 8" by simp
    then have "(8 * j + k) div 8 = j" and "(8 * j + k) mod 8 = k"
      by simp_all
    moreover have "8 * j + k < LENGTH('a)"
      using j k assms(2) by linarith
    ultimately show "bit (le_bytes n (le_word bs :: 'a word) ! j) k = bit (bs ! j) k"
      using j k assms(1) by (simp add: bit_le_bytes bit_le_word)
  qed
qed

lemma le_bytes_inj:
  fixes x y :: "'a::len word"
  shows "LENGTH('a) \<le> 8 * n \<Longrightarrow> le_bytes n x = le_bytes n y \<longleftrightarrow> x = y"
  by (metis le_word_le_bytes)

section \<open>Lists\<close>

lemma xor_list_cancel:
  fixes xs ys :: "'a::len word list"
  shows "length xs = length ys \<Longrightarrow> map2 (XOR) (map2 (XOR) xs ys) ys = xs"
  by (induction xs ys rule: list_induct2) (simp_all add: ac_simps)

lemma take_drop_split:
  "n \<le> length xs \<Longrightarrow> take n xs = ys \<Longrightarrow> xs = ys @ drop n xs"
  by auto

end
