(* ===== verification/Streams.thy ===== *)
theory Streams
  imports SparkPrelude
begin

text \<open>
  The byte buffer \<open>CDataStream\<close> of \<open>bitcoin/streams.h\<close> and the primitive
  readers and writers of \<open>bitcoin/serialize.h\<close> on top of it. The buffer is a vector
  with a read position; \<open>pending\<close> is what a reader still sees, and \<open>ds_wf\<close> is the
  invariant between the two fields. The refinement lemmas say that every operation acts on
  \<open>pending\<close> as on a plain queue of bytes, or throws and says so.
\<close>

section \<open>The buffer\<close>

record CDataStream =
  vch :: bytes
  nReadPos :: nat
  nType :: int
  nVersion :: int

definition SER_NETWORK :: int where "SER_NETWORK = 1"
definition SER_DISK :: int where "SER_DISK = 2"
definition SER_GETHASH :: int where "SER_GETHASH = 4"

definition ds_make :: "bytes \<Rightarrow> int \<Rightarrow> int \<Rightarrow> CDataStream" where
  "ds_make bs t v = \<lparr>vch = bs, nReadPos = 0, nType = t, nVersion = v\<rparr>"

definition ds_init :: "int \<Rightarrow> int \<Rightarrow> CDataStream" where
  "ds_init t v = ds_make [] t v"

definition pending :: "CDataStream \<Rightarrow> bytes" where
  "pending s = drop (nReadPos s) (vch s)"

text \<open>\<open>size_t\<close> subtraction wraps, so the size is written with its modulus.\<close>

definition ds_size :: "CDataStream \<Rightarrow> nat" where
  "ds_size s = nat ((int (length (vch s)) - int (nReadPos s)) mod 2 ^ 64)"

definition ds_empty :: "CDataStream \<Rightarrow> bool" where
  "ds_empty s \<longleftrightarrow> length (vch s) = nReadPos s"

definition ds_resize :: "nat \<Rightarrow> byte \<Rightarrow> CDataStream \<Rightarrow> CDataStream" where
  "ds_resize n c s =
     s\<lparr>vch := take (n + nReadPos s) (vch s) @ replicate (n + nReadPos s - length (vch s)) c\<rparr>"

definition ds_clear :: "CDataStream \<Rightarrow> CDataStream" where
  "ds_clear s = s\<lparr>vch := [], nReadPos := 0\<rparr>"

definition ds_compact :: "CDataStream \<Rightarrow> CDataStream" where
  "ds_compact s = s\<lparr>vch := drop (nReadPos s) (vch s), nReadPos := 0\<rparr>"

definition ds_rewind :: "nat \<Rightarrow> CDataStream \<Rightarrow> bool \<times> CDataStream" where
  "ds_rewind n s =
     (if n > nReadPos s then (False, s) else (True, s\<lparr>nReadPos := nReadPos s - n\<rparr>))"

definition ds_append :: "CDataStream \<Rightarrow> CDataStream \<Rightarrow> CDataStream" where
  "ds_append s b = s\<lparr>vch := vch s @ pending b\<rparr>"

definition ds_write :: "bytes \<Rightarrow> CDataStream \<Rightarrow> CDataStream" where
  "ds_write bs s = s\<lparr>vch := vch s @ bs\<rparr>"

text \<open>
  \<open>read\<close>: the next position is an \<open>unsigned int\<close>, so it is computed modulo
  \<open>2 ^ 32\<close>. When the sum wraps, the test passes and \<open>memcpy\<close> runs past the
  end of the vector; that run is \<open>Undefined\<close>.
\<close>

definition ds_read :: "nat \<Rightarrow> (CDataStream, bytes) reader" where
  "ds_read nSize s =
     (if nSize = 0 then Inr ([], s)
      else let nReadPosNext = (nReadPos s + nSize) mod 2 ^ 32 in
        if nReadPosNext > length (vch s) then Inl (Ios_Failure ''CDataStream::read(): end of data'')
        else if nReadPos s + nSize > length (vch s) then Inl (Undefined ''memcpy past the buffer'')
        else let out = take nSize (drop (nReadPos s) (vch s)) in
          if nReadPosNext = length (vch s) then Inr (out, s\<lparr>nReadPos := 0, vch := []\<rparr>)
          else Inr (out, s\<lparr>nReadPos := nReadPosNext\<rparr>))"

definition ds_ignore :: "int \<Rightarrow> (CDataStream, unit) reader" where
  "ds_ignore nSize s =
     (if nSize < 0 then Inl (Ios_Failure ''CDataStream::ignore(): nSize negative'')
      else let nReadPosNext = (nReadPos s + nat nSize) mod 2 ^ 32 in
        if nReadPosNext > length (vch s) then Inl (Ios_Failure ''CDataStream::ignore(): end of data'')
        else if nReadPosNext = length (vch s) then Inr ((), s\<lparr>nReadPos := 0, vch := []\<rparr>)
        else Inr ((), s\<lparr>nReadPos := nReadPosNext\<rparr>))"

text \<open>
  \<open>Xor\<close> walks the whole vector from index 0 while counting up to \<open>size()\<close>, the
  key index wrapping at the key's length.
\<close>

fun xor_bytes :: "nat \<Rightarrow> bytes \<Rightarrow> nat \<Rightarrow> bytes \<Rightarrow> bytes" where
  "xor_bytes 0 key j bs = bs"
| "xor_bytes (Suc n) key j [] = []"
| "xor_bytes (Suc n) key j (b # bs) =
     (b XOR key ! j) # xor_bytes n key (if Suc j = length key then 0 else Suc j) bs"

definition ds_xor :: "bytes \<Rightarrow> CDataStream \<Rightarrow> CDataStream" where
  "ds_xor key s = (if length key = 0 then s else s\<lparr>vch := xor_bytes (ds_size s) key 0 (vch s)\<rparr>)"

text \<open>\<open>erase(first, last)\<close> with the iterators as indices into the vector.\<close>

definition ds_erase :: "nat \<Rightarrow> nat \<Rightarrow> CDataStream \<Rightarrow> CDataStream" where
  "ds_erase i j s =
     (if i = nReadPos s then
        (if j = length (vch s) then s\<lparr>nReadPos := 0, vch := []\<rparr>
         else s\<lparr>nReadPos := j\<rparr>)
      else s\<lparr>vch := take i (vch s) @ drop j (vch s)\<rparr>)"

text \<open>
  \<open>insert(it, first, last)\<close>, with room in front used when it is there. The length is
  compared as an \<open>unsigned int\<close>; a longer insertion that passes the test would move the
  read position below zero.
\<close>

definition ds_insert :: "nat \<Rightarrow> bytes \<Rightarrow> CDataStream \<Rightarrow> CDataStream res" where
  "ds_insert it bs s =
     (if bs = [] then Inr s
      else if it = nReadPos s \<and> length bs mod 2 ^ 32 \<le> nReadPos s then
        (if length bs \<le> nReadPos s then
           Inr (s\<lparr>nReadPos := nReadPos s - length bs,
                  vch := take (nReadPos s - length bs) (vch s) @ bs @ drop (nReadPos s) (vch s)\<rparr>)
         else Inl (Undefined ''memcpy in front of the buffer''))
      else Inr (s\<lparr>vch := take it (vch s) @ bs @ drop it (vch s)\<rparr>))"

section \<open>The invariant and the queue it represents\<close>

definition MAX_SIZE :: nat where "MAX_SIZE = 0x02000000"

text \<open>
  The read position lies in the vector, and the vector is short enough that no read of up
  to \<open>MAX_SIZE\<close> bytes wraps the 32-bit position.
\<close>

definition ds_wf :: "CDataStream \<Rightarrow> bool" where
  "ds_wf s \<longleftrightarrow> nReadPos s \<le> length (vch s) \<and> length (vch s) + MAX_SIZE < 2 ^ 32"

lemma ds_wf_make: "length bs + MAX_SIZE < 2 ^ 32 \<Longrightarrow> ds_wf (ds_make bs t v)"
  by (simp add: ds_wf_def ds_make_def)

lemma pending_make [simp]: "pending (ds_make bs t v) = bs"
  by (simp add: pending_def ds_make_def)

lemma pending_init [simp]: "pending (ds_init t v) = []"
  by (simp add: ds_init_def)

lemma pending_write [simp]: "nReadPos s \<le> length (vch s) \<Longrightarrow> pending (ds_write bs s) = pending s @ bs"
  by (simp add: pending_def ds_write_def)

lemma vch_init [simp]: "vch (ds_init t v) = []" "nReadPos (ds_init t v) = 0"
  by (simp_all add: ds_init_def ds_make_def)

lemma vch_write [simp]: "vch (ds_write bs s) = vch s @ bs" "nReadPos (ds_write bs s) = nReadPos s"
  by (simp_all add: ds_write_def)

lemma ds_write_Nil [simp]: "ds_write [] s = s"
  by (simp add: ds_write_def)

lemma ds_write_append [simp]: "ds_write ys (ds_write xs s) = ds_write (xs @ ys) s"
  by (simp add: ds_write_def)

lemma ds_size_wf: "ds_wf s \<Longrightarrow> ds_size s = length (pending s)"
  by (simp add: ds_size_def pending_def ds_wf_def nat_mod_as_int of_nat_diff)

lemma ds_empty_wf: "ds_wf s \<Longrightarrow> ds_empty s \<longleftrightarrow> pending s = []"
  by (auto simp: ds_empty_def pending_def ds_wf_def)

text \<open>Reading is taking from the front of the queue.\<close>

lemma ds_read_ok:
  assumes wf: "ds_wf s" and n: "n \<le> length (pending s)"
  obtains s' where "ds_read n s = Inr (take n (pending s), s')"
    and "ds_wf s'" and "pending s' = drop n (pending s)"
proof (cases "n = 0")
  case True
  with that [of s] wf show ?thesis by (simp add: ds_read_def)
next
  case False
  let ?p = "nReadPos s + n"
  from wf n have le: "?p \<le> length (vch s)" and small: "length (vch s) + MAX_SIZE < 2 ^ 32"
    by (auto simp: pending_def ds_wf_def)
  then have md: "?p mod 2 ^ 32 = ?p"
    by simp
  show ?thesis
  proof (cases "?p = length (vch s)")
    case True
    with \<open>n \<noteq> 0\<close> md small that [of "s\<lparr>nReadPos := 0, vch := []\<rparr>"] show ?thesis
      by (simp add: ds_read_def pending_def ds_wf_def Let_def MAX_SIZE_def)
  next
    case neq: False
    with \<open>n \<noteq> 0\<close> md le small that [of "s\<lparr>nReadPos := ?p\<rparr>"] show ?thesis
      by (simp add: ds_read_def pending_def ds_wf_def Let_def add.commute)
  qed
qed

lemma ds_read_eof:
  assumes "ds_wf s" and "length (pending s) < n" and "n \<le> MAX_SIZE"
  shows "ds_read n s = Inl (Ios_Failure ''CDataStream::read(): end of data'')"
  using assms by (auto simp: ds_read_def pending_def ds_wf_def Let_def)

lemma ds_read_append:
  assumes "ds_wf s" and "pending s = bs @ rest"
  obtains s' where "ds_read (length bs) s = Inr (bs, s')" and "ds_wf s'" and "pending s' = rest"
proof -
  from assms(2) have n: "length bs \<le> length (pending s)" by simp
  from ds_read_ok [OF assms(1) n] obtain s' where
    "ds_read (length bs) s = Inr (take (length bs) (pending s), s')"
    and "ds_wf s'" and "pending s' = drop (length bs) (pending s)" .
  with assms(2) that [of s'] show ?thesis by simp
qed

text \<open>What a successful read returns is what it takes off the queue.\<close>

lemma ds_read_Inr:
  assumes "ds_read n s = Inr (bs, s')" and "ds_wf s"
  shows "length bs = n" and "pending s = bs @ pending s'" and "ds_wf s'"
proof -
  have n: "n \<le> length (pending s)"
    using assms by (auto simp: ds_read_def Let_def pending_def ds_wf_def split: if_splits)
  from ds_read_ok [OF assms(2) n] obtain t where "ds_read n s = Inr (take n (pending s), t)"
    and "ds_wf t" and "pending t = drop n (pending s)" .
  with assms(1) n show "length bs = n" and "pending s = bs @ pending s'" and "ds_wf s'"
    by auto
qed

lemma ds_ignore_wf:
  assumes "ds_wf s" and "0 \<le> n" and "n \<le> int (length (pending s))"
  shows "\<exists>s'. ds_ignore n s = Inr ((), s') \<and> ds_wf s' \<and> pending s' = drop (nat n) (pending s)"
proof -
  let ?p = "nReadPos s + nat n"
  from assms have "?p \<le> length (vch s)" and "length (vch s) + MAX_SIZE < 2 ^ 32"
    by (auto simp: pending_def ds_wf_def)
  then show ?thesis
    using assms(2)
    by (auto simp: ds_ignore_def Let_def pending_def ds_wf_def MAX_SIZE_def add.commute)
qed

lemma pending_clear [simp]: "pending (ds_clear s) = []"
  by (simp add: ds_clear_def pending_def)

lemma pending_compact [simp]: "pending (ds_compact s) = pending s"
  by (simp add: ds_compact_def pending_def)

lemma pending_append:
  "nReadPos s \<le> length (vch s) \<Longrightarrow> pending (ds_append s b) = pending s @ pending b"
  by (simp add: ds_append_def pending_def)

lemma pending_erase_front:
  "ds_wf s \<Longrightarrow> j \<le> length (vch s) \<Longrightarrow> nReadPos s \<le> j \<Longrightarrow>
   pending (ds_erase (nReadPos s) j s) = drop (j - nReadPos s) (pending s)"
  by (auto simp: ds_erase_def pending_def)

lemma pending_insert_front:
  "ds_wf s \<Longrightarrow> length bs < 2 ^ 32 \<Longrightarrow>
   \<exists>s'. ds_insert (nReadPos s) bs s = Inr s' \<and> pending s' = bs @ pending s"
  by (auto simp: ds_insert_def pending_def ds_wf_def)

lemma ds_rewind_read:
  assumes "ds_wf s" and "n < length (pending s)" and "ds_read n s = Inr (bs, s')"
  shows "pending (snd (ds_rewind n s')) = pending s" and "fst (ds_rewind n s')"
proof -
  from assms have "s' = s\<lparr>nReadPos := nReadPos s + n\<rparr>"
    by (auto simp: ds_read_def pending_def ds_wf_def Let_def split: if_splits)
  then show "pending (snd (ds_rewind n s')) = pending s" and "fst (ds_rewind n s')"
    by (simp_all add: ds_rewind_def pending_def)
qed

section \<open>Properties\<close>

text \<open>
  Reading from a well-formed stream acts on the unread bytes as on a queue: it returns the
  next bytes and keeps the stream well formed, or, when too few are left, throws and says so;
  it never reads past the buffer.
\<close>

lemma read_takes_the_next_bytes:
  assumes "ds_wf s" and "n \<le> MAX_SIZE"
  shows "if n \<le> length (pending s)
     then \<exists>s'. ds_read n s = Inr (take n (pending s), s') \<and> ds_wf s' \<and> pending s' = drop n (pending s)
     else ds_read n s = Inl (Ios_Failure ''CDataStream::read(): end of data'')"
proof (cases "n \<le> length (pending s)")
  case True
  then show ?thesis using ds_read_ok [OF assms(1) True] by metis
next
  case False
  then show ?thesis using ds_read_eof [OF assms(1) _ assms(2)] by simp
qed

end
