(* ===== verification/Serialize.thy ===== *)
theory Serialize
  imports Streams
begin

text \<open>
  The serialisation templates of \<open>bitcoin/serialize.h\<close>: fixed-width integers, compact
  sizes, variable-length integers, strings, byte vectors, vectors, pairs and the size
  computer. The locale \<open>serializable\<close> is the contract between a type and the streams:
  \<open>Serialize\<close> appends the type's layout, \<open>Unserialize\<close> takes it off again. The
  locale \<open>canonical\<close> adds that nothing but the layout is accepted. Both are interpreted
  here for every primitive and in the component theories for their own types.
\<close>

section \<open>The contract\<close>

type_synonym 'a writer = "'a \<Rightarrow> CDataStream \<Rightarrow> CDataStream"
type_synonym 'a sreader = "(CDataStream, 'a) reader"

locale serializable =
  fixes Ser :: "'a writer"
    and Unser :: "'a sreader"
    and enc :: "'a \<Rightarrow> bytes"
    and ok :: "'a \<Rightarrow> bool"
  assumes Ser_enc: "Ser x s = ds_write (enc x) s"
    and Unser_enc: "ok x \<Longrightarrow> ds_wf s \<Longrightarrow> pending s = enc x @ rest \<Longrightarrow>
      \<exists>s'. Unser s = Inr (x, s') \<and> ds_wf s' \<and> pending s' = rest"
begin

lemma Unser_encE:
  assumes "ok x" and "ds_wf s" and "pending s = enc x @ rest"
  obtains s' where "Unser s = Inr (x, s')" and "ds_wf s'" and "pending s' = rest"
  using Unser_enc [OF assms] by blast

lemma round_trip:
  assumes "ok x" and "length (enc x) + MAX_SIZE < 2 ^ 32"
  shows "\<exists>s'. Unser (Ser x (ds_init t v)) = Inr (x, s') \<and> ds_empty s'"
proof -
  have "ds_wf (Ser x (ds_init t v))"
    using assms(2) by (simp add: Ser_enc ds_wf_def)
  moreover have "pending (Ser x (ds_init t v)) = enc x @ []"
    by (simp add: Ser_enc)
  ultimately obtain s' where "Unser (Ser x (ds_init t v)) = Inr (x, s')" "ds_wf s'" "pending s' = []"
    by (rule Unser_encE [OF assms(1)])
  then show ?thesis
    by (auto simp: ds_empty_wf)
qed

lemma enc_prefix_free:
  assumes "ok x" and "ok y" and "enc x @ p = enc y @ q" and "length (enc x @ p) + MAX_SIZE < 2 ^ 32"
  shows "x = y \<and> p = q"
proof -
  let ?s = "ds_make (enc x @ p) 0 0"
  have wf: "ds_wf ?s"
    using assms(4) by (rule ds_wf_make)
  have "pending ?s = enc x @ p" and "pending ?s = enc y @ q"
    using assms(3) by simp_all
  from Unser_enc [OF assms(1) wf this(1)] Unser_enc [OF assms(2) wf this(2)]
  show ?thesis by auto
qed

end

locale canonical = serializable +
  assumes Unser_sound: "ds_wf s \<Longrightarrow> Unser s = Inr (x, s') \<Longrightarrow>
    ok x \<and> ds_wf s' \<and> pending s = enc x @ pending s'"
begin

lemma Unser_iff:
  assumes "ds_wf s"
  shows "(\<exists>s'. Unser s = Inr (x, s') \<and> pending s' = rest) \<longleftrightarrow> ok x \<and> pending s = enc x @ rest"
  using Unser_sound [OF assms] Unser_enc [OF _ assms] by blast

lemma sbind_Unser_soundE:
  assumes "sbind Unser f s = Inr (y, t)" and "ds_wf s"
  obtains x s' where "f x s' = Inr (y, t)" and "ok x" and "ds_wf s'" and "pending s = enc x @ pending s'"
  using assms Unser_sound by (auto simp: sbind_eq_Inr)

lemma accepts_only_own_output:
  assumes "length bs + MAX_SIZE < 2 ^ 32" and "Unser (ds_make bs t v) = Inr (x, s')" and "ds_empty s'"
  shows "ok x \<and> bs = vch (Ser x (ds_init t v))"
proof -
  have wf: "ds_wf (ds_make bs t v)"
    using assms(1) by (rule ds_wf_make)
  from Unser_sound [OF wf assms(2)] assms(3) show ?thesis
    by (auto simp: Ser_enc ds_empty_wf)
qed

end

section \<open>Fixed-width integers\<close>

definition ser_writedata8 :: "8 word writer" where
  "ser_writedata8 obj s = ds_write (le_bytes 1 obj) s"

definition ser_writedata16 :: "16 word writer" where
  "ser_writedata16 obj s = ds_write (le_bytes 2 obj) s"

definition ser_writedata32 :: "32 word writer" where
  "ser_writedata32 obj s = ds_write (le_bytes 4 obj) s"

definition ser_writedata64 :: "64 word writer" where
  "ser_writedata64 obj s = ds_write (le_bytes 8 obj) s"

definition ser_writedata32be :: "32 word writer" where
  "ser_writedata32be obj s = ds_write (rev (le_bytes 4 obj)) s"

definition ser_readdata8 :: "8 word sreader" where
  "ser_readdata8 = sbind (ds_read 1) (\<lambda>obj. sreturn (le_word obj))"

definition ser_readdata16 :: "16 word sreader" where
  "ser_readdata16 = sbind (ds_read 2) (\<lambda>obj. sreturn (le_word obj))"

definition ser_readdata32 :: "32 word sreader" where
  "ser_readdata32 = sbind (ds_read 4) (\<lambda>obj. sreturn (le_word obj))"

definition ser_readdata64 :: "64 word sreader" where
  "ser_readdata64 = sbind (ds_read 8) (\<lambda>obj. sreturn (le_word obj))"

definition ser_readdata32be :: "32 word sreader" where
  "ser_readdata32be = sbind (ds_read 4) (\<lambda>obj. sreturn (le_word (rev obj)))"

lemmas ser_int_defs = ser_writedata8_def ser_writedata16_def ser_writedata32_def
  ser_writedata64_def ser_writedata32be_def ser_readdata8_def ser_readdata16_def
  ser_readdata32_def ser_readdata64_def ser_readdata32be_def

text \<open>One lemma for all widths: reading \<open>n\<close> bytes and decoding them.\<close>

lemma canonical_read_decode:
  assumes "\<And>x s. S x s = ds_write (e x) s" and "\<And>x. length (e x) = n"
    and "\<And>x. d (e x) = x" and "\<And>bs. length bs = n \<Longrightarrow> e (d bs) = bs"
  shows "canonical S (sbind (ds_read n) (\<lambda>b. sreturn (d b))) e (\<lambda>_. True)"
proof unfold_locales
  fix x s
  show "S x s = ds_write (e x) s" by (rule assms(1))
next
  fix x s rest
  assume "ds_wf s" and "pending s = e x @ rest"
  then obtain s' where "ds_read (length (e x)) s = Inr (e x, s')" "ds_wf s'" "pending s' = rest"
    by (rule ds_read_append)
  then show "\<exists>s'. sbind (ds_read n) (\<lambda>b. sreturn (d b)) s = Inr (x, s') \<and> ds_wf s' \<and> pending s' = rest"
    by (simp add: assms(2,3))
next
  fix s x s'
  assume wf: "ds_wf s" and "sbind (ds_read n) (\<lambda>b. sreturn (d b)) s = Inr (x, s')"
  then obtain bs where r: "ds_read n s = Inr (bs, s')" and x: "x = d bs"
    by (auto simp: sbind_eq_Inr)
  from ds_read_Inr [OF r wf] show "True \<and> ds_wf s' \<and> pending s = e x @ pending s'"
    by (simp add: x assms(4))
qed

interpretation u8: canonical ser_writedata8 ser_readdata8 "le_bytes 1" "\<lambda>_. True"
  unfolding ser_readdata8_def
  by (rule canonical_read_decode) (simp_all add: ser_writedata8_def le_word_le_bytes le_bytes_le_word)

interpretation u16: canonical ser_writedata16 ser_readdata16 "le_bytes 2" "\<lambda>_. True"
  unfolding ser_readdata16_def
  by (rule canonical_read_decode) (simp_all add: ser_writedata16_def le_word_le_bytes le_bytes_le_word)

interpretation u32: canonical ser_writedata32 ser_readdata32 "le_bytes 4" "\<lambda>_. True"
  unfolding ser_readdata32_def
  by (rule canonical_read_decode) (simp_all add: ser_writedata32_def le_word_le_bytes le_bytes_le_word)

interpretation u64: canonical ser_writedata64 ser_readdata64 "le_bytes 8" "\<lambda>_. True"
  unfolding ser_readdata64_def
  by (rule canonical_read_decode) (simp_all add: ser_writedata64_def le_word_le_bytes le_bytes_le_word)

interpretation u32be: canonical ser_writedata32be ser_readdata32be "\<lambda>x. rev (le_bytes 4 x)" "\<lambda>_. True"
  unfolding ser_readdata32be_def
  by (rule canonical_read_decode)
    (simp_all add: ser_writedata32be_def le_word_le_bytes le_bytes_le_word)

section \<open>Compact sizes\<close>

definition GetSizeOfCompactSize :: "64 word \<Rightarrow> nat" where
  "GetSizeOfCompactSize nSize =
     (if nSize < 253 then 1
      else if nSize \<le> 0xFFFF then 1 + 2
      else if nSize \<le> 0xFFFFFFFF then 1 + 4
      else 1 + 8)"

definition WriteCompactSize :: "64 word writer" where
  "WriteCompactSize nSize os =
     (if nSize < 253 then ser_writedata8 (ucast nSize) os
      else if nSize \<le> 0xFFFF then ser_writedata16 (ucast nSize) (ser_writedata8 253 os)
      else if nSize \<le> 0xFFFFFFFF then ser_writedata32 (ucast nSize) (ser_writedata8 254 os)
      else ser_writedata64 nSize (ser_writedata8 255 os))"

definition check_compact_limit :: "64 word \<Rightarrow> 64 word sreader" where
  "check_compact_limit nSizeRet =
     (if nSizeRet > of_nat MAX_SIZE then sthrow (Ios_Failure ''ReadCompactSize(): size too large'')
      else sreturn nSizeRet)"

text \<open>\<open>ReadCompactSize_tail\<close> is the code after the first byte has been read.\<close>

definition ReadCompactSize_tail :: "8 word \<Rightarrow> 64 word sreader" where
  "ReadCompactSize_tail chSize =
    (if chSize < 253 then check_compact_limit (ucast chSize)
     else if chSize = 253 then sbind ser_readdata16 (\<lambda>w.
       let nSizeRet = ucast w :: 64 word in
       if nSizeRet < 253 then sthrow (Ios_Failure ''non-canonical ReadCompactSize()'')
       else check_compact_limit nSizeRet)
     else if chSize = 254 then sbind ser_readdata32 (\<lambda>w.
       let nSizeRet = ucast w :: 64 word in
       if nSizeRet < 0x10000 then sthrow (Ios_Failure ''non-canonical ReadCompactSize()'')
       else check_compact_limit nSizeRet)
     else sbind ser_readdata64 (\<lambda>nSizeRet.
       if nSizeRet < 0x100000000 then sthrow (Ios_Failure ''non-canonical ReadCompactSize()'')
       else check_compact_limit nSizeRet))"

definition ReadCompactSize :: "64 word sreader" where
  "ReadCompactSize = sbind ser_readdata8 ReadCompactSize_tail"

definition compact_bytes :: "64 word \<Rightarrow> bytes" where
  "compact_bytes n =
     (if n < 253 then le_bytes 1 (ucast n :: 8 word)
      else if n \<le> 0xFFFF then 253 # le_bytes 2 (ucast n :: 16 word)
      else if n \<le> 0xFFFFFFFF then 254 # le_bytes 4 (ucast n :: 32 word)
      else 255 # le_bytes 8 n)"

definition compact_ok :: "64 word \<Rightarrow> bool" where
  "compact_ok n \<longleftrightarrow> n \<le> of_nat MAX_SIZE"

lemma le_bytes_1 [simp]: "le_bytes (Suc 0) (b :: 8 word) = [b]"
  by (simp add: le_bytes_def)

lemma length_compact_bytes: "length (compact_bytes n) = GetSizeOfCompactSize n"
  by (simp add: compact_bytes_def GetSizeOfCompactSize_def)

lemma WriteCompactSize_bytes: "WriteCompactSize n s = ds_write (compact_bytes n) s"
  by (simp add: WriteCompactSize_def compact_bytes_def ser_int_defs)

lemma take_bit_word_small: "unat x < 2 ^ n \<Longrightarrow> take_bit n x = x" for x :: "'a::len word"
  by (simp add: word_unat_eq_iff unsigned_take_bit_eq take_bit_nat_eq_self)

lemma ucast_down_up:
  fixes x :: "64 word"
  assumes "unat x < 2 ^ LENGTH('b::len)"
  shows "ucast (ucast x :: 'b word) = x"
  using assms by (simp add: word_unat_eq_iff unsigned_ucast_eq take_bit_word_small)

lemma unat_ucast_up:
  fixes w :: "'a::len word"
  assumes "LENGTH('a) \<le> LENGTH('b)"
  shows "unat (ucast w :: 'b::len word) = unat w"
proof -
  have "unat w < 2 ^ LENGTH('b)"
    using unsigned_less [of w, where ?'a = nat] assms by (meson less_le_trans one_le_numeral power_increasing)
  then show ?thesis
    by (simp add: unsigned_ucast_eq take_bit_nat_eq_self)
qed

lemma ucast_up_down:
  fixes w :: "'a::len word"
  assumes "LENGTH('a) \<le> LENGTH('b::len)"
  shows "(ucast (ucast w :: 'b word) :: 'a word) = w"
proof -
  have "unat (ucast (ucast w :: 'b word) :: 'a word) = take_bit LENGTH('a) (unat w)"
    using assms by (simp only: unsigned_ucast_eq [where w = "ucast w"] unat_ucast_up)
  then show ?thesis
    by (simp add: word_unat_eq_iff take_bit_nat_eq_self [OF unsigned_less])
qed

lemma compact_limit_ok [simp]: "compact_ok n \<Longrightarrow> check_compact_limit n = sreturn n"
  by (simp add: check_compact_limit_def compact_ok_def not_less [symmetric])

lemma compact_limit_Inr: "check_compact_limit n s = Inr (x, t) \<longleftrightarrow> compact_ok n \<and> x = n \<and> t = s"
  by (auto simp: check_compact_limit_def compact_ok_def)

lemma ReadCompactSize_enc:
  assumes "compact_ok n" and "ds_wf s" and "pending s = compact_bytes n @ rest"
  shows "\<exists>s'. ReadCompactSize s = Inr (n, s') \<and> ds_wf s' \<and> pending s' = rest"
proof -
  let ?b = "(if n < 253 then ucast n else if n \<le> 0xFFFF then 253 else if n \<le> 0xFFFFFFFF then 254 else 255) :: 8 word"
  have "pending s = le_bytes 1 ?b @ (tl (compact_bytes n) @ rest)"
    by (simp add: assms(3) compact_bytes_def)
  then obtain s1 where r: "ser_readdata8 s = Inr (?b, s1)"
    and wf: "ds_wf s1" and p: "pending s1 = tl (compact_bytes n) @ rest"
    by (rule u8.Unser_encE [OF TrueI assms(2)])
  consider "n < 253" | "\<not> n < 253" "n \<le> 0xFFFF" | "\<not> n \<le> 0xFFFF" "n \<le> 0xFFFFFFFF" | "\<not> n \<le> 0xFFFFFFFF"
    by blast
  then show ?thesis
  proof cases
    case 1
    then have "unat n < 253" by (simp add: word_less_nat_alt)
    then have "(ucast n :: 8 word) < 253" and "ucast (ucast n :: 8 word) = n"
      by (simp_all add: word_less_nat_alt unsigned_ucast_eq take_bit_nat_eq_self take_bit_word_small)
    with 1 wf p assms(1) show ?thesis
      by (simp add: ReadCompactSize_def ReadCompactSize_tail_def r compact_bytes_def)
  next
    case 2
    then have "unat n < 2 ^ LENGTH(16)" by (simp add: word_le_nat_alt)
    then have u: "ucast (ucast n :: 16 word) = n" by (rule ucast_down_up)
    from 2 p have "pending s1 = le_bytes 2 (ucast n :: 16 word) @ rest"
      by (simp add: compact_bytes_def)
    then obtain s2 where "ser_readdata16 s1 = Inr (ucast n, s2)" and "ds_wf s2" "pending s2 = rest"
      by (rule u16.Unser_encE [OF TrueI wf])
    with 2 u assms(1) show ?thesis
      by (simp add: ReadCompactSize_def ReadCompactSize_tail_def r Let_def)
  next
    case 3
    then have "unat n < 2 ^ LENGTH(32)" by (simp add: word_le_nat_alt)
    then have u: "ucast (ucast n :: 32 word) = n" by (rule ucast_down_up)
    have n: "\<not> n < 253" "\<not> n < 0x10000" using 3 by (simp_all add: word_less_nat_alt word_le_nat_alt)
    from 3 n p have "pending s1 = le_bytes 4 (ucast n :: 32 word) @ rest"
      by (simp add: compact_bytes_def)
    then obtain s2 where "ser_readdata32 s1 = Inr (ucast n, s2)" and "ds_wf s2" "pending s2 = rest"
      by (rule u32.Unser_encE [OF TrueI wf])
    with 3 n u assms(1) show ?thesis
      by (simp add: ReadCompactSize_def ReadCompactSize_tail_def r Let_def)
  next
    case 4
    with assms(1) show ?thesis
      by (simp add: compact_ok_def MAX_SIZE_def word_le_nat_alt)
  qed
qed

lemma byte_not_small: "\<not> (c :: 8 word) < 253 \<Longrightarrow> c \<noteq> 253 \<Longrightarrow> c \<noteq> 254 \<Longrightarrow> c = 255"
  using unsigned_less [of c, where ?'a = nat] by (simp add: word_less_nat_alt word_unat_eq_iff)

lemma ReadCompactSize_sound:
  assumes "ds_wf s" and "ReadCompactSize s = Inr (n, s')"
  shows "compact_ok n \<and> ds_wf s' \<and> pending s = compact_bytes n @ pending s'"
proof -
  from assms(2) obtain c s1 where r: "ser_readdata8 s = Inr (c, s1)"
    and c: "ReadCompactSize_tail c s1 = Inr (n, s')"
    unfolding ReadCompactSize_def sbind_eq_Inr by blast
  from u8.Unser_sound [OF assms(1) r] have wf: "ds_wf s1" and p: "pending s = le_bytes 1 c @ pending s1"
    by simp_all
  consider "c < 253" | "c = 253" | "c = 254" | "c = 255"
    using byte_not_small by blast
  then show ?thesis
  proof cases
    case 1
    with c have n: "n = ucast c" "s' = s1" "compact_ok n"
      by (auto simp: ReadCompactSize_tail_def compact_limit_Inr)
    moreover have "n < 253" using 1 n(1) by (simp add: word_less_nat_alt unat_ucast_up)
    ultimately show ?thesis using p wf by (simp add: compact_bytes_def ucast_up_down)
  next
    case 2
    with c obtain w where r2: "ser_readdata16 s1 = Inr (w, s')" and n: "compact_ok n" "n = ucast w" "\<not> n < 253"
      by (auto simp: ReadCompactSize_tail_def Let_def sbind_eq_Inr compact_limit_Inr split: if_splits)
    from n(2) have "n \<le> 0xFFFF"
      using unsigned_less [of w, where ?'a = nat] by (simp add: word_le_nat_alt unat_ucast_up)
    with u16.Unser_sound [OF wf r2] n p 2 show ?thesis
      by (simp add: compact_bytes_def ucast_up_down)
  next
    case 3
    with c obtain w where r2: "ser_readdata32 s1 = Inr (w, s')" and n: "compact_ok n" "n = ucast w" "\<not> n < 0x10000"
      by (auto simp: ReadCompactSize_tail_def Let_def sbind_eq_Inr compact_limit_Inr split: if_splits)
    from n(2,3) have "n \<le> 0xFFFFFFFF" "\<not> n \<le> 0xFFFF" "\<not> n < 253"
      using unsigned_less [of w, where ?'a = nat]
      by (simp_all add: word_le_nat_alt word_less_nat_alt unat_ucast_up)
    with u32.Unser_sound [OF wf r2] n p 3 show ?thesis
      by (simp add: compact_bytes_def ucast_up_down)
  next
    case 4
    with c have "compact_ok n" "\<not> n < 0x100000000"
      by (auto simp: ReadCompactSize_tail_def sbind_eq_Inr compact_limit_Inr split: if_splits)
    then show ?thesis by (simp add: compact_ok_def MAX_SIZE_def word_le_nat_alt word_less_nat_alt)
  qed
qed

interpretation compact: canonical WriteCompactSize ReadCompactSize compact_bytes compact_ok
  by unfold_locales
    (simp add: WriteCompactSize_bytes, blast intro: ReadCompactSize_enc, blast dest: ReadCompactSize_sound)

lemma GetSizeOfCompactSize_le: "GetSizeOfCompactSize n \<le> 9" "0 < GetSizeOfCompactSize n"
  by (simp_all add: GetSizeOfCompactSize_def)

section \<open>Strings and byte vectors\<close>

text \<open>
  Lengths are written from a \<open>size_t\<close> and read back into an \<open>unsigned int\<close>.
  Vectors of bytes are read in blocks so that a bogus size does not allocate much.
\<close>

definition Serialize_string :: "bytes writer" where
  "Serialize_string str os =
     (let os = WriteCompactSize (of_nat (length str)) os in
      if str = [] then os else ds_write str os)"

definition Unserialize_string :: "bytes sreader" where
  "Unserialize_string = sbind ReadCompactSize (\<lambda>n.
     let nSize = unat (ucast n :: 32 word) in
     if nSize \<noteq> 0 then ds_read nSize else sreturn [])"

definition Serialize_bytes :: "bytes writer" where
  "Serialize_bytes v os =
     (let os = WriteCompactSize (of_nat (length v)) os in
      if v = [] then os else ds_write v os)"

function read_blocks :: "nat \<Rightarrow> nat \<Rightarrow> bytes \<Rightarrow> bytes sreader" where
  "read_blocks nSize i v s =
     (if i < nSize then
        let blk = min (nSize - i) (1 + 4999999 div 1) in
        (case ds_read blk s of Inl e \<Rightarrow> Inl e
         | Inr (bs, s') \<Rightarrow> read_blocks nSize (i + blk) (v @ bs) s')
      else Inr (v, s))"
  by pat_completeness auto
termination
  by (relation "measure (\<lambda>(nSize, i, v, s). nSize - i)") auto

declare read_blocks.simps [simp del]

definition Unserialize_bytes :: "bytes sreader" where
  "Unserialize_bytes = sbind ReadCompactSize (\<lambda>n.
     read_blocks (unat (ucast n :: 32 word)) 0 [])"

definition str_bytes :: "bytes \<Rightarrow> bytes" where
  "str_bytes v = compact_bytes (of_nat (length v)) @ v"

definition str_ok :: "bytes \<Rightarrow> bool" where
  "str_ok v \<longleftrightarrow> length v \<le> MAX_SIZE"

lemma str_ok_unat: "str_ok v \<Longrightarrow> unat (of_nat (length v) :: 64 word) = length v"
  by (simp add: str_ok_def MAX_SIZE_def unsigned_of_nat take_bit_nat_eq_self)

lemma str_ok_compact: "str_ok v \<Longrightarrow> compact_ok (of_nat (length v))"
  by (simp add: compact_ok_def word_le_nat_alt str_ok_unat) (simp add: str_ok_def MAX_SIZE_def)

lemma compact_ok_unat32:
  assumes "compact_ok n"
  shows "unat (ucast n :: 32 word) = unat n" and "unat n \<le> MAX_SIZE"
proof -
  have "unat n \<le> MAX_SIZE"
    using assms by (simp add: compact_ok_def word_le_nat_alt MAX_SIZE_def)
  then show "unat n \<le> MAX_SIZE" and "unat (ucast n :: 32 word) = unat n"
    by (simp_all add: unsigned_ucast_eq take_bit_nat_eq_self MAX_SIZE_def)
qed

text \<open>Reading in blocks is reading at once.\<close>

lemma read_blocks_ok:
  assumes "ds_wf s" and "pending s = bs @ rest" and "length bs = nSize - i"
  shows "\<exists>s'. read_blocks nSize i v s = Inr (v @ bs, s') \<and> ds_wf s' \<and> pending s' = rest"
  using assms
proof (induction nSize i v s arbitrary: bs rule: read_blocks.induct)
  case (1 nSize i v s)
  show ?case
  proof (cases "i < nSize")
    case False
    with 1 show ?thesis by (simp add: read_blocks.simps)
  next
    case True
    let ?blk = "min (nSize - i) (1 + 4999999 div 1)"
    have "?blk \<le> length (pending s)" and tk: "take ?blk (pending s) = take ?blk bs"
      and dr: "drop ?blk (pending s) = drop ?blk bs @ rest"
      using "1.prems"(2,3) by simp_all
    then obtain s1 where r: "ds_read ?blk s = Inr (take ?blk bs, s1)" and "ds_wf s1"
      and "pending s1 = drop ?blk bs @ rest"
      using ds_read_ok [OF "1.prems"(1)] by metis
    moreover have "length (drop ?blk bs) = nSize - (i + ?blk)"
      using "1.prems"(3) by simp
    ultimately obtain s' where "read_blocks nSize (i + ?blk) (v @ take ?blk bs) s1
        = Inr ((v @ take ?blk bs) @ drop ?blk bs, s')" and "ds_wf s'" and "pending s' = rest"
      using "1.IH" [OF True refl r refl] by blast
    with True r show ?thesis
      by (simp add: read_blocks.simps [of nSize i v s] Let_def del: min_def)
  qed
qed

lemma read_blocks_sound:
  assumes "ds_wf s" and "read_blocks nSize i v s = Inr (w, s')"
  shows "\<exists>bs. w = v @ bs \<and> length bs = nSize - i \<and> ds_wf s' \<and> pending s = bs @ pending s'"
  using assms
proof (induction nSize i v s arbitrary: w rule: read_blocks.induct)
  case (1 nSize i v s)
  show ?case
  proof (cases "i < nSize")
    case False
    with "1.prems" show ?thesis by (simp add: read_blocks.simps)
  next
    case True
    let ?blk = "min (nSize - i) (1 + 4999999 div 1)"
    from True "1.prems"(2) obtain bs s1 where r: "ds_read ?blk s = Inr (bs, s1)"
      and c: "read_blocks nSize (i + ?blk) (v @ bs) s1 = Inr (w, s')"
      by (auto simp: read_blocks.simps [of nSize i v s] Let_def split: sum.splits)
    note d = ds_read_Inr [OF r "1.prems"(1)]
    from "1.IH" [OF True refl r refl d(3) c] obtain cs where
      "w = (v @ bs) @ cs" "length cs = nSize - (i + ?blk)" "ds_wf s'" "pending s1 = cs @ pending s'"
      by blast
    with d True show ?thesis
      by (intro exI [of _ "bs @ cs"]) auto
  qed
qed

lemma Serialize_string_bytes: "Serialize_string v s = ds_write (str_bytes v) s"
  by (simp add: Serialize_string_def str_bytes_def WriteCompactSize_bytes Let_def)

lemma Serialize_bytes_bytes: "Serialize_bytes v s = ds_write (str_bytes v) s"
  by (simp add: Serialize_bytes_def str_bytes_def WriteCompactSize_bytes Let_def)

text \<open>The two readers accept the same input with the same result.\<close>

lemma read_sized_canonical:
  assumes ok: "\<And>s bs rest. ds_wf s \<Longrightarrow> pending s = bs @ rest \<Longrightarrow> length bs \<le> MAX_SIZE \<Longrightarrow>
      \<exists>s'. R (length bs) s = Inr (bs, s') \<and> ds_wf s' \<and> pending s' = rest"
    and sound: "\<And>s n w s'. ds_wf s \<Longrightarrow> R n s = Inr (w, s') \<Longrightarrow>
      length w = n \<and> ds_wf s' \<and> pending s = w @ pending s'"
    and S: "\<And>v s. S v s = ds_write (str_bytes v) s"
  shows "canonical S (sbind ReadCompactSize (\<lambda>n. R (unat (ucast n :: 32 word)))) str_bytes str_ok"
proof unfold_locales
  fix v s rest
  assume v: "str_ok v" and wf: "ds_wf s" and p: "pending s = str_bytes v @ rest"
  have "pending s = compact_bytes (of_nat (length v)) @ (v @ rest)"
    using p by (simp add: str_bytes_def)
  then obtain s1 where r: "ReadCompactSize s = Inr (of_nat (length v), s1)" and wf1: "ds_wf s1"
    and p1: "pending s1 = v @ rest"
    by (rule compact.Unser_encE [OF str_ok_compact [OF v] wf])
  have "unat (ucast (of_nat (length v) :: 64 word) :: 32 word) = length v"
    using compact_ok_unat32(1) [OF str_ok_compact [OF v]] v by (simp only: str_ok_unat)
  with ok [OF wf1 p1] v r
  show "\<exists>s'. sbind ReadCompactSize (\<lambda>n. R (unat (ucast n :: 32 word))) s = Inr (v, s')
      \<and> ds_wf s' \<and> pending s' = rest"
    by (simp add: str_ok_def)
next
  fix s v s'
  assume wf: "ds_wf s" and "sbind ReadCompactSize (\<lambda>n. R (unat (ucast n :: 32 word))) s = Inr (v, s')"
  then obtain n s1 where r: "ReadCompactSize s = Inr (n, s1)"
    and c: "R (unat (ucast n :: 32 word)) s1 = Inr (v, s')"
    by (auto simp only: sbind_eq_Inr)
  from compact.Unser_sound [OF wf r] have n: "compact_ok n" and wf1: "ds_wf s1"
    and p: "pending s = compact_bytes n @ pending s1" by simp_all
  from sound [OF wf1 c] n have "length v = unat n" "ds_wf s'" "pending s1 = v @ pending s'"
    by (simp_all add: compact_ok_unat32)
  moreover from this n have "of_nat (length v) = n" "str_ok v"
    by (simp_all add: str_ok_def compact_ok_unat32)
  ultimately show "str_ok v \<and> ds_wf s' \<and> pending s = str_bytes v @ pending s'"
    using p by (simp add: str_bytes_def)
qed (rule S)

definition read_some :: "nat \<Rightarrow> bytes sreader" where
  "read_some nSize = (if nSize \<noteq> 0 then ds_read nSize else sreturn [])"

interpretation str: canonical Serialize_string Unserialize_string str_bytes str_ok
  unfolding Unserialize_string_def Let_def read_some_def [symmetric]
proof (rule read_sized_canonical)
  fix s bs rest
  assume "ds_wf s" and "pending s = bs @ rest"
  then show "\<exists>s'. read_some (length bs) s = Inr (bs, s') \<and> ds_wf s' \<and> pending s' = rest"
    by (cases "bs = []") (auto simp: read_some_def elim: ds_read_append)
next
  fix s n w s'
  assume "ds_wf s" and "read_some n s = Inr (w, s')"
  then show "length w = n \<and> ds_wf s' \<and> pending s = w @ pending s'"
    by (cases "n = 0") (auto simp: read_some_def dest: ds_read_Inr)
qed (rule Serialize_string_bytes)

interpretation vec: canonical Serialize_bytes Unserialize_bytes str_bytes str_ok
  unfolding Unserialize_bytes_def
proof (rule read_sized_canonical)
  fix s bs rest
  assume "ds_wf s" and "pending s = bs @ rest"
  then show "\<exists>s'. read_blocks (length bs) 0 [] s = Inr (bs, s') \<and> ds_wf s' \<and> pending s' = rest"
    using read_blocks_ok [of s bs rest "length bs" 0 "[]"] by simp
next
  fix s n w s'
  assume "ds_wf s" and "read_blocks n 0 [] s = Inr (w, s')"
  then show "length w = n \<and> ds_wf s' \<and> pending s = w @ pending s'"
    using read_blocks_sound [of s n 0 "[]" w s'] by auto
qed (rule Serialize_bytes_bytes)

section \<open>Properties\<close>

text \<open>
  Compact sizes have one encoding each: the reader returns \<open>n\<close> exactly when the stream
  begins with the bytes the writer makes of \<open>n\<close>, and \<open>n\<close> is within the size limit; padded
  and oversized encodings are refused.
\<close>

lemma CompactSize_read_iff_written:
  assumes "ds_wf s"
  shows "(\<exists>s'. ReadCompactSize s = Inr (n, s') \<and> pending s' = rest) \<longleftrightarrow>
     n \<le> of_nat MAX_SIZE \<and> pending s = vch (WriteCompactSize n (ds_init SER_DISK 0)) @ rest"
  using compact.Unser_iff [OF assms] by (simp add: compact.Ser_enc compact_ok_def)

end
