(* ===== verification/Containers.thy ===== *)
theory Containers
  imports Serialize
begin

text \<open>
  The rest of \<open>bitcoin/serialize.h\<close>: booleans, pairs, vectors of elements of any
  serialisable type, variable-length integers and the size computer. A container of a type
  that meets the contract meets the contract.
\<close>

section \<open>Booleans and pairs\<close>

definition Serialize_bool :: "bool writer" where
  "Serialize_bool a s = ser_writedata8 (if a then 1 else 0) s"

definition Unserialize_bool :: "bool sreader" where
  "Unserialize_bool = sbind ser_readdata8 (\<lambda>f. sreturn (f \<noteq> 0))"

interpretation bool: serializable Serialize_bool Unserialize_bool
  "\<lambda>a. le_bytes 1 (if a then 1 else 0 :: 8 word)" "\<lambda>_. True"
proof unfold_locales
  fix a s rest
  assume wf: "ds_wf s" and p: "pending s = le_bytes 1 (if a then 1 else 0 :: 8 word) @ rest"
  from u8.Unser_enc [OF TrueI wf p]
  show "\<exists>s'. Unserialize_bool s = Inr (a, s') \<and> ds_wf s' \<and> pending s' = rest"
    by (auto simp: Unserialize_bool_def)
qed (simp add: Serialize_bool_def ser_writedata8_def)

definition Serialize_pair :: "'a writer \<Rightarrow> 'b writer \<Rightarrow> ('a \<times> 'b) writer" where
  "Serialize_pair K T item os = T (snd item) (K (fst item) os)"

definition Unserialize_pair :: "'a sreader \<Rightarrow> 'b sreader \<Rightarrow> ('a \<times> 'b) sreader" where
  "Unserialize_pair K T = sbind K (\<lambda>a. sbind T (\<lambda>b. sreturn (a, b)))"

lemma pair_canonical:
  assumes "canonical S1 U1 e1 ok1" and "canonical S2 U2 e2 ok2"
  shows "canonical (Serialize_pair S1 S2) (Unserialize_pair U1 U2)
    (\<lambda>p. e1 (fst p) @ e2 (snd p)) (\<lambda>p. ok1 (fst p) \<and> ok2 (snd p))"
proof unfold_locales
  note c1 = canonical.axioms(1) [OF assms(1)] and c2 = canonical.axioms(1) [OF assms(2)]
  fix p s
  show "Serialize_pair S1 S2 p s = ds_write (e1 (fst p) @ e2 (snd p)) s"
    by (simp add: Serialize_pair_def serializable.Ser_enc [OF c1] serializable.Ser_enc [OF c2])
next
  note c1 = canonical.axioms(1) [OF assms(1)] and c2 = canonical.axioms(1) [OF assms(2)]
  fix p s rest
  assume ok: "ok1 (fst p) \<and> ok2 (snd p)" and wf: "ds_wf s"
    and "pending s = (e1 (fst p) @ e2 (snd p)) @ rest"
  then have "pending s = e1 (fst p) @ (e2 (snd p) @ rest)" by simp
  with serializable.Unser_enc [OF c1] ok wf obtain s1 where
    "U1 s = Inr (fst p, s1)" and "ds_wf s1" and "pending s1 = e2 (snd p) @ rest"
    by blast
  with serializable.Unser_enc [OF c2] ok
  show "\<exists>s'. Unserialize_pair U1 U2 s = Inr (p, s') \<and> ds_wf s' \<and> pending s' = rest"
    by (fastforce simp: Unserialize_pair_def)
next
  fix s p s'
  assume wf: "ds_wf s" and "Unserialize_pair U1 U2 s = Inr (p, s')"
  then obtain s1 where r1: "U1 s = Inr (fst p, s1)" and r2: "U2 s1 = Inr (snd p, s')"
    by (auto simp: Unserialize_pair_def sbind_eq_Inr)
  with canonical.Unser_sound [OF assms(1) wf r1] canonical.Unser_sound [OF assms(2) _ r2]
  show "(ok1 (fst p) \<and> ok2 (snd p)) \<and> ds_wf s' \<and> pending s = (e1 (fst p) @ e2 (snd p)) @ pending s'"
    by auto
qed

section \<open>Vectors\<close>

definition Serialize_vector :: "'a writer \<Rightarrow> 'a list writer" where
  "Serialize_vector S v os = foldl (\<lambda>os vi. S vi os) (WriteCompactSize (of_nat (length v)) os) v"

fun read_elems :: "nat \<Rightarrow> 'a sreader \<Rightarrow> 'a list \<Rightarrow> 'a list sreader" where
  "read_elems 0 U v s = Inr (v, s)"
| "read_elems (Suc k) U v s =
     (case U s of Inl e \<Rightarrow> Inl e | Inr (x, s') \<Rightarrow> read_elems k U (v @ [x]) s')"

text \<open>
  The outer loop grows the vector by \<open>5000000 / sizeof(T)\<close> elements at a time; for a
  type larger than that the step is zero and the loop would not advance.
\<close>

function read_batches :: "nat \<Rightarrow> nat \<Rightarrow> 'a sreader \<Rightarrow> nat \<Rightarrow> 'a list \<Rightarrow> 'a list sreader" where
  "read_batches step nSize U i v s =
     (if i < nSize then
        (if step = 0 then Inl (Undefined ''loop without progress'')
         else let nMid = min nSize (i + step) in
           (case read_elems (nMid - i) U v s of Inl e \<Rightarrow> Inl e
            | Inr (v', s') \<Rightarrow> read_batches step nSize U nMid v' s'))
      else Inr (v, s))"
  by pat_completeness auto
termination
  by (relation "measure (\<lambda>(step, nSize, U, i, v, s). nSize - i)") auto

declare read_batches.simps [simp del]

definition Unserialize_vector :: "nat \<Rightarrow> 'a sreader \<Rightarrow> 'a list sreader" where
  "Unserialize_vector szT U = sbind ReadCompactSize (\<lambda>n.
     read_batches (5000000 div szT) (unat (ucast n :: 32 word)) U 0 [])"

definition vec_bytes :: "('a \<Rightarrow> bytes) \<Rightarrow> 'a list \<Rightarrow> bytes" where
  "vec_bytes e v = compact_bytes (of_nat (length v)) @ concat (map e v)"

definition vec_ok :: "('a \<Rightarrow> bool) \<Rightarrow> 'a list \<Rightarrow> bool" where
  "vec_ok ok v \<longleftrightarrow> length v \<le> MAX_SIZE \<and> list_all ok v"

lemma len_compact:
  assumes "length v \<le> MAX_SIZE"
  shows "compact_ok (of_nat (length v))" and "unat (ucast (of_nat (length v) :: 64 word) :: 32 word) = length v"
proof -
  have "str_ok (replicate (length v) 0)" using assms by (simp add: str_ok_def)
  from str_ok_compact [OF this] show c: "compact_ok (of_nat (length v))" by simp
  from \<open>str_ok (replicate (length v) 0)\<close> have "unat (of_nat (length v) :: 64 word) = length v"
    using str_ok_unat by fastforce
  with compact_ok_unat32(1) [OF c] show "unat (ucast (of_nat (length v) :: 64 word) :: 32 word) = length v"
    by simp
qed

context serializable begin

lemma Serialize_vector_enc: "Serialize_vector Ser v s = ds_write (vec_bytes enc v) s"
proof -
  have "foldl (\<lambda>os vi. Ser vi os) t v = ds_write (concat (map enc v)) t" for t
    by (induction v arbitrary: t) (simp_all add: Ser_enc)
  then show ?thesis
    by (simp add: Serialize_vector_def vec_bytes_def WriteCompactSize_bytes)
qed

lemma read_elems_ok:
  assumes "list_all ok xs" and "ds_wf s" and "pending s = concat (map enc xs) @ rest"
  shows "\<exists>s'. read_elems (length xs) Unser v s = Inr (v @ xs, s') \<and> ds_wf s' \<and> pending s' = rest"
  using assms
proof (induction xs arbitrary: v s)
  case Nil
  then show ?case by simp
next
  case (Cons x xs)
  then obtain s1 where "Unser s = Inr (x, s1)" "ds_wf s1" "pending s1 = concat (map enc xs) @ rest"
    using Unser_enc [of x s "concat (map enc xs) @ rest"] by auto
  with Cons.IH [of s1 "v @ [x]"] Cons.prems(1) show ?case by simp
qed

lemma read_batches_ok:
  assumes "0 < step" and "list_all ok xs" and "ds_wf s" and "pending s = concat (map enc xs) @ rest"
    and "length xs = nSize - i"
  shows "\<exists>s'. read_batches step nSize Unser i v s = Inr (v @ xs, s') \<and> ds_wf s' \<and> pending s' = rest"
  using assms(2-)
proof (induction "nSize - i" arbitrary: i v s xs rule: less_induct)
  case less
  show ?case
  proof (cases "i < nSize")
    case False
    with less.prems show ?thesis by (simp add: read_batches.simps)
  next
    case True
    let ?k = "min nSize (i + step) - i"
    have len: "length (take ?k xs) = ?k" using less.prems(4) by simp
    have "pending s = concat (map enc (take ?k xs)) @ (concat (map enc (drop ?k xs)) @ rest)"
      using less.prems(3)
      by (metis append_assoc append_take_drop_id concat_append map_append)
    moreover have ok: "list_all ok (take ?k xs)" "list_all ok (drop ?k xs)"
      using less.prems(1) by (metis append_take_drop_id list_all_append)+
    ultimately obtain s1 where r: "read_elems ?k Unser v s = Inr (v @ take ?k xs, s1)" and wf: "ds_wf s1"
      and p: "pending s1 = concat (map enc (drop ?k xs)) @ rest"
      using read_elems_ok [of "take ?k xs" s _ v] less.prems(2) len by metis
    have "nSize - min nSize (i + step) < nSize - i" using True assms(1) by simp
    moreover have "length (drop ?k xs) = nSize - min nSize (i + step)" using less.prems(4) by simp
    ultimately obtain s' where "read_batches step nSize Unser (min nSize (i + step)) (v @ take ?k xs) s1
        = Inr ((v @ take ?k xs) @ drop ?k xs, s')" "ds_wf s'" "pending s' = rest"
      using less.hyps [OF _ ok(2) wf p] by blast
    with True r assms(1) show ?thesis
      by (simp add: read_batches.simps [of step nSize Unser i v s] Let_def)
  qed
qed

lemma vector_serializable:
  assumes "0 < 5000000 div szT"
  shows "serializable (Serialize_vector Ser) (Unserialize_vector szT Unser) (vec_bytes enc) (vec_ok ok)"
proof unfold_locales
  fix v s rest
  assume v: "vec_ok ok v" and wf: "ds_wf s" and p: "pending s = vec_bytes enc v @ rest"
  from v have len: "length v \<le> MAX_SIZE" and all: "list_all ok v" by (simp_all add: vec_ok_def)
  from p have "pending s = compact_bytes (of_nat (length v)) @ (concat (map enc v) @ rest)"
    by (simp add: vec_bytes_def)
  then obtain s1 where r: "ReadCompactSize s = Inr (of_nat (length v), s1)" and "ds_wf s1"
    and "pending s1 = concat (map enc v) @ rest"
    by (rule compact.Unser_encE [OF len_compact(1) [OF len] wf])
  with read_batches_ok [OF assms all, of s1 rest "length v" 0 "[]"] len_compact(2) [OF len]
  show "\<exists>s'. Unserialize_vector szT Unser s = Inr (v, s') \<and> ds_wf s' \<and> pending s' = rest"
    by (simp add: Unserialize_vector_def)
qed (rule Serialize_vector_enc)

end

interpretation vec_u32: serializable "Serialize_vector ser_writedata32" "Unserialize_vector 4 ser_readdata32"
  "vec_bytes (le_bytes 4)" "vec_ok (\<lambda>_. True)"
  by (rule u32.vector_serializable) simp

interpretation vec_vec: serializable "Serialize_vector Serialize_bytes" "Unserialize_vector 24 Unserialize_bytes"
  "vec_bytes str_bytes" "vec_ok str_ok"
  by (rule vec.vector_serializable) simp

section \<open>Variable-length integers\<close>

text \<open>
  \<open>WriteVarInt\<close> and \<open>ReadVarInt\<close> at the type the library instantiates them
  with, \<open>uint32_t\<close>. The digits are collected in the array \<open>tmp\<close> of
  \<open>(sizeof(n)*8+6)/7 = 5\<close> bytes and written from its end; writing past the array is
  \<open>Undefined\<close>.
\<close>

function varint_digits :: "32 word \<Rightarrow> nat \<Rightarrow> bytes" where
  "varint_digits n len =
     (ucast (n AND 0x7F) OR (if len \<noteq> 0 then 0x80 else 0x00)) #
     (if n \<le> 0x7F then [] else varint_digits (drop_bit 7 n - 1) (Suc len))"
  by pat_completeness auto

lemma unat_varint_next:
  fixes n :: "32 word"
  assumes "\<not> n \<le> 0x7F"
  shows "unat (drop_bit 7 n - 1) = unat n div 128 - 1" and "128 \<le> unat n"
proof -
  show n: "128 \<le> unat n"
    using assms by (simp add: word_le_nat_alt)
  have "unat (drop_bit 7 n) = unat n div 128"
    by (simp add: drop_bit_eq_div unat_div_distrib)
  moreover from this n have "1 \<le> drop_bit 7 n"
    by (simp add: word_le_nat_alt)
  ultimately show "unat (drop_bit 7 n - 1) = unat n div 128 - 1"
    by (simp add: unat_sub)
qed

termination varint_digits
proof (relation "measure (\<lambda>(n, len). unat n)")
  fix n :: "32 word" and len :: nat
  assume "\<not> n \<le> 0x7F"
  from unat_varint_next [OF this] show "((drop_bit 7 n - 1, Suc len), n, len) \<in> measure (\<lambda>(n, len). unat n)"
    by simp
qed simp

declare varint_digits.simps [simp del]

definition WriteVarInt :: "32 word \<Rightarrow> CDataStream \<Rightarrow> CDataStream res" where
  "WriteVarInt n os =
     (let tmp = varint_digits n 0 in
      if length tmp > (4 * 8 + 6) div 7 then Inl (Undefined ''write past tmp'')
      else Inr (foldl (\<lambda>os b. ser_writedata8 b os) os (rev tmp)))"

function GetSizeOfVarInt :: "32 word \<Rightarrow> nat" where
  "GetSizeOfVarInt n = 1 + (if n \<le> 0x7F then 0 else GetSizeOfVarInt (drop_bit 7 n - 1))"
  by pat_completeness auto
termination
proof (relation "measure unat")
  fix n :: "32 word"
  assume "\<not> n \<le> 0x7F"
  from unat_varint_next [OF this] show "(drop_bit 7 n - 1, n) \<in> measure unat"
    by simp
qed simp

declare GetSizeOfVarInt.simps [simp del]

text \<open>
  The read loop has no bound of its own: it stops at a byte without the high bit or when
  the stream throws. \<open>None\<close> is the run that never returns.
\<close>

partial_function (option) ReadVarInt_loop ::
    "32 word \<Rightarrow> CDataStream \<Rightarrow> (32 word \<times> CDataStream) res option" where
  "ReadVarInt_loop n s =
     (case ser_readdata8 s of
        Inl e \<Rightarrow> Some (Inl e)
      | Inr (chData, s') \<Rightarrow>
          let n = push_bit 7 n OR ucast (chData AND 0x7F) in
          if chData AND 0x80 \<noteq> 0 then ReadVarInt_loop (n + 1) s' else Some (Inr (n, s')))"

definition ReadVarInt :: "CDataStream \<Rightarrow> (32 word \<times> CDataStream) res option" where
  "ReadVarInt s = ReadVarInt_loop 0 s"

lemma length_varint_digits: "length (varint_digits n len) = GetSizeOfVarInt n"
  by (induction n len rule: varint_digits.induct)
    (simp add: varint_digits.simps GetSizeOfVarInt.simps)

lemma GetSizeOfVarInt_bound: "0 < k \<Longrightarrow> unat n < 128 ^ k \<Longrightarrow> GetSizeOfVarInt n \<le> k"
proof (induction n arbitrary: k rule: GetSizeOfVarInt.induct)
  case (1 n)
  show ?case
  proof (cases "n \<le> 0x7F")
    case True
    with "1.prems"(1) show ?thesis by (simp add: GetSizeOfVarInt.simps)
  next
    case False
    from "1.prems" unat_varint_next(2) [OF False] obtain j where k: "k = Suc j" "0 < j"
      by (cases k; cases "k - 1") auto
    have "unat n div 128 < 128 ^ j"
      using "1.prems"(2) by (simp add: k div_less_iff_less_mult mult.commute)
    then have "unat (drop_bit 7 n - 1) < 128 ^ j"
      using unat_varint_next(1) [OF False] by simp
    from "1.IH" [OF False k(2) this] False show ?thesis
      by (subst GetSizeOfVarInt.simps) (simp add: k)
  qed
qed

lemma varint_fits: "length (varint_digits n 0) \<le> 5"
  using unsigned_less [of n, where ?'a = nat]
  by (simp add: length_varint_digits GetSizeOfVarInt_bound)

lemma WriteVarInt_bytes: "WriteVarInt n os = Inr (ds_write (rev (varint_digits n 0)) os)"
proof -
  have "foldl (\<lambda>os b. ser_writedata8 b os) os bs = ds_write bs os" for bs os
    by (induction bs arbitrary: os) (simp_all add: ser_writedata8_def)
  then show ?thesis
    using varint_fits [of n] by (simp add: WriteVarInt_def Let_def)
qed

lemma low7: "n AND 0x7F = take_bit 7 n" for n :: "'a::len word"
  by (simp add: take_bit_eq_mask mask_numeral)

lemma bit_80: "bit (128 :: int) i \<longleftrightarrow> i = 7"
proof -
  have "(128 :: int) = 2 ^ 7" by simp
  then show ?thesis by (simp only: bit_exp_iff) (auto simp: possible_bit_def)
qed

lemma push_drop_low7: "push_bit 7 (drop_bit 7 n) OR take_bit 7 n = (n :: 32 word)"
  by (rule bit_word_eqI) (auto simp: bit_simps)

lemma varint_byte:
  fixes n :: "32 word"
  shows "ucast ((ucast (n AND 0x7F) OR 0x80 :: 8 word) AND 0x7F) = take_bit 7 n"
    and "(ucast (n AND 0x7F) OR 0x80 :: 8 word) AND 0x80 \<noteq> 0"
    and "ucast (ucast (n AND 0x7F) AND 0x7F :: 8 word) = take_bit 7 n"
    and "(ucast (n AND 0x7F) :: 8 word) AND 0x80 = 0"
proof -
  show "ucast ((ucast (n AND 0x7F) OR 0x80 :: 8 word) AND 0x7F) = take_bit 7 n"
    and "ucast (ucast (n AND 0x7F) AND 0x7F :: 8 word) = take_bit 7 n"
    and "(ucast (n AND 0x7F) :: 8 word) AND 0x80 = 0"
    unfolding low7 by (rule bit_word_eqI; auto simp: bit_simps bit_80)+
  have "bit ((ucast (n AND 0x7F) OR 0x80 :: 8 word) AND 0x80) 7"
    by (simp add: bit_simps bit_80)
  then show "(ucast (n AND 0x7F) OR 0x80 :: 8 word) AND 0x80 \<noteq> 0"
    by auto
qed

text \<open>
  The digits written for positions above the last carry the high bit; reading them leaves
  the accumulator one above the value they encode, which undoes the subtraction of the
  writer.
\<close>

lemma ReadVarInt_high_digits:
  assumes "ds_wf s" and "pending s = rev (varint_digits m (Suc len)) @ rest"
  shows "\<exists>s'. ReadVarInt_loop 0 s = ReadVarInt_loop (m + 1) s' \<and> ds_wf s' \<and> pending s' = rest"
  using assms
proof (induction m "Suc len" arbitrary: len s rest rule: varint_digits.induct)
  case (1 m)
  let ?b = "ucast (m AND 0x7F) OR 0x80 :: 8 word"
  have digits: "varint_digits m (Suc len)
      = ?b # (if m \<le> 0x7F then [] else varint_digits (drop_bit 7 m - 1) (Suc (Suc len)))"
    by (subst varint_digits.simps) simp
  obtain s1 where start: "ReadVarInt_loop 0 s = ReadVarInt_loop (drop_bit 7 m) s1" and wf: "ds_wf s1"
    and p: "pending s1 = ?b # rest"
  proof (cases "m \<le> 0x7F")
    case True
    then have "drop_bit 7 m = 0"
      by (simp add: drop_bit_eq_div word_unat_eq_iff unat_div_distrib word_le_nat_alt)
    with True "1.prems" that [of s] show ?thesis by (simp add: digits)
  next
    case False
    with "1.prems"(2) have "pending s = rev (varint_digits (drop_bit 7 m - 1) (Suc (Suc len))) @ (?b # rest)"
      by (simp add: digits)
    from "1.hyps" [OF False "1.prems"(1) this] that show ?thesis by auto
  qed
  from p have "pending s1 = le_bytes 1 ?b @ rest" by simp
  then obtain s2 where "ser_readdata8 s1 = Inr (?b, s2)" "ds_wf s2" "pending s2 = rest"
    by (rule u8.Unser_encE [OF TrueI wf])
  then have "ReadVarInt_loop (drop_bit 7 m) s1 = ReadVarInt_loop (m + 1) s2"
    by (simp add: ReadVarInt_loop.simps [of _ s1] varint_byte push_drop_low7 Let_def)
  with start \<open>ds_wf s2\<close> \<open>pending s2 = rest\<close> show ?case by auto
qed

lemma ReadVarInt_written:
  assumes "ds_wf s" and "pending s = rev (varint_digits n 0) @ rest"
  shows "\<exists>s'. ReadVarInt s = Some (Inr (n, s')) \<and> ds_wf s' \<and> pending s' = rest"
proof -
  let ?b = "ucast (n AND 0x7F) :: 8 word"
  have digits: "varint_digits n 0 = ?b # (if n \<le> 0x7F then [] else varint_digits (drop_bit 7 n - 1) (Suc 0))"
    by (subst varint_digits.simps) simp
  obtain s1 where start: "ReadVarInt_loop 0 s = ReadVarInt_loop (drop_bit 7 n) s1" and wf: "ds_wf s1"
    and p: "pending s1 = ?b # rest"
  proof (cases "n \<le> 0x7F")
    case True
    then have "drop_bit 7 n = 0"
      by (simp add: drop_bit_eq_div word_unat_eq_iff unat_div_distrib word_le_nat_alt)
    with True assms that [of s] show ?thesis by (simp add: digits)
  next
    case False
    with assms(2) have "pending s = rev (varint_digits (drop_bit 7 n - 1) (Suc 0)) @ (?b # rest)"
      by (simp add: digits)
    from ReadVarInt_high_digits [OF assms(1) this] that show ?thesis by auto
  qed
  from p have "pending s1 = le_bytes 1 ?b @ rest" by simp
  then obtain s2 where "ser_readdata8 s1 = Inr (?b, s2)" "ds_wf s2" "pending s2 = rest"
    by (rule u8.Unser_encE [OF TrueI wf])
  with start show ?thesis
    by (simp add: ReadVarInt_def ReadVarInt_loop.simps [of _ s1] varint_byte push_drop_low7 Let_def)
qed

text \<open>On any well-formed stream the read loop returns: every turn takes a byte.\<close>

lemma ReadVarInt_returns: "ds_wf s \<Longrightarrow> \<exists>r. ReadVarInt_loop n s = Some r"
proof (induction "length (pending s)" arbitrary: n s rule: less_induct)
  case less
  show ?case
  proof (cases "ser_readdata8 s")
    case (Inl e)
    then show ?thesis by (simp add: ReadVarInt_loop.simps)
  next
    case (Inr p)
    then obtain b s' where r: "ser_readdata8 s = Inr (b, s')" by (cases p) simp
    from u8.Unser_sound [OF less.prems r] have "ds_wf s'" "length (pending s') < length (pending s)"
      by auto
    with less.hyps r show ?thesis
      by (simp add: ReadVarInt_loop.simps [of n s] Let_def)
  qed
qed

section \<open>The size computer\<close>

text \<open>
  \<open>CSizeComputer\<close> only counts what would be written. \<open>GetSerializeSize\<close> runs a
  type's serialiser against it; the two overloads that skip the work (\<open>WriteCompactSize\<close>
  and \<open>WriteVarInt\<close>) seek by a size computed apart.
\<close>

record CSizeComputer =
  sc_nSize :: nat
  sc_nType :: int
  sc_nVersion :: int

definition sc_init :: "int \<Rightarrow> int \<Rightarrow> CSizeComputer" where
  "sc_init t v = \<lparr>sc_nSize = 0, sc_nType = t, sc_nVersion = v\<rparr>"

definition sc_write :: "bytes \<Rightarrow> CSizeComputer \<Rightarrow> CSizeComputer" where
  "sc_write psz s = s\<lparr>sc_nSize := (sc_nSize s + length psz) mod 2 ^ 64\<rparr>"

definition sc_seek :: "nat \<Rightarrow> CSizeComputer \<Rightarrow> CSizeComputer" where
  "sc_seek n s = s\<lparr>sc_nSize := (sc_nSize s + n) mod 2 ^ 64\<rparr>"

definition sc_WriteCompactSize :: "64 word \<Rightarrow> CSizeComputer \<Rightarrow> CSizeComputer" where
  "sc_WriteCompactSize n s = sc_seek (GetSizeOfCompactSize n) s"

definition sc_WriteVarInt :: "32 word \<Rightarrow> CSizeComputer \<Rightarrow> CSizeComputer" where
  "sc_WriteVarInt n s = sc_seek (GetSizeOfVarInt n) s"

definition sc_Serialize_bytes :: "bytes \<Rightarrow> CSizeComputer \<Rightarrow> CSizeComputer" where
  "sc_Serialize_bytes v s =
     (let s = sc_WriteCompactSize (of_nat (length v)) s in
      if v = [] then s else sc_write v s)"

definition GetSerializeSize_bytes :: "bytes \<Rightarrow> int \<Rightarrow> int \<Rightarrow> nat" where
  "GetSerializeSize_bytes v t ver = sc_nSize (sc_Serialize_bytes v (sc_init t ver))"

lemma sc_seek_write: "sc_WriteCompactSize n s = sc_write (compact_bytes n) s"
  "sc_WriteVarInt m s = sc_write (rev (varint_digits m 0)) s"
  by (simp_all add: sc_WriteCompactSize_def sc_WriteVarInt_def sc_seek_def sc_write_def
      length_compact_bytes length_varint_digits)

lemma sc_write_append: "sc_write ys (sc_write xs s) = sc_write (xs @ ys) s"
  by (simp add: sc_write_def mod_simps add.assoc)

section \<open>Properties\<close>

text \<open>
  Variable-length integers round-trip and the reading loop ends: on a well-formed stream
  that starts with the bytes \<open>WriteVarInt\<close> makes of a 32-bit value, \<open>ReadVarInt\<close> returns that
  value and leaves the rest.
\<close>

lemma VarInt_round_trip:
  assumes "WriteVarInt n (ds_init t v) = Inr w" and "ds_wf s" and "pending s = vch w @ rest"
  shows "\<exists>s'. ReadVarInt s = Some (Inr (n, s')) \<and> pending s' = rest"
  using ReadVarInt_written [OF assms(2), of n rest] assms by (auto simp: WriteVarInt_bytes)

end
