(* ===== verification/Uint256.thy ===== *)
theory Uint256
  imports Containers
begin

text \<open>
  Hexadecimal text and fixed-size blobs: \<open>HexDigit\<close>, \<open>IsHex\<close>, \<open>ParseHex\<close>
  and \<open>HexStr\<close> of \<open>bitcoin/utilstrencodings\<close>, and \<open>base_blob\<close> of
  \<open>bitcoin/uint256\<close> as the list of its \<open>WIDTH\<close> bytes.
\<close>

section \<open>Hexadecimal digits\<close>

definition p_util_hexdigit :: "int list" where
  "p_util_hexdigit =
     replicate 48 (-1) @ [0,1,2,3,4,5,6,7,8,9,-1,-1,-1,-1,-1,-1] @
     [-1,0xa,0xb,0xc,0xd,0xe,0xf,-1,-1,-1,-1,-1,-1,-1,-1,-1] @ replicate 16 (-1) @
     [-1,0xa,0xb,0xc,0xd,0xe,0xf,-1,-1,-1,-1,-1,-1,-1,-1,-1] @ replicate 144 (-1)"

definition HexDigit :: "byte \<Rightarrow> int" where
  "HexDigit c = p_util_hexdigit ! unat c"

definition IsHex :: "bytes \<Rightarrow> bool" where
  "IsHex s \<longleftrightarrow> list_all (\<lambda>c. 0 \<le> HexDigit c) s \<and> 0 < length s \<and> length s mod 2 = 0"

text \<open>\<open>isspace\<close> in the C locale.\<close>

definition c_isspace :: "byte \<Rightarrow> bool" where
  "c_isspace c \<longleftrightarrow> c = 32 \<or> (9 \<le> c \<and> c \<le> 13)"

text \<open>
  \<open>ParseHex\<close> reads a C string: what follows the last character is a NUL, which is not a
  digit.
\<close>

function ParseHex :: "bytes \<Rightarrow> bytes" where
  "ParseHex psz =
     (case dropWhile c_isspace psz of
        [] \<Rightarrow> []
      | c # psz1 \<Rightarrow>
          if HexDigit c = -1 then []
          else (case psz1 of
              [] \<Rightarrow> []
            | d # psz2 \<Rightarrow>
                if HexDigit d = -1 then []
                else (push_bit 4 (of_int (HexDigit c)) OR of_int (HexDigit d)) # ParseHex psz2))"
  by pat_completeness auto
termination
proof (relation "measure length")
  fix psz c psz1 d and psz2 :: bytes
  assume "dropWhile c_isspace psz = c # psz1" and "psz1 = d # psz2"
  then show "(psz2, psz) \<in> measure length"
    using length_dropWhile_le [of c_isspace psz] by simp
qed simp

declare ParseHex.simps [simp del]

definition hexmap :: bytes where
  "hexmap = [0x30, 0x31, 0x32, 0x33, 0x34, 0x35, 0x36, 0x37, 0x38, 0x39,
             0x61, 0x62, 0x63, 0x64, 0x65, 0x66]"

definition hex_byte :: "byte \<Rightarrow> bytes" where
  "hex_byte val = [hexmap ! unat (drop_bit 4 val), hexmap ! unat (val AND 15)]"

definition HexStr :: "bytes \<Rightarrow> bytes" where
  "HexStr v = concat (map hex_byte v)"

lemma HexDigit_hexmap: "h < 16 \<Longrightarrow> HexDigit (hexmap ! h) = int h"
proof -
  have "\<forall>h \<in> set [0..<16]. HexDigit (hexmap ! h) = int h" by code_simp
  then show "h < 16 \<Longrightarrow> ?thesis" by simp
qed

lemma hexmap_not_space: "h < 16 \<Longrightarrow> \<not> c_isspace (hexmap ! h)"
proof -
  have "\<forall>h \<in> set [0..<16]. \<not> c_isspace (hexmap ! h)" by code_simp
  then show "h < 16 \<Longrightarrow> ?thesis" by simp
qed

lemma hexmap_not_x: "h < 16 \<Longrightarrow> hexmap ! h \<noteq> 0x78 \<and> hexmap ! h \<noteq> 0x58"
proof -
  have "\<forall>h \<in> set [0..<16]. hexmap ! h \<noteq> 0x78 \<and> hexmap ! h \<noteq> 0x58" by code_simp
  then show "h < 16 \<Longrightarrow> ?thesis" by simp
qed

lemma low4: "val AND 15 = take_bit 4 val" for val :: "'a::len word"
  by (simp add: take_bit_eq_mask mask_numeral)

lemma nibbles: "unat (drop_bit 4 val) < 16" "unat (val AND 15) < 16" for val :: byte
proof -
  show "unat (drop_bit 4 val) < 16"
    using unsigned_less [of val, where ?'a = nat] by (simp add: drop_bit_eq_div unat_div_distrib)
  show "unat (val AND 15) < 16"
    using take_bit_nat_less_exp [of 4 "unat val"] by (simp add: low4 unsigned_take_bit_eq)
qed

lemma join_nibbles: "push_bit 4 (drop_bit 4 val) OR (val AND 15) = val" for val :: byte
  unfolding low4 by (rule bit_word_eqI) (auto simp: bit_simps)

lemma ParseHex_HexStr: "ParseHex (HexStr v) = v"
proof (induction v)
  case Nil
  show ?case by (simp add: HexStr_def ParseHex.simps)
next
  case (Cons b v)
  have "ParseHex (HexStr (b # v)) =
      (push_bit 4 (of_nat (unat (drop_bit 4 b))) OR of_nat (unat (b AND 15))) # ParseHex (HexStr v)"
    using hexmap_not_space [OF nibbles(1) [of b]]
    by (subst ParseHex.simps)
      (simp add: HexStr_def hex_byte_def HexDigit_hexmap nibbles del: of_nat_unat)
  then show ?case by (simp add: Cons.IH join_nibbles)
qed

lemma IsHex_HexStr: "v \<noteq> [] \<Longrightarrow> IsHex (HexStr v)"
proof -
  have "list_all (\<lambda>c. 0 \<le> HexDigit c) (HexStr v)"
    by (induction v) (simp_all add: HexStr_def hex_byte_def HexDigit_hexmap nibbles)
  moreover have "length (HexStr v) = 2 * length v"
    by (induction v) (simp_all add: HexStr_def hex_byte_def)
  ultimately show "v \<noteq> [] \<Longrightarrow> IsHex (HexStr v)" by (simp add: IsHex_def)
qed

section \<open>Blobs\<close>

definition blob_null :: "nat \<Rightarrow> bytes" where
  "blob_null W = replicate W 0"

definition blob_IsNull :: "bytes \<Rightarrow> bool" where
  "blob_IsNull data \<longleftrightarrow> list_all (\<lambda>b. b = 0) data"

text \<open>The vector constructor asserts the size.\<close>

definition blob_of_vector :: "nat \<Rightarrow> bytes \<Rightarrow> bytes res" where
  "blob_of_vector W v =
     (if length v = W then Inr v else Inl (Undefined ''assertion vch.size() == sizeof(data)''))"

text \<open>\<open>memcmp\<close>: the sign of the first difference.\<close>

fun blob_Compare :: "bytes \<Rightarrow> bytes \<Rightarrow> int" where
  "blob_Compare (a # as) (b # bs) = (if a = b then blob_Compare as bs else if a < b then -1 else 1)"
| "blob_Compare _ _ = 0"

definition blob_less :: "bytes \<Rightarrow> bytes \<Rightarrow> bool" where
  "blob_less a b \<longleftrightarrow> blob_Compare a b < 0"

definition GetHex :: "bytes \<Rightarrow> bytes" where
  "GetHex data = concat (map (\<lambda>i. hex_byte (data ! (length data - i - 1))) [0..<length data])"

text \<open>
  \<open>SetHex\<close>: skip spaces and an optional \<open>0x\<close>, find the end of the digits, and fill
  the bytes from the last digit backwards. \<open>hex_fill W ds\<close> is the filling loop over the
  digits in reverse order.
\<close>

fun hex_fill :: "nat \<Rightarrow> bytes \<Rightarrow> bytes" where
  "hex_fill 0 ds = []"
| "hex_fill (Suc w) [] = replicate (Suc w) 0"
| "hex_fill (Suc w) [d] = of_int (HexDigit d) # replicate w 0"
| "hex_fill (Suc w) (d # e # ds) =
     (of_int (HexDigit d) OR push_bit 4 (of_int (HexDigit e))) # hex_fill w ds"

definition skip_0x :: "bytes \<Rightarrow> bytes" where
  "skip_0x psz =
     (case psz of a # b # rest \<Rightarrow> if a = 0x30 \<and> (b = 0x78 \<or> b = 0x58) then rest else psz | _ \<Rightarrow> psz)"

definition SetHex :: "nat \<Rightarrow> bytes \<Rightarrow> bytes" where
  "SetHex W psz =
     hex_fill W (rev (takeWhile (\<lambda>c. HexDigit c \<noteq> -1) (skip_0x (dropWhile c_isspace psz))))"

definition GetUint64 :: "bytes \<Rightarrow> nat \<Rightarrow> 64 word" where
  "GetUint64 data pos =
     (let ptr = drop (pos * 8) data in
      ucast (ptr ! 0) OR push_bit 8 (ucast (ptr ! 1)) OR push_bit 16 (ucast (ptr ! 2)) OR
      push_bit 24 (ucast (ptr ! 3)) OR push_bit 32 (ucast (ptr ! 4)) OR push_bit 40 (ucast (ptr ! 5)) OR
      push_bit 48 (ucast (ptr ! 6)) OR push_bit 56 (ucast (ptr ! 7)))"

definition GetFirstUint32 :: "bytes \<Rightarrow> 32 word" where
  "GetFirstUint32 data =
     ucast (data ! 0) OR push_bit 8 (ucast (data ! 1)) OR push_bit 16 (ucast (data ! 2)) OR
     push_bit 24 (ucast (data ! 3))"

definition trim256 :: "bytes \<Rightarrow> bytes" where
  "trim256 data = take 32 data"

definition Serialize_blob :: "bytes writer" where
  "Serialize_blob data s = ds_write data s"

definition Unserialize_blob :: "nat \<Rightarrow> bytes sreader" where
  "Unserialize_blob W = ds_read W"

lemma blob_canonical: "canonical Serialize_blob (Unserialize_blob W) (\<lambda>d. d) (\<lambda>d. length d = W)"
proof unfold_locales
  fix d s rest
  assume "length d = W" and "ds_wf s" and "pending s = d @ rest"
  then show "\<exists>s'. Unserialize_blob W s = Inr (d, s') \<and> ds_wf s' \<and> pending s' = rest"
    unfolding Unserialize_blob_def by (metis ds_read_append)
next
  fix s d s'
  assume "ds_wf s" and "Unserialize_blob W s = Inr (d, s')"
  then show "length d = W \<and> ds_wf s' \<and> pending s = d @ pending s'"
    unfolding Unserialize_blob_def by (blast dest: ds_read_Inr)
qed (simp add: Serialize_blob_def)

interpretation u256: canonical Serialize_blob "Unserialize_blob 32" "\<lambda>d. d" "\<lambda>d. length d = 32"
  by (rule blob_canonical)

lemma GetHex_rev: "GetHex data = concat (map hex_byte (rev data))"
proof -
  have "map (\<lambda>i. data ! (length data - i - 1)) [0..<length data] = rev data"
    by (rule nth_equalityI) (simp_all add: rev_nth)
  then have "map hex_byte (map (\<lambda>i. data ! (length data - i - 1)) [0..<length data]) = map hex_byte (rev data)"
    by simp
  then show ?thesis by (simp add: GetHex_def comp_def)
qed

lemma length_GetHex: "length (GetHex data) = 2 * length data"
  unfolding GetHex_rev by (induction data) (simp_all add: hex_byte_def)

lemma rev_GetHex: "rev (GetHex data) = concat (map (\<lambda>b. rev (hex_byte b)) data)"
  by (simp add: GetHex_rev rev_concat rev_map comp_def)

lemma GetHex_digits: "c \<in> set (GetHex data) \<Longrightarrow> \<exists>h<16. c = hexmap ! h"
  unfolding GetHex_rev using nibbles by (auto simp: hex_byte_def)

lemma hex_fill_GetHex: "hex_fill (length data) (rev (GetHex data)) = data"
proof -
  have "hex_fill (length data) (concat (map (\<lambda>b. rev (hex_byte b)) data)) = data"
    by (induction data)
      (simp_all add: hex_byte_def HexDigit_hexmap nibbles join_nibbles or.commute [of "_ AND 15"])
  then show ?thesis by (simp add: rev_GetHex)
qed

lemma SetHex_GetHex: "SetHex (length data) (GetHex data) = data"
proof -
  let ?h = "GetHex data"
  have nosp: "dropWhile c_isspace ?h = ?h"
  proof (cases ?h)
    case (Cons c cs)
    then have "\<not> c_isspace c"
      using GetHex_digits [of c data] hexmap_not_space by auto
    then show ?thesis by (simp add: Cons)
  qed simp
  have "skip_0x ?h = ?h"
  proof -
    have "c \<in> set ?h \<Longrightarrow> c \<noteq> 0x78 \<and> c \<noteq> 0x58" for c
      using GetHex_digits [of c data] hexmap_not_x by metis
    then show ?thesis by (auto simp: skip_0x_def split: list.split)
  qed
  moreover have "takeWhile (\<lambda>c. HexDigit c \<noteq> -1) ?h = ?h"
    using GetHex_digits HexDigit_hexmap by (fastforce simp: takeWhile_eq_all_conv)
  ultimately show ?thesis
    unfolding SetHex_def nosp by (simp only: hex_fill_GetHex)
qed

lemma length_SetHex: "length (SetHex W psz) = W"
proof -
  have "length (hex_fill W ds) = W" for ds
    by (induction W ds rule: hex_fill.induct) simp_all
  then show ?thesis by (simp add: SetHex_def)
qed

text \<open>\<open>Compare\<close> is a total order on blobs of one width.\<close>

lemma blob_Compare_eq: "length a = length b \<Longrightarrow> blob_Compare a b = 0 \<longleftrightarrow> a = b"
  by (induction a b rule: blob_Compare.induct) auto

lemma blob_Compare_anti: "blob_Compare b a = - blob_Compare a b"
  by (induction a b rule: blob_Compare.induct) auto

lemma blob_less_Cons: "blob_less (x # a) (y # b) \<longleftrightarrow> x < y \<or> (x = y \<and> blob_less a b)"
  by (simp add: blob_less_def)

lemma blob_less_trans:
  "length a = length b \<Longrightarrow> length b = length c \<Longrightarrow> blob_less a b \<Longrightarrow> blob_less b c \<Longrightarrow> blob_less a c"
proof (induction a arbitrary: b c)
  case Nil
  then show ?case by (simp add: blob_less_def)
next
  case (Cons x a)
  then obtain y b' z c' where "b = y # b'" "c = z # c'" by (metis length_Suc_conv)
  have "length a = length b'" "length b' = length c'"
    using Cons.prems(1,2) \<open>b = _\<close> \<open>c = _\<close> by simp_all
  then have "blob_less a b' \<Longrightarrow> blob_less b' c' \<Longrightarrow> blob_less a c'"
    by (rule Cons.IH)
  moreover have "x < y \<or> x = y \<and> blob_less a b'" "y < z \<or> y = z \<and> blob_less b' c'"
    using Cons.prems(3,4) by (simp_all only: blob_less_Cons \<open>b = _\<close> \<open>c = _\<close>)
  ultimately have "x < z \<or> x = z \<and> blob_less a c'" using order.strict_trans [of x y z] by blast
  then show ?case by (simp only: blob_less_Cons \<open>c = _\<close>)
qed

lemma blob_less_total: "length a = length b \<Longrightarrow> a \<noteq> b \<Longrightarrow> blob_less a b \<noteq> blob_less b a"
  using blob_Compare_eq [of a b] blob_Compare_anti [of a b] by (auto simp: blob_less_def)

section \<open>Properties\<close>

text \<open>
  Hexadecimal text round-trips: parsing the hex string of a byte vector gives the vector,
  and a blob of any width is read back from its reversed hex form.
\<close>

lemma hex_round_trips: "ParseHex (HexStr v) = v \<and> SetHex (length data) (GetHex data) = data"
  by (simp add: ParseHex_HexStr SetHex_GetHex)

end
