(* ===== verification/Script.thy ===== *)
theory Script
  imports Uint256
begin

text \<open>
  \<open>bitcoin/script.h\<close> and \<open>bitcoin/script.cpp\<close>: the opcode enumeration and its
  names, script numbers (\<open>CScriptNum\<close>), pushing onto a script, parsing it back
  (\<open>GetOp2\<close>) and the predicates that classify a script. A script is the list of its
  bytes; an iterator into it is the list of the bytes from there to the end.
\<close>

section \<open>Opcodes\<close>

text \<open>
  An \<open>opcodetype\<close> is a byte: the code casts any byte to it. The enumerators with their
  values, the four aliases last.
\<close>

definition opcodetype :: "(string \<times> byte) list" where
  "opcodetype = [
     (''OP_0'', 0x0), (''OP_PUSHDATA1'', 0x4c), (''OP_PUSHDATA2'', 0x4d), (''OP_PUSHDATA4'', 0x4e),
     (''OP_1NEGATE'', 0x4f), (''OP_RESERVED'', 0x50), (''OP_1'', 0x51), (''OP_2'', 0x52),
     (''OP_3'', 0x53), (''OP_4'', 0x54), (''OP_5'', 0x55), (''OP_6'', 0x56), (''OP_7'', 0x57),
     (''OP_8'', 0x58), (''OP_9'', 0x59), (''OP_10'', 0x5a), (''OP_11'', 0x5b), (''OP_12'', 0x5c),
     (''OP_13'', 0x5d), (''OP_14'', 0x5e), (''OP_15'', 0x5f), (''OP_16'', 0x60),
     (''OP_NOP'', 0x61), (''OP_VER'', 0x62), (''OP_IF'', 0x63), (''OP_NOTIF'', 0x64),
     (''OP_VERIF'', 0x65), (''OP_VERNOTIF'', 0x66), (''OP_ELSE'', 0x67), (''OP_ENDIF'', 0x68),
     (''OP_VERIFY'', 0x69), (''OP_RETURN'', 0x6a), (''OP_TOALTSTACK'', 0x6b),
     (''OP_FROMALTSTACK'', 0x6c), (''OP_2DROP'', 0x6d), (''OP_2DUP'', 0x6e), (''OP_3DUP'', 0x6f),
     (''OP_2OVER'', 0x70), (''OP_2ROT'', 0x71), (''OP_2SWAP'', 0x72), (''OP_IFDUP'', 0x73),
     (''OP_DEPTH'', 0x74), (''OP_DROP'', 0x75), (''OP_DUP'', 0x76), (''OP_NIP'', 0x77),
     (''OP_OVER'', 0x78), (''OP_PICK'', 0x79), (''OP_ROLL'', 0x7a), (''OP_ROT'', 0x7b),
     (''OP_SWAP'', 0x7c), (''OP_TUCK'', 0x7d), (''OP_CAT'', 0x7e), (''OP_SUBSTR'', 0x7f),
     (''OP_LEFT'', 0x80), (''OP_RIGHT'', 0x81), (''OP_SIZE'', 0x82), (''OP_INVERT'', 0x83),
     (''OP_AND'', 0x84), (''OP_OR'', 0x85), (''OP_XOR'', 0x86), (''OP_EQUAL'', 0x87),
     (''OP_EQUALVERIFY'', 0x88), (''OP_RESERVED1'', 0x89), (''OP_RESERVED2'', 0x8a),
     (''OP_1ADD'', 0x8b), (''OP_1SUB'', 0x8c), (''OP_2MUL'', 0x8d), (''OP_2DIV'', 0x8e),
     (''OP_NEGATE'', 0x8f), (''OP_ABS'', 0x90), (''OP_NOT'', 0x91), (''OP_0NOTEQUAL'', 0x92),
     (''OP_ADD'', 0x93), (''OP_SUB'', 0x94), (''OP_MUL'', 0x95), (''OP_DIV'', 0x96),
     (''OP_MOD'', 0x97), (''OP_LSHIFT'', 0x98), (''OP_RSHIFT'', 0x99), (''OP_BOOLAND'', 0x9a),
     (''OP_BOOLOR'', 0x9b), (''OP_NUMEQUAL'', 0x9c), (''OP_NUMEQUALVERIFY'', 0x9d),
     (''OP_NUMNOTEQUAL'', 0x9e), (''OP_LESSTHAN'', 0x9f), (''OP_GREATERTHAN'', 0xa0),
     (''OP_LESSTHANOREQUAL'', 0xa1), (''OP_GREATERTHANOREQUAL'', 0xa2), (''OP_MIN'', 0xa3),
     (''OP_MAX'', 0xa4), (''OP_WITHIN'', 0xa5), (''OP_RIPEMD160'', 0xa6), (''OP_SHA1'', 0xa7),
     (''OP_SHA256'', 0xa8), (''OP_HASH160'', 0xa9), (''OP_HASH256'', 0xaa),
     (''OP_CODESEPARATOR'', 0xab), (''OP_CHECKSIG'', 0xac), (''OP_CHECKSIGVERIFY'', 0xad),
     (''OP_CHECKMULTISIG'', 0xae), (''OP_CHECKMULTISIGVERIFY'', 0xaf), (''OP_NOP1'', 0xb0),
     (''OP_CHECKLOCKTIMEVERIFY'', 0xb1), (''OP_CHECKSEQUENCEVERIFY'', 0xb2), (''OP_NOP4'', 0xb3),
     (''OP_NOP5'', 0xb4), (''OP_NOP6'', 0xb5), (''OP_NOP7'', 0xb6), (''OP_NOP8'', 0xb7),
     (''OP_NOP9'', 0xb8), (''OP_NOP10'', 0xb9), (''OP_SMALLINTEGER'', 0xfa),
     (''OP_PUBKEYS'', 0xfb), (''OP_PUBKEYHASH'', 0xfd), (''OP_PUBKEY'', 0xfe),
     (''OP_INVALIDOPCODE'', 0xff), (''OP_ZEROCOINMINT'', 0xc1), (''OP_ZEROCOINSPEND'', 0xc2),
     (''OP_SIGMAMINT'', 0xc3), (''OP_SIGMASPEND'', 0xc4), (''OP_LELANTUSMINT'', 0xc5),
     (''OP_LELANTUSJMINT'', 0xc6), (''OP_LELANTUSJOINSPLIT'', 0xc7),
     (''OP_LELANTUSJOINSPLITPAYLOAD'', 0xc9), (''OP_ZEROCOINTOSIGMAREMINT'', 0xc8),
     (''OP_SPARKMINT'', 0xd1), (''OP_SPARKSMINT'', 0xd2), (''OP_SPARKSPEND'', 0xd3),
     (''OP_FALSE'', 0x0), (''OP_TRUE'', 0x51), (''OP_NOP2'', 0xb1), (''OP_NOP3'', 0xb2)]"

abbreviation (input) OP_0 :: byte where "OP_0 \<equiv> 0x0"
abbreviation (input) OP_PUSHDATA1 :: byte where "OP_PUSHDATA1 \<equiv> 0x4c"
abbreviation (input) OP_PUSHDATA2 :: byte where "OP_PUSHDATA2 \<equiv> 0x4d"
abbreviation (input) OP_PUSHDATA4 :: byte where "OP_PUSHDATA4 \<equiv> 0x4e"
abbreviation (input) OP_1 :: byte where "OP_1 \<equiv> 0x51"
abbreviation (input) OP_16 :: byte where "OP_16 \<equiv> 0x60"
abbreviation (input) OP_RETURN :: byte where "OP_RETURN \<equiv> 0x6a"
abbreviation (input) OP_DUP :: byte where "OP_DUP \<equiv> 0x76"
abbreviation (input) OP_EQUAL :: byte where "OP_EQUAL \<equiv> 0x87"
abbreviation (input) OP_EQUALVERIFY :: byte where "OP_EQUALVERIFY \<equiv> 0x88"
abbreviation (input) OP_HASH160 :: byte where "OP_HASH160 \<equiv> 0xa9"
abbreviation (input) OP_CHECKSIG :: byte where "OP_CHECKSIG \<equiv> 0xac"
abbreviation (input) OP_CHECKSIGVERIFY :: byte where "OP_CHECKSIGVERIFY \<equiv> 0xad"
abbreviation (input) OP_CHECKMULTISIG :: byte where "OP_CHECKMULTISIG \<equiv> 0xae"
abbreviation (input) OP_CHECKMULTISIGVERIFY :: byte where "OP_CHECKMULTISIGVERIFY \<equiv> 0xaf"
abbreviation (input) OP_INVALIDOPCODE :: byte where "OP_INVALIDOPCODE \<equiv> 0xff"
abbreviation (input) OP_ZEROCOINMINT :: byte where "OP_ZEROCOINMINT \<equiv> 0xc1"
abbreviation (input) OP_ZEROCOINSPEND :: byte where "OP_ZEROCOINSPEND \<equiv> 0xc2"
abbreviation (input) OP_SIGMAMINT :: byte where "OP_SIGMAMINT \<equiv> 0xc3"
abbreviation (input) OP_SIGMASPEND :: byte where "OP_SIGMASPEND \<equiv> 0xc4"
abbreviation (input) OP_LELANTUSMINT :: byte where "OP_LELANTUSMINT \<equiv> 0xc5"
abbreviation (input) OP_LELANTUSJMINT :: byte where "OP_LELANTUSJMINT \<equiv> 0xc6"
abbreviation (input) OP_LELANTUSJOINSPLIT :: byte where "OP_LELANTUSJOINSPLIT \<equiv> 0xc7"
abbreviation (input) OP_LELANTUSJOINSPLITPAYLOAD :: byte where "OP_LELANTUSJOINSPLITPAYLOAD \<equiv> 0xc9"
abbreviation (input) OP_ZEROCOINTOSIGMAREMINT :: byte where "OP_ZEROCOINTOSIGMAREMINT \<equiv> 0xc8"
abbreviation (input) OP_SPARKMINT :: byte where "OP_SPARKMINT \<equiv> 0xd1"
abbreviation (input) OP_SPARKSMINT :: byte where "OP_SPARKSMINT \<equiv> 0xd2"
abbreviation (input) OP_SPARKSPEND :: byte where "OP_SPARKSPEND \<equiv> 0xd3"

definition GetOpName_table :: "(byte \<times> string) list" where
  "GetOpName_table = [
     (0x0, ''0''), (0x4c, ''OP_PUSHDATA1''), (0x4d, ''OP_PUSHDATA2''), (0x4e, ''OP_PUSHDATA4''),
     (0x4f, ''-1''), (0x50, ''OP_RESERVED''), (0x51, ''1''), (0x52, ''2''), (0x53, ''3''),
     (0x54, ''4''), (0x55, ''5''), (0x56, ''6''), (0x57, ''7''), (0x58, ''8''), (0x59, ''9''),
     (0x5a, ''10''), (0x5b, ''11''), (0x5c, ''12''), (0x5d, ''13''), (0x5e, ''14''),
     (0x5f, ''15''), (0x60, ''16''), (0x61, ''OP_NOP''), (0x62, ''OP_VER''), (0x63, ''OP_IF''),
     (0x64, ''OP_NOTIF''), (0x65, ''OP_VERIF''), (0x66, ''OP_VERNOTIF''), (0x67, ''OP_ELSE''),
     (0x68, ''OP_ENDIF''), (0x69, ''OP_VERIFY''), (0x6a, ''OP_RETURN''), (0x6b, ''OP_TOALTSTACK''),
     (0x6c, ''OP_FROMALTSTACK''), (0x6d, ''OP_2DROP''), (0x6e, ''OP_2DUP''), (0x6f, ''OP_3DUP''),
     (0x70, ''OP_2OVER''), (0x71, ''OP_2ROT''), (0x72, ''OP_2SWAP''), (0x73, ''OP_IFDUP''),
     (0x74, ''OP_DEPTH''), (0x75, ''OP_DROP''), (0x76, ''OP_DUP''), (0x77, ''OP_NIP''),
     (0x78, ''OP_OVER''), (0x79, ''OP_PICK''), (0x7a, ''OP_ROLL''), (0x7b, ''OP_ROT''),
     (0x7c, ''OP_SWAP''), (0x7d, ''OP_TUCK''), (0x7e, ''OP_CAT''), (0x7f, ''OP_SUBSTR''),
     (0x80, ''OP_LEFT''), (0x81, ''OP_RIGHT''), (0x82, ''OP_SIZE''), (0x83, ''OP_INVERT''),
     (0x84, ''OP_AND''), (0x85, ''OP_OR''), (0x86, ''OP_XOR''), (0x87, ''OP_EQUAL''),
     (0x88, ''OP_EQUALVERIFY''), (0x89, ''OP_RESERVED1''), (0x8a, ''OP_RESERVED2''),
     (0x8b, ''OP_1ADD''), (0x8c, ''OP_1SUB''), (0x8d, ''OP_2MUL''), (0x8e, ''OP_2DIV''),
     (0x8f, ''OP_NEGATE''), (0x90, ''OP_ABS''), (0x91, ''OP_NOT''), (0x92, ''OP_0NOTEQUAL''),
     (0x93, ''OP_ADD''), (0x94, ''OP_SUB''), (0x95, ''OP_MUL''), (0x96, ''OP_DIV''),
     (0x97, ''OP_MOD''), (0x98, ''OP_LSHIFT''), (0x99, ''OP_RSHIFT''), (0x9a, ''OP_BOOLAND''),
     (0x9b, ''OP_BOOLOR''), (0x9c, ''OP_NUMEQUAL''), (0x9d, ''OP_NUMEQUALVERIFY''),
     (0x9e, ''OP_NUMNOTEQUAL''), (0x9f, ''OP_LESSTHAN''), (0xa0, ''OP_GREATERTHAN''),
     (0xa1, ''OP_LESSTHANOREQUAL''), (0xa2, ''OP_GREATERTHANOREQUAL''), (0xa3, ''OP_MIN''),
     (0xa4, ''OP_MAX''), (0xa5, ''OP_WITHIN''), (0xa6, ''OP_RIPEMD160''), (0xa7, ''OP_SHA1''),
     (0xa8, ''OP_SHA256''), (0xa9, ''OP_HASH160''), (0xaa, ''OP_HASH256''),
     (0xab, ''OP_CODESEPARATOR''), (0xac, ''OP_CHECKSIG''), (0xad, ''OP_CHECKSIGVERIFY''),
     (0xae, ''OP_CHECKMULTISIG''), (0xaf, ''OP_CHECKMULTISIGVERIFY''), (0xb0, ''OP_NOP1''),
     (0xb1, ''OP_CHECKLOCKTIMEVERIFY''), (0xb2, ''OP_CHECKSEQUENCEVERIFY''), (0xb3, ''OP_NOP4''),
     (0xb4, ''OP_NOP5''), (0xb5, ''OP_NOP6''), (0xb6, ''OP_NOP7''), (0xb7, ''OP_NOP8''),
     (0xb8, ''OP_NOP9''), (0xb9, ''OP_NOP10''), (0xff, ''OP_INVALIDOPCODE''),
     (0xc1, ''OP_ZEROCOINMINT''), (0xc2, ''OP_ZEROCOINSPEND''), (0xc3, ''OP_SIGMAMINT''),
     (0xc4, ''OP_SIGMASPEND''), (0xc8, ''OP_ZEROCOINTOSIGMAREMINT''), (0xc5, ''OP_LELANTUSMINT''),
     (0xc6, ''OP_LELANTUSJMINT''), (0xc7, ''OP_LELANTUSJOINSPLIT''),
     (0xc9, ''OP_LELANTUSJOINSPLITPAYLOAD''), (0xd1, ''OP_SPARKMINT''), (0xd2, ''OP_SPARKSMINT''),
     (0xd3, ''OP_SPARKSPEND'')]"

definition GetOpName :: "byte \<Rightarrow> string" where
  "GetOpName opcode = (case map_of GetOpName_table opcode of Some s \<Rightarrow> s | None \<Rightarrow> ''OP_UNKNOWN'')"

text \<open>\<open>DecodeOP_N\<close> and \<open>EncodeOP_N\<close>, with their assertions.\<close>

definition DecodeOP_N :: "byte \<Rightarrow> nat res" where
  "DecodeOP_N opcode =
     (if opcode = OP_0 then Inr 0
      else if OP_1 \<le> opcode \<and> opcode \<le> OP_16 then Inr (unat opcode - (0x51 - 1))
      else Inl (Undefined ''assertion opcode >= OP_1 && opcode <= OP_16''))"

definition EncodeOP_N :: "int \<Rightarrow> byte res" where
  "EncodeOP_N n =
     (if \<not> (0 \<le> n \<and> n \<le> 16) then Inl (Undefined ''assertion n >= 0 && n <= 16'')
      else if n = 0 then Inr OP_0 else Inr (of_int (0x51 + n - 1)))"

section \<open>Script numbers\<close>

text \<open>
  \<open>m_value\<close> is an \<open>int64_t\<close>: a 64-bit word read with \<open>sint\<close>. Two's complement
  negation of \<open>INT64_MIN\<close> in \<open>serialize\<close> wraps here; C++ leaves it undefined, and the
  round trip below excludes it.
\<close>

function absvalue_bytes :: "64 word \<Rightarrow> bytes" where
  "absvalue_bytes absvalue =
     (if absvalue = 0 then [] else ucast (absvalue AND 0xff) # absvalue_bytes (drop_bit 8 absvalue))"
  by pat_completeness auto
termination
proof (relation "measure unat")
  fix x :: "64 word"
  assume "x \<noteq> 0"
  then show "(drop_bit 8 x, x) \<in> measure unat"
    by (simp add: drop_bit_eq_div unat_div_distrib unat_gt_0)
qed simp

declare absvalue_bytes.simps [simp del]

definition CScriptNum_serialize :: "64 word \<Rightarrow> bytes" where
  "CScriptNum_serialize v =
     (if v = 0 then []
      else
        let neg = v <s 0;
            result = absvalue_bytes (if neg then - v else v)
        in if last result AND 0x80 \<noteq> 0 then result @ [if neg then 0x80 else 0]
           else if neg then butlast result @ [last result OR 0x80] else result)"

text \<open>
  \<open>set_vch\<close> accumulates with \<open>|=\<close> and shifts, which is \<open>le_word\<close>; a shift by 64 or more
  bits is undefined.
\<close>

definition CScriptNum_set_vch :: "bytes \<Rightarrow> 64 word res" where
  "CScriptNum_set_vch v =
     (if v = [] then Inr 0
      else if 8 < length v then Inl (Undefined ''shift by 64'')
      else
        let result = le_word v
        in if last v AND 0x80 \<noteq> 0 then Inr (- (result AND NOT (push_bit (8 * (length v - 1)) 0x80)))
           else Inr result)"

definition CScriptNum_from :: "bytes \<Rightarrow> bool \<Rightarrow> nat \<Rightarrow> 64 word res" where
  "CScriptNum_from v fRequireMinimal nMaxNumSize =
     (if nMaxNumSize < length v then Inl (Runtime_Error ''script number overflow'')
      else if fRequireMinimal \<and> 0 < length v \<and> last v AND 0x7f = 0 \<and>
              (length v \<le> 1 \<or> (v ! (length v - 2)) AND 0x80 = 0)
      then Inl (Runtime_Error ''non-minimally encoded script number'')
      else CScriptNum_set_vch v)"

definition int64_max :: "64 word" where "int64_max = 0x7fffffffffffffff"
definition int64_min :: "64 word" where "int64_min = 0x8000000000000000"

definition CScriptNum_add_assign :: "64 word \<Rightarrow> 64 word \<Rightarrow> 64 word res" where
  "CScriptNum_add_assign m rhs =
     (if rhs = 0 \<or> (0 <s rhs \<and> m \<le>s int64_max - rhs) \<or> (rhs <s 0 \<and> int64_min - rhs \<le>s m)
      then Inr (m + rhs) else Inl (Undefined ''assertion in CScriptNum::operator+=''))"

definition CScriptNum_sub_assign :: "64 word \<Rightarrow> 64 word \<Rightarrow> 64 word res" where
  "CScriptNum_sub_assign m rhs =
     (if rhs = 0 \<or> (0 <s rhs \<and> int64_min + rhs \<le>s m) \<or> (rhs <s 0 \<and> m \<le>s int64_max + rhs)
      then Inr (m - rhs) else Inl (Undefined ''assertion in CScriptNum::operator-=''))"

definition CScriptNum_negate :: "64 word \<Rightarrow> 64 word res" where
  "CScriptNum_negate m =
     (if m = int64_min then Inl (Undefined ''assertion m_value != min'') else Inr (- m))"

definition CScriptNum_getint :: "64 word \<Rightarrow> int" where
  "CScriptNum_getint m =
     (if 2147483647 < sint m then 2147483647
      else if sint m < -2147483648 then -2147483648 else sint m)"

section \<open>Pushing onto a script\<close>

definition script_push_opcode :: "bytes \<Rightarrow> int \<Rightarrow> bytes res" where
  "script_push_opcode script opcode =
     (if opcode < 0 \<or> 0xff < opcode
      then Inl (Runtime_Error ''CScript::operator<<(): invalid opcode'')
      else Inr (script @ [of_int opcode]))"

definition script_push_vector :: "bytes \<Rightarrow> bytes \<Rightarrow> bytes" where
  "script_push_vector script b =
     (if length b < 0x4c then script @ [of_nat (length b)] @ b
      else if length b \<le> 0xff then script @ [OP_PUSHDATA1, of_nat (length b)] @ b
      else if length b \<le> 0xffff then script @ [OP_PUSHDATA2] @ le_bytes 2 (of_nat (length b) :: 16 word) @ b
      else script @ [OP_PUSHDATA4] @ le_bytes 4 (of_nat (length b) :: 32 word) @ b)"

definition script_push_int64 :: "bytes \<Rightarrow> 64 word \<Rightarrow> bytes" where
  "script_push_int64 script n =
     (if n = -1 \<or> (1 \<le>s n \<and> n \<le>s 16) then script @ [ucast (n + (0x51 - 1))]
      else if n = 0 then script @ [OP_0]
      else script_push_vector script (CScriptNum_serialize n))"

section \<open>Parsing a script\<close>

text \<open>
  \<open>GetOp2\<close> returns its result, \<open>opcodeRet\<close>, \<open>*pvchRet\<close> and the advanced iterator. The
  cast \<open>(unsigned int)(end() - pc)\<close> keeps 32 bits.
\<close>

definition push_size :: "byte \<Rightarrow> bytes \<Rightarrow> (32 word \<times> bytes) option" where
  "push_size opcode pc =
     (if opcode < OP_PUSHDATA1 then Some (ucast opcode, pc)
      else if opcode = OP_PUSHDATA1 then
        (if length pc < 1 then None else Some (ucast (hd pc), tl pc))
      else if opcode = OP_PUSHDATA2 then
        (if length pc < 2 then None else Some (ucast (le_word (take 2 pc) :: 16 word), drop 2 pc))
      else
        (if length pc < 4 then None else Some (le_word (take 4 pc), drop 4 pc)))"

definition GetOp2_ret :: "byte \<Rightarrow> bytes \<Rightarrow> bytes \<Rightarrow> bool \<times> byte \<times> bytes \<times> bytes" where
  "GetOp2_ret opcodeRet vchRet pc =
     (if opcodeRet = OP_SIGMASPEND \<or> opcodeRet = OP_SIGMAMINT \<or> opcodeRet = OP_LELANTUSMINT \<or>
         opcodeRet = OP_LELANTUSJMINT \<or> opcodeRet = OP_LELANTUSJOINSPLIT
      then (True, opcodeRet, pc, []) else (True, opcodeRet, vchRet, pc))"

definition GetOp2 :: "bytes \<Rightarrow> bool \<times> byte \<times> bytes \<times> bytes" where
  "GetOp2 pc =
     (case pc of
        [] \<Rightarrow> (False, OP_INVALIDOPCODE, [], [])
      | opcode # pc1 \<Rightarrow>
          if opcode \<le> OP_PUSHDATA4 then
            (case push_size opcode pc1 of
               None \<Rightarrow> (False, OP_INVALIDOPCODE, [], pc1)
             | Some (nSize, pc2) \<Rightarrow>
                 if of_nat (length pc2) < nSize then (False, OP_INVALIDOPCODE, [], pc2)
                 else GetOp2_ret opcode (take (unat nSize) pc2) (drop (unat nSize) pc2))
          else GetOp2_ret opcode [] pc1)"

lemma push_size_shorter: "push_size opcode pc = Some (n, pc') \<Longrightarrow> length pc' \<le> length pc"
  by (auto simp: push_size_def split: if_splits)

lemma GetOp2_shorter: "GetOp2 (c # pc) = (ok, opcode, data, pc') \<Longrightarrow> length pc' < Suc (length pc)"
  by (auto simp: GetOp2_def GetOp2_ret_def split: if_splits option.splits dest!: push_size_shorter)

function GetSigOpCount_loop :: "bool \<Rightarrow> byte \<Rightarrow> 32 word \<Rightarrow> bytes \<Rightarrow> 32 word" where
  "GetSigOpCount_loop fAccurate lastOpcode n [] = n"
| "GetSigOpCount_loop fAccurate lastOpcode n (c # pc) =
     (case GetOp2 (c # pc) of (ok, opcode, _, pc') \<Rightarrow>
        if \<not> ok then n
        else GetSigOpCount_loop fAccurate opcode
          (if opcode = OP_CHECKSIG \<or> opcode = OP_CHECKSIGVERIFY then n + 1
           else if opcode = OP_CHECKMULTISIG \<or> opcode = OP_CHECKMULTISIGVERIFY then
             (if fAccurate \<and> OP_1 \<le> lastOpcode \<and> lastOpcode \<le> OP_16
              then n + (ucast lastOpcode - (0x51 - 1)) else n + 20)
           else n) pc')"
  by pat_completeness auto
termination
  by (relation "measure (\<lambda>(_, _, _, pc). length pc)") (auto dest!: GetOp2_shorter [OF sym])

definition GetSigOpCount :: "bytes \<Rightarrow> bool \<Rightarrow> 32 word" where
  "GetSigOpCount script fAccurate = GetSigOpCount_loop fAccurate OP_INVALIDOPCODE 0 script"

definition IsPayToScriptHash :: "bytes \<Rightarrow> bool" where
  "IsPayToScriptHash s \<longleftrightarrow> length s = 23 \<and> s ! 0 = OP_HASH160 \<and> s ! 1 = 0x14 \<and> s ! 22 = OP_EQUAL"

text \<open>The last push of a push-only \<open>scriptSig\<close>, or nothing.\<close>

function last_push :: "bytes \<Rightarrow> bytes \<Rightarrow> bytes option" where
  "last_push data [] = Some data"
| "last_push data (c # pc) =
     (case GetOp2 (c # pc) of (ok, opcode, data', pc') \<Rightarrow>
        if \<not> ok \<or> OP_16 < opcode then None else last_push data' pc')"
  by pat_completeness auto
termination
  by (relation "measure (length \<circ> snd)") (auto dest!: GetOp2_shorter [OF sym])

definition GetSigOpCount_P2SH :: "bytes \<Rightarrow> bytes \<Rightarrow> 32 word" where
  "GetSigOpCount_P2SH script scriptSig =
     (if \<not> IsPayToScriptHash script then GetSigOpCount script True
      else (case last_push [] scriptSig of None \<Rightarrow> 0 | Some data \<Rightarrow> GetSigOpCount data True))"

text \<open>\<open>IsNormalPaymentScript\<close> ignores the result of \<open>GetOp\<close>.\<close>

function IsNormalPaymentScript_loop :: "nat \<Rightarrow> bytes \<Rightarrow> bool" where
  "IsNormalPaymentScript_loop i [] = True"
| "IsNormalPaymentScript_loop i (c # pc) =
     (case GetOp2 (c # pc) of (_, opcode, _, pc') \<Rightarrow>
        if i = 0 \<and> opcode \<noteq> OP_DUP then False
        else if i = 1 \<and> opcode \<noteq> OP_HASH160 then False
        else if i = 3 \<and> opcode \<noteq> OP_EQUALVERIFY then False
        else if i = 4 \<and> opcode \<noteq> OP_CHECKSIG then False
        else if i = 5 then False
        else IsNormalPaymentScript_loop (i + 1) pc')"
  by pat_completeness auto
termination
  by (relation "measure (length \<circ> snd)") (auto dest!: GetOp2_shorter [OF sym])

definition IsNormalPaymentScript :: "bytes \<Rightarrow> bool" where
  "IsNormalPaymentScript s \<longleftrightarrow> length s = 25 \<and> IsNormalPaymentScript_loop 0 s"

definition IsPayToPublicKeyHash :: "bytes \<Rightarrow> bool" where
  "IsPayToPublicKeyHash s \<longleftrightarrow>
     length s = 25 \<and> s ! 0 = OP_DUP \<and> s ! 1 = OP_HASH160 \<and> s ! 2 = 0x14 \<and>
     s ! 23 = OP_EQUALVERIFY \<and> s ! 24 = OP_CHECKSIG"

definition IsPayToWitnessScriptHash :: "bytes \<Rightarrow> bool" where
  "IsPayToWitnessScriptHash s \<longleftrightarrow> length s = 34 \<and> s ! 0 = OP_0 \<and> s ! 1 = 0x20"

definition IsWitnessProgram :: "bytes \<Rightarrow> (nat \<times> bytes) option res" where
  "IsWitnessProgram s =
     (if length s < 4 \<or> 42 < length s then Inr None
      else if s ! 0 \<noteq> OP_0 \<and> (s ! 0 < OP_1 \<or> OP_16 < s ! 0) then Inr None
      else if unat (s ! 1) + 2 = length s
      then rbind (DecodeOP_N (s ! 0)) (\<lambda>version. Inr (Some (version, drop 2 s)))
      else Inr None)"

definition starts_with :: "byte \<Rightarrow> bytes \<Rightarrow> bool" where
  "starts_with opcode s \<longleftrightarrow> 0 < length s \<and> s ! 0 = opcode"

definition IsZerocoinMint :: "bytes \<Rightarrow> bool" where "IsZerocoinMint s \<longleftrightarrow> starts_with OP_ZEROCOINMINT s"
definition IsZerocoinSpend :: "bytes \<Rightarrow> bool" where "IsZerocoinSpend s \<longleftrightarrow> starts_with OP_ZEROCOINSPEND s"
definition IsSigmaMint :: "bytes \<Rightarrow> bool" where "IsSigmaMint s \<longleftrightarrow> starts_with OP_SIGMAMINT s"
definition IsSigmaSpend :: "bytes \<Rightarrow> bool" where "IsSigmaSpend s \<longleftrightarrow> starts_with OP_SIGMASPEND s"
definition IsZerocoinRemint :: "bytes \<Rightarrow> bool" where
  "IsZerocoinRemint s \<longleftrightarrow> starts_with OP_ZEROCOINTOSIGMAREMINT s"
definition IsLelantusMint :: "bytes \<Rightarrow> bool" where "IsLelantusMint s \<longleftrightarrow> starts_with OP_LELANTUSMINT s"
definition IsLelantusJMint :: "bytes \<Rightarrow> bool" where "IsLelantusJMint s \<longleftrightarrow> starts_with OP_LELANTUSJMINT s"
definition IsLelantusJoinSplit :: "bytes \<Rightarrow> bool" where
  "IsLelantusJoinSplit s \<longleftrightarrow>
     starts_with OP_LELANTUSJOINSPLIT s \<or> starts_with OP_LELANTUSJOINSPLITPAYLOAD s"
definition IsSparkMint :: "bytes \<Rightarrow> bool" where "IsSparkMint s \<longleftrightarrow> starts_with OP_SPARKMINT s"
definition IsSparkSMint :: "bytes \<Rightarrow> bool" where "IsSparkSMint s \<longleftrightarrow> starts_with OP_SPARKSMINT s"
definition IsSparkSpend :: "bytes \<Rightarrow> bool" where "IsSparkSpend s \<longleftrightarrow> starts_with OP_SPARKSPEND s"

definition IsMint :: "bytes \<Rightarrow> bool" where
  "IsMint s \<longleftrightarrow> IsZerocoinMint s \<or> IsSigmaMint s \<or> IsZerocoinRemint s \<or> IsLelantusMint s \<or> IsLelantusJMint s"

definition MAX_SCRIPT_SIZE :: nat where "MAX_SCRIPT_SIZE = 10000"

definition IsUnspendable :: "bytes \<Rightarrow> bool" where
  "IsUnspendable s \<longleftrightarrow> (0 < length s \<and> hd s = OP_RETURN) \<or> MAX_SCRIPT_SIZE < length s"

function HasCanonicalPushes :: "bytes \<Rightarrow> bool" where
  "HasCanonicalPushes [] = True"
| "HasCanonicalPushes (c # pc) =
     (case GetOp2 (c # pc) of (ok, opcode, data, pc') \<Rightarrow>
        if \<not> ok then False
        else if OP_16 < opcode then HasCanonicalPushes pc'
        else if opcode < OP_PUSHDATA1 \<and> OP_0 < opcode \<and> length data = 1 \<and> data ! 0 \<le> 16 then False
        else if opcode = OP_PUSHDATA1 \<and> length data < 0x4c then False
        else if opcode = OP_PUSHDATA2 \<and> length data \<le> 0xff then False
        else if opcode = OP_PUSHDATA4 \<and> length data \<le> 0xffff then False
        else HasCanonicalPushes pc')"
  by pat_completeness auto
termination
  by (relation "measure length") (auto dest!: GetOp2_shorter [OF sym])

function IsPushOnly :: "bytes \<Rightarrow> bool" where
  "IsPushOnly [] = True"
| "IsPushOnly (c # pc) =
     (case GetOp2 (c # pc) of (ok, opcode, _, pc') \<Rightarrow>
        if \<not> ok then False else if OP_16 < opcode then False else IsPushOnly pc')"
  by pat_completeness auto
termination
  by (relation "measure length") (auto dest!: GetOp2_shorter [OF sym])

function Find :: "byte \<Rightarrow> bytes \<Rightarrow> nat" where
  "Find opc [] = 0"
| "Find opc (c # pc) =
     (case GetOp2 (c # pc) of (ok, opcode, _, pc') \<Rightarrow>
        if ok then (if opcode = opc then Suc (Find opc pc') else Find opc pc') else 0)"
  by pat_completeness auto
termination
  by (relation "measure (length \<circ> snd)") (auto dest!: GetOp2_shorter [OF sym])

text \<open>
  \<open>FindAndDelete\<close>: the inner loop drops every copy of \<open>b\<close> at the iterator; the outer one
  then copies one instruction to the result and goes on behind it.
\<close>

function skip_copies :: "bytes \<Rightarrow> bytes \<Rightarrow> nat \<Rightarrow> nat \<times> bytes" where
  "skip_copies b pc nFound =
     (if b \<noteq> [] \<and> length b \<le> length pc \<and> take (length b) pc = b
      then skip_copies b (drop (length b) pc) (nFound + 1) else (nFound, pc))"
  by pat_completeness auto
termination
proof (relation "measure (\<lambda>(_, pc, _). length pc)")
  fix b pc :: bytes and nFound :: nat
  assume *: "b \<noteq> [] \<and> length b \<le> length pc \<and> take (length b) pc = b"
  then have "0 < length b" by simp
  with * have "length pc - length b < length pc" by linarith
  then show "((b, drop (length b) pc, nFound + 1), b, pc, nFound) \<in> measure (\<lambda>(_, pc, _). length pc)"
    by simp
qed simp

declare skip_copies.simps [simp del]

lemma skip_copies_length:
  "skip_copies b pc n = (n', pc') \<Longrightarrow>
     n \<le> n' \<and> length pc = length pc' + (n' - n) * length b \<and> (n' = n \<longrightarrow> pc' = pc)"
proof (induction b pc n arbitrary: n' pc' rule: skip_copies.induct)
  case (1 b pc n)
  show ?case
  proof (cases "b \<noteq> [] \<and> length b \<le> length pc \<and> take (length b) pc = b")
    case True
    with "1.prems" have "skip_copies b (drop (length b) pc) (n + 1) = (n', pc')"
      by (subst (asm) skip_copies.simps) simp
    note 1 = "1.IH" [OF True this]
    then have "(n' - n) * length b = length b + (n' - (n + 1)) * length b"
      by (simp add: Suc_diff_Suc flip: mult_Suc)
    moreover have "length pc = length b + length (drop (length b) pc)" using True by simp
    ultimately show ?thesis using 1 by simp
  next
    case False
    with "1.prems" show ?thesis by (subst (asm) skip_copies.simps) simp
  qed
qed

function FindAndDelete_loop :: "bytes \<Rightarrow> bytes \<Rightarrow> bytes \<Rightarrow> nat \<Rightarrow> nat \<times> bytes" where
  "FindAndDelete_loop b pc result nFound =
     (case skip_copies b pc nFound of (n', pc2) \<Rightarrow>
        (case GetOp2 pc2 of (ok, _, _, pc3) \<Rightarrow>
           if ok then FindAndDelete_loop b pc3 (result @ take (length pc2 - length pc3) pc2) n'
           else (n', result @ pc2)))"
  by pat_completeness auto
termination
proof (relation "measure (\<lambda>(_, pc, _, _). length pc)")
  fix b pc nFound ok opcode pc3 data result
  fix n' :: nat and pc2 :: bytes and x y z
  assume *: "(n', pc2) = skip_copies b pc nFound" "(ok, x) = GetOp2 pc2" "(opcode, y) = x"
    "(data, pc3) = y" "ok"
  from * have "pc2 \<noteq> []" by (auto simp: GetOp2_def)
  with * have "length pc3 < length pc2" by (cases pc2) (auto dest!: GetOp2_shorter [OF sym])
  moreover have "length pc2 \<le> length pc" using skip_copies_length [OF *(1) [symmetric]] by simp
  ultimately show "((b, pc3, result @ take (length pc2 - length pc3) pc2, n'), b, pc, result, nFound)
      \<in> measure (\<lambda>(_, pc, _, _). length pc)" by simp
qed simp

declare FindAndDelete_loop.simps [simp del]

definition FindAndDelete :: "bytes \<Rightarrow> bytes \<Rightarrow> nat \<times> bytes" where
  "FindAndDelete script b =
     (if b = [] then (0, script)
      else (case FindAndDelete_loop b script [] 0 of (nFound, result) \<Rightarrow>
              (nFound, if 0 < nFound then result else script)))"

section \<open>Pushing and parsing are inverse\<close>

lemma not_special: "opcode \<le> OP_PUSHDATA4 \<Longrightarrow> GetOp2_ret opcode data pc = (True, opcode, data, pc)"
  by (auto simp: GetOp2_ret_def)

definition push_opcode :: "bytes \<Rightarrow> byte" where
  "push_opcode b =
     (if length b < 0x4c then of_nat (length b)
      else if length b \<le> 0xff then OP_PUSHDATA1
      else if length b \<le> 0xffff then OP_PUSHDATA2 else OP_PUSHDATA4)"

lemma push_opcode_le: "push_opcode b \<le> OP_PUSHDATA4"
  by (auto simp: push_opcode_def word_le_nat_alt unsigned_of_nat take_bit_nat_eq_self)

lemma script_push_vector_Nil: "script_push_vector s b = s @ script_push_vector [] b"
  by (simp add: script_push_vector_def)

lemma length_eq_32: "length b < 2 ^ 32 \<Longrightarrow> unat (of_nat (length b) :: 32 word) = length b"
  by (simp add: unsigned_of_nat take_bit_nat_eq_self)

lemma le_word_le_bytes_2: "le_word (le_bytes 2 (x :: 16 word)) = x"
  and le_word_le_bytes_4: "le_word (le_bytes 4 (y :: 32 word)) = y"
  by (rule le_word_le_bytes; simp)+

lemma script_push_vector_shape:
  assumes "length b < 2 ^ 32"
  obtains pc where "script_push_vector [] b @ rest = push_opcode b # pc"
    and "push_size (push_opcode b) pc = Some (of_nat (length b), b @ rest)"
proof -
  consider "length b < 0x4c" | "0x4c \<le> length b" "length b \<le> 0xff"
    | "0xff < length b" "length b \<le> 0xffff" | "0xffff < length b" by linarith
  then show thesis
  proof cases
    case 1
    have "(of_nat (length b) :: byte) < 0x4c" and "ucast (of_nat (length b) :: byte) = (of_nat (length b) :: 32 word)"
      using 1 by (simp_all add: word_less_nat_alt word_unat_eq_iff unsigned_of_nat unsigned_ucast_eq take_bit_nat_eq_self)
    with 1 show thesis by (intro that [of "b @ rest"]) (simp_all add: script_push_vector_def push_opcode_def push_size_def)
  next
    case 2
    have "ucast (of_nat (length b) :: byte) = (of_nat (length b) :: 32 word)"
      using 2 by (simp add: word_unat_eq_iff unsigned_of_nat unsigned_ucast_eq take_bit_nat_eq_self)
    with 2 show thesis
      by (intro that [of "of_nat (length b) # b @ rest"])
        (simp_all add: script_push_vector_def push_opcode_def push_size_def)
  next
    case 3
    have "ucast (of_nat (length b) :: 16 word) = (of_nat (length b) :: 32 word)"
      using 3 by (simp add: word_unat_eq_iff unsigned_of_nat unsigned_ucast_eq take_bit_nat_eq_self)
    with 3 show thesis
      by (intro that [of "le_bytes 2 (of_nat (length b) :: 16 word) @ b @ rest"])
        (simp_all add: script_push_vector_def push_opcode_def push_size_def le_word_le_bytes_2)
  next
    case 4
    then show thesis
      by (intro that [of "le_bytes 4 (of_nat (length b) :: 32 word) @ b @ rest"])
        (simp_all add: script_push_vector_def push_opcode_def push_size_def le_word_le_bytes_4)
  qed
qed

lemma GetOp2_push:
  assumes "length b + length rest < 2 ^ 32"
  shows "GetOp2 (script_push_vector [] b @ rest) = (True, push_opcode b, b, rest)"
proof -
  have "length b < 2 ^ 32" using assms by simp
  then obtain pc where pc: "script_push_vector [] b @ rest = push_opcode b # pc"
    "push_size (push_opcode b) pc = Some (of_nat (length b), b @ rest)"
    by (rule script_push_vector_shape)
  have "\<not> (of_nat (length (b @ rest)) :: 32 word) < of_nat (length b)"
    using assms by (simp add: word_less_nat_alt unsigned_of_nat take_bit_nat_eq_self flip: of_nat_add)
  then show ?thesis
    using assms by (simp add: pc GetOp2_def push_opcode_le not_special length_eq_32)
qed

lemma push_nonempty: "script_push_vector [] b \<noteq> []"
  by (simp add: script_push_vector_def)

text \<open>A script that only pushes is push-only, and canonical when no push has an \<open>OP_n\<close> form.\<close>

definition push_all :: "bytes list \<Rightarrow> bytes" where
  "push_all bs = concat (map (script_push_vector []) bs)"

lemma loop_push:
  assumes "length b + length rest < 2 ^ 32"
  obtains c pc where "script_push_vector [] b @ rest = c # pc" "GetOp2 (c # pc) = (True, push_opcode b, b, rest)"
proof -
  obtain c pc where "script_push_vector [] b = c # pc"
    using push_nonempty [of b] by (cases "script_push_vector [] b") simp_all
  then show thesis using that [of c "pc @ rest"] GetOp2_push [OF assms] by simp
qed

lemma push_opcode_not_op: "\<not> OP_16 < push_opcode b"
  using push_opcode_le [of b] by (simp add: word_less_nat_alt word_le_nat_alt)

lemma length_push: "length (script_push_vector [] b) \<ge> Suc (length b)"
  by (simp add: script_push_vector_def)

lemma IsPushOnly_push:
  "length b + length rest < 2 ^ 32 \<Longrightarrow> IsPushOnly (script_push_vector [] b @ rest) = IsPushOnly rest"
  by (erule loop_push [of b rest]) (simp add: push_opcode_not_op)

lemma HasCanonicalPushes_push:
  assumes "length b + length rest < 2 ^ 32" and "\<not> (length b = 1 \<and> b ! 0 \<le> 16)"
  shows "HasCanonicalPushes (script_push_vector [] b @ rest) = HasCanonicalPushes rest"
proof -
  obtain c pc where 1: "script_push_vector [] b @ rest = c # pc"
    "GetOp2 (c # pc) = (True, push_opcode b, b, rest)"
    using loop_push [OF assms(1)] by metis
  have small: "(of_nat (length b) :: byte) < 0x4c" if "length b < 0x4c"
    using that by (simp add: word_less_nat_alt unsigned_of_nat take_bit_nat_eq_self)
  have "push_opcode b = OP_PUSHDATA1 \<Longrightarrow> 0x4c \<le> length b"
    "push_opcode b = OP_PUSHDATA2 \<Longrightarrow> 0xff < length b"
    "push_opcode b = OP_PUSHDATA4 \<Longrightarrow> 0xffff < length b"
    using small by (auto simp: push_opcode_def not_le word_less_nat_alt split: if_splits)
  moreover have "\<not> (push_opcode b < OP_PUSHDATA1 \<and> OP_0 < push_opcode b \<and> length b = 1 \<and> b ! 0 \<le> 16)"
    using assms(2) by blast
  ultimately show ?thesis
    unfolding 1(1) HasCanonicalPushes.simps 1(2) prod.case
    by (simp only: push_opcode_not_op not_True_eq_False if_False) (auto simp: not_less not_le)
qed

lemma push_all_Cons:
  "length (push_all (b # bs)) < 2 ^ 32 \<Longrightarrow>
     push_all (b # bs) = script_push_vector [] b @ push_all bs \<and> length b + length (push_all bs) < 2 ^ 32"
  using length_push [of b] by (simp add: push_all_def)

lemma push_all_canonical:
  "length (push_all bs) < 2 ^ 32 \<Longrightarrow> \<forall>b \<in> set bs. \<not> (length b = 1 \<and> b ! 0 \<le> 16) \<Longrightarrow>
     IsPushOnly (push_all bs) \<and> HasCanonicalPushes (push_all bs)"
proof (induction bs)
  case Nil
  show ?case by (simp add: push_all_def)
next
  case (Cons b bs)
  note b = push_all_Cons [OF Cons.prems(1)]
  with Cons show ?case
    using IsPushOnly_push [of b "push_all bs"] HasCanonicalPushes_push [of b "push_all bs"] by simp
qed

section \<open>Script numbers\<close>

lemma low8: "x AND 0xff = take_bit 8 x" for x :: "'a::len word"
  by (simp add: take_bit_eq_mask mask_numeral)

lemma and_80: "x AND 0x80 = 0 \<longleftrightarrow> \<not> bit x 7" for x :: "'a::len word"
  using and_exp_eq_0_iff_not_bit [of x 7] by simp

lemma le_word_append: "le_word (xs @ ys) = le_word xs OR push_bit (8 * length xs) (le_word ys)"
  by (induction xs) (simp_all add: push_bit_push_bit or.assoc)

lemma absvalue_bytes_le_word: "le_word (absvalue_bytes x) = x"
proof (induction x rule: absvalue_bytes.induct)
  case (1 x)
  show ?case
  proof (cases "x = 0")
    case True
    then show ?thesis by (simp add: absvalue_bytes.simps)
  next
    case False
    have "ucast (ucast (x AND 0xff) :: byte) OR push_bit 8 (drop_bit 8 x) = x"
    proof (rule bit_word_eqI)
      fix n
      show "bit (ucast (ucast (x AND 0xff) :: byte) OR push_bit 8 (drop_bit 8 x)) n = bit x n"
        unfolding low8 by (cases "n < 8") (auto simp: bit_simps dest: bit_imp_le_length)
    qed
    then show ?thesis using 1 [OF False] False by (subst absvalue_bytes.simps) simp
  qed
qed

lemma absvalue_bytes_last:
  "x \<noteq> 0 \<Longrightarrow> absvalue_bytes x \<noteq> [] \<and> last (absvalue_bytes x) \<noteq> 0"
proof (induction x rule: absvalue_bytes.induct)
  case (1 x)
  show ?case
  proof (cases "drop_bit 8 x = 0")
    case True
    have "take_bit 8 x \<noteq> 0"
      using True "1.prems" bits_ident [of 8 x] by auto
    then have "(ucast (take_bit 8 x) :: byte) \<noteq> 0"
      by (simp add: word_unat_eq_iff unsigned_ucast_eq unsigned_take_bit_eq take_bit_take_bit)
    then show ?thesis
      using True "1.prems" by (subst (1 2) absvalue_bytes.simps) (simp add: low8 absvalue_bytes.simps)
  next
    case False
    then show ?thesis using 1 by (subst (1 2) absvalue_bytes.simps) simp
  qed
qed

lemma absvalue_bytes_length: "unat x < 2 ^ (8 * k) \<Longrightarrow> length (absvalue_bytes x) \<le> k"
proof (induction x arbitrary: k rule: absvalue_bytes.induct)
  case (1 x)
  show ?case
  proof (cases "x = 0")
    case True
    then show ?thesis by (simp add: absvalue_bytes.simps)
  next
    case False
    then obtain j where k: "k = Suc j" using "1.prems" by (cases k) (simp_all add: word_unat_eq_iff)
    have "unat (drop_bit 8 x) < 2 ^ (8 * j)"
      using "1.prems" by (simp add: k drop_bit_eq_div unat_div_distrib div_less_iff_less_mult power_add mult.commute)
    then show ?thesis using 1(1) [OF False, of j] False k by (subst absvalue_bytes.simps) simp
  qed
qed

lemma clear_sign:
  fixes a :: "64 word"
  assumes "\<not> bit a (k + 7)"
  shows "(a OR push_bit k 0x80) AND NOT (push_bit k 0x80) = a"
proof -
  have "(0x80 :: 64 word) = push_bit 7 1" by simp
  then have *: "push_bit k (0x80 :: 64 word) = push_bit (k + 7) 1"
    by (simp only: push_bit_push_bit)
  show ?thesis
    unfolding * using assms by (intro bit_word_eqI) (auto simp: bit_simps)
qed

lemma sless_0_bit: "v <s 0 \<longleftrightarrow> bit v 63" for v :: "64 word"
  using bit_last_iff [of v] by (simp add: word_sless_alt)

lemma negate_clears_sign:
  fixes v :: "64 word"
  assumes "v \<noteq> int64_min" and "bit v 63"
  shows "\<not> bit (- v) 63"
proof -
  have "sint v < 0" using assms(2) bit_last_iff [of v] by simp
  moreover have "- (2 ^ 63) \<le> sint v" using sint_greater_eq [of v] by simp
  moreover have "sint v \<noteq> - (2 ^ 63)"
  proof
    assume "sint v = - (2 ^ 63)"
    then have "(of_int (sint v) :: 64 word) = of_int (- (2 ^ 63))" by (rule arg_cong)
    then have "v = of_int (- (2 ^ 63))" by simp
    also have "\<dots> = int64_min" by (simp add: int64_min_def)
    finally show False using assms(1) by simp
  qed
  ultimately have "sint (of_int (- sint v) :: 64 word) = - sint v"
    by (simp add: signed_of_int signed_take_bit_int_eq_self del: of_int_minus)
  then have "sint (- v) = - sint v" by simp
  then show ?thesis using \<open>sint v < 0\<close> bit_last_iff [of "- v"] by simp
qed

text \<open>
  \<open>top_form neg ds\<close> is the list \<open>serialize\<close> builds from the digits \<open>ds\<close> of the absolute
  value; it parses back to \<open>\<plusminus>a\<close>, and the minimality test accepts it.
\<close>

definition top_form :: "bool \<Rightarrow> bytes \<Rightarrow> bytes" where
  "top_form neg ds =
     (if last ds AND 0x80 \<noteq> 0 then ds @ [if neg then 0x80 else 0]
      else if neg then butlast ds @ [last ds OR 0x80] else ds)"

lemma serialize_top_form:
  "v \<noteq> 0 \<Longrightarrow> CScriptNum_serialize v = top_form (v <s 0) (absvalue_bytes (if v <s 0 then - v else v))"
  by (simp add: CScriptNum_serialize_def top_form_def Let_def)

lemma bit_last_digit:
  assumes "ds \<noteq> []" and "length ds \<le> 8"
  shows "bit (le_word ds :: 64 word) (8 * (length ds - 1) + 7) \<longleftrightarrow> bit (last ds) 7"
proof -
  have "(8 * (length ds - 1) + 7) div 8 = length ds - 1" "(8 * (length ds - 1) + 7) mod 8 = 7"
    by simp_all
  moreover have "0 < length ds" using assms by simp
  then have "8 * (length ds - 1) + 7 < 64" "length ds - 1 < length ds" using assms by linarith+
  ultimately show ?thesis
    using assms by (simp only: bit_le_word last_conv_nth) (simp add: last_conv_nth)
qed

lemma le_word_set_sign:
  assumes "ds \<noteq> []"
  shows "le_word (butlast ds @ [last ds OR 0x80]) =
    (le_word ds OR push_bit (8 * (length ds - 1)) 0x80 :: 64 word)"
proof -
  have "le_word ds = (le_word (butlast ds @ [last ds]) :: 64 word)" using assms by simp
  also have "\<dots> OR push_bit (8 * (length ds - 1)) 0x80 = le_word (butlast ds @ [last ds OR 0x80])"
    by (simp only: le_word_append le_word.simps length_butlast) (simp add: or.assoc unsigned_or_eq push_bit_or)
  finally show ?thesis ..
qed

lemma top_form_parses:
  fixes a :: "64 word"
  assumes ds: "ds \<noteq> []" "length ds \<le> 8" "le_word ds = a" "\<not> bit a 63"
  shows "CScriptNum_set_vch (top_form neg ds) = Inr (if neg then - a else a)"
proof (cases "bit (last ds) 7")
  case True
  have "length ds \<noteq> 8" using ds True bit_last_digit [of ds] by auto
  then have n: "length ds \<le> 7" using ds by simp
  have "\<not> bit a (8 * length ds + 7)"
    using ds(3) by (auto simp: bit_le_word)
  then show ?thesis
    using n ds(3) clear_sign [of a "8 * length ds"] True
    by (simp add: top_form_def and_80 CScriptNum_set_vch_def le_word_append Let_def)
next
  case False
  then have "\<not> bit a (8 * (length ds - 1) + 7)"
    using ds bit_last_digit [of ds] by simp
  note c = clear_sign [OF this]
  have "bit (last ds OR 0x80) 7" by (simp add: bit_or_iff bit_80)
  moreover have "0 < length ds" using ds(1) by simp
  ultimately show ?thesis
    using False ds c le_word_set_sign [OF ds(1)]
    by (cases neg)
      (simp_all add: top_form_def and_80 CScriptNum_set_vch_def Let_def del: length_greater_0_conv)
qed

lemma top_form_minimal:
  assumes "ds \<noteq> []" and "last ds \<noteq> 0"
  shows "\<not> (last (top_form neg ds) AND 0x7f = 0 \<and>
     (length (top_form neg ds) \<le> 1 \<or> (top_form neg ds ! (length (top_form neg ds) - 2)) AND 0x80 = 0))"
proof (cases "bit (last ds) 7")
  case True
  then have "(ds @ [x]) ! (length ds - 1) AND 0x80 \<noteq> 0" for x
    using assms(1) by (simp add: nth_append last_conv_nth and_80)
  then show ?thesis using True assms(1) by (simp add: top_form_def and_80)
next
  case False
  have "last ds AND 0x7f \<noteq> 0"
  proof
    assume "last ds AND 0x7f = 0"
    then have "\<not> bit (last ds) i" if "i < 7" for i
      using that bit_take_bit_iff [of 7 "last ds" i] by (simp add: low7)
    moreover have "i < 8 \<Longrightarrow> i = 7 \<or> i < 7" for i :: nat by linarith
    ultimately have "last ds = 0"
      using False by (intro bit_word_eqI) auto
    then show False using assms(2) by simp
  qed
  moreover have "(last ds OR 0x80) AND 0x7f = last ds AND 0x7f"
    by (simp add: low7 take_bit_or)
  ultimately show ?thesis using False by (cases neg) (simp_all add: top_form_def and_80)
qed

lemma length_top_form: "ds \<noteq> [] \<Longrightarrow> \<not> (length ds = 8 \<and> bit (last ds) 7) \<Longrightarrow> length ds \<le> 8 \<Longrightarrow> length (top_form neg ds) \<le> 8"
  by (cases ds) (auto simp: top_form_def and_80)

lemma CScriptNum_abs:
  fixes v :: "64 word"
  assumes "v \<noteq> 0" and "v \<noteq> int64_min"
  defines "a \<equiv> if v <s 0 then - v else v"
  shows "\<not> bit a 63" and "absvalue_bytes a \<noteq> []" and "last (absvalue_bytes a) \<noteq> 0"
    and "length (absvalue_bytes a) \<le> 8" and "length (top_form neg (absvalue_bytes a)) \<le> 8"
proof -
  show 63: "\<not> bit a 63"
    using negate_clears_sign [OF assms(2)] by (auto simp: a_def sless_0_bit)
  have "a \<noteq> 0" using assms(1) by (simp add: a_def)
  then show ne: "absvalue_bytes a \<noteq> []" "last (absvalue_bytes a) \<noteq> 0"
    by (simp_all add: absvalue_bytes_last)
  show 8: "length (absvalue_bytes a) \<le> 8"
    using unsigned_less [of a, where ?'a = nat] by (intro absvalue_bytes_length) simp
  show "length (top_form neg (absvalue_bytes a)) \<le> 8"
    using 63 bit_last_digit [OF ne(1) 8]
    by (intro length_top_form [OF ne(1) _ 8]) (auto simp: absvalue_bytes_le_word)
qed

lemma CScriptNum_round_trip:
  assumes "v \<noteq> int64_min"
  shows "CScriptNum_from (CScriptNum_serialize v) True 8 = Inr v"
proof (cases "v = 0")
  case True
  then show ?thesis by (simp add: CScriptNum_serialize_def CScriptNum_from_def CScriptNum_set_vch_def)
next
  case False
  note a = CScriptNum_abs [OF False assms]
  show ?thesis
    using top_form_parses [OF a(2,4) absvalue_bytes_le_word a(1), of "v <s 0"]
      top_form_minimal [OF a(2,3), of "v <s 0"] a(5) [of "v <s 0"]
    unfolding serialize_top_form [OF False] CScriptNum_from_def by (auto split: if_splits)
qed

lemma sint_bounds: "- (2 ^ 63) \<le> sint v" "sint v < 2 ^ 63" for v :: "64 word"
  using sint_greater_eq [of v] sint_less [of v] by simp_all

lemma sint_add_exact:
  fixes m r :: "64 word"
  shows "- (2 ^ 63) \<le> sint m + sint r \<Longrightarrow> sint m + sint r < 2 ^ 63 \<Longrightarrow> sint (m + r) = sint m + sint r"
  using signed_of_int [of "sint m + sint r", where ?'b = 64 and ?'a = int]
  by (simp add: signed_take_bit_int_eq_self)

lemma sint_sub_exact:
  fixes m r :: "64 word"
  shows "- (2 ^ 63) \<le> sint m - sint r \<Longrightarrow> sint m - sint r < 2 ^ 63 \<Longrightarrow> sint (m - r) = sint m - sint r"
  using signed_of_int [of "sint m - sint r", where ?'b = 64 and ?'a = int]
  by (simp add: signed_take_bit_int_eq_self)

lemma sint_int64: "sint int64_max = 2 ^ 63 - 1" "sint int64_min = - (2 ^ 63)"
  by (simp_all add: int64_max_def int64_min_def)

lemma sint_nonzero: "w \<noteq> 0 \<Longrightarrow> sint w \<noteq> 0" for w :: "64 word"
proof
  assume "w \<noteq> 0" and "sint w = 0"
  have "w = of_int (sint w)" by simp
  also have "\<dots> = 0" using \<open>sint w = 0\<close> by (simp only: of_int_0)
  finally show False using \<open>w \<noteq> 0\<close> by contradiction
qed

lemma CScriptNum_add_assign_exact:
  "(case CScriptNum_add_assign m rhs of
      Inr x \<Rightarrow> sint x = sint m + sint rhs
    | Inl _ \<Rightarrow> sint m + sint rhs < - (2 ^ 63) \<or> 2 ^ 63 \<le> sint m + sint rhs)"
proof -
  have sub: "0 <s rhs \<Longrightarrow> sint (int64_max - rhs) = 2 ^ 63 - 1 - sint rhs"
    "rhs <s 0 \<Longrightarrow> sint (int64_min - rhs) = - (2 ^ 63) - sint rhs"
    using sint_bounds [of rhs] sint_sub_exact [of int64_max rhs] sint_sub_exact [of int64_min rhs]
    by (simp_all add: word_sless_alt sint_int64)
  have z: "rhs \<noteq> 0 \<Longrightarrow> 0 <s rhs \<or> rhs <s 0"
    using sint_nonzero [of rhs] by (auto simp: word_sless_alt)
  show ?thesis
    using sub z sint_add_exact [of m rhs] sint_bounds [of m]
    by (auto simp: CScriptNum_add_assign_def word_sless_alt word_sle_eq)
qed

lemma CScriptNum_sub_assign_exact:
  "(case CScriptNum_sub_assign m rhs of
      Inr x \<Rightarrow> sint x = sint m - sint rhs
    | Inl _ \<Rightarrow> sint m - sint rhs < - (2 ^ 63) \<or> 2 ^ 63 \<le> sint m - sint rhs)"
proof -
  have sub: "0 <s rhs \<Longrightarrow> sint (int64_min + rhs) = - (2 ^ 63) + sint rhs"
    "rhs <s 0 \<Longrightarrow> sint (int64_max + rhs) = 2 ^ 63 - 1 + sint rhs"
    using sint_bounds [of rhs] sint_add_exact [of int64_max rhs] sint_add_exact [of int64_min rhs]
    by (simp_all add: word_sless_alt sint_int64)
  have z: "rhs \<noteq> 0 \<Longrightarrow> 0 <s rhs \<or> rhs <s 0"
    using sint_nonzero [of rhs] by (auto simp: word_sless_alt)
  show ?thesis
    using sub z sint_sub_exact [of m rhs] sint_bounds [of m]
    by (auto simp: CScriptNum_sub_assign_def word_sless_alt word_sle_eq)
qed

section \<open>Bounds of the script scanners\<close>

lemma GetSigOpCount_loop_bound:
  "unat (GetSigOpCount_loop fAccurate lastOpcode n pc) \<le> unat n + 20 * length pc"
proof (induction fAccurate lastOpcode n pc rule: GetSigOpCount_loop.induct)
  case (1 fAccurate lastOpcode n)
  then show ?case by simp
next
  case (2 fAccurate lastOpcode n c pc)
  obtain ok opcode data pc' where g: "GetOp2 (c # pc) = (ok, opcode, data, pc')"
    by (metis prod_cases4)
  have plus: "unat (n + k) \<le> unat n + 20" if "unat k \<le> 20" for k :: "32 word"
    using that by (simp add: unat_word_ariths mod_le_divisor le_trans [OF mod_less_eq_dividend])
  have N: "OP_1 \<le> lastOpcode \<Longrightarrow> lastOpcode \<le> OP_16 \<Longrightarrow> unat (ucast lastOpcode - (0x51 - 1) :: 32 word) \<le> 20"
    by (simp add: word_le_nat_alt unat_sub unsigned_ucast_eq take_bit_nat_eq_self)
  show ?case
  proof (cases ok)
    case False
    then show ?thesis by (simp add: g)
  next
    case True
    let ?n = "if opcode = OP_CHECKSIG \<or> opcode = OP_CHECKSIGVERIFY then n + 1
           else if opcode = OP_CHECKMULTISIG \<or> opcode = OP_CHECKMULTISIGVERIFY then
             (if fAccurate \<and> OP_1 \<le> lastOpcode \<and> lastOpcode \<le> OP_16
              then n + (ucast lastOpcode - (0x51 - 1)) else n + 20)
           else n"
    have "unat ?n \<le> unat n + 20" using plus [of 1] plus [of 20] plus [OF N] by auto
    moreover have "length pc' \<le> length pc" using GetOp2_shorter [OF g] by simp
    ultimately show ?thesis
      using "2.IH" [OF g [symmetric] refl refl] True by (simp add: g)
  qed
qed

lemma FindAndDelete_loop_length:
  "FindAndDelete_loop b pc result n = (n', result') \<Longrightarrow>
     n \<le> n' \<and> length result + length pc = length result' + (n' - n) * length b"
proof (induction b pc result n arbitrary: n' result' rule: FindAndDelete_loop.induct)
  case (1 b pc result n)
  obtain n1 pc2 where k: "skip_copies b pc n = (n1, pc2)" by fastforce
  obtain ok opcode data pc3 where g: "GetOp2 pc2 = (ok, opcode, data, pc3)"
    by (metis prod_cases4)
  note kl = skip_copies_length [OF k]
  show ?case
  proof (cases ok)
    case False
    then show ?thesis
      using "1.prems" kl by (subst (asm) FindAndDelete_loop.simps) (auto simp: k g)
  next
    case True
    then have "length pc3 \<le> length pc2"
    proof (cases pc2)
      case Nil
      then show ?thesis using g True by (simp add: GetOp2_def)
    next
      case (Cons c pc)
      then show ?thesis using GetOp2_shorter [of c pc ok opcode data pc3] g by simp
    qed
    moreover have "FindAndDelete_loop b pc3 (result @ take (length pc2 - length pc3) pc2) n1 = (n', result')"
      using "1.prems" True by (subst (asm) FindAndDelete_loop.simps) (simp add: k g)
    note "1.IH" [OF k [symmetric] g [symmetric] refl refl True this]
    ultimately have "n1 \<le> n'" "length result + length pc2 = length result' + (n' - n1) * length b"
      by simp_all
    moreover have "(n' - n) * length b = (n' - n1) * length b + (n1 - n) * length b"
      using calculation(1) kl by (simp flip: add_mult_distrib)
    ultimately show ?thesis using kl by simp
  qed
qed

text \<open>A pay-to-pubkey-hash script has the shape \<open>IsNormalPaymentScript\<close> looks for.\<close>

lemma length_25_cases:
  assumes "IsPayToPublicKeyHash s"
  obtains h where "length h = 20" "s = [OP_DUP, OP_HASH160] @ script_push_vector [] h @ [OP_EQUALVERIFY, OP_CHECKSIG]"
proof -
  let ?h = "take 20 (drop 3 s)"
  have l: "length s = 25" using assms by (simp add: IsPayToPublicKeyHash_def)
  have "s = [OP_DUP, OP_HASH160, 0x14] @ ?h @ [OP_EQUALVERIFY, OP_CHECKSIG]"
  proof (rule nth_equalityI)
    fix i
    assume "i < length s"
    then consider "i = 0" | "i = 1" | "i = 2" | "3 \<le> i" "i < 23" | "i = 23" | "i = 24"
      using l by linarith
    then show "s ! i = ([OP_DUP, OP_HASH160, 0x14] @ ?h @ [OP_EQUALVERIFY, OP_CHECKSIG]) ! i"
      using assms l by cases (auto simp: IsPayToPublicKeyHash_def nth_append)
  qed (simp add: l)
  then show thesis using l by (intro that [of ?h]) (simp_all add: script_push_vector_def)
qed

lemma GetOp2_plain: "OP_PUSHDATA4 < c \<Longrightarrow> c < OP_ZEROCOINMINT \<Longrightarrow> GetOp2 (c # pc) = (True, c, [], pc)"
  by (auto simp: GetOp2_def GetOp2_ret_def word_le_nat_alt word_less_nat_alt)

lemma P2PKH_is_normal: "IsPayToPublicKeyHash s \<Longrightarrow> IsNormalPaymentScript s"
proof (erule length_25_cases)
  fix h
  assume h: "length h = 20" "s = [OP_DUP, OP_HASH160] @ script_push_vector [] h @ [OP_EQUALVERIFY, OP_CHECKSIG]"
  obtain c pc where c: "script_push_vector [] h @ [OP_EQUALVERIFY, OP_CHECKSIG] = c # pc"
    "GetOp2 (c # pc) = (True, push_opcode h, h, [OP_EQUALVERIFY, OP_CHECKSIG])"
  proof (rule loop_push)
    show "length h + length [OP_EQUALVERIFY, OP_CHECKSIG] < 2 ^ 32" using h(1) by simp
  qed
  have "length s = 25" using h by (simp add: script_push_vector_def)
  moreover have "s = OP_DUP # OP_HASH160 # c # pc" using h c by simp
  ultimately show ?thesis
    by (simp add: IsNormalPaymentScript_def GetOp2_plain c(2))
qed

text \<open>What \<open>IsNormalPaymentScript\<close> accepts.\<close>

lemma GetOp2_opcode:
  assumes "OP_PUSHDATA4 < x" "x < OP_ZEROCOINMINT"
  shows "fst (snd (GetOp2 (c # pc))) = x \<longleftrightarrow> c = x"
proof
  assume "fst (snd (GetOp2 (c # pc))) = x"
  then show "c = x" using assms
    by (auto simp: GetOp2_def GetOp2_ret_def split: if_splits option.splits)
next
  assume "c = x"
  then show "fst (snd (GetOp2 (c # pc))) = x" using GetOp2_plain assms by simp
qed

lemma payment_opcodes: "OP_PUSHDATA4 < OP_DUP" "OP_DUP < OP_ZEROCOINMINT" "OP_PUSHDATA4 < OP_HASH160" "OP_HASH160 < OP_ZEROCOINMINT"
  "OP_PUSHDATA4 < OP_EQUALVERIFY" "OP_EQUALVERIFY < OP_ZEROCOINMINT" "OP_PUSHDATA4 < OP_CHECKSIG" "OP_CHECKSIG < OP_ZEROCOINMINT"
  by simp_all

lemma payment_step: "IsNormalPaymentScript_loop i (c # pc) \<longleftrightarrow>
    (i = 0 \<longrightarrow> c = OP_DUP) \<and> (i = 1 \<longrightarrow> c = OP_HASH160) \<and> (i = 3 \<longrightarrow> c = OP_EQUALVERIFY) \<and> (i = 4 \<longrightarrow> c = OP_CHECKSIG) \<and> i \<noteq> 5 \<and>
    IsNormalPaymentScript_loop (i + 1) (snd (snd (snd (GetOp2 (c # pc)))))"
  using GetOp2_opcode [of OP_DUP c pc] GetOp2_opcode [of OP_HASH160 c pc] GetOp2_opcode [of OP_EQUALVERIFY c pc]
    GetOp2_opcode [of OP_CHECKSIG c pc] payment_opcodes
  unfolding IsNormalPaymentScript_loop.simps by (cases "GetOp2 (c # pc)") (simp only: prod.case fst_conv snd_conv split: if_split, blast)

lemma payment_tail:
  "IsNormalPaymentScript_loop 5 r \<longleftrightarrow> r = []" "IsNormalPaymentScript_loop 4 r \<longleftrightarrow> r \<in> {[], [OP_CHECKSIG]}"
  "IsNormalPaymentScript_loop 3 r \<longleftrightarrow> r \<in> {[], [OP_EQUALVERIFY], [OP_EQUALVERIFY, OP_CHECKSIG]}"
proof -
  show 5: "IsNormalPaymentScript_loop 5 r \<longleftrightarrow> r = []" for r by (cases r) (simp_all add: payment_step del: IsNormalPaymentScript_loop.simps(2))
  show 4: "IsNormalPaymentScript_loop 4 r \<longleftrightarrow> r \<in> {[], [OP_CHECKSIG]}" for r
    by (cases r) (auto simp: payment_step 5 GetOp2_plain simp del: IsNormalPaymentScript_loop.simps(2))
  show "IsNormalPaymentScript_loop 3 r \<longleftrightarrow> r \<in> {[], [OP_EQUALVERIFY], [OP_EQUALVERIFY, OP_CHECKSIG]}"
    by (cases r) (auto simp: payment_step 4 GetOp2_plain simp del: IsNormalPaymentScript_loop.simps(2))
qed

lemma normal_payment_iff:
  "IsNormalPaymentScript s \<longleftrightarrow> length s = 25 \<and> s ! 0 = OP_DUP \<and> s ! 1 = OP_HASH160 \<and>
    snd (snd (snd (GetOp2 (drop 2 s)))) \<in> {[], [OP_EQUALVERIFY], [OP_EQUALVERIFY, OP_CHECKSIG]}"
proof (cases "length s = 25")
  case True
  then obtain a b c pc where s: "s = a # b # c # pc" by (auto simp: length_Suc_conv eval_nat_numeral)
  show ?thesis using True unfolding IsNormalPaymentScript_def s
    by (auto simp: payment_step payment_tail payment_tail(3) [unfolded numeral_3_eq_3] GetOp2_plain simp del: IsNormalPaymentScript_loop.simps(2))
qed (simp add: IsNormalPaymentScript_def)

lemma direct_push:
  assumes "c < OP_PUSHDATA1" "unat c \<le> length pc" "length pc < 2 ^ 32"
  shows "GetOp2 (c # pc) = (True, c, take (unat c) pc, drop (unat c) pc)"
proof -
  have "c \<le> OP_PUSHDATA4" "c \<noteq> OP_SIGMASPEND" "c \<noteq> OP_SIGMAMINT" "c \<noteq> OP_LELANTUSMINT" "c \<noteq> OP_LELANTUSJMINT" "c \<noteq> OP_LELANTUSJOINSPLIT"
    using assms(1) by (auto simp: word_le_nat_alt word_less_nat_alt)
  moreover have "unat (ucast c :: 32 word) = unat c"
    using unsigned_less [of c, where ?'a = nat] by (simp add: unsigned_ucast_eq take_bit_nat_eq_self)
  moreover from this have "\<not> (of_nat (length pc) :: 32 word) < ucast c"
    using assms(2,3) by (simp add: word_less_nat_alt unat_of_nat take_bit_nat_eq_self)
  ultimately show ?thesis using assms(1) by (simp add: GetOp2_def push_size_def GetOp2_ret_def)
qed

lemma third_push:
  assumes "length s = 25" "s ! 2 = c" "c < OP_PUSHDATA1" "unat c \<le> 22"
  shows "snd (snd (snd (GetOp2 (drop 2 s)))) = drop (3 + unat c) s"
proof -
  have "drop 2 s = s ! 2 # drop 3 s" using assms(1) by (simp add: Cons_nth_drop_Suc eval_nat_numeral)
  then have "GetOp2 (drop 2 s) = (True, c, take (unat c) (drop 3 s), drop (unat c) (drop 3 s))"
    using direct_push [where c = c and pc = "drop 3 s"] assms by simp
  then show ?thesis by (simp add: add.commute)
qed

lemma drop_2_1_0:
  assumes "length s = 25"
  shows "drop 23 s = [s ! 23, s ! 24]" "drop 24 s = [s ! 24]" "drop 25 s = []"
  using assms by (simp_all add: Cons_nth_drop_Suc [symmetric])

lemma push_22_no_sigops:
  assumes "length s = 25" "s ! 0 = OP_DUP" "s ! 1 = OP_HASH160" "s ! 2 = 0x16"
  shows "GetSigOpCount s True = 0"
proof -
  have "GetOp2 (0x16 # drop 3 s) = (True, 0x16, take 22 (drop 3 s), [])"
    using direct_push [where c = "0x16" and pc = "drop 3 s"] assms by simp
  moreover have "s = OP_DUP # OP_HASH160 # 0x16 # drop 3 s"
    using assms Cons_nth_drop_Suc [where i = 0 and xs = s] Cons_nth_drop_Suc [where i = 1 and xs = s] Cons_nth_drop_Suc [where i = 2 and xs = s]
    by (simp add: numeral_3_eq_3 numeral_2_eq_2)
  moreover have "GetSigOpCount (OP_DUP # OP_HASH160 # 0x16 # pc) True = 0"
    if "GetOp2 (0x16 # pc) = (True, 0x16, d, [])" for pc d
    by (simp add: GetSigOpCount_def GetOp2_plain that)
  ultimately show ?thesis by metis
qed

lemma normal_payment_pushes:
  "s ! 2 = 0x14 \<Longrightarrow> IsNormalPaymentScript s \<longleftrightarrow> IsPayToPublicKeyHash s"
  "s ! 2 = 0x15 \<Longrightarrow> IsNormalPaymentScript s \<longleftrightarrow> length s = 25 \<and> s ! 0 = OP_DUP \<and> s ! 1 = OP_HASH160 \<and> s ! 24 = OP_EQUALVERIFY"
  "s ! 2 = 0x16 \<Longrightarrow> IsNormalPaymentScript s \<longleftrightarrow> length s = 25 \<and> s ! 0 = OP_DUP \<and> s ! 1 = OP_HASH160"
  "s ! 2 = 0x16 \<Longrightarrow> IsNormalPaymentScript s \<Longrightarrow> \<not> IsPayToPublicKeyHash s \<and> GetSigOpCount s True = 0"
proof -
  show "s ! 2 = 0x14 \<Longrightarrow> IsNormalPaymentScript s \<longleftrightarrow> IsPayToPublicKeyHash s"
    using third_push [of s "0x14"] drop_2_1_0 [of s] by (auto simp: normal_payment_iff IsPayToPublicKeyHash_def)
  show "s ! 2 = 0x15 \<Longrightarrow> IsNormalPaymentScript s \<longleftrightarrow> length s = 25 \<and> s ! 0 = OP_DUP \<and> s ! 1 = OP_HASH160 \<and> s ! 24 = OP_EQUALVERIFY"
    using third_push [of s "0x15"] drop_2_1_0 [of s] by (auto simp: normal_payment_iff)
  show "s ! 2 = 0x16 \<Longrightarrow> IsNormalPaymentScript s \<longleftrightarrow> length s = 25 \<and> s ! 0 = OP_DUP \<and> s ! 1 = OP_HASH160"
    using third_push [of s "0x16"] drop_2_1_0 [of s] by (auto simp: normal_payment_iff)
  show "s ! 2 = 0x16 \<Longrightarrow> IsNormalPaymentScript s \<Longrightarrow> \<not> IsPayToPublicKeyHash s \<and> GetSigOpCount s True = 0"
    using push_22_no_sigops [of s] by (auto simp: normal_payment_iff IsPayToPublicKeyHash_def)
qed

section \<open>Properties\<close>

text \<open>
  Script numbers round-trip: every 64-bit value but the smallest one is read back, as
  minimally encoded and within eight bytes, from its serialisation.
\<close>

lemma CScriptNum_reads_back:
  assumes "v \<noteq> int64_min"
  shows "CScriptNum_from (CScriptNum_serialize v) True 8 = Inr v"
  using assms by (rule CScriptNum_round_trip)

text \<open>
  Data pushed onto a script is what parsing finds: the first opcode of the script is the
  push that \<open>operator<<\<close> chose for the vector, its data is the vector, and parsing goes on
  where the vector ends.
\<close>

lemma pushed_vector_parses:
  assumes "length b + length rest < 2 ^ 32"
  shows "GetOp2 (script_push_vector [] b @ rest) = (True, push_opcode b, b, rest)"
  using assms by (rule GetOp2_push)

text \<open>
  A script of \<open>n\<close> bytes never counts more than \<open>20 n\<close> signature operations, so the
  32-bit counter cannot wrap on any script shorter than 214 million bytes.
\<close>

lemma sigop_count_bounded:
  "unat (GetSigOpCount s fAccurate) \<le> 20 * length s"
  using GetSigOpCount_loop_bound [where n = 0 and pc = s] by (simp add: GetSigOpCount_def)

text \<open>
  Addition of script numbers does not wrap: the sum is exact, and the assertion of the code
  fails exactly when the true sum leaves the 64-bit range.
\<close>

lemma CScriptNum_addition_exact:
  "(case CScriptNum_add_assign m rhs of
      Inr x \<Rightarrow> sint x = sint m + sint rhs
    | Inl _ \<Rightarrow> sint m + sint rhs < - (2 ^ 63) \<or> 2 ^ 63 \<le> sint m + sint rhs)"
  by (rule CScriptNum_add_assign_exact)

text \<open>
  C23: \<open>IsNormalPaymentScript\<close> accepts exactly the scripts of 25 bytes that duplicate and hash, and whose
  third operation, whatever it is and whether or not it can be read, leaves nothing, \<open>OP_EQUALVERIFY\<close>, or
  \<open>OP_EQUALVERIFY OP_CHECKSIG\<close>: the loop never asks for the operations it did not reach. With a push of 20
  bytes these are the pay-to-pubkey-hash scripts; with a push of 21 the signature check may be missing,
  and with a push of 22 every script is accepted, though it compares and checks nothing.
\<close>

theorem normal_payment_scripts_exactly:
  "(IsNormalPaymentScript s \<longleftrightarrow> length s = 25 \<and> s ! 0 = OP_DUP \<and> s ! 1 = OP_HASH160 \<and>
      snd (snd (snd (GetOp2 (drop 2 s)))) \<in> {[], [OP_EQUALVERIFY], [OP_EQUALVERIFY, OP_CHECKSIG]}) \<and>
   (s ! 2 = 0x14 \<longrightarrow> (IsNormalPaymentScript s \<longleftrightarrow> IsPayToPublicKeyHash s)) \<and>
   (s ! 2 = 0x15 \<longrightarrow> (IsNormalPaymentScript s \<longleftrightarrow> length s = 25 \<and> s ! 0 = OP_DUP \<and> s ! 1 = OP_HASH160 \<and> s ! 24 = OP_EQUALVERIFY)) \<and>
   (s ! 2 = 0x16 \<longrightarrow> (IsNormalPaymentScript s \<longleftrightarrow> length s = 25 \<and> s ! 0 = OP_DUP \<and> s ! 1 = OP_HASH160) \<and>
      (IsNormalPaymentScript s \<longrightarrow> \<not> IsPayToPublicKeyHash s \<and> GetSigOpCount s True = 0))"
  using normal_payment_iff normal_payment_pushes by blast

theorem normal_payment_scripts_exactly_witness:
  "IsNormalPaymentScript (OP_DUP # OP_HASH160 # 0x16 # replicate 22 0) \<and>
   \<not> IsPayToPublicKeyHash (OP_DUP # OP_HASH160 # 0x16 # replicate 22 0) \<and>
   GetSigOpCount (OP_DUP # OP_HASH160 # 0x16 # replicate 22 0) True = 0"
  using normal_payment_scripts_exactly [THEN conjunct2, THEN conjunct2, THEN conjunct2, of "OP_DUP # OP_HASH160 # 0x16 # replicate 22 0"] by simp

end
