(* ===== verification/Amount.thy ===== *)
theory Amount
  imports Containers "HOL-Library.Signed_Division"
begin

text \<open>
  \<open>bitcoin/amount.h\<close> and \<open>bitcoin/amount.cpp\<close>: amounts, the money range and fee rates.
  A \<open>CAmount\<close> is an integer of the range of \<open>int64_t\<close>; \<open>chk64\<close> stands at every signed
  operation that could leave it, because overflow of a signed integer is undefined. Signed
  division truncates toward zero (\<open>sdiv\<close>).
\<close>

type_synonym CAmount = int

definition int64_ok :: "int \<Rightarrow> bool" where
  "int64_ok x \<longleftrightarrow> - (2 ^ 63) \<le> x \<and> x < 2 ^ 63"

definition chk64 :: "int \<Rightarrow> int res" where
  "chk64 x = (if int64_ok x then Inr x else Inl (Undefined ''signed overflow''))"

definition COIN :: CAmount where "COIN = 100000000"
definition CENT :: CAmount where "CENT = 1000000"
definition MAX_MONEY :: CAmount where "MAX_MONEY = 21000000 * COIN"

definition MoneyRange :: "CAmount \<Rightarrow> bool" where
  "MoneyRange nValue \<longleftrightarrow> 0 \<le> nValue \<and> nValue \<le> MAX_MONEY"

record CFeeRate =
  nSatoshisPerK :: CAmount

definition CFeeRate_default :: CFeeRate where
  "CFeeRate_default = \<lparr>nSatoshisPerK = 0\<rparr>"

definition CFeeRate_rate :: "CAmount \<Rightarrow> CFeeRate" where
  "CFeeRate_rate r = \<lparr>nSatoshisPerK = r\<rparr>"

text \<open>The constructor from a fee paid and a size; \<open>size_t\<close> has 64 bits.\<close>

definition CFeeRate_paid :: "CAmount \<Rightarrow> 64 word \<Rightarrow> CFeeRate res" where
  "CFeeRate_paid nFeePaid nBytes =
     (if \<not> uint nBytes \<le> 2 ^ 63 - 1 then Inl (Undefined ''assertion nBytes <= max'')
      else
        let nSize = uint nBytes in
        if 0 < nSize
        then rbind (chk64 (nFeePaid * 1000)) (\<lambda>x. Inr \<lparr>nSatoshisPerK = x sdiv nSize\<rparr>)
        else Inr \<lparr>nSatoshisPerK = 0\<rparr>)"

definition GetFee :: "CFeeRate \<Rightarrow> 64 word \<Rightarrow> CAmount res" where
  "GetFee rate nBytes =
     (if \<not> uint nBytes \<le> 2 ^ 63 - 1 then Inl (Undefined ''assertion nBytes <= max'')
      else
        let nSize = uint nBytes in
        rbind (chk64 (nSatoshisPerK rate * nSize)) (\<lambda>x.
          let nFee = x sdiv 1000 in
          Inr (if nFee = 0 \<and> nSize \<noteq> 0 then
                 (if 0 < nSatoshisPerK rate then 1 else if nSatoshisPerK rate < 0 then -1 else nFee)
               else nFee)))"

definition GetFeePerK :: "CFeeRate \<Rightarrow> CAmount res" where
  "GetFeePerK rate = GetFee rate 1000"

definition CFeeRate_less :: "CFeeRate \<Rightarrow> CFeeRate \<Rightarrow> bool" where
  "CFeeRate_less a b \<longleftrightarrow> nSatoshisPerK a < nSatoshisPerK b"

definition CFeeRate_add_assign :: "CFeeRate \<Rightarrow> CFeeRate \<Rightarrow> CFeeRate res" where
  "CFeeRate_add_assign this a =
     rbind (chk64 (nSatoshisPerK this + nSatoshisPerK a)) (\<lambda>x. Inr (this\<lparr>nSatoshisPerK := x\<rparr>))"

section \<open>Serialisation through an integer view\<close>

text \<open>
  A type serialised as the image of another one under \<open>g\<close>, and read back with \<open>f\<close>; it
  is used for signed integers and for classes whose \<open>SerializationOp\<close> lists their fields.
\<close>

lemma canonical_image:
  assumes "canonical Ser Unser enc ok"
    and gf: "\<And>a. ok a \<Longrightarrow> g (f a) = a"
    and Ser': "\<And>b s. Ser' b s = Ser (g b) s"
    and Unser': "\<And>s. Unser' s = sbind Unser (\<lambda>a. sreturn (f a)) s"
    and ok': "\<And>b. ok' b \<longleftrightarrow> ok (g b) \<and> f (g b) = b"
  shows "canonical Ser' Unser' (\<lambda>b. enc (g b)) ok'"
proof -
  note c = serializable.Ser_enc [OF canonical.axioms(1) [OF assms(1)]]
    serializable.Unser_enc [OF canonical.axioms(1) [OF assms(1)]] canonical.Unser_sound [OF assms(1)]
  show ?thesis
  proof unfold_locales
    show "Ser' b s = ds_write (enc (g b)) s" for b s
      by (simp add: Ser' c(1))
  next
    fix b s rest
    assume b: "ok' b" and "ds_wf s" and "pending s = enc (g b) @ rest"
    then obtain s' where "Unser s = Inr (g b, s')" "ds_wf s'" "pending s' = rest"
      using c(2) [of "g b" s rest] ok' by blast
    then show "\<exists>s'. Unser' s = Inr (b, s') \<and> ds_wf s' \<and> pending s' = rest"
      using b ok' by (simp add: Unser')
  next
    fix s b s'
    assume "ds_wf s" and "Unser' s = Inr (b, s')"
    then obtain a where "Unser s = Inr (a, s')" "b = f a"
      by (auto simp: Unser' sbind_eq_Inr)
    then show "ok' b \<and> ds_wf s' \<and> pending s = enc (g b) @ pending s'"
      using c(3) [OF \<open>ds_wf s\<close>, of a s'] by (simp add: ok' gf)
  qed
qed

definition Serialize_int64 :: "int writer" where
  "Serialize_int64 v = ser_writedata64 (of_int v)"

definition Unserialize_int64 :: "int sreader" where
  "Unserialize_int64 = sbind ser_readdata64 (\<lambda>w. sreturn (sint w))"

lemma sint_of_int64: "sint (of_int v :: 64 word) = v \<longleftrightarrow> int64_ok v"
proof
  assume "sint (of_int v :: 64 word) = v"
  then show "int64_ok v"
    using sint_greater_eq [of "of_int v :: 64 word"] sint_less [of "of_int v :: 64 word"]
    by (simp add: int64_ok_def del: of_int_sint)
qed (simp add: int64_ok_def signed_of_int signed_take_bit_int_eq_self)

interpretation i64: canonical Serialize_int64 Unserialize_int64 "\<lambda>v. le_bytes 8 (of_int v :: 64 word)" int64_ok
  by (rule canonical_image [OF u64.canonical_axioms, where f = sint and g = of_int])
    (simp_all add: Serialize_int64_def Unserialize_int64_def sint_of_int64)

definition Serialize_CFeeRate :: "CFeeRate writer" where
  "Serialize_CFeeRate r = Serialize_int64 (nSatoshisPerK r)"

definition Unserialize_CFeeRate :: "CFeeRate sreader" where
  "Unserialize_CFeeRate = sbind Unserialize_int64 (\<lambda>v. sreturn \<lparr>nSatoshisPerK = v\<rparr>)"

interpretation fee_rate: canonical Serialize_CFeeRate Unserialize_CFeeRate
  "\<lambda>r. le_bytes 8 (of_int (nSatoshisPerK r) :: 64 word)" "\<lambda>r. int64_ok (nSatoshisPerK r)"
  by (rule canonical_image [OF i64.canonical_axioms, where f = "\<lambda>v. \<lparr>nSatoshisPerK = v\<rparr>" and g = nSatoshisPerK])
    (simp_all add: Serialize_CFeeRate_def Unserialize_CFeeRate_def)

section \<open>Fees\<close>

lemma sdiv_nonneg: "0 \<le> a \<Longrightarrow> 0 < b \<Longrightarrow> a sdiv b = a div b" for a b :: int
  by (cases "a = 0") (simp_all add: signed_divide_int_def)

lemma GetFee_nonneg:
  assumes "0 \<le> nSatoshisPerK rate" and "nSatoshisPerK rate * uint n < 2 ^ 63" and "uint n < 2 ^ 63"
  shows "GetFee rate n = Inr (if nSatoshisPerK rate * uint n div 1000 = 0 \<and> n \<noteq> 0 \<and> 0 < nSatoshisPerK rate
           then 1 else nSatoshisPerK rate * uint n div 1000)"
proof -
  have "0 \<le> nSatoshisPerK rate * uint n" using assms(1) by simp
  then have "chk64 (nSatoshisPerK rate * uint n) = Inr (nSatoshisPerK rate * uint n)"
    using assms(2) by (simp add: chk64_def int64_ok_def)
  then show ?thesis
    using assms \<open>0 \<le> nSatoshisPerK rate * uint n\<close>
    by (simp add: GetFee_def Let_def sdiv_nonneg uint_0_iff)
qed

lemma GetFee_bounds:
  assumes "0 \<le> nSatoshisPerK rate" and "nSatoshisPerK rate * uint n < 2 ^ 63" and "uint n < 2 ^ 63"
  shows "\<exists>fee. GetFee rate n = Inr fee \<and> 1000 * fee \<le> max (nSatoshisPerK rate * uint n) 1000 \<and>
     nSatoshisPerK rate * uint n < 1000 * (fee + 1) \<and> (fee = 0 \<longleftrightarrow> nSatoshisPerK rate = 0 \<or> n = 0)"
proof -
  define x where "x = nSatoshisPerK rate * uint n"
  have "0 \<le> uint n" by simp
  then have x: "0 \<le> x" "x = 0 \<longleftrightarrow> nSatoshisPerK rate = 0 \<or> n = 0"
    using assms(1) by (simp_all add: x_def uint_0_iff)
  then have "0 < x \<longleftrightarrow> n \<noteq> 0 \<and> 0 < nSatoshisPerK rate" using assms(1) by auto
  with x show ?thesis
    unfolding GetFee_nonneg [OF assms] x_def [symmetric]
    by (intro exI [of _ "if x div 1000 = 0 \<and> 0 < x then 1 else x div 1000"]) auto
qed

lemma GetFee_mono:
  assumes "0 \<le> nSatoshisPerK rate" and "nSatoshisPerK rate * uint m < 2 ^ 63" and "uint m < 2 ^ 63"
    and "n \<le> m"
  shows "\<exists>a b. GetFee rate n = Inr a \<and> GetFee rate m = Inr b \<and> a \<le> b"
proof -
  have nm: "uint n \<le> uint m" using assms(4) by (simp add: word_le_def)
  then have le: "nSatoshisPerK rate * uint n \<le> nSatoshisPerK rate * uint m"
    using assms(1) by (simp add: mult_left_mono)
  then have d: "nSatoshisPerK rate * uint n div 1000 \<le> nSatoshisPerK rate * uint m div 1000"
    by (simp add: zdiv_mono1)
  have "n \<noteq> 0 \<Longrightarrow> m \<noteq> 0" using assms(4) by auto
  moreover have "0 \<le> nSatoshisPerK rate * uint n div 1000"
    using assms(1) by (simp add: pos_imp_zdiv_nonneg_iff)
  moreover note GetFee_nonneg [OF assms(1-3)]
    GetFee_nonneg [OF assms(1) order.strict_trans1 [OF le assms(2)] order.strict_trans1 [OF nm assms(3)]]
  ultimately show ?thesis using d by auto
qed

text \<open>The rate computed from a fee never charges more than that fee for the same size.\<close>

lemma CFeeRate_paid_GetFee:
  assumes "0 \<le> fee" and "fee * 1000 < 2 ^ 63" and "0 < uint n" and "uint n < 2 ^ 63"
  shows "\<exists>rate fee'. CFeeRate_paid fee n = Inr rate \<and> GetFee rate n = Inr fee' \<and>
     fee' \<le> fee \<and> 1000 * (fee - fee') < 1000 + uint n"
proof -
  let ?r = "fee * 1000 div uint n"
  have p: "CFeeRate_paid fee n = Inr \<lparr>nSatoshisPerK = ?r\<rparr>"
    using assms by (simp add: CFeeRate_paid_def Let_def chk64_def int64_ok_def sdiv_nonneg)
  have r0: "0 \<le> ?r" using assms by (simp add: pos_imp_zdiv_nonneg_iff)
  have le: "?r * uint n \<le> fee * 1000"
    by (metis div_mult_mod_eq le_add_same_cancel1 assms(3) pos_mod_sign)
  define x where "x = ?r * uint n"
  have gt: "fee * 1000 < ?r * uint n + uint n"
    using pos_mod_bound [OF assms(3), of "fee * 1000"] div_mult_mod_eq [of "fee * 1000" "uint n"] by linarith
  obtain fee' where fee': "GetFee \<lparr>nSatoshisPerK = ?r\<rparr> n = Inr fee'"
    "1000 * fee' \<le> max (?r * uint n) 1000" "?r * uint n < 1000 * (fee' + 1)" "fee' = 0 \<longleftrightarrow> ?r = 0 \<or> n = 0"
    using GetFee_bounds [of "\<lparr>nSatoshisPerK = ?r\<rparr>" n] r0 le assms by auto
  have "fee' \<le> fee"
  proof (cases "fee = 0")
    case True
    then show ?thesis using fee'(4) by simp
  next
    case False
    then show ?thesis using fee'(2) le assms(1) by linarith
  qed
  moreover have "1000 * (fee - fee') < 1000 + uint n" using gt fee'(3) unfolding x_def [symmetric] by (simp add: right_diff_distrib distrib_left)
  ultimately show ?thesis using p fee'(1) by blast
qed

section \<open>Properties\<close>

text \<open>
  A fee is the rate times the size per thousand, rounded down but never to zero: for
  non-negative rates whose product with the size fits 63 bits, the fee is within one unit
  below the exact value (or is the minimum of one), and is zero only for a zero rate or size.
\<close>

lemma GetFee_rounds_down_to_at_least_one:
  assumes "0 \<le> nSatoshisPerK rate" and "nSatoshisPerK rate * uint n < 2 ^ 63" and "uint n < 2 ^ 63"
  shows "\<exists>fee. GetFee rate n = Inr fee \<and> 1000 * fee \<le> max (nSatoshisPerK rate * uint n) 1000 \<and>
     nSatoshisPerK rate * uint n < 1000 * (fee + 1) \<and> (fee = 0 \<longleftrightarrow> nSatoshisPerK rate = 0 \<or> n = 0)"
  using assms by (rule GetFee_bounds)

end
