(* ===== verification/Transaction.thy ===== *)
theory Transaction
  imports Script Amount
begin

text \<open>
  \<open>src/transaction.h\<close> and \<open>src/transaction.cpp\<close>: outpoints, inputs and outputs with
  their serialisation, comparison and classification, and the dust threshold.
\<close>

section \<open>Outpoints\<close>

record COutPoint =
  op_hash :: bytes
  op_n :: "32 word"

definition COutPoint_SetNull :: "COutPoint \<Rightarrow> COutPoint" where
  "COutPoint_SetNull p = p\<lparr>op_hash := blob_null 32, op_n := -1\<rparr>"

definition COutPoint_IsNull :: "COutPoint \<Rightarrow> bool" where
  "COutPoint_IsNull p \<longleftrightarrow> blob_IsNull (op_hash p) \<and> op_n p = -1"

definition IsSigmaMintGroup :: "COutPoint \<Rightarrow> bool" where
  "IsSigmaMintGroup p \<longleftrightarrow> blob_IsNull (op_hash p) \<and> 1 \<le> op_n p"

definition COutPoint_less :: "COutPoint \<Rightarrow> COutPoint \<Rightarrow> bool" where
  "COutPoint_less a b \<longleftrightarrow>
     (let cmp = blob_Compare (op_hash a) (op_hash b) in cmp < 0 \<or> (cmp = 0 \<and> op_n a < op_n b))"

definition COutPoint_eq :: "COutPoint \<Rightarrow> COutPoint \<Rightarrow> bool" where
  "COutPoint_eq a b \<longleftrightarrow> blob_Compare (op_hash a) (op_hash b) = 0 \<and> op_n a = op_n b"

definition Serialize_COutPoint :: "COutPoint writer" where
  "Serialize_COutPoint p s = ser_writedata32 (op_n p) (Serialize_blob (op_hash p) s)"

definition Unserialize_COutPoint :: "COutPoint sreader" where
  "Unserialize_COutPoint =
     sbind (Unserialize_blob 32) (\<lambda>h. sbind ser_readdata32 (\<lambda>n. sreturn \<lparr>op_hash = h, op_n = n\<rparr>))"

definition outpoint_bytes :: "COutPoint \<Rightarrow> bytes" where
  "outpoint_bytes p = op_hash p @ le_bytes 4 (op_n p)"

text \<open>Two-step readers, as the composition of a pair reader and a constructor.\<close>

lemma sbind_pair:
  "sbind U1 (\<lambda>a. sbind U2 (\<lambda>b. F a b)) s = sbind (Unserialize_pair U1 U2) (\<lambda>(a, b). F a b) s"
  by (simp add: Unserialize_pair_def sbind_def rbind_def split: sum.splits prod.splits)

lemma sbind_triple:
  "sbind U1 (\<lambda>a. sbind U2 (\<lambda>b. sbind U3 (\<lambda>c. F a b c))) s =
     sbind (Unserialize_pair U1 (Unserialize_pair U2 U3)) (\<lambda>(a, (b, c)). F a b c) s"
  by (simp add: Unserialize_pair_def sbind_def rbind_def split: sum.splits prod.splits)

interpretation outpoint: canonical Serialize_COutPoint Unserialize_COutPoint outpoint_bytes
  "\<lambda>p. length (op_hash p) = 32"
proof -
  have "canonical Serialize_COutPoint Unserialize_COutPoint
      (\<lambda>p. fst (op_hash p, op_n p) @ le_bytes 4 (snd (op_hash p, op_n p))) (\<lambda>p. length (op_hash p) = 32)"
    by (rule canonical_image [OF pair_canonical [OF blob_canonical u32.canonical_axioms],
            where f = "\<lambda>(h, n). \<lparr>op_hash = h, op_n = n\<rparr>" and g = "\<lambda>p. (op_hash p, op_n p)"])
      (auto simp: Serialize_COutPoint_def Serialize_pair_def Unserialize_COutPoint_def sbind_pair split_def)
  then show "canonical Serialize_COutPoint Unserialize_COutPoint outpoint_bytes (\<lambda>p. length (op_hash p) = 32)"
    by (simp add: outpoint_bytes_def [abs_def])
qed

section \<open>Inputs\<close>

record CTxIn =
  prevout :: COutPoint
  scriptSig :: bytes
  nSequence :: "32 word"
  prevPubKey :: bytes
  scriptWitness :: "bytes list"

definition SEQUENCE_FINAL :: "32 word" where "SEQUENCE_FINAL = 0xffffffff"

definition CTxIn_default :: CTxIn where
  "CTxIn_default = \<lparr>prevout = \<lparr>op_hash = blob_null 32, op_n = -1\<rparr>, scriptSig = [],
     nSequence = SEQUENCE_FINAL, prevPubKey = [], scriptWitness = []\<rparr>"

definition CTxIn_make :: "COutPoint \<Rightarrow> bytes \<Rightarrow> 32 word \<Rightarrow> CTxIn" where
  "CTxIn_make prevoutIn scriptSigIn nSequenceIn =
     \<lparr>prevout = prevoutIn, scriptSig = scriptSigIn, nSequence = nSequenceIn,
      prevPubKey = [], scriptWitness = []\<rparr>"

definition CTxIn_make_hash :: "bytes \<Rightarrow> 32 word \<Rightarrow> bytes \<Rightarrow> 32 word \<Rightarrow> CTxIn" where
  "CTxIn_make_hash hashPrevTx nOut scriptSigIn nSequenceIn =
     CTxIn_make \<lparr>op_hash = hashPrevTx, op_n = nOut\<rparr> scriptSigIn nSequenceIn"

definition Serialize_CTxIn :: "CTxIn writer" where
  "Serialize_CTxIn i s =
     ser_writedata32 (nSequence i) (Serialize_bytes (scriptSig i) (Serialize_COutPoint (prevout i) s))"

text \<open>
  Reading assigns the three serialised fields of an existing object; the public key and
  the witness keep their values.
\<close>

definition Unserialize_CTxIn :: "CTxIn \<Rightarrow> CTxIn sreader" where
  "Unserialize_CTxIn this =
     sbind Unserialize_COutPoint (\<lambda>p. sbind Unserialize_bytes (\<lambda>sc. sbind ser_readdata32 (\<lambda>n.
       sreturn (this\<lparr>prevout := p, scriptSig := sc, nSequence := n\<rparr>))))"

definition CTxIn_eq :: "CTxIn \<Rightarrow> CTxIn \<Rightarrow> bool" where
  "CTxIn_eq a b \<longleftrightarrow>
     COutPoint_eq (prevout a) (prevout b) \<and> scriptSig a = scriptSig b \<and> nSequence a = nSequence b"

definition CTxIn_less :: "CTxIn \<Rightarrow> CTxIn \<Rightarrow> bool" where
  "CTxIn_less a b \<longleftrightarrow> COutPoint_less (prevout a) (prevout b)"

definition In_IsZerocoinSpend :: "CTxIn \<Rightarrow> bool" where
  "In_IsZerocoinSpend i \<longleftrightarrow> COutPoint_IsNull (prevout i) \<and> starts_with OP_ZEROCOINSPEND (scriptSig i)"

definition In_IsSigmaSpend :: "CTxIn \<Rightarrow> bool" where
  "In_IsSigmaSpend i \<longleftrightarrow> IsSigmaMintGroup (prevout i) \<and> starts_with OP_SIGMASPEND (scriptSig i)"

definition In_IsLelantusJoinSplit :: "CTxIn \<Rightarrow> bool" where
  "In_IsLelantusJoinSplit i \<longleftrightarrow> COutPoint_IsNull (prevout i) \<and>
     (starts_with OP_LELANTUSJOINSPLIT (scriptSig i) \<or> starts_with OP_LELANTUSJOINSPLITPAYLOAD (scriptSig i))"

definition In_IsZerocoinRemint :: "CTxIn \<Rightarrow> bool" where
  "In_IsZerocoinRemint i \<longleftrightarrow> COutPoint_IsNull (prevout i) \<and> starts_with OP_ZEROCOINTOSIGMAREMINT (scriptSig i)"

definition txin_bytes :: "CTxIn \<Rightarrow> bytes" where
  "txin_bytes i = outpoint_bytes (prevout i) @ str_bytes (scriptSig i) @ le_bytes 4 (nSequence i)"

definition txin_ok :: "CTxIn \<Rightarrow> bool" where
  "txin_ok i \<longleftrightarrow> length (op_hash (prevout i)) = 32 \<and> str_ok (scriptSig i)"

lemma CTxIn_eq_iff:
  "this\<lparr>prevout := p, scriptSig := sc, nSequence := n\<rparr> = i \<longleftrightarrow>
     p = prevout i \<and> sc = scriptSig i \<and> n = nSequence i \<and>
     prevPubKey i = prevPubKey this \<and> scriptWitness i = scriptWitness this"
  for this i :: CTxIn
  by (cases this; cases i) auto

lemma txin_canonical:
  "canonical Serialize_CTxIn (Unserialize_CTxIn this) txin_bytes
     (\<lambda>i. txin_ok i \<and> prevPubKey i = prevPubKey this \<and> scriptWitness i = scriptWitness this)"
proof -
  let ?g = "\<lambda>i. (prevout i, (scriptSig i, nSequence i))"
  have "canonical Serialize_CTxIn (Unserialize_CTxIn this)
      (\<lambda>i. outpoint_bytes (fst (?g i)) @ (str_bytes (fst (snd (?g i))) @ le_bytes 4 (snd (snd (?g i)))))
      (\<lambda>i. txin_ok i \<and> prevPubKey i = prevPubKey this \<and> scriptWitness i = scriptWitness this)"
    by (rule canonical_image [OF pair_canonical [OF outpoint.canonical_axioms
              pair_canonical [OF vec.canonical_axioms u32.canonical_axioms]],
            where f = "\<lambda>(p, (sc, n)). this\<lparr>prevout := p, scriptSig := sc, nSequence := n\<rparr>" and g = ?g])
      (auto simp: Serialize_CTxIn_def Serialize_pair_def Unserialize_CTxIn_def sbind_triple split_def
        txin_ok_def CTxIn_eq_iff)
  then show ?thesis by (simp add: txin_bytes_def [abs_def])
qed

interpretation txin: canonical Serialize_CTxIn "Unserialize_CTxIn CTxIn_default" txin_bytes
  "\<lambda>i. txin_ok i \<and> prevPubKey i = prevPubKey CTxIn_default \<and> scriptWitness i = scriptWitness CTxIn_default"
  by (rule txin_canonical)

section \<open>Outputs\<close>

record CTxOut =
  nValue :: CAmount
  scriptPubKey :: bytes
  nRounds :: int

definition CTxOut_SetNull :: "CTxOut \<Rightarrow> CTxOut" where
  "CTxOut_SetNull out = out\<lparr>nValue := -1, scriptPubKey := [], nRounds := -10\<rparr>"

definition CTxOut_IsNull :: "CTxOut \<Rightarrow> bool" where
  "CTxOut_IsNull out \<longleftrightarrow> nValue out = -1"

definition Serialize_CTxOut :: "CTxOut writer" where
  "Serialize_CTxOut out s = Serialize_bytes (scriptPubKey out) (Serialize_int64 (nValue out) s)"

definition Unserialize_CTxOut :: "CTxOut sreader" where
  "Unserialize_CTxOut =
     sbind Unserialize_int64 (\<lambda>v. sbind Unserialize_bytes (\<lambda>sc.
       sreturn \<lparr>nValue = v, scriptPubKey = sc, nRounds = -10\<rparr>))"

definition CTxOut_eq :: "CTxOut \<Rightarrow> CTxOut \<Rightarrow> bool" where
  "CTxOut_eq a b \<longleftrightarrow> nValue a = nValue b \<and> scriptPubKey a = scriptPubKey b"

text \<open>\<open>prevector::operator<\<close>: shorter first, then lexicographic.\<close>

fun bytes_less_from :: "bytes \<Rightarrow> bytes \<Rightarrow> bool" where
  "bytes_less_from (a # as) (b # bs) = (if a < b then True else if b < a then False else bytes_less_from as bs)"
| "bytes_less_from _ _ = False"

definition prevector_less :: "bytes \<Rightarrow> bytes \<Rightarrow> bool" where
  "prevector_less a b \<longleftrightarrow>
     (if length a < length b then True else if length b < length a then False else bytes_less_from a b)"

definition CTxOut_less :: "CTxOut \<Rightarrow> CTxOut \<Rightarrow> bool" where
  "CTxOut_less a b \<longleftrightarrow>
     nValue a < nValue b \<or> (nValue a = nValue b \<and> prevector_less (scriptPubKey a) (scriptPubKey b))"

definition txout_bytes :: "CTxOut \<Rightarrow> bytes" where
  "txout_bytes out = le_bytes 8 (of_int (nValue out) :: 64 word) @ str_bytes (scriptPubKey out)"

definition txout_ok :: "CTxOut \<Rightarrow> bool" where
  "txout_ok out \<longleftrightarrow> int64_ok (nValue out) \<and> str_ok (scriptPubKey out) \<and> nRounds out = -10"

lemma CTxOut_eq_iff:
  "\<lparr>nValue = v, scriptPubKey = sc, nRounds = r\<rparr> = out \<longleftrightarrow>
     v = nValue out \<and> sc = scriptPubKey out \<and> r = nRounds out"
  by (cases out) auto

interpretation txout: canonical Serialize_CTxOut Unserialize_CTxOut txout_bytes txout_ok
proof -
  let ?g = "\<lambda>out. (nValue out, scriptPubKey out)"
  have "canonical Serialize_CTxOut Unserialize_CTxOut
      (\<lambda>out. le_bytes 8 (of_int (fst (?g out)) :: 64 word) @ str_bytes (snd (?g out))) txout_ok"
    by (rule canonical_image [OF pair_canonical [OF i64.canonical_axioms vec.canonical_axioms],
            where f = "\<lambda>(v, sc). \<lparr>nValue = v, scriptPubKey = sc, nRounds = -10\<rparr>" and g = ?g])
      (auto simp: Serialize_CTxOut_def Serialize_pair_def Unserialize_CTxOut_def sbind_pair split_def txout_ok_def CTxOut_eq_iff)
  then show "canonical Serialize_CTxOut Unserialize_CTxOut txout_bytes txout_ok"
    by (simp add: txout_bytes_def [abs_def])
qed

text \<open>\<open>GetSerializeSize(*this, SER_DISK, 0)\<close> runs \<open>SerializationOp\<close> on the size computer.\<close>

definition GetSerializeSize_CTxOut :: "CTxOut \<Rightarrow> nat" where
  "GetSerializeSize_CTxOut out =
     sc_nSize (sc_Serialize_bytes (scriptPubKey out)
       (sc_write (le_bytes 8 (of_int (nValue out) :: 64 word)) (sc_init SER_DISK 0)))"

definition WITNESS_SCALE_FACTOR :: nat where "WITNESS_SCALE_FACTOR = 4"

definition GetDustThreshold :: "CTxOut \<Rightarrow> CFeeRate \<Rightarrow> CAmount res" where
  "GetDustThreshold out minRelayTxFee =
     (if IsUnspendable (scriptPubKey out) then Inr 0
      else
        rbind (IsWitnessProgram (scriptPubKey out)) (\<lambda>wp.
          let sz = (of_nat (GetSerializeSize_CTxOut out) :: 64 word);
              sz' = (case wp of
                  Some _ \<Rightarrow> sz + of_nat (32 + 4 + 1 + (107 div WITNESS_SCALE_FACTOR) + 4)
                | None \<Rightarrow> sz + (32 + 4 + 1 + 107 + 4))
          in rbind (GetFee minRelayTxFee sz') (\<lambda>fee. chk64 (3 * fee))))"

section \<open>Lemmas\<close>

lemma COutPoint_eq_iff:
  "length (op_hash a) = length (op_hash b) \<Longrightarrow> COutPoint_eq a b \<longleftrightarrow> a = b"
  by (cases a; cases b) (auto simp: COutPoint_eq_def blob_Compare_eq)

lemma COutPoint_order:
  assumes "length (op_hash a) = 32" and "length (op_hash b) = 32" and "length (op_hash c) = 32"
  shows "\<not> COutPoint_less a a"
    and "a \<noteq> b \<Longrightarrow> COutPoint_less a b \<noteq> COutPoint_less b a"
    and "COutPoint_less a b \<Longrightarrow> COutPoint_less b c \<Longrightarrow> COutPoint_less a c"
proof -
  have eq: "blob_Compare (op_hash x) (op_hash y) = 0 \<longleftrightarrow> op_hash x = op_hash y"
    if "length (op_hash x) = 32" "length (op_hash y) = 32" for x y
    using that by (simp add: blob_Compare_eq)
  show "\<not> COutPoint_less a a"
    using eq [OF assms(1,1)] by (simp add: COutPoint_less_def)
  show "a \<noteq> b \<Longrightarrow> COutPoint_less a b \<noteq> COutPoint_less b a"
    using eq [OF assms(1,2)] blob_Compare_anti [of "op_hash a" "op_hash b"]
    by (cases a; cases b) (auto simp: COutPoint_less_def Let_def)
  have less: "COutPoint_less x y \<longleftrightarrow> blob_less (op_hash x) (op_hash y) \<or> (op_hash x = op_hash y \<and> op_n x < op_n y)"
    if "length (op_hash x) = 32" "length (op_hash y) = 32" for x y
    using eq [OF that] by (auto simp: COutPoint_less_def blob_less_def Let_def)
  show "COutPoint_less a b \<Longrightarrow> COutPoint_less b c \<Longrightarrow> COutPoint_less a c"
    using blob_less_trans [of "op_hash a" "op_hash b" "op_hash c"] assms by (auto simp: less)
qed

lemma GetSerializeSize_CTxOut_bytes:
  "length (txout_bytes out) < 2 ^ 64 \<Longrightarrow> GetSerializeSize_CTxOut out = length (txout_bytes out)"
  by (simp add: Let_def GetSerializeSize_CTxOut_def sc_Serialize_bytes_def sc_seek_write sc_write_def
      sc_init_def txout_bytes_def str_bytes_def)

lemma txin_length: "length (op_hash (prevout i)) = 32 \<Longrightarrow> length (txin_bytes i) = 40 + length (str_bytes (scriptSig i))"
  by (simp add: txin_bytes_def outpoint_bytes_def)

section \<open>Properties\<close>

text \<open>
  Reading a transaction output is the exact inverse of writing one: the reader succeeds on
  a stream with output \<open>out\<close> and rest \<open>rest\<close> if and only if \<open>out\<close> can be written and the
  stream holds precisely its bytes followed by \<open>rest\<close>.
\<close>

lemma CTxOut_read_iff_written:
  assumes "ds_wf s"
  shows "(\<exists>s'. Unserialize_CTxOut s = Inr (out, s') \<and> pending s' = rest) \<longleftrightarrow>
     txout_ok out \<and> pending s = vch (Serialize_CTxOut out (ds_init SER_DISK 0)) @ rest"
  using txout.Unser_iff [OF assms] by (simp add: txout.Ser_enc)

text \<open>
  \<open>operator<\<close> on outpoints is a strict total order that agrees with \<open>operator==\<close>, as the
  ordered containers keyed by outpoints require.
\<close>

lemma COutPoint_strict_total_order:
  assumes "length (op_hash a) = 32" and "length (op_hash b) = 32" and "length (op_hash c) = 32"
  shows "\<not> COutPoint_less a a \<and> (COutPoint_eq a b \<longleftrightarrow> a = b) \<and>
    (\<not> COutPoint_eq a b \<longrightarrow> COutPoint_less a b \<noteq> COutPoint_less b a) \<and>
    (COutPoint_less a b \<longrightarrow> COutPoint_less b c \<longrightarrow> COutPoint_less a c)"
  using COutPoint_order [OF assms] COutPoint_eq_iff [of a b] assms by simp

end
