(* ===== verification/CoinSelection.thy ===== *)
theory CoinSelection
  imports Transaction "HOL-Library.Multiset" "HOL-Library.Product_Lexorder"
begin

text \<open>
  The spend planner of \<open>sparkmobile/src/spark.cpp\<close>: the balance of a coin list, the choice
  of the coins to spend, the fee loop, the deduction of the fee from recipients, and the
  outputs of the transaction with its change. The cryptographic payload of a coin and an
  address are type parameters: the planner only copies and compares them.
\<close>

section \<open>Data\<close>

text \<open>\<open>CSparkMintMeta\<close> of \<open>primitives.h\<close>; \<open>nonceHash\<close> is a cache and is left out.\<close>

record ('scalar, 'coin) CSparkMintMeta =
  nHeight :: int
  nId :: int
  isUsed :: bool
  txid :: bytes
  cm_i :: "64 word"
  cm_d :: bytes
  cm_v :: "64 word"
  cm_k :: 'scalar
  cm_memo :: bytes
  serial_context :: bytes
  coin_type :: byte
  cm_coin :: 'coin

record 'addr OutputCoinData =
  oc_address :: 'addr
  oc_v :: "64 word"
  oc_memo :: bytes

text \<open>\<open>SpendTransactionVersion\<close> is an enumeration over \<open>uint8_t\<close>; a cast can give any byte.\<close>

definition V1 :: byte where "V1 = 1"
definition V2 :: byte where "V2 = 2"
definition MAX_CHAUM_V2_INPUTS :: nat where "MAX_CHAUM_V2_INPUTS = 100"
definition SPARK_OUT_LIMIT_PER_TX :: nat where "SPARK_OUT_LIMIT_PER_TX = 16"
definition UINT_MAX :: nat where "UINT_MAX = 4294967295"

section \<open>Balance\<close>

fun balance_from :: "CAmount \<Rightarrow> ('k, 'c) CSparkMintMeta list \<Rightarrow> CAmount res" where
  "balance_from balance [] = Inr balance"
| "balance_from balance (c # cs) =
     (if MAX_MONEY < uint (cm_v c) \<or> MAX_MONEY - balance < uint (cm_v c)
      then Inl (Invalid_Argument ''Spark coin amount is out of range'')
      else balance_from (balance + uint (cm_v c)) cs)"

definition CalculateSparkCoinsBalance :: "('k, 'c) CSparkMintMeta list \<Rightarrow> CAmount res" where
  "CalculateSparkCoinsBalance cs = balance_from 0 cs"

section \<open>Choice of the coins\<close>

text \<open>
  \<open>std::list::sort\<close> is stable, so sorting by a comparator that orders keys is \<open>sort_key\<close>.
  \<open>take_smallest\<close> is the reverse iteration, over the reversed list: the first coin from the
  back that suffices and whose neighbour toward the front has another value.
\<close>

definition biggest_first :: "('k, 'c) CSparkMintMeta \<Rightarrow> int \<times> int" where
  "biggest_first c = (- uint (cm_v c), nHeight c)"

fun take_smallest ::
  "int \<Rightarrow> ('k, 'c) CSparkMintMeta list \<Rightarrow> (('k, 'c) CSparkMintMeta \<times> ('k, 'c) CSparkMintMeta list) option" where
  "take_smallest need [] = None"
| "take_smallest need (c # rest) =
     (if need \<le> uint (cm_v c) \<and> (rest = [] \<or> cm_v (hd rest) \<noteq> cm_v c) then Some (c, rest)
      else map_option (\<lambda>(x, r). (x, c # r)) (take_smallest need rest))"

text \<open>
  The \<open>while\<close> loop. When no coin is found in the second branch the code would go on with a
  default coin; the lemma \<open>take_smallest_found\<close> shows that this branch always finds one.
\<close>

lemma take_smallest_mset: "take_smallest need cs = Some (x, r) \<Longrightarrow> mset cs = add_mset x (mset r) \<and> need \<le> uint (cm_v x)"
  by (induction cs arbitrary: r) (auto split: if_splits)

function select_loop ::
  "CAmount \<Rightarrow> CAmount \<Rightarrow> ('k, 'c) CSparkMintMeta list \<Rightarrow> ('k, 'c) CSparkMintMeta list \<Rightarrow>
     (CAmount \<times> ('k, 'c) CSparkMintMeta list) res" where
  "select_loop required spend_val [] coinsToSpend = Inr (spend_val, coinsToSpend)"
| "select_loop required spend_val (c # cs) coinsToSpend =
     (if \<not> spend_val < required then Inr (spend_val, coinsToSpend)
      else
        let need = required - spend_val in
        if uint (cm_v c) \<le> need
        then select_loop required (spend_val + uint (cm_v c)) cs (coinsToSpend @ [c])
        else
          (case take_smallest need (rev (c # cs)) of
             Some (choosen, r) \<Rightarrow>
               select_loop required (spend_val + uint (cm_v choosen)) (rev r) (coinsToSpend @ [choosen])
           | None \<Rightarrow> Inl (Undefined ''no coin chosen'')))"
  by pat_completeness auto
termination
proof (relation "measure (\<lambda>(_, _, cs, _). length cs)")
  fix required spend_val need :: int and c choosen :: "('k, 'c) CSparkMintMeta" and cs r z x2
  assume "take_smallest need (rev (c # cs)) = Some x2" "(choosen, r) = x2"
  then have "mset (rev (c # cs)) = add_mset choosen (mset r)"
    using take_smallest_mset [of need "rev (c # cs)" choosen r] by simp
  then have "length (c # cs) = Suc (length r)"
    by (metis length_rev size_add_mset size_mset)
  then show "((required, spend_val + uint (cm_v choosen), rev r, z @ [choosen]), required, spend_val, c # cs, z)
      \<in> measure (\<lambda>(_, _, cs, _). length cs)" by simp
qed auto

definition GetCoinsToSpend ::
  "CAmount \<Rightarrow> ('k, 'c) CSparkMintMeta list \<Rightarrow> ('k, 'c) CSparkMintMeta list \<Rightarrow>
     (('k, 'c) CSparkMintMeta list \<times> CAmount) res" where
  "GetCoinsToSpend required coinsToSpend_out coins =
     (if \<not> MoneyRange required then Inl (Invalid_Argument ''Spark spend amount is out of range'')
      else
        rbind (CalculateSparkCoinsBalance coins) (\<lambda>availableBalance.
          if availableBalance < required then Inl (Runtime_Error ''Insufficient funds !'')
          else
            rbind (select_loop required 0 (sort_key biggest_first coins) []) (\<lambda>(spend_val, coinsToSpend).
              Inr (sort_key nId coinsToSpend @ coinsToSpend_out, spend_val - required))))"

section \<open>The fee loop\<close>

definition addEstimatedSize :: "nat \<Rightarrow> nat \<Rightarrow> nat \<Rightarrow> nat res" where
  "addEstimatedSize bytesPerItem itemCount estimatedSize =
     (if (UINT_MAX - estimatedSize) div bytesPerItem < itemCount
      then Inl (Invalid_Argument ''Spark spend size estimate is out of range'')
      else Inr (estimatedSize + bytesPerItem * itemCount))"

definition estimate_fee :: "byte \<Rightarrow> nat \<Rightarrow> nat \<Rightarrow> nat \<Rightarrow> nat \<Rightarrow> nat res" where
  "estimate_fee version spendNum mintNum utxoNum additionalTxSize =
     rbind (addEstimatedSize 1803 spendNum 924) (\<lambda>e.
     rbind (addEstimatedSize 322 mintNum e) (\<lambda>e.
     rbind (addEstimatedSize 322 1 e) (\<lambda>e.
     rbind (addEstimatedSize 34 utxoNum e) (\<lambda>e.
     rbind (addEstimatedSize 1 additionalTxSize e) (\<lambda>e.
       if version = V2 then
         rbind (addEstimatedSize 32 1 e) (\<lambda>e.
           if 1 < spendNum then addEstimatedSize 98 (spendNum - 1) e else Inr e)
       else Inr e)))))"

lemma addEstimatedSize_Inr:
  assumes "0 < b" and "e \<le> UINT_MAX"
  shows "addEstimatedSize b n e = Inr e' \<longleftrightarrow> e' = e + b * n \<and> e' \<le> UINT_MAX"
proof -
  have "\<not> (UINT_MAX - e) div b < n \<longleftrightarrow> n * b \<le> UINT_MAX - e"
    using assms(1) by (simp add: not_less less_eq_div_iff_mult_less_eq)
  then show ?thesis
    using assms(2) by (auto simp: addEstimatedSize_def mult.commute)
qed

lemma UINT_MAX_924: "924 \<le> UINT_MAX"
  by (simp add: UINT_MAX_def)

lemma rbind_addEstimatedSize:
  "0 < b \<Longrightarrow> e \<le> UINT_MAX \<Longrightarrow>
     rbind (addEstimatedSize b n e) f = Inr y \<longleftrightarrow> e + b * n \<le> UINT_MAX \<and> f (e + b * n) = Inr y"
  by (auto simp: rbind_Inr_iff addEstimatedSize_Inr)

lemma estimate_fee_Inr:
  "estimate_fee version spendNum mintNum utxoNum additionalTxSize = Inr e \<longleftrightarrow>
     e = 924 + 1803 * spendNum + 322 * mintNum + 322 + 34 * utxoNum + additionalTxSize +
         (if version = V2 then 32 + 98 * (spendNum - 1) else 0) \<and> e \<le> UINT_MAX"
proof -
  have last_step: "(if 1 < spendNum then addEstimatedSize 98 (spendNum - 1) x else Inr x) = Inr e \<longleftrightarrow>
      e = x + 98 * (spendNum - 1) \<and> e \<le> UINT_MAX" if "x \<le> UINT_MAX" for x
    using that by (auto simp: addEstimatedSize_Inr)
  show ?thesis
  proof (cases "version = V2")
    case True
    then show ?thesis
      unfolding estimate_fee_def
      by (simp only: rbind_addEstimatedSize last_step simp_thms if_True UINT_MAX_924 zero_less_numeral
          zero_less_one cong: conj_cong) (rule iffI; linarith)
  next
    case False
    then show ?thesis
      unfolding estimate_fee_def
      by (simp only: rbind_addEstimatedSize if_False UINT_MAX_924 zero_less_numeral zero_less_one
          sum.inject simp_thms cong: conj_cong) (rule iffI; linarith)
  qed
qed

function fee_loop ::
  "byte \<Rightarrow> CAmount \<Rightarrow> bool \<Rightarrow> ('k, 'c) CSparkMintMeta list \<Rightarrow> nat \<Rightarrow> nat \<Rightarrow> nat \<Rightarrow> CAmount \<Rightarrow>
     (CAmount \<times> ('k, 'c) CSparkMintMeta list \<times> CAmount) res" where
  "fee_loop version required subtractFeeFromAmount coins mintNum utxoNum additionalTxSize fee =
     (if \<not> MoneyRange fee then Inl (Invalid_Argument ''Spark spend fee is out of range'')
      else if \<not> subtractFeeFromAmount \<and> MAX_MONEY - required < fee
      then Inl (Invalid_Argument ''Spark spend amount plus fee is out of range'')
      else
        rbind (GetCoinsToSpend (if subtractFeeFromAmount then required else required + fee) [] coins)
          (\<lambda>(spendCoins, changeToMint).
            if version = V2 \<and> (spendCoins = [] \<or> MAX_CHAUM_V2_INPUTS < length spendCoins)
            then Inl (Invalid_Argument ''Bad Spark V2 input count'')
            else
              rbind (estimate_fee version (length spendCoins) mintNum utxoNum additionalTxSize)
                (\<lambda>feeNeeded.
                  if int feeNeeded \<le> fee then Inr (fee, spendCoins, changeToMint)
                  else if subtractFeeFromAmount then Inr (int feeNeeded, spendCoins, changeToMint)
                  else fee_loop version required subtractFeeFromAmount coins mintNum utxoNum
                         additionalTxSize (int feeNeeded))))"
  by pat_completeness auto
termination
  by (relation "measure (\<lambda>(_, _, _, _, _, _, _, fee). nat (int UINT_MAX + 1 - fee))")
    (auto simp: estimate_fee_Inr)

declare fee_loop.simps [simp del]

definition SelectSparkCoins ::
  "CAmount \<Rightarrow> bool \<Rightarrow> ('k, 'c) CSparkMintMeta list \<Rightarrow> nat \<Rightarrow> nat \<Rightarrow> nat \<Rightarrow> byte \<Rightarrow>
     (CAmount \<times> ('k, 'c) CSparkMintMeta list) res" where
  "SelectSparkCoins required subtractFeeFromAmount coins mintNum utxoNum additionalTxSize version =
     (if version \<noteq> V1 \<and> version \<noteq> V2 then Inl (Invalid_Argument ''Unsupported Spark spend version'')
      else if \<not> MoneyRange required then Inl (Invalid_Argument ''Spark spend amount is out of range'')
      else
        rbind (GetFeePerK CFeeRate_default) (\<lambda>fee.
        rbind (fee_loop version required subtractFeeFromAmount coins mintNum utxoNum additionalTxSize fee)
          (\<lambda>(fee, spendCoins, changeToMint).
            if changeToMint < 0 then Inl (Invalid_Argument ''Unable to select cons for spend'')
            else Inr (fee, spendCoins))))"

section \<open>Totals and deduction of the fee\<close>

fun recipient_totals :: "CAmount \<Rightarrow> nat \<Rightarrow> (CAmount \<times> bool) list \<Rightarrow> (CAmount \<times> nat) res" where
  "recipient_totals vOut n [] = Inr (vOut, n)"
| "recipient_totals vOut n (r # rs) =
     (if \<not> MoneyRange (fst r) \<or> MAX_MONEY - vOut < fst r
      then Inl (Runtime_Error ''Recipient has invalid amount'')
      else recipient_totals (vOut + fst r) (if snd r then n + 1 else n) rs)"

fun private_totals :: "CAmount \<Rightarrow> nat \<Rightarrow> ('a OutputCoinData \<times> bool) list \<Rightarrow> (CAmount \<times> nat) res" where
  "private_totals mintVOut n [] = Inr (mintVOut, n)"
| "private_totals mintVOut n (r # rs) =
     (if MAX_MONEY < uint (oc_v (fst r)) \<or> MAX_MONEY - mintVOut < uint (oc_v (fst r))
      then Inl (Runtime_Error ''Private recipient has invalid amount'')
      else private_totals (mintVOut + uint (oc_v (fst r))) (if snd r then n + 1 else n) rs)"

definition fee_share :: "CAmount \<Rightarrow> CAmount \<Rightarrow> bool \<Rightarrow> CAmount" where
  "fee_share feePerRecipient feeRemainder remainderSubtracted =
     (if \<not> remainderSubtracted then feePerRecipient + feeRemainder else feePerRecipient)"

fun deduct_public ::
  "CAmount \<Rightarrow> CAmount \<Rightarrow> bool \<Rightarrow> (CAmount \<times> bool) list \<Rightarrow> ((CAmount \<times> bool) list \<times> bool) res" where
  "deduct_public per rem done [] = Inr ([], done)"
| "deduct_public per rem done ((amount, flag) # rs) =
     (if flag then
        (if amount \<le> fee_share per rem done
         then Inl (Runtime_Error ''Recipient amount is too small after fee deduction'')
         else rbind (deduct_public per rem True rs)
                (\<lambda>(rs', done'). Inr ((amount - fee_share per rem done, flag) # rs', done')))
      else rbind (deduct_public per rem done rs) (\<lambda>(rs', done'). Inr ((amount, flag) # rs', done')))"

fun deduct_private ::
  "CAmount \<Rightarrow> CAmount \<Rightarrow> bool \<Rightarrow> ('a OutputCoinData \<times> bool) list \<Rightarrow>
     (('a OutputCoinData \<times> bool) list \<times> bool) res" where
  "deduct_private per rem done [] = Inr ([], done)"
| "deduct_private per rem done ((out, flag) # rs) =
     (if flag then
        (if oc_v out \<le> of_int (fee_share per rem done)
         then Inl (Runtime_Error ''Private recipient amount is too small after fee deduction'')
         else rbind (deduct_private per rem True rs)
                (\<lambda>(rs', done').
                  Inr ((out\<lparr>oc_v := oc_v out - of_int (fee_share per rem done)\<rparr>, flag) # rs', done')))
      else rbind (deduct_private per rem done rs) (\<lambda>(rs', done'). Inr ((out, flag) # rs', done')))"

section \<open>The plan of a spend\<close>

record ('k, 'c, 'a) spend_plan =
  sp_fee :: CAmount
  sp_coins :: "('k, 'c) CSparkMintMeta list"
  sp_transparentOut :: CAmount
  sp_privOutputs :: "'a OutputCoinData list"

text \<open>
  \<open>createSparkSpendTransaction\<close> up to the list of private outputs. \<open>changeAddress\<close> is the
  address of the incoming view key and \<open>SPARK_CHANGE_D\<close>; \<open>extensionNull\<close> is
  \<open>extensionCommitment.IsNull()\<close>.
\<close>

definition plan_outputs ::
  "'a \<Rightarrow> CAmount \<Rightarrow> ('k, 'c) CSparkMintMeta list \<Rightarrow> (CAmount \<times> bool) list \<Rightarrow>
     ('a OutputCoinData \<times> bool) list \<Rightarrow> ('k, 'c, 'a) spend_plan res" where
  "plan_outputs changeAddress fee spent recipients privateRecipients =
     (let transparentOut = (\<Sum>r\<leftarrow>recipients. fst r);
          kept = filter (\<lambda>out. oc_v out \<noteq> 0) (map fst privateRecipients);
          spendInCurrentTx = (\<Sum>c\<leftarrow>spent. uint (cm_v c)) - fee - transparentOut - (\<Sum>out\<leftarrow>kept. uint (oc_v out))
      in if spendInCurrentTx < 0 then Inl (Invalid_Argument ''Unable to create spend transaction.'')
         else Inr \<lparr>sp_fee = fee, sp_coins = spent, sp_transparentOut = transparentOut,
           sp_privOutputs =
             (if kept = [] \<or> 0 < spendInCurrentTx
              then kept @ [\<lparr>oc_address = changeAddress,
                     oc_v = (if 0 < spendInCurrentTx then of_int spendInCurrentTx else 0), oc_memo = []\<rparr>]
              else kept)\<rparr>)"

text \<open>The deduction of the fee, then the outputs.\<close>

definition plan_deducted ::
  "'a \<Rightarrow> CAmount \<Rightarrow> ('k, 'c) CSparkMintMeta list \<Rightarrow> nat \<Rightarrow> (CAmount \<times> bool) list \<Rightarrow>
     ('a OutputCoinData \<times> bool) list \<Rightarrow> ('k, 'c, 'a) spend_plan res" where
  "plan_deducted changeAddress fee spent toSubtract recipients privateRecipients =
     (let per = (if 0 < toSubtract then fee div int toSubtract else 0);
          rem = (if 0 < toSubtract then fee mod int toSubtract else 0)
      in rbind (deduct_public per rem False recipients) (\<lambda>(recipients', done).
         rbind (deduct_private per rem done privateRecipients) (\<lambda>(privateRecipients', _).
           plan_outputs changeAddress fee spent recipients' privateRecipients')))"

definition plan_spend ::
  "'a \<Rightarrow> (CAmount \<times> bool) list \<Rightarrow> ('a OutputCoinData \<times> bool) list \<Rightarrow> ('k, 'c) CSparkMintMeta list \<Rightarrow>
     nat \<Rightarrow> byte \<Rightarrow> bool \<Rightarrow> ('k, 'c, 'a) spend_plan res" where
  "plan_spend changeAddress recipients privateRecipients coins additionalTxSize version extensionNull =
     (if version \<noteq> V1 \<and> version \<noteq> V2 then Inl (Invalid_Argument ''Unsupported Spark spend version'')
      else if version = V1 \<and> \<not> extensionNull
      then Inl (Invalid_Argument ''Spark V1 cannot bind an extension commitment'')
      else if recipients = [] \<and> privateRecipients = []
      then Inl (Runtime_Error ''Either recipients or newMints has to be nonempty.'')
      else if SPARK_OUT_LIMIT_PER_TX - 1 \<le> length privateRecipients
      then Inl (Runtime_Error ''Spark shielded output limit exceeded.'')
      else
        rbind (recipient_totals 0 0 recipients) (\<lambda>(vOut, n).
        rbind (private_totals 0 n privateRecipients) (\<lambda>(mintVOut, toSubtract).
          if MAX_MONEY - vOut < mintVOut
          then Inl (Runtime_Error ''Spark spend output amount is out of range'')
          else
            rbind (SelectSparkCoins (vOut + mintVOut) (toSubtract \<noteq> 0) coins
                     (length privateRecipients) (length recipients) additionalTxSize version)
              (\<lambda>(fee, spent).
                if version = V1 \<and> length spent \<noteq> 1
                then Inl (Invalid_Argument ''Spark V1 spends require exactly one input'')
                else plan_deducted changeAddress fee spent toSubtract recipients privateRecipients))))"

section \<open>Inputs and their cover sets\<close>

record 'c CoverSetData =
  cover_set :: "'c list"
  cover_set_representation :: bytes

fun getIndex_from :: "nat \<Rightarrow> 'c \<Rightarrow> 'c list \<Rightarrow> nat option" where
  "getIndex_from j coin [] = None"
| "getIndex_from j coin (a # as) = (if a = coin then Some j else getIndex_from (j + 1) coin as)"

definition getIndex :: "'c \<Rightarrow> 'c list \<Rightarrow> nat option" where
  "getIndex coin anonymity_set = getIndex_from 0 coin anonymity_set"

record 'k InputCoinData =
  cover_set_id :: "64 word"
  ic_index :: nat
  ic_v :: "64 word"
  ic_k :: 'k

text \<open>
  The loop over the chosen coins, without the recovery of the tag and serial number of each
  coin: it collects the cover set of each group once, with the transaction hash appended to
  its representation, and finds each coin in its set.
\<close>

fun spend_inputs ::
  "(64 word \<Rightarrow> 'c CoverSetData option) \<Rightarrow> (64 word \<Rightarrow> bytes option) \<Rightarrow> bytes \<Rightarrow> byte \<Rightarrow>
   (64 word \<Rightarrow> 'c CoverSetData option) \<Rightarrow> (64 word \<Rightarrow> bytes option) \<Rightarrow> ('k, 'c) CSparkMintMeta list \<Rightarrow>
     ('k InputCoinData list \<times> (64 word \<Rightarrow> 'c CoverSetData option) \<times> (64 word \<Rightarrow> bytes option)) res" where
  "spend_inputs all_sets all_hashes txHashSig version sets hashes [] = Inr ([], sets, hashes)"
| "spend_inputs all_sets all_hashes txHashSig version sets hashes (coin # coins) =
     (let groupId = of_int (nId coin) :: 64 word in
      rbind
        (case sets groupId of
           Some cs \<Rightarrow> Inr (cs, sets, hashes)
         | None \<Rightarrow>
             (case (all_sets groupId, all_hashes groupId) of
                (Some cs, Some h) \<Rightarrow>
                  if version = V2 \<and> length (cover_set_representation cs) \<noteq> 32
                  then Inl (Runtime_Error ''Spark V2 cover set representation must be 32 bytes'')
                  else
                    let cs' = cs\<lparr>cover_set_representation := cover_set_representation cs @ txHashSig\<rparr>
                    in Inr (cs', sets(groupId \<mapsto> cs'), hashes(groupId \<mapsto> h))
              | _ \<Rightarrow> Inl (Runtime_Error ''No such coin in set in input data'')))
        (\<lambda>(cs, sets', hashes').
          (case getIndex (cm_coin coin) (cover_set cs) of
             None \<Rightarrow> Inl (Runtime_Error ''No such coin in set'')
           | Some index \<Rightarrow>
               rbind (spend_inputs all_sets all_hashes txHashSig version sets' hashes' coins)
                 (\<lambda>(inputs, sets'', hashes'').
                   Inr (\<lparr>cover_set_id = groupId, ic_index = index, ic_v = cm_v coin, ic_k = cm_k coin\<rparr>
                          # inputs, sets'', hashes'')))))"

section \<open>Mint recipients\<close>

record CRecipient =
  pubKey :: bytes
  cr_amount :: CAmount
  subtractFeeFromAmount :: bool

fun mint_total :: "CAmount \<Rightarrow> 64 word list \<Rightarrow> CAmount res" where
  "mint_total tot [] = Inr tot"
| "mint_total tot (v # vs) =
     (if MAX_MONEY < uint v \<or> MAX_MONEY - tot < uint v
      then Inl (Invalid_Argument ''Spark mint amount is out of range'')
      else mint_total (tot + uint v) vs)"

text \<open>The end of \<open>createSparkMintRecipients\<close>, from the serialised coins of the mint.\<close>

definition mint_recipients :: "64 word list \<Rightarrow> bytes list \<Rightarrow> CRecipient list res" where
  "mint_recipients outputs serializedCoins =
     (if length outputs \<noteq> length serializedCoins
      then Inl (Runtime_Error ''Spark mint output number should be equal to required number.'')
      else Inr (map2 (\<lambda>v coin. \<lparr>pubKey = [OP_SPARKMINT] @ coin, cr_amount = sint v,
                   subtractFeeFromAmount = False\<rparr>) outputs serializedCoins))"

section \<open>Lemmas on the choice of coins\<close>

abbreviation coin_sum :: "('k, 'c) CSparkMintMeta list \<Rightarrow> int" where
  "coin_sum cs \<equiv> (\<Sum>c\<leftarrow>cs. uint (cm_v c))"

lemma coin_sum_mset: "coin_sum cs = (\<Sum>c\<in>#mset cs. uint (cm_v c))"
  by (metis mset_map sum_mset_sum_list)

lemma coin_sum_nonneg: "0 \<le> coin_sum cs"
  by (rule sum_list_nonneg) auto

lemma balance_from_Inr:
  "0 \<le> balance \<Longrightarrow> balance \<le> MAX_MONEY \<Longrightarrow>
     balance_from balance cs = Inr b \<longleftrightarrow> b = balance + coin_sum cs \<and> b \<le> MAX_MONEY"
proof (induction cs arbitrary: balance)
  case Nil
  then show ?case by auto
next
  case (Cons c cs)
  show ?case
  proof (cases "balance + uint (cm_v c) \<le> MAX_MONEY \<and> uint (cm_v c) \<le> MAX_MONEY")
    case True
    moreover have "0 \<le> balance + uint (cm_v c)" using Cons.prems(1) by simp
    ultimately show ?thesis using Cons.IH [of "balance + uint (cm_v c)"] by auto
  next
    case False
    have "balance + uint (cm_v c) > MAX_MONEY \<Longrightarrow> balance + (uint (cm_v c) + coin_sum cs) > MAX_MONEY"
      using coin_sum_nonneg [of cs] by linarith
    then show ?thesis using False Cons.prems by auto
  qed
qed

lemma balance_Inr:
  assumes "\<forall>c \<in> set cs. uint (cm_v c) \<le> MAX_MONEY"
  shows "CalculateSparkCoinsBalance cs = Inr b \<longleftrightarrow> b = coin_sum cs \<and> b \<le> MAX_MONEY"
  unfolding CalculateSparkCoinsBalance_def
  by (subst balance_from_Inr) (simp_all add: MAX_MONEY_def COIN_def)

lemma take_smallest_found:
  "cs \<noteq> [] \<Longrightarrow> need \<le> uint (cm_v (last cs)) \<Longrightarrow> \<exists>x r. take_smallest need cs = Some (x, r)"
proof (induction cs)
  case (Cons c cs)
  then show ?case by (cases "cs = []") auto
qed simp

text \<open>
  The loop invariant: the coins still to choose from are sorted, none of them is worth more
  than a chosen one while more is needed, and without any one of the chosen coins the
  target is missed.
\<close>

abbreviation desc :: "('k, 'c) CSparkMintMeta list \<Rightarrow> bool" where
  "desc cs \<equiv> sorted (map biggest_first cs)"

lemma desc_Cons: "desc (c # cs) \<Longrightarrow> d \<in> set cs \<Longrightarrow> cm_v d \<le> cm_v c"
  by (auto simp: biggest_first_def word_le_def less_eq_prod_def)

lemma select_loop_spec:
  assumes "desc cs" and "spend_val = coin_sum acc" and "required \<le> spend_val + coin_sum cs"
    and "spend_val < required \<Longrightarrow> \<forall>c \<in> set acc. \<forall>d \<in> set cs. cm_v d \<le> cm_v c"
    and "required \<le> spend_val \<Longrightarrow> \<forall>c \<in> set acc. spend_val - uint (cm_v c) < required"
  shows "\<exists>sel. select_loop required spend_val cs acc = Inr (coin_sum sel, sel) \<and>
     mset sel \<subseteq># mset acc + mset cs \<and> required \<le> coin_sum sel \<and>
     (\<forall>c \<in> set sel. coin_sum sel - uint (cm_v c) < required)"
  using assms
proof (induction required spend_val cs acc rule: select_loop.induct)
  case (1 required spend_val acc)
  then show ?case by auto
next
  case (2 required spend_val c cs acc)
  show ?case
  proof (cases "spend_val < required")
    case False
    then show ?thesis using "2.prems" by (auto intro!: exI [of _ acc])
  next
    case less: True
    define need where "need = required - spend_val"
    have step: "\<forall>d \<in> set (acc @ [x]). spend_val + uint (cm_v x) - uint (cm_v d) < required"
      if "x \<in> set (c # cs)" for x
      using less "2.prems"(4) that by (auto simp: word_le_def) fastforce+
    show ?thesis
    proof (cases "uint (cm_v c) \<le> need")
      case True
      have "\<exists>sel. select_loop required (spend_val + uint (cm_v c)) cs (acc @ [c]) = Inr (coin_sum sel, sel) \<and>
          mset sel \<subseteq># mset (acc @ [c]) + mset cs \<and> required \<le> coin_sum sel \<and>
          (\<forall>c \<in> set sel. coin_sum sel - uint (cm_v c) < required)"
      proof (rule "2.IH"(1) [OF _ need_def True])
        show "\<forall>d \<in> set (acc @ [c]). \<forall>e \<in> set cs. cm_v e \<le> cm_v d"
          using less "2.prems"(4) desc_Cons [OF "2.prems"(1)] by auto
        show "\<forall>d \<in> set (acc @ [c]). spend_val + uint (cm_v c) - uint (cm_v d) < required"
          by (rule step) simp
      qed (use less "2.prems" in simp_all)
      then show ?thesis using less True by (simp add: need_def)
    next
      case False
      then obtain x r where x: "take_smallest need (rev (c # cs)) = Some (x, r)"
        using take_smallest_found [of "rev (c # cs)" need] by auto
      note m = take_smallest_mset [OF x]
      then have m': "mset (c # cs) = add_mset x (mset (rev r))" by simp
      have enough: "required \<le> spend_val + uint (cm_v x)" using m by (simp add: need_def)
      have "x \<in> set (c # cs)" using m' by (metis set_mset_mset union_single_eq_member add_mset_add_single union_commute)
      note s = step [OF this]
      have loop: "select_loop required (spend_val + uint (cm_v x)) (rev r) (acc @ [x]) =
          Inr (spend_val + uint (cm_v x), acc @ [x])"
        using enough by (cases "rev r") simp_all
      have sum: "coin_sum (acc @ [x]) = spend_val + uint (cm_v x)" using "2.prems"(2) by simp
      have "select_loop required spend_val (c # cs) acc = Inr (coin_sum (acc @ [x]), acc @ [x])"
        using less False x loop unfolding sum by (simp add: need_def)
      moreover have "mset (acc @ [x]) \<subseteq># mset acc + mset (c # cs)" unfolding m' by simp
      ultimately show ?thesis using enough s unfolding sum [symmetric] by blast
    qed
  qed
qed

text \<open>What \<open>GetCoinsToSpend\<close> promises, on success and on failure.\<close>

definition selects ::
  "CAmount \<Rightarrow> ('k, 'c) CSparkMintMeta list \<Rightarrow> ('k, 'c) CSparkMintMeta list \<Rightarrow> CAmount \<Rightarrow> bool" where
  "selects required coins sel change \<longleftrightarrow>
     mset sel \<subseteq># mset coins \<and> sorted (map nId sel) \<and>
     coin_sum sel = required + change \<and> 0 \<le> change \<and> (\<forall>c \<in> set sel. change < uint (cm_v c))"

lemma GetCoinsToSpend_selects:
  assumes "MoneyRange required" and "CalculateSparkCoinsBalance coins = Inr balance" and "required \<le> balance"
  shows "\<exists>sel change. GetCoinsToSpend required out coins = Inr (sel @ out, change) \<and>
     selects required coins sel change"
proof -
  have b: "balance = coin_sum coins"
    using assms(2) balance_from_Inr [of 0 coins balance]
    by (simp add: CalculateSparkCoinsBalance_def MAX_MONEY_def COIN_def)
  have "coin_sum (sort_key biggest_first coins) = coin_sum coins"
    by (simp add: coin_sum_mset)
  then obtain sel where sel: "select_loop required 0 (sort_key biggest_first coins) [] = Inr (coin_sum sel, sel)"
    "mset sel \<subseteq># mset coins" "required \<le> coin_sum sel" "\<forall>c \<in> set sel. coin_sum sel - uint (cm_v c) < required"
    using select_loop_spec [of "sort_key biggest_first coins" 0 "[]" required] assms(3) b by auto
  have "coin_sum (sort_key nId sel) = coin_sum sel" by (simp add: coin_sum_mset)
  moreover have "\<not> balance < required" using assms(3) by simp
  ultimately show ?thesis
    using sel assms(1,2)
    by (intro exI [of _ "sort_key nId sel"] exI [of _ "coin_sum sel - required"])
      (auto simp: GetCoinsToSpend_def selects_def)
qed

lemma GetCoinsToSpend_Inr:
  assumes "GetCoinsToSpend required out coins = Inr (sel', change)"
  shows "\<exists>sel. sel' = sel @ out \<and> selects required coins sel change \<and> coin_sum coins \<le> MAX_MONEY"
proof -
  from assms obtain balance where b: "MoneyRange required" "CalculateSparkCoinsBalance coins = Inr balance"
    "required \<le> balance"
    by (auto simp: GetCoinsToSpend_def rbind_Inr_iff not_less split: if_splits)
  moreover have "coin_sum coins \<le> MAX_MONEY"
    using b(2) balance_from_Inr [of 0 coins balance]
    by (simp add: CalculateSparkCoinsBalance_def MAX_MONEY_def COIN_def)
  ultimately show ?thesis
    using assms GetCoinsToSpend_selects [OF b, of out] by auto
qed

section \<open>Lemmas on the fee loop\<close>

definition fee_covers ::
  "byte \<Rightarrow> CAmount \<Rightarrow> bool \<Rightarrow> ('k, 'c) CSparkMintMeta list \<Rightarrow> nat \<Rightarrow> nat \<Rightarrow> nat \<Rightarrow> CAmount \<Rightarrow>
     ('k, 'c) CSparkMintMeta list \<Rightarrow> CAmount \<Rightarrow> bool" where
  "fee_covers version required subtract coins mintNum utxoNum additionalTxSize fee sel change \<longleftrightarrow>
     selects (if subtract then required else required + fee) coins sel change \<and>
     (\<exists>needed. estimate_fee version (length sel) mintNum utxoNum additionalTxSize = Inr needed \<and>
        int needed \<le> fee) \<and>
     (version = V2 \<longrightarrow> sel \<noteq> [] \<and> length sel \<le> MAX_CHAUM_V2_INPUTS) \<and>
     0 \<le> fee \<and> coin_sum coins \<le> MAX_MONEY"

lemma fee_loop_covers:
  "fee_loop version required subtract coins mintNum utxoNum additionalTxSize fee = Inr (fee', sel, change) \<Longrightarrow>
     fee_covers version required subtract coins mintNum utxoNum additionalTxSize fee' sel change \<and> fee \<le> fee'"
proof (induction version required subtract coins mintNum utxoNum additionalTxSize fee rule: fee_loop.induct)
  case (1 version required subtract coins mintNum utxoNum additionalTxSize fee)
  let ?req = "if subtract then required else required + fee"
  from "1.prems" have m: "MoneyRange fee" and bound: "\<not> (\<not> subtract \<and> MAX_MONEY - required < fee)"
    by (subst (asm) fee_loop.simps, auto split: if_splits)+
  from "1.prems" m bound obtain sel0 change0 needed where
    g: "GetCoinsToSpend ?req [] coins = Inr (sel0, change0)" and
    v2: "\<not> (version = V2 \<and> (sel0 = [] \<or> MAX_CHAUM_V2_INPUTS < length sel0))" and
    e: "estimate_fee version (length sel0) mintNum utxoNum additionalTxSize = Inr needed" and
    r: "(if int needed \<le> fee then Inr (fee, sel0, change0)
         else if subtract then Inr (int needed, sel0, change0)
         else fee_loop version required subtract coins mintNum utxoNum additionalTxSize (int needed)) =
        Inr (fee', sel, change)"
    by (subst (asm) fee_loop.simps) (auto simp: rbind_Inr_iff simp del: GetCoinsToSpend_def split: if_split_asm)
  have s: "selects ?req coins sel0 change0" "coin_sum coins \<le> MAX_MONEY"
    using GetCoinsToSpend_Inr [OF g] by auto
  show ?case
  proof (cases "int needed \<le> fee \<or> subtract")
    case True
    then show ?thesis
      using r s e v2 m by (auto simp: fee_covers_def MoneyRange_def split: if_splits)
  next
    case False
    then have l: "fee_loop version required subtract coins mintNum utxoNum additionalTxSize (int needed) =
        Inr (fee', sel, change)" using r by auto
    have "\<not> int needed \<le> fee" "\<not> subtract" using False by auto
    have "\<not> \<not> MoneyRange fee" using m by simp
    from "1.IH" [OF this bound g refl v2 e \<open>\<not> int needed \<le> fee\<close> \<open>\<not> subtract\<close> l] False
    show ?thesis by auto
  qed
qed

lemma GetFeePerK_default: "GetFeePerK CFeeRate_default = Inr 0"
  by (simp add: GetFeePerK_def GetFee_def CFeeRate_default_def chk64_def int64_ok_def)

lemma SelectSparkCoins_covers:
  assumes "SelectSparkCoins required subtract coins mintNum utxoNum additionalTxSize version = Inr (fee, sel)"
  shows "\<exists>change. fee_covers version required subtract coins mintNum utxoNum additionalTxSize fee sel change"
  using assms fee_loop_covers
  by (fastforce simp: SelectSparkCoins_def rbind_Inr_iff GetFeePerK_default split: if_split_asm)

section \<open>Lemmas on the totals and the deduction\<close>

lemma recipient_totals_Inr:
  "recipient_totals vOut n rs = Inr (v', n') \<Longrightarrow>
     v' = vOut + (\<Sum>r\<leftarrow>rs. fst r) \<and> n' = n + length (filter snd rs) \<and> (\<forall>r \<in> set rs. 0 \<le> fst r) \<and>
     (vOut \<le> MAX_MONEY \<longrightarrow> v' \<le> MAX_MONEY)"
proof (induction rs arbitrary: vOut n)
  case (Cons r rs)
  from Cons.prems have c: "recipient_totals (vOut + fst r) (if snd r then n + 1 else n) rs = Inr (v', n')"
    "MoneyRange (fst r)" "\<not> MAX_MONEY - vOut < fst r"
    by (auto split: if_split_asm)
  from Cons.IH [OF c(1)] c(2,3) show ?case by (auto simp: MoneyRange_def split: if_split_asm)
qed simp

lemma private_totals_Inr:
  "private_totals m n rs = Inr (m', n') \<Longrightarrow>
     m' = m + (\<Sum>r\<leftarrow>rs. uint (oc_v (fst r))) \<and> n' = n + length (filter snd rs) \<and>
     (m \<le> MAX_MONEY \<longrightarrow> m' \<le> MAX_MONEY)"
proof (induction rs arbitrary: m n)
  case (Cons r rs)
  from Cons.prems have c: "private_totals (m + uint (oc_v (fst r))) (if snd r then n + 1 else n) rs = Inr (m', n')"
    "\<not> MAX_MONEY - m < uint (oc_v (fst r))"
    by (auto split: if_split_asm)
  from Cons.IH [OF c(1)] c(2) show ?case by (auto split: if_split_asm)
qed simp

text \<open>
  What is taken from a list of recipients: one share per flagged recipient, and the
  remainder once, from the first one.
\<close>

definition deducted :: "CAmount \<Rightarrow> CAmount \<Rightarrow> bool \<Rightarrow> nat \<Rightarrow> CAmount" where
  "deducted per rem done k = int k * per + (if 0 < k \<and> \<not> done then rem else 0)"

lemma deduct_public_Inr:
  "deduct_public per rem done rs = Inr (rs', done') \<Longrightarrow>
     map snd rs' = map snd rs \<and> done' = (done \<or> (\<exists>r \<in> set rs. snd r)) \<and>
     (\<Sum>r\<leftarrow>rs'. fst r) = (\<Sum>r\<leftarrow>rs. fst r) - deducted per rem done (length (filter snd rs)) \<and>
     (\<forall>r \<in> set rs'. snd r \<longrightarrow> 0 < fst r) \<and>
     ((\<forall>r \<in> set rs. 0 \<le> fst r) \<longrightarrow> (\<forall>r \<in> set rs'. 0 \<le> fst r))"
proof (induction rs arbitrary: "done" rs' done')
  case Nil
  then show ?case by (simp add: deducted_def)
next
  case (Cons r rs)
  obtain a flag where r: "r = (a, flag)" by fastforce
  show ?case
  proof (cases flag)
    case False
    then obtain rs2 where 1: "deduct_public per rem done rs = Inr (rs2, done')" "rs' = (a, flag) # rs2"
      using Cons.prems by (auto simp: r rbind_Inr_iff)
    then show ?thesis using Cons.IH [OF 1(1)] False by (auto simp: r)
  next
    case True
    then obtain rs2 where 1: "deduct_public per rem True rs = Inr (rs2, done')"
      "rs' = (a - fee_share per rem done, flag) # rs2" "fee_share per rem done < a"
      using Cons.prems by (auto simp: r rbind_Inr_iff split: if_split_asm)
    then show ?thesis
      using Cons.IH [OF 1(1)] True
      by (auto simp: r deducted_def fee_share_def algebra_simps)
  qed
qed

lemma deduct_private_Inr:
  assumes "0 \<le> per" and "0 \<le> rem" and "per + rem < 2 ^ 64"
  shows "deduct_private per rem done rs = Inr (rs', done') \<Longrightarrow>
     map snd rs' = map snd rs \<and>
     (\<Sum>r\<leftarrow>rs'. uint (oc_v (fst r))) =
       (\<Sum>r\<leftarrow>rs. uint (oc_v (fst r))) - deducted per rem done (length (filter snd rs)) \<and>
     map (oc_address \<circ> fst) rs' = map (oc_address \<circ> fst) rs \<and> map (oc_memo \<circ> fst) rs' = map (oc_memo \<circ> fst) rs"
proof (induction rs arbitrary: "done" rs' done')
  case Nil
  then show ?case by (simp add: deducted_def)
next
  case (Cons r rs)
  obtain a flag where r: "r = (a, flag)" by fastforce
  show ?case
  proof (cases flag)
    case False
    then obtain rs2 where 1: "deduct_private per rem done rs = Inr (rs2, done')" "rs' = (a, flag) # rs2"
      using Cons.prems by (auto simp: r rbind_Inr_iff)
    then show ?thesis using Cons.IH [OF 1(1)] False by (auto simp: r)
  next
    case True
    let ?f = "fee_share per rem done"
    have f: "0 \<le> ?f" "?f < 2 ^ 64" using assms by (auto simp: fee_share_def)
    then have uf: "uint (of_int ?f :: 64 word) = ?f" by (simp add: unsigned_of_int take_bit_int_eq_self)
    obtain rs2 where 1: "deduct_private per rem True rs = Inr (rs2, done')"
      "rs' = (a\<lparr>oc_v := oc_v a - of_int ?f\<rparr>, flag) # rs2" "\<not> oc_v a \<le> of_int ?f"
      using Cons.prems True by (auto simp: r rbind_Inr_iff split: if_split_asm)
    have "uint (oc_v a - of_int ?f) = uint (oc_v a) - ?f"
      using 1(3) uf by (simp add: uint_sub_if' word_le_def not_le)
    then show ?thesis
      using Cons.IH [OF 1(1)] True 1(2)
      by (auto simp: r deducted_def fee_share_def algebra_simps)
  qed
qed

section \<open>Lemmas on the plan\<close>

lemma sum_kept:
  "(\<Sum>out\<leftarrow>filter (\<lambda>out. oc_v out \<noteq> 0) outs. uint (oc_v out)) = (\<Sum>out\<leftarrow>outs. uint (oc_v out))"
  by (induction outs) auto

lemma plan_outputs_Inr:
  assumes "plan_outputs chg fee spent recipients privs = Inr plan"
    and "0 \<le> fee" and "\<forall>r \<in> set recipients. 0 \<le> fst r" and "coin_sum spent < 2 ^ 63"
  shows "sp_fee plan = fee \<and> sp_coins plan = spent \<and> sp_transparentOut plan = (\<Sum>r\<leftarrow>recipients. fst r) \<and>
     coin_sum spent = fee + sp_transparentOut plan + (\<Sum>out\<leftarrow>sp_privOutputs plan. uint (oc_v out)) \<and>
     sp_privOutputs plan \<noteq> [] \<and> length (sp_privOutputs plan) \<le> length privs + 1"
proof -
  let ?kept = "filter (\<lambda>out. oc_v out \<noteq> 0) (map fst privs)"
  define t where "t = (\<Sum>r\<leftarrow>recipients. fst r)"
  define k where "k = (\<Sum>out\<leftarrow>?kept. uint (oc_v out))"
  define left where "left = coin_sum spent - fee - t - k"
  have "0 \<le> t" unfolding t_def using assms(3) by (intro sum_list_nonneg) auto
  moreover have "0 \<le> k" unfolding k_def by (intro sum_list_nonneg) auto
  ultimately have "left < 2 ^ 63" using assms(2,4) by (simp add: left_def)
  moreover have l0: "0 \<le> left"
    using assms(1) unfolding plan_outputs_def Let_def t_def [symmetric] k_def [symmetric] left_def [symmetric]
    by (simp split: if_split_asm)
  ultimately have ul: "uint (of_int left :: 64 word) = left"
    by (simp add: unsigned_of_int take_bit_int_eq_self)
  have len: "length ?kept \<le> length privs" by (metis length_filter_le length_map)
  have plan: "plan = \<lparr>sp_fee = fee, sp_coins = spent, sp_transparentOut = t,
           sp_privOutputs =
             (if ?kept = [] \<or> 0 < left
              then ?kept @ [\<lparr>oc_address = chg, oc_v = (if 0 < left then of_int left else 0), oc_memo = []\<rparr>]
              else ?kept)\<rparr>"
    using assms(1) l0 unfolding plan_outputs_def Let_def t_def [symmetric] k_def [symmetric] left_def [symmetric]
    by simp
  have "(\<Sum>out\<leftarrow>sp_privOutputs plan. uint (oc_v out)) = k + left"
    using l0 ul by (auto simp: plan k_def)
  then have "coin_sum spent = fee + sp_transparentOut plan + (\<Sum>out\<leftarrow>sp_privOutputs plan. uint (oc_v out))"
    by (simp add: left_def plan)
  moreover have "sp_privOutputs plan \<noteq> []" by (simp add: plan)
  moreover have "length (sp_privOutputs plan) \<le> length privs + 1" using len by (simp add: plan le_SucI)
  ultimately show ?thesis by (simp add: plan t_def)
qed

lemma deduct_private_length:
  "deduct_private per rem d rs = Inr (rs', d') \<Longrightarrow> length rs' = length rs"
  by (induction per rem d rs arbitrary: rs' d' rule: deduct_private.induct)
    (auto simp: rbind_Inr_iff split: if_split_asm)

text \<open>The deduction shares out the whole fee.\<close>

lemma deducted_whole_fee:
  assumes "0 < k1 + k2"
  shows "deducted (fee div int (k1 + k2)) (fee mod int (k1 + k2)) False k1 +
    deducted (fee div int (k1 + k2)) (fee mod int (k1 + k2)) (0 < k1) k2 = fee"
proof -
  have "fee div int (k1 + k2) * int (k1 + k2) + fee mod int (k1 + k2) = fee" by (rule div_mult_mod_eq)
  then show ?thesis using assms by (auto simp: deducted_def algebra_simps)
qed

lemma msum_nonneg: "0 \<le> (\<Sum>c\<in>#M. uint (cm_v c))"
  by (induction M) auto

lemma plan_spend_sound:
  assumes "plan_spend chg recipients privs coins extra version null = Inr plan"
  shows "mset (sp_coins plan) \<subseteq># mset coins \<and>
     coin_sum (sp_coins plan) = sp_fee plan + sp_transparentOut plan + (\<Sum>out\<leftarrow>sp_privOutputs plan. uint (oc_v out)) \<and>
     1 \<le> length (sp_privOutputs plan) \<and> length (sp_privOutputs plan) < SPARK_OUT_LIMIT_PER_TX \<and>
     (version = V1 \<longrightarrow> length (sp_coins plan) = 1) \<and>
     (version = V2 \<longrightarrow> 1 \<le> length (sp_coins plan) \<and> length (sp_coins plan) \<le> MAX_CHAUM_V2_INPUTS) \<and>
     (\<exists>needed. estimate_fee version (length (sp_coins plan)) (length privs) (length recipients) extra = Inr needed \<and>
        int needed \<le> sp_fee plan)"
proof -
  have lim: "\<not> SPARK_OUT_LIMIT_PER_TX - 1 \<le> length privs"
    using assms by (simp add: plan_spend_def split: if_split_asm)
  obtain vOut n mintVOut toSubtract fee spent where
    t1: "recipient_totals 0 0 recipients = Inr (vOut, n)" and
    sel: "SelectSparkCoins (vOut + mintVOut) (toSubtract \<noteq> 0) coins (length privs) (length recipients) extra version
        = Inr (fee, spent)" and
    one: "\<not> (version = V1 \<and> length spent \<noteq> 1)" and
    pd: "plan_deducted chg fee spent toSubtract recipients privs = Inr plan"
    using assms by (auto simp: plan_spend_def rbind_Inr_iff split: if_split_asm)
  obtain per rem recipients' dn privs' dn' where
    d1: "deduct_public per rem False recipients = Inr (recipients', dn)" and
    d2: "deduct_private per rem dn privs = Inr (privs', dn')" and
    po: "plan_outputs chg fee spent recipients' privs' = Inr plan"
    using pd unfolding plan_deducted_def Let_def by (fastforce simp: rbind_Inr_iff)
  obtain change where cov: "fee_covers version (vOut + mintVOut) (toSubtract \<noteq> 0) coins (length privs)
      (length recipients) extra fee spent change"
    using SelectSparkCoins_covers [OF sel] by blast
  then have sub: "mset spent \<subseteq># mset coins" by (simp add: fee_covers_def selects_def)
  have "coin_sum coins = coin_sum spent + (\<Sum>c\<in>#mset coins - mset spent. uint (cm_v c))"
    unfolding coin_sum_mset using sub by (metis image_mset_union subset_mset.add_diff_inverse sum_mset.union)
  moreover note msum_nonneg [of "mset coins - mset spent"]
  ultimately have bound: "coin_sum spent < 2 ^ 63"
    using cov by (simp add: fee_covers_def MAX_MONEY_def COIN_def)
  have "\<forall>r \<in> set recipients'. 0 \<le> fst r"
    using recipient_totals_Inr [OF t1] deduct_public_Inr [OF d1] by blast
  note p = plan_outputs_Inr [OF po _ this bound]
  have "length privs' = length privs" using deduct_private_length [OF d2] .
  then show ?thesis
    using p cov one lim sub
    by (auto simp: fee_covers_def SPARK_OUT_LIMIT_PER_TX_def Suc_le_eq V1_def V2_def)
qed

section \<open>Properties\<close>

text \<open>A sample wallet, for the concrete instances of the properties.\<close>

definition sample_coin :: "int \<Rightarrow> 64 word \<Rightarrow> (unit, nat) CSparkMintMeta" where
  "sample_coin i v = \<lparr>nHeight = 1, nId = i, isUsed = False, txid = [], cm_i = 0, cm_d = [], cm_v = v,
     cm_k = (), cm_memo = [], serial_context = [], coin_type = 0, cm_coin = 0\<rparr>"

lemma sample_coin_simps [simp]: "cm_v (sample_coin i v) = v" "nId (sample_coin i v) = i" "nHeight (sample_coin i v) = 1"
  by (simp_all add: sample_coin_def)

definition sample_coins :: "(unit, nat) CSparkMintMeta list" where
  "sample_coins = [sample_coin 2 30000, sample_coin 1 70000, sample_coin 3 20000]"

lemmas money_simps = MoneyRange_def MAX_MONEY_def COIN_def
lemmas selection_simps = GetCoinsToSpend_def CalculateSparkCoinsBalance_def biggest_first_def sample_coins_def money_simps

lemma sample_balance: "CalculateSparkCoinsBalance sample_coins = Inr 120000"
  by (simp add: selection_simps)

lemma sample_selection:
  "GetCoinsToSpend 85000 [] sample_coins = Inr ([sample_coin 1 70000, sample_coin 3 20000], 5000)"
  by (simp add: selection_simps)

lemma sample_select_coins:
  "SelectSparkCoins 85000 True sample_coins (Suc 0) (Suc 0) 0 V2 = Inr (5338, [sample_coin 1 70000, sample_coin 3 20000])"
  by (simp add: SelectSparkCoins_def fee_loop.simps sample_selection money_simps GetFeePerK_default estimate_fee_def
      addEstimatedSize_def V1_def V2_def UINT_MAX_def MAX_CHAUM_V2_INPUTS_def)

definition sample_private :: "nat OutputCoinData" where
  "sample_private = \<lparr>oc_address = 9, oc_v = 5000, oc_memo = []\<rparr>"

lemma versions_differ: "V2 \<noteq> V1"
  by (simp add: V1_def V2_def)

lemma sample_plan:
  "plan_spend 0 [(80000, True)] [(sample_private, False)] sample_coins 0 V2 True = Inr
     \<lparr>sp_fee = 5338, sp_coins = [sample_coin 1 70000, sample_coin 3 20000], sp_transparentOut = 74662,
       sp_privOutputs = [sample_private, \<lparr>oc_address = 0, oc_v = 5000, oc_memo = []\<rparr>]\<rparr>"
  by (simp add: plan_spend_def sample_select_coins SPARK_OUT_LIMIT_PER_TX_def plan_deducted_def plan_outputs_def
      sample_private_def money_simps fee_share_def versions_differ)

text \<open>
  C1: a planned spend conserves value and respects the limits: the coins spent are coins of the
  wallet, each used once, and their total is exactly the fee plus the transparent outputs
  plus the private outputs (change included); there are between 1 and 15 private outputs; a
  V1 spend has one input and a V2 spend between 1 and 100; the fee is at least the size
  estimate of that transaction.
\<close>

theorem plan_spend_conserves:
  assumes "plan_spend chg recipients privs coins extra version null = Inr plan"
  shows "mset (sp_coins plan) \<subseteq># mset coins \<and>
     coin_sum (sp_coins plan) = sp_fee plan + sp_transparentOut plan + (\<Sum>out\<leftarrow>sp_privOutputs plan. uint (oc_v out)) \<and>
     1 \<le> length (sp_privOutputs plan) \<and> length (sp_privOutputs plan) < SPARK_OUT_LIMIT_PER_TX \<and>
     (version = V1 \<longrightarrow> length (sp_coins plan) = 1) \<and>
     (version = V2 \<longrightarrow> 1 \<le> length (sp_coins plan) \<and> length (sp_coins plan) \<le> MAX_CHAUM_V2_INPUTS) \<and>
     (\<exists>needed. estimate_fee version (length (sp_coins plan)) (length privs) (length recipients) extra = Inr needed \<and>
        int needed \<le> sp_fee plan)"
  using assms by (rule plan_spend_sound)

theorem plan_spend_conserves_witness:
  "mset [sample_coin 1 70000, sample_coin 3 20000] \<subseteq># mset sample_coins \<and>
   coin_sum [sample_coin 1 70000, sample_coin 3 20000] = 5338 + 74662 + 10000"
  using plan_spend_conserves [OF sample_plan] by (simp add: sample_private_def)

text \<open>
  C2: the coins chosen for an amount are distinct coins of the wallet in order of their group,
  they cover the amount exactly up to the change that is reported, and none of them could be
  left out: the change is smaller than every chosen coin.
\<close>

theorem chosen_coins_cover_and_are_needed:
  assumes "GetCoinsToSpend required out coins = Inr (sel', change)"
  shows "\<exists>sel. sel' = sel @ out \<and> mset sel \<subseteq># mset coins \<and> sorted (map nId sel) \<and>
     coin_sum sel = required + change \<and> 0 \<le> change \<and> (\<forall>c \<in> set sel. change < uint (cm_v c))"
  using GetCoinsToSpend_Inr [OF assms] by (auto simp: selects_def)

theorem chosen_coins_cover_and_are_needed_witness:
  "\<exists>sel. [sample_coin 1 70000, sample_coin 3 20000] = sel @ [] \<and> mset sel \<subseteq># mset sample_coins \<and>
     sorted (map nId sel) \<and> coin_sum sel = 85000 + 5000 \<and> (0::int) \<le> 5000 \<and> (\<forall>c \<in> set sel. 5000 < uint (cm_v c))"
  using chosen_coins_cover_and_are_needed [OF sample_selection] by blast

text \<open>
  C3: the choice of coins never fails on a wallet that can pay: for an amount in the money
  range, with a valid balance that reaches it, coins are found; and when the balance
  misses the amount the error is the one for insufficient funds.
\<close>

theorem coin_choice_succeeds_iff_funds:
  assumes "MoneyRange required" and "CalculateSparkCoinsBalance coins = Inr balance"
  shows "if required \<le> balance then \<exists>sel change. GetCoinsToSpend required [] coins = Inr (sel, change)
     else GetCoinsToSpend required [] coins = Inl (Runtime_Error ''Insufficient funds !'')"
  using GetCoinsToSpend_selects [OF assms, of "[]"] assms by (auto simp: GetCoinsToSpend_def)

theorem coin_choice_succeeds_iff_funds_witness:
  "(\<exists>sel change. GetCoinsToSpend 100 [] sample_coins = Inr (sel, change)) \<and>
   GetCoinsToSpend 120001 [] sample_coins = Inl (Runtime_Error ''Insufficient funds !'')"
  using coin_choice_succeeds_iff_funds [OF _ sample_balance, of 100] coin_choice_succeeds_iff_funds [OF _ sample_balance, of 120001]
  by (simp add: money_simps)

text \<open>
  C4: the fee that comes with selected coins is settled: it covers the size estimate for the
  number of coins really selected, the coins cover the amount (plus the fee, unless it is
  taken from the recipients), and a V2 selection has between 1 and 100 coins.
\<close>

theorem selected_coins_pay_their_fee:
  assumes "SelectSparkCoins required subtract coins mintNum utxoNum additionalTxSize version = Inr (fee, sel)"
  shows "(\<exists>needed. estimate_fee version (length sel) mintNum utxoNum additionalTxSize = Inr needed \<and> int needed \<le> fee) \<and>
     (if subtract then required else required + fee) \<le> coin_sum sel \<and> mset sel \<subseteq># mset coins \<and>
     (version = V2 \<longrightarrow> 1 \<le> length sel \<and> length sel \<le> MAX_CHAUM_V2_INPUTS)"
  using SelectSparkCoins_covers [OF assms] by (auto simp: fee_covers_def selects_def Suc_le_eq)

theorem selected_coins_pay_their_fee_witness:
  "85000 \<le> coin_sum [sample_coin 1 70000, sample_coin 3 20000]"
  using selected_coins_pay_their_fee [OF sample_select_coins] by simp

end
