(* ===== verification/Ctaes.thy ===== *)
theory Ctaes
  imports SparkPrelude
begin

text \<open>
  \<open>bitcoin/crypto/ctaes/ctaes.c\<close>: the bit-sliced AES. A state is the list of the eight
  16-bit slices; slice \<open>b\<close> holds bit \<open>b\<close> of the sixteen bytes, the byte of row \<open>r\<close> and
  column \<open>c\<close> at position \<open>4 * r + c\<close>. The gates of \<open>SubBytes\<close> are translated at an arbitrary
  word length, so that one run over 256-bit words checks all byte values at once.
\<close>

section \<open>The S-box circuit\<close>

text \<open>
  The linear preprocessing, the shared non-linear layer and the linear postprocessing, each
  from the named wires the next one reads.
\<close>

type_synonym 'a slices = "'a word \<times> 'a word \<times> 'a word \<times> 'a word \<times> 'a word \<times> 'a word \<times> 'a word \<times> 'a word"
type_synonym 'a linear = "'a word \<times> 'a word \<times> 'a word \<times> 'a word \<times> 'a word \<times> 'a word \<times> 'a word \<times> 'a word \<times> 'a word \<times> 'a word \<times> 'a word \<times> 'a word \<times> 'a word \<times> 'a word \<times> 'a word \<times> 'a word \<times> 'a word \<times> 'a word \<times> 'a word \<times> 'a word \<times> 'a word \<times> 'a word"
type_synonym 'a products = "'a word \<times> 'a word \<times> 'a word \<times> 'a word \<times> 'a word \<times> 'a word \<times> 'a word \<times> 'a word \<times> 'a word \<times> 'a word \<times> 'a word \<times> 'a word \<times> 'a word \<times> 'a word \<times> 'a word \<times> 'a word \<times> 'a word \<times> 'a word"

definition sub_pre :: "'a::len slices \<Rightarrow> 'a linear" where
  "sub_pre = (\<lambda>(U0, U1, U2, U3, U4, U5, U6, U7).
     let T1 = U0 XOR U3; T2 = U0 XOR U5; T3 = U0 XOR U6; T4 = U3 XOR U5; T5 = U4 XOR U6;
       T6 = T1 XOR T5; T7 = U1 XOR U2; T8 = U7 XOR T6; T9 = U7 XOR T7; T10 = T6 XOR T7;
       T11 = U1 XOR U5; T12 = U2 XOR U5; T13 = T3 XOR T4; T14 = T6 XOR T11; T15 = T5 XOR T11;
       T16 = T5 XOR T12; T17 = T9 XOR T16; T18 = U3 XOR U7; T19 = T7 XOR T18;
       T20 = T1 XOR T19; T21 = U6 XOR U7; T22 = T7 XOR T21; T23 = T2 XOR T22;
       T24 = T2 XOR T10; T25 = T20 XOR T17; T26 = T3 XOR T16; T27 = T1 XOR T12; D = U7
     in (T1, T2, T3, T4, T6, T8, T9, T10, T13, T14, T15, T16, T17, T19, T20, T22, T23, T24, T25,
         T26, T27, D))"

definition sub_pre_inv :: "'a::len slices \<Rightarrow> 'a linear" where
  "sub_pre_inv = (\<lambda>(U0, U1, U2, U3, U4, U5, U6, U7).
     let T23 = U0 XOR U3; T22 = NOT (U1 XOR U3); T2 = NOT (U0 XOR U1); T1 = U3 XOR U4;
       T24 = NOT (U4 XOR U7); R5 = U6 XOR U7; T8 = NOT (U1 XOR T23); T19 = T22 XOR R5;
       T9 = NOT (U7 XOR T1); T10 = T2 XOR T24; T13 = T2 XOR R5; T3 = T1 XOR R5;
       T25 = NOT (U2 XOR T1); R13 = U1 XOR U6; T17 = NOT (U2 XOR T19); T20 = T24 XOR R13;
       T4 = U4 XOR T8; R17 = NOT (U2 XOR U5); R18 = NOT (U5 XOR U6); R19 = NOT (U2 XOR U4);
       D = U0 XOR R17; T6 = T22 XOR R17; T16 = R13 XOR R19; T27 = T1 XOR R18;
       T15 = T10 XOR T27; T14 = T10 XOR R18; T26 = T3 XOR T16
     in (T1, T2, T3, T4, T6, T8, T9, T10, T13, T14, T15, T16, T17, T19, T20, T22, T23, T24, T25,
         T26, T27, D))"

definition sub_nonlinear :: "'a::len linear \<Rightarrow> 'a products" where
  "sub_nonlinear = (\<lambda>(T1, T2, T3, T4, T6, T8, T9, T10, T13, T14, T15, T16, T17, T19, T20, T22, T23, T24, T25,
        T26, T27, D).
     let M1 = T13 AND T6; M6 = T3 AND T16; M11 = T1 AND T15; M13 = (T4 AND T27) XOR M11;
       M15 = (T2 AND T10) XOR M11; M20 = T14 XOR M1 XOR (T23 AND T8) XOR M13;
       M21 = (T19 AND D) XOR M1 XOR T24 XOR M15; M22 = T26 XOR M6 XOR (T22 AND T9) XOR M13;
       M23 = (T20 AND T17) XOR M6 XOR M15 XOR T25; M25 = M22 AND M20;
       M37 = M21 XOR ((M20 XOR M21) AND (M23 XOR M25));
       M38 = M20 XOR M25 XOR (M21 OR (M20 AND M23));
       M39 = M23 XOR ((M22 XOR M23) AND (M21 XOR M25));
       M40 = M22 XOR M25 XOR (M23 OR (M21 AND M22)); M41 = M38 XOR M40; M42 = M37 XOR M39;
       M43 = M37 XOR M38; M44 = M39 XOR M40; M45 = M42 XOR M41; M46 = M44 AND T6;
       M47 = M40 AND T8; M48 = M39 AND D; M49 = M43 AND T16; M50 = M38 AND T9;
       M51 = M37 AND T17; M52 = M42 AND T15; M53 = M45 AND T27; M54 = M41 AND T10;
       M55 = M44 AND T13; M56 = M40 AND T23; M57 = M39 AND T19; M58 = M43 AND T3;
       M59 = M38 AND T22; M60 = M37 AND T20; M61 = M42 AND T1; M62 = M45 AND T4;
       M63 = M41 AND T2
     in (M46, M47, M48, M49, M50, M51, M52, M53, M54, M55, M56, M57, M58, M59, M60, M61, M62, M63))"

definition sub_post :: "'a::len products \<Rightarrow> 'a slices" where
  "sub_post = (\<lambda>(M46, M47, M48, M49, M50, M51, M52, M53, M54, M55, M56, M57, M58, M59, M60, M61, M62, M63).
     let L0 = M61 XOR M62; L1 = M50 XOR M56; L2 = M46 XOR M48; L3 = M47 XOR M55;
       L4 = M54 XOR M58; L5 = M49 XOR M61; L6 = M62 XOR L5; L7 = M46 XOR L3; L8 = M51 XOR M59;
       L9 = M52 XOR M53; L10 = M53 XOR L4; L11 = M60 XOR L2; L12 = M48 XOR M51;
       L13 = M50 XOR L0; L14 = M52 XOR M61; L15 = M55 XOR L1; L16 = M56 XOR L0;
       L17 = M57 XOR L1; L18 = M58 XOR L8; L19 = M63 XOR L4; L20 = L0 XOR L1; L21 = L1 XOR L7;
       L22 = L3 XOR L12; L23 = L18 XOR L2; L24 = L15 XOR L9; L25 = L6 XOR L10;
       L26 = L7 XOR L9; L27 = L8 XOR L10; L28 = L11 XOR L14; L29 = L11 XOR L17
     in (NOT (L6 XOR L23),
         NOT (L13 XOR L27),
         L25 XOR L29,
         L20 XOR L22,
         L6 XOR L21,
         NOT (L19 XOR L28),
         NOT (L16 XOR L26),
         L6 XOR L24))"

definition sub_post_inv :: "'a::len products \<Rightarrow> 'a slices" where
  "sub_post_inv = (\<lambda>(M46, M47, M48, M49, M50, M51, M52, M53, M54, M55, M56, M57, M58, M59, M60, M61, M62, M63).
     let P0 = M52 XOR M61; P1 = M58 XOR M59; P2 = M54 XOR M62; P3 = M47 XOR M50;
       P4 = M48 XOR M56; P5 = M46 XOR M51; P6 = M49 XOR M60; P7 = P0 XOR P1; P8 = M50 XOR M53;
       P9 = M55 XOR M63; P10 = M57 XOR P4; P11 = P0 XOR P3; P12 = M46 XOR M48;
       P13 = M49 XOR M51; P14 = M49 XOR M62; P15 = M54 XOR M59; P16 = M57 XOR M61;
       P17 = M58 XOR P2; P18 = M63 XOR P5; P19 = P2 XOR P3; P20 = P4 XOR P6; P22 = P2 XOR P7;
       P23 = P7 XOR P8; P24 = P5 XOR P7; P25 = P6 XOR P10; P26 = P9 XOR P11;
       P27 = P10 XOR P18; P28 = P11 XOR P25; P29 = P15 XOR P20
     in (P9 XOR P16,
         P14 XOR P23,
         P19 XOR P24,
         P23 XOR P27,
         P12 XOR P22,
         P17 XOR P28,
         P26 XOR P29,
         P13 XOR P22))"

type_synonym AES_state = "16 word list"

definition SubBytes :: "'a::len word list \<Rightarrow> bool \<Rightarrow> 'a word list" where
  "SubBytes s invert =
     (let U = (s ! 7, s ! 6, s ! 5, s ! 4, s ! 3, s ! 2, s ! 1, s ! 0);
          (S0, S1, S2, S3, S4, S5, S6, S7) =
            (if invert then sub_post_inv (sub_nonlinear (sub_pre_inv U))
             else sub_post (sub_nonlinear (sub_pre U)))
      in [S0, S1, S2, S3, S4, S5, S6, S7])"

section \<open>Gates act on each lane alone\<close>

definition same_lane :: "nat \<Rightarrow> nat \<Rightarrow> 'a::len word \<Rightarrow> 'b::len word \<Rightarrow> bool" where
  "same_lane i j x y \<longleftrightarrow> i < LENGTH('a) \<and> j < LENGTH('b) \<and> bit x i = bit y j"

abbreviation rel8 :: "('a \<Rightarrow> 'b \<Rightarrow> bool) \<Rightarrow> _" where
  "rel8 R \<equiv> rel_prod R (rel_prod R (rel_prod R (rel_prod R (rel_prod R (rel_prod R (rel_prod R R))))))"

abbreviation rel18 :: "('a \<Rightarrow> 'b \<Rightarrow> bool) \<Rightarrow> _" where
  "rel18 R \<equiv> rel_prod R (rel_prod R (rel_prod R (rel_prod R (rel_prod R (rel_prod R (rel_prod R (rel_prod R
     (rel_prod R (rel_prod R (rel8 R))))))))))"

abbreviation rel22 :: "('a \<Rightarrow> 'b \<Rightarrow> bool) \<Rightarrow> _" where
  "rel22 R \<equiv> rel_prod R (rel_prod R (rel_prod R (rel_prod R (rel18 R))))"

lemma lane_gates:
  assumes "i < LENGTH('a::len)" and "j < LENGTH('b::len)"
  shows "rel_fun (same_lane i j) (rel_fun (same_lane i j) (same_lane i j)) (XOR) ((XOR) :: 'b word \<Rightarrow> _)"
    and "rel_fun (same_lane i j) (rel_fun (same_lane i j) (same_lane i j)) (AND) ((AND) :: 'b word \<Rightarrow> _)"
    and "rel_fun (same_lane i j) (rel_fun (same_lane i j) (same_lane i j)) (OR) ((OR) :: 'b word \<Rightarrow> _)"
    and "rel_fun (same_lane i j) (same_lane i j) (NOT :: 'a word \<Rightarrow> _) (NOT :: 'b word \<Rightarrow> _)"
  using assms by (auto simp: rel_fun_def same_lane_def bit_simps)


section \<open>Loading and saving\<close>

definition LoadByte :: "AES_state \<Rightarrow> byte \<Rightarrow> nat \<Rightarrow> nat \<Rightarrow> AES_state" where
  "LoadByte s b r c = map (\<lambda>i. s ! i OR push_bit (r * 4 + c) (ucast (drop_bit i b AND 1))) [0..<8]"

definition LoadBytes :: "AES_state \<Rightarrow> bytes \<Rightarrow> AES_state" where
  "LoadBytes s data16 =
     fold (\<lambda>c s. fold (\<lambda>r s. LoadByte s (data16 ! (4 * c + r)) r c) [0..<4] s) [0..<4] s"

definition SaveByte :: "AES_state \<Rightarrow> nat \<Rightarrow> byte" where
  "SaveByte s p = fold (\<lambda>b v. v OR push_bit b (ucast (drop_bit p (s ! b) AND 1))) [0..<8] 0"

definition SaveBytes :: "AES_state \<Rightarrow> bytes" where
  "SaveBytes s = concat (map (\<lambda>c. map (\<lambda>r. SaveByte s (r * 4 + c)) [0..<4]) [0..<4])"

section \<open>The round functions\<close>

definition BIT_RANGE :: "nat \<Rightarrow> nat \<Rightarrow> 16 word" where
  "BIT_RANGE lo hi = push_bit lo (push_bit (hi - lo) 1 - 1)"

definition BIT_RANGE_LEFT :: "16 word \<Rightarrow> nat \<Rightarrow> nat \<Rightarrow> nat \<Rightarrow> 16 word" where
  "BIT_RANGE_LEFT x lo hi shift = push_bit shift (x AND BIT_RANGE lo hi)"

definition BIT_RANGE_RIGHT :: "16 word \<Rightarrow> nat \<Rightarrow> nat \<Rightarrow> nat \<Rightarrow> 16 word" where
  "BIT_RANGE_RIGHT x lo hi shift = drop_bit shift (x AND BIT_RANGE lo hi)"

definition ShiftRows :: "AES_state \<Rightarrow> AES_state" where
  "ShiftRows s = map (\<lambda>v.
     (v AND BIT_RANGE 0 4) OR
     BIT_RANGE_LEFT v 4 5 3 OR BIT_RANGE_RIGHT v 5 8 1 OR
     BIT_RANGE_LEFT v 8 10 2 OR BIT_RANGE_RIGHT v 10 12 2 OR
     BIT_RANGE_LEFT v 12 15 1 OR BIT_RANGE_RIGHT v 15 16 3) s"

definition InvShiftRows :: "AES_state \<Rightarrow> AES_state" where
  "InvShiftRows s = map (\<lambda>v.
     (v AND BIT_RANGE 0 4) OR
     BIT_RANGE_LEFT v 4 7 1 OR BIT_RANGE_RIGHT v 7 8 3 OR
     BIT_RANGE_LEFT v 8 10 2 OR BIT_RANGE_RIGHT v 10 12 2 OR
     BIT_RANGE_LEFT v 12 13 3 OR BIT_RANGE_RIGHT v 13 16 1) s"

definition ROT :: "16 word \<Rightarrow> nat \<Rightarrow> 16 word" where
  "ROT x b = drop_bit (b * 4) x OR push_bit ((4 - b) * 4) x"

definition MixColumns_fwd :: "AES_state \<Rightarrow> AES_state" where
  "MixColumns_fwd s =
     (let s0 = s ! 0; s1 = s ! 1; s2 = s ! 2; s3 = s ! 3;
          s4 = s ! 4; s5 = s ! 5; s6 = s ! 6; s7 = s ! 7;
          s0_01 = s0 XOR ROT s0 1; s0_123 = ROT s0_01 1 XOR ROT s0 3;
          s1_01 = s1 XOR ROT s1 1; s1_123 = ROT s1_01 1 XOR ROT s1 3;
          s2_01 = s2 XOR ROT s2 1; s2_123 = ROT s2_01 1 XOR ROT s2 3;
          s3_01 = s3 XOR ROT s3 1; s3_123 = ROT s3_01 1 XOR ROT s3 3;
          s4_01 = s4 XOR ROT s4 1; s4_123 = ROT s4_01 1 XOR ROT s4 3;
          s5_01 = s5 XOR ROT s5 1; s5_123 = ROT s5_01 1 XOR ROT s5 3;
          s6_01 = s6 XOR ROT s6 1; s6_123 = ROT s6_01 1 XOR ROT s6 3;
          s7_01 = s7 XOR ROT s7 1; s7_123 = ROT s7_01 1 XOR ROT s7 3
      in [s7_01 XOR s0_123, s7_01 XOR s0_01 XOR s1_123, s1_01 XOR s2_123,
          s7_01 XOR s2_01 XOR s3_123, s7_01 XOR s3_01 XOR s4_123, s4_01 XOR s5_123,
          s5_01 XOR s6_123, s6_01 XOR s7_123])"

text \<open>The further multiplication by \<open>{04}x^2 + {05}\<close> of the inverse direction.\<close>

definition MixColumns_45 :: "AES_state \<Rightarrow> AES_state" where
  "MixColumns_45 s =
     (let t0_02 = s ! 0 XOR ROT (s ! 0) 2; t1_02 = s ! 1 XOR ROT (s ! 1) 2;
          t2_02 = s ! 2 XOR ROT (s ! 2) 2; t3_02 = s ! 3 XOR ROT (s ! 3) 2;
          t4_02 = s ! 4 XOR ROT (s ! 4) 2; t5_02 = s ! 5 XOR ROT (s ! 5) 2;
          t6_02 = s ! 6 XOR ROT (s ! 6) 2; t7_02 = s ! 7 XOR ROT (s ! 7) 2
      in [s ! 0 XOR t6_02, s ! 1 XOR (t6_02 XOR t7_02), s ! 2 XOR (t0_02 XOR t7_02),
          s ! 3 XOR (t1_02 XOR t6_02), s ! 4 XOR (t2_02 XOR t6_02 XOR t7_02),
          s ! 5 XOR (t3_02 XOR t7_02), s ! 6 XOR t4_02, s ! 7 XOR t5_02])"

definition MixColumns :: "AES_state \<Rightarrow> bool \<Rightarrow> AES_state" where
  "MixColumns s invert =
     (let s' = MixColumns_fwd s in if invert then MixColumns_45 s' else s')"

definition AddRoundKey :: "AES_state \<Rightarrow> AES_state \<Rightarrow> AES_state" where
  "AddRoundKey s round = map (\<lambda>b. s ! b XOR round ! b) [0..<8]"

section \<open>The key schedule\<close>

definition GetOneColumn :: "AES_state \<Rightarrow> nat \<Rightarrow> AES_state" where
  "GetOneColumn a c = map (\<lambda>b. drop_bit c (a ! b) AND 0x1111) [0..<8]"

definition KeySetupColumnMix ::
  "AES_state \<Rightarrow> AES_state \<Rightarrow> AES_state \<Rightarrow> nat \<Rightarrow> nat \<Rightarrow> AES_state \<times> AES_state" where
  "KeySetupColumnMix s r a c1 c2 =
     (let s' = map (\<lambda>b. s ! b XOR (drop_bit c2 (a ! b) AND 0x1111)) [0..<8]
      in (s', map (\<lambda>b. r ! b OR push_bit c1 (s' ! b AND 0x1111)) [0..<8]))"

definition KeySetupTransform :: "AES_state \<Rightarrow> AES_state \<Rightarrow> AES_state" where
  "KeySetupTransform s r = map (\<lambda>b. (drop_bit 4 (s ! b) OR push_bit 12 (s ! b)) XOR r ! b) [0..<8]"

definition MultX :: "AES_state \<Rightarrow> AES_state" where
  "MultX s = (let top = s ! 7 in
     [top, s ! 0 XOR top, s ! 1, s ! 2 XOR top, s ! 3 XOR top, s ! 4, s ! 5, s ! 6])"

text \<open>One turn of the expansion loop on \<open>(column, rcon, pos, rounds)\<close>.\<close>

definition expand_step ::
  "nat \<Rightarrow> nat \<Rightarrow> AES_state \<times> AES_state \<times> nat \<times> AES_state list \<Rightarrow>
     AES_state \<times> AES_state \<times> nat \<times> AES_state list" where
  "expand_step nkeywords i = (\<lambda>(column, rcon, pos, rounds).
     let (column, rcon) =
           (if pos = 0 then (KeySetupTransform (SubBytes column False) rcon, MultX rcon)
            else if 6 < nkeywords \<and> pos = 4 then (SubBytes column False, rcon)
            else (column, rcon));
         pos = (if pos + 1 = nkeywords then 0 else pos + 1);
         (column, r) = KeySetupColumnMix column (rounds ! (i div 4))
           (rounds ! ((i - nkeywords) div 4)) (i mod 4) ((i - nkeywords) mod 4)
     in (column, rcon, pos, rounds[i div 4 := r]))"

definition AES_setup :: "bytes \<Rightarrow> nat \<Rightarrow> nat \<Rightarrow> AES_state list" where
  "AES_setup key nkeywords nrounds =
     (let rounds = replicate (nrounds + 1) (replicate 8 0);
          rounds = fold (\<lambda>i rounds. fold (\<lambda>r rounds.
              rounds[i div 4 := LoadByte (rounds ! (i div 4)) (key ! (4 * i + r)) r (i mod 4)])
            [0..<4] rounds) [0..<nkeywords] rounds;
          column = GetOneColumn (rounds ! ((nkeywords - 1) div 4)) ((nkeywords - 1) mod 4);
          (_, _, _, rounds) = fold (expand_step nkeywords) [nkeywords..<4 * (nrounds + 1)]
            (column, [1, 0, 0, 0, 0, 0, 0, 0], 0, rounds)
      in rounds)"

section \<open>Encryption and decryption\<close>

definition AES_encrypt :: "AES_state list \<Rightarrow> nat \<Rightarrow> bytes \<Rightarrow> bytes" where
  "AES_encrypt rounds nrounds plain16 =
     (let s = LoadBytes (replicate 8 0) plain16;
          s = AddRoundKey s (rounds ! 0);
          s = fold (\<lambda>round s. AddRoundKey (MixColumns (ShiftRows (SubBytes s False)) False) (rounds ! round))
                [1..<nrounds] s;
          s = AddRoundKey (ShiftRows (SubBytes s False)) (rounds ! nrounds)
      in SaveBytes s)"

definition AES_decrypt :: "AES_state list \<Rightarrow> nat \<Rightarrow> bytes \<Rightarrow> bytes" where
  "AES_decrypt rounds nrounds cipher16 =
     (let s = LoadBytes (replicate 8 0) cipher16;
          s = AddRoundKey s (rounds ! nrounds);
          s = fold (\<lambda>round s. MixColumns (AddRoundKey (SubBytes (InvShiftRows s) True) (rounds ! (nrounds - round))) True)
                [1..<nrounds] s;
          s = AddRoundKey (SubBytes (InvShiftRows s) True) (rounds ! 0)
      in SaveBytes s)"

fun AES_blocks :: "(bytes \<Rightarrow> bytes) \<Rightarrow> nat \<Rightarrow> bytes \<Rightarrow> bytes" where
  "AES_blocks crypt 0 data = []"
| "AES_blocks crypt (Suc blocks) data = crypt (take 16 data) @ AES_blocks crypt blocks (drop 16 data)"

definition AES128_init :: "bytes \<Rightarrow> AES_state list" where "AES128_init key16 = AES_setup key16 4 10"
definition AES192_init :: "bytes \<Rightarrow> AES_state list" where "AES192_init key24 = AES_setup key24 6 12"
definition AES256_init :: "bytes \<Rightarrow> AES_state list" where "AES256_init key32 = AES_setup key32 8 14"

definition AES128_encrypt :: "AES_state list \<Rightarrow> nat \<Rightarrow> bytes \<Rightarrow> bytes" where
  "AES128_encrypt ctx blocks plain16 = AES_blocks (AES_encrypt ctx 10) blocks plain16"
definition AES128_decrypt :: "AES_state list \<Rightarrow> nat \<Rightarrow> bytes \<Rightarrow> bytes" where
  "AES128_decrypt ctx blocks cipher16 = AES_blocks (AES_decrypt ctx 10) blocks cipher16"
definition AES192_encrypt :: "AES_state list \<Rightarrow> nat \<Rightarrow> bytes \<Rightarrow> bytes" where
  "AES192_encrypt ctx blocks plain16 = AES_blocks (AES_encrypt ctx 12) blocks plain16"
definition AES192_decrypt :: "AES_state list \<Rightarrow> nat \<Rightarrow> bytes \<Rightarrow> bytes" where
  "AES192_decrypt ctx blocks cipher16 = AES_blocks (AES_decrypt ctx 12) blocks cipher16"
definition AES256_encrypt :: "AES_state list \<Rightarrow> nat \<Rightarrow> bytes \<Rightarrow> bytes" where
  "AES256_encrypt ctx blocks plain16 = AES_blocks (AES_encrypt ctx 14) blocks plain16"
definition AES256_decrypt :: "AES_state list \<Rightarrow> nat \<Rightarrow> bytes \<Rightarrow> bytes" where
  "AES256_decrypt ctx blocks cipher16 = AES_blocks (AES_decrypt ctx 14) blocks cipher16"

section \<open>The S-box circuit on every byte at once\<close>

lemma sub_lane:
  assumes "i < LENGTH('a::len)" and "j < LENGTH('b::len)"
  shows "rel_fun (rel8 (same_lane i j)) (rel22 (same_lane i j)) (sub_pre :: 'a slices \<Rightarrow> _) (sub_pre :: 'b slices \<Rightarrow> _)"
    and "rel_fun (rel8 (same_lane i j)) (rel22 (same_lane i j)) (sub_pre_inv :: 'a slices \<Rightarrow> _) (sub_pre_inv :: 'b slices \<Rightarrow> _)"
    and "rel_fun (rel22 (same_lane i j)) (rel18 (same_lane i j)) (sub_nonlinear :: 'a linear \<Rightarrow> _) (sub_nonlinear :: 'b linear \<Rightarrow> _)"
    and "rel_fun (rel18 (same_lane i j)) (rel8 (same_lane i j)) (sub_post :: 'a products \<Rightarrow> _) (sub_post :: 'b products \<Rightarrow> _)"
    and "rel_fun (rel18 (same_lane i j)) (rel8 (same_lane i j)) (sub_post_inv :: 'a products \<Rightarrow> _) (sub_post_inv :: 'b products \<Rightarrow> _)"
proof -
  note lane_gates [OF assms, transfer_rule]
  show "rel_fun (rel8 (same_lane i j)) (rel22 (same_lane i j)) (sub_pre :: 'a slices \<Rightarrow> _) (sub_pre :: 'b slices \<Rightarrow> _)"
    unfolding sub_pre_def by transfer_prover
  show "rel_fun (rel8 (same_lane i j)) (rel22 (same_lane i j)) (sub_pre_inv :: 'a slices \<Rightarrow> _) (sub_pre_inv :: 'b slices \<Rightarrow> _)"
    unfolding sub_pre_inv_def by transfer_prover
  show "rel_fun (rel22 (same_lane i j)) (rel18 (same_lane i j)) (sub_nonlinear :: 'a linear \<Rightarrow> _) (sub_nonlinear :: 'b linear \<Rightarrow> _)"
    unfolding sub_nonlinear_def by transfer_prover
  show "rel_fun (rel18 (same_lane i j)) (rel8 (same_lane i j)) (sub_post :: 'a products \<Rightarrow> _) (sub_post :: 'b products \<Rightarrow> _)"
    unfolding sub_post_def by transfer_prover
  show "rel_fun (rel18 (same_lane i j)) (rel8 (same_lane i j)) (sub_post_inv :: 'a products \<Rightarrow> _) (sub_post_inv :: 'b products \<Rightarrow> _)"
    unfolding sub_post_inv_def by transfer_prover
qed

definition lanes_agree :: "nat \<Rightarrow> nat \<Rightarrow> 'a::len word list \<Rightarrow> 'b::len word list \<Rightarrow> bool" where
  "lanes_agree i j s t \<longleftrightarrow> (\<forall>b<8. same_lane i j (s ! b) (t ! b))"

lemma less_8: "(\<forall>b<8. P b) \<longleftrightarrow> P 0 \<and> P 1 \<and> P 2 \<and> P 3 \<and> P 4 \<and> P 5 \<and> P 6 \<and> P (7::nat)"
  by (auto simp: numeral_eq_Suc All_less_Suc)

lemma SubBytes_lane:
  fixes s :: "'a::len word list" and t :: "'b::len word list"
  assumes ij: "i < LENGTH('a)" "j < LENGTH('b)" and st: "lanes_agree i j s t"
  shows "lanes_agree i j (SubBytes s invert) (SubBytes t invert)"
proof -
  let ?U = "\<lambda>s. (s ! 7, s ! 6, s ! 5, s ! 4, s ! 3, s ! 2, s ! 1, s ! 0)"
  have U: "rel8 (same_lane i j) (?U s) (?U t)"
    using st by (simp add: lanes_agree_def)
  have "rel8 (same_lane i j) (sub_post_inv (sub_nonlinear (sub_pre_inv (?U s))))
      (sub_post_inv (sub_nonlinear (sub_pre_inv (?U t))))"
    by (rule sub_lane(5) [OF ij, THEN rel_funD], rule sub_lane(3) [OF ij, THEN rel_funD],
        rule sub_lane(2) [OF ij, THEN rel_funD], rule U)
  moreover have "rel8 (same_lane i j) (sub_post (sub_nonlinear (sub_pre (?U s))))
      (sub_post (sub_nonlinear (sub_pre (?U t))))"
    by (rule sub_lane(4) [OF ij, THEN rel_funD], rule sub_lane(3) [OF ij, THEN rel_funD],
        rule sub_lane(1) [OF ij, THEN rel_funD], rule U)
  ultimately show ?thesis
    unfolding SubBytes_def Let_def lanes_agree_def less_8
    by (auto split: prod.splits)
qed

lemma length_SubBytes [simp]: "length (SubBytes s invert) = 8"
  by (simp add: SubBytes_def Let_def split: prod.split)

text \<open>
  Lane \<open>v\<close> of \<open>all_bytes\<close> is the byte \<open>v\<close>, and lane \<open>v\<close> of \<open>all_subs\<close> its image under the
  S-box of FIPS 197: the affine map of the inverse in GF(2^8).
\<close>

definition byte_table :: "(nat \<Rightarrow> byte) \<Rightarrow> 256 word list" where
  "byte_table f = map (\<lambda>b. horner_sum of_bool 2 (map (\<lambda>v. bit (f v) b) [0..<256])) [0..<8]"

definition all_bytes :: "256 word list" where
  "all_bytes =
    [0xaaaaaaaaaaaaaaaaaaaaaaaaaaaaaaaaaaaaaaaaaaaaaaaaaaaaaaaaaaaaaaaa,
     0xcccccccccccccccccccccccccccccccccccccccccccccccccccccccccccccccc,
     0xf0f0f0f0f0f0f0f0f0f0f0f0f0f0f0f0f0f0f0f0f0f0f0f0f0f0f0f0f0f0f0f0,
     0xff00ff00ff00ff00ff00ff00ff00ff00ff00ff00ff00ff00ff00ff00ff00ff00,
     0xffff0000ffff0000ffff0000ffff0000ffff0000ffff0000ffff0000ffff0000,
     0xffffffff00000000ffffffff00000000ffffffff00000000ffffffff00000000,
     0xffffffffffffffff0000000000000000ffffffffffffffff0000000000000000,
     0xffffffffffffffffffffffffffffffff00000000000000000000000000000000]"

definition all_subs :: "256 word list" where
  "all_subs =
    [0x4f1ead396f247a0410bdb210c006eab568ab4bfa8acb7a13b14ede67096c6eed,
     0xc870974094ead8a96a450b2ef33486b4e61a4c5e97816f7a7bae007d4c53fc7d,
     0xac39b6c0d6ce2efc577d64e03b0c3ffb23a869a2a428c424a16387fb3b48b4c6,
     0x4e9ddb76c892fb1be9da849cf6ac6c1b2568ea2effa8527d109020a2193d586a,
     0xf210a3aece472e532624b286bc48ecb4f7f17a494ce30f58c2b0f97752b8b11e,
     0x54b248130b4f256f7d8dcc4706319e086bc2aa4e0d787aa4f8045f7b6d98dd7f,
     0x21e0b833255917823f6bcb91b30db559e4851b3bf3ab2560980a3cc2c2fdb4ff,
     0x52379de7b844e3e14cb3770196ca0329e7bac28f866aac825caa2ec7bf977090]"

text \<open>Call-by-value evaluation of the gates: each wire is computed once.\<close>

lemma eval_let: "e = v \<Longrightarrow> f v = r \<Longrightarrow> Let e f = r"
  by simp

lemma eval_arg: "e = v \<Longrightarrow> f v = r \<Longrightarrow> f e = r"
  by simp

lemma SubBytes_all: "SubBytes all_bytes False = all_subs"
  unfolding SubBytes_def
  apply (rule eval_let, simp add: all_bytes_def)
  apply (simp only: if_False)
  apply (rule eval_let)
   apply (rule eval_arg [where f = "\<lambda>x. sub_post (sub_nonlinear x)"])
    apply (unfold sub_pre_def prod.case)
    apply (rule eval_let, simp)+
    apply (rule refl)
   apply (rule eval_arg [where f = sub_post])
    apply (unfold sub_nonlinear_def prod.case)
    apply (rule eval_let, simp)+
    apply (rule refl)
   apply (unfold sub_post_def prod.case)
   apply (rule eval_let, simp)+
   apply (rule refl)
  apply (simp add: all_subs_def)
  done

lemma InvSubBytes_all: "SubBytes all_subs True = all_bytes"
  unfolding SubBytes_def
  apply (rule eval_let, simp add: all_subs_def)
  apply (simp only: if_True)
  apply (rule eval_let)
   apply (rule eval_arg [where f = "\<lambda>x. sub_post_inv (sub_nonlinear x)"])
    apply (unfold sub_pre_inv_def prod.case)
    apply (rule eval_let, simp)+
    apply (rule refl)
   apply (rule eval_arg [where f = sub_post_inv])
    apply (unfold sub_nonlinear_def prod.case)
    apply (rule eval_let, simp)+
    apply (rule refl)
   apply (unfold sub_post_inv_def prod.case)
   apply (rule eval_let, simp)+
   apply (rule refl)
  apply (simp add: all_bytes_def)
  done

section \<open>The S-box of FIPS 197\<close>

text \<open>Figure 7 of FIPS 197.\<close>

definition fips_sbox :: bytes where
  "fips_sbox =
    [0x63, 0x7c, 0x77, 0x7b, 0xf2, 0x6b, 0x6f, 0xc5, 0x30, 0x1, 0x67, 0x2b, 0xfe, 0xd7, 0xab, 0x76,
     0xca, 0x82, 0xc9, 0x7d, 0xfa, 0x59, 0x47, 0xf0, 0xad, 0xd4, 0xa2, 0xaf, 0x9c, 0xa4, 0x72, 0xc0,
     0xb7, 0xfd, 0x93, 0x26, 0x36, 0x3f, 0xf7, 0xcc, 0x34, 0xa5, 0xe5, 0xf1, 0x71, 0xd8, 0x31, 0x15,
     0x4, 0xc7, 0x23, 0xc3, 0x18, 0x96, 0x5, 0x9a, 0x7, 0x12, 0x80, 0xe2, 0xeb, 0x27, 0xb2, 0x75,
     0x9, 0x83, 0x2c, 0x1a, 0x1b, 0x6e, 0x5a, 0xa0, 0x52, 0x3b, 0xd6, 0xb3, 0x29, 0xe3, 0x2f, 0x84,
     0x53, 0xd1, 0x0, 0xed, 0x20, 0xfc, 0xb1, 0x5b, 0x6a, 0xcb, 0xbe, 0x39, 0x4a, 0x4c, 0x58, 0xcf,
     0xd0, 0xef, 0xaa, 0xfb, 0x43, 0x4d, 0x33, 0x85, 0x45, 0xf9, 0x2, 0x7f, 0x50, 0x3c, 0x9f, 0xa8,
     0x51, 0xa3, 0x40, 0x8f, 0x92, 0x9d, 0x38, 0xf5, 0xbc, 0xb6, 0xda, 0x21, 0x10, 0xff, 0xf3, 0xd2,
     0xcd, 0xc, 0x13, 0xec, 0x5f, 0x97, 0x44, 0x17, 0xc4, 0xa7, 0x7e, 0x3d, 0x64, 0x5d, 0x19, 0x73,
     0x60, 0x81, 0x4f, 0xdc, 0x22, 0x2a, 0x90, 0x88, 0x46, 0xee, 0xb8, 0x14, 0xde, 0x5e, 0xb, 0xdb,
     0xe0, 0x32, 0x3a, 0xa, 0x49, 0x6, 0x24, 0x5c, 0xc2, 0xd3, 0xac, 0x62, 0x91, 0x95, 0xe4, 0x79,
     0xe7, 0xc8, 0x37, 0x6d, 0x8d, 0xd5, 0x4e, 0xa9, 0x6c, 0x56, 0xf4, 0xea, 0x65, 0x7a, 0xae, 0x8,
     0xba, 0x78, 0x25, 0x2e, 0x1c, 0xa6, 0xb4, 0xc6, 0xe8, 0xdd, 0x74, 0x1f, 0x4b, 0xbd, 0x8b, 0x8a,
     0x70, 0x3e, 0xb5, 0x66, 0x48, 0x3, 0xf6, 0xe, 0x61, 0x35, 0x57, 0xb9, 0x86, 0xc1, 0x1d, 0x9e,
     0xe1, 0xf8, 0x98, 0x11, 0x69, 0xd9, 0x8e, 0x94, 0x9b, 0x1e, 0x87, 0xe9, 0xce, 0x55, 0x28, 0xdf,
     0x8c, 0xa1, 0x89, 0xd, 0xbf, 0xe6, 0x42, 0x68, 0x41, 0x99, 0x2d, 0xf, 0xb0, 0x54, 0xbb, 0x16]"

text \<open>
  The lanes of the two truth tables, eight at a time: row \<open>j\<close> holds lanes \<open>8 * j\<close> to
  \<open>8 * j + 7\<close> of each slice.
\<close>

definition byte_at :: "'a::len word list \<Rightarrow> nat \<Rightarrow> byte" where
  "byte_at t v = horner_sum of_bool 2 (map (\<lambda>w. bit w v) t)"

definition slice_of_rows :: "bytes list \<Rightarrow> nat \<Rightarrow> 256 word" where
  "slice_of_rows rows b = le_word (map (\<lambda>r. r ! b) rows)"

fun unrows :: "bytes list \<Rightarrow> bytes" where
  "unrows [] = []"
| "unrows (r # rs) = map (byte_at r) [0, 1, 2, 3, 4, 5, 6, 7] @ unrows rs"

lemma unrows_nth: "v < 8 * length rows \<Longrightarrow> unrows rows ! v = byte_at (rows ! (v div 8)) (v mod 8)"
proof (induction rows arbitrary: v)
  case (Cons r rs)
  have "[0..<8] = [0, 1, 2, 3, 4, 5, 6, 7 :: nat]" by code_simp
  then have u: "unrows (r # rs) = map (byte_at r) [0..<8] @ unrows rs" by (simp only: unrows.simps)
  show ?case
  proof (cases "v < 8")
    case True
    then show ?thesis unfolding u by (simp add: nth_append)
  next
    case False
    then have "v div 8 = Suc ((v - 8) div 8)" "v mod 8 = (v - 8) mod 8"
      by (simp_all add: div_if mod_if)
    then show ?thesis using False Cons unfolding u by (simp add: nth_append)
  qed
qed simp

lemma byte_at_rows:
  assumes "v < 256" and "length rows = 32" and "\<forall>r \<in> set rows. length r = 8"
  shows "byte_at (map (slice_of_rows rows) [0..<8]) v = unrows rows ! v"
proof -
  have j: "v div 8 < 32" using assms(1) by simp
  then have "length (rows ! (v div 8)) = 8" using assms by simp
  then have "map (\<lambda>w. bit w (v mod 8)) (rows ! (v div 8)) =
      map (\<lambda>w. bit w v) (map (slice_of_rows rows) [0..<8])"
    using j assms by (intro nth_equalityI) (simp_all add: slice_of_rows_def bit_le_word)
  then show ?thesis using assms by (simp add: unrows_nth byte_at_def)
qed

definition byte_rows :: "bytes list" where
  "byte_rows =
    [[0xaa, 0xcc, 0xf0, 0x0, 0x0, 0x0, 0x0, 0x0], [0xaa, 0xcc, 0xf0, 0xff, 0x0, 0x0, 0x0, 0x0],
     [0xaa, 0xcc, 0xf0, 0x0, 0xff, 0x0, 0x0, 0x0], [0xaa, 0xcc, 0xf0, 0xff, 0xff, 0x0, 0x0, 0x0],
     [0xaa, 0xcc, 0xf0, 0x0, 0x0, 0xff, 0x0, 0x0], [0xaa, 0xcc, 0xf0, 0xff, 0x0, 0xff, 0x0, 0x0],
     [0xaa, 0xcc, 0xf0, 0x0, 0xff, 0xff, 0x0, 0x0], [0xaa, 0xcc, 0xf0, 0xff, 0xff, 0xff, 0x0, 0x0],
     [0xaa, 0xcc, 0xf0, 0x0, 0x0, 0x0, 0xff, 0x0], [0xaa, 0xcc, 0xf0, 0xff, 0x0, 0x0, 0xff, 0x0],
     [0xaa, 0xcc, 0xf0, 0x0, 0xff, 0x0, 0xff, 0x0], [0xaa, 0xcc, 0xf0, 0xff, 0xff, 0x0, 0xff, 0x0],
     [0xaa, 0xcc, 0xf0, 0x0, 0x0, 0xff, 0xff, 0x0], [0xaa, 0xcc, 0xf0, 0xff, 0x0, 0xff, 0xff, 0x0],
     [0xaa, 0xcc, 0xf0, 0x0, 0xff, 0xff, 0xff, 0x0], [0xaa, 0xcc, 0xf0, 0xff, 0xff, 0xff, 0xff, 0x0],
     [0xaa, 0xcc, 0xf0, 0x0, 0x0, 0x0, 0x0, 0xff], [0xaa, 0xcc, 0xf0, 0xff, 0x0, 0x0, 0x0, 0xff],
     [0xaa, 0xcc, 0xf0, 0x0, 0xff, 0x0, 0x0, 0xff], [0xaa, 0xcc, 0xf0, 0xff, 0xff, 0x0, 0x0, 0xff],
     [0xaa, 0xcc, 0xf0, 0x0, 0x0, 0xff, 0x0, 0xff], [0xaa, 0xcc, 0xf0, 0xff, 0x0, 0xff, 0x0, 0xff],
     [0xaa, 0xcc, 0xf0, 0x0, 0xff, 0xff, 0x0, 0xff], [0xaa, 0xcc, 0xf0, 0xff, 0xff, 0xff, 0x0, 0xff],
     [0xaa, 0xcc, 0xf0, 0x0, 0x0, 0x0, 0xff, 0xff], [0xaa, 0xcc, 0xf0, 0xff, 0x0, 0x0, 0xff, 0xff],
     [0xaa, 0xcc, 0xf0, 0x0, 0xff, 0x0, 0xff, 0xff], [0xaa, 0xcc, 0xf0, 0xff, 0xff, 0x0, 0xff, 0xff],
     [0xaa, 0xcc, 0xf0, 0x0, 0x0, 0xff, 0xff, 0xff], [0xaa, 0xcc, 0xf0, 0xff, 0x0, 0xff, 0xff, 0xff],
     [0xaa, 0xcc, 0xf0, 0x0, 0xff, 0xff, 0xff, 0xff], [0xaa, 0xcc, 0xf0, 0xff, 0xff, 0xff, 0xff, 0xff]]"

definition sub_rows :: "bytes list" where
  "sub_rows =
    [[0xed, 0x7d, 0xc6, 0x6a, 0x1e, 0x7f, 0xff, 0x90], [0x6e, 0xfc, 0xb4, 0x58, 0xb1, 0xdd, 0xb4, 0x70],
     [0x6c, 0x53, 0x48, 0x3d, 0xb8, 0x98, 0xfd, 0x97], [0x9, 0x4c, 0x3b, 0x19, 0x52, 0x6d, 0xc2, 0xbf],
     [0x67, 0x7d, 0xfb, 0xa2, 0x77, 0x7b, 0xc2, 0xc7], [0xde, 0x0, 0x87, 0x20, 0xf9, 0x5f, 0x3c, 0x2e],
     [0x4e, 0xae, 0x63, 0x90, 0xb0, 0x4, 0xa, 0xaa], [0xb1, 0x7b, 0xa1, 0x10, 0xc2, 0xf8, 0x98, 0x5c],
     [0x13, 0x7a, 0x24, 0x7d, 0x58, 0xa4, 0x60, 0x82], [0x7a, 0x6f, 0xc4, 0x52, 0xf, 0x7a, 0x25, 0xac],
     [0xcb, 0x81, 0x28, 0xa8, 0xe3, 0x78, 0xab, 0x6a], [0x8a, 0x97, 0xa4, 0xff, 0x4c, 0xd, 0xf3, 0x86],
     [0xfa, 0x5e, 0xa2, 0x2e, 0x49, 0x4e, 0x3b, 0x8f], [0x4b, 0x4c, 0x69, 0xea, 0x7a, 0xaa, 0x1b, 0xc2],
     [0xab, 0x1a, 0xa8, 0x68, 0xf1, 0xc2, 0x85, 0xba], [0x68, 0xe6, 0x23, 0x25, 0xf7, 0x6b, 0xe4, 0xe7],
     [0xb5, 0xb4, 0xfb, 0x1b, 0xb4, 0x8, 0x59, 0x29], [0xea, 0x86, 0x3f, 0x6c, 0xec, 0x9e, 0xb5, 0x3],
     [0x6, 0x34, 0xc, 0xac, 0x48, 0x31, 0xd, 0xca], [0xc0, 0xf3, 0x3b, 0xf6, 0xbc, 0x6, 0xb3, 0x96],
     [0x10, 0x2e, 0xe0, 0x9c, 0x86, 0x47, 0x91, 0x1], [0xb2, 0xb, 0x64, 0x84, 0xb2, 0xcc, 0xcb, 0x77],
     [0xbd, 0x45, 0x7d, 0xda, 0x24, 0x8d, 0x6b, 0xb3], [0x10, 0x6a, 0x57, 0xe9, 0x26, 0x7d, 0x3f, 0x4c],
     [0x4, 0xa9, 0xfc, 0x1b, 0x53, 0x6f, 0x82, 0xe1], [0x7a, 0xd8, 0x2e, 0xfb, 0x2e, 0x25, 0x17, 0xe3],
     [0x24, 0xea, 0xce, 0x92, 0x47, 0x4f, 0x59, 0x44], [0x6f, 0x94, 0xd6, 0xc8, 0xce, 0xb, 0x25, 0xb8],
     [0x39, 0x40, 0xc0, 0x76, 0xae, 0x13, 0x33, 0xe7], [0xad, 0x97, 0xb6, 0xdb, 0xa3, 0x48, 0xb8, 0x9d],
     [0x1e, 0x70, 0x39, 0x9d, 0x10, 0xb2, 0xe0, 0x37], [0x4f, 0xc8, 0xac, 0x4e, 0xf2, 0x54, 0x21, 0x52]]"

lemma rows_shape:
  "length byte_rows = 32" "\<forall>r \<in> set byte_rows. length r = 8"
  "length sub_rows = 32" "\<forall>r \<in> set sub_rows. length r = 8"
  by (simp_all add: byte_rows_def sub_rows_def)

lemma all_bytes_rows: "map (slice_of_rows byte_rows) [0..<8] = all_bytes"
  by (simp add: slice_of_rows_def byte_rows_def all_bytes_def upt_conv_Cons)

lemma all_subs_rows: "map (slice_of_rows sub_rows) [0..<8] = all_subs"
  by (simp add: slice_of_rows_def sub_rows_def all_subs_def upt_conv_Cons)

lemma unrows_bytes: "unrows byte_rows =
    [0x0, 0x1, 0x2, 0x3, 0x4, 0x5, 0x6, 0x7, 0x8, 0x9, 0xa, 0xb, 0xc, 0xd, 0xe, 0xf,
     0x10, 0x11, 0x12, 0x13, 0x14, 0x15, 0x16, 0x17, 0x18, 0x19, 0x1a, 0x1b, 0x1c, 0x1d, 0x1e, 0x1f,
     0x20, 0x21, 0x22, 0x23, 0x24, 0x25, 0x26, 0x27, 0x28, 0x29, 0x2a, 0x2b, 0x2c, 0x2d, 0x2e, 0x2f,
     0x30, 0x31, 0x32, 0x33, 0x34, 0x35, 0x36, 0x37, 0x38, 0x39, 0x3a, 0x3b, 0x3c, 0x3d, 0x3e, 0x3f,
     0x40, 0x41, 0x42, 0x43, 0x44, 0x45, 0x46, 0x47, 0x48, 0x49, 0x4a, 0x4b, 0x4c, 0x4d, 0x4e, 0x4f,
     0x50, 0x51, 0x52, 0x53, 0x54, 0x55, 0x56, 0x57, 0x58, 0x59, 0x5a, 0x5b, 0x5c, 0x5d, 0x5e, 0x5f,
     0x60, 0x61, 0x62, 0x63, 0x64, 0x65, 0x66, 0x67, 0x68, 0x69, 0x6a, 0x6b, 0x6c, 0x6d, 0x6e, 0x6f,
     0x70, 0x71, 0x72, 0x73, 0x74, 0x75, 0x76, 0x77, 0x78, 0x79, 0x7a, 0x7b, 0x7c, 0x7d, 0x7e, 0x7f,
     0x80, 0x81, 0x82, 0x83, 0x84, 0x85, 0x86, 0x87, 0x88, 0x89, 0x8a, 0x8b, 0x8c, 0x8d, 0x8e, 0x8f,
     0x90, 0x91, 0x92, 0x93, 0x94, 0x95, 0x96, 0x97, 0x98, 0x99, 0x9a, 0x9b, 0x9c, 0x9d, 0x9e, 0x9f,
     0xa0, 0xa1, 0xa2, 0xa3, 0xa4, 0xa5, 0xa6, 0xa7, 0xa8, 0xa9, 0xaa, 0xab, 0xac, 0xad, 0xae, 0xaf,
     0xb0, 0xb1, 0xb2, 0xb3, 0xb4, 0xb5, 0xb6, 0xb7, 0xb8, 0xb9, 0xba, 0xbb, 0xbc, 0xbd, 0xbe, 0xbf,
     0xc0, 0xc1, 0xc2, 0xc3, 0xc4, 0xc5, 0xc6, 0xc7, 0xc8, 0xc9, 0xca, 0xcb, 0xcc, 0xcd, 0xce, 0xcf,
     0xd0, 0xd1, 0xd2, 0xd3, 0xd4, 0xd5, 0xd6, 0xd7, 0xd8, 0xd9, 0xda, 0xdb, 0xdc, 0xdd, 0xde, 0xdf,
     0xe0, 0xe1, 0xe2, 0xe3, 0xe4, 0xe5, 0xe6, 0xe7, 0xe8, 0xe9, 0xea, 0xeb, 0xec, 0xed, 0xee, 0xef,
     0xf0, 0xf1, 0xf2, 0xf3, 0xf4, 0xf5, 0xf6, 0xf7, 0xf8, 0xf9, 0xfa, 0xfb, 0xfc, 0xfd, 0xfe, 0xff]"
  unfolding byte_rows_def by (simp add: byte_at_def)

lemma unrows_byte_rows: "unrows byte_rows = map of_nat [0..<256]"
  unfolding unrows_bytes by code_simp

lemma unrows_subs: "unrows sub_rows = fips_sbox"
  unfolding sub_rows_def fips_sbox_def by (simp add: byte_at_def)

section \<open>Lanes of a state\<close>

lemma bit_byte_at: "b < 8 \<Longrightarrow> length t = 8 \<Longrightarrow> bit (byte_at t p) b = bit (t ! b) p"
  by (simp add: byte_at_def bit_horner_sum_bit_word_iff)

lemma and_1_bit: "x AND 1 = of_bool (bit x 0)" for x :: "'a::len word"
  by (simp add: bit_0 and_one_eq mod_2_eq_odd)

lemma bit_at:
  fixes w :: "'a::len word"
  assumes "b < LENGTH('b::len)"
  shows "bit (push_bit c (ucast (drop_bit p w AND 1) :: 'b word)) b \<longleftrightarrow> b = c \<and> bit w p"
proof (cases "bit w p")
  case True
  then have "drop_bit p w AND 1 = 1" by (simp add: and_1_bit bit_drop_bit_eq)
  then show ?thesis using True assms by (auto simp: bit_exp_iff possible_bit_word)
next
  case False
  then have "drop_bit p w AND 1 = 0" by (simp add: and_1_bit bit_drop_bit_eq)
  then show ?thesis using False by simp
qed

lemma SaveByte_byte_at:
  assumes "length s = 8"
  shows "SaveByte s p = byte_at s p"
proof (rule bit_word_eqI)
  fix b
  assume "b < LENGTH(8)"
  then have b: "b < 8" by simp
  have acc: "bit (fold (\<lambda>b v. v OR push_bit b (ucast (drop_bit p (s ! b) AND 1))) bs v) b =
      (bit v b \<or> (b \<in> set bs \<and> bit (s ! b) p))" for bs and v :: byte
  proof (induction bs arbitrary: v)
    case (Cons c bs)
    have "bit (v OR push_bit c (ucast (drop_bit p (s ! c) AND 1))) b \<longleftrightarrow> bit v b \<or> (b = c \<and> bit (s ! c) p)"
      using bit_at [where 'b = 8, of b c p "s ! c"] b by (simp only: bit_or_iff) simp
    then show ?case by (simp only: fold_Cons comp_apply Cons.IH) auto
  qed simp
  show "bit (SaveByte s p) b = bit (byte_at s p) b"
    using b assms by (simp add: SaveByte_def acc bit_byte_at)
qed

lemma lanes_agree_byte:
  fixes s :: AES_state
  assumes "length s = 8" and "p < 16"
  shows "lanes_agree p (unat (byte_at s p)) s all_bytes"
proof -
  let ?v = "unat (byte_at s p)"
  have v: "?v < 256" using unsigned_less [of "byte_at s p", where ?'a = nat] by simp
  have "unrows byte_rows ! ?v = of_nat ?v"
    unfolding unrows_byte_rows using v by simp
  then have "byte_at all_bytes ?v = byte_at s p"
    using byte_at_rows [OF v rows_shape(1,2)] unfolding all_bytes_rows by simp
  then have "b < 8 \<Longrightarrow> bit (all_bytes ! b) ?v = bit (s ! b) p" for b
    using bit_byte_at [of b all_bytes ?v] bit_byte_at [of b s p] assms by (simp add: all_bytes_def)
  then show ?thesis using assms v by (simp add: lanes_agree_def same_lane_def)
qed

lemma lanes_agree_sym: "lanes_agree i j s t = lanes_agree j i t s"
  by (auto simp: lanes_agree_def same_lane_def)

lemma SubBytes_fips:
  fixes s :: AES_state
  assumes "length s = 8" and "p < 16"
  shows "SaveByte (SubBytes s False) p = fips_sbox ! unat (SaveByte s p)"
proof -
  let ?v = "unat (byte_at s p)"
  have v: "?v < 256" using unsigned_less [of "byte_at s p", where ?'a = nat] by simp
  have "lanes_agree p ?v (SubBytes s False) (SubBytes all_bytes False)"
    using assms v by (intro SubBytes_lane lanes_agree_byte) auto
  then have "byte_at (SubBytes s False) p = byte_at all_subs ?v"
    unfolding SubBytes_all
    by (intro bit_word_eqI) (simp add: bit_byte_at lanes_agree_def same_lane_def all_subs_def)
  also have "\<dots> = fips_sbox ! ?v"
    using byte_at_rows [OF v rows_shape(3,4)] unfolding all_subs_rows unrows_subs .
  finally show ?thesis by (simp add: SaveByte_byte_at assms)
qed

lemma lanes_agree_trans: "lanes_agree i j s t \<Longrightarrow> lanes_agree j k t u \<Longrightarrow> lanes_agree i k s u"
  by (auto simp: lanes_agree_def same_lane_def)

lemma lanes_agree_all:
  fixes s t :: AES_state
  assumes "length s = 8" and "length t = 8" and "\<And>p. p < 16 \<Longrightarrow> lanes_agree p p s t"
  shows "s = t"
proof (rule nth_equalityI)
  fix b
  assume "b < length s"
  then show "s ! b = t ! b"
    using assms by (intro bit_word_eqI) (auto simp: lanes_agree_def same_lane_def)
qed (simp add: assms)

lemma InvSubBytes_SubBytes:
  fixes s :: AES_state
  assumes "length s = 8"
  shows "SubBytes (SubBytes s False) True = s"
proof (rule lanes_agree_all)
  fix p :: nat
  assume p: "p < 16"
  let ?v = "unat (byte_at s p)"
  have v: "?v < 256" using unsigned_less [of "byte_at s p", where ?'a = nat] by simp
  note s = lanes_agree_byte [OF assms p]
  have "lanes_agree p ?v (SubBytes (SubBytes s False) True) (SubBytes (SubBytes all_bytes False) True)"
    using p v by (intro SubBytes_lane s) auto
  then have "lanes_agree p ?v (SubBytes (SubBytes s False) True) all_bytes"
    by (simp only: SubBytes_all InvSubBytes_all)
  then show "lanes_agree p p (SubBytes (SubBytes s False) True) s"
    using s lanes_agree_sym lanes_agree_trans by blast
qed (simp_all add: assms)

section \<open>Loading, rows and columns\<close>

definition aes_wf :: "AES_state \<Rightarrow> bool" where
  "aes_wf s \<longleftrightarrow> length s = 8"

lemma aes_wf_simps [simp]:
  "aes_wf (LoadByte s x r c)" "aes_wf (SubBytes s invert)" "aes_wf (MixColumns s invert)"
  "aes_wf (AddRoundKey s k)" "aes_wf s \<Longrightarrow> aes_wf (ShiftRows s)" "aes_wf s \<Longrightarrow> aes_wf (InvShiftRows s)"
  by (simp_all add: aes_wf_def LoadByte_def MixColumns_def MixColumns_fwd_def MixColumns_45_def
      AddRoundKey_def ShiftRows_def InvShiftRows_def Let_def)

lemma bit_LoadByte:
  assumes "b < 8" and "p < 16"
  shows "bit (LoadByte s x r c ! b) p \<longleftrightarrow> bit (s ! b) p \<or> (p = r * 4 + c \<and> bit x b)"
  using assms bit_at [where 'b = 16, of p "r * 4 + c" b x] by (simp add: LoadByte_def bit_or_iff)

lemma bit_LoadBytes:
  assumes b: "b < 8" and p: "p < 16" and s: "aes_wf s"
  shows "aes_wf (LoadBytes s data) \<and>
    (bit (LoadBytes s data ! b) p \<longleftrightarrow> bit (s ! b) p \<or> bit (data ! (4 * (p mod 4) + p div 4)) b)"
proof -
  let ?row = "\<lambda>c. fold (\<lambda>r s. LoadByte s (data ! (4 * c + r)) r c)"
  have row: "aes_wf t \<Longrightarrow> aes_wf (?row c rs t) \<and>
      (bit (?row c rs t ! b) p \<longleftrightarrow> bit (t ! b) p \<or> (\<exists>r \<in> set rs. p = r * 4 + c \<and> bit (data ! (4 * c + r)) b))"
    for c rs t
    by (induction rs arbitrary: t) (auto simp: bit_LoadByte [OF b p])
  have col: "aes_wf t \<Longrightarrow> aes_wf (fold (\<lambda>c. ?row c [0..<4]) cs t) \<and>
      (bit (fold (\<lambda>c. ?row c [0..<4]) cs t ! b) p \<longleftrightarrow>
        bit (t ! b) p \<or> (\<exists>c \<in> set cs. \<exists>r \<in> set [0..<4]. p = r * 4 + c \<and> bit (data ! (4 * c + r)) b))" for cs t
  proof (induction cs arbitrary: t)
    case (Cons c cs)
    note r = row [OF Cons.prems, of c "[0..<4]"]
    note i = Cons.IH [OF conjunct1 [OF r]]
    show ?case using r i by (simp only: fold_Cons comp_apply list.set bex_simps) blast
  qed simp
  have "(\<exists>c \<in> set [0..<4]. \<exists>r \<in> set [0..<4]. p = r * 4 + c \<and> bit (data ! (4 * c + r)) b) \<longleftrightarrow>
      bit (data ! (4 * (p mod 4) + p div 4)) b"
  proof
    assume "\<exists>c \<in> set [0..<4]. \<exists>r \<in> set [0..<4]. p = r * 4 + c \<and> bit (data ! (4 * c + r)) b"
    then obtain c r where "c < 4" "r < 4" "p = r * 4 + c" "bit (data ! (4 * c + r)) b" by auto
    moreover from this have "p mod 4 = c" "p div 4 = r" by simp_all
    ultimately show "bit (data ! (4 * (p mod 4) + p div 4)) b" by simp
  next
    assume "bit (data ! (4 * (p mod 4) + p div 4)) b"
    moreover have "p mod 4 < 4" "p div 4 < 4" "p = p div 4 * 4 + p mod 4" using p by simp_all
    ultimately show "\<exists>c \<in> set [0..<4]. \<exists>r \<in> set [0..<4]. p = r * 4 + c \<and> bit (data ! (4 * c + r)) b"
      by (intro bexI [of _ "p mod 4"] bexI [of _ "p div 4"]) auto
  qed
  with col [OF s, of "[0..<4]"] show ?thesis by (simp only: LoadBytes_def)
qed

abbreviation zero_state :: AES_state where "zero_state \<equiv> replicate 8 0"

lemma zero_state_wf: "aes_wf zero_state"
  by (simp add: aes_wf_def)

lemma LoadBytes_wf: "aes_wf (LoadBytes zero_state data)"
  using bit_LoadBytes [of 0 0 zero_state data] zero_state_wf by simp

lemma upt_4: "[0..<4] = [0, 1, 2, 3 :: nat]"
  by (simp add: upt_rec)

lemma SaveBytes_list:
  "SaveBytes s = map (\<lambda>k. SaveByte s (k mod 4 * 4 + k div 4)) [0..<16]"
proof -
  have "[0..<16] = [0, 1, 2, 3, 4, 5, 6, 7, 8, 9, 10, 11, 12, 13, 14, 15 :: nat]" by code_simp
  then show ?thesis by (simp add: SaveBytes_def upt_4 numeral_2_eq_2)
qed

lemma length_SaveBytes [simp]: "length (SaveBytes s) = 16"
  by (simp add: SaveBytes_list)

lemma SaveBytes_LoadBytes:
  assumes "length data = 16"
  shows "SaveBytes (LoadBytes zero_state data) = data"
proof (rule nth_equalityI)
  fix k
  assume "k < length (SaveBytes (LoadBytes zero_state data))"
  then have k: "k < 16" by simp
  let ?p = "k mod 4 * 4 + k div 4"
  have p: "?p < 16" "?p mod 4 = k div 4" "?p div 4 = k mod 4" using k by auto
  have "4 * (k div 4) + k mod 4 = k" by simp
  then have "bit (byte_at (LoadBytes zero_state data) ?p) b = bit (data ! k) b" if "b < 8" for b
    using bit_LoadBytes [OF that p(1) zero_state_wf, of data] that p by (simp add: bit_byte_at aes_wf_def)
  then have "byte_at (LoadBytes zero_state data) ?p = data ! k"
    by (intro bit_word_eqI) simp
  then show "SaveBytes (LoadBytes zero_state data) ! k = data ! k"
    using k LoadBytes_wf [of data] by (simp add: SaveBytes_list SaveByte_byte_at aes_wf_def)
qed (simp add: assms)

lemma LoadBytes_SaveBytes:
  assumes "aes_wf s"
  shows "LoadBytes zero_state (SaveBytes s) = s"
proof (rule nth_equalityI)
  fix b
  assume "b < length (LoadBytes zero_state (SaveBytes s))"
  then have b: "b < 8" using LoadBytes_wf [of "SaveBytes s"] by (simp add: aes_wf_def)
  show "LoadBytes zero_state (SaveBytes s) ! b = s ! b"
  proof (rule bit_word_eqI)
    fix p
    assume "p < LENGTH(16)"
    then have p: "p < 16" by simp
    let ?k = "4 * (p mod 4) + p div 4"
    have k: "?k < 16" "?k mod 4 * 4 + ?k div 4 = p" using p by auto
    have "SaveBytes s ! ?k = byte_at s p"
      using k assms by (simp add: SaveBytes_list SaveByte_byte_at aes_wf_def)
    then show "bit (LoadBytes zero_state (SaveBytes s) ! b) p = bit (s ! b) p"
      using bit_LoadBytes [OF b p zero_state_wf, of "SaveBytes s"] b assms by (simp add: bit_byte_at aes_wf_def)
  qed
qed (use assms LoadBytes_wf in \<open>simp add: aes_wf_def\<close>)

lemma less_16: "(\<forall>p<16. P p) \<longleftrightarrow> P 0 \<and> P 1 \<and> P 2 \<and> P 3 \<and> P 4 \<and> P 5 \<and> P 6 \<and> P 7 \<and>
    P 8 \<and> P 9 \<and> P 10 \<and> P 11 \<and> P 12 \<and> P 13 \<and> P 14 \<and> P (15::nat)"
  by (auto simp: numeral_eq_Suc All_less_Suc)

lemmas shift_defs = BIT_RANGE_LEFT_def BIT_RANGE_RIGHT_def BIT_RANGE_def

lemma bit_times_2: "bit (v * 2) p \<longleftrightarrow> p < 16 \<and> p \<noteq> 0 \<and> bit v (p - 1)" for v :: "16 word"
  using bit_double_iff [of v p] by (auto simp: mult.commute dest: bit_imp_le_length)

lemma bit_shift_row:
  fixes v :: "16 word"
  shows "\<forall>p<16. bit ((v AND BIT_RANGE 0 4) OR
     BIT_RANGE_LEFT v 4 5 3 OR BIT_RANGE_RIGHT v 5 8 1 OR
     BIT_RANGE_LEFT v 8 10 2 OR BIT_RANGE_RIGHT v 10 12 2 OR
     BIT_RANGE_LEFT v 12 15 1 OR BIT_RANGE_RIGHT v 15 16 3) p = bit v (p div 4 * 4 + (p mod 4 + p div 4) mod 4)"
  unfolding less_16 by (simp add: shift_defs bit_or_iff bit_and_iff bit_push_bit_iff bit_drop_bit_eq
      bit_times_2 flip: numeral_2_eq_2)

lemma bit_inv_shift_row:
  fixes v :: "16 word"
  shows "\<forall>p<16. bit ((v AND BIT_RANGE 0 4) OR
     BIT_RANGE_LEFT v 4 7 1 OR BIT_RANGE_RIGHT v 7 8 3 OR
     BIT_RANGE_LEFT v 8 10 2 OR BIT_RANGE_RIGHT v 10 12 2 OR
     BIT_RANGE_LEFT v 12 13 3 OR BIT_RANGE_RIGHT v 13 16 1) p = bit v (p div 4 * 4 + (p mod 4 + 3 * (p div 4)) mod 4)"
  unfolding less_16 by (simp add: shift_defs bit_or_iff bit_and_iff bit_push_bit_iff bit_drop_bit_eq
      bit_times_2 flip: numeral_2_eq_2)

definition lane_map :: "(nat \<Rightarrow> nat) \<Rightarrow> AES_state \<Rightarrow> AES_state \<Rightarrow> bool" where
  "lane_map f s t \<longleftrightarrow> (\<forall>p<16. \<forall>b<8. bit (t ! b) p = bit (s ! b) (f p))"

lemma ShiftRows_lanes: "aes_wf s \<Longrightarrow> lane_map (\<lambda>p. p div 4 * 4 + (p mod 4 + p div 4) mod 4) s (ShiftRows s)"
  using bit_shift_row by (simp add: lane_map_def ShiftRows_def aes_wf_def)

lemma InvShiftRows_lanes:
  "aes_wf s \<Longrightarrow> lane_map (\<lambda>p. p div 4 * 4 + (p mod 4 + 3 * (p div 4)) mod 4) s (InvShiftRows s)"
  using bit_inv_shift_row by (simp add: lane_map_def InvShiftRows_def aes_wf_def)

lemma InvShiftRows_ShiftRows:
  assumes "aes_wf s"
  shows "InvShiftRows (ShiftRows s) = s"
proof (rule nth_equalityI)
  fix b
  assume "b < length (InvShiftRows (ShiftRows s))"
  then have b: "b < 8" using assms by (simp add: aes_wf_def ShiftRows_def InvShiftRows_def)
  show "InvShiftRows (ShiftRows s) ! b = s ! b"
  proof (rule bit_word_eqI)
    fix p
    assume "p < LENGTH(16)"
    then have p: "p < 16" by simp
    let ?q = "p div 4 * 4 + (p mod 4 + 3 * (p div 4)) mod 4"
    have d: "p div 4 < 4" using p by simp
    then have q: "?q < 16" "?q div 4 = p div 4" "?q mod 4 = (p mod 4 + 3 * (p div 4)) mod 4" by auto
    have "(?q mod 4 + ?q div 4) mod 4 = (p mod 4 + 4 * (p div 4)) mod 4"
      unfolding q by (simp add: mod_simps)
    also have "\<dots> = p mod 4" by simp
    finally have "?q div 4 * 4 + (?q mod 4 + ?q div 4) mod 4 = p" by (simp add: q(2))
    then show "bit (InvShiftRows (ShiftRows s) ! b) p = bit (s ! b) p"
      using InvShiftRows_lanes [of "ShiftRows s"] ShiftRows_lanes [OF assms] assms p b q(1)
      by (simp add: lane_map_def)
  qed
qed (simp add: ShiftRows_def InvShiftRows_def)

section \<open>MixColumns\<close>

lemma bit_ROT: "k < 4 \<Longrightarrow> p < 16 \<Longrightarrow> bit (ROT x k) p = bit x ((p + 4 * k) mod 16)"
proof -
  assume k: "k < 4" and p: "p < 16"
  show ?thesis
  proof (cases "p + 4 * k < 16")
    case True
    then have "\<not> (4 - k) * 4 \<le> p" by linarith
    then show ?thesis using True by (simp add: ROT_def bit_or_iff bit_drop_bit_eq bit_push_bit_iff mult.commute add.commute)
  next
    case False
    moreover have "p + 4 * k - 16 < 16" using k p by linarith
    ultimately have "(p + 4 * k) mod 16 = p + 4 * k - 16" by (simp add: le_mod_geq)
    also have "\<dots> = p - (4 - k) * 4" using k by (simp add: diff_mult_distrib)
    finally have "(p + 4 * k) mod 16 = p - (4 - k) * 4" .
    moreover have "(4 - k) * 4 \<le> p" using False k by (simp add: diff_mult_distrib)
    moreover have "\<not> bit x (k * 4 + p)" using False bit_imp_le_length [of x "k * 4 + p"] by auto
    ultimately show ?thesis
      using False k p by (simp add: ROT_def bit_or_iff bit_drop_bit_eq bit_push_bit_iff)
  qed
qed

lemma ROT_xor: "k < 4 \<Longrightarrow> ROT (x XOR y) k = ROT x k XOR ROT y k"
  by (rule bit_word_eqI) (simp add: bit_ROT bit_xor_iff)

lemma ROT_ROT:
  assumes "j < 4" and "k < 4"
  shows "ROT (ROT x j) k = ROT x ((j + k) mod 4)"
proof (rule bit_word_eqI)
  fix p
  assume "p < LENGTH(16)"
  moreover have "((p + 4 * k) mod 16 + 4 * j) mod 16 = (p + 4 * ((j + k) mod 4)) mod 16"
  proof -
    have "4 * ((j + k) mod 4) = (4 * (j + k)) mod 16"
      using mult_mod_right [of 4 "j + k" 4] by simp
    then show ?thesis by (simp add: mod_simps algebra_simps)
  qed
  ultimately show "bit (ROT (ROT x j) k) p = bit (ROT x ((j + k) mod 4)) p"
    using assms by (simp add: bit_ROT)
qed

lemma ROT_0: "ROT x 0 = x"
  by (rule bit_word_eqI) (simp add: bit_ROT)

lemma ROT_inst:
  "ROT (x XOR y) (Suc 0) = ROT x (Suc 0) XOR ROT y (Suc 0)" "ROT (x XOR y) 2 = ROT x 2 XOR ROT y 2"
  "ROT (x XOR y) 3 = ROT x 3 XOR ROT y 3"
  "ROT (ROT x (Suc 0)) (Suc 0) = ROT x 2" "ROT (ROT x (Suc 0)) 2 = ROT x 3" "ROT (ROT x (Suc 0)) 3 = x"
  "ROT (ROT x 2) (Suc 0) = ROT x 3" "ROT (ROT x 2) 2 = x" "ROT (ROT x 2) 3 = ROT x (Suc 0)"
  "ROT (ROT x 3) (Suc 0) = x" "ROT (ROT x 3) 2 = ROT x (Suc 0)" "ROT (ROT x 3) 3 = ROT x 2"
  by (simp_all add: ROT_xor ROT_ROT ROT_0 flip: numeral_2_eq_2)

lemma list_of_8: "length s = 8 \<Longrightarrow> s = [s ! 0, s ! 1, s ! 2, s ! 3, s ! 4, s ! 5, s ! 6, s ! 7]"
  by (rule nth_equalityI) (auto simp: less_Suc_eq nth_Cons numeral_eq_Suc)

lemma xor_cancel: "x XOR x = 0" "x XOR (x XOR y) = y" "x XOR 0 = x" "0 XOR x = x" for x y :: "16 word"
  by (simp_all flip: xor.assoc)

lemma MixColumns_inverse_slices:
  "MixColumns_45 (MixColumns_fwd (MixColumns_fwd [a0, a1, a2, a3, a4, a5, a6, a7])) = [a0, a1, a2, a3, a4, a5, a6, a7]"
  unfolding MixColumns_fwd_def Let_def
  apply (simp add: ROT_inst xor.assoc xor.commute xor.left_commute xor_cancel)
  unfolding MixColumns_45_def Let_def
  apply (simp add: ROT_inst xor.assoc xor.commute xor.left_commute xor_cancel)
  done

lemma InvMixColumns_MixColumns:
  assumes "aes_wf s"
  shows "MixColumns (MixColumns s False) True = s"
proof -
  from assms have "s = [s ! 0, s ! 1, s ! 2, s ! 3, s ! 4, s ! 5, s ! 6, s ! 7]"
    unfolding aes_wf_def by (rule list_of_8)
  then show ?thesis
    unfolding MixColumns_def Let_def if_True if_False by (metis MixColumns_inverse_slices)
qed

text \<open>
  FIPS 197: each byte of a column becomes \<open>{02}\<close> times itself, \<open>{03}\<close> times the byte one
  row below, and the two others.
\<close>

definition xtime :: "byte \<Rightarrow> byte" where
  "xtime a = push_bit 1 a XOR (if bit a 7 then 0x1b else 0)"

lemma bit_xtime:
  "bit (xtime a) 0 = bit a 7" "bit (xtime a) (Suc 0) = (bit a 0 \<noteq> bit a 7)" "bit (xtime a) 2 = bit a 1"
  "bit (xtime a) 3 = (bit a 2 \<noteq> bit a 7)" "bit (xtime a) 4 = (bit a 3 \<noteq> bit a 7)"
  "bit (xtime a) 5 = bit a 4" "bit (xtime a) 6 = bit a 5" "bit (xtime a) 7 = bit a 6"
  unfolding xtime_def bit_xor_iff bit_push_bit_iff by simp_all

lemma MixColumns_fips:
  assumes s: "aes_wf s" and p: "p < 16"
  defines "x \<equiv> \<lambda>k. byte_at s ((p + 4 * k) mod 16)"
  shows "byte_at (MixColumns s False) p = xtime (x 0) XOR (xtime (x 1) XOR x 1) XOR x 2 XOR x 3"
proof (rule bit_word_eqI)
  fix b
  assume "b < LENGTH(8)"
  then have b: "b < 8" by simp
  have x: "bit (x k) c = bit (s ! c) ((p + 4 * k) mod 16)" if "c < 8" for k c
    using that s by (simp add: x_def bit_byte_at aes_wf_def)
  have s8: "length (MixColumns s False) = 8"
    using aes_wf_simps(3) [of s False] by (simp only: aes_wf_def)
  have r: "bit (ROT w k) p = bit w ((p + 4 * k) mod 16)" if "k < 4" for w k
    using bit_ROT [OF that p] .
  have "\<forall>b<8. bit (MixColumns s False ! b) p = bit (xtime (x 0) XOR (xtime (x 1) XOR x 1) XOR x 2 XOR x 3) b"
    unfolding less_8 MixColumns_def MixColumns_fwd_def Let_def if_False
    by (simp add: ROT_inst bit_xor_iff bit_xtime x r) (auto simp: p)
  then show "bit (byte_at (MixColumns s False) p) b = bit (xtime (x 0) XOR (xtime (x 1) XOR x 1) XOR x 2 XOR x 3) b"
    using b by (simp only: bit_byte_at [OF b s8]) 
qed

lemma AddRoundKey_twice: "aes_wf s \<Longrightarrow> AddRoundKey (AddRoundKey s k) k = s"
  by (rule nth_equalityI) (simp_all add: AddRoundKey_def aes_wf_def xor.assoc)

section \<open>Decryption inverts encryption\<close>

lemma InvSubBytes: "aes_wf s \<Longrightarrow> SubBytes (SubBytes s False) True = s"
  unfolding aes_wf_def by (rule InvSubBytes_SubBytes)

definition round_fwd :: "AES_state list \<Rightarrow> nat \<Rightarrow> AES_state \<Rightarrow> AES_state" where
  "round_fwd ks k s = AddRoundKey (MixColumns (ShiftRows (SubBytes s False)) False) (ks ! k)"

text \<open>
  The decryption loop undoes one round per turn; between its turns the state is the
  \<open>ShiftRows\<close> and \<open>SubBytes\<close> image of the state at the start of a round.
\<close>

lemma fold_rounds_wf: "aes_wf s \<Longrightarrow> aes_wf (fold (round_fwd ks) rs s)"
  by (induction rs arbitrary: s) (simp_all add: round_fwd_def)

lemma fold_rounds_inverse:
  assumes "aes_wf s" and "n < m"
  shows "fold (\<lambda>round s. MixColumns (AddRoundKey (SubBytes (InvShiftRows s) True) (ks ! (m - round))) True)
      [1..<Suc n] (ShiftRows (SubBytes (fold (round_fwd ks) [1..<m] s) False)) =
    ShiftRows (SubBytes (fold (round_fwd ks) [1..<m - n] s) False)"
  using assms(2)
proof (induction n)
  case 0
  show ?case by simp
next
  case (Suc n)
  let ?F = "\<lambda>j. fold (round_fwd ks) [1..<j] s"
  have wf: "aes_wf (?F j)" for j by (rule fold_rounds_wf [OF assms(1)])
  have "m - n = Suc (m - Suc n)" "1 \<le> m - Suc n" using Suc.prems by simp_all
  then have "?F (m - n) = round_fwd ks (m - Suc n) (?F (m - Suc n))"
    by (simp add: upt_Suc_append)
  then have "MixColumns (AddRoundKey (?F (m - n)) (ks ! (m - Suc n))) True = ShiftRows (SubBytes (?F (m - Suc n)) False)"
    using wf by (simp add: round_fwd_def AddRoundKey_twice InvMixColumns_MixColumns)
  moreover have "[1..<Suc (Suc n)] = [1..<Suc n] @ [Suc n]" by simp
  ultimately show ?case
    using Suc wf by (simp add: InvShiftRows_ShiftRows InvSubBytes)
qed

lemma AES_decrypt_encrypt:
  assumes "length plain = 16" and "0 < nrounds"
  shows "AES_decrypt rounds nrounds (AES_encrypt rounds nrounds plain) = plain"
proof -
  define s where "s = AddRoundKey (LoadBytes zero_state plain) (rounds ! 0)"
  have s: "aes_wf s" by (simp add: s_def)
  define f where "f = fold (round_fwd rounds) [1..<nrounds] s"
  have f: "aes_wf f" unfolding f_def by (rule fold_rounds_wf [OF s])
  obtain n where n: "nrounds = Suc n" using assms(2) by (cases nrounds) auto
  have enc: "AES_encrypt rounds nrounds plain = SaveBytes (AddRoundKey (ShiftRows (SubBytes f False)) (rounds ! nrounds))"
    by (simp add: AES_encrypt_def Let_def f_def s_def round_fwd_def [abs_def])
  have load: "AddRoundKey (LoadBytes zero_state (AES_encrypt rounds nrounds plain)) (rounds ! nrounds) =
      ShiftRows (SubBytes f False)"
    unfolding enc using f by (simp add: LoadBytes_SaveBytes AddRoundKey_twice)
  have loop: "fold (\<lambda>round s. MixColumns (AddRoundKey (SubBytes (InvShiftRows s) True) (rounds ! (nrounds - round))) True)
      [1..<nrounds] (ShiftRows (SubBytes f False)) = ShiftRows (SubBytes s False)"
    using fold_rounds_inverse [OF s, of n nrounds rounds] by (simp add: n f_def)
  have "AES_decrypt rounds nrounds (AES_encrypt rounds nrounds plain) =
      SaveBytes (AddRoundKey (SubBytes (InvShiftRows (ShiftRows (SubBytes s False))) True) (rounds ! 0))"
    unfolding AES_decrypt_def Let_def load loop ..
  also have "\<dots> = SaveBytes (LoadBytes zero_state plain)"
    using s LoadBytes_wf [of plain] by (simp add: InvShiftRows_ShiftRows InvSubBytes s_def AddRoundKey_twice)
  also have "\<dots> = plain" using assms(1) by (rule SaveBytes_LoadBytes)
  finally show ?thesis .
qed

lemma length_AES_encrypt [simp]: "length (AES_encrypt ks n plain) = 16"
  by (simp add: AES_encrypt_def Let_def)

lemma length_AES_decrypt [simp]: "length (AES_decrypt ks n cipher) = 16"
  by (simp add: AES_decrypt_def Let_def)

lemma AES_blocks_inverse:
  assumes "\<And>b. length b = 16 \<Longrightarrow> g (f b) = b" and "\<And>b. length (f b) = 16" and "length data = 16 * blocks"
  shows "AES_blocks g blocks (AES_blocks f blocks data) = data"
  using assms(3) by (induction blocks arbitrary: data) (simp_all add: assms(1,2))

section \<open>Properties\<close>

text \<open>
  C17: AES-256 as the library computes it can be inverted: decrypting the encryption of any
  sequence of blocks under any key material gives the blocks back.
\<close>

theorem AES256_round_trip:
  assumes "length data = 16 * blocks"
  shows "AES256_decrypt (AES256_init key) blocks (AES256_encrypt (AES256_init key) blocks data) = data"
  unfolding AES256_decrypt_def AES256_encrypt_def
  using assms by (intro AES_blocks_inverse) (simp_all add: AES_decrypt_encrypt)

theorem AES256_round_trip_witness:
  "AES256_decrypt (AES256_init (replicate 32 7)) 2 (AES256_encrypt (AES256_init (replicate 32 7)) 2 (replicate 32 9)) = replicate 32 9"
  using AES256_round_trip [of "replicate 32 9" 2 "replicate 32 7"] by simp

text \<open>
  C18: the bit-sliced S-box circuit computes the S-box table of FIPS 197: in every lane of the
  state, the byte after \<open>SubBytes\<close> is the table entry of the byte before.
\<close>

theorem SubBytes_is_FIPS_sbox:
  assumes "length s = 8" and "p < 16"
  shows "SaveByte (SubBytes s False) p = fips_sbox ! unat (SaveByte s p)"
  using assms by (rule SubBytes_fips)

theorem SubBytes_is_FIPS_sbox_witness:
  "SaveByte (SubBytes (replicate 8 0) False) 3 = fips_sbox ! unat (SaveByte (replicate 8 0) 3)"
  using SubBytes_is_FIPS_sbox [of "replicate 8 0" 3] by simp

text \<open>
  The bit-sliced column mixing is the one of FIPS 197: each byte becomes
  \<open>2 a0 + 3 a1 + a2 + a3\<close> over the field of the cipher, for the four bytes of its column.
\<close>

lemma MixColumns_is_FIPS:
  assumes "length s = 8" and "p < 16"
  shows "SaveByte (MixColumns s False) p =
    xtime (SaveByte s p) XOR (xtime (SaveByte s ((p + 4) mod 16)) XOR SaveByte s ((p + 4) mod 16)) XOR
    SaveByte s ((p + 8) mod 16) XOR SaveByte s ((p + 12) mod 16)"
  using MixColumns_fips [of s p] aes_wf_simps(3) [of s False] assms by (simp add: SaveByte_byte_at aes_wf_def)

end
