(* ===== verification/AesCbc.thy ===== *)
theory AesCbc
  imports Ctaes Serialize
begin

text \<open>
  \<open>bitcoin/crypto/aes.cpp\<close>: CBC mode with and without padding over a block cipher, and the
  encryption of diversifiers in \<open>sparkmobile/src/util.cpp\<close>. The locale \<open>block_cipher\<close> is what
  CBC mode needs of the cipher; the bit-sliced AES is its interpretation, for every key.
\<close>

section \<open>Block ciphers\<close>

definition AES_BLOCKSIZE :: nat where "AES_BLOCKSIZE = 16"
definition AES128_KEYSIZE :: nat where "AES128_KEYSIZE = 16"
definition AES256_KEYSIZE :: nat where "AES256_KEYSIZE = 32"

definition AES128Encrypt :: "bytes \<Rightarrow> bytes \<Rightarrow> bytes" where
  "AES128Encrypt key plaintext = AES128_encrypt (AES128_init key) 1 plaintext"
definition AES128Decrypt :: "bytes \<Rightarrow> bytes \<Rightarrow> bytes" where
  "AES128Decrypt key ciphertext = AES128_decrypt (AES128_init key) 1 ciphertext"
definition AES256Encrypt :: "bytes \<Rightarrow> bytes \<Rightarrow> bytes" where
  "AES256Encrypt key plaintext = AES256_encrypt (AES256_init key) 1 plaintext"
definition AES256Decrypt :: "bytes \<Rightarrow> bytes \<Rightarrow> bytes" where
  "AES256Decrypt key ciphertext = AES256_decrypt (AES256_init key) 1 ciphertext"

section \<open>CBC mode\<close>

text \<open>
  The encryption loop returns the blocks written, the chaining block \<open>mixed\<close> and the data
  left over. \<open>CBCEncrypt\<close> returns the bytes written to \<open>out\<close>, whose number is the value the
  function returns; the pointers are never null.
\<close>

function cbc_encrypt_loop :: "(bytes \<Rightarrow> bytes) \<Rightarrow> bytes \<Rightarrow> bytes \<Rightarrow> bytes \<times> bytes \<times> bytes" where
  "cbc_encrypt_loop enc mixed data =
     (if length data < AES_BLOCKSIZE then ([], mixed, data)
      else
        let c = enc (map2 (XOR) mixed (take AES_BLOCKSIZE data));
            (out, mixed', rest) = cbc_encrypt_loop enc c (drop AES_BLOCKSIZE data)
        in (c @ out, mixed', rest))"
  by pat_completeness auto
termination
  by (relation "measure (\<lambda>(_, _, data). length data)") (auto simp: AES_BLOCKSIZE_def)

declare cbc_encrypt_loop.simps [simp del]

definition pad_block :: "bytes \<Rightarrow> bytes" where
  "pad_block rest = rest @ replicate (AES_BLOCKSIZE - length rest) (of_nat (AES_BLOCKSIZE - length rest))"

definition CBCEncrypt :: "(bytes \<Rightarrow> bytes) \<Rightarrow> bytes \<Rightarrow> bytes \<Rightarrow> bool \<Rightarrow> bytes" where
  "CBCEncrypt enc iv data pad =
     (if data = [] then []
      else if \<not> pad \<and> length data mod AES_BLOCKSIZE \<noteq> 0 then []
      else
        let (out, mixed, rest) = cbc_encrypt_loop enc iv data in
        if pad then out @ enc (map2 (XOR) mixed (pad_block rest)) else out)"

function cbc_decrypt_loop :: "(bytes \<Rightarrow> bytes) \<Rightarrow> bytes \<Rightarrow> bytes \<Rightarrow> bytes" where
  "cbc_decrypt_loop dec prev data =
     (if length data < AES_BLOCKSIZE then []
      else map2 (XOR) (dec (take AES_BLOCKSIZE data)) prev @
             cbc_decrypt_loop dec (take AES_BLOCKSIZE data) (drop AES_BLOCKSIZE data))"
  by pat_completeness auto
termination
  by (relation "measure (\<lambda>(_, _, data). length data)") (auto simp: AES_BLOCKSIZE_def)

declare cbc_decrypt_loop.simps [simp del]

text \<open>\<open>CBCDecrypt\<close> returns its result and what it wrote to \<open>out\<close>.\<close>

definition CBCDecrypt :: "(bytes \<Rightarrow> bytes) \<Rightarrow> bytes \<Rightarrow> bytes \<Rightarrow> bool \<Rightarrow> nat \<times> bytes" where
  "CBCDecrypt dec iv data pad =
     (if data = [] then (0, [])
      else if length data mod AES_BLOCKSIZE \<noteq> 0 then (0, [])
      else
        let out = cbc_decrypt_loop dec iv data; written = length data in
        if \<not> pad then (written, out)
        else
          let padsize = unat (last out);
              fail = (padsize = 0 \<or> AES_BLOCKSIZE < padsize);
              padsize = (if fail then 0 else padsize);
              fail = fold (\<lambda>i fail. fail \<or>
                  (AES_BLOCKSIZE - padsize < i \<and> out ! (length out - 1 - (AES_BLOCKSIZE - i)) \<noteq> of_nat padsize))
                (rev [1..<Suc AES_BLOCKSIZE]) fail
          in (if fail then 0 else written - padsize, out))"

definition AES256CBCEncrypt :: "bytes \<Rightarrow> bytes \<Rightarrow> bool \<Rightarrow> bytes \<Rightarrow> bytes" where
  "AES256CBCEncrypt key iv pad data = CBCEncrypt (AES256Encrypt key) iv data pad"
definition AES256CBCDecrypt :: "bytes \<Rightarrow> bytes \<Rightarrow> bool \<Rightarrow> bytes \<Rightarrow> nat \<times> bytes" where
  "AES256CBCDecrypt key iv pad data = CBCDecrypt (AES256Decrypt key) iv data pad"
definition AES128CBCEncrypt :: "bytes \<Rightarrow> bytes \<Rightarrow> bool \<Rightarrow> bytes \<Rightarrow> bytes" where
  "AES128CBCEncrypt key iv pad data = CBCEncrypt (AES128Encrypt key) iv data pad"
definition AES128CBCDecrypt :: "bytes \<Rightarrow> bytes \<Rightarrow> bool \<Rightarrow> bytes \<Rightarrow> nat \<times> bytes" where
  "AES128CBCDecrypt key iv pad data = CBCDecrypt (AES128Decrypt key) iv data pad"

section \<open>Diversifiers\<close>

definition diversifier_encrypt :: "bytes \<Rightarrow> 64 word \<Rightarrow> bytes res" where
  "diversifier_encrypt key i =
     (let i_stream = ser_writedata64 i (ds_init SER_NETWORK 0) in
      if length key \<noteq> AES256_KEYSIZE then Inl (Invalid_Argument ''Bad diversifier encryption key size'')
      else
        let iv = replicate AES_BLOCKSIZE 0;
            ciphertext = AES256CBCEncrypt key iv True (pending i_stream)
        in if length ciphertext \<noteq> AES_BLOCKSIZE then Inl (Runtime_Error ''Unable to encrypt diversifier'')
           else Inr ciphertext)"

definition diversifier_decrypt :: "bytes \<Rightarrow> bytes \<Rightarrow> 64 word res" where
  "diversifier_decrypt key d =
     (if length key \<noteq> AES256_KEYSIZE then Inl (Invalid_Argument ''Bad diversifier decryption key size'')
      else if length d \<noteq> AES_BLOCKSIZE then Inl (Invalid_Argument ''Bad diversifier ciphertext size'')
      else
        let iv = replicate AES_BLOCKSIZE 0;
            (len, plaintext) = AES256CBCDecrypt key iv True d
        in if len \<noteq> 8 then Inl (Runtime_Error ''Invalid diversifier length'')
           else
             let i_stream = ds_write (take 8 plaintext) (ds_init SER_NETWORK 0)
             in rbind (ser_readdata64 i_stream) (\<lambda>(i, _). Inr i))"

section \<open>What CBC mode needs of the cipher\<close>

locale block_cipher =
  fixes enc :: "bytes \<Rightarrow> bytes" and dec :: "bytes \<Rightarrow> bytes"
  assumes dec_enc: "length b = 16 \<Longrightarrow> dec (enc b) = b"
    and length_enc: "length (enc b) = 16"
    and length_dec: "length (dec b) = 16"
begin

lemma length_xor16: "length (a :: bytes) = 16 \<Longrightarrow> length b = 16 \<Longrightarrow> length (map2 (XOR) a b) = 16"
  by simp

text \<open>A cipher that can be inverted on blocks is a permutation of them.\<close>

lemma enc_dec:
  assumes "length b = 16"
  shows "enc (dec b) = b"
proof -
  let ?B = "{bs :: bytes. length bs = 16}"
  have "finite ?B"
    using finite_lists_length_eq [of "UNIV :: byte set" 16] by simp
  moreover have "enc ` ?B \<subseteq> ?B" using length_enc by auto
  moreover have "inj_on enc ?B"
    by (rule inj_on_inverseI [of _ dec]) (simp add: dec_enc)
  ultimately have "enc ` ?B = ?B" by (rule endo_inj_surj)
  then obtain a where "length a = 16" "b = enc a" using assms by auto
  then show ?thesis by (simp add: dec_enc)
qed

lemma loop_small: "length data < 16 \<Longrightarrow> cbc_encrypt_loop f mixed data = ([], mixed, data)"
  by (subst cbc_encrypt_loop.simps) (simp add: AES_BLOCKSIZE_def)

lemma loop_step:
  assumes "16 \<le> length data" and "length mixed = 16"
    and "cbc_encrypt_loop enc (enc (map2 (XOR) mixed (take 16 data))) (drop 16 data) = (out, mixed', rest)"
  shows "cbc_encrypt_loop enc mixed data = (enc (map2 (XOR) mixed (take 16 data)) @ out, mixed', rest)"
  using assms by (subst cbc_encrypt_loop.simps) (simp add: AES_BLOCKSIZE_def Let_def)

lemma decrypt_loop_step:
  "length c = 16 \<Longrightarrow> cbc_decrypt_loop f prev (c @ data) = map2 (XOR) (f c) prev @ cbc_decrypt_loop f c data"
  by (subst cbc_decrypt_loop.simps) (simp add: AES_BLOCKSIZE_def)

lemma decrypt_loop_Nil: "cbc_decrypt_loop f prev [] = []"
  by (subst cbc_decrypt_loop.simps) (simp add: AES_BLOCKSIZE_def)

lemma decrypt_block:
  assumes "length mixed = 16" and "length p = 16"
  shows "map2 (XOR) (dec (enc (map2 (XOR) mixed p))) mixed = p"
proof -
  have "map2 (XOR) mixed p = map2 (XOR) p mixed"
    using assms by (intro nth_equalityI) (simp_all add: xor.commute)
  then have "map2 (XOR) (dec (enc (map2 (XOR) mixed p))) mixed = map2 (XOR) (map2 (XOR) p mixed) mixed"
    using assms by (simp add: dec_enc)
  also have "\<dots> = p" using assms by (intro xor_list_cancel) simp
  finally show ?thesis .
qed

text \<open>
  The loops side by side: decrypting the blocks written gives the data they came from, and
  leaves the same chaining block.
\<close>

lemma loops_inverse:
  assumes "length mixed = 16"
  shows "\<exists>out mixed' rest. cbc_encrypt_loop enc mixed data = (out, mixed', rest) \<and>
     length mixed' = 16 \<and> length rest = length data mod 16 \<and> rest = drop (length data - length rest) data \<and>
     length out = length data - length rest \<and>
     (\<forall>tail. cbc_decrypt_loop dec mixed (out @ tail) = take (length data - length rest) data @ cbc_decrypt_loop dec mixed' tail)"
  using assms
proof (induction "length data" arbitrary: mixed data rule: less_induct)
  case less
  show ?case
  proof (cases "length data < 16")
    case True
    then show ?thesis using less.prems by (simp add: loop_small)
  next
    case False
    let ?c = "enc (map2 (XOR) mixed (take 16 data))"
    have c: "length ?c = 16" by (rule length_enc)
    have "length (drop 16 data) < length data" using False by simp
    from less.hyps [OF this c] obtain out mixed' rest where r:
      "cbc_encrypt_loop enc ?c (drop 16 data) = (out, mixed', rest)" "length mixed' = 16"
      "length rest = length (drop 16 data) mod 16" "rest = drop (length (drop 16 data) - length rest) (drop 16 data)"
      "length out = length (drop 16 data) - length rest"
      "\<forall>tail. cbc_decrypt_loop dec ?c (out @ tail) =
         take (length (drop 16 data) - length rest) (drop 16 data) @ cbc_decrypt_loop dec mixed' tail"
      by blast
    have m: "length (drop 16 data) mod 16 = length data mod 16"
      using False by (simp add: le_mod_geq)
    have le: "length rest \<le> length data - 16" using r(3) by (simp add: mod_less_eq_dividend)
    then have n: "length data - length rest = 16 + (length (drop 16 data) - length rest)"
      using False by simp
    have b: "map2 (XOR) (dec ?c) mixed = take 16 data"
      using less.prems False by (intro decrypt_block) simp_all
    have R4: "cbc_decrypt_loop dec mixed ((?c @ out) @ tail) =
        take (length data - length rest) data @ cbc_decrypt_loop dec mixed' tail" for tail
      unfolding append_assoc decrypt_loop_step [OF c] b r(6) [rule_format] n take_add by simp
    have R2: "rest = drop (length data - length rest) data"
    proof (rule trans [OF r(4)])
      show "drop (length (drop 16 data) - length rest) (drop 16 data) = drop (length data - length rest) data"
        unfolding n drop_drop by (simp only: add.commute)
    qed
    have R3: "length (?c @ out) = length data - length rest" by (simp only: length_append c r(5) n)
    have R1: "length rest = length data mod 16" using r(3) m by simp
    have L: "cbc_encrypt_loop enc mixed data = (?c @ out, mixed', rest)"
      using loop_step [OF _ less.prems r(1)] False by simp
    show ?thesis
      by (intro exI conjI, rule L, rule r(2), rule R1, rule R2, rule R3, rule allI, rule R4)
  qed
qed

lemma pad_block_length: "length rest < 16 \<Longrightarrow> length (pad_block rest) = 16"
  by (simp add: pad_block_def AES_BLOCKSIZE_def)

lemma CBC_unpadded:
  assumes "length iv = 16" and "data \<noteq> []" and "length data mod 16 = 0"
  shows "CBCDecrypt dec iv (CBCEncrypt enc iv data False) False = (length data, data)"
proof -
  obtain out mixed' rest where r: "cbc_encrypt_loop enc iv data = (out, mixed', rest)"
    "length rest = length data mod 16" "length out = length data - length rest"
    "\<forall>tail. cbc_decrypt_loop dec iv (out @ tail) = take (length data - length rest) data @ cbc_decrypt_loop dec mixed' tail"
    using loops_inverse [OF assms(1), of data] by blast
  have "rest = []" using r(2) assms(3) by simp
  then have "cbc_decrypt_loop dec iv out = data"
    using spec [OF r(4), of "[]"] by (simp add: decrypt_loop_Nil)
  moreover have "CBCEncrypt enc iv data False = out"
    using assms(2,3) by (simp add: CBCEncrypt_def AES_BLOCKSIZE_def r(1) Let_def)
  moreover have "length out = length data" using r(3) \<open>rest = []\<close> by simp
  moreover have "out \<noteq> []" using \<open>length out = length data\<close> assms(2) by auto
  ultimately show ?thesis
    using assms(3) by (simp add: CBCDecrypt_def AES_BLOCKSIZE_def)
qed

lemma CBC_padded_blocks:
  assumes "length iv = 16" and "data \<noteq> []"
  defines "n \<equiv> length data mod 16"
  shows "length (CBCEncrypt enc iv data True) = length data + (16 - n)"
    and "cbc_decrypt_loop dec iv (CBCEncrypt enc iv data True) = data @ replicate (16 - n) (of_nat (16 - n))"
proof -
  obtain out mixed' rest where r: "cbc_encrypt_loop enc iv data = (out, mixed', rest)" "length mixed' = 16"
    "length rest = n" "rest = drop (length data - length rest) data" "length out = length data - length rest"
    "\<forall>tail. cbc_decrypt_loop dec iv (out @ tail) = take (length data - length rest) data @ cbc_decrypt_loop dec mixed' tail"
    using loops_inverse [OF assms(1), of data] unfolding n_def by blast
  have n16: "n < 16" by (simp add: n_def)
  then have p: "length (pad_block rest) = 16" using r(3) by (intro pad_block_length) simp
  let ?c = "enc (map2 (XOR) mixed' (pad_block rest))"
  have e: "CBCEncrypt enc iv data True = out @ ?c"
    using assms(2) by (simp add: CBCEncrypt_def r(1) Let_def)
  have "n \<le> length data" by (simp add: n_def)
  then show "length (CBCEncrypt enc iv data True) = length data + (16 - n)"
    using r(3,5) n16 by (simp add: e length_enc)
  have "cbc_decrypt_loop dec mixed' ?c = pad_block rest"
    using decrypt_loop_step [OF length_enc, of dec mixed' "map2 (XOR) mixed' (pad_block rest)" "[]"]
      decrypt_block [OF r(2) p] by (simp add: decrypt_loop_Nil)
  then have "cbc_decrypt_loop dec iv (out @ ?c) = take (length data - length rest) data @ pad_block rest"
    using r(6) by simp
  also have "\<dots> = (take (length data - length rest) data @ rest) @ replicate (16 - n) (of_nat (16 - n))"
    by (simp add: pad_block_def AES_BLOCKSIZE_def r(3))
  also have "take (length data - length rest) data @ rest = data"
    using r(4) append_take_drop_id [of "length data - length rest" data] by metis
  finally show "cbc_decrypt_loop dec iv (CBCEncrypt enc iv data True) = data @ replicate (16 - n) (of_nat (16 - n))"
    by (simp add: e)
qed

end

section \<open>The padding check\<close>

lemma fold_or: "fold (\<lambda>i fail. fail \<or> P i) xs fail \<longleftrightarrow> fail \<or> (\<exists>i \<in> set xs. P i)"
  by (induction xs arbitrary: fail) auto

definition padded_with :: "bytes \<Rightarrow> nat \<Rightarrow> bool" where
  "padded_with out p \<longleftrightarrow> 1 \<le> p \<and> p \<le> 16 \<and> p \<le> length out \<and>
     drop (length out - p) out = replicate p (of_nat p)"

lemma pad_suffix_iff:
  assumes "p \<le> 16" and len: "16 \<le> length out"
  shows "drop (length out - p) out = replicate p x \<longleftrightarrow>
      (\<forall>i\<in>{1..<17}. 16 - p < i \<longrightarrow> out ! (length out - 1 - (16 - i)) = x)"
proof
  assume d: "drop (length out - p) out = replicate p x"
  show "\<forall>i\<in>{1..<17}. 16 - p < i \<longrightarrow> out ! (length out - 1 - (16 - i)) = x"
  proof (intro ballI impI)
    fix i :: nat
    assume i: "i \<in> {1..<17}" "16 - p < i"
    define j where "j = p + i - 17"
    have j: "j < p" "length out - 1 - (16 - i) = length out - p + j"
      using i assms unfolding j_def by auto
    have "drop (length out - p) out ! j = out ! (length out - p + j)"
      using assms by (intro nth_drop) simp
    then show "out ! (length out - 1 - (16 - i)) = x"
      using j by (simp add: d)
  qed
next
  assume a: "\<forall>i\<in>{1..<17}. 16 - p < i \<longrightarrow> out ! (length out - 1 - (16 - i)) = x"
  show "drop (length out - p) out = replicate p x"
  proof (rule nth_equalityI)
    show "length (drop (length out - p) out) = length (replicate p x)" using assms by simp
  next
    fix j
    assume "j < length (drop (length out - p) out)"
    then have j: "j < p" using assms by simp
    then have i: "17 - p + j \<in> {1..<17}" "16 - p < 17 - p + j"
      and k: "length out - 1 - (16 - (17 - p + j)) = length out - p + j" using assms by auto
    have "out ! (length out - p + j) = x"
      using bspec [OF a i(1)] i(2) unfolding k by blast
    then show "drop (length out - p) out ! j = replicate p x ! j"
      using j assms by simp
  qed
qed

text \<open>The result of \<open>CBCDecrypt\<close> says exactly whether the output ends in valid padding.\<close>

lemma CBCDecrypt_padding:
  fixes dec iv data
  defines "out \<equiv> cbc_decrypt_loop dec iv data"
  assumes "length data mod 16 = 0" and "data \<noteq> []" and "length out = length data"
  shows "CBCDecrypt dec iv data True =
    (if padded_with out (unat (last out)) then length data - unat (last out) else 0, out)"
proof -
  define p where "p = unat (last out)"
  have "0 < length data" using assms(3) by simp
  then have len: "16 \<le> length out"
    using assms(2,4) by (cases "length data < 16") simp_all
  let ?bad = "\<lambda>q. \<exists>i\<in>set (rev [1..<Suc 16]). 16 - q < i \<and> out ! (length out - 1 - (16 - i)) \<noteq> of_nat q"
  have d: "CBCDecrypt dec iv data True =
    (let fail = (p = 0 \<or> 16 < p); q = (if fail then 0 else p); fail = (fail \<or> ?bad q)
     in (if fail then 0 else length data - q, out))"
    unfolding CBCDecrypt_def AES_BLOCKSIZE_def fold_or p_def out_def Let_def using assms(2,3) by simp
  show ?thesis
  proof (cases "p = 0 \<or> 16 < p")
    case True
    then have "\<not> padded_with out p" by (auto simp: padded_with_def)
    then show ?thesis using True unfolding d p_def [symmetric] Let_def by (simp only: if_True if_False simp_thms)
  next
    case False
    then have "padded_with out p \<longleftrightarrow> drop (length out - p) out = replicate p (of_nat p)"
      using len by (simp add: padded_with_def)
    also have "\<dots> \<longleftrightarrow> (\<forall>i\<in>{1..<17}. 16 - p < i \<longrightarrow> out ! (length out - 1 - (16 - i)) = of_nat p)"
      using False len by (intro pad_suffix_iff) simp_all
    also have "\<dots> \<longleftrightarrow> \<not> ?bad p"
    proof -
      have "set (rev [1..<Suc 16]) = {1..<17 :: nat}" by (simp del: upt_Suc)
      then show ?thesis by blast
    qed
    finally have "padded_with out p \<longleftrightarrow> \<not> ?bad p" .
    then show ?thesis using False unfolding d p_def [symmetric] Let_def by (simp only: if_False simp_thms split: if_split) blast
  qed
qed

section \<open>The interpretations, and diversifiers\<close>

interpretation aes128: block_cipher "AES128Encrypt key" "AES128Decrypt key" for key
  by unfold_locales
    (simp_all add: AES128Encrypt_def AES128Decrypt_def AES128_encrypt_def AES128_decrypt_def AES_decrypt_encrypt)

interpretation aes256: block_cipher "AES256Encrypt key" "AES256Decrypt key" for key
  by unfold_locales
    (simp_all add: AES256Encrypt_def AES256Decrypt_def AES256_encrypt_def AES256_decrypt_def AES_decrypt_encrypt)

text \<open>A padded block holds up to fifteen bytes; decrypting gives them back with their number.\<close>

lemma CBC_one_block:
  assumes "data \<noteq> []" and "length data < 16" and "length iv = 16"
  shows "\<exists>c. CBCEncrypt (AES256Encrypt key) iv data True = c \<and> length c = 16 \<and>
    CBCDecrypt (AES256Decrypt key) iv c True = (length data, pad_block data)"
proof -
  let ?n = "length data"
  let ?c = "CBCEncrypt (AES256Encrypt key) iv data True"
  have n: "?n mod 16 = ?n" "0 < ?n" using assms by simp_all
  have c: "length ?c = 16" "cbc_decrypt_loop (AES256Decrypt key) iv ?c = data @ replicate (16 - ?n) (of_nat (16 - ?n))"
    using aes256.CBC_padded_blocks [OF assms(3,1), of key] n(1) assms(2) by simp_all
  let ?out = "data @ replicate (16 - ?n) (of_nat (16 - ?n) :: byte)"
  have l: "last ?out = of_nat (16 - ?n)" using assms(2) by simp
  have u: "unat (of_nat (16 - ?n) :: byte) = 16 - ?n" by (simp add: unsigned_of_nat take_bit_nat_eq_self)
  have "padded_with ?out (16 - ?n)" using n(2) assms(2) by (simp add: padded_with_def)
  moreover have "?c \<noteq> []" using c(1) by auto
  ultimately have "CBCDecrypt (AES256Decrypt key) iv ?c True = (16 - (16 - ?n), ?out)"
    using CBCDecrypt_padding [of ?c "AES256Decrypt key" iv] c(1) assms(2) unfolding c(2) l u by simp
  moreover have "?out = pad_block data" by (simp add: pad_block_def AES_BLOCKSIZE_def)
  ultimately show ?thesis using c(1) assms(2) by simp
qed

lemma ser_read64_of: "length b = 8 \<Longrightarrow> \<exists>t. ser_readdata64 (ds_write b (ds_init ty v)) = Inr (le_word b, t)"
  using u64.Unser_enc [of "ds_write b (ds_init ty v)" "le_word b" "[]"]
  by (auto simp: le_bytes_le_word ds_wf_def MAX_SIZE_def)

lemma diversifier_round_trip:
  assumes "length key = 32"
  shows "\<exists>d. diversifier_encrypt key i = Inr d \<and> length d = 16 \<and> diversifier_decrypt key d = Inr i"
proof -
  let ?iv = "replicate 16 0 :: bytes"
  have p: "pending (ser_writedata64 i (ds_init SER_NETWORK 0)) = le_bytes 8 i"
    by (simp add: u64.Ser_enc)
  obtain c where c: "CBCEncrypt (AES256Encrypt key) ?iv (le_bytes 8 i) True = c" "length c = 16"
    "CBCDecrypt (AES256Decrypt key) ?iv c True = (8, pad_block (le_bytes 8 i))"
  proof -
    have "le_bytes 8 i \<noteq> []" by (simp flip: length_0_conv)
    then show ?thesis using CBC_one_block [of "le_bytes 8 i" ?iv key] that by auto
  qed
  have "take 8 (pad_block (le_bytes 8 i)) = le_bytes 8 i" by (simp add: pad_block_def)
  moreover obtain t where "ser_readdata64 (ds_write (le_bytes 8 i) (ds_init SER_NETWORK 0)) = Inr (i, t)"
    using ser_read64_of [of "le_bytes 8 i" SER_NETWORK 0] by (auto simp: le_word_le_bytes)
  ultimately show ?thesis
    using assms c p
    by (simp add: diversifier_encrypt_def diversifier_decrypt_def AES256CBCEncrypt_def AES256CBCDecrypt_def
        AES_BLOCKSIZE_def AES256_KEYSIZE_def Let_def)
qed

text \<open>
  A ciphertext \<open>diversifier_decrypt\<close> accepts is the one \<open>diversifier_encrypt\<close> makes of the
  result: nothing else decrypts to it.
\<close>

lemma diversifier_decrypt_sound:
  assumes "diversifier_decrypt key d = Inr i"
  shows "length key = 32 \<and> diversifier_encrypt key i = Inr d"
proof -
  let ?iv = "replicate 16 0 :: bytes" and ?dec = "AES256Decrypt key" and ?enc = "AES256Encrypt key"
  have k: "length key = 32" "length d = 16"
    using assms by (auto simp: diversifier_decrypt_def AES_BLOCKSIZE_def AES256_KEYSIZE_def split: if_split_asm)
  define out where "out = cbc_decrypt_loop ?dec ?iv d"
  have o1: "out = map2 (XOR) (?dec d) ?iv"
    using cbc_decrypt_loop.simps [of ?dec ?iv d] k cbc_decrypt_loop.simps [of ?dec d "[]"]
    by (simp add: out_def AES_BLOCKSIZE_def)
  then have o: "out = ?dec d"
    using aes256.length_dec [of key d] by (intro nth_equalityI) simp_all
  then have lo: "length out = 16" using aes256.length_dec [of key d] by simp
  have dne: "d \<noteq> []" using k by auto
  have cd: "CBCDecrypt ?dec ?iv d True =
      (if padded_with out (unat (last out)) then length d - unat (last out) else 0, out)"
    unfolding out_def using k dne lo by (intro CBCDecrypt_padding) (simp_all add: out_def [symmetric])
  have len: "fst (CBCDecrypt ?dec ?iv d True) = 8"
    using assms k
    by (simp add: diversifier_decrypt_def AES_BLOCKSIZE_def AES256_KEYSIZE_def AES256CBCDecrypt_def split_def Let_def
        split: if_split_asm)
  then have "padded_with out (unat (last out))" "16 - unat (last out) = 8"
    using cd k by (auto split: if_split_asm)
  moreover from this have "unat (last out) = 8" by linarith
  ultimately have pad: "padded_with out 8" "unat (last out) = 8" by simp_all
  then have out8: "out = take 8 out @ replicate 8 8"
    using lo append_take_drop_id [of 8 out] by (simp add: padded_with_def)
  have ti: "i = le_word (take 8 out)"
    using assms k len cd ser_read64_of [of "take 8 out" SER_NETWORK 0] lo
    by (auto simp: diversifier_decrypt_def AES_BLOCKSIZE_def AES256_KEYSIZE_def AES256CBCDecrypt_def Let_def
        split: if_split_asm)
  have p: "pending (ser_writedata64 i (ds_init SER_NETWORK 0)) = take 8 out"
    using lo by (simp add: u64.Ser_enc ti le_bytes_le_word)
  have "pad_block (take 8 out) = out" using out8 lo by (simp add: pad_block_def AES_BLOCKSIZE_def)
  moreover have "map2 (XOR) ?iv out = out" using lo by (intro nth_equalityI) simp_all
  moreover have "out \<noteq> []" using lo by auto
  ultimately have "CBCEncrypt ?enc ?iv (take 8 out) True = ?enc out"
    using lo by (simp add: CBCEncrypt_def aes256.loop_small AES_BLOCKSIZE_def)
  also have "\<dots> = d" unfolding o using k(2) by (rule aes256.enc_dec)
  finally show ?thesis
    using k p by (simp add: diversifier_encrypt_def AES256CBCEncrypt_def AES_BLOCKSIZE_def AES256_KEYSIZE_def Let_def)
qed

section \<open>Properties\<close>

text \<open>
  C19: padded CBC encryption with AES-256 round-trips for every plaintext, key and 16-byte initialisation
  vector: decryption reports the length of the plaintext and what it wrote starts with the plaintext. The
  ciphertext is the plaintext filled up to the next multiple of 16, a whole block more when it is one
  already, except that an empty plaintext is encrypted to nothing.
\<close>

theorem AES256CBC_round_trip:
  assumes "length iv = 16"
  shows "(\<exists>out. AES256CBCDecrypt key iv True (AES256CBCEncrypt key iv True data) = (length data, out) \<and>
      take (length data) out = data) \<and>
    length (AES256CBCEncrypt key iv True data) = (if data = [] then 0 else 16 * (length data div 16 + 1))"
proof (cases "data = []")
  case True
  then show ?thesis by (simp add: AES256CBCDecrypt_def AES256CBCEncrypt_def CBCDecrypt_def CBCEncrypt_def)
next
  case False
  define n where "n = 16 - length data mod 16"
  let ?c = "CBCEncrypt (AES256Encrypt key) iv data True"
  let ?out = "data @ replicate n (of_nat n :: byte)"
  have n: "0 < n" "n \<le> 16" by (simp_all add: n_def)
  have c: "length ?c = length data + n" "cbc_decrypt_loop (AES256Decrypt key) iv ?c = ?out"
    using aes256.CBC_padded_blocks [OF assms False] by (simp_all add: n_def)
  have m: "(length data + n) mod 16 = 0" "length data + n = 16 * (length data div 16 + 1)" unfolding n_def by presburger+
  have l: "last ?out = of_nat n" using n by simp
  have u: "unat (of_nat n :: byte) = n" using n by (simp add: unsigned_of_nat take_bit_nat_eq_self)
  have "padded_with ?out n" using n by (simp add: padded_with_def)
  moreover have "?c \<noteq> []" using c(1) n by auto
  ultimately have "CBCDecrypt (AES256Decrypt key) iv ?c True = (length data, ?out)"
    using CBCDecrypt_padding [of ?c "AES256Decrypt key" iv] c(1) m(1) unfolding c(2) l u by simp
  then show ?thesis using False c(1) m(2) by (simp add: AES256CBCDecrypt_def AES256CBCEncrypt_def)
qed

theorem AES256CBC_round_trip_witness:
  "\<exists>out. AES256CBCDecrypt [1, 2] (replicate 16 3) True (AES256CBCEncrypt [1, 2] (replicate 16 3) True [4, 5, 6]) = (3, out) \<and>
    take 3 out = [4, 5, 6]"
  using AES256CBC_round_trip [of "replicate 16 3" "[1, 2]" "[4, 5, 6]", THEN conjunct1] by (simp add: numeral_3_eq_3)

text \<open>
  A diversifier index survives encryption: with a 32-byte key every index encrypts to 16
  bytes and decrypts to itself.
\<close>

lemma diversifier_decrypts_to_index:
  assumes "length key = 32"
  shows "\<exists>d. diversifier_encrypt key i = Inr d \<and> length d = 16 \<and> diversifier_decrypt key d = Inr i"
  using assms by (rule diversifier_round_trip)

text \<open>
  Decryption of diversifiers rejects what encryption does not produce: whenever it returns
  an index, the ciphertext is exactly the encryption of that index under the same key.
\<close>

lemma diversifier_accepts_only_encryptions:
  assumes "diversifier_decrypt key d = Inr i"
  shows "length key = 32 \<and> diversifier_encrypt key i = Inr d"
  using assms by (rule diversifier_decrypt_sound)

end
