(* ===== verification/SparkName.thy ===== *)
theory SparkName
  imports Transaction
begin

text \<open>
  \<open>sparkname.h\<close> and \<open>sparkname.cpp\<close>: the registration record of a Spark name, its two
  wire versions, and the size computed before the ownership proof exists. Both directions
  of \<open>SerializationOp\<close> may throw: on an unknown version and, for version 2, on an operation
  type other than 0.
\<close>

record CSparkNameTxData =
  sn_nVersion :: "16 word"
  sn_inputsHash :: bytes
  sn_name :: bytes
  sn_sparkAddress :: bytes
  sn_addressOwnershipProof :: bytes
  sn_sparkNameValidityBlocks :: "32 word"
  sn_additionalInfo :: bytes
  sn_hashFailsafe :: "32 word"
  sn_operationType :: "8 word"

definition CURRENT_VERSION :: "16 word" where "CURRENT_VERSION = 2"

definition CSparkNameTxData_default :: CSparkNameTxData where
  "CSparkNameTxData_default = \<lparr>sn_nVersion = CURRENT_VERSION, sn_inputsHash = blob_null 32,
     sn_name = [], sn_sparkAddress = [], sn_addressOwnershipProof = [],
     sn_sparkNameValidityBlocks = 0, sn_additionalInfo = [], sn_hashFailsafe = 0,
     sn_operationType = 0\<rparr>"

definition bad_version :: exn where
  "bad_version = Ios_Failure ''Unsupported Spark Name transaction data version''"

definition bad_operation :: exn where
  "bad_operation = Ios_Failure ''Unsupported Spark Name operation type''"

definition Serialize_SparkName :: "CSparkNameTxData \<Rightarrow> CDataStream \<Rightarrow> CDataStream res" where
  "Serialize_SparkName d s =
     (let s = ser_writedata16 (sn_nVersion d) s in
      if sn_nVersion d \<noteq> 1 \<and> sn_nVersion d \<noteq> 2 then Inl bad_version
      else
        let s = Serialize_blob (sn_inputsHash d) s;
            s = Serialize_string (sn_name d) s;
            s = Serialize_string (sn_sparkAddress d) s;
            s = Serialize_bytes (sn_addressOwnershipProof d) s;
            s = ser_writedata32 (sn_sparkNameValidityBlocks d) s;
            s = Serialize_string (sn_additionalInfo d) s;
            s = ser_writedata32 (sn_hashFailsafe d) s
        in if sn_nVersion d = 2 then
             (let s = ser_writedata8 (sn_operationType d) s in
              if sn_operationType d \<noteq> 0 then Inl bad_operation else Inr s)
           else Inr s)"

text \<open>
  Reading assigns the fields of an existing object; a version 1 record leaves its operation
  type as it was.
\<close>

definition Unserialize_SparkName :: "CSparkNameTxData \<Rightarrow> CSparkNameTxData sreader" where
  "Unserialize_SparkName this =
     sbind ser_readdata16 (\<lambda>ver.
       if ver \<noteq> 1 \<and> ver \<noteq> 2 then sthrow bad_version
       else
         sbind (Unserialize_blob 32) (\<lambda>inputsHash.
         sbind Unserialize_string (\<lambda>name.
         sbind Unserialize_string (\<lambda>sparkAddress.
         sbind Unserialize_bytes (\<lambda>proof.
         sbind ser_readdata32 (\<lambda>blocks.
         sbind Unserialize_string (\<lambda>info.
         sbind ser_readdata32 (\<lambda>failsafe.
           let d = this\<lparr>sn_nVersion := ver, sn_inputsHash := inputsHash, sn_name := name,
                 sn_sparkAddress := sparkAddress, sn_addressOwnershipProof := proof,
                 sn_sparkNameValidityBlocks := blocks, sn_additionalInfo := info,
                 sn_hashFailsafe := failsafe\<rparr>
           in if ver = 2 then
                sbind ser_readdata8 (\<lambda>operationType.
                  if operationType \<noteq> 0 then sthrow bad_operation
                  else sreturn (d\<lparr>sn_operationType := operationType\<rparr>))
              else sreturn d))))))))"

definition spark_name_body :: "CSparkNameTxData \<Rightarrow> bytes" where
  "spark_name_body d =
     sn_inputsHash d @ str_bytes (sn_name d) @ str_bytes (sn_sparkAddress d) @
     str_bytes (sn_addressOwnershipProof d) @ le_bytes 4 (sn_sparkNameValidityBlocks d) @
     str_bytes (sn_additionalInfo d) @ le_bytes 4 (sn_hashFailsafe d)"

definition spark_name_bytes :: "CSparkNameTxData \<Rightarrow> bytes" where
  "spark_name_bytes d =
     le_bytes 2 (sn_nVersion d) @ spark_name_body d @
     (if sn_nVersion d = 2 then le_bytes 1 (sn_operationType d) else [])"

definition spark_name_supported :: "CSparkNameTxData \<Rightarrow> bool" where
  "spark_name_supported d \<longleftrightarrow>
     (sn_nVersion d = 1 \<or> (sn_nVersion d = 2 \<and> sn_operationType d = 0))"

definition spark_name_ok :: "CSparkNameTxData \<Rightarrow> bool" where
  "spark_name_ok d \<longleftrightarrow> spark_name_supported d \<and> length (sn_inputsHash d) = 32 \<and>
     str_ok (sn_name d) \<and> str_ok (sn_sparkAddress d) \<and> str_ok (sn_addressOwnershipProof d) \<and>
     str_ok (sn_additionalInfo d)"

text \<open>
  \<open>getSparkNameTxDataSize\<close>: the serialised size with the proof replaced by the bytes of an
  empty \<open>OwnershipProof\<close>, one group element and three scalars long.
\<close>

definition OwnershipProof_memoryRequired :: nat where
  "OwnershipProof_memoryRequired = 32 * 3 + 34"

definition getSparkNameTxDataSize :: "bytes \<Rightarrow> CSparkNameTxData \<Rightarrow> nat res" where
  "getSparkNameTxDataSize emptyProof d =
     rbind (Serialize_SparkName (d\<lparr>sn_addressOwnershipProof := emptyProof\<rparr>) (ds_init SER_NETWORK 0))
       (\<lambda>s. Inr (ds_size s))"

section \<open>Lemmas\<close>

lemma Serialize_SparkName_bytes:
  "Serialize_SparkName d s =
     (if spark_name_supported d then Inr (ds_write (spark_name_bytes d) s)
      else Inl (if sn_nVersion d = 2 then bad_operation else bad_version))"
  by (auto simp: Serialize_SparkName_def spark_name_supported_def spark_name_bytes_def
      spark_name_body_def Let_def Serialize_blob_def Serialize_string_bytes Serialize_bytes_bytes
      u8.Ser_enc u16.Ser_enc u32.Ser_enc)

text \<open>The seven fields both versions share, read in one go.\<close>

definition read_name_fields ::
  "(bytes \<times> bytes \<times> bytes \<times> bytes \<times> 32 word \<times> bytes \<times> 32 word) sreader" where
  "read_name_fields =
     Unserialize_pair (Unserialize_blob 32) (Unserialize_pair Unserialize_string
       (Unserialize_pair Unserialize_string (Unserialize_pair Unserialize_bytes
         (Unserialize_pair ser_readdata32 (Unserialize_pair Unserialize_string ser_readdata32)))))"

lemmas name_fields_canonical =
  pair_canonical [OF blob_canonical [of 32] pair_canonical [OF str.canonical_axioms
    pair_canonical [OF str.canonical_axioms pair_canonical [OF vec.canonical_axioms
      pair_canonical [OF u32.canonical_axioms pair_canonical [OF str.canonical_axioms
        u32.canonical_axioms]]]]]]

lemma sbind_assoc: "sbind (sbind m f) g = sbind m (\<lambda>x. sbind (f x) g)"
  by (rule ext) (simp add: sbind_def rbind_def split: sum.splits prod.splits)

lemma sbind_sreturn: "sbind (sreturn x) f = f x"
  by (rule ext) (simp add: sbind_def)

lemma Unserialize_SparkName_fields:
  "Unserialize_SparkName this =
     sbind ser_readdata16 (\<lambda>ver.
       if ver \<noteq> 1 \<and> ver \<noteq> 2 then sthrow bad_version
       else
         sbind read_name_fields (\<lambda>(inputsHash, name, sparkAddress, proof, blocks, info, failsafe).
           let d = this\<lparr>sn_nVersion := ver, sn_inputsHash := inputsHash, sn_name := name,
                 sn_sparkAddress := sparkAddress, sn_addressOwnershipProof := proof,
                 sn_sparkNameValidityBlocks := blocks, sn_additionalInfo := info,
                 sn_hashFailsafe := failsafe\<rparr>
           in if ver = 2 then
                sbind ser_readdata8 (\<lambda>operationType.
                  if operationType \<noteq> 0 then sthrow bad_operation
                  else sreturn (d\<lparr>sn_operationType := operationType\<rparr>))
              else sreturn d))"
  by (simp only: Unserialize_SparkName_def read_name_fields_def Unserialize_pair_def sbind_assoc
      sbind_sreturn prod.case)

definition name_fields ::
  "CSparkNameTxData \<Rightarrow> bytes \<times> bytes \<times> bytes \<times> bytes \<times> 32 word \<times> bytes \<times> 32 word" where
  "name_fields d = (sn_inputsHash d, sn_name d, sn_sparkAddress d, sn_addressOwnershipProof d,
     sn_sparkNameValidityBlocks d, sn_additionalInfo d, sn_hashFailsafe d)"

lemma read_name_fields_ok:
  assumes "spark_name_ok d" and "ds_wf s" and "pending s = spark_name_body d @ rest"
  obtains s' where "read_name_fields s = Inr (name_fields d, s')" and "ds_wf s'" and "pending s' = rest"
  using serializable.Unser_enc [OF canonical.axioms(1) [OF name_fields_canonical], of "name_fields d" s rest] assms
  by (auto simp: read_name_fields_def name_fields_def spark_name_ok_def spark_name_body_def)

lemma SparkName_round_trip:
  assumes ok: "spark_name_ok d" and "ds_wf s" and p: "pending s = spark_name_bytes d @ rest"
    and keep: "sn_nVersion d = 2 \<or> sn_operationType d = sn_operationType this"
  obtains s' where "Unserialize_SparkName this s = Inr (d, s')" and "ds_wf s'" and "pending s' = rest"
proof -
  let ?op = "if sn_nVersion d = 2 then le_bytes 1 (sn_operationType d) else []"
  have "pending s = le_bytes 2 (sn_nVersion d) @ (spark_name_body d @ ?op @ rest)"
    using p by (simp add: spark_name_bytes_def)
  then obtain s1 where 1: "ser_readdata16 s = Inr (sn_nVersion d, s1)" "ds_wf s1"
    "pending s1 = spark_name_body d @ (?op @ rest)"
    using u16.Unser_encE [OF TrueI \<open>ds_wf s\<close>] by blast
  obtain s2 where 2: "read_name_fields s1 = Inr (name_fields d, s2)" "ds_wf s2" "pending s2 = ?op @ rest"
    by (rule read_name_fields_ok [OF ok 1(2,3)])
  have v: "sn_nVersion d = 1 \<or> (sn_nVersion d = 2 \<and> sn_operationType d = 0)"
    using ok by (simp add: spark_name_ok_def spark_name_supported_def)
  show thesis
  proof (cases "sn_nVersion d = 2")
    case True
    obtain s3 where 3: "ser_readdata8 s2 = Inr (sn_operationType d, s3)" "ds_wf s3" "pending s3 = rest"
    proof (rule u8.Unser_encE [OF TrueI 2(2)])
      show "pending s2 = le_bytes 1 (sn_operationType d) @ rest" using 2(3) True by simp
    qed
    have "Unserialize_SparkName this s = Inr (d, s3)"
      using v True by (cases d; cases this)
        (simp add: Unserialize_SparkName_fields sbind_def 1 2 3 name_fields_def Let_def)
    then show thesis using 3 that by blast
  next
    case False
    have "Unserialize_SparkName this s = Inr (d, s2)"
      using v False keep by (cases d; cases this)
        (simp add: Unserialize_SparkName_fields sbind_def 1 2 name_fields_def Let_def)
    then show thesis using 2 False that by simp
  qed
qed

lemma SparkName_sound:
  assumes wf: "ds_wf s" and r: "Unserialize_SparkName this s = Inr (d, s')"
  shows "spark_name_ok d \<and> ds_wf s' \<and> pending s = spark_name_bytes d @ pending s'"
proof -
  obtain ver s1 where 1: "ser_readdata16 s = Inr (ver, s1)" and v: "ver = 1 \<or> ver = 2"
    and r1: "sbind read_name_fields (\<lambda>(inputsHash, name, sparkAddress, proof, blocks, info, failsafe).
           let d = this\<lparr>sn_nVersion := ver, sn_inputsHash := inputsHash, sn_name := name,
                 sn_sparkAddress := sparkAddress, sn_addressOwnershipProof := proof,
                 sn_sparkNameValidityBlocks := blocks, sn_additionalInfo := info,
                 sn_hashFailsafe := failsafe\<rparr>
           in if ver = 2 then
                sbind ser_readdata8 (\<lambda>operationType.
                  if operationType \<noteq> 0 then sthrow bad_operation
                  else sreturn (d\<lparr>sn_operationType := operationType\<rparr>))
              else sreturn d) s1 = Inr (d, s')"
    using r by (auto simp: Unserialize_SparkName_fields sbind_eq_Inr split: if_splits)
  have s1: "ds_wf s1" "pending s = le_bytes 2 ver @ pending s1"
    using u16.Unser_sound [OF wf 1] by simp_all
  obtain f s2 where 2: "read_name_fields s1 = Inr (f, s2)"
    using r1 by (auto simp: sbind_eq_Inr)
  obtain a b c p n i k where f: "f = (a, b, c, p, n, i, k)" by (metis prod_cases7)
  have s2: "ds_wf s2" "length a = 32" "str_ok b" "str_ok c" "str_ok p" "str_ok i"
    "pending s1 = (a @ str_bytes b @ str_bytes c @ str_bytes p @ le_bytes 4 n @ str_bytes i @ le_bytes 4 k) @ pending s2"
    using canonical.Unser_sound [OF name_fields_canonical s1(1) 2 [unfolded read_name_fields_def]] by (auto simp: f)
  show ?thesis
  proof (cases "ver = 2")
    case True
    with r1 obtain s3 where 3: "ser_readdata8 s2 = Inr (0, s3)" "s' = s3"
      "d = this\<lparr>sn_nVersion := ver, sn_inputsHash := a, sn_name := b,
                 sn_sparkAddress := c, sn_addressOwnershipProof := p,
                 sn_sparkNameValidityBlocks := n, sn_additionalInfo := i,
                 sn_hashFailsafe := k, sn_operationType := 0\<rparr>"
      by (auto simp: sbind_def rbind_Inr_iff 2 f Let_def split: if_splits)
    then show ?thesis
      using u8.Unser_sound [OF s2(1) 3(1)] s1 s2 True
      by (auto simp: spark_name_ok_def spark_name_supported_def spark_name_bytes_def spark_name_body_def)
  next
    case False
    with r1 have "s' = s2"
      "d = this\<lparr>sn_nVersion := ver, sn_inputsHash := a, sn_name := b,
                 sn_sparkAddress := c, sn_addressOwnershipProof := p,
                 sn_sparkNameValidityBlocks := n, sn_additionalInfo := i, sn_hashFailsafe := k\<rparr>"
      by (auto simp: sbind_def 2 f Let_def)
    then show ?thesis
      using s1 s2 v False
      by (auto simp: spark_name_ok_def spark_name_supported_def spark_name_bytes_def spark_name_body_def)
  qed
qed

lemma getSparkNameTxDataSize_exact:
  assumes "spark_name_supported d" and "length emptyProof = length (sn_addressOwnershipProof d)"
  shows "getSparkNameTxDataSize emptyProof d = Inr (length (spark_name_bytes d) mod 2 ^ 64)"
proof -
  let ?d = "d\<lparr>sn_addressOwnershipProof := emptyProof\<rparr>"
  have "length (str_bytes emptyProof) = length (str_bytes (sn_addressOwnershipProof d))"
    using assms(2) by (simp add: str_bytes_def)
  then have "length (spark_name_bytes ?d) = length (spark_name_bytes d)"
    by (simp add: spark_name_bytes_def spark_name_body_def)
  moreover have "spark_name_supported ?d" using assms(1) by (simp add: spark_name_supported_def)
  ultimately show ?thesis
    by (simp add: getSparkNameTxDataSize_def Serialize_SparkName_bytes ds_size_def nat_mod_as_int)
qed

section \<open>Properties\<close>

text \<open>
  A Spark name record survives the wire: whatever supported record is serialised, reading
  the bytes back gives the record and uses up the stream, for both versions (a version 1
  record carries no operation type, so the reader's own must be that of the record).
\<close>

lemma SparkName_reads_back:
  assumes "spark_name_ok d" and "Serialize_SparkName d (ds_init t v) = Inr s" and "length (vch s) + MAX_SIZE < 2 ^ 32"
    and "sn_nVersion d = 2 \<or> sn_operationType d = sn_operationType this"
  shows "\<exists>s'. Unserialize_SparkName this s = Inr (d, s') \<and> pending s' = []"
proof -
  have s: "s = ds_write (spark_name_bytes d) (ds_init t v)"
    using assms(1,2) by (simp add: Serialize_SparkName_bytes spark_name_ok_def)
  have wf: "ds_wf s" using assms(3) by (simp add: s ds_wf_def)
  have "pending s = spark_name_bytes d @ []" by (simp add: s)
  then show ?thesis by (rule SparkName_round_trip [OF assms(1) wf _ assms(4)]) blast
qed

definition sample_name :: CSparkNameTxData where
  "sample_name = \<lparr>sn_nVersion = 2, sn_inputsHash = replicate 32 1, sn_name = [0x61, 0x62],
     sn_sparkAddress = [0x73], sn_addressOwnershipProof = [9, 9], sn_sparkNameValidityBlocks = 100,
     sn_additionalInfo = [], sn_hashFailsafe = 0, sn_operationType = 0\<rparr>"

lemma sample_name_ok: "spark_name_ok sample_name" "spark_name_supported sample_name"
  by (simp_all add: spark_name_ok_def spark_name_supported_def sample_name_def str_ok_def MAX_SIZE_def)

lemma sample_name_length: "length (spark_name_bytes sample_name) < 1000"
  by (simp add: spark_name_bytes_def spark_name_body_def sample_name_def str_bytes_def length_compact_bytes
      GetSizeOfCompactSize_def)

text \<open>
  C20: the reader of Spark names accepts nothing but serialised records: every record it returns
  is supported and within the size limits, and the bytes consumed are exactly its layout. The stream
  has its read position within its bytes and stays below the 32-bit range of positions (\<open>ds_wf\<close>).
\<close>

theorem SparkName_accepts_only_records:
  assumes "ds_wf s" and "Unserialize_SparkName this s = Inr (d, s')"
  shows "spark_name_ok d \<and> ds_wf s' \<and> pending s = spark_name_bytes d @ pending s'"
  using assms by (rule SparkName_sound)

theorem SparkName_accepts_only_records_witness:
  "\<exists>s s'. Unserialize_SparkName CSparkNameTxData_default s = Inr (sample_name, s') \<and>
     pending s = spark_name_bytes sample_name @ pending s'"
proof -
  let ?s = "ds_make (spark_name_bytes sample_name) 1 0"
  have wf: "ds_wf ?s" using sample_name_length by (intro ds_wf_make) (simp add: MAX_SIZE_def)
  have "sn_nVersion sample_name = 2" by (simp add: sample_name_def)
  then obtain s' where r: "Unserialize_SparkName CSparkNameTxData_default ?s = Inr (sample_name, s')"
    using SparkName_round_trip [OF sample_name_ok(1) wf, of "[]" CSparkNameTxData_default] by auto
  from SparkName_accepts_only_records [OF wf r] r show ?thesis by blast
qed

text \<open>
  The size announced before the ownership proof exists is the size of the final record, as
  long as the proof has the length of the empty proof.
\<close>

lemma SparkName_size_exact:
  assumes "spark_name_supported d" and "length emptyProof = length (sn_addressOwnershipProof d)"
  shows "getSparkNameTxDataSize emptyProof d = Inr (length (spark_name_bytes d) mod 2 ^ 64)"
  using assms by (rule getSparkNameTxDataSize_exact)

end
