(* ===== verification/Bech32.thy ===== *)
theory Bech32
  imports SparkPrelude
begin

text \<open>
  \<open>sparkmobile/src/bech32.cpp\<close>: the Bech32 and Bech32m text encodings with their BCH checksum,
  and the regrouping of bits that goes before. Strings are lists of bytes. A failed
  \<open>assert\<close> is \<open>Abort\<close>.
\<close>

section \<open>Data\<close>

datatype Encoding = INVALID | BECH32 | BECH32M

record DecodeResult =
  dr_encoding :: Encoding
  dr_hrp :: bytes
  dr_data :: bytes

definition decode_fail :: DecodeResult where
  "decode_fail = \<lparr>dr_encoding = INVALID, dr_hrp = [], dr_data = []\<rparr>"

text \<open>The characters \<open>qpzry9x8gf2tvdw0s3jn54khce6mua7l\<close>.\<close>

definition CHARSET :: bytes where
  "CHARSET = [0x71, 0x70, 0x7a, 0x72, 0x79, 0x39, 0x78, 0x38, 0x67, 0x66, 0x32, 0x74, 0x76, 0x64, 0x77, 0x30,
     0x73, 0x33, 0x6a, 0x6e, 0x35, 0x34, 0x6b, 0x68, 0x63, 0x65, 0x36, 0x6d, 0x75, 0x61, 0x37, 0x6c]"

definition CHARSET_REV :: "int list" where
  "CHARSET_REV = [
    -1, -1, -1, -1, -1, -1, -1, -1, -1, -1, -1, -1, -1, -1, -1, -1,
    -1, -1, -1, -1, -1, -1, -1, -1, -1, -1, -1, -1, -1, -1, -1, -1,
    -1, -1, -1, -1, -1, -1, -1, -1, -1, -1, -1, -1, -1, -1, -1, -1,
    15, -1, 10, 17, 21, 20, 26, 30,  7,  5, -1, -1, -1, -1, -1, -1,
    -1, 29, -1, 24, 13, 25,  9,  8, 23, -1, 18, 22, 31, 27, 19, -1,
     1,  0,  3, 16, 11, 28, 12, 14,  6,  4,  2, -1, -1, -1, -1, -1,
    -1, 29, -1, 24, 13, 25,  9,  8, 23, -1, 18, 22, 31, 27, 19, -1,
     1,  0,  3, 16, 11, 28, 12, 14,  6,  4,  2, -1, -1, -1, -1, -1]"

section \<open>The checksum\<close>

definition encoding_constant :: "Encoding \<Rightarrow> 32 word res" where
  "encoding_constant encoding =
     (if encoding = BECH32 then Inr 1
      else if encoding = BECH32M then Inr 0x2bc830a3
      else Inl (Abort ''encoding_constant''))"

definition polymod_step :: "32 word \<Rightarrow> byte \<Rightarrow> 32 word" where
  "polymod_step c v_i =
     (let c0 = ucast (drop_bit 25 c) :: byte;
          c = push_bit 5 (c AND 0x1ffffff) XOR ucast v_i;
          c = (if c0 AND 1 \<noteq> 0 then c XOR 0x3b6a57b2 else c);
          c = (if c0 AND 2 \<noteq> 0 then c XOR 0x26508e6d else c);
          c = (if c0 AND 4 \<noteq> 0 then c XOR 0x1ea119fa else c);
          c = (if c0 AND 8 \<noteq> 0 then c XOR 0x3d4233dd else c);
          c = (if c0 AND 16 \<noteq> 0 then c XOR 0x2a1462b3 else c)
      in c)"

definition polymod :: "bytes \<Rightarrow> 32 word" where
  "polymod values = foldl polymod_step 1 values"

definition lc :: "byte \<Rightarrow> byte" where
  "lc c = (if 0x41 \<le> c \<and> c \<le> 0x5a then (c - 0x41) + 0x61 else c)"

definition expand_hrp :: "bytes \<Rightarrow> bytes" where
  "expand_hrp hrp = map (drop_bit 5) hrp @ [0] @ map (\<lambda>c. c AND 0x1f) hrp"

definition verify_checksum :: "bytes \<Rightarrow> bytes \<Rightarrow> Encoding" where
  "verify_checksum hrp values =
     (let check = polymod (expand_hrp hrp @ values) in
      if Inr check = encoding_constant BECH32 then BECH32
      else if Inr check = encoding_constant BECH32M then BECH32M
      else INVALID)"

definition create_checksum :: "bytes \<Rightarrow> bytes \<Rightarrow> Encoding \<Rightarrow> bytes res" where
  "create_checksum hrp values encoding =
     (let enc = expand_hrp hrp @ values @ replicate 6 0 in
      rbind (encoding_constant encoding) (\<lambda>k.
        let m = polymod enc XOR k
        in Inr (map (\<lambda>i. ucast (drop_bit (5 * (5 - i)) m AND 31)) [0..<6])))"

section \<open>Encoding and decoding of strings\<close>

text \<open>\<open>CHARSET\<close> is a string literal: index 32 reads its terminating zero, a higher one is out of bounds.\<close>

definition charset_at :: "byte \<Rightarrow> byte res" where
  "charset_at c =
     (if unat c < 32 then Inr (CHARSET ! unat c) else if unat c = 32 then Inr 0
      else Inl (Undefined ''CHARSET''))"

fun charset_all :: "bytes \<Rightarrow> bytes res" where
  "charset_all [] = Inr []"
| "charset_all (c # cs) = rbind (charset_at c) (\<lambda>x. rbind (charset_all cs) (\<lambda>xs. Inr (x # xs)))"

definition bech32_encode :: "bytes \<Rightarrow> bytes \<Rightarrow> Encoding \<Rightarrow> bytes res" where
  "bech32_encode hrp values encoding =
     (if \<not> list_all (\<lambda>c. c < 0x41 \<or> 0x5a < c) hrp then Inl (Abort ''encode'')
      else
        rbind (create_checksum hrp values encoding) (\<lambda>checksum.
        rbind (charset_all (values @ checksum)) (\<lambda>chars.
          Inr (hrp @ [0x31] @ chars))))"

text \<open>The first loop of \<open>decode\<close>: which cases occur; \<open>None\<close> is the early return.\<close>

fun scan_case :: "bool \<Rightarrow> bool \<Rightarrow> bytes \<Rightarrow> (bool \<times> bool) option" where
  "scan_case lower upper [] = Some (lower, upper)"
| "scan_case lower upper (c # cs) =
     (if 0x61 \<le> c \<and> c \<le> 0x7a then scan_case True upper cs
      else if 0x41 \<le> c \<and> c \<le> 0x5a then scan_case lower True cs
      else if c < 33 \<or> 126 < c then None
      else scan_case lower upper cs)"

definition rfind :: "byte \<Rightarrow> bytes \<Rightarrow> nat option" where
  "rfind c str =
     (if c \<in> set str then Some (length str - 1 - length (takeWhile (\<lambda>x. x \<noteq> c) (rev str))) else None)"

fun rev_all :: "bytes \<Rightarrow> bytes option" where
  "rev_all [] = Some []"
| "rev_all (c # cs) =
     (let rev = CHARSET_REV ! unat c in
      if rev = - 1 then None else map_option (\<lambda>vs. of_int rev # vs) (rev_all cs))"

definition bech32_decode :: "bytes \<Rightarrow> DecodeResult" where
  "bech32_decode str =
     (case scan_case False False str of
        None \<Rightarrow> decode_fail
      | Some (lower, upper) \<Rightarrow>
          if lower \<and> upper then decode_fail
          else
            (case rfind 0x31 str of
               None \<Rightarrow> decode_fail
             | Some pos \<Rightarrow>
                 if pos = 0 \<or> length str < pos + 7 then decode_fail
                 else
                   (case rev_all (drop (pos + 1) str) of
                      None \<Rightarrow> decode_fail
                    | Some values \<Rightarrow>
                        let hrp = map lc (take pos str);
                            result = verify_checksum hrp values
                        in if result = INVALID then decode_fail
                           else \<lparr>dr_encoding = result, dr_hrp = hrp,
                                  dr_data = take (length values - 6) values\<rparr>)))"

section \<open>Regrouping of bits\<close>

text \<open>
  The accumulator is an \<open>int\<close> of the code; the lemma \<open>cb_acc_small\<close> shows that it never leaves
  that type for group sizes up to eight. A \<open>tobits\<close> of zero would never leave the inner loop
  and is not used; the model then leaves it at once.
\<close>

function cb_emit :: "int \<Rightarrow> nat \<Rightarrow> nat \<Rightarrow> bytes \<Rightarrow> nat \<times> bytes" where
  "cb_emit acc tobits bits out =
     (if tobits \<le> bits \<and> 0 < tobits
      then cb_emit acc tobits (bits - tobits)
             (out @ [of_int (drop_bit (bits - tobits) acc AND (push_bit tobits 1 - 1))])
      else (bits, out))"
  by pat_completeness auto
termination
  by (relation "measure (\<lambda>(_, _, bits, _). bits)") auto

declare cb_emit.simps [simp del]

definition cb_acc :: "nat \<Rightarrow> nat \<Rightarrow> int \<Rightarrow> byte \<Rightarrow> int" where
  "cb_acc frombits tobits acc v = (push_bit frombits acc OR uint v) AND (push_bit (frombits + tobits - 1) 1 - 1)"

fun cb_loop :: "nat \<Rightarrow> nat \<Rightarrow> int \<Rightarrow> nat \<Rightarrow> bytes \<Rightarrow> bytes \<Rightarrow> int \<times> nat \<times> bytes" where
  "cb_loop frombits tobits acc bits out [] = (acc, bits, out)"
| "cb_loop frombits tobits acc bits out (v # vs) =
     (let acc = cb_acc frombits tobits acc v;
          (bits, out) = cb_emit acc tobits (bits + frombits) out
      in cb_loop frombits tobits acc bits out vs)"

definition convertbits :: "bytes \<Rightarrow> bytes \<Rightarrow> nat \<Rightarrow> nat \<Rightarrow> bool \<Rightarrow> bool \<times> bytes" where
  "convertbits out vs frombits tobits pad =
     (let maxv = push_bit tobits 1 - 1;
          (acc, bits, out) = cb_loop frombits tobits 0 0 out vs
      in if pad then
           (True, if bits \<noteq> 0 then out @ [of_int (push_bit (tobits - bits) acc AND maxv)] else out)
         else if frombits \<le> bits \<or> push_bit (tobits - bits) acc AND maxv \<noteq> 0 then (False, out)
         else (True, out))"


section \<open>Lemmas on the checksum\<close>

text \<open>
  A step of \<open>polymod\<close> adds the next symbol to a linear map of the remainder: the
  multiplication by \<open>x\<close> modulo the generator. On remainders of thirty bits it is injective,
  and it shifts those that leave the top group free.
\<close>

definition poly_shift :: "32 word \<Rightarrow> 32 word" where
  "poly_shift c = push_bit 5 (c AND 0x1ffffff)
     XOR (if bit c 25 then 0x3b6a57b2 else 0) XOR (if bit c 26 then 0x26508e6d else 0)
     XOR (if bit c 27 then 0x1ea119fa else 0) XOR (if bit c 28 then 0x3d4233dd else 0)
     XOR (if bit c 29 then 0x2a1462b3 else 0)"

lemma and_bit_nz:
  fixes x :: byte
  shows "x AND 1 \<noteq> 0 \<longleftrightarrow> bit x 0" "x AND 2 \<noteq> 0 \<longleftrightarrow> bit x 1" "x AND 4 \<noteq> 0 \<longleftrightarrow> bit x 2"
    "x AND 8 \<noteq> 0 \<longleftrightarrow> bit x 3" "x AND 16 \<noteq> 0 \<longleftrightarrow> bit x 4"
  using and_exp_eq_0_iff_not_bit [of x 0] and_exp_eq_0_iff_not_bit [of x 1] and_exp_eq_0_iff_not_bit [of x 2]
    and_exp_eq_0_iff_not_bit [of x 3] and_exp_eq_0_iff_not_bit [of x 4] by auto

lemma polymod_step_linear: "polymod_step c v = poly_shift c XOR ucast v"
proof -
  have b: "bit (ucast (drop_bit 25 c) :: byte) k \<longleftrightarrow> bit c (25 + k)" if "k < 8" for k
    using that by (simp add: bit_simps)
  show ?thesis
    unfolding polymod_step_def poly_shift_def Let_def and_bit_nz
    by (simp add: b ac_simps)
qed

lemma poly_shift_xor: "poly_shift (c XOR d) = poly_shift c XOR poly_shift d"
proof -
  have g: "(if bit (c XOR d) k then g else 0) = (if bit c k then g else 0) XOR (if bit d k then g else 0)"
    for k and g :: "32 word"
    by (simp add: bit_xor_iff)
  have p: "push_bit 5 ((c XOR d) AND m) = push_bit 5 (c AND m) XOR push_bit 5 (d AND m)" for m :: "32 word"
    by (rule bit_eqI) (auto simp: bit_simps)
  show ?thesis unfolding poly_shift_def g p by (simp only: ac_simps)
qed

abbreviation poly30 :: "32 word \<Rightarrow> bool" where
  "poly30 c \<equiv> \<not> bit c 30 \<and> \<not> bit c 31"

lemma poly30_eqI:
  assumes "poly30 c" "poly30 d" "\<And>i. i < 30 \<Longrightarrow> bit c i = bit d i"
  shows "c = d"
proof (rule bit_word_eqI)
  fix i :: nat
  assume "i < LENGTH(32)"
  then have "i < 30 \<or> i = 30 \<or> i = 31" by auto
  then show "bit c i = bit d i" using assms by auto
qed

lemma mask25: "(0x1ffffff :: 32 word) = mask 25"
  by (simp add: mask_eq_decr_exp)

lemma poly_shift_30: "poly30 (poly_shift c)"
  unfolding poly_shift_def mask25 by (auto simp: bit_xor_iff bit_push_bit_iff bit_and_iff bit_mask_iff)

lemma poly_shift_small:
  assumes "c AND 0x1ffffff = c"
  shows "poly_shift c = push_bit 5 c"
proof -
  have "\<not> bit c k" if "25 \<le> k" for k
    using arg_cong [OF assms, of "\<lambda>w. bit w k"] that by (simp add: mask25 bit_and_iff bit_mask_iff)
  then show ?thesis unfolding poly_shift_def assms by simp
qed

lemma poly_shift_0_iff:
  assumes "poly30 c" and z: "poly_shift c = 0"
  shows "c = 0"
proof -
  have b: "bit (poly_shift c) k = False" for k by (simp add: z)
  define w where "w = push_bit 5 (c AND 0x1ffffff)"
  have l: "bit w 0 = False" "bit w 1 = False" "bit w 2 = False" "bit w 3 = False" "bit w 4 = False"
    by (simp_all only: w_def bit_push_bit_iff) simp_all
  have top: "\<not> bit c 25 \<and> \<not> bit c 26 \<and> \<not> bit c 27 \<and> \<not> bit c 28 \<and> \<not> bit c 29"
  proof -
    have i: "bit (if P then K else 0) k = (P \<and> bit K k)" for P k and K :: "32 word" by simp
    have g: "bit (0x3b6a57b2 :: 32 word) k \<longleftrightarrow> k \<in> {1, 4}" "bit (0x26508e6d :: 32 word) k \<longleftrightarrow> k \<in> {0, 2, 3}"
      "bit (0x1ea119fa :: 32 word) k \<longleftrightarrow> k \<in> {1, 3, 4}" "bit (0x3d4233dd :: 32 word) k \<longleftrightarrow> k \<in> {0, 2, 3, 4}"
      "bit (0x2a1462b3 :: 32 word) k \<longleftrightarrow> k \<in> {0, 1, 4}" if "k \<in> {0, 1, 2, 3, 4}" for k :: nat
      using that by auto
    have e: "((bit c 25 \<and> k \<in> {1, 4}) \<noteq> ((bit c 26 \<and> k \<in> {0, 2, 3}) \<noteq> ((bit c 27 \<and> k \<in> {1, 3, 4}) \<noteq>
        ((bit c 28 \<and> k \<in> {0, 2, 3, 4}) \<noteq> (bit c 29 \<and> k \<in> {0, 1, 4}))))) = False"
      if k: "k \<in> {0, 1, 2, 3, 4}" for k :: nat
    proof -
      have "bit w k = False" using k l by auto
      then show ?thesis
        using b [of k] unfolding poly_shift_def w_def [symmetric] bit_xor_iff i g [OF k] by simp
    qed
    have "bit c 26 = (bit c 28 \<noteq> bit c 29)" using e [of 0] by simp
    moreover have "bit c 25 = (bit c 27 \<noteq> bit c 29)" using e [of 1] by simp
    moreover have "bit c 26 = bit c 28" using e [of 2] by simp
    moreover have "bit c 26 = (bit c 27 \<noteq> bit c 28)" using e [of 3] by simp
    moreover have "bit c 25 = (bit c 27 \<noteq> (bit c 28 \<noteq> bit c 29))" using e [of 4] by simp
    ultimately show ?thesis by argo
  qed
  then have "push_bit 5 (c AND 0x1ffffff) = 0" using z unfolding poly_shift_def by simp
  then have w0: "push_bit 5 (c AND mask 25) = 0" by (simp only: mask25)
  have low: "\<not> bit c k" if "k < 25" for k
    using arg_cong [OF w0, of "\<lambda>w. bit w (k + 5)"] that
    by (simp add: bit_push_bit_iff bit_and_iff bit_mask_iff)
  show "c = 0"
  proof (rule poly30_eqI [OF assms(1)])
    fix i :: nat
    assume "i < 30"
    then have "i < 25 \<or> i = 25 \<or> i = 26 \<or> i = 27 \<or> i = 28 \<or> i = 29" by linarith
    then show "bit c i = bit 0 i" using top low by auto
  qed simp_all
qed

lemma poly_shift_inj:
  assumes "poly30 c" and "poly30 d" and "poly_shift c = poly_shift d"
  shows "c = d"
proof -
  have "poly_shift (c XOR d) = 0" by (simp add: poly_shift_xor assms(3))
  moreover have "poly30 (c XOR d)" using assms(1,2) by (simp add: bit_xor_iff)
  ultimately have z: "c XOR d = 0" by (rule poly_shift_0_iff [rotated])
  have "c = (c XOR d) XOR d" by (simp only: xor.assoc xor_self_eq xor.right_neutral)
  then show ?thesis unfolding z by simp
qed

abbreviation symbols :: "bytes \<Rightarrow> bool" where
  "symbols vs \<equiv> list_all (\<lambda>v. unat v < 32) vs"

lemma symbol_take_bit: "unat v < 32 \<longleftrightarrow> take_bit 5 v = v" for v :: byte
  by (simp add: word_unat_eq_iff unsigned_take_bit_eq take_bit_nat_eq_self_iff)

lemma symbol_bits: "unat v < 32 \<Longrightarrow> bit v k \<Longrightarrow> k < 5" for v :: byte
proof -
  assume v: "unat v < 32" and b: "bit v k"
  have "take_bit 5 v = v" using v by (simp only: symbol_take_bit)
  then have "bit (take_bit 5 v) k" using b by simp
  then show "k < 5" by (simp add: bit_take_bit_iff)
qed

lemma polymod_step_xor: "polymod_step (c XOR d) v = polymod_step c v XOR poly_shift d"
  by (simp add: polymod_step_linear poly_shift_xor ac_simps)

lemma polymod_xor:
  "foldl polymod_step (c XOR d) vs = foldl polymod_step c vs XOR (poly_shift ^^ length vs) d"
  by (induction vs arbitrary: c d) (simp_all add: polymod_step_xor funpow_swap1)

lemma polymod_from: "foldl polymod_step c vs = foldl polymod_step 0 vs XOR (poly_shift ^^ length vs) c"
  using polymod_xor [of 0 c vs] by simp

lemma polymod_zeros: "foldl polymod_step c (replicate n 0) = (poly_shift ^^ n) c"
  by (induction n arbitrary: c) (simp_all add: polymod_step_linear funpow_swap1)

lemma polymod_step_30:
  assumes "unat v < 32"
  shows "poly30 (polymod_step c v)"
  using poly_shift_30 [of c] symbol_bits [OF assms, of 30] symbol_bits [OF assms, of 31]
  by (auto simp: polymod_step_linear bit_xor_iff bit_ucast_iff)

lemma polymod_30: "poly30 c \<Longrightarrow> symbols vs \<Longrightarrow> poly30 (foldl polymod_step c vs)"
  by (induction vs arbitrary: c) (simp_all add: polymod_step_30)

lemma poly_shift_pow_30: "poly30 c \<Longrightarrow> poly30 ((poly_shift ^^ n) c)"
  by (induction n) (simp_all add: poly_shift_30)

text \<open>Up to six symbols are packed into the remainder, the first one highest.\<close>

lemma bit_polymod_packed:
  "symbols vs \<Longrightarrow> length vs \<le> 6 \<Longrightarrow>
     bit (foldl polymod_step 0 vs) k \<longleftrightarrow> k < 5 * length vs \<and> bit (vs ! (length vs - 1 - k div 5)) (k mod 5)"
proof (induction vs arbitrary: k rule: rev_induct)
  case Nil
  then show ?case by simp
next
  case (snoc v vs)
  let ?c = "foldl polymod_step 0 vs"
  have IH: "bit ?c j \<longleftrightarrow> j < 5 * length vs \<and> bit (vs ! (length vs - 1 - j div 5)) (j mod 5)" for j
    using snoc by simp
  have v: "unat v < 32" and len: "length vs \<le> 5" using snoc.prems by simp_all
  have "?c AND mask 25 = ?c"
    by (rule bit_word_eqI) (use len in \<open>auto simp: bit_and_iff bit_mask_iff IH\<close>)
  then have s: "polymod_step ?c v = push_bit 5 ?c XOR ucast v"
    by (simp add: polymod_step_linear poly_shift_small mask25)
  show ?case
  proof (cases "k < 5")
    case True
    then show ?thesis
      by (simp add: s bit_xor_iff bit_push_bit_iff bit_ucast_iff nth_append)
  next
    case False
    then have k: "k div 5 = Suc ((k - 5) div 5)" "k mod 5 = (k - 5) mod 5"
      by (simp_all add: div_if mod_if)
    have vk: "\<not> bit v k" using symbol_bits [OF v, of k] False by blast
    have le: "bit w j \<Longrightarrow> j < 32" for w :: "32 word" and j using bit_imp_le_length [of w j] by simp
    have "bit (polymod_step ?c v) k \<longleftrightarrow> k < 32 \<and> bit ?c (k - 5)"
      using vk False by (auto simp: s bit_xor_iff bit_push_bit_iff bit_ucast_iff)
    also have "\<dots> \<longleftrightarrow> k - 5 < 5 * length vs \<and> bit (vs ! (length vs - 1 - (k - 5) div 5)) ((k - 5) mod 5)"
      using len by (auto simp: IH)
    also have "\<dots> \<longleftrightarrow> k < 5 * length (vs @ [v]) \<and> bit ((vs @ [v]) ! (length (vs @ [v]) - 1 - k div 5)) (k mod 5)"
    proof (cases "k - 5 < 5 * length vs")
      case True
      then have "(k - 5) div 5 < length vs" by (simp add: div_less_iff_less_mult mult.commute)
      moreover have "k < 5 * length (vs @ [v])" using True False by simp
      ultimately show ?thesis using True unfolding k by (auto simp: nth_append)
    next
      case f: False
      then have "\<not> k < 5 * length (vs @ [v])" using False by simp
      then show ?thesis using f by blast
    qed
    finally show ?thesis by simp
  qed
qed

definition unpack :: "32 word \<Rightarrow> bytes" where
  "unpack m = map (\<lambda>i. ucast (drop_bit (5 * (5 - i)) m AND 31)) [0..<6]"

lemma mask5: "(31 :: 'a::len word) = mask 5"
  by (simp add: mask_eq_decr_exp)

lemma bit_unpack: "i < 6 \<Longrightarrow> bit (unpack m ! i) k \<longleftrightarrow> k < 5 \<and> bit m (5 * (5 - i) + k)"
  unfolding unpack_def mask5
  by (auto simp: bit_ucast_iff bit_and_iff bit_mask_iff bit_drop_bit_eq dest: bit_imp_le_length)

lemma length_unpack [simp]: "length (unpack m) = 6"
  by (simp add: unpack_def)

lemma symbols_iff: "symbols vs \<longleftrightarrow> (\<forall>i < length vs. \<forall>k. bit (vs ! i) k \<longrightarrow> k < 5)"
proof
  assume "symbols vs"
  then show "\<forall>i < length vs. \<forall>k. bit (vs ! i) k \<longrightarrow> k < 5"
    using symbol_bits by (fastforce simp: list_all_length)
next
  assume a: "\<forall>i < length vs. \<forall>k. bit (vs ! i) k \<longrightarrow> k < 5"
  have "unat (vs ! i) < 32" if "i < length vs" for i
  proof -
    have "take_bit 5 (vs ! i) = vs ! i"
      by (rule bit_word_eqI) (use a that in \<open>auto simp: bit_take_bit_iff\<close>)
    then show ?thesis by (simp only: symbol_take_bit)
  qed
  then show "symbols vs" by (simp add: list_all_length)
qed

lemma symbols_unpack: "symbols (unpack m)"
  by (simp add: symbols_iff bit_unpack)

lemma pack_unpack:
  assumes "poly30 m"
  shows "foldl polymod_step 0 (unpack m) = m"
proof (rule poly30_eqI [OF _ assms])
  show "poly30 (foldl polymod_step 0 (unpack m))"
    by (rule polymod_30) (simp_all add: symbols_unpack)
  fix i :: nat
  assume i: "i < 30"
  then have "i div 5 < 6" by simp
  then have "5 * (5 - (5 - i div 5)) + i mod 5 = i" by simp
  then show "bit (foldl polymod_step 0 (unpack m)) i = bit m i"
    using i \<open>i div 5 < 6\<close> by (simp add: bit_polymod_packed symbols_unpack bit_unpack)
qed

lemma unpack_pack:
  assumes "symbols vs" and "length vs = 6"
  shows "unpack (foldl polymod_step 0 vs) = vs"
proof (rule nth_equalityI)
  show "length (unpack (foldl polymod_step 0 vs)) = length vs" using assms by simp
  fix i
  assume "i < length (unpack (foldl polymod_step 0 vs))"
  then have i: "i < 6" by simp
  show "unpack (foldl polymod_step 0 vs) ! i = vs ! i"
  proof (rule bit_word_eqI)
    fix k :: nat
    show "bit (unpack (foldl polymod_step 0 vs) ! i) k = bit (vs ! i) k"
    proof (cases "k < 5")
      case True
      then have "5 * (5 - i) + k < 30" "(5 * (5 - i) + k) div 5 = 5 - i" "(5 * (5 - i) + k) mod 5 = k"
        using i by (simp_all add: div_mult_self4)
      then show ?thesis using i True assms by (simp add: bit_unpack bit_polymod_packed)
    next
      case False
      then show ?thesis using assms i by (auto simp: bit_unpack symbols_iff)
    qed
  qed
qed

lemma symbols_expand_hrp: "symbols (expand_hrp hrp)"
proof -
  have "unat (drop_bit 5 c) < 32" for c :: byte
    unfolding symbol_take_bit
    by (rule bit_word_eqI) (auto simp: bit_take_bit_iff bit_drop_bit_eq dest: bit_imp_le_length)
  moreover have "unat (c AND 31) < 32" for c :: byte
    by (simp only: symbol_take_bit mask5) (rule bit_word_eqI, auto simp: bit_take_bit_iff bit_and_iff bit_mask_iff)
  ultimately show ?thesis by (auto simp: expand_hrp_def list_all_iff)
qed

lemma xor_right_eq:
  fixes a b c :: "'a::len word"
  shows "a XOR b = c \<longleftrightarrow> a = c XOR b"
proof
  assume "a XOR b = c"
  then have "c XOR b = a XOR (b XOR b)" by (simp only: xor.assoc [symmetric])
  then show "a = c XOR b" by simp
next
  assume "a = c XOR b"
  then have "a XOR b = c XOR (b XOR b)" by (simp only: xor.assoc [symmetric])
  then show "a XOR b = c" by simp
qed

lemma xor_cancel_left:
  fixes a b c :: "'a::len word"
  shows "a XOR b = a XOR c \<longleftrightarrow> b = c"
proof
  assume "a XOR b = a XOR c"
  then have "a XOR (a XOR b) = a XOR (a XOR c)" by simp
  then show "b = c" by (simp only: xor.assoc [symmetric] xor_self_eq xor.left_neutral)
qed simp

lemma polymod_append: "polymod (xs @ ys) = foldl polymod_step 0 ys XOR (poly_shift ^^ length ys) (polymod xs)"
  unfolding polymod_def foldl_append by (rule polymod_from)

lemma poly30_polymod: "symbols vs \<Longrightarrow> poly30 (polymod vs)"
  unfolding polymod_def by (rule polymod_30) (simp_all add: bit_1_iff)

lemma poly30_constant: "encoding_constant e = Inr k \<Longrightarrow> poly30 k"
  by (auto simp: encoding_constant_def bit_1_iff split: if_split_asm)

lemma encoding_constant_Inr: "e \<noteq> INVALID \<Longrightarrow> \<exists>k. encoding_constant e = Inr k"
  by (cases e) (simp_all add: encoding_constant_def)

lemma verify_checksum_iff:
  assumes "encoding_constant e = Inr k"
  shows "verify_checksum hrp values = e \<longleftrightarrow> polymod (expand_hrp hrp @ values) = k"
  using assms by (cases e) (auto simp: verify_checksum_def encoding_constant_def Let_def)

lemma create_checksum_eq:
  assumes "encoding_constant e = Inr k"
  shows "create_checksum hrp values e =
     Inr (unpack ((poly_shift ^^ 6) (polymod (expand_hrp hrp @ values)) XOR k))"
proof -
  have "polymod (expand_hrp hrp @ values @ replicate 6 0) = (poly_shift ^^ 6) (polymod (expand_hrp hrp @ values))"
    by (simp only: polymod_def append_assoc [symmetric] foldl_append [of _ _ _ "replicate 6 0"] polymod_zeros)
  then show ?thesis
    using assms by (simp add: create_checksum_def unpack_def)
qed

text \<open>The created checksum is the one that verifies.\<close>

lemma checksum_iff:
  assumes e: "e \<noteq> INVALID" and v: "symbols values" and ck: "symbols ck" "length ck = 6"
  shows "verify_checksum hrp (values @ ck) = e \<longleftrightarrow> create_checksum hrp values e = Inr ck"
proof -
  obtain k where k: "encoding_constant e = Inr k" using encoding_constant_Inr [OF e] by blast
  define m where "m = (poly_shift ^^ 6) (polymod (expand_hrp hrp @ values))"
  have "poly30 m"
    unfolding m_def by (intro poly_shift_pow_30 poly30_polymod) (simp add: v symbols_expand_hrp)
  then have mk: "poly30 (m XOR k)" using poly30_constant [OF k] by (simp add: bit_xor_iff)
  have "verify_checksum hrp (values @ ck) = e \<longleftrightarrow> foldl polymod_step 0 ck XOR m = k"
    using polymod_append [of "expand_hrp hrp @ values" ck]
    by (simp add: verify_checksum_iff [OF k] ck(2) m_def)
  also have "\<dots> \<longleftrightarrow> foldl polymod_step 0 ck = m XOR k"
    by (rule xor_right_eq [THEN trans]) (simp only: xor.commute)
  also have "\<dots> \<longleftrightarrow> unpack (m XOR k) = ck"
    using pack_unpack [OF mk] unpack_pack [OF ck] by metis
  finally show ?thesis by (simp add: create_checksum_eq [OF k] m_def)
qed

lemma create_checksum_shape:
  "create_checksum hrp values e = Inr ck \<Longrightarrow> symbols ck \<and> length ck = 6 \<and> e \<noteq> INVALID"
proof -
  assume c: "create_checksum hrp values e = Inr ck"
  then obtain k where "encoding_constant e = Inr k" "e \<noteq> INVALID"
    by (auto simp: create_checksum_def encoding_constant_def rbind_Inr_iff split: if_split_asm)
  then show ?thesis using c by (auto simp: create_checksum_eq symbols_unpack)
qed

text \<open>No two strings that differ in one symbol have valid checksums of one encoding.\<close>

lemma one_symbol_detected:
  assumes e: "e \<noteq> INVALID" and v: "symbols (xs @ a # ys)" "symbols (xs @ b # ys)" and ne: "a \<noteq> b"
    and ok: "verify_checksum hrp (xs @ a # ys) = e"
  shows "verify_checksum hrp (xs @ b # ys) \<noteq> e"
proof
  assume ok': "verify_checksum hrp (xs @ b # ys) = e"
  obtain k where k: "encoding_constant e = Inr k" using encoding_constant_Inr [OF e] by blast
  let ?p = "polymod (expand_hrp hrp @ xs)"
  have p: "poly30 ?p" using v by (intro poly30_polymod) (simp add: symbols_expand_hrp)
  have shift_pow_inj: "(poly_shift ^^ n) c = (poly_shift ^^ n) d \<Longrightarrow> poly30 c \<Longrightarrow> poly30 d \<Longrightarrow> c = d" for n c d
  proof (induction n)
    case (Suc n)
    from Suc.prems(1) have "poly_shift ((poly_shift ^^ n) c) = poly_shift ((poly_shift ^^ n) d)" by simp
    then have "(poly_shift ^^ n) c = (poly_shift ^^ n) d"
      by (rule poly_shift_inj [OF poly_shift_pow_30 [OF Suc.prems(2)] poly_shift_pow_30 [OF Suc.prems(3)]])
    then show ?case using Suc.IH Suc.prems(2,3) by blast
  qed simp
  have after: "polymod (expand_hrp hrp @ xs @ c # ys) =
      foldl polymod_step 0 ys XOR (poly_shift ^^ length ys) (polymod_step ?p c)" for c
    using polymod_append [of "expand_hrp hrp @ xs @ [c]" ys] by (simp add: polymod_def)
  have "(poly_shift ^^ length ys) (polymod_step ?p a) = (poly_shift ^^ length ys) (polymod_step ?p b)"
    using trans [OF ok [unfolded verify_checksum_iff [OF k] after] ok' [unfolded verify_checksum_iff [OF k] after, symmetric]]
    by (simp only: xor_cancel_left)
  moreover have "unat a < 32" "unat b < 32" using v by simp_all
  ultimately have "polymod_step ?p a = polymod_step ?p b"
    by (rule shift_pow_inj [OF _ polymod_step_30 polymod_step_30])
  then have "(ucast a :: 32 word) = ucast b"
    unfolding polymod_step_linear by (simp only: xor_cancel_left)
  then have u: "bit (ucast a :: 32 word) j = bit (ucast b :: 32 word) j" for j by simp
  have "a = b"
  proof (rule bit_word_eqI)
    fix j :: nat
    assume "j < LENGTH(8)"
    then show "bit a j = bit b j" using u [of j] by (simp add: bit_ucast_iff)
  qed
  then show False using ne by simp
qed

section \<open>Lemmas on encoding and decoding\<close>

lemma charset_table:
  "\<forall>i \<in> {0..<32}. CHARSET_REV ! unat (CHARSET ! i) = int i \<and> CHARSET ! i \<noteq> 0x31 \<and>
     lc (CHARSET ! i) = CHARSET ! i \<and> 33 \<le> CHARSET ! i \<and> CHARSET ! i \<le> 126 \<and>
     \<not> (0x41 \<le> CHARSET ! i \<and> CHARSET ! i \<le> 0x5a)"
proof -
  have u: "{0..<32} = set [0..<32]" by (simp only: set_upt)
  show ?thesis unfolding u list_all_iff [symmetric] by (simp add: CHARSET_def CHARSET_REV_def lc_def upt_conv_Cons)
qed

definition charset :: "byte \<Rightarrow> byte" where
  "charset v = CHARSET ! unat v"

lemma charset_facts:
  assumes "unat v < 32"
  shows "charset_at v = Inr (charset v)" "CHARSET_REV ! unat (charset v) = int (unat v)"
    "charset v \<noteq> 0x31" "lc (charset v) = charset v" "33 \<le> charset v" "charset v \<le> 126"
    "\<not> (0x41 \<le> charset v \<and> charset v \<le> 0x5a)"
  using bspec [OF charset_table, of "unat v"] assms by (simp_all add: charset_def charset_at_def)

lemma charset_all_symbols: "symbols vs \<Longrightarrow> charset_all vs = Inr (map charset vs)"
  by (induction vs) (simp_all add: charset_facts)

lemma uint_not_minus: "uint w \<noteq> - 1" for w :: "'a::len word"
proof
  assume "uint w = - 1"
  then show False using uint_ge_0 [of w] by simp
qed

lemma rev_all_charset: "symbols vs \<Longrightarrow> rev_all (map charset vs) = Some vs"
  by (induction vs) (simp_all add: charset_facts Let_def uint_not_minus)

definition hrp_char :: "byte \<Rightarrow> bool" where
  "hrp_char c \<longleftrightarrow> 33 \<le> c \<and> c \<le> 126 \<and> \<not> (0x41 \<le> c \<and> c \<le> 0x5a)"

definition hrp_ok :: "bytes \<Rightarrow> bool" where
  "hrp_ok hrp \<longleftrightarrow> hrp \<noteq> [] \<and> list_all hrp_char hrp"

lemma scan_case_lower: "list_all hrp_char s \<Longrightarrow> \<exists>l. scan_case lower upper s = Some (l, upper)"
  by (induction s arbitrary: lower) (auto simp: hrp_char_def)

lemma map_lc_hrp: "list_all hrp_char s \<Longrightarrow> map lc s = s"
  by (induction s) (auto simp: hrp_char_def lc_def)

lemma charset_hrp_char: "symbols vs \<Longrightarrow> list_all hrp_char (map charset vs)"
  by (induction vs) (auto simp: hrp_char_def charset_facts)

lemma rfind_split: "c \<notin> set b \<Longrightarrow> rfind c (a @ c # b) = Some (length a)"
proof -
  assume "c \<notin> set b"
  then have "takeWhile (\<lambda>x. x \<noteq> c) (rev b @ c # rev a) = rev b"
    by (subst takeWhile_append2) auto
  then show ?thesis by (simp add: rfind_def)
qed

lemma rfind_Some:
  assumes "rfind c s = Some pos"
  shows "s = take pos s @ c # drop (pos + 1) s" and "pos < length s"
proof -
  have "c \<in> set s" using assms by (auto simp: rfind_def split: if_split_asm)
  then obtain a b where "s = a @ c # b" "c \<notin> set b" by (metis split_list_last)
  moreover from this have "pos = length a" using assms by (simp add: rfind_split)
  ultimately show "s = take pos s @ c # drop (pos + 1) s" "pos < length s" by simp_all
qed

lemma hrp_no_upper: "list_all hrp_char hrp \<Longrightarrow> list_all (\<lambda>c. c < 0x41 \<or> 0x5a < c) hrp"
  by (auto simp: hrp_char_def list_all_iff)

lemma bech32_encode_Inr:
  assumes "list_all hrp_char hrp" and "symbols vs" and "create_checksum hrp vs e = Inr ck"
  shows "bech32_encode hrp vs e = Inr (hrp @ 0x31 # map charset (vs @ ck))"
  using assms hrp_no_upper [OF assms(1)] create_checksum_shape [OF assms(3)]
  by (simp add: bech32_encode_def charset_all_symbols del: map_append)

lemma bech32_round_trip:
  assumes hrp: "hrp_ok hrp" and vs: "symbols vs" and e: "e \<noteq> INVALID"
  shows "\<exists>str. bech32_encode hrp vs e = Inr str \<and>
     bech32_decode str = \<lparr>dr_encoding = e, dr_hrp = hrp, dr_data = vs\<rparr>"
proof -
  obtain k where k: "encoding_constant e = Inr k" using encoding_constant_Inr [OF e] by blast
  obtain ck where ck: "create_checksum hrp vs e = Inr ck" using create_checksum_eq [OF k] by blast
  then have c: "symbols ck" "length ck = 6" using create_checksum_shape by blast+
  then have ok: "verify_checksum hrp (vs @ ck) = e" using checksum_iff [OF e vs] ck by blast
  have h: "list_all hrp_char hrp" "hrp \<noteq> []" using hrp by (simp_all add: hrp_ok_def)
  have s: "symbols (vs @ ck)" using vs c by simp
  let ?cs = "map charset (vs @ ck)"
  let ?str = "hrp @ 0x31 # ?cs"
  have "list_all hrp_char ?str" using h charset_hrp_char [OF s] by (simp add: hrp_char_def)
  then obtain l where l: "scan_case False False ?str = Some (l, False)" using scan_case_lower by blast
  have "0x31 \<notin> set ?cs" using s by (auto simp: list_all_iff charset_facts dest!: charset_facts(3))
  then have r: "rfind 0x31 ?str = Some (length hrp)" by (rule rfind_split)
  have len: "\<not> length ?str < length hrp + 7" using c by simp
  have "bech32_decode ?str = \<lparr>dr_encoding = e, dr_hrp = hrp, dr_data = vs\<rparr>"
    unfolding bech32_decode_def l r option.case prod.case
    using len h e ok c rev_all_charset [OF s] map_lc_hrp [OF h(1)] by (simp del: map_append)
  then show ?thesis using bech32_encode_Inr [OF h(1) vs ck] by blast
qed

lemma charset_rev_table:
  "\<forall>i \<in> {33..<127}. CHARSET_REV ! i \<noteq> - 1 \<longrightarrow>
     CHARSET_REV ! i \<in> {0..<32} \<and> CHARSET ! nat (CHARSET_REV ! i) = lc (of_nat i)"
proof -
  have u: "{33..<127} = set [33..<127]" by (simp only: set_upt)
  show ?thesis
    unfolding u list_all_iff [symmetric] by (simp add: CHARSET_def CHARSET_REV_def lc_def upt_conv_Cons)
qed

lemma rev_all_Some:
  "rev_all cs = Some vs \<Longrightarrow> \<forall>c \<in> set cs. 33 \<le> c \<and> c \<le> 126 \<Longrightarrow>
     symbols vs \<and> map charset vs = map lc cs \<and> length vs = length cs"
proof (induction cs arbitrary: vs)
  case (Cons c cs)
  let ?r = "CHARSET_REV ! unat c"
  obtain ws where w: "?r \<noteq> - 1" "rev_all cs = Some ws" "vs = of_int ?r # ws"
    using Cons.prems(1) by (auto simp: Let_def split: if_split_asm)
  have "unat c \<in> {33..<127}" using Cons.prems(2) by (auto simp: word_le_nat_alt)
  then have t: "0 \<le> ?r" "?r < 32" "CHARSET ! nat ?r = lc c"
    using charset_rev_table w(1) by auto
  then have "unat (of_int ?r :: byte) = nat ?r"
    by (simp add: unsigned_of_int take_bit_int_eq_self nat_less_iff)
  then show ?case using Cons.IH [OF w(2)] Cons.prems(2) t w(3) by (simp add: charset_def)
qed simp

lemma scan_case_range: "scan_case lower upper s = Some r \<Longrightarrow> c \<in> set s \<Longrightarrow> 33 \<le> c \<and> c \<le> 126"
proof (induction s arbitrary: lower upper)
  case (Cons d s)
  have "(0x61 \<le> d \<and> d \<le> 0x7a \<or> 0x41 \<le> d \<and> d \<le> 0x5a) \<or> 33 \<le> d \<and> d \<le> 126"
    using Cons.prems(1) by (auto simp: not_less split: if_split_asm)
  then have d: "33 \<le> d \<and> d \<le> 126" by (auto simp: word_le_nat_alt)
  from Cons.prems(1) obtain lo up where "scan_case lo up s = Some r" by (auto split: if_split_asm)
  from Cons.IH [OF this] d Cons.prems(2) show ?case by auto
qed simp

lemma hrp_char_lc: "33 \<le> c \<Longrightarrow> c \<le> 126 \<Longrightarrow> hrp_char (lc c)"
proof (cases "0x41 \<le> c \<and> c \<le> 0x5a")
  case True
  then have "unat (c - 0x41 + 0x61) = unat c + 32"
    by (simp add: word_le_nat_alt unat_word_ariths unat_sub)
  then show ?thesis using True by (auto simp: hrp_char_def lc_def word_le_nat_alt)
qed (auto simp: hrp_char_def lc_def)

text \<open>A string that decodes is, in lower case, the encoding of what it decodes to.\<close>

lemma bech32_decode_sound:
  assumes d: "bech32_decode str = r" and e: "dr_encoding r \<noteq> INVALID"
  shows "bech32_encode (dr_hrp r) (dr_data r) (dr_encoding r) = Inr (map lc str) \<and>
    hrp_ok (dr_hrp r) \<and> symbols (dr_data r)"
proof -
  obtain lower upper pos vs where
    sc: "scan_case False False str = Some (lower, upper)" and rf: "rfind 0x31 str = Some pos" and
    pos: "pos \<noteq> 0" "\<not> length str < pos + 7" and rv: "rev_all (drop (pos + 1) str) = Some vs" and
    r: "r = \<lparr>dr_encoding = verify_checksum (map lc (take pos str)) vs, dr_hrp = map lc (take pos str),
          dr_data = take (length vs - 6) vs\<rparr>"
    using d e by (auto simp: bech32_decode_def decode_fail_def Let_def split: option.splits if_split_asm)
  let ?hrp = "map lc (take pos str)"
  have range: "33 \<le> c \<and> c \<le> 126" if "c \<in> set str" for c using scan_case_range [OF sc that] .
  have vs: "symbols vs" "map charset vs = map lc (drop (pos + 1) str)" "length vs = length str - (pos + 1)"
    using rev_all_Some [OF rv] range by (auto dest: in_set_dropD)
  define ck where "ck = drop (length vs - 6) vs"
  have split: "vs = take (length vs - 6) vs @ ck" by (simp add: ck_def)
  have ck: "symbols ck" "length ck = 6" and dat: "symbols (take (length vs - 6) vs)"
    using vs pos unfolding ck_def by (auto simp: list_all_iff dest: in_set_dropD in_set_takeD)
  have "verify_checksum ?hrp (take (length vs - 6) vs @ ck) = dr_encoding r"
    using split by (simp add: r)
  then have cc: "create_checksum ?hrp (take (length vs - 6) vs) (dr_encoding r) = Inr ck"
    using checksum_iff [OF e dat ck] by blast
  have h: "list_all hrp_char ?hrp"
    using range by (auto simp: list_all_iff dest!: in_set_takeD intro: hrp_char_lc)
  have "map lc str = ?hrp @ 0x31 # map lc (drop (pos + 1) str)"
    using arg_cong [OF rfind_Some(1) [OF rf], of "map lc"] by (simp add: lc_def)
  then have "bech32_encode ?hrp (take (length vs - 6) vs) (dr_encoding r) = Inr (map lc str)"
    using bech32_encode_Inr [OF h dat cc] split vs(2) by simp
  moreover have "take pos str \<noteq> []" using pos rfind_Some(2) [OF rf] by auto
  ultimately show ?thesis using h dat by (simp add: r hrp_ok_def)
qed

section \<open>Lemmas on the regrouping of bits\<close>

text \<open>The value of a list of digits in base \<open>2 ^ b\<close>, the most significant first.\<close>

definition digits_val :: "nat \<Rightarrow> bytes \<Rightarrow> int" where
  "digits_val b ds = foldl (\<lambda>n d. n * 2 ^ b + uint d) 0 ds"

definition digits_ok :: "nat \<Rightarrow> bytes \<Rightarrow> bool" where
  "digits_ok b ds \<longleftrightarrow> list_all (\<lambda>d. uint d < 2 ^ b) ds"

lemma digits_val_Nil [simp]: "digits_val b [] = 0"
  by (simp add: digits_val_def)

lemma digits_val_snoc [simp]: "digits_val b (ds @ [d]) = digits_val b ds * 2 ^ b + uint d"
  by (simp add: digits_val_def)

lemma digits_val_inj:
  "length xs = length ys \<Longrightarrow> digits_ok b xs \<Longrightarrow> digits_ok b ys \<Longrightarrow> digits_val b xs = digits_val b ys \<Longrightarrow> xs = ys"
proof (induction xs arbitrary: ys rule: rev_induct)
  case (snoc x xs)
  then obtain zs y where ys: "ys = zs @ [y]" by (metis length_Suc_conv_rev length_append_singleton)
  let ?B = "2 ^ b :: int"
  have eq: "digits_val b xs * ?B + uint x = digits_val b zs * ?B + uint y" using snoc.prems(4) ys by simp
  have lt: "uint x < ?B" "uint y < ?B" using snoc.prems ys by (simp_all add: digits_ok_def)
  have "uint x = uint y" using arg_cong [OF eq, of "\<lambda>n. n mod ?B"] lt by (simp add: mod_pos_pos_trivial)
  moreover from this eq have "digits_val b xs = digits_val b zs" by simp
  ultimately show ?case using snoc ys by (simp add: digits_ok_def word_uint_eq_iff)
qed simp

text \<open>
  The invariant of the loop: the digits written and the pending bits of the accumulator are
  the value read so far.
\<close>

definition cb_inv :: "nat \<Rightarrow> int \<Rightarrow> nat \<Rightarrow> bytes \<Rightarrow> int \<Rightarrow> nat \<Rightarrow> bool" where
  "cb_inv tobits acc bits out N tot \<longleftrightarrow>
     digits_val tobits out * 2 ^ bits + acc mod 2 ^ bits = N \<and> digits_ok tobits out \<and>
     length out * tobits + bits = tot \<and> 0 \<le> acc"

lemma int_and_mask: "x AND (push_bit n 1 - 1) = x mod 2 ^ n" for x :: int
  by (simp add: push_bit_eq_mult take_bit_eq_mod [symmetric] take_bit_eq_mask mask_eq_exp_minus_1)

lemma uint_byte_of_int: "0 \<le> x \<Longrightarrow> x < 2 ^ 8 \<Longrightarrow> uint (of_int x :: byte) = x"
  by (simp add: unsigned_of_int take_bit_int_eq_self)

lemma cb_emit_inv:
  "0 < tobits \<Longrightarrow> tobits \<le> 8 \<Longrightarrow> cb_inv tobits acc bits out N tot \<Longrightarrow>
     cb_emit acc tobits bits out = (bits', out') \<Longrightarrow> cb_inv tobits acc bits' out' N tot \<and> bits' < tobits"
proof (induction acc tobits bits out rule: cb_emit.induct)
  case (1 acc tobits bits out)
  show ?case
  proof (cases "tobits \<le> bits \<and> 0 < tobits")
    case False
    then show ?thesis using "1.prems" by (auto simp: cb_emit.simps [of acc tobits bits out])
  next
    case True
    let ?d = "drop_bit (bits - tobits) acc AND (push_bit tobits 1 - 1)"
    have d: "?d = acc div 2 ^ (bits - tobits) mod 2 ^ tobits" by (simp only: int_and_mask drop_bit_eq_div)
    have "(2::int) ^ tobits \<le> 2 ^ 8" using "1.prems"(2) by (intro power_increasing) simp_all
    moreover have r: "0 \<le> ?d" "?d < 2 ^ tobits" unfolding d by simp_all
    ultimately have u: "uint (of_int ?d :: byte) = ?d" by (intro uint_byte_of_int) linarith+
    let ?b = "bits - tobits"
    have pw: "(2::int) ^ bits = 2 ^ ?b * 2 ^ tobits" using True by (simp add: power_add [symmetric])
    have "acc mod 2 ^ bits = 2 ^ ?b * ?d + acc mod 2 ^ ?b"
      unfolding pw d by (rule zmod_zmult2_eq) simp
    then have "cb_inv tobits acc ?b (out @ [of_int ?d]) N tot"
      using "1.prems"(3) True r u
      by (simp add: cb_inv_def digits_ok_def pw algebra_simps del: push_bit_of_1)
    moreover have "cb_emit acc tobits ?b (out @ [of_int ?d]) = (bits', out')"
      using "1.prems"(4) True by (simp add: cb_emit.simps [of acc tobits bits out])
    ultimately show ?thesis using "1.IH" True "1.prems"(1,2) by blast
  qed
qed

lemma cb_acc_eq:
  assumes "0 \<le> acc" and "uint v < 2 ^ frombits"
  shows "cb_acc frombits tobits acc v = (acc * 2 ^ frombits + uint v) mod 2 ^ (frombits + tobits - 1)"
proof -
  have "uint v AND push_bit frombits acc = 0"
  proof (rule bit_eqI)
    fix n
    have "take_bit frombits (uint v) = uint v" using assms(2) by (simp add: take_bit_int_eq_self)
    then have "bit (uint v) n \<Longrightarrow> n < frombits" by (metis bit_take_bit_iff)
    then show "bit (uint v AND push_bit frombits acc) n = bit 0 n" by (auto simp: bit_and_iff bit_push_bit_iff)
  qed
  then have "push_bit frombits acc OR uint v = push_bit frombits acc + uint v"
    by (metis and.commute disjunctive_add_eq_or)
  then show ?thesis unfolding cb_acc_def int_and_mask by (simp only: push_bit_eq_mult)
qed

lemma cb_acc_small:
  assumes "0 < frombits" "frombits \<le> 8" "tobits \<le> 8" "0 \<le> acc" "uint v < 2 ^ frombits"
  shows "0 \<le> cb_acc frombits tobits acc v \<and> cb_acc frombits tobits acc v < 2 ^ 15 \<and>
    push_bit frombits (cb_acc frombits tobits acc v) < 2 ^ 31"
proof -
  let ?a = "cb_acc frombits tobits acc v"
  have "?a < 2 ^ (frombits + tobits - 1)" and a0: "0 \<le> ?a" using assms by (simp_all add: cb_acc_eq)
  moreover have "(2::int) ^ (frombits + tobits - 1) \<le> 2 ^ 15" using assms by (intro power_increasing) auto
  ultimately have a: "?a < 2 ^ 15" by linarith
  have f: "(2::int) ^ frombits \<le> 2 ^ 8" using assms by (intro power_increasing) auto
  have "?a * 2 ^ frombits \<le> 2 ^ 15 * 2 ^ 8" using a a0 f by (intro mult_mono) auto
  then show ?thesis using a a0 by (simp add: push_bit_eq_mult)
qed

lemma cb_step_inv:
  assumes "0 < tobits" "tobits \<le> 8" "0 < frombits" "uint v < 2 ^ frombits"
    and inv: "cb_inv tobits acc bits out N tot" and b: "bits < tobits"
  shows "cb_inv tobits (cb_acc frombits tobits acc v) (bits + frombits) out (N * 2 ^ frombits + uint v) (tot + frombits)"
proof -
  let ?b = "bits + frombits"
  let ?B = "2 ^ bits :: int" and ?F = "2 ^ frombits :: int"
  have "acc * ?F mod (?B * ?F) = acc mod ?B * ?F" by (rule mod_mult_mult2)
  moreover have "acc mod ?B * ?F + uint v < ?B * ?F"
  proof -
    have "acc mod ?B \<le> ?B - 1" using pos_mod_bound [of ?B acc] by simp
    then have "acc mod ?B * ?F \<le> (?B - 1) * ?F" by (intro mult_right_mono) simp_all
    then show ?thesis using assms(4) by (simp add: left_diff_distrib)
  qed
  moreover have "0 \<le> acc mod ?B * ?F + uint v" by simp
  ultimately have "(acc * ?F + uint v) mod (?B * ?F) = acc mod ?B * ?F + uint v"
    using mod_add_left_eq [of "acc * ?F" "?B * ?F" "uint v"] by (simp only: mod_pos_pos_trivial)
  moreover have "cb_acc frombits tobits acc v mod 2 ^ ?b = (acc * ?F + uint v) mod 2 ^ ?b"
  proof -
    have "(2::int) ^ ?b dvd 2 ^ (frombits + tobits - 1)" using b assms(1) by (intro le_imp_power_dvd) simp
    then show ?thesis
      using inv assms(4) by (simp add: cb_acc_eq cb_inv_def mod_mod_cancel)
  qed
  moreover have "0 \<le> cb_acc frombits tobits acc v"
    using inv assms(4) by (simp add: cb_acc_eq cb_inv_def)
  ultimately show ?thesis
    using inv unfolding cb_inv_def by (auto simp: power_add algebra_simps)
qed

definition digits_from :: "nat \<Rightarrow> int \<Rightarrow> bytes \<Rightarrow> int" where
  "digits_from b N ds = foldl (\<lambda>n d. n * 2 ^ b + uint d) N ds"

lemma cb_loop_inv:
  assumes "0 < tobits" "tobits \<le> 8" "0 < frombits"
  shows "cb_inv tobits acc bits out N tot \<Longrightarrow> bits < tobits \<Longrightarrow> digits_ok frombits vs \<Longrightarrow>
     cb_loop frombits tobits acc bits out vs = (acc', bits', out') \<Longrightarrow>
     cb_inv tobits acc' bits' out' (digits_from frombits N vs) (tot + frombits * length vs) \<and> bits' < tobits"
proof (induction vs arbitrary: acc bits out N tot)
  case Nil
  then show ?case by (simp add: digits_from_def)
next
  case (Cons v vs)
  obtain b2 out2 where e: "cb_emit (cb_acc frombits tobits acc v) tobits (bits + frombits) out = (b2, out2)"
    by fastforce
  have v: "uint v < 2 ^ frombits" "digits_ok frombits vs" using Cons.prems(3) by (simp_all add: digits_ok_def)
  have "cb_inv tobits (cb_acc frombits tobits acc v) b2 out2 (N * 2 ^ frombits + uint v) (tot + frombits) \<and> b2 < tobits"
    by (rule cb_emit_inv [OF assms(1,2) cb_step_inv [OF assms(1,2,3) v(1) Cons.prems(1,2)] e])
  then show ?case
    using Cons.IH [of _ b2 out2] v(2) Cons.prems(4) e by (fastforce simp: digits_from_def algebra_simps)
qed

lemma cb_loop_result:
  assumes "0 < tobits" "tobits \<le> 8" "0 < frombits" and vs: "digits_ok frombits vs"
    and r: "cb_loop frombits tobits 0 0 [] vs = (acc, bits, out)"
  shows "digits_val tobits out * 2 ^ bits + acc mod 2 ^ bits = digits_val frombits vs"
    and "digits_ok tobits out" and "length out * tobits + bits = frombits * length vs" and "bits < tobits" and "0 \<le> acc"
proof -
  have "cb_inv tobits 0 0 [] 0 0" by (simp add: cb_inv_def digits_ok_def)
  from cb_loop_inv [OF assms(1-3) this assms(1) vs r]
  show "digits_val tobits out * 2 ^ bits + acc mod 2 ^ bits = digits_val frombits vs"
    "digits_ok tobits out" "length out * tobits + bits = frombits * length vs" "bits < tobits" "0 \<le> acc"
    by (simp_all add: cb_inv_def digits_from_def digits_val_def)
qed

lemma low_bits_shifted: "bits \<le> n \<Longrightarrow> push_bit (n - bits) acc AND (push_bit n 1 - 1) = acc mod 2 ^ bits * 2 ^ (n - bits)"
  for acc :: int
proof -
  assume "bits \<le> n"
  then have "(2::int) ^ n = 2 ^ bits * 2 ^ (n - bits)" by (simp add: power_add [symmetric])
  then show ?thesis unfolding int_and_mask by (simp only: push_bit_eq_mult mod_mult_mult2)
qed

text \<open>Padding to wider groups, and what comes back from them.\<close>

lemma convertbits_padded:
  assumes "0 < tobits" "tobits \<le> 8" "0 < frombits" "digits_ok frombits vs"
  shows "\<exists>out k. convertbits [] vs frombits tobits True = (True, out) \<and> k < tobits \<and> digits_ok tobits out \<and>
     length out * tobits = frombits * length vs + k \<and> digits_val tobits out = digits_val frombits vs * 2 ^ k"
proof -
  obtain acc bits out where r: "cb_loop frombits tobits 0 0 [] vs = (acc, bits, out)" by (metis prod_cases3)
  note f = cb_loop_result [OF assms r]
  show ?thesis
  proof (cases "bits = 0")
    case True
    then show ?thesis using f assms(1) by (intro exI [of _ out] exI [of _ 0]) (simp add: convertbits_def r)
  next
    case False
    let ?d = "acc mod 2 ^ bits * 2 ^ (tobits - bits)"
    have p: "(2::int) ^ tobits = 2 ^ bits * 2 ^ (tobits - bits)" using f(4) by (simp add: power_add [symmetric])
    define d where "d = ?d"
    have "d < 2 ^ tobits" unfolding d_def p by (intro mult_strict_right_mono) simp_all
    moreover have "0 \<le> d" by (simp add: d_def)
    moreover have "(2::int) ^ tobits \<le> 2 ^ 8" using assms(2) by (intro power_increasing) auto
    ultimately have u: "uint (of_int d :: byte) = d" "d < 2 ^ tobits"
      by (simp_all add: unsigned_of_int take_bit_int_eq_self)
    have "convertbits [] vs frombits tobits True = (True, out @ [of_int d])"
      using False f(4) by (simp add: convertbits_def r low_bits_shifted d_def del: push_bit_of_1 of_int_mult)
    moreover have "digits_ok tobits (out @ [of_int d])" using f(2) u by (simp add: digits_ok_def)
    moreover have "length (out @ [of_int d :: byte]) * tobits = frombits * length vs + (tobits - bits)"
      using f(3,4) by simp
    moreover have "digits_val tobits (out @ [of_int d]) = digits_val frombits vs * 2 ^ (tobits - bits)"
      unfolding digits_val_snoc u(1) f(1) [symmetric] unfolding d_def p by (simp add: algebra_simps)
    ultimately show ?thesis using False f(4) by (intro exI [of _ "out @ [of_int d]"] exI [of _ "tobits - bits"]) simp
  qed
qed

lemma convertbits_round_trip:
  assumes "0 < tobits" "tobits < frombits" "frombits \<le> 8" "digits_ok frombits vs"
  shows "\<exists>out. convertbits [] vs frombits tobits True = (True, out) \<and> digits_ok tobits out \<and>
     convertbits [] out tobits frombits False = (True, vs)"
proof -
  have "tobits \<le> 8" "0 < frombits" using assms by simp_all
  then obtain out k where o: "convertbits [] vs frombits tobits True = (True, out)" "k < tobits" "digits_ok tobits out"
    "length out * tobits = frombits * length vs + k" "digits_val tobits out = digits_val frombits vs * 2 ^ k"
    using convertbits_padded [of tobits frombits vs] assms by blast
  obtain acc bits ws where r: "cb_loop tobits frombits 0 0 [] out = (acc, bits, ws)" by (metis prod_cases3)
  note f = cb_loop_result [OF \<open>0 < frombits\<close> assms(3,1) o(3) r]
  have len: "length ws * frombits + bits = length vs * frombits + k"
    using f(3) o(4) by (simp add: mult.commute)
  have "k < frombits" using o(2) assms(2) by simp
  with len f(4) have "bits = k" by (metis mod_less mod_mult_self3)
  with len \<open>0 < frombits\<close> have lw: "length ws = length vs" by simp
  have e: "digits_val frombits ws * 2 ^ k + acc mod 2 ^ k = digits_val frombits vs * 2 ^ k"
    using f(1) o(5) \<open>bits = k\<close> by simp
  then have "acc mod 2 ^ k = (digits_val frombits vs - digits_val frombits ws) * 2 ^ k"
    by (simp only: left_diff_distrib)
  then have "acc mod 2 ^ k mod 2 ^ k = 0" by (simp only: mod_mult_self2_is_0)
  then have "acc mod 2 ^ k = 0" by (simp only: mod_mod_trivial)
  with e have "digits_val frombits ws = digits_val frombits vs" by simp
  then have "ws = vs" by (rule digits_val_inj [OF lw f(2) assms(4)])
  moreover have "push_bit (frombits - bits) acc AND (push_bit frombits 1 - 1) = 0"
    using f(4) \<open>acc mod 2 ^ k = 0\<close> \<open>bits = k\<close> by (simp add: low_bits_shifted del: push_bit_of_1)
  ultimately have "convertbits [] out tobits frombits False = (True, vs)"
    using \<open>bits = k\<close> o(2) by (simp add: convertbits_def r del: push_bit_of_1)
  then show ?thesis using o by blast
qed

section \<open>Properties\<close>

text \<open>
  Encoded strings decode: for a human-readable part of lower-case printable characters and
  five-bit values, \<open>encode\<close> produces a string that \<open>decode\<close> takes back to the same encoding,
  human-readable part and values.
\<close>

lemma bech32_decodes_what_it_encodes:
  assumes "hrp_ok hrp" and "symbols vs" and "e \<noteq> INVALID"
  shows "\<exists>str. bech32_encode hrp vs e = Inr str \<and>
     bech32_decode str = \<lparr>dr_encoding = e, dr_hrp = hrp, dr_data = vs\<rparr>"
  using assms by (rule bech32_round_trip)

text \<open>
  C21: a string has one reading: whatever \<open>decode\<close> accepts is, in lower case, the string that
  \<open>encode\<close> makes of the decoded parts, checksum included.
\<close>

theorem bech32_decode_is_canonical:
  assumes "bech32_decode str = r" and "dr_encoding r \<noteq> INVALID"
  shows "bech32_encode (dr_hrp r) (dr_data r) (dr_encoding r) = Inr (map lc str) \<and>
    hrp_ok (dr_hrp r) \<and> symbols (dr_data r)"
  using assms by (rule bech32_decode_sound)

theorem bech32_decode_is_canonical_witness:
  "\<exists>str. bech32_encode [0x73] [3] BECH32M = Inr (map lc str) \<and> hrp_ok [0x73]"
proof -
  obtain str where "bech32_decode str = \<lparr>dr_encoding = BECH32M, dr_hrp = [0x73], dr_data = [3]\<rparr>"
    using bech32_round_trip [of "[0x73]" "[3]" BECH32M] by (auto simp: hrp_ok_def hrp_char_def)
  from bech32_decode_is_canonical [OF this] show ?thesis by auto
qed

text \<open>
  C22: the checksum detects every substitution of one symbol: of two strings of values that
  differ in one place at most one verifies under a given encoding.
\<close>

theorem checksum_detects_one_substitution:
  assumes "e \<noteq> INVALID" and "symbols (xs @ a # ys)" and "symbols (xs @ b # ys)" and "a \<noteq> b"
    and "verify_checksum hrp (xs @ a # ys) = e"
  shows "verify_checksum hrp (xs @ b # ys) \<noteq> e"
  using assms by (rule one_symbol_detected)

theorem checksum_detects_one_substitution_witness:
  "\<exists>ck. verify_checksum [0x73] (4 # ck) = BECH32M \<and> verify_checksum [0x73] (5 # ck) \<noteq> BECH32M"
proof -
  obtain k where "encoding_constant BECH32M = Inr k" using encoding_constant_Inr [of BECH32M] by blast
  then obtain ck where ck: "create_checksum [0x73] [4] BECH32M = Inr ck" using create_checksum_eq by blast
  then have c: "symbols ck" "length ck = 6" using create_checksum_shape by blast+
  then have ok: "verify_checksum [0x73] ([] @ 4 # ck) = BECH32M"
    using checksum_iff [of BECH32M "[4]" ck "[0x73]"] ck by simp
  have "symbols ([] @ 4 # ck)" "symbols ([] @ 5 # ck)" "(4 :: byte) \<noteq> 5" using c by simp_all
  from checksum_detects_one_substitution [OF _ this ok] ok show ?thesis by auto
qed

text \<open>
  Regrouping bits with padding and back without gives the original groups, for every pair
  of group sizes up to eight bits in which the inner one is smaller; in particular the
  conversion of address bytes to Bech32 symbols loses nothing.
\<close>

lemma convertbits_and_back:
  assumes "0 < tobits" and "tobits < frombits" and "frombits \<le> 8" and "digits_ok frombits vs"
  shows "\<exists>out. convertbits [] vs frombits tobits True = (True, out) \<and> digits_ok tobits out \<and>
     convertbits [] out tobits frombits False = (True, vs)"
  using assms by (rule convertbits_round_trip)

end
