(* ===== verification/MachineWords.thy ===== *)
theory MachineWords
  imports SparkPrelude
begin

text \<open>
  Machine words as the numeric code uses them: 64-bit limbs (\<open>uint64_t\<close>) and their 128-bit
  products and sums (\<open>uint128_t\<close>), with the facts that read masks, shifts, sums and products as
  integers as long as nothing wraps.
\<close>

definition w128 :: "64 word \<Rightarrow> 128 word" where "w128 x = ucast x"
definition w64 :: "128 word \<Rightarrow> 64 word" where "w64 x = ucast x"

lemma uint_and_mask: "uint (x AND mask n) = uint x mod 2 ^ n"
proof -
  have "uint (x AND mask n) = take_bit n (uint x)"
    by (simp add: take_bit_eq_mask [symmetric] unsigned_take_bit_eq)
  then show ?thesis by (simp only: take_bit_eq_mod)
qed

lemma uint_drop: "uint (drop_bit n x) = uint x div 2 ^ n"
proof -
  have "uint (drop_bit n x) = drop_bit n (uint x)"
    using uint_bounded [of x] by (simp add: unsigned_drop_bit_eq take_bit_int_eq_self)
  then show ?thesis by (simp only: drop_bit_eq_div)
qed

lemma uint_add128:
  fixes x y :: "128 word"
  assumes "uint x = a" and "uint y = b" and "a + b < 2 ^ 128"
  shows "uint (x + y) = a + b"
  using assms uint_ge_0 [of x] uint_ge_0 [of y] by (simp add: uint_word_ariths mod_pos_pos_trivial)

lemma uint_mul128:
  fixes x y :: "128 word"
  assumes "uint x = a" and "uint y = b" and "a * b < 2 ^ 128"
  shows "uint (x * y) = a * b"
  using assms mult_nonneg_nonneg [OF uint_ge_0 [of x] uint_ge_0 [of y]]
  by (simp add: uint_word_ariths mod_pos_pos_trivial)

lemma uint_w128 [simp]: "uint (w128 x) = uint x"
  using uint_bounded [of x] by (simp add: w128_def unsigned_ucast_eq take_bit_int_eq_self)

lemma uint_w64: "uint (w64 x) = uint x mod 2 ^ 64"
  by (simp add: w64_def unsigned_ucast_eq take_bit_eq_mod)

lemma u128_add: "uint x + uint y < 2 ^ 128 \<Longrightarrow> uint (x + y) = uint x + uint y" for x y :: "128 word"
  using uint_add128 [OF refl refl] by blast

lemma u64_add: "uint x + uint y < 2 ^ 64 \<Longrightarrow> uint (x + y) = uint x + uint y" for x y :: "64 word"
  by (simp add: uint_word_ariths mod_pos_pos_trivial)

lemma u64_mul: "uint x = a \<Longrightarrow> uint y = b \<Longrightarrow> 0 \<le> a * b \<Longrightarrow> a * b < 2 ^ 64 \<Longrightarrow> uint (x * y) = a * b" for x y :: "64 word"
  by (simp add: uint_word_ariths mod_pos_pos_trivial)

lemma u64_of_int: "0 \<le> k \<Longrightarrow> k < 2 ^ 64 \<Longrightarrow> uint (of_int k :: 64 word) = k"
  by (simp add: uint_word_of_int_eq take_bit_int_eq_self)

lemma or_zero_iff: "(x OR y) = 0 \<longleftrightarrow> x = 0 \<and> y = 0" for x y :: "'a::len word"
  by (auto simp: bit_eq_iff bit_simps)

lemma u64_bounds: "0 \<le> uint x" "uint x \<le> 2 ^ 64 - 1" for x :: "64 word"
  using uint_bounded [of x] by simp_all

lemma w128_add: "uint (w128 x + w128 y) = uint x + uint y"
  using u64_bounds [of x] u64_bounds [of y] by (intro uint_add128) simp_all

lemma w64_low: "uint (w64 (t AND 0xFFFFFFFFFFFFFFFF)) = uint t mod 2 ^ 64"
proof -
  have m: "(0xFFFFFFFFFFFFFFFF :: 128 word) = mask 64" by (simp add: mask_eq_decr_exp)
  show ?thesis unfolding m by (simp add: uint_w64 uint_and_mask)
qed

lemma mod_shift: "0 \<le> x \<Longrightarrow> x < m \<Longrightarrow> y = x \<or> y = x + m \<Longrightarrow> y mod m = x" for x y m :: int
  by auto

lemma mod_once: "m \<le> x \<Longrightarrow> x < 2 * m \<Longrightarrow> x mod m = x - m" for x m :: int
  by (rule mod_shift) auto

text \<open>The carry of an addition, as C tests for it.\<close>

lemma carry64: "uint (x + y) + 2 ^ 64 * of_bool (x + y < y) = uint x + uint y" for x y :: "64 word"
proof (cases "uint x + uint y < 2 ^ 64")
  case True
  then show ?thesis using u64_bounds [of x] by (simp add: word_less_def u64_add)
next
  case False
  have "uint (x + y) = (uint x + uint y) mod 2 ^ 64" by (simp add: uint_word_ariths)
  also have "\<dots> = uint x + uint y - 2 ^ 64" using False u64_bounds [of x] u64_bounds [of y] by (intro mod_once) simp_all
  finally show ?thesis using u64_bounds [of x] by (simp add: word_less_def)
qed

end
