(* ===== verification/Field5x52.thy ===== *)
theory Field5x52
  imports MachineWords
begin

text \<open>
  \<open>secp256k1/src/field_5x52_impl.h\<close> and \<open>field_5x52_int128_impl.h\<close>: arithmetic modulo the
  field prime on five limbs in base \<open>2 ^ 52\<close>, in the build without \<open>VERIFY\<close> and without
  assembly. A function that updates its argument \<open>r\<close> returns the new element. The magnitude
  that the \<open>VERIFY\<close> build tracks is the predicate \<open>fe_mag\<close>: it bounds the limbs, and the
  lemmas show that with it no limb and no 128-bit accumulator ever wraps.
\<close>

section \<open>Elements\<close>

record secp256k1_fe =
  fe0 :: "64 word"
  fe1 :: "64 word"
  fe2 :: "64 word"
  fe3 :: "64 word"
  fe4 :: "64 word"

record secp256k1_fe_storage =
  st0 :: "64 word"
  st1 :: "64 word"
  st2 :: "64 word"
  st3 :: "64 word"

definition fe_make :: "64 word \<Rightarrow> 64 word \<Rightarrow> 64 word \<Rightarrow> 64 word \<Rightarrow> 64 word \<Rightarrow> secp256k1_fe" where
  "fe_make a b c d e = \<lparr>fe0 = a, fe1 = b, fe2 = c, fe3 = d, fe4 = e\<rparr>"

lemma fe_make_simps [simp]:
  "fe0 (fe_make a b c d e) = a" "fe1 (fe_make a b c d e) = b" "fe2 (fe_make a b c d e) = c"
  "fe3 (fe_make a b c d e) = d" "fe4 (fe_make a b c d e) = e"
  by (simp_all add: fe_make_def)

definition SECP256K1_FE_CONST ::
    "32 word \<Rightarrow> 32 word \<Rightarrow> 32 word \<Rightarrow> 32 word \<Rightarrow> 32 word \<Rightarrow> 32 word \<Rightarrow> 32 word \<Rightarrow> 32 word \<Rightarrow> secp256k1_fe" where
  "SECP256K1_FE_CONST d7 d6 d5 d4 d3 d2 d1 d0 = fe_make
     (ucast d0 OR push_bit 32 (ucast d1 AND 0xFFFFF))
     (drop_bit 20 (ucast d1) OR push_bit 12 (ucast d2) OR push_bit 44 (ucast d3 AND 0xFF))
     (drop_bit 8 (ucast d3) OR push_bit 24 (ucast d4 AND 0xFFFFFFF))
     (drop_bit 28 (ucast d4) OR push_bit 4 (ucast d5) OR push_bit 36 (ucast d6 AND 0xFFFF))
     (drop_bit 16 (ucast d6) OR push_bit 16 (ucast d7))"

section \<open>Normalisation\<close>

abbreviation (input) M52 :: "64 word" where "M52 \<equiv> 0xFFFFFFFFFFFFF"
abbreviation (input) M48 :: "64 word" where "M48 \<equiv> 0x0FFFFFFFFFFFF"

definition secp256k1_fe_normalize :: "secp256k1_fe \<Rightarrow> secp256k1_fe" where
  "secp256k1_fe_normalize r =
     (let t0 = fe0 r; t1 = fe1 r; t2 = fe2 r; t3 = fe3 r; t4 = fe4 r;
          x = drop_bit 48 t4; t4 = t4 AND M48;
          t0 = t0 + x * 0x1000003D1;
          t1 = t1 + drop_bit 52 t0; t0 = t0 AND M52;
          t2 = t2 + drop_bit 52 t1; t1 = t1 AND M52; m = t1;
          t3 = t3 + drop_bit 52 t2; t2 = t2 AND M52; m = m AND t2;
          t4 = t4 + drop_bit 52 t3; t3 = t3 AND M52; m = m AND t3;
          x = drop_bit 48 t4 OR
            (of_bool (t4 = M48) AND of_bool (m = M52) AND of_bool (0xFFFFEFFFFFC2F \<le> t0));
          t0 = t0 + x * 0x1000003D1;
          t1 = t1 + drop_bit 52 t0; t0 = t0 AND M52;
          t2 = t2 + drop_bit 52 t1; t1 = t1 AND M52;
          t3 = t3 + drop_bit 52 t2; t2 = t2 AND M52;
          t4 = t4 + drop_bit 52 t3; t3 = t3 AND M52;
          t4 = t4 AND M48
      in fe_make t0 t1 t2 t3 t4)"

definition secp256k1_fe_normalize_weak :: "secp256k1_fe \<Rightarrow> secp256k1_fe" where
  "secp256k1_fe_normalize_weak r =
     (let t0 = fe0 r; t1 = fe1 r; t2 = fe2 r; t3 = fe3 r; t4 = fe4 r;
          x = drop_bit 48 t4; t4 = t4 AND M48;
          t0 = t0 + x * 0x1000003D1;
          t1 = t1 + drop_bit 52 t0; t0 = t0 AND M52;
          t2 = t2 + drop_bit 52 t1; t1 = t1 AND M52;
          t3 = t3 + drop_bit 52 t2; t2 = t2 AND M52;
          t4 = t4 + drop_bit 52 t3; t3 = t3 AND M52
      in fe_make t0 t1 t2 t3 t4)"

definition secp256k1_fe_normalize_var :: "secp256k1_fe \<Rightarrow> secp256k1_fe" where
  "secp256k1_fe_normalize_var r =
     (let t0 = fe0 r; t1 = fe1 r; t2 = fe2 r; t3 = fe3 r; t4 = fe4 r;
          x = drop_bit 48 t4; t4 = t4 AND M48;
          t0 = t0 + x * 0x1000003D1;
          t1 = t1 + drop_bit 52 t0; t0 = t0 AND M52;
          t2 = t2 + drop_bit 52 t1; t1 = t1 AND M52; m = t1;
          t3 = t3 + drop_bit 52 t2; t2 = t2 AND M52; m = m AND t2;
          t4 = t4 + drop_bit 52 t3; t3 = t3 AND M52; m = m AND t3;
          x = drop_bit 48 t4 OR
            (of_bool (t4 = M48) AND of_bool (m = M52) AND of_bool (0xFFFFEFFFFFC2F \<le> t0))
      in if x \<noteq> 0 then
           (let t0 = t0 + 0x1000003D1;
                t1 = t1 + drop_bit 52 t0; t0 = t0 AND M52;
                t2 = t2 + drop_bit 52 t1; t1 = t1 AND M52;
                t3 = t3 + drop_bit 52 t2; t2 = t2 AND M52;
                t4 = t4 + drop_bit 52 t3; t3 = t3 AND M52;
                t4 = t4 AND M48
            in fe_make t0 t1 t2 t3 t4)
         else fe_make t0 t1 t2 t3 t4)"

definition secp256k1_fe_normalizes_to_zero :: "secp256k1_fe \<Rightarrow> bool" where
  "secp256k1_fe_normalizes_to_zero r =
     (let t0 = fe0 r; t1 = fe1 r; t2 = fe2 r; t3 = fe3 r; t4 = fe4 r;
          x = drop_bit 48 t4; t4 = t4 AND M48;
          t0 = t0 + x * 0x1000003D1;
          t1 = t1 + drop_bit 52 t0; t0 = t0 AND M52; z0 = t0; z1 = t0 XOR 0x1000003D0;
          t2 = t2 + drop_bit 52 t1; t1 = t1 AND M52; z0 = z0 OR t1; z1 = z1 AND t1;
          t3 = t3 + drop_bit 52 t2; t2 = t2 AND M52; z0 = z0 OR t2; z1 = z1 AND t2;
          t4 = t4 + drop_bit 52 t3; t3 = t3 AND M52; z0 = z0 OR t3; z1 = z1 AND t3;
          z0 = z0 OR t4; z1 = z1 AND (t4 XOR 0xF000000000000)
      in z0 = 0 \<or> z1 = M52)"

definition secp256k1_fe_normalizes_to_zero_var :: "secp256k1_fe \<Rightarrow> bool" where
  "secp256k1_fe_normalizes_to_zero_var r =
     (let t0 = fe0 r; t4 = fe4 r;
          x = drop_bit 48 t4;
          t0 = t0 + x * 0x1000003D1;
          z0 = t0 AND M52; z1 = z0 XOR 0x1000003D0
      in if z0 \<noteq> 0 \<and> z1 \<noteq> M52 then False
         else
           let t1 = fe1 r; t2 = fe2 r; t3 = fe3 r;
               t4 = t4 AND M48;
               t1 = t1 + drop_bit 52 t0;
               t2 = t2 + drop_bit 52 t1; t1 = t1 AND M52; z0 = z0 OR t1; z1 = z1 AND t1;
               t3 = t3 + drop_bit 52 t2; t2 = t2 AND M52; z0 = z0 OR t2; z1 = z1 AND t2;
               t4 = t4 + drop_bit 52 t3; t3 = t3 AND M52; z0 = z0 OR t3; z1 = z1 AND t3;
               z0 = z0 OR t4; z1 = z1 AND (t4 XOR 0xF000000000000)
           in z0 = 0 \<or> z1 = M52)"

section \<open>Simple operations\<close>

definition secp256k1_fe_set_int :: "int \<Rightarrow> secp256k1_fe" where
  "secp256k1_fe_set_int a = fe_make (of_int a) 0 0 0 0"

definition secp256k1_fe_is_zero :: "secp256k1_fe \<Rightarrow> bool" where
  "secp256k1_fe_is_zero a \<longleftrightarrow> (fe0 a OR fe1 a OR fe2 a OR fe3 a OR fe4 a) = 0"

definition secp256k1_fe_is_odd :: "secp256k1_fe \<Rightarrow> bool" where
  "secp256k1_fe_is_odd a \<longleftrightarrow> fe0 a AND 1 \<noteq> 0"

definition secp256k1_fe_clear :: secp256k1_fe where
  "secp256k1_fe_clear = fe_make 0 0 0 0 0"

definition secp256k1_fe_cmp_var :: "secp256k1_fe \<Rightarrow> secp256k1_fe \<Rightarrow> int" where
  "secp256k1_fe_cmp_var a b =
     (if fe4 a > fe4 b then 1 else if fe4 a < fe4 b then - 1
      else if fe3 a > fe3 b then 1 else if fe3 a < fe3 b then - 1
      else if fe2 a > fe2 b then 1 else if fe2 a < fe2 b then - 1
      else if fe1 a > fe1 b then 1 else if fe1 a < fe1 b then - 1
      else if fe0 a > fe0 b then 1 else if fe0 a < fe0 b then - 1
      else 0)"

definition secp256k1_fe_negate :: "secp256k1_fe \<Rightarrow> int \<Rightarrow> secp256k1_fe" where
  "secp256k1_fe_negate a m = fe_make
     (0xFFFFEFFFFFC2F * 2 * of_int (m + 1) - fe0 a)
     (0xFFFFFFFFFFFFF * 2 * of_int (m + 1) - fe1 a)
     (0xFFFFFFFFFFFFF * 2 * of_int (m + 1) - fe2 a)
     (0xFFFFFFFFFFFFF * 2 * of_int (m + 1) - fe3 a)
     (0x0FFFFFFFFFFFF * 2 * of_int (m + 1) - fe4 a)"

definition secp256k1_fe_mul_int :: "secp256k1_fe \<Rightarrow> int \<Rightarrow> secp256k1_fe" where
  "secp256k1_fe_mul_int r a =
     fe_make (fe0 r * of_int a) (fe1 r * of_int a) (fe2 r * of_int a) (fe3 r * of_int a) (fe4 r * of_int a)"

definition secp256k1_fe_add :: "secp256k1_fe \<Rightarrow> secp256k1_fe \<Rightarrow> secp256k1_fe" where
  "secp256k1_fe_add r a =
     fe_make (fe0 r + fe0 a) (fe1 r + fe1 a) (fe2 r + fe2 a) (fe3 r + fe3 a) (fe4 r + fe4 a)"

definition secp256k1_fe_cmov :: "secp256k1_fe \<Rightarrow> secp256k1_fe \<Rightarrow> int \<Rightarrow> secp256k1_fe" where
  "secp256k1_fe_cmov r a flag =
     (let mask0 = of_int flag + NOT 0; mask1 = NOT mask0 in fe_make
       ((fe0 r AND mask0) OR (fe0 a AND mask1)) ((fe1 r AND mask0) OR (fe1 a AND mask1))
       ((fe2 r AND mask0) OR (fe2 a AND mask1)) ((fe3 r AND mask0) OR (fe3 a AND mask1))
       ((fe4 r AND mask0) OR (fe4 a AND mask1)))"

definition secp256k1_fe_storage_cmov ::
    "secp256k1_fe_storage \<Rightarrow> secp256k1_fe_storage \<Rightarrow> int \<Rightarrow> secp256k1_fe_storage" where
  "secp256k1_fe_storage_cmov r a flag =
     (let mask0 = of_int flag + NOT 0; mask1 = NOT mask0 in
      \<lparr>st0 = (st0 r AND mask0) OR (st0 a AND mask1), st1 = (st1 r AND mask0) OR (st1 a AND mask1),
       st2 = (st2 r AND mask0) OR (st2 a AND mask1), st3 = (st3 r AND mask0) OR (st3 a AND mask1)\<rparr>)"

definition secp256k1_fe_to_storage :: "secp256k1_fe \<Rightarrow> secp256k1_fe_storage" where
  "secp256k1_fe_to_storage a =
     \<lparr>st0 = fe0 a OR push_bit 52 (fe1 a),
      st1 = drop_bit 12 (fe1 a) OR push_bit 40 (fe2 a),
      st2 = drop_bit 24 (fe2 a) OR push_bit 28 (fe3 a),
      st3 = drop_bit 36 (fe3 a) OR push_bit 16 (fe4 a)\<rparr>"

definition secp256k1_fe_from_storage :: "secp256k1_fe_storage \<Rightarrow> secp256k1_fe" where
  "secp256k1_fe_from_storage a = fe_make
     (st0 a AND M52)
     (drop_bit 52 (st0 a) OR (push_bit 12 (st1 a) AND M52))
     (drop_bit 40 (st1 a) OR (push_bit 24 (st2 a) AND M52))
     (drop_bit 28 (st2 a) OR (push_bit 36 (st3 a) AND M52))
     (drop_bit 16 (st3 a))"

section \<open>Multiplication\<close>

abbreviation (input) fe_M :: "128 word" where "fe_M \<equiv> 0xFFFFFFFFFFFFF"
abbreviation (input) fe_R :: "128 word" where "fe_R \<equiv> 0x1000003D10"

definition secp256k1_fe_mul_inner :: "secp256k1_fe \<Rightarrow> secp256k1_fe \<Rightarrow> secp256k1_fe" where
  "secp256k1_fe_mul_inner a b =
     (let a0 = w128 (fe0 a); a1 = w128 (fe1 a); a2 = w128 (fe2 a); a3 = w128 (fe3 a); a4 = w128 (fe4 a);
          b0 = w128 (fe0 b); b1 = w128 (fe1 b); b2 = w128 (fe2 b); b3 = w128 (fe3 b); b4 = w128 (fe4 b);
          d = a0 * b3 + a1 * b2 + a2 * b1 + a3 * b0;
          c = a4 * b4;
          d = d + (c AND fe_M) * fe_R; c = drop_bit 52 c;
          t3 = w64 (d AND fe_M); d = drop_bit 52 d;
          d = d + (a0 * b4 + a1 * b3 + a2 * b2 + a3 * b1 + a4 * b0);
          d = d + c * fe_R;
          t4 = w64 (d AND fe_M); d = drop_bit 52 d;
          tx = drop_bit 48 t4; t4 = t4 AND drop_bit 4 M52;
          c = a0 * b0;
          d = d + (a1 * b4 + a2 * b3 + a3 * b2 + a4 * b1);
          u0 = w64 (d AND fe_M); d = drop_bit 52 d;
          u0 = push_bit 4 u0 OR tx;
          c = c + w128 u0 * drop_bit 4 fe_R;
          r0 = w64 (c AND fe_M); c = drop_bit 52 c;
          c = c + (a0 * b1 + a1 * b0);
          d = d + (a2 * b4 + a3 * b3 + a4 * b2);
          c = c + (d AND fe_M) * fe_R; d = drop_bit 52 d;
          r1 = w64 (c AND fe_M); c = drop_bit 52 c;
          c = c + (a0 * b2 + a1 * b1 + a2 * b0);
          d = d + (a3 * b4 + a4 * b3);
          c = c + (d AND fe_M) * fe_R; d = drop_bit 52 d;
          r2 = w64 (c AND fe_M); c = drop_bit 52 c;
          c = c + (d * fe_R + w128 t3);
          r3 = w64 (c AND fe_M); c = drop_bit 52 c;
          c = c + w128 t4;
          r4 = w64 c
      in fe_make r0 r1 r2 r3 r4)"

text \<open>
  In the squaring \<open>t3\<close>, \<open>t4\<close>, \<open>tx\<close> and \<open>u0\<close> are signed 64-bit integers, which are
  sign-extended when they meet 128-bit operands, and doubled limbs are 64-bit products.
\<close>

definition s128 :: "64 word \<Rightarrow> 128 word" where "s128 x = scast x"

definition secp256k1_fe_sqr_inner :: "secp256k1_fe \<Rightarrow> secp256k1_fe" where
  "secp256k1_fe_sqr_inner a =
     (let a0 = fe0 a; a1 = fe1 a; a2 = fe2 a; a3 = fe3 a; a4 = fe4 a;
          d = w128 (a0 * 2) * w128 a3 + w128 (a1 * 2) * w128 a2;
          c = w128 a4 * w128 a4;
          d = d + (c AND fe_M) * fe_R; c = drop_bit 52 c;
          t3 = w64 (d AND fe_M); d = drop_bit 52 d;
          a4 = a4 * 2;
          d = d + (w128 a0 * w128 a4 + w128 (a1 * 2) * w128 a3 + w128 a2 * w128 a2);
          d = d + c * fe_R;
          t4 = w64 (d AND fe_M); d = drop_bit 52 d;
          tx = signed_drop_bit 48 t4; t4 = t4 AND drop_bit 4 M52;
          c = w128 a0 * w128 a0;
          d = d + (w128 a1 * w128 a4 + w128 (a2 * 2) * w128 a3);
          u0 = w64 (d AND fe_M); d = drop_bit 52 d;
          u0 = push_bit 4 u0 OR tx;
          c = c + s128 u0 * drop_bit 4 fe_R;
          r0 = w64 (c AND fe_M); c = drop_bit 52 c;
          a0 = a0 * 2;
          c = c + w128 a0 * w128 a1;
          d = d + (w128 a2 * w128 a4 + w128 a3 * w128 a3);
          c = c + (d AND fe_M) * fe_R; d = drop_bit 52 d;
          r1 = w64 (c AND fe_M); c = drop_bit 52 c;
          c = c + (w128 a0 * w128 a2 + w128 a1 * w128 a1);
          d = d + w128 a3 * w128 a4;
          c = c + (d AND fe_M) * fe_R; d = drop_bit 52 d;
          r2 = w64 (c AND fe_M); c = drop_bit 52 c;
          c = c + (d * fe_R + s128 t3);
          r3 = w64 (c AND fe_M); c = drop_bit 52 c;
          c = c + s128 t4;
          r4 = w64 c
      in fe_make r0 r1 r2 r3 r4)"

definition secp256k1_fe_mul :: "secp256k1_fe \<Rightarrow> secp256k1_fe \<Rightarrow> secp256k1_fe" where
  "secp256k1_fe_mul a b = secp256k1_fe_mul_inner a b"

definition secp256k1_fe_sqr :: "secp256k1_fe \<Rightarrow> secp256k1_fe" where
  "secp256k1_fe_sqr a = secp256k1_fe_sqr_inner a"

section \<open>Reading words as integers\<close>

definition fe_val :: "secp256k1_fe \<Rightarrow> int" where
  "fe_val a = uint (fe0 a) + uint (fe1 a) * 2 ^ 52 + uint (fe2 a) * 2 ^ 104 + uint (fe3 a) * 2 ^ 156 + uint (fe4 a) * 2 ^ 208"

definition fe_p :: int where
  "fe_p = 2 ^ 256 - 0x1000003D1"

text \<open>The bound that \<open>secp256k1_fe_verify\<close> checks for an element of magnitude \<open>m\<close>.\<close>

definition fe_mag :: "int \<Rightarrow> secp256k1_fe \<Rightarrow> bool" where
  "fe_mag m a \<longleftrightarrow> uint (fe0 a) \<le> 0xFFFFFFFFFFFFF * 2 * m \<and> uint (fe1 a) \<le> 0xFFFFFFFFFFFFF * 2 * m \<and>
     uint (fe2 a) \<le> 0xFFFFFFFFFFFFF * 2 * m \<and> uint (fe3 a) \<le> 0xFFFFFFFFFFFFF * 2 * m \<and>
     uint (fe4 a) \<le> 0xFFFFFFFFFFFF * 2 * m"

lemma mask52: "(0xFFFFFFFFFFFFF :: 'a::len word) = mask 52"
  by (simp add: mask_eq_decr_exp)
lemma mask48: "(0xFFFFFFFFFFFF :: 'a::len word) = mask 48"
  by (simp add: mask_eq_decr_exp)

lemma uint_lo52: "uint x = a \<Longrightarrow> uint (x AND fe_M) = a mod 2 ^ 52" for x :: "128 word"
  unfolding mask52 uint_and_mask by simp

lemma uint_w64_lo52: "uint x = a \<Longrightarrow> uint (w64 (x AND fe_M)) = a mod 2 ^ 52"
proof -
  assume "uint x = a"
  have "a mod 2 ^ 52 < 2 ^ 64" using pos_mod_bound [of "2 ^ 52" a] by simp
  then show ?thesis by (simp add: uint_w64 uint_lo52 [OF \<open>uint x = a\<close>] mod_pos_pos_trivial)
qed

lemma uint_hi52: "uint x = a \<Longrightarrow> uint (drop_bit 52 x) = a div 2 ^ 52" for x :: "128 word"
  by (simp add: uint_drop)

section \<open>The accumulation\<close>

text \<open>
  Multiplication and squaring differ in how they form the nine products; the accumulation
  and reduction after it is the same, in three kinds of stages: the top products folded
  into limbs 3 and 4, the lowest limb, and twice a middle limb.
\<close>

definition fe_high :: "128 word \<Rightarrow> 128 word \<Rightarrow> 128 word \<Rightarrow> 64 word \<times> 64 word \<times> 64 word \<times> 128 word" where
  "fe_high p3 p4 p8 =
     (let d = p3; c = p8;
          d = d + (c AND fe_M) * fe_R; c = drop_bit 52 c;
          t3 = w64 (d AND fe_M); d = drop_bit 52 d;
          d = d + p4;
          d = d + c * fe_R;
          t4 = w64 (d AND fe_M); d = drop_bit 52 d;
          tx = drop_bit 48 t4; t4 = t4 AND drop_bit 4 M52
      in (t3, t4, tx, d))"

definition fe_low :: "128 word \<Rightarrow> 128 word \<Rightarrow> 64 word \<Rightarrow> 128 word \<Rightarrow> 64 word \<times> 128 word \<times> 128 word" where
  "fe_low d p5 tx p0 =
     (let c = p0; d = d + p5;
          u0 = w64 (d AND fe_M); d = drop_bit 52 d;
          u0 = push_bit 4 u0 OR tx;
          c = c + w128 u0 * drop_bit 4 fe_R;
          r0 = w64 (c AND fe_M); c = drop_bit 52 c
      in (r0, c, d))"

definition fe_step :: "128 word \<Rightarrow> 128 word \<Rightarrow> 128 word \<Rightarrow> 128 word \<Rightarrow> 64 word \<times> 128 word \<times> 128 word" where
  "fe_step c d p q =
     (let c = c + p; d = d + q;
          c = c + (d AND fe_M) * fe_R; d = drop_bit 52 d;
          r = w64 (c AND fe_M); c = drop_bit 52 c
      in (r, c, d))"

definition fe_fold :: "128 word \<Rightarrow> 128 word \<Rightarrow> 128 word \<Rightarrow> 128 word \<Rightarrow> 128 word \<Rightarrow> 128 word \<Rightarrow> 128 word \<Rightarrow>
    128 word \<Rightarrow> 128 word \<Rightarrow> secp256k1_fe" where
  "fe_fold p0 p1 p2 p3 p4 p5 p6 p7 p8 =
     (let (t3, t4, tx, d) = fe_high p3 p4 p8;
          (r0, c, d) = fe_low d p5 tx p0;
          (r1, c, d) = fe_step c d p1 p6;
          (r2, c, d) = fe_step c d p2 p7;
          c = c + (d * fe_R + w128 t3);
          r3 = w64 (c AND fe_M); c = drop_bit 52 c;
          c = c + w128 t4;
          r4 = w64 c
      in fe_make r0 r1 r2 r3 r4)"

lemma split52:
  fixes d :: "128 word"
  obtains q r where "uint d = q * 2 ^ 52 + r" "0 \<le> r" "r \<le> 2 ^ 52 - 1" "0 \<le> q" "uint (d AND fe_M) = r"
    "uint (w64 (d AND fe_M)) = r" "uint (drop_bit 52 d) = q"
proof
  show "uint d = uint d div 2 ^ 52 * 2 ^ 52 + uint d mod 2 ^ 52" by (simp only: div_mult_mod_eq)
  show "uint d mod 2 ^ 52 \<le> 2 ^ 52 - 1" using pos_mod_bound [of "2 ^ 52" "uint d"] by simp
qed (simp_all add: uint_lo52 uint_w64_lo52 uint_hi52 pos_imp_zdiv_nonneg_iff)

lemma u128_mulR: "uint x < 2 ^ 91 \<Longrightarrow> uint (x * fe_R) = uint x * 0x1000003D10" for x :: "128 word"
  using uint_mul128 [of x _ fe_R "0x1000003D10"] by simp

lemma u128_mulR4: "uint x < 2 ^ 91 \<Longrightarrow> uint (x * drop_bit 4 fe_R) = uint x * 0x1000003D1" for x :: "128 word"
  using uint_mul128 [of x _ "drop_bit 4 fe_R" "0x1000003D1"] by simp

lemma fe_step_spec:
  assumes "uint c \<le> 2 ^ 63" "uint d \<le> 2 ^ 64" "uint p \<le> 2 ^ 114" "uint q \<le> 2 ^ k" "k \<le> 113"
  obtains r c' d' l where "fe_step c d p q = (r, c', d')"
    "uint c + uint p + l * 0x1000003D10 = uint c' * 2 ^ 52 + uint r" "uint d + uint q = uint d' * 2 ^ 52 + l"
    "uint r \<le> 2 ^ 52 - 1" "uint c' \<le> 2 ^ 63" "uint d' * 2 ^ 52 \<le> 2 ^ 64 + 2 ^ k"
proof -
  have K: "(2 :: int) ^ k \<le> 2 ^ 113" using assms(5) by (intro power_increasing) simp_all
  have d1: "uint (d + q) = uint d + uint q" using assms K by (intro u128_add) simp
  have c1: "uint (c + p) = uint c + uint p" using assms by (intro u128_add) simp
  obtain d' l where dl: "uint (d + q) = d' * 2 ^ 52 + l" "0 \<le> l" "l \<le> 2 ^ 52 - 1" "0 \<le> d'"
    "uint (d + q AND fe_M) = l" "uint (drop_bit 52 (d + q)) = d'" by (rule split52)
  have m: "uint ((d + q AND fe_M) * fe_R) = l * 0x1000003D10" using dl by (subst u128_mulR) simp_all
  let ?c = "c + p + (d + q AND fe_M) * fe_R"
  have c2: "uint ?c = uint c + uint p + l * 0x1000003D10"
    using assms dl(3) by (subst u128_add) (simp_all add: m c1)
  obtain c' r where cr: "uint ?c = c' * 2 ^ 52 + r" "0 \<le> r" "r \<le> 2 ^ 52 - 1" "0 \<le> c'"
    "uint (w64 (?c AND fe_M)) = r" "uint (drop_bit 52 ?c) = c'" by (rule split52)
  have "c' \<le> 2 ^ 63" using cr(1,2) c2 assms dl(3) by simp
  moreover have "d' * 2 ^ 52 \<le> 2 ^ 64 + 2 ^ k" using dl d1 assms by simp
  ultimately show ?thesis
    using dl cr c2 d1 that [of "w64 (?c AND fe_M)" "drop_bit 52 ?c" "drop_bit 52 (d + q)" l]
    by (simp add: fe_step_def Let_def)
qed

lemma fe_high_spec:
  assumes "uint p3 \<le> 2 ^ 114" "uint p4 \<le> 2 ^ 115" "uint p8 \<le> 2 ^ 105"
  obtains t3 t4 tx d cl c2 d3 where "fe_high p3 p4 p8 = (t3, t4, tx, d)"
    "uint p8 = c2 * 2 ^ 52 + cl" "uint p3 + cl * 0x1000003D10 = d3 * 2 ^ 52 + uint t3"
    "d3 + uint p4 + c2 * 0x1000003D10 = uint d * 2 ^ 52 + (uint tx * 2 ^ 48 + uint t4)"
    "uint t3 \<le> 2 ^ 52 - 1" "uint t4 \<le> 2 ^ 48 - 1" "uint tx \<le> 15" "uint d \<le> 2 ^ 64"
proof -
  obtain c2 cl where c: "uint p8 = c2 * 2 ^ 52 + cl" "0 \<le> cl" "cl \<le> 2 ^ 52 - 1" "0 \<le> c2"
    "uint (p8 AND fe_M) = cl" "uint (drop_bit 52 p8) = c2" by (rule split52)
  let ?d2 = "p3 + (p8 AND fe_M) * fe_R"
  have d2: "uint ?d2 = uint p3 + cl * 0x1000003D10"
    using assms c by (subst u128_add) (simp_all add: u128_mulR)
  obtain d3 t3 where d3: "uint ?d2 = d3 * 2 ^ 52 + t3" "0 \<le> t3" "t3 \<le> 2 ^ 52 - 1" "0 \<le> d3"
    "uint (w64 (?d2 AND fe_M)) = t3" "uint (drop_bit 52 ?d2) = d3" by (rule split52)
  let ?d4 = "drop_bit 52 ?d2 + p4 + drop_bit 52 p8 * fe_R"
  have "d3 \<le> 2 ^ 63" using d3 d2 assms c by simp
  moreover have c2: "c2 \<le> 2 ^ 53" using c assms by simp
  ultimately have d4: "uint ?d4 = d3 + uint p4 + c2 * 0x1000003D10"
    using assms c d3 by (subst u128_add; subst u128_add) (simp_all add: u128_mulR)
  obtain d5 t4 where d5: "uint ?d4 = d5 * 2 ^ 52 + t4" "0 \<le> t4" "t4 \<le> 2 ^ 52 - 1" "0 \<le> d5"
    "uint (w64 (?d4 AND fe_M)) = t4" "uint (drop_bit 52 ?d4) = d5" by (rule split52)
  have "d5 \<le> 2 ^ 64" using d5 d4 \<open>d3 \<le> 2 ^ 63\<close> c2 assms by simp
  let ?t = "w64 (?d4 AND fe_M)"
  have tx: "uint (drop_bit 48 ?t) = t4 div 2 ^ 48" by (simp add: uint_drop d5)
  have m: "drop_bit 4 M52 = mask 48" by (simp add: mask_eq_decr_exp)
  have s4: "uint (?t AND drop_bit 4 M52) = t4 mod 2 ^ 48" unfolding m uint_and_mask d5(5) ..
  have "t4 = t4 div 2 ^ 48 * 2 ^ 48 + t4 mod 2 ^ 48" by (simp only: div_mult_mod_eq)
  moreover have "t4 mod 2 ^ 48 \<le> 2 ^ 48 - 1" using pos_mod_bound [of "2 ^ 48" t4] by simp
  moreover have "t4 div 2 ^ 48 \<le> 15" using d5(3) by simp
  ultimately show ?thesis
    using c d3 d2 d4 d5 tx s4 \<open>d5 \<le> 2 ^ 64\<close>
      that [of "w64 (?d2 AND fe_M)" "?t AND drop_bit 4 M52" "drop_bit 48 ?t" "drop_bit 52 ?d4" c2 cl d3]
    by (simp add: fe_high_def Let_def)
qed


lemma shift4_or:
  fixes u t :: "64 word"
  assumes "uint u < 2 ^ 52" "uint t \<le> 15"
  shows "uint (push_bit 4 u OR t) = uint u * 16 + uint t"
proof -
  have t: "t = t AND mask 4"
    by (rule word_uint_eqI, unfold uint_and_mask) (use assms in \<open>simp add: mod_pos_pos_trivial\<close>)
  have "push_bit 4 u AND (t AND mask 4) = 0"
    by (rule bit_eqI) (auto simp: bit_simps)
  then have "push_bit 4 u AND t = 0" using t by simp
  then have "push_bit 4 u OR t = push_bit 4 u + t" by (metis word_plus_and_or add_0)
  moreover have "uint (push_bit 4 u) = uint u * 16"
    using assms by (simp add: push_bit_eq_mult uint_word_ariths mod_pos_pos_trivial mult.commute)
  ultimately show ?thesis using assms by (simp add: uint_word_ariths mod_pos_pos_trivial)
qed

lemma fe_low_spec:
  assumes "uint d \<le> 2 ^ 64" "uint p5 \<le> 2 ^ 114" "uint tx \<le> 15" "uint p0 \<le> 2 ^ 112"
  obtains r0 c d' u where "fe_low d p5 tx p0 = (r0, c, d')"
    "uint d + uint p5 = uint d' * 2 ^ 52 + u"
    "uint p0 + (u * 16 + uint tx) * 0x1000003D1 = uint c * 2 ^ 52 + uint r0"
    "uint r0 \<le> 2 ^ 52 - 1" "uint c \<le> 2 ^ 63" "uint d' \<le> 2 ^ 64"
proof -
  have d1: "uint (d + p5) = uint d + uint p5" using assms by (intro u128_add) simp
  obtain d' u where du: "uint (d + p5) = d' * 2 ^ 52 + u" "0 \<le> u" "u \<le> 2 ^ 52 - 1" "0 \<le> d'"
    "uint (w64 (d + p5 AND fe_M)) = u" "uint (drop_bit 52 (d + p5)) = d'" by (rule split52)
  let ?u = "push_bit 4 (w64 (d + p5 AND fe_M)) OR tx"
  have u: "uint ?u = u * 16 + uint tx" using du assms by (subst shift4_or) simp_all
  let ?c = "p0 + w128 ?u * drop_bit 4 fe_R"
  have m: "uint (w128 ?u * drop_bit 4 fe_R) = (u * 16 + uint tx) * 0x1000003D1"
    using du(3) assms by (subst u128_mulR4) (simp_all add: u)
  have c: "uint ?c = uint p0 + (u * 16 + uint tx) * 0x1000003D1"
    using assms du(3) by (subst u128_add) (simp_all only: m, simp_all)
  obtain c' r where cr: "uint ?c = c' * 2 ^ 52 + r" "0 \<le> r" "r \<le> 2 ^ 52 - 1" "0 \<le> c'"
    "uint (w64 (?c AND fe_M)) = r" "uint (drop_bit 52 ?c) = c'" by (rule split52)
  have "c' \<le> 2 ^ 63" using cr(1,2) c assms du(3) by simp
  moreover have "d' \<le> 2 ^ 64" using du d1 assms by simp
  ultimately show ?thesis
    using du cr c d1 that [of "w64 (?c AND fe_M)" "drop_bit 52 ?c" "drop_bit 52 (d + p5)" u]
    by (simp only: fe_low_def Let_def)
qed

lemma fe_fold_value:
  fixes P0 :: int
  assumes "P8 = c2 * 2 ^ 52 + cl" "P3 + cl * 0x1000003D10 = d3 * 2 ^ 52 + t3"
    "d3 + P4 + c2 * 0x1000003D10 = d4 * 2 ^ 52 + (tx * 2 ^ 48 + t4)"
    "d4 + P5 = d5 * 2 ^ 52 + u" "P0 + (u * 16 + tx) * 0x1000003D1 = c0 * 2 ^ 52 + r0"
    "c0 + P1 + l1 * 0x1000003D10 = c1 * 2 ^ 52 + r1" "d5 + P6 = d6 * 2 ^ 52 + l1"
    "c1 + P2 + l2 * 0x1000003D10 = cc * 2 ^ 52 + r2" "d6 + P7 = d7 * 2 ^ 52 + l2"
    "cc + d7 * 0x1000003D10 + t3 = c3 * 2 ^ 52 + r3"
  shows "P0 + P1 * 2 ^ 52 + P2 * 2 ^ 104 + P3 * 2 ^ 156 + P4 * 2 ^ 208 + P5 * 2 ^ 260 + P6 * 2 ^ 312 +
      P7 * 2 ^ 364 + P8 * 2 ^ 416 =
    r0 + r1 * 2 ^ 52 + r2 * 2 ^ 104 + r3 * 2 ^ 156 + (c3 + t4) * 2 ^ 208 +
      (tx + 16 * (u + l1 * 2 ^ 52 + l2 * 2 ^ 104 + d7 * 2 ^ 156 + cl * 2 ^ 156 + c2 * 2 ^ 208)) * fe_p"
  using assms unfolding fe_p_def by simp

lemma fe_fold_spec:
  assumes "uint p0 \<le> 2 ^ 112" "uint p1 \<le> 2 ^ 113" "uint p2 \<le> 2 ^ 114" "uint p3 \<le> 2 ^ 114"
    "uint p4 \<le> 2 ^ 115" "uint p5 \<le> 2 ^ 114" "uint p6 \<le> 2 ^ 113" "uint p7 \<le> 2 ^ 109" "uint p8 \<le> 2 ^ 104"
  shows "fe_mag 1 (fe_fold p0 p1 p2 p3 p4 p5 p6 p7 p8)"
    and "\<exists>Q. uint p0 + uint p1 * 2 ^ 52 + uint p2 * 2 ^ 104 + uint p3 * 2 ^ 156 + uint p4 * 2 ^ 208 +
      uint p5 * 2 ^ 260 + uint p6 * 2 ^ 312 + uint p7 * 2 ^ 364 + uint p8 * 2 ^ 416 =
      fe_val (fe_fold p0 p1 p2 p3 p4 p5 p6 p7 p8) + Q * fe_p"
proof -
  obtain t3 t4 tx d cl c2 d3 where h: "fe_high p3 p4 p8 = (t3, t4, tx, d)"
    "uint p8 = c2 * 2 ^ 52 + cl" "uint p3 + cl * 0x1000003D10 = d3 * 2 ^ 52 + uint t3"
    "d3 + uint p4 + c2 * 0x1000003D10 = uint d * 2 ^ 52 + (uint tx * 2 ^ 48 + uint t4)"
    "uint t3 \<le> 2 ^ 52 - 1" "uint t4 \<le> 2 ^ 48 - 1" "uint tx \<le> 15" "uint d \<le> 2 ^ 64"
    by (rule fe_high_spec [of p3 p4 p8]) (use assms in simp_all)
  obtain r0 c d5 u where l: "fe_low d p5 tx p0 = (r0, c, d5)"
    "uint d + uint p5 = uint d5 * 2 ^ 52 + u"
    "uint p0 + (u * 16 + uint tx) * 0x1000003D1 = uint c * 2 ^ 52 + uint r0"
    "uint r0 \<le> 2 ^ 52 - 1" "uint c \<le> 2 ^ 63" "uint d5 \<le> 2 ^ 64"
    by (rule fe_low_spec [of d p5 tx p0]) (use assms h in simp_all)
  obtain r1 c1 d6 l1 where s1: "fe_step c d5 p1 p6 = (r1, c1, d6)"
    "uint c + uint p1 + l1 * 0x1000003D10 = uint c1 * 2 ^ 52 + uint r1" "uint d5 + uint p6 = uint d6 * 2 ^ 52 + l1"
    "uint r1 \<le> 2 ^ 52 - 1" "uint c1 \<le> 2 ^ 63" "uint d6 * 2 ^ 52 \<le> 2 ^ 64 + 2 ^ 113"
    by (rule fe_step_spec [of c d5 p1 p6 113]) (use assms l in simp_all)
  obtain r2 cc d7 l2 where s2: "fe_step c1 d6 p2 p7 = (r2, cc, d7)"
    "uint c1 + uint p2 + l2 * 0x1000003D10 = uint cc * 2 ^ 52 + uint r2" "uint d6 + uint p7 = uint d7 * 2 ^ 52 + l2"
    "uint r2 \<le> 2 ^ 52 - 1" "uint cc \<le> 2 ^ 63" "uint d7 * 2 ^ 52 \<le> 2 ^ 64 + 2 ^ 109"
    by (rule fe_step_spec [of c1 d6 p2 p7 109]) (use assms s1 in simp_all)
  have d7: "uint d7 \<le> 2 ^ 57 + 2 ^ 12" using s2(6) by simp
  let ?c = "cc + (d7 * fe_R + w128 t3)"
  have dR: "uint (d7 * fe_R) = uint d7 * 0x1000003D10" using d7 by (intro u128_mulR) simp
  have dRt: "uint (d7 * fe_R + w128 t3) = uint d7 * 0x1000003D10 + uint t3"
    using d7 h(5) by (subst u128_add) (simp_all add: dR)
  have c: "uint ?c = uint cc + uint d7 * 0x1000003D10 + uint t3"
    using d7 h(5) s2(5) by (subst u128_add) (simp_all add: dRt)
  obtain c3 r3 where cr: "uint ?c = c3 * 2 ^ 52 + r3" "0 \<le> r3" "r3 \<le> 2 ^ 52 - 1" "0 \<le> c3"
    "uint (w64 (?c AND fe_M)) = r3" "uint (drop_bit 52 ?c) = c3" by (rule split52)
  have c3: "c3 \<le> 2 ^ 42" using cr(1,2) c d7 h(5) s2(5) by simp
  have "uint (drop_bit 52 ?c + w128 t4) = c3 + uint t4" using c3 h(6) cr(6) by (subst u128_add) simp_all
  then have r4: "uint (w64 (drop_bit 52 ?c + w128 t4)) = c3 + uint t4"
    using c3 h(6) cr(4) uint_ge_0 [of t4] by (simp add: uint_w64 mod_pos_pos_trivial)
  have f: "fe_fold p0 p1 p2 p3 p4 p5 p6 p7 p8 =
      fe_make r0 r1 r2 (w64 (?c AND fe_M)) (w64 (drop_bit 52 ?c + w128 t4))"
    by (simp only: fe_fold_def h(1) l(1) s1(1) s2(1) Let_def prod.case)
  show "fe_mag 1 (fe_fold p0 p1 p2 p3 p4 p5 p6 p7 p8)"
    using l(4) s1(4) s2(4) cr(3) c3 h(6) by (simp add: f fe_mag_def r4 cr(5))
  show "\<exists>Q. uint p0 + uint p1 * 2 ^ 52 + uint p2 * 2 ^ 104 + uint p3 * 2 ^ 156 + uint p4 * 2 ^ 208 +
      uint p5 * 2 ^ 260 + uint p6 * 2 ^ 312 + uint p7 * 2 ^ 364 + uint p8 * 2 ^ 416 =
      fe_val (fe_fold p0 p1 p2 p3 p4 p5 p6 p7 p8) + Q * fe_p"
    unfolding f fe_val_def fe_make_simps r4 cr(5)
    by (rule exI, rule fe_fold_value [OF h(2,3,4) l(2,3) s1(2,3) s2(2,3) trans [OF c [symmetric] cr(1)]])
qed

section \<open>Multiplication and squaring are products modulo the prime\<close>

lemma mul_inner_fold: "secp256k1_fe_mul_inner a b =
  (let a0 = w128 (fe0 a); a1 = w128 (fe1 a); a2 = w128 (fe2 a); a3 = w128 (fe3 a); a4 = w128 (fe4 a);
       b0 = w128 (fe0 b); b1 = w128 (fe1 b); b2 = w128 (fe2 b); b3 = w128 (fe3 b); b4 = w128 (fe4 b)
   in fe_fold (a0 * b0) (a0 * b1 + a1 * b0) (a0 * b2 + a1 * b1 + a2 * b0)
     (a0 * b3 + a1 * b2 + a2 * b1 + a3 * b0) (a0 * b4 + a1 * b3 + a2 * b2 + a3 * b1 + a4 * b0)
     (a1 * b4 + a2 * b3 + a3 * b2 + a4 * b1) (a2 * b4 + a3 * b3 + a4 * b2) (a3 * b4 + a4 * b3) (a4 * b4))"
  by (simp only: secp256k1_fe_mul_inner_def fe_fold_def fe_high_def fe_low_def fe_step_def Let_def prod.case)

text \<open>The signed variables of the squaring never have their sign bit set.\<close>

lemma s128_w128: "\<not> bit x 63 \<Longrightarrow> s128 x = w128 x"
  unfolding s128_def w128_def
proof (rule bit_eqI)
  fix n assume "\<not> bit x 63"
  moreover have "bit x n \<Longrightarrow> n < 64" using bit_imp_le_length [of x n] by simp
  ultimately show "bit (scast x :: 128 word) n = bit (ucast x :: 128 word) n"
    by (cases "n = 63") (auto simp: bit_simps min_def)
qed

lemma w64_lo52: "w64 (d AND fe_M) = w64 d AND mask 52"
  unfolding w64_def mask52 by (rule bit_eqI) (auto simp: bit_simps)

lemma drop4_M52: "drop_bit 4 M52 = mask 48" by (simp add: mask_eq_decr_exp)

lemma sqr_signed:
  "signed_drop_bit 48 (w64 (d AND fe_M)) = drop_bit 48 (w64 (d AND fe_M))"
  "s128 (w64 (d AND fe_M)) = w128 (w64 (d AND fe_M))"
  "s128 (x AND drop_bit 4 M52) = w128 (x AND drop_bit 4 M52)"
  "s128 (push_bit 4 (w64 (d AND fe_M)) OR drop_bit 48 (w64 (e AND fe_M))) =
    w128 (push_bit 4 (w64 (d AND fe_M)) OR drop_bit 48 (w64 (e AND fe_M)))"
proof -
  show "signed_drop_bit 48 (w64 (d AND fe_M)) = drop_bit 48 (w64 (d AND fe_M))"
    unfolding w64_lo52 by (rule bit_eqI) (auto simp: bit_simps)
qed (rule s128_w128, simp add: w64_lo52 drop4_M52 bit_simps)+

lemma sqr_inner_fold: "secp256k1_fe_sqr_inner a =
  (let a0 = fe0 a; a1 = fe1 a; a2 = fe2 a; a3 = fe3 a; a4 = fe4 a
   in fe_fold (w128 a0 * w128 a0) (w128 (a0 * 2) * w128 a1) (w128 (a0 * 2) * w128 a2 + w128 a1 * w128 a1)
     (w128 (a0 * 2) * w128 a3 + w128 (a1 * 2) * w128 a2)
     (w128 a0 * w128 (a4 * 2) + w128 (a1 * 2) * w128 a3 + w128 a2 * w128 a2)
     (w128 a1 * w128 (a4 * 2) + w128 (a2 * 2) * w128 a3) (w128 a2 * w128 (a4 * 2) + w128 a3 * w128 a3)
     (w128 a3 * w128 (a4 * 2)) (w128 a4 * w128 a4))"
  by (simp only: secp256k1_fe_sqr_inner_def fe_fold_def fe_high_def fe_low_def fe_step_def Let_def prod.case
      sqr_signed)

text \<open>Reading a sum or a product of 128-bit words, with a bound that excludes wrapping.\<close>

lemma u128_plus:
  fixes x y :: "128 word"
  assumes "uint x = v \<and> v \<le> m" "uint y = w \<and> w \<le> n" "m + n < 2 ^ 128"
  shows "uint (x + y) = v + w \<and> v + w \<le> m + n"
  using assms by (simp add: u128_add)

lemma u128_times:
  assumes "uint x \<le> m" "uint y \<le> n" "m * n < 2 ^ 128"
  shows "uint (w128 x * w128 y) = uint x * uint y \<and> uint x * uint y \<le> m * n"
proof -
  have "0 \<le> m" using assms(1) uint_ge_0 [of x] by linarith
  then have "uint x * uint y \<le> m * n" using assms by (intro mult_mono) auto
  then show ?thesis using assms(3) uint_mul128 [OF uint_w128 uint_w128, of x y] by simp
qed

lemma u128_ll: "uint x \<le> 2 ^ 56 \<Longrightarrow> uint y \<le> 2 ^ 56 \<Longrightarrow> uint (w128 x * w128 y) = uint x * uint y \<and> uint x * uint y \<le> 2 ^ 112"
  using u128_times [of x "2 ^ 56" y "2 ^ 56"] by simp
lemma u128_lt: "uint x \<le> 2 ^ 56 \<Longrightarrow> uint y \<le> 2 ^ 52 \<Longrightarrow> uint (w128 x * w128 y) = uint x * uint y \<and> uint x * uint y \<le> 2 ^ 108"
  using u128_times [of x "2 ^ 56" y "2 ^ 52"] by simp
lemma u128_tl: "uint x \<le> 2 ^ 52 \<Longrightarrow> uint y \<le> 2 ^ 56 \<Longrightarrow> uint (w128 x * w128 y) = uint x * uint y \<and> uint x * uint y \<le> 2 ^ 108"
  using u128_times [of x "2 ^ 52" y "2 ^ 56"] by simp
lemma u128_tt: "uint x \<le> 2 ^ 52 \<Longrightarrow> uint y \<le> 2 ^ 52 \<Longrightarrow> uint (w128 x * w128 y) = uint x * uint y \<and> uint x * uint y \<le> 2 ^ 104"
  using u128_times [of x "2 ^ 52" y "2 ^ 52"] by simp

lemma fe_mag_limbs:
  assumes "fe_mag 8 a"
  shows "uint (fe0 a) \<le> 2 ^ 56" "uint (fe1 a) \<le> 2 ^ 56" "uint (fe2 a) \<le> 2 ^ 56" "uint (fe3 a) \<le> 2 ^ 56"
    "uint (fe4 a) \<le> 2 ^ 52"
  using assms by (auto simp: fe_mag_def)

lemma fe_fold_reads:
  assumes "uint p0 = P0 \<and> P0 \<le> k0" "uint p1 = P1 \<and> P1 \<le> k1" "uint p2 = P2 \<and> P2 \<le> k2"
    "uint p3 = P3 \<and> P3 \<le> k3" "uint p4 = P4 \<and> P4 \<le> k4" "uint p5 = P5 \<and> P5 \<le> k5"
    "uint p6 = P6 \<and> P6 \<le> k6" "uint p7 = P7 \<and> P7 \<le> k7" "uint p8 = P8 \<and> P8 \<le> k8"
    and "k0 \<le> 2 ^ 112" "k1 \<le> 2 ^ 113" "k2 \<le> 2 ^ 114" "k3 \<le> 2 ^ 114" "k4 \<le> 2 ^ 115" "k5 \<le> 2 ^ 114"
    "k6 \<le> 2 ^ 113" "k7 \<le> 2 ^ 109" "k8 \<le> 2 ^ 104"
  shows "fe_mag 1 (fe_fold p0 p1 p2 p3 p4 p5 p6 p7 p8) \<and>
    (\<exists>Q. P0 + P1 * 2 ^ 52 + P2 * 2 ^ 104 + P3 * 2 ^ 156 + P4 * 2 ^ 208 + P5 * 2 ^ 260 + P6 * 2 ^ 312 +
      P7 * 2 ^ 364 + P8 * 2 ^ 416 = fe_val (fe_fold p0 p1 p2 p3 p4 p5 p6 p7 p8) + Q * fe_p)"
proof -
  have e: "P0 = uint p0" "P1 = uint p1" "P2 = uint p2" "P3 = uint p3" "P4 = uint p4" "P5 = uint p5" "P6 = uint p6" "P7 = uint p7" "P8 = uint p8"
    using assms(1-9) by simp_all
  have b: "uint p0 \<le> 2 ^ 112" "uint p1 \<le> 2 ^ 113" "uint p2 \<le> 2 ^ 114" "uint p3 \<le> 2 ^ 114" "uint p4 \<le> 2 ^ 115" "uint p5 \<le> 2 ^ 114" "uint p6 \<le> 2 ^ 113" "uint p7 \<le> 2 ^ 109" "uint p8 \<le> 2 ^ 104"
    using assms unfolding e by linarith+
  show ?thesis unfolding e using fe_fold_spec [OF b] by blast
qed

lemma mul_inner_spec:
  assumes "fe_mag 8 a" "fe_mag 8 b"
  shows "fe_mag 1 (secp256k1_fe_mul_inner a b) \<and>
    (\<exists>Q. fe_val a * fe_val b = fe_val (secp256k1_fe_mul_inner a b) + Q * fe_p)"
proof -
  let ?s = "uint (fe0 a) * uint (fe0 b) + (uint (fe0 a) * uint (fe1 b) + uint (fe1 a) * uint (fe0 b)) * 2 ^ 52 +
    (uint (fe0 a) * uint (fe2 b) + uint (fe1 a) * uint (fe1 b) + uint (fe2 a) * uint (fe0 b)) * 2 ^ 104 +
    (uint (fe0 a) * uint (fe3 b) + uint (fe1 a) * uint (fe2 b) + uint (fe2 a) * uint (fe1 b) + uint (fe3 a) * uint (fe0 b)) * 2 ^ 156 +
    (uint (fe0 a) * uint (fe4 b) + uint (fe1 a) * uint (fe3 b) + uint (fe2 a) * uint (fe2 b) + uint (fe3 a) * uint (fe1 b) +
      uint (fe4 a) * uint (fe0 b)) * 2 ^ 208 +
    (uint (fe1 a) * uint (fe4 b) + uint (fe2 a) * uint (fe3 b) + uint (fe3 a) * uint (fe2 b) + uint (fe4 a) * uint (fe1 b)) * 2 ^ 260 +
    (uint (fe2 a) * uint (fe4 b) + uint (fe3 a) * uint (fe3 b) + uint (fe4 a) * uint (fe2 b)) * 2 ^ 312 +
    (uint (fe3 a) * uint (fe4 b) + uint (fe4 a) * uint (fe3 b)) * 2 ^ 364 + uint (fe4 a) * uint (fe4 b) * 2 ^ 416"
  note A = fe_mag_limbs [OF assms(1)]
  note B = fe_mag_limbs [OF assms(2)]
  note P0 = u128_ll [OF A(1) B(1)]
  note P1 = u128_plus [OF u128_ll [OF A(1) B(2)] u128_ll [OF A(2) B(1)]]
  note P2 = u128_plus [OF u128_plus [OF u128_ll [OF A(1) B(3)] u128_ll [OF A(2) B(2)]] u128_ll [OF A(3) B(1)]]
  note P3 = u128_plus [OF u128_plus [OF u128_plus [OF u128_ll [OF A(1) B(4)] u128_ll [OF A(2) B(3)]]
      u128_ll [OF A(3) B(2)]] u128_ll [OF A(4) B(1)]]
  note P4 = u128_plus [OF u128_plus [OF u128_plus [OF u128_plus [OF u128_lt [OF A(1) B(5)]
      u128_ll [OF A(2) B(4)]] u128_ll [OF A(3) B(3)]] u128_ll [OF A(4) B(2)]] u128_tl [OF A(5) B(1)]]
  note P5 = u128_plus [OF u128_plus [OF u128_plus [OF u128_lt [OF A(2) B(5)] u128_ll [OF A(3) B(4)]]
      u128_ll [OF A(4) B(3)]] u128_tl [OF A(5) B(2)]]
  note P6 = u128_plus [OF u128_plus [OF u128_lt [OF A(3) B(5)] u128_ll [OF A(4) B(4)]] u128_tl [OF A(5) B(3)]]
  note P7 = u128_plus [OF u128_lt [OF A(4) B(5)] u128_tl [OF A(5) B(4)]]
  note P8 = u128_tt [OF A(5) B(5)]
  have "fe_mag 1 (secp256k1_fe_mul_inner a b) \<and> (\<exists>Q. ?s = fe_val (secp256k1_fe_mul_inner a b) + Q * fe_p)"
    unfolding mul_inner_fold Let_def by (rule fe_fold_reads [OF P0 P1 P2 P3 P4 P5 P6 P7 P8]) simp_all
  moreover have "?s = fe_val a * fe_val b" unfolding fe_val_def by (simp add: algebra_simps)
  ultimately show ?thesis by simp
qed

lemma uint_double: "uint x \<le> 2 ^ k \<Longrightarrow> k < 63 \<Longrightarrow> uint (x * 2) = uint x * 2 \<and> uint (x * 2) \<le> 2 ^ Suc k" for x :: "64 word"
proof -
  assume a: "uint x \<le> 2 ^ k" "k < 63"
  then have "(2 :: int) ^ Suc k \<le> 2 ^ 63" by (intro power_increasing) simp_all
  then have "uint x * 2 < 2 ^ 64" using a by simp
  then show ?thesis using a by (simp add: uint_word_ariths mod_pos_pos_trivial)
qed

lemma sqr_inner_spec:
  assumes "fe_mag 8 a"
  shows "fe_mag 1 (secp256k1_fe_sqr_inner a) \<and>
    (\<exists>Q. fe_val a * fe_val a = fe_val (secp256k1_fe_sqr_inner a) + Q * fe_p)"
proof -
  let ?s = "uint (fe0 a) * uint (fe0 a) + uint (fe0 a * 2) * uint (fe1 a) * 2 ^ 52 +
    (uint (fe0 a * 2) * uint (fe2 a) + uint (fe1 a) * uint (fe1 a)) * 2 ^ 104 +
    (uint (fe0 a * 2) * uint (fe3 a) + uint (fe1 a * 2) * uint (fe2 a)) * 2 ^ 156 +
    (uint (fe0 a) * uint (fe4 a * 2) + uint (fe1 a * 2) * uint (fe3 a) + uint (fe2 a) * uint (fe2 a)) * 2 ^ 208 +
    (uint (fe1 a) * uint (fe4 a * 2) + uint (fe2 a * 2) * uint (fe3 a)) * 2 ^ 260 +
    (uint (fe2 a) * uint (fe4 a * 2) + uint (fe3 a) * uint (fe3 a)) * 2 ^ 312 +
    uint (fe3 a) * uint (fe4 a * 2) * 2 ^ 364 + uint (fe4 a) * uint (fe4 a) * 2 ^ 416"
  note A = fe_mag_limbs [OF assms]
  have D: "uint (fe0 a * 2) = uint (fe0 a) * 2" "uint (fe1 a * 2) = uint (fe1 a) * 2"
      "uint (fe2 a * 2) = uint (fe2 a) * 2" "uint (fe4 a * 2) = uint (fe4 a) * 2"
      "uint (fe0 a * 2) \<le> 2 ^ 57" "uint (fe1 a * 2) \<le> 2 ^ 57" "uint (fe2 a * 2) \<le> 2 ^ 57" "uint (fe4 a * 2) \<le> 2 ^ 53"
    using uint_double [OF A(1)] uint_double [OF A(2)] uint_double [OF A(3)] uint_double [OF A(5)] by simp_all
  note P0 = u128_ll [OF A(1) A(1)]
  note P1 = u128_times [OF D(5) A(2)]
  note P2 = u128_plus [OF u128_times [OF D(5) A(3)] u128_ll [OF A(2) A(2)]]
  note P3 = u128_plus [OF u128_times [OF D(5) A(4)] u128_times [OF D(6) A(3)]]
  note P4 = u128_plus [OF u128_plus [OF u128_times [OF A(1) D(8)] u128_times [OF D(6) A(4)]] u128_ll [OF A(3) A(3)]]
  note P5 = u128_plus [OF u128_times [OF A(2) D(8)] u128_times [OF D(7) A(4)]]
  note P6 = u128_plus [OF u128_times [OF A(3) D(8)] u128_ll [OF A(4) A(4)]]
  note P7 = u128_times [OF A(4) D(8)]
  note P8 = u128_tt [OF A(5) A(5)]
  have "fe_mag 1 (secp256k1_fe_sqr_inner a) \<and> (\<exists>Q. ?s = fe_val (secp256k1_fe_sqr_inner a) + Q * fe_p)"
    unfolding sqr_inner_fold Let_def by (rule fe_fold_reads [OF P0 P1 P2 P3 P4 P5 P6 P7 P8]) simp_all
  moreover have "?s = fe_val a * fe_val a" unfolding fe_val_def D(1-4) by (simp add: algebra_simps)
  ultimately show ?thesis by simp
qed

lemma mod_fe_pI: "\<exists>Q. x = y + Q * fe_p \<Longrightarrow> y mod fe_p = x mod fe_p"
  by (auto simp: mod_mult_self1)

section \<open>Sums, negation and small multiples\<close>

lemma fe_add_spec:
  assumes "fe_mag m r" "fe_mag n a" "m + n \<le> 32"
  shows "fe_val (secp256k1_fe_add r a) = fe_val r + fe_val a \<and> fe_mag (m + n) (secp256k1_fe_add r a)"
proof -
  have "uint (fe0 r + fe0 a) = uint (fe0 r) + uint (fe0 a)" "uint (fe1 r + fe1 a) = uint (fe1 r) + uint (fe1 a)"
    "uint (fe2 r + fe2 a) = uint (fe2 r) + uint (fe2 a)" "uint (fe3 r + fe3 a) = uint (fe3 r) + uint (fe3 a)"
    "uint (fe4 r + fe4 a) = uint (fe4 r) + uint (fe4 a)"
    by (rule u64_add; use assms in \<open>simp add: fe_mag_def\<close>)+
  then show ?thesis using assms by (simp add: secp256k1_fe_add_def fe_val_def fe_mag_def algebra_simps)
qed

lemma fe_mul_int_spec:
  assumes "fe_mag m r" "0 \<le> k" "0 \<le> m" "m * k \<le> 32"
  shows "fe_val (secp256k1_fe_mul_int r k) = fe_val r * k \<and> fe_mag (m * k) (secp256k1_fe_mul_int r k)"
proof (cases "m = 0")
  case True
  then have "fe_val r = 0" "fe0 r = 0" "fe1 r = 0" "fe2 r = 0" "fe3 r = 0" "fe4 r = 0"
    using assms(1) by (simp_all add: fe_mag_def fe_val_def uint_0_iff order_antisym)
  then show ?thesis using True by (simp add: secp256k1_fe_mul_int_def fe_val_def fe_mag_def)
next
  case False
  then have "1 * k \<le> m * k" using assms by (intro mult_right_mono) auto
  then have k: "k \<le> 32" using assms by simp
  have b: "uint x * k \<le> B * (m * k)" if "uint x \<le> B * m" for x :: "64 word" and B
    using mult_right_mono [OF that assms(2)] by (simp add: mult.assoc)
  have "uint (x * of_int k) = uint x * k \<and> uint x * k \<le> B * (m * k)" if "uint x \<le> B * m" "0 \<le> B" "B \<le> 2 ^ 53"
    for x :: "64 word" and B
  proof -
    have "B * (m * k) \<le> 2 ^ 53 * 32" using that assms by (intro mult_mono) auto
    then show ?thesis using b [OF that(1)] k assms(2) by (intro conjI u64_mul [OF refl u64_of_int]) auto
  qed
  note c = this [OF _ _ _, of _ "0xFFFFFFFFFFFFF * 2"] this [OF _ _ _, of _ "0xFFFFFFFFFFFF * 2"]
  show ?thesis using c [of "fe0 r"] c [of "fe1 r"] c [of "fe2 r"] c [of "fe3 r"] c [of "fe4 r"] assms(1)
    by (simp add: secp256k1_fe_mul_int_def fe_val_def fe_mag_def algebra_simps)
qed

lemma u64_negate:
  fixes k x :: "64 word"
  assumes "uint x \<le> K * 2 * (m + 1)" "0 \<le> m" "m \<le> 31" "uint k = K" "K < 2 ^ 52"
  shows "uint (k * 2 * of_int (m + 1) - x) = K * 2 * (m + 1) - uint x"
proof -
  have "0 \<le> K" using assms(4) uint_ge_0 [of k] by simp
  moreover have "K * 2 * (m + 1) \<le> K * 2 * 32" using assms \<open>0 \<le> K\<close> by (intro mult_left_mono) auto
  ultimately have "uint (k * 2 * of_int (m + 1)) = K * 2 * (m + 1)"
    using assms by (intro u64_mul u64_of_int) auto
  then show ?thesis using assms(1) \<open>K * 2 * (m + 1) \<le> K * 2 * 32\<close> assms(5)
    uint_sub_if' [of "k * 2 * of_int (m + 1)" x] by simp
qed

lemma fe_negate_bounds:
  "0 \<le> x \<Longrightarrow> 0 \<le> m \<Longrightarrow> 0xFFFFEFFFFFC2F * 2 * (m + 1) - x \<le> 0xFFFFFFFFFFFFF * 2 * (m + (1 :: int))"
  "0 \<le> x \<Longrightarrow> 0xFFFFFFFFFFFFF * 2 * (m + 1) - x \<le> 0xFFFFFFFFFFFFF * 2 * (m + (1 :: int))"
  "0 \<le> x \<Longrightarrow> 0xFFFFFFFFFFFF * 2 * (m + 1) - x \<le> 0xFFFFFFFFFFFF * 2 * (m + (1 :: int))"
  by simp_all

lemma fe_negate_spec:
  assumes "fe_mag m a" "0 \<le> m" "m \<le> 31"
  shows "fe_val (secp256k1_fe_negate a m) = 2 * (m + 1) * fe_p - fe_val a \<and> fe_mag (m + 1) (secp256k1_fe_negate a m)"
proof -
  have n: "uint (0xFFFFEFFFFFC2F * 2 * of_int (m + 1) - fe0 a) = 0xFFFFEFFFFFC2F * 2 * (m + 1) - uint (fe0 a)"
    "uint (0xFFFFFFFFFFFFF * 2 * of_int (m + 1) - fe1 a) = 0xFFFFFFFFFFFFF * 2 * (m + 1) - uint (fe1 a)"
    "uint (0xFFFFFFFFFFFFF * 2 * of_int (m + 1) - fe2 a) = 0xFFFFFFFFFFFFF * 2 * (m + 1) - uint (fe2 a)"
    "uint (0xFFFFFFFFFFFFF * 2 * of_int (m + 1) - fe3 a) = 0xFFFFFFFFFFFFF * 2 * (m + 1) - uint (fe3 a)"
    "uint (0x0FFFFFFFFFFFF * 2 * of_int (m + 1) - fe4 a) = 0x0FFFFFFFFFFFF * 2 * (m + 1) - uint (fe4 a)"
    using assms by (intro u64_negate; simp add: fe_mag_def)+
  show ?thesis unfolding secp256k1_fe_negate_def fe_val_def fe_mag_def fe_make_simps n fe_p_def
    by (intro conjI fe_negate_bounds uint_ge_0 assms(2)) (simp add: algebra_simps)
qed

section \<open>Normalisation computes the residue\<close>

text \<open>The carry chain that every normalisation runs after it has folded the top bits.\<close>

definition fe_carry :: "64 word \<Rightarrow> 64 word \<Rightarrow> 64 word \<Rightarrow> 64 word \<Rightarrow> 64 word \<Rightarrow> secp256k1_fe" where
  "fe_carry t0 t1 t2 t3 t4 =
     (let t1 = t1 + drop_bit 52 t0; t0 = t0 AND M52;
          t2 = t2 + drop_bit 52 t1; t1 = t1 AND M52;
          t3 = t3 + drop_bit 52 t2; t2 = t2 AND M52;
          t4 = t4 + drop_bit 52 t3; t3 = t3 AND M52
      in fe_make t0 t1 t2 t3 t4)"

lemma carry_step:
  fixes t u :: "64 word"
  assumes "uint t < 2 ^ 63" "uint u \<le> 2 ^ 62"
  obtains q where "uint t = q * 2 ^ 52 + uint (t AND M52)" "uint (t AND M52) \<le> 2 ^ 52 - 1"
    "uint (u + drop_bit 52 t) = uint u + q" "0 \<le> q" "q \<le> 2 ^ 11" "uint (u + drop_bit 52 t) < 2 ^ 63"
proof
  let ?q = "uint t div 2 ^ 52"
  have m: "uint (t AND M52) = uint t mod 2 ^ 52" unfolding mask52 uint_and_mask ..
  show "uint t = ?q * 2 ^ 52 + uint (t AND M52)" unfolding m by (simp only: div_mult_mod_eq)
  show "uint (t AND M52) \<le> 2 ^ 52 - 1" unfolding m using pos_mod_bound [of "2 ^ 52" "uint t"] by simp
  show q: "0 \<le> ?q" "?q \<le> 2 ^ 11" using assms(1) by (simp_all add: pos_imp_zdiv_nonneg_iff)
  show s: "uint (u + drop_bit 52 t) = uint u + ?q" using assms q by (subst u64_add) (simp_all add: uint_drop)
  show "uint (u + drop_bit 52 t) < 2 ^ 63" using s assms(2) q(2) by simp
qed

lemma fe_carry_spec:
  assumes "uint t0 < 2 ^ 63" "uint t1 \<le> 2 ^ 62" "uint t2 \<le> 2 ^ 62" "uint t3 \<le> 2 ^ 62" "uint t4 \<le> 2 ^ 62"
  shows "fe_val (fe_carry t0 t1 t2 t3 t4) =
      uint t0 + uint t1 * 2 ^ 52 + uint t2 * 2 ^ 104 + uint t3 * 2 ^ 156 + uint t4 * 2 ^ 208"
    and "uint (fe0 (fe_carry t0 t1 t2 t3 t4)) \<le> 2 ^ 52 - 1" "uint (fe1 (fe_carry t0 t1 t2 t3 t4)) \<le> 2 ^ 52 - 1"
      "uint (fe2 (fe_carry t0 t1 t2 t3 t4)) \<le> 2 ^ 52 - 1" "uint (fe3 (fe_carry t0 t1 t2 t3 t4)) \<le> 2 ^ 52 - 1"
      "uint (fe4 (fe_carry t0 t1 t2 t3 t4)) \<le> uint t4 + 2 ^ 11"
proof -
  let ?t1 = "t1 + drop_bit 52 t0"
  let ?t2 = "t2 + drop_bit 52 ?t1"
  let ?t3 = "t3 + drop_bit 52 ?t2"
  obtain q0 where 0: "uint t0 = q0 * 2 ^ 52 + uint (t0 AND M52)" "uint (t0 AND M52) \<le> 2 ^ 52 - 1"
    "uint ?t1 = uint t1 + q0" "0 \<le> q0" "q0 \<le> 2 ^ 11" "uint ?t1 < 2 ^ 63"
    using carry_step [OF assms(1,2)] by blast
  obtain q1 where 1: "uint ?t1 = q1 * 2 ^ 52 + uint (?t1 AND M52)" "uint (?t1 AND M52) \<le> 2 ^ 52 - 1"
    "uint ?t2 = uint t2 + q1" "0 \<le> q1" "q1 \<le> 2 ^ 11" "uint ?t2 < 2 ^ 63"
    using carry_step [OF 0(6) assms(3)] by blast
  obtain q2 where 2: "uint ?t2 = q2 * 2 ^ 52 + uint (?t2 AND M52)" "uint (?t2 AND M52) \<le> 2 ^ 52 - 1"
    "uint ?t3 = uint t3 + q2" "0 \<le> q2" "q2 \<le> 2 ^ 11" "uint ?t3 < 2 ^ 63"
    using carry_step [OF 1(6) assms(4)] by blast
  obtain q3 where 3: "uint ?t3 = q3 * 2 ^ 52 + uint (?t3 AND M52)" "uint (?t3 AND M52) \<le> 2 ^ 52 - 1"
    "uint (t4 + drop_bit 52 ?t3) = uint t4 + q3" "0 \<le> q3" "q3 \<le> 2 ^ 11"
    using carry_step [OF 2(6) assms(5)] by blast
  have c: "fe_carry t0 t1 t2 t3 t4 =
      fe_make (t0 AND M52) (?t1 AND M52) (?t2 AND M52) (?t3 AND M52) (t4 + drop_bit 52 ?t3)"
    by (simp only: fe_carry_def Let_def)
  show "fe_val (fe_carry t0 t1 t2 t3 t4) =
      uint t0 + uint t1 * 2 ^ 52 + uint t2 * 2 ^ 104 + uint t3 * 2 ^ 156 + uint t4 * 2 ^ 208"
    unfolding c fe_val_def fe_make_simps using 0(1,3) 1(1,3) 2(1,3) 3(1,3) by simp
  show "uint (fe0 (fe_carry t0 t1 t2 t3 t4)) \<le> 2 ^ 52 - 1" unfolding c fe_make_simps by (rule 0(2))
  show "uint (fe1 (fe_carry t0 t1 t2 t3 t4)) \<le> 2 ^ 52 - 1" unfolding c fe_make_simps by (rule 1(2))
  show "uint (fe2 (fe_carry t0 t1 t2 t3 t4)) \<le> 2 ^ 52 - 1" unfolding c fe_make_simps by (rule 2(2))
  show "uint (fe3 (fe_carry t0 t1 t2 t3 t4)) \<le> 2 ^ 52 - 1" unfolding c fe_make_simps by (rule 3(2))
  show "uint (fe4 (fe_carry t0 t1 t2 t3 t4)) \<le> uint t4 + 2 ^ 11" unfolding c fe_make_simps using 3(3,5) by simp
qed

lemma normalize_weak_carry: "secp256k1_fe_normalize_weak r =
    fe_carry (fe0 r + drop_bit 48 (fe4 r) * 0x1000003D1) (fe1 r) (fe2 r) (fe3 r) (fe4 r AND M48)"
  by (simp only: secp256k1_fe_normalize_weak_def fe_carry_def Let_def)

lemma mag32_limbs:
  assumes "fe_mag 32 r"
  shows "uint (fe0 r) \<le> 2 ^ 58" "uint (fe1 r) \<le> 2 ^ 58" "uint (fe2 r) \<le> 2 ^ 58" "uint (fe3 r) \<le> 2 ^ 58"
    "uint (fe4 r) \<le> 2 ^ 54"
  using assms by (auto simp: fe_mag_def)

lemma top48: "uint (x AND M48) = uint x mod 2 ^ 48" "uint (drop_bit 48 x) = uint x div 2 ^ 48"
  by (simp_all only: mask48 uint_and_mask uint_drop)

text \<open>After the first pass the value is below twice the prime.\<close>

lemma normalize_weak_spec:
  assumes "fe_mag 32 r"
  shows "fe_val (secp256k1_fe_normalize_weak r) = fe_val r - uint (fe4 r) div 2 ^ 48 * fe_p"
    and "uint (fe0 (secp256k1_fe_normalize_weak r)) \<le> 2 ^ 52 - 1" "uint (fe1 (secp256k1_fe_normalize_weak r)) \<le> 2 ^ 52 - 1"
      "uint (fe2 (secp256k1_fe_normalize_weak r)) \<le> 2 ^ 52 - 1" "uint (fe3 (secp256k1_fe_normalize_weak r)) \<le> 2 ^ 52 - 1"
      "uint (fe4 (secp256k1_fe_normalize_weak r)) \<le> 2 ^ 48 + 2 ^ 11"
proof -
  note L = mag32_limbs [OF assms]
  let ?x = "uint (fe4 r) div 2 ^ 48"
  have x: "0 \<le> ?x" "?x \<le> 2 ^ 6" using L(5) by (simp_all add: pos_imp_zdiv_nonneg_iff)
  have m: "uint (drop_bit 48 (fe4 r) * 0x1000003D1) = ?x * 0x1000003D1"
    using x by (intro u64_mul top48) simp_all
  have t0: "uint (fe0 r + drop_bit 48 (fe4 r) * 0x1000003D1) = uint (fe0 r) + ?x * 0x1000003D1"
    using L(1) x by (subst u64_add) (simp_all only: m, simp_all)
  have t4: "uint (fe4 r) = ?x * 2 ^ 48 + uint (fe4 r AND M48)" unfolding top48 by (simp only: div_mult_mod_eq)
  have b: "uint (fe4 r AND M48) \<le> 2 ^ 48 - 1" unfolding top48 using pos_mod_bound [of "2 ^ 48" "uint (fe4 r)"] by simp
  have w: "uint (fe0 r + drop_bit 48 (fe4 r) * 0x1000003D1) < 2 ^ 63" "uint (fe1 r) \<le> 2 ^ 62" "uint (fe2 r) \<le> 2 ^ 62"
    "uint (fe3 r) \<le> 2 ^ 62" "uint (fe4 r AND M48) \<le> 2 ^ 62"
    using L x b unfolding t0 by simp_all
  note c = fe_carry_spec [OF w, folded normalize_weak_carry]
  show "fe_val (secp256k1_fe_normalize_weak r) = fe_val r - ?x * fe_p"
    by (rule trans [OF c(1)]) (unfold t0 fe_val_def fe_p_def, use t4 in simp)
  show "uint (fe0 (secp256k1_fe_normalize_weak r)) \<le> 2 ^ 52 - 1" by (rule c(2))
  show "uint (fe1 (secp256k1_fe_normalize_weak r)) \<le> 2 ^ 52 - 1" by (rule c(3))
  show "uint (fe2 (secp256k1_fe_normalize_weak r)) \<le> 2 ^ 52 - 1" by (rule c(4))
  show "uint (fe3 (secp256k1_fe_normalize_weak r)) \<le> 2 ^ 52 - 1" by (rule c(5))
  show "uint (fe4 (secp256k1_fe_normalize_weak r)) \<le> 2 ^ 48 + 2 ^ 11" using c(6) b by simp
qed

definition fe_over :: "secp256k1_fe \<Rightarrow> 64 word" where
  "fe_over w = drop_bit 48 (fe4 w) OR (of_bool (fe4 w = M48) AND of_bool (((fe1 w AND fe2 w) AND fe3 w) = M52) AND
     of_bool (0xFFFFEFFFFFC2F \<le> fe0 w))"

lemma and3_mask:
  fixes x y z :: "'a::len word"
  assumes "x AND mask n = x" "y AND mask n = y" "z AND mask n = z"
  shows "(x AND y AND z) = mask n \<longleftrightarrow> x = mask n \<and> y = mask n \<and> z = mask n"
proof
  assume e: "(x AND y AND z) = mask n"
  have "x AND (x AND y AND z) = x AND y AND z" "y AND (x AND y AND z) = x AND y AND z"
    "z AND (x AND y AND z) = x AND y AND z"
    by (simp_all add: ac_simps)
  then show "x = mask n \<and> y = mask n \<and> z = mask n" using assms unfolding e by simp
qed simp

lemma and_M52: "uint x \<le> 2 ^ 52 - 1 \<Longrightarrow> x AND M52 = x"
  by (rule word_uint_eqI, unfold mask52 uint_and_mask) (simp add: mod_pos_pos_trivial)

lemma M52_iff: "x = M52 \<longleftrightarrow> uint x = 2 ^ 52 - 1" "x = M48 \<longleftrightarrow> uint x = 2 ^ 48 - 1"
  "0xFFFFEFFFFFC2F \<le> x \<longleftrightarrow> 0xFFFFEFFFFFC2F \<le> uint x"
  by (simp_all add: word_uint_eq_iff word_le_def)

lemma fe_val_ge4: "uint (fe4 a) * 2 ^ 208 \<le> fe_val a"
  unfolding fe_val_def by (simp del: power_numeral)

lemma fe_over_spec:
  assumes "uint (fe0 w) \<le> 2 ^ 52 - 1" "uint (fe1 w) \<le> 2 ^ 52 - 1" "uint (fe2 w) \<le> 2 ^ 52 - 1"
    "uint (fe3 w) \<le> 2 ^ 52 - 1" "uint (fe4 w) \<le> 2 ^ 48 + 2 ^ 11"
  shows "fe_over w = of_bool (fe_p \<le> fe_val w)"
proof -
  have a: "((fe1 w AND fe2 w) AND fe3 w) = M52 \<longleftrightarrow> fe1 w = M52 \<and> fe2 w = M52 \<and> fe3 w = M52"
    unfolding mask52 and.assoc by (rule and3_mask) (use assms(2,3,4) in \<open>simp_all only: and_M52 flip: mask52\<close>)
  show ?thesis
  proof (cases "uint (fe4 w) < 2 ^ 48")
    case True
    then have d: "drop_bit 48 (fe4 w) = 0" unfolding word_uint_eq_iff top48 by simp
    have "fe_p \<le> fe_val w \<longleftrightarrow> uint (fe4 w) = 2 ^ 48 - 1 \<and> (uint (fe1 w) = 2 ^ 52 - 1 \<and> uint (fe2 w) = 2 ^ 52 - 1 \<and>
        uint (fe3 w) = 2 ^ 52 - 1) \<and> 0xFFFFEFFFFFC2F \<le> uint (fe0 w)"
      using assms True unfolding fe_p_def fe_val_def by auto
    then show ?thesis unfolding fe_over_def d a unfolding M52_iff by simp
  next
    case False
    then have "uint (fe4 w) div 2 ^ 48 = 1"
      using assms(5) by (intro int_div_pos_eq [where r = "uint (fe4 w) - 2 ^ 48"]) simp_all
    then have d: "drop_bit 48 (fe4 w) = 1" unfolding word_uint_eq_iff top48 by simp
    have "fe_p \<le> fe_val w" "uint (fe4 w) \<noteq> 2 ^ 48 - 1" using False fe_val_ge4 [of w] unfolding fe_p_def by auto
    then show ?thesis unfolding fe_over_def d M52_iff by simp
  qed
qed

lemma normalize_steps: "secp256k1_fe_normalize r =
    (let w = secp256k1_fe_normalize_weak r;
         v = fe_carry (fe0 w + fe_over w * 0x1000003D1) (fe1 w) (fe2 w) (fe3 w) (fe4 w)
     in fe_make (fe0 v) (fe1 v) (fe2 v) (fe3 v) (fe4 v AND M48))"
  by (simp only: secp256k1_fe_normalize_def secp256k1_fe_normalize_weak_def fe_over_def fe_carry_def Let_def fe_make_simps)

text \<open>Reduced: every limb in its range, and the value below the prime.\<close>

definition fe_reduced :: "secp256k1_fe \<Rightarrow> bool" where
  "fe_reduced a \<longleftrightarrow> uint (fe0 a) < 2 ^ 52 \<and> uint (fe1 a) < 2 ^ 52 \<and> uint (fe2 a) < 2 ^ 52 \<and>
     uint (fe3 a) < 2 ^ 52 \<and> uint (fe4 a) < 2 ^ 48 \<and> fe_val a < fe_p"

lemma final_step:
  assumes "uint (fe0 w) \<le> 2 ^ 52 - 1" "uint (fe1 w) \<le> 2 ^ 52 - 1" "uint (fe2 w) \<le> 2 ^ 52 - 1"
    "uint (fe3 w) \<le> 2 ^ 52 - 1" "uint (fe4 w) \<le> 2 ^ 48 + 2 ^ 11"
  defines "v \<equiv> fe_carry (fe0 w + fe_over w * 0x1000003D1) (fe1 w) (fe2 w) (fe3 w) (fe4 w)"
  shows "fe_val (fe_make (fe0 v) (fe1 v) (fe2 v) (fe3 v) (fe4 v AND M48)) = fe_val w mod fe_p \<and>
    fe_reduced (fe_make (fe0 v) (fe1 v) (fe2 v) (fe3 v) (fe4 v AND M48))"
proof -
  note o = fe_over_spec [OF assms(1-5)]
  let ?b = "of_bool (fe_p \<le> fe_val w) :: int"
  have m: "uint (fe_over w * 0x1000003D1) = ?b * 0x1000003D1" unfolding o by simp
  have t0: "uint (fe0 w + fe_over w * 0x1000003D1) = uint (fe0 w) + ?b * 0x1000003D1"
    using assms(1) by (subst u64_add) (simp_all only: m, simp_all split: split_of_bool)
  have b: "uint (fe0 w + fe_over w * 0x1000003D1) < 2 ^ 63" "uint (fe1 w) \<le> 2 ^ 62" "uint (fe2 w) \<le> 2 ^ 62"
    "uint (fe3 w) \<le> 2 ^ 62" "uint (fe4 w) \<le> 2 ^ 62"
    using assms(1-5) unfolding t0 by (simp_all split: split_of_bool)
  note c = fe_carry_spec [OF b, folded v_def]
  have V: "fe_val v = fe_val w + ?b * 0x1000003D1" by (rule trans [OF c(1)]) (simp add: t0 fe_val_def)
  have w: "0 \<le> fe_val w" "fe_val w < 2 * fe_p" using assms(1-5) unfolding fe_val_def fe_p_def by simp_all
  have q: "fe_val w mod fe_p = fe_val w - ?b * fe_p"
  proof (cases "fe_p \<le> fe_val w")
    case True
    have "(fe_val w - fe_p) mod fe_p = fe_val w - fe_p" using True w by (intro mod_pos_pos_trivial) auto
    then show ?thesis using True by simp
  next
    case False
    then show ?thesis using w by (simp add: mod_pos_pos_trivial)
  qed
  have t4: "uint (fe4 v AND M48) = uint (fe4 v) - ?b * 2 ^ 48"
  proof (cases "fe_p \<le> fe_val w")
    case True
    then have ge: "2 ^ 48 \<le> uint (fe4 v)" using c(2-5) V unfolding fe_val_def [of v] fe_p_def by simp
    have "uint (fe4 v) < 2 ^ 49" using c(6) assms(5) by simp
    then have "(uint (fe4 v) - 2 ^ 48) mod 2 ^ 48 = uint (fe4 v) - 2 ^ 48" using ge by (intro mod_pos_pos_trivial) auto
    then show ?thesis using True unfolding top48 by simp
  next
    case False
    then have "uint (fe4 v) < 2 ^ 48" using fe_val_ge4 [of v] V unfolding fe_p_def by simp
    then show ?thesis using False unfolding top48 by (simp add: mod_pos_pos_trivial)
  qed
  have e: "fe_val (fe_make (fe0 v) (fe1 v) (fe2 v) (fe3 v) (fe4 v AND M48)) = fe_val w - ?b * fe_p"
    using V unfolding fe_val_def [of v] fe_val_def [of "fe_make _ _ _ _ _"] fe_make_simps t4 by (simp add: fe_p_def algebra_simps)
  have "uint (fe4 v AND M48) < 2 ^ 48" unfolding top48 by simp
  moreover have "fe_val w - ?b * fe_p < fe_p" using w by (simp split: split_of_bool)
  ultimately show ?thesis using c(2-5) unfolding q e fe_reduced_def fe_make_simps by simp
qed

lemma normalize_spec:
  assumes "fe_mag 32 r"
  shows "fe_val (secp256k1_fe_normalize r) = fe_val r mod fe_p \<and> fe_reduced (secp256k1_fe_normalize r)"
proof -
  note n = normalize_weak_spec [OF assms]
  have "fe_val (secp256k1_fe_normalize_weak r) mod fe_p = fe_val r mod fe_p"
    unfolding n(1) using mod_mult_self1 [of "fe_val r" "- (uint (fe4 r) div 2 ^ 48)" fe_p] by simp
  then show ?thesis unfolding normalize_steps Let_def using final_step [OF n(2-6)] by simp
qed

section \<open>The variants agree\<close>

lemma normalize_var_steps: "secp256k1_fe_normalize_var r =
    (let w = secp256k1_fe_normalize_weak r
     in if fe_over w \<noteq> 0 then
          (let v = fe_carry (fe0 w + 0x1000003D1) (fe1 w) (fe2 w) (fe3 w) (fe4 w)
           in fe_make (fe0 v) (fe1 v) (fe2 v) (fe3 v) (fe4 v AND M48))
        else w)"
  by (simp only: secp256k1_fe_normalize_var_def secp256k1_fe_normalize_weak_def fe_over_def fe_carry_def Let_def fe_make_simps)

lemma fe_make_eta [simp]: "fe_make (fe0 a) (fe1 a) (fe2 a) (fe3 a) (fe4 a) = a"
  by (cases a) (simp add: fe_make_def)

lemma drop52_zero: "uint x \<le> 2 ^ 52 - 1 \<Longrightarrow> drop_bit 52 x = 0"
  by (rule word_uint_eqI, unfold uint_drop) simp

lemma fe_carry_id:
  assumes "uint (fe0 w) \<le> 2 ^ 52 - 1" "uint (fe1 w) \<le> 2 ^ 52 - 1" "uint (fe2 w) \<le> 2 ^ 52 - 1" "uint (fe3 w) \<le> 2 ^ 52 - 1"
  shows "fe_carry (fe0 w) (fe1 w) (fe2 w) (fe3 w) (fe4 w) = w"
  by (simp only: fe_carry_def Let_def assms drop52_zero and_M52 add_0_right fe_make_eta)

lemma normalize_var_eq:
  assumes "fe_mag 32 r"
  shows "secp256k1_fe_normalize_var r = secp256k1_fe_normalize r"
proof -
  let ?w = "secp256k1_fe_normalize_weak r"
  note n = normalize_weak_spec [OF assms]
  note o = fe_over_spec [OF n(2-6)]
  show ?thesis
  proof (cases "fe_p \<le> fe_val ?w")
    case True
    then show ?thesis unfolding normalize_var_steps normalize_steps Let_def o by simp
  next
    case False
    then have "uint (fe4 ?w) < 2 ^ 48" using fe_val_ge4 [of ?w] unfolding fe_p_def by simp
    then have "fe4 ?w AND M48 = fe4 ?w" by (intro word_uint_eqI, unfold top48) (simp add: mod_pos_pos_trivial)
    then show ?thesis using False fe_carry_id [OF n(2-5)]
      unfolding normalize_var_steps normalize_steps Let_def o by simp
  qed
qed

section \<open>Testing for zero\<close>

lemma and_mask_absorb: "x AND mask n = x \<Longrightarrow> (x AND y) = mask n \<longleftrightarrow> x = mask n \<and> y AND mask n = mask n"
  for x y :: "'a::len word"
  by (metis and.commute and.left_commute and.idem)

definition fe_is_zero_or_p :: "secp256k1_fe \<Rightarrow> bool" where
  "fe_is_zero_or_p w \<longleftrightarrow> (fe0 w OR fe1 w OR fe2 w OR fe3 w OR fe4 w) = 0 \<or>
     ((fe0 w XOR 0x1000003D0) AND fe1 w AND fe2 w AND fe3 w AND (fe4 w XOR 0xF000000000000)) = M52"

lemma normalizes_to_zero_steps: "secp256k1_fe_normalizes_to_zero r = fe_is_zero_or_p (secp256k1_fe_normalize_weak r)"
  by (simp only: secp256k1_fe_normalizes_to_zero_def secp256k1_fe_normalize_weak_def fe_is_zero_or_p_def Let_def
      fe_make_simps or.assoc and.assoc)

lemma xor_eq_iff: "(x XOR c) = m \<longleftrightarrow> x = m XOR c" for x c m :: "'a::len word"
  by (auto simp: bit_eq_iff bit_simps)

lemma and5_mask:
  fixes a b c d e :: "'a::len word"
  assumes "a AND mask n = a" "b AND mask n = b" "c AND mask n = c" "d AND mask n = d" "e AND mask n = e"
  shows "(a AND b AND c AND d AND e) = mask n \<longleftrightarrow> a = mask n \<and> b = mask n \<and> c = mask n \<and> d = mask n \<and> e = mask n"
  using assms by (simp add: and_mask_absorb and.assoc)

lemma xor_M52: "uint x \<le> 2 ^ 52 - 1 \<Longrightarrow> c AND M52 = c \<Longrightarrow> (x XOR c) AND M52 = x XOR c"
  by (simp add: and_M52 bit.conj_xor_distrib2)

lemma fe_is_zero_or_p_spec:
  assumes "uint (fe0 w) \<le> 2 ^ 52 - 1" "uint (fe1 w) \<le> 2 ^ 52 - 1" "uint (fe2 w) \<le> 2 ^ 52 - 1"
    "uint (fe3 w) \<le> 2 ^ 52 - 1" "uint (fe4 w) \<le> 2 ^ 48 + 2 ^ 11"
  shows "fe_is_zero_or_p w \<longleftrightarrow> fe_val w mod fe_p = 0"
proof -
  have h: "uint (fe4 w) \<le> 2 ^ 52 - 1" using assms(5) by simp
  have "(fe0 w XOR 0x1000003D0) AND M52 = fe0 w XOR 0x1000003D0" "(fe4 w XOR 0xF000000000000) AND M52 = fe4 w XOR 0xF000000000000"
    by (rule xor_M52; use assms h in simp)+
  then have "((fe0 w XOR 0x1000003D0) AND fe1 w AND fe2 w AND fe3 w AND (fe4 w XOR 0xF000000000000)) = M52 \<longleftrightarrow>
      (fe0 w XOR 0x1000003D0) = M52 \<and> fe1 w = M52 \<and> fe2 w = M52 \<and> fe3 w = M52 \<and> (fe4 w XOR 0xF000000000000) = M52"
    using and_M52 [OF assms(2)] and_M52 [OF assms(3)] and_M52 [OF assms(4)] unfolding mask52 by (intro and5_mask)
  also have "\<dots> \<longleftrightarrow> fe_val w = fe_p"
  proof
    assume "fe_val w = fe_p"
    then have "uint (fe4 w) < 2 ^ 48" using fe_val_ge4 [of w] unfolding fe_p_def by simp
    then have t: "uint (fe4 w) = 2 ^ 48 - 1" "uint (fe3 w) = 2 ^ 52 - 1" "uint (fe2 w) = 2 ^ 52 - 1" "uint (fe1 w) = 2 ^ 52 - 1"
      using \<open>fe_val w = fe_p\<close> assms(1-4) unfolding fe_val_def fe_p_def by auto
    moreover have "uint (fe0 w) = 0xFFFFEFFFFFC2F"
      using \<open>fe_val w = fe_p\<close> unfolding fe_val_def fe_p_def t by simp
    ultimately show "(fe0 w XOR 0x1000003D0) = M52 \<and> fe1 w = M52 \<and> fe2 w = M52 \<and> fe3 w = M52 \<and> (fe4 w XOR 0xF000000000000) = M52"
      unfolding xor_eq_iff by (simp add: word_uint_eq_iff)
  qed (unfold xor_eq_iff, simp add: fe_val_def fe_p_def)
  finally have p: "((fe0 w XOR 0x1000003D0) AND fe1 w AND fe2 w AND fe3 w AND (fe4 w XOR 0xF000000000000)) = M52 \<longleftrightarrow> fe_val w = fe_p" .
  have z: "(fe0 w OR fe1 w OR fe2 w OR fe3 w OR fe4 w) = 0 \<longleftrightarrow> fe_val w = 0"
    unfolding or_zero_iff fe_val_def by (auto simp: add_nonneg_eq_0_iff uint_0_iff)
  have "0 \<le> fe_val w" "fe_val w < 2 * fe_p" using assms unfolding fe_val_def fe_p_def by simp_all
  then have "fe_val w mod fe_p = (if fe_p \<le> fe_val w then fe_val w - fe_p else fe_val w)"
    using mod_pos_pos_trivial [of "fe_val w - fe_p" fe_p] by (simp add: mod_pos_pos_trivial)
  moreover have "0 < fe_p" by (simp add: fe_p_def)
  ultimately have "fe_val w mod fe_p = 0 \<longleftrightarrow> fe_val w = 0 \<or> fe_val w = fe_p"
    by (auto split: if_splits)
  then show ?thesis unfolding fe_is_zero_or_p_def p z by simp
qed

lemma normalizes_to_zero_spec: "fe_mag 32 r \<Longrightarrow> secp256k1_fe_normalizes_to_zero r \<longleftrightarrow> fe_val r mod fe_p = 0"
proof -
  assume m: "fe_mag 32 r"
  note n = normalize_weak_spec [OF m]
  have "fe_val (secp256k1_fe_normalize_weak r) mod fe_p = fe_val r mod fe_p"
    unfolding n(1) using mod_mult_self1 [of "fe_val r" "- (uint (fe4 r) div 2 ^ 48)" fe_p] by simp
  then show ?thesis unfolding normalizes_to_zero_steps using fe_is_zero_or_p_spec [OF n(2-6)] by simp
qed

text \<open>The variable-time test may stop after the lowest limb.\<close>

lemma normalizes_to_zero_var_eq: "secp256k1_fe_normalizes_to_zero_var r = secp256k1_fe_normalizes_to_zero r"
proof (cases "(fe0 r + drop_bit 48 (fe4 r) * 0x1000003D1) AND M52 \<noteq> 0 \<and>
    ((fe0 r + drop_bit 48 (fe4 r) * 0x1000003D1) AND M52) XOR 0x1000003D0 \<noteq> M52")
  case False
  then show ?thesis
    by (simp only: secp256k1_fe_normalizes_to_zero_var_def secp256k1_fe_normalizes_to_zero_def Let_def if_False)
next
  case True
  let ?t = "(fe0 r + drop_bit 48 (fe4 r) * 0x1000003D1) AND M52"
  have "(?t XOR 0x1000003D0) AND M52 = ?t XOR 0x1000003D0"
    by (simp add: bit.conj_xor_distrib2 and.assoc)
  then have "((?t XOR 0x1000003D0) AND x) \<noteq> M52" for x
    using True and_mask_absorb [of "?t XOR 0x1000003D0" 52 x] unfolding mask52 by blast
  moreover have "(?t OR x) \<noteq> 0" for x using True or_zero_iff [of ?t x] by blast
  ultimately show ?thesis
    using True by (simp only: secp256k1_fe_normalizes_to_zero_var_def secp256k1_fe_normalizes_to_zero_def Let_def if_True
      or.assoc and.assoc simp_thms)
qed

section \<open>Comparison and uniqueness\<close>

lemma digits_unique:
  fixes x x' y y' :: int
  assumes "x + y * B = x' + y' * B" "0 \<le> x" "x < B" "0 \<le> x'" "x' < B"
  shows "x = x' \<and> y = y'"
proof -
  have "x = (x + y * B) mod B" "x' = (x' + y' * B) mod B" using assms(2-5) by (simp_all add: mod_pos_pos_trivial)
  then have "x = x'" using assms(1) by metis
  then show ?thesis using assms by simp
qed

lemma fe_val_nested: "fe_val a = uint (fe0 a) + (uint (fe1 a) + (uint (fe2 a) + (uint (fe3 a) + uint (fe4 a) * 2 ^ 52) * 2 ^ 52) * 2 ^ 52) * 2 ^ 52"
  by (simp add: fe_val_def)

lemma fe_val_inj:
  assumes "fe_reduced a" "fe_reduced b" "fe_val a = fe_val b"
  shows "a = b"
proof -
  have l: "0 \<le> uint x" for x :: "64 word" by simp
  note u = digits_unique [where B = "2 ^ 52", OF _ l _ l]
  have "uint (fe0 a) = uint (fe0 b) \<and> uint (fe1 a) = uint (fe1 b) \<and> uint (fe2 a) = uint (fe2 b) \<and>
      uint (fe3 a) = uint (fe3 b) \<and> uint (fe4 a) = uint (fe4 b)"
    using assms unfolding fe_reduced_def fe_val_nested by (metis u)
  then show ?thesis by (cases a; cases b) (simp add: word_uint_eq_iff)
qed

lemma digits_sgn:
  fixes x x' y y' :: int
  assumes "0 \<le> x" "x < B" "0 \<le> x'" "x' < B"
  shows "sgn (x + y * B - (x' + y' * B)) = (if sgn (y - y') = 0 then sgn (x - x') else sgn (y - y'))"
proof -
  have "x + y * B < x' + y' * B" if "y < y'" "x < B" "0 \<le> x'" for x x' y y' :: int
  proof -
    have "(y + 1) * B \<le> y' * B" using that assms by (intro mult_right_mono) auto
    then show ?thesis using that by (simp add: algebra_simps)
  qed
  from this [of y y' x x'] this [of y' y x' x] show ?thesis
    using assms by (cases y y' rule: linorder_cases) (simp_all add: sgn_if)
qed

lemma fe_cmp_var_spec:
  assumes "fe_reduced a" "fe_reduced b"
  shows "secp256k1_fe_cmp_var a b = sgn (fe_val a - fe_val b)"
proof -
  note u = digits_sgn [where B = "2 ^ 52", OF uint_ge_0 _ uint_ge_0]
  have "sgn (fe_val a - fe_val b) =
     (let s = \<lambda>x y :: 64 word. sgn (uint x - uint y) in
      if s (fe4 a) (fe4 b) \<noteq> 0 then s (fe4 a) (fe4 b) else if s (fe3 a) (fe3 b) \<noteq> 0 then s (fe3 a) (fe3 b)
      else if s (fe2 a) (fe2 b) \<noteq> 0 then s (fe2 a) (fe2 b) else if s (fe1 a) (fe1 b) \<noteq> 0 then s (fe1 a) (fe1 b)
      else s (fe0 a) (fe0 b))"
    using assms unfolding fe_reduced_def fe_val_nested Let_def by (simp only: u if_not_P not_not split: if_split) blast
  then show ?thesis unfolding secp256k1_fe_cmp_var_def by (auto simp: word_less_def sgn_if)
qed

section \<open>Congruences\<close>

lemma fe_mul_spec: "fe_mag 8 a \<Longrightarrow> fe_mag 8 b \<Longrightarrow>
    fe_val (secp256k1_fe_mul a b) mod fe_p = (fe_val a * fe_val b) mod fe_p \<and> fe_mag 1 (secp256k1_fe_mul a b)"
  using mul_inner_spec [of a b] mod_fe_pI unfolding secp256k1_fe_mul_def by blast

lemma fe_sqr_spec: "fe_mag 8 a \<Longrightarrow>
    fe_val (secp256k1_fe_sqr a) mod fe_p = (fe_val a * fe_val a) mod fe_p \<and> fe_mag 1 (secp256k1_fe_sqr a)"
  using sqr_inner_spec [of a] mod_fe_pI unfolding secp256k1_fe_sqr_def by blast

lemma fe_mag_mono: "fe_mag m a \<Longrightarrow> m \<le> n \<Longrightarrow> fe_mag n a"
  unfolding fe_mag_def by auto

lemma fe_difference_zero:
  assumes "fe_mag m a" and "fe_mag n b" and "0 \<le> m" and "m + 1 + n \<le> 32"
  shows "secp256k1_fe_normalizes_to_zero (secp256k1_fe_add (secp256k1_fe_negate a m) b) \<longleftrightarrow>
    fe_val a mod fe_p = fe_val b mod fe_p"
proof -
  have "0 \<le> 0xFFFFFFFFFFFFF * 2 * n" using assms(2) order_trans [OF uint_ge_0 [of "fe0 b"]] unfolding fe_mag_def by blast
  then have "m \<le> 31" using assms(4) by simp
  then have n: "fe_val (secp256k1_fe_negate a m) = 2 * (m + 1) * fe_p - fe_val a" "fe_mag (m + 1) (secp256k1_fe_negate a m)"
    using fe_negate_spec [OF assms(1)] assms by auto
  have s: "fe_val (secp256k1_fe_add (secp256k1_fe_negate a m) b) = fe_val b - fe_val a + 2 * (m + 1) * fe_p"
    "fe_mag (m + 1 + n) (secp256k1_fe_add (secp256k1_fe_negate a m) b)"
    using fe_add_spec [OF n(2) assms(2,4)] n(1) by auto
  have "fe_mag 32 (secp256k1_fe_add (secp256k1_fe_negate a m) b)" using s(2) assms(4) by (auto simp: fe_mag_def)
  then show ?thesis using normalizes_to_zero_spec s(1) mod_eq_dvd_iff [of "fe_val b" fe_p "fe_val a"]
    by (auto simp: dvd_eq_mod_eq_0)
qed

section \<open>Properties\<close>

text \<open>
  C24: multiplication of field elements is multiplication modulo the field prime: for
  operands of magnitude at most 8 the five limbs of the product denote a number congruent to
  the product of the operands, although all sums are taken on 64-bit and 128-bit words that
  wrap, and the result has magnitude 1.
\<close>

theorem field_multiplication_exact:
  assumes "fe_mag 8 a" and "fe_mag 8 b"
  shows "fe_val (secp256k1_fe_mul a b) mod fe_p = (fe_val a * fe_val b) mod fe_p \<and> fe_mag 1 (secp256k1_fe_mul a b)"
  using fe_mul_spec [OF assms] .

theorem field_multiplication_exact_witness:
  "fe_val (secp256k1_fe_mul (secp256k1_fe_negate (fe_make 1 0 0 0 0) 1) (secp256k1_fe_negate (fe_make 1 0 0 0 0) 1)) mod fe_p = 1"
proof -
  let ?m = "secp256k1_fe_negate (fe_make 1 0 0 0 0) 1"
  have m: "fe_mag 8 ?m" by (simp add: fe_mag_def secp256k1_fe_negate_def)
  have "fe_val ?m * fe_val ?m mod fe_p = 1" by (simp add: fe_val_def fe_p_def secp256k1_fe_negate_def)
  then show ?thesis using field_multiplication_exact [OF m m] by simp
qed

text \<open>
  The dedicated squaring, which halves the number of limb products and keeps some of its
  variables signed, gives the same field element as multiplying a number by itself: after
  normalisation the two results are equal limb for limb.
\<close>

lemma field_squaring_is_self_multiplication:
  assumes "fe_mag 8 a"
  shows "secp256k1_fe_normalize (secp256k1_fe_sqr a) = secp256k1_fe_normalize (secp256k1_fe_mul a a)"
proof -
  note s = fe_sqr_spec [OF assms] and m = fe_mul_spec [OF assms assms]
  have "fe_mag 32 (secp256k1_fe_sqr a)" "fe_mag 32 (secp256k1_fe_mul a a)" using s m by (auto intro: fe_mag_mono)
  then show ?thesis using s m normalize_spec by (intro fe_val_inj) auto
qed

text \<open>
  C25: normalisation returns the canonical representative: for magnitudes up to 32 the result
  has every limb in its range and denotes the residue of the element modulo the prime, and
  the variable-time normalisation computes exactly the same limbs.
\<close>

theorem field_normalization_canonical:
  assumes "fe_mag 32 r"
  shows "fe_val (secp256k1_fe_normalize r) = fe_val r mod fe_p \<and> fe_reduced (secp256k1_fe_normalize r) \<and>
    secp256k1_fe_normalize_var r = secp256k1_fe_normalize r"
  using normalize_spec [OF assms] normalize_var_eq [OF assms] by simp

theorem field_normalization_canonical_witness:
  "fe_val (secp256k1_fe_normalize (fe_make 0xFFFFEFFFFFC30 0xFFFFFFFFFFFFF 0xFFFFFFFFFFFFF 0xFFFFFFFFFFFFF 0xFFFFFFFFFFFF)) = 1"
proof -
  let ?r = "fe_make 0xFFFFEFFFFFC30 0xFFFFFFFFFFFFF 0xFFFFFFFFFFFFF 0xFFFFFFFFFFFFF 0xFFFFFFFFFFFF"
  have "fe_mag 32 ?r" "fe_val ?r mod fe_p = 1" by (simp_all add: fe_mag_def fe_val_def fe_p_def)
  then show ?thesis using field_normalization_canonical [of ?r] by simp
qed

text \<open>
  The two zero tests are exact: on every element of magnitude at most 32 they answer yes
  precisely when the denoted number is a multiple of the prime, also the one that may stop
  after looking at the lowest limb.
\<close>

lemma field_zero_tests_exact:
  assumes "fe_mag 32 r"
  shows "(secp256k1_fe_normalizes_to_zero r \<longleftrightarrow> fe_val r mod fe_p = 0) \<and>
    (secp256k1_fe_normalizes_to_zero_var r \<longleftrightarrow> fe_val r mod fe_p = 0)"
  using normalizes_to_zero_spec [OF assms] normalizes_to_zero_var_eq by simp

text \<open>
  Negation with the magnitude of its argument gives the additive inverse: adding the
  negation of an element to a second element gives an element that tests as zero exactly when the
  two are congruent modulo the prime, for magnitudes that keep the sum at 32 or below.
\<close>

lemma field_subtraction_tests_equality:
  assumes "fe_mag m a" and "fe_mag n b" and "0 \<le> m" and "m + 1 + n \<le> 32"
  shows "secp256k1_fe_normalizes_to_zero (secp256k1_fe_add (secp256k1_fe_negate a m) b) \<longleftrightarrow>
    fe_val a mod fe_p = fe_val b mod fe_p"
  using fe_difference_zero [OF assms] by simp

end
