(* ===== verification/FieldBytes.thy ===== *)
theory FieldBytes
  imports Field5x52
begin

text \<open>
  \<open>secp256k1_fe_set_b32\<close> and \<open>secp256k1_fe_get_b32\<close> of \<open>secp256k1/src/field_5x52_impl.h\<close>:
  field elements as 32 big-endian bytes, and as four 64-bit words. The lemmas follow single
  bits through the nibble loops.
\<close>

section \<open>Bytes\<close>

definition fe_limb :: "secp256k1_fe \<Rightarrow> nat \<Rightarrow> 64 word" where
  "fe_limb a i = [fe0 a, fe1 a, fe2 a, fe3 a, fe4 a] ! i"

definition fe_of_limbs :: "64 word list \<Rightarrow> secp256k1_fe" where
  "fe_of_limbs n = fe_make (n ! 0) (n ! 1) (n ! 2) (n ! 3) (n ! 4)"

text \<open>The body of the two nested loops: nibble \<open>j\<close> of byte \<open>31 - i\<close>.\<close>

definition set_b32_nibble :: "bytes \<Rightarrow> nat \<times> nat \<Rightarrow> 64 word list \<Rightarrow> 64 word list" where
  "set_b32_nibble a ij n =
     (case ij of (i, j) \<Rightarrow>
        let limb = (8 * i + 4 * j) div 52; shift = (8 * i + 4 * j) mod 52
        in n[limb := n ! limb OR push_bit shift (ucast (drop_bit (4 * j) (a ! (31 - i)) AND 0xF))])"

definition secp256k1_fe_set_b32 :: "bytes \<Rightarrow> bool \<times> secp256k1_fe" where
  "secp256k1_fe_set_b32 a =
     (let n = fold (set_b32_nibble a) (List.product [0..<32] [0..<2]) [0, 0, 0, 0, 0];
          r = fe_of_limbs n
      in (\<not> (fe4 r = M48 \<and> (fe3 r AND fe2 r AND fe1 r) = M52 \<and> 0xFFFFEFFFFFC2F \<le> fe0 r), r))"

definition get_b32_byte :: "secp256k1_fe \<Rightarrow> nat \<Rightarrow> byte" where
  "get_b32_byte a i = fold (\<lambda>j c.
     let limb = (8 * i + 4 * j) div 52; shift = (8 * i + 4 * j) mod 52
     in c OR push_bit (4 * j) (ucast (drop_bit shift (fe_limb a limb) AND 0xF))) [0..<2] 0"

definition secp256k1_fe_get_b32 :: "secp256k1_fe \<Rightarrow> bytes" where
  "secp256k1_fe_get_b32 a = map (\<lambda>k. get_b32_byte a (31 - k)) [0..<32]"


section \<open>Bits of an element\<close>

text \<open>Bit \<open>k\<close> of the 256-bit value that reduced limbs hold.\<close>

definition fe_bit :: "secp256k1_fe \<Rightarrow> nat \<Rightarrow> bool" where
  "fe_bit a k \<longleftrightarrow> bit (fe_limb a (k div 52)) (k mod 52)"

text \<open>Limbs in their range, so that the value has 256 bits.\<close>

definition fe_limbs_ok :: "secp256k1_fe \<Rightarrow> bool" where
  "fe_limbs_ok a \<longleftrightarrow> uint (fe0 a) < 2 ^ 52 \<and> uint (fe1 a) < 2 ^ 52 \<and> uint (fe2 a) < 2 ^ 52 \<and>
     uint (fe3 a) < 2 ^ 52 \<and> uint (fe4 a) < 2 ^ 48"

lemma nibble_loop: "List.product [0..<32] [0..<2] = map (\<lambda>k. (k div 2, k mod 2)) [0..<64]"
  by (simp add: upt_rec)

text \<open>The limbs after \<open>m\<close> nibbles hold the lowest \<open>4 m\<close> bits.\<close>

definition limbs_hold :: "bytes \<Rightarrow> nat \<Rightarrow> 64 word list \<Rightarrow> bool" where
  "limbs_hold a m n \<longleftrightarrow> length n = 5 \<and>
     (\<forall>l<5. \<forall>b. bit (n ! l) b \<longleftrightarrow> b < 52 \<and> 52 * l + b < 4 * m \<and> bit (a ! (31 - (52 * l + b) div 8)) ((52 * l + b) mod 8))"

lemma bit_nibble: "bit (ucast (drop_bit (4 * j) x AND 0xF) :: 64 word) t \<longleftrightarrow> t < 4 \<and> bit (x :: byte) (4 * j + t)"
proof -
  have m: "(0xF :: byte) = mask 4" by (simp add: mask_eq_decr_exp)
  show ?thesis unfolding m by (auto simp: bit_simps)
qed

lemma nibble_pos:
  fixes l b m :: nat
  assumes "b < 52"
  shows "4 * m \<le> 52 * l + b \<and> 52 * l + b < 4 * m + 4 \<longleftrightarrow>
    l = 4 * m div 52 \<and> 4 * m mod 52 \<le> b \<and> b - 4 * m mod 52 < 4"
proof -
  define L S where "L = 4 * m div 52" and "S = 4 * m mod 52"
  have m: "4 * m = 52 * L + S" unfolding L_def S_def by (simp only: mult_div_mod_eq)
  have S: "S \<le> 48" unfolding S_def by presburger
  show ?thesis unfolding L_def [symmetric] S_def [symmetric] unfolding m
  proof
    assume "52 * L + S \<le> 52 * l + b \<and> 52 * l + b < 52 * L + S + 4"
    moreover from this have "l = L" using assms S by linarith
    ultimately show "l = L \<and> S \<le> b \<and> b - S < 4" by auto
  qed auto
qed

lemma nibble_byte:
  fixes m t :: nat
  assumes "t < 4"
  shows "(4 * m + t) div 8 = m div 2 \<and> (4 * m + t) mod 8 = 4 * (m mod 2) + t"
proof -
  have "4 * m + t = 8 * (m div 2) + (4 * (m mod 2) + t)" using mult_div_mod_eq [of 2 m] by linarith
  moreover have "4 * (m mod 2) + t < 8" using assms by (cases "m mod 2 = 0") auto
  moreover have "(8 * q + r) div 8 = q \<and> (8 * q + r) mod 8 = r" if "r < 8" for q r :: nat
    using that by simp
  ultimately show ?thesis by metis
qed

lemma limbs_hold_step:
  assumes h: "limbs_hold a m n" and m: "m < 64"
  shows "limbs_hold a (Suc m) (set_b32_nibble a (m div 2, m mod 2) n)"
proof -
  define L S where "L = 4 * m div 52" and "S = 4 * m mod 52"
  have P: "8 * (m div 2) + 4 * (m mod 2) = 4 * m" by presburger
  let ?nib = "push_bit S (ucast (drop_bit (4 * (m mod 2)) (a ! (31 - m div 2)) AND 0xF)) :: 64 word"
  have n': "set_b32_nibble a (m div 2, m mod 2) n = n[L := n ! L OR ?nib]"
    by (simp only: set_b32_nibble_def prod.case P L_def S_def Let_def)
  have len: "length n = 5" and n: "\<And>l b. l < 5 \<Longrightarrow> bit (n ! l) b \<longleftrightarrow>
      b < 52 \<and> 52 * l + b < 4 * m \<and> bit (a ! (31 - (52 * l + b) div 8)) ((52 * l + b) mod 8)"
    using h unfolding limbs_hold_def by auto
  have S: "S \<le> 48" unfolding S_def by presburger
  have LS: "52 * L + S = 4 * m" unfolding L_def S_def by (simp only: mult_div_mod_eq)
  have nib: "bit ?nib b \<longleftrightarrow> S \<le> b \<and> b - S < 4 \<and> bit (a ! (31 - m div 2)) (4 * (m mod 2) + (b - S))" for b
    using S by (auto simp: bit_push_bit_iff bit_nibble)
  have pos: "(52 * L + b) div 8 = m div 2" "(52 * L + b) mod 8 = 4 * (m mod 2) + (b - S)" if "S \<le> b" "b - S < 4" for b
  proof -
    have "52 * L + b = 4 * m + (b - S)" using that LS by linarith
    then show "(52 * L + b) div 8 = m div 2" "(52 * L + b) mod 8 = 4 * (m mod 2) + (b - S)"
      using nibble_byte [OF that(2), of m] by simp_all
  qed
  have "bit (n[L := n ! L OR ?nib] ! l) b \<longleftrightarrow>
      b < 52 \<and> 52 * l + b < 4 * Suc m \<and> bit (a ! (31 - (52 * l + b) div 8)) ((52 * l + b) mod 8)" if "l < 5" for l b
  proof (cases "b < 52")
    case True
    then show ?thesis using that len n [OF that] nib pos nibble_pos [of b m l, folded L_def S_def]
      by (cases "l = L") (auto simp: bit_or_iff)
  next
    case False
    then show ?thesis using that len n [OF that] nib S by (cases "l = L") (auto simp: bit_or_iff)
  qed
  then show ?thesis unfolding n' limbs_hold_def using len by simp
qed

lemma set_b32_bits:
  "limbs_hold a 64 (fold (set_b32_nibble a) (List.product [0..<32] [0..<2]) [0, 0, 0, 0, 0])"
proof -
  have "m \<le> 64 \<Longrightarrow> limbs_hold a m (fold (set_b32_nibble a) (map (\<lambda>k. (k div 2, k mod 2)) [0..<m]) [0, 0, 0, 0, 0])" for m
  proof (induction m)
    case 0
    have "[0, 0, 0, 0, 0] ! l = (0 :: 64 word)" if "l < 5" for l
      using that by (auto simp: less_Suc_eq numeral_eq_Suc)
    then show ?case by (simp add: limbs_hold_def)
  qed (simp add: limbs_hold_step)
  then show ?thesis unfolding nibble_loop by blast
qed

lemma uint_lt_bits: "uint (x :: 'a::len word) < 2 ^ n \<longleftrightarrow> (\<forall>b. bit x b \<longrightarrow> b < n)"
proof
  assume a: "uint x < 2 ^ n"
  have "x AND mask n = x" by (rule word_uint_eqI, unfold uint_and_mask) (simp add: a mod_pos_pos_trivial)
  then show "\<forall>b. bit x b \<longrightarrow> b < n" by (metis bit_and_iff bit_mask_iff)
next
  assume "\<forall>b. bit x b \<longrightarrow> b < n"
  then have "x = x AND mask n" by (intro bit_eqI) (auto simp: bit_simps dest: bit_imp_le_length)
  then show "uint x < 2 ^ n" by (metis uint_and_mask pos_mod_bound zero_less_numeral zero_less_power)
qed

lemma fe_limb_simps [simp]:
  "fe_limb a 0 = fe0 a" "fe_limb a (Suc 0) = fe1 a" "fe_limb a 2 = fe2 a" "fe_limb a 3 = fe3 a" "fe_limb a 4 = fe4 a"
  by (simp_all add: fe_limb_def numeral_eq_Suc)

lemma less5: "l < 5 \<longleftrightarrow> l = 0 \<or> l = Suc 0 \<or> l = 2 \<or> l = 3 \<or> l = (4 :: nat)"
  by auto

lemma fe_limb_of_limbs: "l < 5 \<Longrightarrow> fe_limb (fe_of_limbs n) l = n ! l"
  unfolding less5 by (auto simp: fe_of_limbs_def)

lemma set_b32_limb: "l < 5 \<Longrightarrow> bit (fe_limb (snd (secp256k1_fe_set_b32 a)) l) b \<longleftrightarrow>
    b < 52 \<and> 52 * l + b < 256 \<and> bit (a ! (31 - (52 * l + b) div 8)) ((52 * l + b) mod 8)"
  using set_b32_bits [of a] by (simp add: secp256k1_fe_set_b32_def Let_def fe_limb_of_limbs limbs_hold_def)

lemma set_b32_limbs_ok: "fe_limbs_ok (snd (secp256k1_fe_set_b32 a))"
  using set_b32_limb [of 0 a] set_b32_limb [of 1 a] set_b32_limb [of 2 a] set_b32_limb [of 3 a] set_b32_limb [of 4 a]
  unfolding fe_limbs_ok_def uint_lt_bits by auto

lemma fe_bit_set_b32: "k < 256 \<Longrightarrow> fe_bit (snd (secp256k1_fe_set_b32 a)) k \<longleftrightarrow> bit (a ! (31 - k div 8)) (k mod 8)"
  unfolding fe_bit_def by (subst set_b32_limb) (simp_all add: less_mult_imp_div_less)

lemma bit_low_nibble: "bit (ucast (drop_bit s (x :: 64 word) AND 0xF) :: byte) t \<longleftrightarrow> t < 4 \<and> bit x (s + t)"
proof -
  have m: "(0xF :: 64 word) = mask 4" by (simp add: mask_eq_decr_exp)
  show ?thesis unfolding m by (auto simp: bit_simps)
qed

lemma nibble_limb:
  fixes p t :: nat
  assumes "t < 4"
  shows "(4 * p + t) div 52 = 4 * p div 52 \<and> (4 * p + t) mod 52 = 4 * p mod 52 + t"
proof -
  have "4 * p mod 52 = 4 * (p mod 13)" using mult_mod_right [of 4 p 13] by simp
  moreover have "p mod 13 \<le> 12" using mod_less_divisor [of 13 p] by simp
  ultimately have "4 * p mod 52 + t < 52" using assms by linarith
  moreover have "(52 * q + r) div 52 = q \<and> (52 * q + r) mod 52 = r" if "r < 52" for q r :: nat
    using that by simp
  moreover have "4 * p + t = 52 * (4 * p div 52) + (4 * p mod 52 + t)"
    using mult_div_mod_eq [of 52 "4 * p"] by linarith
  ultimately show ?thesis by metis
qed

lemma bit_get_b32_byte:
  assumes "t < 8"
  shows "bit (get_b32_byte a i) t \<longleftrightarrow> fe_bit a (8 * i + t)"
proof -
  have u: "[0..<2] = [0, Suc 0]" by (simp add: upt_rec)
  have g: "get_b32_byte a i = ucast (drop_bit (8 * i mod 52) (fe_limb a (8 * i div 52)) AND 0xF) OR
      push_bit 4 (ucast (drop_bit ((8 * i + 4) mod 52) (fe_limb a ((8 * i + 4) div 52)) AND 0xF))"
    unfolding get_b32_byte_def u by (simp only: fold_simps Let_def o_apply id_apply mult_0_right add_0_right or.left_neutral
      push_bit_0_id mult_1_right One_nat_def [symmetric] or.left_neutral)
  have b: "bit (get_b32_byte a i) t \<longleftrightarrow>
      t < 4 \<and> bit (fe_limb a (8 * i div 52)) (8 * i mod 52 + t) \<or>
      4 \<le> t \<and> t - 4 < 4 \<and> bit (fe_limb a ((8 * i + 4) div 52)) ((8 * i + 4) mod 52 + (t - 4))"
    unfolding g bit_or_iff bit_push_bit_iff bit_low_nibble using assms by auto
  show ?thesis
  proof (cases "t < 4")
    case True
    have "(8 * i + t) div 52 = 8 * i div 52 \<and> (8 * i + t) mod 52 = 8 * i mod 52 + t"
      using nibble_limb [OF True, of "2 * i"] by (simp only: mult.assoc [symmetric]) simp
    then show ?thesis unfolding b fe_bit_def using True by simp
  next
    case False
    have e: "8 * i + t = 8 * i + 4 + (t - 4)" using False by simp
    have e4: "4 * (2 * i + 1) = 8 * i + 4" by simp
    have s: "t - 4 < 4" using False assms by simp
    have "(8 * i + 4 + (t - 4)) div 52 = (8 * i + 4) div 52 \<and> (8 * i + 4 + (t - 4)) mod 52 = (8 * i + 4) mod 52 + (t - 4)"
      by (rule nibble_limb [OF s, of "2 * i + 1", unfolded e4])
    then show ?thesis unfolding b fe_bit_def e using False assms s by simp
  qed
qed

section \<open>Round trips\<close>

lemma get_b32_nth: "k < 32 \<Longrightarrow> secp256k1_fe_get_b32 a ! k = get_b32_byte a (31 - k)"
  by (simp add: secp256k1_fe_get_b32_def)

lemma get_set_b32: "length b = 32 \<Longrightarrow> secp256k1_fe_get_b32 (snd (secp256k1_fe_set_b32 b)) = b"
proof (rule nth_equalityI)
  assume l: "length b = 32"
  then show "length (secp256k1_fe_get_b32 (snd (secp256k1_fe_set_b32 b))) = length b"
    by (simp add: secp256k1_fe_get_b32_def)
  fix k assume "k < length (secp256k1_fe_get_b32 (snd (secp256k1_fe_set_b32 b)))"
  then have k: "k < 32" by (simp add: secp256k1_fe_get_b32_def)
  show "secp256k1_fe_get_b32 (snd (secp256k1_fe_set_b32 b)) ! k = b ! k"
  proof (rule bit_word_eqI)
    fix t assume "t < LENGTH(8)"
    then have t: "t < 8" by simp
    then show "bit (secp256k1_fe_get_b32 (snd (secp256k1_fe_set_b32 b)) ! k) t = bit (b ! k) t"
      using k by (simp add: get_b32_nth bit_get_b32_byte fe_bit_set_b32)
  qed
qed

lemma set_get_b32: "fe_limbs_ok a \<Longrightarrow> snd (secp256k1_fe_set_b32 (secp256k1_fe_get_b32 a)) = a"
proof -
  assume ok: "fe_limbs_ok a"
  have "fe_limb (snd (secp256k1_fe_set_b32 (secp256k1_fe_get_b32 a))) l = fe_limb a l" if l: "l < 5" for l
  proof (rule bit_eqI)
    fix b
    have "bit (fe_limb a l) b \<longrightarrow> b < 52 \<and> 52 * l + b < 256"
      using ok l unfolding fe_limbs_ok_def uint_lt_bits less5 by auto
    moreover have "bit (secp256k1_fe_get_b32 a ! (31 - (52 * l + b) div 8)) ((52 * l + b) mod 8) \<longleftrightarrow> bit (fe_limb a l) b"
      if "b < 52" "52 * l + b < 256"
    proof -
      have "(52 * l + b) div 8 < 32" using that(2) by (simp add: less_mult_imp_div_less)
      then show ?thesis using that(1) by (simp add: get_b32_nth bit_get_b32_byte fe_bit_def)
    qed
    ultimately show "bit (fe_limb (snd (secp256k1_fe_set_b32 (secp256k1_fe_get_b32 a))) l) b = bit (fe_limb a l) b"
      unfolding set_b32_limb [OF l] by blast
  qed
  then show ?thesis
    by (metis fe_limb_simps fe_make_eta less5)
qed

section \<open>Values\<close>

lemma bits_uint: "uint (x :: 'a::len word) < 2 ^ n \<Longrightarrow> horner_sum of_bool 2 (map (bit x) [0..<n]) = uint x"
proof -
  assume a: "uint x < 2 ^ n"
  have "map (bit x) [0..<n] = map (bit (uint x)) [0..<n]"
    by (auto simp: bit_simps dest: bit_imp_le_length)
  then have "horner_sum of_bool 2 (map (bit x) [0..<n]) = take_bit n (uint x)"
    by (simp only: horner_sum_bit_eq_take_bit)
  then show ?thesis using a by (simp add: take_bit_int_eq_self)
qed

lemma fe_val_bits:
  assumes "fe_limbs_ok a"
  shows "fe_val a = horner_sum of_bool 2 (map (fe_bit a) [0..<256])"
proof -
  have s: "[i..<k] = [i..<j] @ [j..<k]" if "i \<le> j" "j \<le> k" for i j k :: nat
    using upt_add_eq_append [of i j "k - j"] that by simp
  have u: "[0..<256] = [0..<52] @ map (\<lambda>b. b + 52 * 1) [0..<52] @ map (\<lambda>b. b + 52 * 2) [0..<52] @
      map (\<lambda>b. b + 52 * 3) [0..<52] @ map (\<lambda>b. b + 52 * 4) [0..<48]"
    unfolding map_add_upt using s [of 0 52 256] s [of 52 104 256] s [of 104 156 256] s [of 156 208 256] by simp
  have p: "fe_bit a (b + 52 * l) = bit (fe_limb a l) b" if "b < 52" for b l
    unfolding fe_bit_def using that by simp
  have b: "map (fe_bit a) [0..<52] = map (bit (fe0 a)) [0..<52]"
    "map (fe_bit a) (map (\<lambda>b. b + 52 * 1) [0..<52]) = map (bit (fe1 a)) [0..<52]"
    "map (fe_bit a) (map (\<lambda>b. b + 52 * 2) [0..<52]) = map (bit (fe2 a)) [0..<52]"
    "map (fe_bit a) (map (\<lambda>b. b + 52 * 3) [0..<52]) = map (bit (fe3 a)) [0..<52]"
    "map (fe_bit a) (map (\<lambda>b. b + 52 * 4) [0..<48]) = map (bit (fe4 a)) [0..<48]"
    using p [of _ "Suc 0"] p [of _ 2] p [of _ 3] p [of _ 4] p [of _ 0] by simp_all
  show ?thesis
    unfolding u map_append horner_sum_append b using assms
    by (simp add: fe_limbs_ok_def bits_uint fe_val_def)
qed

lemma bytes_bits: "horner_sum uint 256 (bs :: bytes) = horner_sum of_bool 2 (concat (map (\<lambda>b. map (bit b) [0..<8]) bs))"
proof (induction bs)
  case (Cons b bs)
  have "uint b < 2 ^ 8" using uint_bounded [of b] by simp
  then show ?case using Cons by (simp add: horner_sum_append bits_uint)
qed simp

lemma concat_bits: "n \<le> length bs \<Longrightarrow>
    map (\<lambda>k. bit (bs ! (k div 8)) (k mod 8)) [0..<8 * n] = concat (map (\<lambda>b. map (bit b) [0..<8]) (take n (bs :: bytes)))"
proof (induction n)
  case (Suc n)
  have "[0..<8 * Suc n] = [0..<8 * n] @ map (\<lambda>t. t + 8 * n) [0..<8]"
    unfolding map_add_upt using upt_add_eq_append [of 0 "8 * n" 8] by (simp add: add.commute)
  moreover have "map (\<lambda>t. bit (bs ! ((t + 8 * n) div 8)) ((t + 8 * n) mod 8)) [0..<8] = map (bit (bs ! n)) [0..<8]"
    by simp
  ultimately show ?case using Suc by (simp add: take_Suc_conv_app_nth comp_def)
qed simp

lemma set_b32_value: "length b = 32 \<Longrightarrow> fe_val (snd (secp256k1_fe_set_b32 b)) = horner_sum uint 256 (rev b)"
proof -
  assume l: "length b = 32"
  have "map (fe_bit (snd (secp256k1_fe_set_b32 b))) [0..<256] = map (\<lambda>k. bit (rev b ! (k div 8)) (k mod 8)) [0..<8 * 32]"
    by (auto simp: fe_bit_set_b32 rev_nth l less_mult_imp_div_less)
  also have "\<dots> = concat (map (\<lambda>b. map (bit b) [0..<8]) (rev b))"
    using concat_bits [of 32 "rev b"] l by simp
  finally show ?thesis using fe_val_bits [OF set_b32_limbs_ok] bytes_bits [of "rev b"] by simp
qed

lemma set_b32_flag: "fst (secp256k1_fe_set_b32 b) \<longleftrightarrow> fe_val (snd (secp256k1_fe_set_b32 b)) < fe_p"
proof -
  let ?w = "snd (secp256k1_fe_set_b32 b)"
  have ok: "uint (fe0 ?w) \<le> 2 ^ 52 - 1" "uint (fe1 ?w) \<le> 2 ^ 52 - 1" "uint (fe2 ?w) \<le> 2 ^ 52 - 1"
    "uint (fe3 ?w) \<le> 2 ^ 52 - 1" "uint (fe4 ?w) \<le> 2 ^ 48 + 2 ^ 11" "uint (fe4 ?w) < 2 ^ 48"
    using set_b32_limbs_ok [of b] by (simp_all add: fe_limbs_ok_def)
  have d: "drop_bit 48 (fe4 ?w) = 0" using ok(6) unfolding word_uint_eq_iff top48 by simp
  have "fst (secp256k1_fe_set_b32 b) \<longleftrightarrow>
      \<not> (fe4 ?w = M48 \<and> (fe3 ?w AND fe2 ?w AND fe1 ?w) = M52 \<and> 0xFFFFEFFFFFC2F \<le> fe0 ?w)"
    by (simp only: secp256k1_fe_set_b32_def Let_def fst_conv snd_conv)
  also have "\<dots> \<longleftrightarrow> fe_over ?w = 0"
    unfolding fe_over_def d by (simp add: of_bool_def ac_simps)
  finally show ?thesis unfolding fe_over_spec [OF ok(1-5)] by auto
qed

section \<open>Storage\<close>

lemma from_to_storage: "fe_limbs_ok a \<Longrightarrow> secp256k1_fe_from_storage (secp256k1_fe_to_storage a) = a"
proof -
  assume ok: "fe_limbs_ok a"
  have b: "\<And>n. bit (fe0 a) n \<Longrightarrow> n < 52" "\<And>n. bit (fe1 a) n \<Longrightarrow> n < 52" "\<And>n. bit (fe2 a) n \<Longrightarrow> n < 52"
    "\<And>n. bit (fe3 a) n \<Longrightarrow> n < 52" "\<And>n. bit (fe4 a) n \<Longrightarrow> n < 48"
    using ok unfolding fe_limbs_ok_def uint_lt_bits by auto
  let ?s = "secp256k1_fe_to_storage a"
  have "st0 ?s AND mask 52 = fe0 a" by (rule bit_word_eqI) (auto simp: secp256k1_fe_to_storage_def bit_simps dest: b)
  moreover have "drop_bit 52 (st0 ?s) OR (push_bit 12 (st1 ?s) AND mask 52) = fe1 a"
    by (rule bit_word_eqI) (auto simp: secp256k1_fe_to_storage_def bit_simps dest: b)
  moreover have "drop_bit 40 (st1 ?s) OR (push_bit 24 (st2 ?s) AND mask 52) = fe2 a"
    by (rule bit_word_eqI) (auto simp: secp256k1_fe_to_storage_def bit_simps dest: b)
  moreover have "drop_bit 28 (st2 ?s) OR (push_bit 36 (st3 ?s) AND mask 52) = fe3 a"
    by (rule bit_word_eqI) (auto simp: secp256k1_fe_to_storage_def bit_simps dest: b)
  moreover have "drop_bit 16 (st3 ?s) = fe4 a"
    by (rule bit_word_eqI) (auto simp: secp256k1_fe_to_storage_def bit_simps dest: b)
  ultimately show ?thesis by (simp add: secp256k1_fe_from_storage_def mask52)
qed

lemma to_from_storage: "secp256k1_fe_to_storage (secp256k1_fe_from_storage s) = s"
proof -
  let ?a = "secp256k1_fe_from_storage s"
  note d = secp256k1_fe_from_storage_def mask52
  have "fe0 ?a OR push_bit 52 (fe1 ?a) = st0 s"
    by (rule bit_word_eqI, case_tac "n < 52") (simp_all add: d bit_simps)
  moreover have "drop_bit 12 (fe1 ?a) OR push_bit 40 (fe2 ?a) = st1 s"
    by (rule bit_word_eqI, case_tac "n < 40") (simp_all add: d bit_simps)
  moreover have "drop_bit 24 (fe2 ?a) OR push_bit 28 (fe3 ?a) = st2 s"
    by (rule bit_word_eqI, case_tac "n < 28") (simp_all add: d bit_simps)
  moreover have "drop_bit 36 (fe3 ?a) OR push_bit 16 (fe4 ?a) = st3 s"
    by (rule bit_word_eqI, case_tac "n < 16") (simp_all add: d bit_simps)
  ultimately show ?thesis by (cases s) (simp add: secp256k1_fe_to_storage_def)
qed

section \<open>Properties\<close>

text \<open>
  Reading 32 bytes as a field element gives the big-endian number they spell, reports
  success exactly when that number is below the prime, and writing the element out gives
  the same 32 bytes; reading back what is written for limbs in range gives the same limbs.
\<close>

lemma field_bytes_round_trip:
  assumes "length b = 32" and "fe_limbs_ok a"
  shows "fe_val (snd (secp256k1_fe_set_b32 b)) = horner_sum uint 256 (rev b) \<and>
    (fst (secp256k1_fe_set_b32 b) \<longleftrightarrow> horner_sum uint 256 (rev b) < fe_p) \<and>
    secp256k1_fe_get_b32 (snd (secp256k1_fe_set_b32 b)) = b \<and>
    snd (secp256k1_fe_set_b32 (secp256k1_fe_get_b32 a)) = a"
  using set_b32_value [OF assms(1)] set_b32_flag [of b] get_set_b32 [OF assms(1)] set_get_b32 [OF assms(2)] by simp

text \<open>
  Packing a field element into four 64-bit words loses nothing: unpacking gives the same
  limbs for every element in range, and every four words are the packing of their unpacking.
\<close>

lemma field_storage_round_trip:
  assumes "fe_limbs_ok a"
  shows "secp256k1_fe_from_storage (secp256k1_fe_to_storage a) = a \<and> secp256k1_fe_to_storage (secp256k1_fe_from_storage s) = s"
  using from_to_storage [OF assms] to_from_storage by simp

end
