(* ===== verification/RootWords.thy ===== *)
theory RootWords
  imports SparkPrelude
begin

text \<open>
  The constants of the SHA-2 family as FIPS 180-4 introduces them: the first bits of the fractional parts of
  square and cube roots of the first primes. They are computed here from that description, by a search for
  the integer root of a scaled prime, so that the specifications of SHA-256 and SHA-512 share no constant
  with the code they are compared to.
\<close>

section \<open>Integer roots\<close>

text \<open>The greatest number of at most \<open>b\<close> bits above \<open>x\<close> whose \<open>k\<close>-th power is at most \<open>n\<close>, bit by bit.\<close>

primrec root_search :: "nat \<Rightarrow> nat \<Rightarrow> nat \<Rightarrow> nat \<Rightarrow> nat" where
  "root_search k n 0 x = x"
| "root_search k n (Suc b) x = root_search k n b (if (x + 2 ^ b) ^ k \<le> n then x + 2 ^ b else x)"

lemma root_search_eq:
  assumes "r ^ k \<le> n" "n < (r + 1) ^ k" "x \<le> r" "r < x + 2 ^ b"
  shows "root_search k n b x = r"
  using assms(3,4)
proof (induction b arbitrary: x)
  case (Suc b)
  have "(x + 2 ^ b) ^ k \<le> n \<longleftrightarrow> x + 2 ^ b \<le> r"
  proof
    assume "x + 2 ^ b \<le> r"
    then have "(x + 2 ^ b) ^ k \<le> r ^ k" by (rule power_mono) simp
    then show "(x + 2 ^ b) ^ k \<le> n" using assms(1) by simp
  next
    assume le: "(x + 2 ^ b) ^ k \<le> n"
    show "x + 2 ^ b \<le> r"
    proof (rule ccontr)
      assume "\<not> x + 2 ^ b \<le> r"
      then have "(r + 1) ^ k \<le> (x + 2 ^ b) ^ k" by (intro power_mono) simp_all
      then show False using le assms(2) by simp
    qed
  qed
  then show ?case using Suc.prems by (simp add: Suc.IH)
qed simp

text \<open>The first \<open>w\<close> bits of the fractional part of the \<open>k\<close>-th root of \<open>p\<close>, whose integer part has at most 8 bits.\<close>

definition root_fraction :: "nat \<Rightarrow> nat \<Rightarrow> nat \<Rightarrow> nat" where
  "root_fraction k w p = root_search k (p * 2 ^ (k * w)) (w + 8) 0 mod 2 ^ w"

lemma root_fraction_eq:
  assumes "r ^ k \<le> p * 2 ^ (k * w)" "p * 2 ^ (k * w) < (r + 1) ^ k" "r < 2 ^ (w + 8)"
  shows "root_fraction k w p = r mod 2 ^ w"
  unfolding root_fraction_def using root_search_eq [OF assms(1,2), of 0 "w + 8"] assms(3) by simp

section \<open>The constants\<close>

definition first_primes :: "nat list" where
  "first_primes =
    [2, 3, 5, 7, 11, 13, 17, 19, 23, 29, 31, 37, 41, 43, 47, 53, 59, 61, 67, 71,
     73, 79, 83, 89, 97, 101, 103, 107, 109, 113, 127, 131, 137, 139, 149, 151, 157, 163, 167, 173,
     179, 181, 191, 193, 197, 199, 211, 223, 227, 229, 233, 239, 241, 251, 257, 263, 269, 271, 277, 281,
     283, 293, 307, 311, 313, 317, 331, 337, 347, 349, 353, 359, 367, 373, 379, 383, 389, 397, 401, 409]"

definition fips_iv :: "32 word list" where
  "fips_iv = map (\<lambda>p. word_of_nat (root_fraction 2 32 p)) (take 8 first_primes)"

definition fips512_iv :: "64 word list" where
  "fips512_iv = map (\<lambda>p. word_of_nat (root_fraction 2 64 p)) (take 8 first_primes)"

definition fips512_K :: "64 word list" where
  "fips512_K = map (\<lambda>p. word_of_nat (root_fraction 3 64 p)) first_primes"

lemma sqrt32:
  "root_fraction 2 32 2 = 0x6a09e667"
  "root_fraction 2 32 3 = 0xbb67ae85"
  "root_fraction 2 32 5 = 0x3c6ef372"
  "root_fraction 2 32 7 = 0xa54ff53a"
  "root_fraction 2 32 11 = 0x510e527f"
  "root_fraction 2 32 13 = 0x9b05688c"
  "root_fraction 2 32 17 = 0x1f83d9ab"
  "root_fraction 2 32 19 = 0x5be0cd19"
proof -
  show "root_fraction 2 32 2 = 0x6a09e667" using root_fraction_eq [of "0x16a09e667" 2 2 32] by simp
  show "root_fraction 2 32 3 = 0xbb67ae85" using root_fraction_eq [of "0x1bb67ae85" 2 3 32] by simp
  show "root_fraction 2 32 5 = 0x3c6ef372" using root_fraction_eq [of "0x23c6ef372" 2 5 32] by simp
  show "root_fraction 2 32 7 = 0xa54ff53a" using root_fraction_eq [of "0x2a54ff53a" 2 7 32] by simp
  show "root_fraction 2 32 11 = 0x510e527f" using root_fraction_eq [of "0x3510e527f" 2 11 32] by simp
  show "root_fraction 2 32 13 = 0x9b05688c" using root_fraction_eq [of "0x39b05688c" 2 13 32] by simp
  show "root_fraction 2 32 17 = 0x1f83d9ab" using root_fraction_eq [of "0x41f83d9ab" 2 17 32] by simp
  show "root_fraction 2 32 19 = 0x5be0cd19" using root_fraction_eq [of "0x45be0cd19" 2 19 32] by simp
qed

lemma sqrt64:
  "root_fraction 2 64 2 = 0x6a09e667f3bcc908"
  "root_fraction 2 64 3 = 0xbb67ae8584caa73b"
  "root_fraction 2 64 5 = 0x3c6ef372fe94f82b"
  "root_fraction 2 64 7 = 0xa54ff53a5f1d36f1"
  "root_fraction 2 64 11 = 0x510e527fade682d1"
  "root_fraction 2 64 13 = 0x9b05688c2b3e6c1f"
  "root_fraction 2 64 17 = 0x1f83d9abfb41bd6b"
  "root_fraction 2 64 19 = 0x5be0cd19137e2179"
proof -
  show "root_fraction 2 64 2 = 0x6a09e667f3bcc908" using root_fraction_eq [of "0x16a09e667f3bcc908" 2 2 64] by simp
  show "root_fraction 2 64 3 = 0xbb67ae8584caa73b" using root_fraction_eq [of "0x1bb67ae8584caa73b" 2 3 64] by simp
  show "root_fraction 2 64 5 = 0x3c6ef372fe94f82b" using root_fraction_eq [of "0x23c6ef372fe94f82b" 2 5 64] by simp
  show "root_fraction 2 64 7 = 0xa54ff53a5f1d36f1" using root_fraction_eq [of "0x2a54ff53a5f1d36f1" 2 7 64] by simp
  show "root_fraction 2 64 11 = 0x510e527fade682d1" using root_fraction_eq [of "0x3510e527fade682d1" 2 11 64] by simp
  show "root_fraction 2 64 13 = 0x9b05688c2b3e6c1f" using root_fraction_eq [of "0x39b05688c2b3e6c1f" 2 13 64] by simp
  show "root_fraction 2 64 17 = 0x1f83d9abfb41bd6b" using root_fraction_eq [of "0x41f83d9abfb41bd6b" 2 17 64] by simp
  show "root_fraction 2 64 19 = 0x5be0cd19137e2179" using root_fraction_eq [of "0x45be0cd19137e2179" 2 19 64] by simp
qed

lemma cbrt64_1:
  "root_fraction 3 64 2 = 0x428a2f98d728ae22"
  "root_fraction 3 64 3 = 0x7137449123ef65cd"
  "root_fraction 3 64 5 = 0xb5c0fbcfec4d3b2f"
  "root_fraction 3 64 7 = 0xe9b5dba58189dbbc"
  "root_fraction 3 64 11 = 0x3956c25bf348b538"
  "root_fraction 3 64 13 = 0x59f111f1b605d019"
  "root_fraction 3 64 17 = 0x923f82a4af194f9b"
  "root_fraction 3 64 19 = 0xab1c5ed5da6d8118"
  "root_fraction 3 64 23 = 0xd807aa98a3030242"
  "root_fraction 3 64 29 = 0x12835b0145706fbe"
  "root_fraction 3 64 31 = 0x243185be4ee4b28c"
  "root_fraction 3 64 37 = 0x550c7dc3d5ffb4e2"
  "root_fraction 3 64 41 = 0x72be5d74f27b896f"
  "root_fraction 3 64 43 = 0x80deb1fe3b1696b1"
  "root_fraction 3 64 47 = 0x9bdc06a725c71235"
  "root_fraction 3 64 53 = 0xc19bf174cf692694"
  "root_fraction 3 64 59 = 0xe49b69c19ef14ad2"
  "root_fraction 3 64 61 = 0xefbe4786384f25e3"
  "root_fraction 3 64 67 = 0xfc19dc68b8cd5b5"
  "root_fraction 3 64 71 = 0x240ca1cc77ac9c65"
proof -
  show "root_fraction 3 64 2 = 0x428a2f98d728ae22" using root_fraction_eq [of "0x1428a2f98d728ae22" 3 2 64] by simp
  show "root_fraction 3 64 3 = 0x7137449123ef65cd" using root_fraction_eq [of "0x17137449123ef65cd" 3 3 64] by simp
  show "root_fraction 3 64 5 = 0xb5c0fbcfec4d3b2f" using root_fraction_eq [of "0x1b5c0fbcfec4d3b2f" 3 5 64] by simp
  show "root_fraction 3 64 7 = 0xe9b5dba58189dbbc" using root_fraction_eq [of "0x1e9b5dba58189dbbc" 3 7 64] by simp
  show "root_fraction 3 64 11 = 0x3956c25bf348b538" using root_fraction_eq [of "0x23956c25bf348b538" 3 11 64] by simp
  show "root_fraction 3 64 13 = 0x59f111f1b605d019" using root_fraction_eq [of "0x259f111f1b605d019" 3 13 64] by simp
  show "root_fraction 3 64 17 = 0x923f82a4af194f9b" using root_fraction_eq [of "0x2923f82a4af194f9b" 3 17 64] by simp
  show "root_fraction 3 64 19 = 0xab1c5ed5da6d8118" using root_fraction_eq [of "0x2ab1c5ed5da6d8118" 3 19 64] by simp
  show "root_fraction 3 64 23 = 0xd807aa98a3030242" using root_fraction_eq [of "0x2d807aa98a3030242" 3 23 64] by simp
  show "root_fraction 3 64 29 = 0x12835b0145706fbe" using root_fraction_eq [of "0x312835b0145706fbe" 3 29 64] by simp
  show "root_fraction 3 64 31 = 0x243185be4ee4b28c" using root_fraction_eq [of "0x3243185be4ee4b28c" 3 31 64] by simp
  show "root_fraction 3 64 37 = 0x550c7dc3d5ffb4e2" using root_fraction_eq [of "0x3550c7dc3d5ffb4e2" 3 37 64] by simp
  show "root_fraction 3 64 41 = 0x72be5d74f27b896f" using root_fraction_eq [of "0x372be5d74f27b896f" 3 41 64] by simp
  show "root_fraction 3 64 43 = 0x80deb1fe3b1696b1" using root_fraction_eq [of "0x380deb1fe3b1696b1" 3 43 64] by simp
  show "root_fraction 3 64 47 = 0x9bdc06a725c71235" using root_fraction_eq [of "0x39bdc06a725c71235" 3 47 64] by simp
  show "root_fraction 3 64 53 = 0xc19bf174cf692694" using root_fraction_eq [of "0x3c19bf174cf692694" 3 53 64] by simp
  show "root_fraction 3 64 59 = 0xe49b69c19ef14ad2" using root_fraction_eq [of "0x3e49b69c19ef14ad2" 3 59 64] by simp
  show "root_fraction 3 64 61 = 0xefbe4786384f25e3" using root_fraction_eq [of "0x3efbe4786384f25e3" 3 61 64] by simp
  show "root_fraction 3 64 67 = 0xfc19dc68b8cd5b5" using root_fraction_eq [of "0x40fc19dc68b8cd5b5" 3 67 64] by simp
  show "root_fraction 3 64 71 = 0x240ca1cc77ac9c65" using root_fraction_eq [of "0x4240ca1cc77ac9c65" 3 71 64] by simp
qed

lemma cbrt64_2:
  "root_fraction 3 64 73 = 0x2de92c6f592b0275"
  "root_fraction 3 64 79 = 0x4a7484aa6ea6e483"
  "root_fraction 3 64 83 = 0x5cb0a9dcbd41fbd4"
  "root_fraction 3 64 89 = 0x76f988da831153b5"
  "root_fraction 3 64 97 = 0x983e5152ee66dfab"
  "root_fraction 3 64 101 = 0xa831c66d2db43210"
  "root_fraction 3 64 103 = 0xb00327c898fb213f"
  "root_fraction 3 64 107 = 0xbf597fc7beef0ee4"
  "root_fraction 3 64 109 = 0xc6e00bf33da88fc2"
  "root_fraction 3 64 113 = 0xd5a79147930aa725"
  "root_fraction 3 64 127 = 0x6ca6351e003826f"
  "root_fraction 3 64 131 = 0x142929670a0e6e70"
  "root_fraction 3 64 137 = 0x27b70a8546d22ffc"
  "root_fraction 3 64 139 = 0x2e1b21385c26c926"
  "root_fraction 3 64 149 = 0x4d2c6dfc5ac42aed"
  "root_fraction 3 64 151 = 0x53380d139d95b3df"
  "root_fraction 3 64 157 = 0x650a73548baf63de"
  "root_fraction 3 64 163 = 0x766a0abb3c77b2a8"
  "root_fraction 3 64 167 = 0x81c2c92e47edaee6"
  "root_fraction 3 64 173 = 0x92722c851482353b"
proof -
  show "root_fraction 3 64 73 = 0x2de92c6f592b0275" using root_fraction_eq [of "0x42de92c6f592b0275" 3 73 64] by simp
  show "root_fraction 3 64 79 = 0x4a7484aa6ea6e483" using root_fraction_eq [of "0x44a7484aa6ea6e483" 3 79 64] by simp
  show "root_fraction 3 64 83 = 0x5cb0a9dcbd41fbd4" using root_fraction_eq [of "0x45cb0a9dcbd41fbd4" 3 83 64] by simp
  show "root_fraction 3 64 89 = 0x76f988da831153b5" using root_fraction_eq [of "0x476f988da831153b5" 3 89 64] by simp
  show "root_fraction 3 64 97 = 0x983e5152ee66dfab" using root_fraction_eq [of "0x4983e5152ee66dfab" 3 97 64] by simp
  show "root_fraction 3 64 101 = 0xa831c66d2db43210" using root_fraction_eq [of "0x4a831c66d2db43210" 3 101 64] by simp
  show "root_fraction 3 64 103 = 0xb00327c898fb213f" using root_fraction_eq [of "0x4b00327c898fb213f" 3 103 64] by simp
  show "root_fraction 3 64 107 = 0xbf597fc7beef0ee4" using root_fraction_eq [of "0x4bf597fc7beef0ee4" 3 107 64] by simp
  show "root_fraction 3 64 109 = 0xc6e00bf33da88fc2" using root_fraction_eq [of "0x4c6e00bf33da88fc2" 3 109 64] by simp
  show "root_fraction 3 64 113 = 0xd5a79147930aa725" using root_fraction_eq [of "0x4d5a79147930aa725" 3 113 64] by simp
  show "root_fraction 3 64 127 = 0x6ca6351e003826f" using root_fraction_eq [of "0x506ca6351e003826f" 3 127 64] by simp
  show "root_fraction 3 64 131 = 0x142929670a0e6e70" using root_fraction_eq [of "0x5142929670a0e6e70" 3 131 64] by simp
  show "root_fraction 3 64 137 = 0x27b70a8546d22ffc" using root_fraction_eq [of "0x527b70a8546d22ffc" 3 137 64] by simp
  show "root_fraction 3 64 139 = 0x2e1b21385c26c926" using root_fraction_eq [of "0x52e1b21385c26c926" 3 139 64] by simp
  show "root_fraction 3 64 149 = 0x4d2c6dfc5ac42aed" using root_fraction_eq [of "0x54d2c6dfc5ac42aed" 3 149 64] by simp
  show "root_fraction 3 64 151 = 0x53380d139d95b3df" using root_fraction_eq [of "0x553380d139d95b3df" 3 151 64] by simp
  show "root_fraction 3 64 157 = 0x650a73548baf63de" using root_fraction_eq [of "0x5650a73548baf63de" 3 157 64] by simp
  show "root_fraction 3 64 163 = 0x766a0abb3c77b2a8" using root_fraction_eq [of "0x5766a0abb3c77b2a8" 3 163 64] by simp
  show "root_fraction 3 64 167 = 0x81c2c92e47edaee6" using root_fraction_eq [of "0x581c2c92e47edaee6" 3 167 64] by simp
  show "root_fraction 3 64 173 = 0x92722c851482353b" using root_fraction_eq [of "0x592722c851482353b" 3 173 64] by simp
qed

lemma cbrt64_3:
  "root_fraction 3 64 179 = 0xa2bfe8a14cf10364"
  "root_fraction 3 64 181 = 0xa81a664bbc423001"
  "root_fraction 3 64 191 = 0xc24b8b70d0f89791"
  "root_fraction 3 64 193 = 0xc76c51a30654be30"
  "root_fraction 3 64 197 = 0xd192e819d6ef5218"
  "root_fraction 3 64 199 = 0xd69906245565a910"
  "root_fraction 3 64 211 = 0xf40e35855771202a"
  "root_fraction 3 64 223 = 0x106aa07032bbd1b8"
  "root_fraction 3 64 227 = 0x19a4c116b8d2d0c8"
  "root_fraction 3 64 229 = 0x1e376c085141ab53"
  "root_fraction 3 64 233 = 0x2748774cdf8eeb99"
  "root_fraction 3 64 239 = 0x34b0bcb5e19b48a8"
  "root_fraction 3 64 241 = 0x391c0cb3c5c95a63"
  "root_fraction 3 64 251 = 0x4ed8aa4ae3418acb"
  "root_fraction 3 64 257 = 0x5b9cca4f7763e373"
  "root_fraction 3 64 263 = 0x682e6ff3d6b2b8a3"
  "root_fraction 3 64 269 = 0x748f82ee5defb2fc"
  "root_fraction 3 64 271 = 0x78a5636f43172f60"
  "root_fraction 3 64 277 = 0x84c87814a1f0ab72"
  "root_fraction 3 64 281 = 0x8cc702081a6439ec"
proof -
  show "root_fraction 3 64 179 = 0xa2bfe8a14cf10364" using root_fraction_eq [of "0x5a2bfe8a14cf10364" 3 179 64] by simp
  show "root_fraction 3 64 181 = 0xa81a664bbc423001" using root_fraction_eq [of "0x5a81a664bbc423001" 3 181 64] by simp
  show "root_fraction 3 64 191 = 0xc24b8b70d0f89791" using root_fraction_eq [of "0x5c24b8b70d0f89791" 3 191 64] by simp
  show "root_fraction 3 64 193 = 0xc76c51a30654be30" using root_fraction_eq [of "0x5c76c51a30654be30" 3 193 64] by simp
  show "root_fraction 3 64 197 = 0xd192e819d6ef5218" using root_fraction_eq [of "0x5d192e819d6ef5218" 3 197 64] by simp
  show "root_fraction 3 64 199 = 0xd69906245565a910" using root_fraction_eq [of "0x5d69906245565a910" 3 199 64] by simp
  show "root_fraction 3 64 211 = 0xf40e35855771202a" using root_fraction_eq [of "0x5f40e35855771202a" 3 211 64] by simp
  show "root_fraction 3 64 223 = 0x106aa07032bbd1b8" using root_fraction_eq [of "0x6106aa07032bbd1b8" 3 223 64] by simp
  show "root_fraction 3 64 227 = 0x19a4c116b8d2d0c8" using root_fraction_eq [of "0x619a4c116b8d2d0c8" 3 227 64] by simp
  show "root_fraction 3 64 229 = 0x1e376c085141ab53" using root_fraction_eq [of "0x61e376c085141ab53" 3 229 64] by simp
  show "root_fraction 3 64 233 = 0x2748774cdf8eeb99" using root_fraction_eq [of "0x62748774cdf8eeb99" 3 233 64] by simp
  show "root_fraction 3 64 239 = 0x34b0bcb5e19b48a8" using root_fraction_eq [of "0x634b0bcb5e19b48a8" 3 239 64] by simp
  show "root_fraction 3 64 241 = 0x391c0cb3c5c95a63" using root_fraction_eq [of "0x6391c0cb3c5c95a63" 3 241 64] by simp
  show "root_fraction 3 64 251 = 0x4ed8aa4ae3418acb" using root_fraction_eq [of "0x64ed8aa4ae3418acb" 3 251 64] by simp
  show "root_fraction 3 64 257 = 0x5b9cca4f7763e373" using root_fraction_eq [of "0x65b9cca4f7763e373" 3 257 64] by simp
  show "root_fraction 3 64 263 = 0x682e6ff3d6b2b8a3" using root_fraction_eq [of "0x6682e6ff3d6b2b8a3" 3 263 64] by simp
  show "root_fraction 3 64 269 = 0x748f82ee5defb2fc" using root_fraction_eq [of "0x6748f82ee5defb2fc" 3 269 64] by simp
  show "root_fraction 3 64 271 = 0x78a5636f43172f60" using root_fraction_eq [of "0x678a5636f43172f60" 3 271 64] by simp
  show "root_fraction 3 64 277 = 0x84c87814a1f0ab72" using root_fraction_eq [of "0x684c87814a1f0ab72" 3 277 64] by simp
  show "root_fraction 3 64 281 = 0x8cc702081a6439ec" using root_fraction_eq [of "0x68cc702081a6439ec" 3 281 64] by simp
qed

lemma cbrt64_4:
  "root_fraction 3 64 283 = 0x90befffa23631e28"
  "root_fraction 3 64 293 = 0xa4506cebde82bde9"
  "root_fraction 3 64 307 = 0xbef9a3f7b2c67915"
  "root_fraction 3 64 311 = 0xc67178f2e372532b"
  "root_fraction 3 64 313 = 0xca273eceea26619c"
  "root_fraction 3 64 317 = 0xd186b8c721c0c207"
  "root_fraction 3 64 331 = 0xeada7dd6cde0eb1e"
  "root_fraction 3 64 337 = 0xf57d4f7fee6ed178"
  "root_fraction 3 64 347 = 0x6f067aa72176fba"
  "root_fraction 3 64 349 = 0xa637dc5a2c898a6"
  "root_fraction 3 64 353 = 0x113f9804bef90dae"
  "root_fraction 3 64 359 = 0x1b710b35131c471b"
  "root_fraction 3 64 367 = 0x28db77f523047d84"
  "root_fraction 3 64 373 = 0x32caab7b40c72493"
  "root_fraction 3 64 379 = 0x3c9ebe0a15c9bebc"
  "root_fraction 3 64 383 = 0x431d67c49c100d4c"
  "root_fraction 3 64 389 = 0x4cc5d4becb3e42b6"
  "root_fraction 3 64 397 = 0x597f299cfc657e2a"
  "root_fraction 3 64 401 = 0x5fcb6fab3ad6faec"
  "root_fraction 3 64 409 = 0x6c44198c4a475817"
proof -
  show "root_fraction 3 64 283 = 0x90befffa23631e28" using root_fraction_eq [of "0x690befffa23631e28" 3 283 64] by simp
  show "root_fraction 3 64 293 = 0xa4506cebde82bde9" using root_fraction_eq [of "0x6a4506cebde82bde9" 3 293 64] by simp
  show "root_fraction 3 64 307 = 0xbef9a3f7b2c67915" using root_fraction_eq [of "0x6bef9a3f7b2c67915" 3 307 64] by simp
  show "root_fraction 3 64 311 = 0xc67178f2e372532b" using root_fraction_eq [of "0x6c67178f2e372532b" 3 311 64] by simp
  show "root_fraction 3 64 313 = 0xca273eceea26619c" using root_fraction_eq [of "0x6ca273eceea26619c" 3 313 64] by simp
  show "root_fraction 3 64 317 = 0xd186b8c721c0c207" using root_fraction_eq [of "0x6d186b8c721c0c207" 3 317 64] by simp
  show "root_fraction 3 64 331 = 0xeada7dd6cde0eb1e" using root_fraction_eq [of "0x6eada7dd6cde0eb1e" 3 331 64] by simp
  show "root_fraction 3 64 337 = 0xf57d4f7fee6ed178" using root_fraction_eq [of "0x6f57d4f7fee6ed178" 3 337 64] by simp
  show "root_fraction 3 64 347 = 0x6f067aa72176fba" using root_fraction_eq [of "0x706f067aa72176fba" 3 347 64] by simp
  show "root_fraction 3 64 349 = 0xa637dc5a2c898a6" using root_fraction_eq [of "0x70a637dc5a2c898a6" 3 349 64] by simp
  show "root_fraction 3 64 353 = 0x113f9804bef90dae" using root_fraction_eq [of "0x7113f9804bef90dae" 3 353 64] by simp
  show "root_fraction 3 64 359 = 0x1b710b35131c471b" using root_fraction_eq [of "0x71b710b35131c471b" 3 359 64] by simp
  show "root_fraction 3 64 367 = 0x28db77f523047d84" using root_fraction_eq [of "0x728db77f523047d84" 3 367 64] by simp
  show "root_fraction 3 64 373 = 0x32caab7b40c72493" using root_fraction_eq [of "0x732caab7b40c72493" 3 373 64] by simp
  show "root_fraction 3 64 379 = 0x3c9ebe0a15c9bebc" using root_fraction_eq [of "0x73c9ebe0a15c9bebc" 3 379 64] by simp
  show "root_fraction 3 64 383 = 0x431d67c49c100d4c" using root_fraction_eq [of "0x7431d67c49c100d4c" 3 383 64] by simp
  show "root_fraction 3 64 389 = 0x4cc5d4becb3e42b6" using root_fraction_eq [of "0x74cc5d4becb3e42b6" 3 389 64] by simp
  show "root_fraction 3 64 397 = 0x597f299cfc657e2a" using root_fraction_eq [of "0x7597f299cfc657e2a" 3 397 64] by simp
  show "root_fraction 3 64 401 = 0x5fcb6fab3ad6faec" using root_fraction_eq [of "0x75fcb6fab3ad6faec" 3 401 64] by simp
  show "root_fraction 3 64 409 = 0x6c44198c4a475817" using root_fraction_eq [of "0x76c44198c4a475817" 3 409 64] by simp
qed

lemmas root_values = sqrt32 sqrt64 cbrt64_1 cbrt64_2 cbrt64_3 cbrt64_4

end
