(* ===== verification/Sha256.thy ===== *)
theory Sha256
  imports SparkPrelude RootWords
begin

text \<open>
  \<open>secp256k1/src/hash_impl.h\<close>: SHA-256, HMAC-SHA-256 and the RFC 6979 generator. The buffer
  \<open>buf\<close> is kept as its 64 bytes, because the code writes it as bytes and reads it as sixteen
  little-endian words; \<open>bytes\<close> is a 64-bit counter. The lemmas relate the 64 unrolled rounds
  to the loop of FIPS 180-4, and the incremental interface to the hash of the whole message.
\<close>

section \<open>State\<close>

record secp256k1_sha256_t =
  sha_s :: "32 word list"
  sha_buf :: bytes
  sha_bytes :: "64 word"

definition BE32 :: "32 word \<Rightarrow> 32 word" where
  "BE32 p = push_bit 24 (p AND 0xFF) OR push_bit 8 (p AND 0xFF00) OR drop_bit 8 (p AND 0xFF0000) OR
     drop_bit 24 (p AND 0xFF000000)"

definition Ch :: "32 word \<Rightarrow> 32 word \<Rightarrow> 32 word \<Rightarrow> 32 word" where
  "Ch x y z = z XOR (x AND (y XOR z))"
definition Maj :: "32 word \<Rightarrow> 32 word \<Rightarrow> 32 word \<Rightarrow> 32 word" where
  "Maj x y z = (x AND y) OR (z AND (x OR y))"
definition hSigma0 :: "32 word \<Rightarrow> 32 word" where
  "hSigma0 x = (drop_bit 2 x OR push_bit 30 x) XOR (drop_bit 13 x OR push_bit 19 x) XOR (drop_bit 22 x OR push_bit 10 x)"
definition hSigma1 :: "32 word \<Rightarrow> 32 word" where
  "hSigma1 x = (drop_bit 6 x OR push_bit 26 x) XOR (drop_bit 11 x OR push_bit 21 x) XOR (drop_bit 25 x OR push_bit 7 x)"
definition hsigma0 :: "32 word \<Rightarrow> 32 word" where
  "hsigma0 x = (drop_bit 7 x OR push_bit 25 x) XOR (drop_bit 18 x OR push_bit 14 x) XOR drop_bit 3 x"
definition hsigma1 :: "32 word \<Rightarrow> 32 word" where
  "hsigma1 x = (drop_bit 17 x OR push_bit 15 x) XOR (drop_bit 19 x OR push_bit 13 x) XOR drop_bit 10 x"

text \<open>The macro assigns its arguments \<open>d\<close> and \<open>h\<close>; the definition returns their new values.\<close>

definition Round :: "32 word \<Rightarrow> 32 word \<Rightarrow> 32 word \<Rightarrow> 32 word \<Rightarrow> 32 word \<Rightarrow> 32 word \<Rightarrow> 32 word \<Rightarrow> 32 word \<Rightarrow>
    32 word \<Rightarrow> 32 word \<Rightarrow> 32 word \<times> 32 word" where
  "Round a b c d e f g h k w =
     (let t1 = h + hSigma1 e + Ch e f g + k + w; t2 = hSigma0 a + Maj a b c in (d + t1, t1 + t2))"

definition sha256_iv :: "32 word list" where
  "sha256_iv = [0x6a09e667, 0xbb67ae85, 0x3c6ef372, 0xa54ff53a, 0x510e527f, 0x9b05688c, 0x1f83d9ab, 0x5be0cd19]"

definition secp256k1_sha256_initialize :: "secp256k1_sha256_t \<Rightarrow> secp256k1_sha256_t" where
  "secp256k1_sha256_initialize hash = hash\<lparr>sha_s := sha256_iv, sha_bytes := 0\<rparr>"

definition secp256k1_sha256_transform :: "32 word list \<Rightarrow> 32 word list \<Rightarrow> 32 word list" where
  "secp256k1_sha256_transform s chunk =
     (let a = s ! 0; b = s ! 1; c = s ! 2; d = s ! 3; e = s ! 4; f = s ! 5; g = s ! 6; h = s ! 7;
          w0 = BE32 (chunk ! 0);
          (d, h) = Round a b c d e f g h 0x428a2f98 w0;
          w1 = BE32 (chunk ! 1);
          (c, g) = Round h a b c d e f g 0x71374491 w1;
          w2 = BE32 (chunk ! 2);
          (b, f) = Round g h a b c d e f 0xb5c0fbcf w2;
          w3 = BE32 (chunk ! 3);
          (a, e) = Round f g h a b c d e 0xe9b5dba5 w3;
          w4 = BE32 (chunk ! 4);
          (h, d) = Round e f g h a b c d 0x3956c25b w4;
          w5 = BE32 (chunk ! 5);
          (g, c) = Round d e f g h a b c 0x59f111f1 w5;
          w6 = BE32 (chunk ! 6);
          (f, b) = Round c d e f g h a b 0x923f82a4 w6;
          w7 = BE32 (chunk ! 7);
          (e, a) = Round b c d e f g h a 0xab1c5ed5 w7;
          w8 = BE32 (chunk ! 8);
          (d, h) = Round a b c d e f g h 0xd807aa98 w8;
          w9 = BE32 (chunk ! 9);
          (c, g) = Round h a b c d e f g 0x12835b01 w9;
          w10 = BE32 (chunk ! 10);
          (b, f) = Round g h a b c d e f 0x243185be w10;
          w11 = BE32 (chunk ! 11);
          (a, e) = Round f g h a b c d e 0x550c7dc3 w11;
          w12 = BE32 (chunk ! 12);
          (h, d) = Round e f g h a b c d 0x72be5d74 w12;
          w13 = BE32 (chunk ! 13);
          (g, c) = Round d e f g h a b c 0x80deb1fe w13;
          w14 = BE32 (chunk ! 14);
          (f, b) = Round c d e f g h a b 0x9bdc06a7 w14;
          w15 = BE32 (chunk ! 15);
          (e, a) = Round b c d e f g h a 0xc19bf174 w15;
          w0 = w0 + (hsigma1 w14 + w9 + hsigma0 w1);
          (d, h) = Round a b c d e f g h 0xe49b69c1 w0;
          w1 = w1 + (hsigma1 w15 + w10 + hsigma0 w2);
          (c, g) = Round h a b c d e f g 0xefbe4786 w1;
          w2 = w2 + (hsigma1 w0 + w11 + hsigma0 w3);
          (b, f) = Round g h a b c d e f 0x0fc19dc6 w2;
          w3 = w3 + (hsigma1 w1 + w12 + hsigma0 w4);
          (a, e) = Round f g h a b c d e 0x240ca1cc w3;
          w4 = w4 + (hsigma1 w2 + w13 + hsigma0 w5);
          (h, d) = Round e f g h a b c d 0x2de92c6f w4;
          w5 = w5 + (hsigma1 w3 + w14 + hsigma0 w6);
          (g, c) = Round d e f g h a b c 0x4a7484aa w5;
          w6 = w6 + (hsigma1 w4 + w15 + hsigma0 w7);
          (f, b) = Round c d e f g h a b 0x5cb0a9dc w6;
          w7 = w7 + (hsigma1 w5 + w0 + hsigma0 w8);
          (e, a) = Round b c d e f g h a 0x76f988da w7;
          w8 = w8 + (hsigma1 w6 + w1 + hsigma0 w9);
          (d, h) = Round a b c d e f g h 0x983e5152 w8;
          w9 = w9 + (hsigma1 w7 + w2 + hsigma0 w10);
          (c, g) = Round h a b c d e f g 0xa831c66d w9;
          w10 = w10 + (hsigma1 w8 + w3 + hsigma0 w11);
          (b, f) = Round g h a b c d e f 0xb00327c8 w10;
          w11 = w11 + (hsigma1 w9 + w4 + hsigma0 w12);
          (a, e) = Round f g h a b c d e 0xbf597fc7 w11;
          w12 = w12 + (hsigma1 w10 + w5 + hsigma0 w13);
          (h, d) = Round e f g h a b c d 0xc6e00bf3 w12;
          w13 = w13 + (hsigma1 w11 + w6 + hsigma0 w14);
          (g, c) = Round d e f g h a b c 0xd5a79147 w13;
          w14 = w14 + (hsigma1 w12 + w7 + hsigma0 w15);
          (f, b) = Round c d e f g h a b 0x06ca6351 w14;
          w15 = w15 + (hsigma1 w13 + w8 + hsigma0 w0);
          (e, a) = Round b c d e f g h a 0x14292967 w15;
          w0 = w0 + (hsigma1 w14 + w9 + hsigma0 w1);
          (d, h) = Round a b c d e f g h 0x27b70a85 w0;
          w1 = w1 + (hsigma1 w15 + w10 + hsigma0 w2);
          (c, g) = Round h a b c d e f g 0x2e1b2138 w1;
          w2 = w2 + (hsigma1 w0 + w11 + hsigma0 w3);
          (b, f) = Round g h a b c d e f 0x4d2c6dfc w2;
          w3 = w3 + (hsigma1 w1 + w12 + hsigma0 w4);
          (a, e) = Round f g h a b c d e 0x53380d13 w3;
          w4 = w4 + (hsigma1 w2 + w13 + hsigma0 w5);
          (h, d) = Round e f g h a b c d 0x650a7354 w4;
          w5 = w5 + (hsigma1 w3 + w14 + hsigma0 w6);
          (g, c) = Round d e f g h a b c 0x766a0abb w5;
          w6 = w6 + (hsigma1 w4 + w15 + hsigma0 w7);
          (f, b) = Round c d e f g h a b 0x81c2c92e w6;
          w7 = w7 + (hsigma1 w5 + w0 + hsigma0 w8);
          (e, a) = Round b c d e f g h a 0x92722c85 w7;
          w8 = w8 + (hsigma1 w6 + w1 + hsigma0 w9);
          (d, h) = Round a b c d e f g h 0xa2bfe8a1 w8;
          w9 = w9 + (hsigma1 w7 + w2 + hsigma0 w10);
          (c, g) = Round h a b c d e f g 0xa81a664b w9;
          w10 = w10 + (hsigma1 w8 + w3 + hsigma0 w11);
          (b, f) = Round g h a b c d e f 0xc24b8b70 w10;
          w11 = w11 + (hsigma1 w9 + w4 + hsigma0 w12);
          (a, e) = Round f g h a b c d e 0xc76c51a3 w11;
          w12 = w12 + (hsigma1 w10 + w5 + hsigma0 w13);
          (h, d) = Round e f g h a b c d 0xd192e819 w12;
          w13 = w13 + (hsigma1 w11 + w6 + hsigma0 w14);
          (g, c) = Round d e f g h a b c 0xd6990624 w13;
          w14 = w14 + (hsigma1 w12 + w7 + hsigma0 w15);
          (f, b) = Round c d e f g h a b 0xf40e3585 w14;
          w15 = w15 + (hsigma1 w13 + w8 + hsigma0 w0);
          (e, a) = Round b c d e f g h a 0x106aa070 w15;
          w0 = w0 + (hsigma1 w14 + w9 + hsigma0 w1);
          (d, h) = Round a b c d e f g h 0x19a4c116 w0;
          w1 = w1 + (hsigma1 w15 + w10 + hsigma0 w2);
          (c, g) = Round h a b c d e f g 0x1e376c08 w1;
          w2 = w2 + (hsigma1 w0 + w11 + hsigma0 w3);
          (b, f) = Round g h a b c d e f 0x2748774c w2;
          w3 = w3 + (hsigma1 w1 + w12 + hsigma0 w4);
          (a, e) = Round f g h a b c d e 0x34b0bcb5 w3;
          w4 = w4 + (hsigma1 w2 + w13 + hsigma0 w5);
          (h, d) = Round e f g h a b c d 0x391c0cb3 w4;
          w5 = w5 + (hsigma1 w3 + w14 + hsigma0 w6);
          (g, c) = Round d e f g h a b c 0x4ed8aa4a w5;
          w6 = w6 + (hsigma1 w4 + w15 + hsigma0 w7);
          (f, b) = Round c d e f g h a b 0x5b9cca4f w6;
          w7 = w7 + (hsigma1 w5 + w0 + hsigma0 w8);
          (e, a) = Round b c d e f g h a 0x682e6ff3 w7;
          w8 = w8 + (hsigma1 w6 + w1 + hsigma0 w9);
          (d, h) = Round a b c d e f g h 0x748f82ee w8;
          w9 = w9 + (hsigma1 w7 + w2 + hsigma0 w10);
          (c, g) = Round h a b c d e f g 0x78a5636f w9;
          w10 = w10 + (hsigma1 w8 + w3 + hsigma0 w11);
          (b, f) = Round g h a b c d e f 0x84c87814 w10;
          w11 = w11 + (hsigma1 w9 + w4 + hsigma0 w12);
          (a, e) = Round f g h a b c d e 0x8cc70208 w11;
          w12 = w12 + (hsigma1 w10 + w5 + hsigma0 w13);
          (h, d) = Round e f g h a b c d 0x90befffa w12;
          w13 = w13 + (hsigma1 w11 + w6 + hsigma0 w14);
          (g, c) = Round d e f g h a b c 0xa4506ceb w13;
          (f, b) = Round c d e f g h a b 0xbef9a3f7 (w14 + hsigma1 w12 + w7 + hsigma0 w15);
          (e, a) = Round b c d e f g h a 0xc67178f2 (w15 + hsigma1 w13 + w8 + hsigma0 w0)
      in [s ! 0 + a, s ! 1 + b, s ! 2 + c, s ! 3 + d, s ! 4 + e, s ! 5 + f, s ! 6 + g, s ! 7 + h])"

text \<open>The sixteen words the transform reads from the buffer.\<close>

definition buf_words :: "bytes \<Rightarrow> 32 word list" where
  "buf_words buf = map (\<lambda>i. le_word (take 4 (drop (4 * i) buf))) [0..<16]"

text \<open>\<open>memcpy\<close> of \<open>data\<close> into the buffer at position \<open>n\<close>.\<close>

definition put :: "bytes \<Rightarrow> nat \<Rightarrow> bytes \<Rightarrow> bytes" where
  "put buf n data = take n buf @ data @ drop (n + length data) buf"

function sha256_write_loop :: "secp256k1_sha256_t \<Rightarrow> nat \<Rightarrow> bytes \<Rightarrow> secp256k1_sha256_t" where
  "sha256_write_loop hash bufsize data =
     (if 64 \<le> bufsize + length data then
        let buf = put (sha_buf hash) bufsize (take (64 - bufsize) data)
        in sha256_write_loop (hash\<lparr>sha_buf := buf, sha_s := secp256k1_sha256_transform (sha_s hash) (buf_words buf)\<rparr>)
             0 (drop (64 - bufsize) data)
      else if data \<noteq> [] then hash\<lparr>sha_buf := put (sha_buf hash) bufsize data\<rparr>
      else hash)"
  by pat_completeness auto
termination
  by (relation "measure (\<lambda>(hash, bufsize, data). length data + (if bufsize = 0 then 0 else 1))") auto

declare sha256_write_loop.simps [simp del]

definition secp256k1_sha256_write :: "secp256k1_sha256_t \<Rightarrow> bytes \<Rightarrow> secp256k1_sha256_t" where
  "secp256k1_sha256_write hash data =
     (let bufsize = unat (sha_bytes hash AND 0x3F)
      in sha256_write_loop (hash\<lparr>sha_bytes := sha_bytes hash + of_nat (length data)\<rparr>) bufsize data)"

definition sha256_pad :: bytes where
  "sha256_pad = 0x80 # replicate 63 0"

definition secp256k1_sha256_finalize :: "secp256k1_sha256_t \<Rightarrow> secp256k1_sha256_t \<times> bytes" where
  "secp256k1_sha256_finalize hash =
     (let sizedesc = [BE32 (ucast (drop_bit 29 (sha_bytes hash))), BE32 (ucast (push_bit 3 (sha_bytes hash)))];
          hash = secp256k1_sha256_write hash (take (1 + (119 - unat (sha_bytes hash mod 64)) mod 64) sha256_pad);
          hash = secp256k1_sha256_write hash (concat (map (le_bytes 4) sizedesc))
      in (hash\<lparr>sha_s := replicate 8 0\<rparr>, concat (map (\<lambda>i. le_bytes 4 (BE32 (sha_s hash ! i))) [0..<8])))"

section \<open>The specification of FIPS 180-4\<close>

definition fips_K :: "32 word list" where
  "fips_K =
    [0x428a2f98, 0x71374491, 0xb5c0fbcf, 0xe9b5dba5, 0x3956c25b, 0x59f111f1, 0x923f82a4, 0xab1c5ed5,
     0xd807aa98, 0x12835b01, 0x243185be, 0x550c7dc3, 0x72be5d74, 0x80deb1fe, 0x9bdc06a7, 0xc19bf174,
     0xe49b69c1, 0xefbe4786, 0x0fc19dc6, 0x240ca1cc, 0x2de92c6f, 0x4a7484aa, 0x5cb0a9dc, 0x76f988da,
     0x983e5152, 0xa831c66d, 0xb00327c8, 0xbf597fc7, 0xc6e00bf3, 0xd5a79147, 0x06ca6351, 0x14292967,
     0x27b70a85, 0x2e1b2138, 0x4d2c6dfc, 0x53380d13, 0x650a7354, 0x766a0abb, 0x81c2c92e, 0x92722c85,
     0xa2bfe8a1, 0xa81a664b, 0xc24b8b70, 0xc76c51a3, 0xd192e819, 0xd6990624, 0xf40e3585, 0x106aa070,
     0x19a4c116, 0x1e376c08, 0x2748774c, 0x34b0bcb5, 0x391c0cb3, 0x4ed8aa4a, 0x5b9cca4f, 0x682e6ff3,
     0x748f82ee, 0x78a5636f, 0x84c87814, 0x8cc70208, 0x90befffa, 0xa4506ceb, 0xbef9a3f7, 0xc67178f2]"

definition rotr :: "nat \<Rightarrow> 32 word \<Rightarrow> 32 word" where
  "rotr n x = word_rotr n x"

text \<open>The message schedule of a block of sixteen big-endian words.\<close>

fun fips_W :: "32 word list \<Rightarrow> nat \<Rightarrow> 32 word" where
  "fips_W M t = (if t < 16 then M ! t
     else (rotr 17 (fips_W M (t - 2)) XOR rotr 19 (fips_W M (t - 2)) XOR drop_bit 10 (fips_W M (t - 2))) + fips_W M (t - 7) +
       (rotr 7 (fips_W M (t - 15)) XOR rotr 18 (fips_W M (t - 15)) XOR drop_bit 3 (fips_W M (t - 15))) + fips_W M (t - 16))"

declare fips_W.simps [simp del]

type_synonym sha_vars = "32 word \<times> 32 word \<times> 32 word \<times> 32 word \<times> 32 word \<times> 32 word \<times> 32 word \<times> 32 word"

definition fips_round :: "32 word \<Rightarrow> 32 word \<Rightarrow> sha_vars \<Rightarrow> sha_vars" where
  "fips_round k w v = (case v of (a, b, c, d, e, f, g, h) \<Rightarrow>
     let T1 = h + (rotr 6 e XOR rotr 11 e XOR rotr 25 e) + ((e AND f) XOR (NOT e AND g)) + k + w;
         T2 = (rotr 2 a XOR rotr 13 a XOR rotr 22 a) + ((a AND b) XOR (a AND c) XOR (b AND c))
     in (T1 + T2, a, b, c, d + T1, e, f, g))"

fun fips_rounds :: "32 word list \<Rightarrow> sha_vars \<Rightarrow> nat \<Rightarrow> sha_vars" where
  "fips_rounds M v 0 = v"
| "fips_rounds M v (Suc t) = fips_round (fips_K ! t) (fips_W M t) (fips_rounds M v t)"

definition fips_compress :: "32 word list \<Rightarrow> 32 word list \<Rightarrow> 32 word list" where
  "fips_compress H M =
     (case fips_rounds M (H ! 0, H ! 1, H ! 2, H ! 3, H ! 4, H ! 5, H ! 6, H ! 7) 64 of (a, b, c, d, e, f, g, h) \<Rightarrow>
        [H ! 0 + a, H ! 1 + b, H ! 2 + c, H ! 3 + d, H ! 4 + e, H ! 5 + f, H ! 6 + g, H ! 7 + h])"

section \<open>The unrolled transform is the loop\<close>

lemma rotr_or: "0 < n \<Longrightarrow> n < 32 \<Longrightarrow> drop_bit n x OR push_bit (32 - n) x = rotr n x"
proof (rule bit_word_eqI)
  fix i assume a: "0 < n" "n < 32" "i < LENGTH(32)"
  show "bit (drop_bit n x OR push_bit (32 - n) x) i \<longleftrightarrow> bit (rotr n x) i"
  proof (cases "i + n < 32")
    case True
    then have "\<not> 32 - n \<le> i" by linarith
    then show ?thesis using a True unfolding rotr_def by (simp add: bit_simps add.commute)
  next
    case False
    then have "(i + n) mod 32 = i + n - 32" "\<not> bit x (n + i)" "32 - n \<le> i"
      using a bit_imp_le_length [of x "n + i"] by (auto simp: mod_if)
    then show ?thesis using a False unfolding rotr_def by (simp add: bit_simps add.commute)
  qed
qed

lemma Sigma_rotr:
  "hSigma0 x = rotr 2 x XOR rotr 13 x XOR rotr 22 x" "hSigma1 x = rotr 6 x XOR rotr 11 x XOR rotr 25 x"
  "hsigma0 x = rotr 7 x XOR rotr 18 x XOR drop_bit 3 x" "hsigma1 x = rotr 17 x XOR rotr 19 x XOR drop_bit 10 x"
  using rotr_or [of 2 x] rotr_or [of 13 x] rotr_or [of 22 x] rotr_or [of 6 x] rotr_or [of 11 x] rotr_or [of 25 x]
    rotr_or [of 7 x] rotr_or [of 18 x] rotr_or [of 17 x] rotr_or [of 19 x]
  by (simp_all add: hSigma0_def hSigma1_def hsigma0_def hsigma1_def xor.assoc)

lemma Ch_fips: "Ch x y z = (x AND y) XOR (NOT x AND z)"
  unfolding Ch_def by (rule bit_eqI) (auto simp: bit_simps)

lemma Maj_fips: "Maj x y z = (x AND y) XOR (x AND z) XOR (y AND z)"
  unfolding Maj_def by (rule bit_eqI) (auto simp: bit_simps)

lemma fips_round_Round:
  "Round a b c d e f g h k w = (d', h') \<Longrightarrow> fips_round k w (a, b, c, d, e, f, g, h) = (h', a, b, c, d', e, f, g)"
  by (auto simp: fips_round_def Round_def Let_def Sigma_rotr Ch_fips Maj_fips xor.assoc)

text \<open>
  One step of the unrolled code, read against the loop: a round consumes a fact about the
  state after \<open>t\<close> rounds and leaves one about \<open>t + 1\<close>; an assignment to a schedule word
  leaves a fact about that word.
\<close>

lemma unroll_round:
  assumes "fips_rounds M v t = (a, b, c, d, e, f, g, h)" "fips_W M t = w" "fips_K ! t = k" "t + 1 = t'"
    "\<And>d' h'. fips_rounds M v t' = (h', a, b, c, d', e, f, g) \<Longrightarrow> F d' h' = Q"
  shows "(let (d', h') = Round a b c d e f g h k w in F d' h') = Q"
proof -
  obtain d' h' where r: "Round a b c d e f g h k w = (d', h')" by force
  then have "fips_rounds M v t' = (h', a, b, c, d', e, f, g)"
    using fips_round_Round [OF r] assms(1-4) by auto
  then show ?thesis using assms(5) r by simp
qed

lemma unroll_first:
  assumes "M = map BE32 chunk" "t < 16" "length chunk = 16" "\<And>x. fips_W M t = x \<Longrightarrow> F x = Q"
  shows "Let (BE32 (chunk ! t)) F = Q"
  using assms by (simp add: fips_W.simps [of _ t])

lemma W_next: "fips_W M (t + 16) = fips_W M t + (hsigma1 (fips_W M (t + 14)) + fips_W M (t + 9) + hsigma0 (fips_W M (t + 1)))"
  by (simp add: fips_W.simps [of M "t + 16"] Sigma_rotr xor.assoc ac_simps)

lemma unroll_next:
  assumes "fips_W M t = w0" "t + 14 = t14" "fips_W M t14 = w14" "t + 9 = t9" "fips_W M t9 = w9" "t + 1 = t1"
    "fips_W M t1 = w1" "t + 16 = t'" "\<And>x. fips_W M t' = x \<Longrightarrow> F x = Q"
  shows "Let (w0 + (hsigma1 w14 + w9 + hsigma0 w1)) F = Q"
  using assms W_next [of M t] by auto

lemma unroll_last:
  assumes "fips_rounds M v t = (a, b, c, d, e, f, g, h)" "fips_W M u = w0" "u + 16 = t" "u + 14 = t14" "fips_W M t14 = w14"
    "u + 9 = t9" "fips_W M t9 = w9" "u + 1 = t1" "fips_W M t1 = w1" "fips_K ! t = k" "t + 1 = t'"
    "\<And>d' h'. fips_rounds M v t' = (h', a, b, c, d', e, f, g) \<Longrightarrow> F d' h' = Q"
  shows "(let (d', h') = Round a b c d e f g h k (w0 + hsigma1 w14 + w9 + hsigma0 w1) in F d' h') = Q"
  using assms(12) W_next [of M u] assms(2-9)
  by (intro unroll_round [OF assms(1) _ assms(10,11)]) (auto simp: ac_simps)

lemmas unroll_arith = add_0_left one_add_one numeral_plus_one numeral_plus_numeral add_num_simps one_plus_numeral

lemma transform_fips:
  assumes "length chunk = 16"
  shows "secp256k1_sha256_transform s chunk = fips_compress s (map BE32 chunk)"
proof -
  define M where "M = map BE32 chunk"
  obtain a b c d e f g h where s: "s ! 0 = a" "s ! 1 = b" "s ! 2 = c" "s ! 3 = d" "s ! 4 = e"
    "s ! 5 = f" "s ! 6 = g" "s ! 7 = h" by blast
  define v where "v = (a, b, c, d, e, f, g, h)"
  have 0: "fips_rounds M v 0 = (a, b, c, d, e, f, g, h)" by (simp add: v_def)
  show ?thesis
    unfolding secp256k1_sha256_transform_def s Let_def [of a] Let_def [of b] Let_def [of c] Let_def [of d]
      Let_def [of e] Let_def [of f] Let_def [of g] Let_def [of h]
    apply (insert 0)
    apply ((rule unroll_first [OF M_def _ assms], simp (no_asm),
      rule unroll_round, assumption, assumption, simp (no_asm) add: fips_K_def, simp (no_asm) only: unroll_arith)+)
    apply ((rule unroll_next, assumption, simp (no_asm) only: unroll_arith, assumption,
      simp (no_asm) only: unroll_arith, assumption, simp (no_asm) only: unroll_arith, assumption,
      simp (no_asm) only: unroll_arith,
      rule unroll_round, assumption, assumption, simp (no_asm) add: fips_K_def, simp (no_asm) only: unroll_arith)+)
    apply ((rule unroll_last, assumption, assumption, simp (no_asm) only: unroll_arith, simp (no_asm) only: unroll_arith,
      assumption, simp (no_asm) only: unroll_arith, assumption, simp (no_asm) only: unroll_arith, assumption,
      simp (no_asm) add: fips_K_def, simp (no_asm) only: unroll_arith)+)
    apply (simp (no_asm_simp) only: fips_compress_def s v_def [symmetric] M_def [symmetric] prod.case)
    done
qed

section \<open>The hash of a message\<close>

text \<open>Big-endian words and the sixteen of a block.\<close>

definition be_words :: "bytes \<Rightarrow> 32 word list" where
  "be_words block = map (\<lambda>i. le_word (rev (take 4 (drop (4 * i) block)))) [0..<16]"

lemma bit_BE32:
  assumes "r < 8" "q < 4"
  shows "bit (BE32 x) (8 * q + r) \<longleftrightarrow> bit x (8 * (3 - q) + r)"
proof -
  have m: "(0xFF :: 32 word) = mask 8" "(0xFF00 :: 32 word) = push_bit 8 (mask 8)" "(0xFF0000 :: 32 word) = push_bit 16 (mask 8)"
    "(0xFF000000 :: 32 word) = push_bit 24 (mask 8)"
    by (simp_all add: mask_eq_decr_exp)
  consider "q = 0" | "q = 1" | "q = 2" | "q = 3" using assms(2) by linarith
  then show ?thesis unfolding BE32_def m
    by cases (use assms(1) in \<open>simp_all add: bit_or_iff bit_and_iff bit_push_bit_iff bit_drop_bit_eq bit_mask_iff add.commute\<close>)
qed

lemma BE32_le_word: "length bs = 4 \<Longrightarrow> BE32 (le_word bs) = le_word (rev bs)"
proof (rule bit_word_eqI)
  fix i assume l: "length bs = 4" and "i < LENGTH(32)"
  then have q: "i div 8 < 4" by (simp add: less_mult_imp_div_less)
  have i: "i = 8 * (i div 8) + i mod 8" by simp
  have "bit (BE32 (le_word bs)) i \<longleftrightarrow> bit (le_word bs :: 32 word) (8 * (3 - i div 8) + i mod 8)"
    using bit_BE32 [of "i mod 8" "i div 8" "le_word bs"] q by simp
  also have "\<dots> \<longleftrightarrow> bit (bs ! (3 - i div 8)) (i mod 8)"
  proof -
    have "8 * (3 - i div 8) + i mod 8 < 32" using q mod_less_divisor [of 8 i] by linarith
    then show ?thesis using l by (simp add: bit_le_word)
  qed
  also have "\<dots> \<longleftrightarrow> bit (le_word (rev bs) :: 32 word) i"
    using l q \<open>i < LENGTH(32)\<close> by (simp add: bit_le_word rev_nth)
  finally show "bit (BE32 (le_word bs)) i \<longleftrightarrow> bit (le_word (rev bs) :: 32 word) i" .
qed

lemma BE32_buf_words: "length buf = 64 \<Longrightarrow> map BE32 (buf_words buf) = be_words buf"
  by (simp add: buf_words_def be_words_def BE32_le_word)

lemma compress_buf: "length buf = 64 \<Longrightarrow> secp256k1_sha256_transform s (buf_words buf) = fips_compress s (be_words buf)"
  by (simp add: transform_fips BE32_buf_words [symmetric] buf_words_def)

text \<open>The hash value after all full blocks of a message.\<close>

function sha_blocks :: "32 word list \<Rightarrow> bytes \<Rightarrow> 32 word list" where
  "sha_blocks H m = (if length m < 64 then H else sha_blocks (fips_compress H (be_words (take 64 m))) (drop 64 m))"
  by pat_completeness auto
termination by (relation "measure (\<lambda>(H, m). length m)") auto

declare sha_blocks.simps [simp del]

lemma sha_blocks_short: "length m < 64 \<Longrightarrow> sha_blocks H m = H"
  by (simp add: sha_blocks.simps)

lemma sha_blocks_cons: "length b = 64 \<Longrightarrow> sha_blocks H (b @ m) = sha_blocks (fips_compress H (be_words b)) m"
  by (simp add: sha_blocks.simps [of H "b @ m"])

text \<open>Padding, and the hash: the blocks of the padded message folded into the initial value.\<close>

definition fips_pad :: "bytes \<Rightarrow> bytes" where
  "fips_pad m = m @ [0x80] @ replicate (nat ((55 - int (length m)) mod 64)) 0 @ rev (le_bytes 8 (of_nat (8 * length m) :: 64 word))"

definition fips_sha256 :: "bytes \<Rightarrow> bytes" where
  "fips_sha256 m = concat (map (\<lambda>w. rev (le_bytes 4 w)) (sha_blocks fips_iv (fips_pad m)))"

text \<open>The code starts from the same words.\<close>

lemma fips_iv_eq: "fips_iv = sha256_iv"
  by (simp add: fips_iv_def first_primes_def sqrt32 sha256_iv_def)

text \<open>
  A state that has absorbed the message \<open>m\<close>: the full blocks are in the hash value, the rest
  is in the buffer, and the counter is its length modulo \<open>2 ^ 64\<close>.
\<close>

definition absorbed :: "secp256k1_sha256_t \<Rightarrow> bytes \<Rightarrow> bool" where
  "absorbed hash m \<longleftrightarrow> length (sha_buf hash) = 64 \<and> sha_bytes hash = of_nat (length m) \<and>
     (\<exists>p r. m = p @ r \<and> 64 dvd length p \<and> length r < 64 \<and> sha_s hash = sha_blocks sha256_iv p \<and>
        take (length r) (sha_buf hash) = r)"

lemma sha_blocks_append: "64 dvd length p \<Longrightarrow> sha_blocks H (p @ q) = sha_blocks (sha_blocks H p) q"
proof (induction H p rule: sha_blocks.induct)
  case (1 H p)
  show ?case
  proof (cases "length p < 64")
    case True
    then have "p = []" using 1(2) by (auto dest: dvd_imp_le)
    then show ?thesis by (simp add: sha_blocks_short)
  next
    case False
    then have "64 dvd length (drop 64 p)" using 1(2) by (simp add: dvd_diff_nat)
    moreover have e: "p @ q = take 64 p @ drop 64 p @ q" by (simp only: append.assoc [symmetric] append_take_drop_id)
    ultimately show ?thesis unfolding e using False 1(1) sha_blocks_cons [of "take 64 p" H "drop 64 p @ q"]
      sha_blocks_cons [of "take 64 p" H "drop 64 p"] by simp
  qed
qed

lemma put_full: "length buf = 64 \<Longrightarrow> length r \<le> 64 \<Longrightarrow> take (length r) buf = r \<Longrightarrow> length d = 64 - length r \<Longrightarrow> put buf (length r) d = r @ d"
  by (simp add: put_def)

lemma put_part: "length buf = 64 \<Longrightarrow> length r + length d \<le> 64 \<Longrightarrow> take (length r) buf = r \<Longrightarrow>
    take (length r + length d) (put buf (length r) d) = r @ d \<and> length (put buf (length r) d) = 64"
  by (simp add: put_def min_def)

lemma write_loop_spec:
  assumes "length (sha_buf hash) = 64" "length r < 64" "take (length r) (sha_buf hash) = r"
  shows "\<exists>p r'. r @ data = p @ r' \<and> 64 dvd length p \<and> length r' < 64 \<and>
    sha_s (sha256_write_loop hash (length r) data) = sha_blocks (sha_s hash) p \<and>
    take (length r') (sha_buf (sha256_write_loop hash (length r) data)) = r' \<and>
    length (sha_buf (sha256_write_loop hash (length r) data)) = 64 \<and>
    sha_bytes (sha256_write_loop hash (length r) data) = sha_bytes hash"
  using assms
proof (induction "length data" arbitrary: hash r data rule: less_induct)
  case less
  show ?case
  proof (cases "64 \<le> length r + length data")
    case False
    then show ?thesis using less.prems put_part [of "sha_buf hash" r data]
      by (intro exI [of _ "[]"] exI [of _ "r @ data"]) (auto simp: sha256_write_loop.simps sha_blocks_short)
  next
    case True
    let ?b = "r @ take (64 - length r) data"
    have b: "length ?b = 64" using True less.prems(2) by simp
    have pf: "put (sha_buf hash) (length r) (take (64 - length r) data) = ?b"
      using less.prems True by (intro put_full) auto
    let ?h = "hash\<lparr>sha_buf := ?b, sha_s := fips_compress (sha_s hash) (be_words ?b)\<rparr>"
    have w: "sha256_write_loop hash (length r) data = sha256_write_loop ?h (length ([] :: bytes)) (drop (64 - length r) data)"
      using True by (subst sha256_write_loop.simps) (simp only: Let_def pf compress_buf [OF b] if_True list.size)
    have "length (drop (64 - length r) data) < length data" using less.prems(2) True by simp
    from less.hyps [OF this, of ?h "[]"] b obtain p r' where IH: "drop (64 - length r) data = p @ r'" "64 dvd length p" "length r' < 64"
      "sha_s (sha256_write_loop hash (length r) data) = sha_blocks (fips_compress (sha_s hash) (be_words ?b)) p"
      "take (length r') (sha_buf (sha256_write_loop hash (length r) data)) = r'"
      "length (sha_buf (sha256_write_loop hash (length r) data)) = 64"
      "sha_bytes (sha256_write_loop hash (length r) data) = sha_bytes hash"
      unfolding w by auto
    have "r @ data = (?b @ p) @ r'" using IH(1) append_take_drop_id [of "64 - length r" data] by simp
    moreover have "64 dvd length (?b @ p)" using b IH(2) by (simp only: length_append) simp
    ultimately show ?thesis using IH sha_blocks_cons [OF b, of "sha_s hash" p] by metis
  qed
qed

lemma bufsize: "unat (of_nat n AND 0x3F :: 64 word) = n mod 64" "unat (of_nat n mod 64 :: 64 word) = n mod 64"
proof -
  have m: "(0x3F :: 64 word) = mask 6" by (simp add: mask_eq_decr_exp)
  have "of_nat n AND mask 6 = (take_bit 6 (of_nat n) :: 64 word)" by (simp add: take_bit_eq_mask)
  then have "of_nat n AND mask 6 = (of_nat (take_bit 6 n) :: 64 word)" by (simp add: take_bit_of_nat)
  moreover have "take_bit 6 n = n mod 64" by (simp add: take_bit_eq_mod)
  ultimately have e: "of_nat n AND mask 6 = (of_nat (n mod 64) :: 64 word)" by simp
  have s: "unat (of_nat (n mod 64) :: 64 word) = n mod 64"
    using mod_less_divisor [of 64 n] by (simp add: unsigned_of_nat take_bit_nat_eq_self less_trans [of _ 64])
  then show "unat (of_nat n AND 0x3F :: 64 word) = n mod 64" unfolding m e .
  have "(of_nat n :: 64 word) mod 64 = of_nat n AND mask 6" 
    using take_bit_eq_mod [of 6 "of_nat n :: 64 word"] by (simp add: take_bit_eq_mask)
  then show "unat (of_nat n mod 64 :: 64 word) = n mod 64" unfolding e using s by simp
qed

lemma write_absorbs:
  assumes "absorbed hash m"
  shows "absorbed (secp256k1_sha256_write hash data) (m @ data)"
proof -
  obtain p r where a: "length (sha_buf hash) = 64" "sha_bytes hash = of_nat (length m)" "m = p @ r" "64 dvd length p"
    "length r < 64" "sha_s hash = sha_blocks sha256_iv p" "take (length r) (sha_buf hash) = r"
    using assms unfolding absorbed_def by blast
  let ?h = "hash\<lparr>sha_bytes := sha_bytes hash + of_nat (length data)\<rparr>"
  have "length m mod 64 = length r" using a(3,4,5) by auto
  then have w: "secp256k1_sha256_write hash data = sha256_write_loop ?h (length r) data"
    by (simp add: secp256k1_sha256_write_def a(2) bufsize)
  define h where "h = sha256_write_loop ?h (length r) data"
  have "\<exists>p r'. r @ data = p @ r' \<and> 64 dvd length p \<and> length r' < 64 \<and> sha_s h = sha_blocks (sha_s hash) p \<and>
      take (length r') (sha_buf h) = r' \<and> length (sha_buf h) = 64 \<and> sha_bytes h = sha_bytes ?h"
    unfolding h_def using write_loop_spec [of ?h r data] a(1,5,7) by simp
  then obtain p' r' where h: "r @ data = p' @ r'" "64 dvd length p'" "length r' < 64" "sha_s h = sha_blocks (sha_s hash) p'"
      "take (length r') (sha_buf h) = r'" "length (sha_buf h) = 64" "sha_bytes h = sha_bytes ?h" by blast
  show ?thesis unfolding w h_def [symmetric] absorbed_def
  proof (intro conjI exI)
    show "m @ data = (p @ p') @ r'" using a(3) h(1) by simp
    show "sha_s h = sha_blocks sha256_iv (p @ p')" using a(4,6) h(4) by (simp add: sha_blocks_append)
    show "64 dvd length (p @ p')" using a(4) h(2) by simp
    show "sha_bytes h = of_nat (length (m @ data))" using a(2) h(7) by simp
  qed (use h in simp_all)
qed

lemma initialize_absorbed: "length (sha_buf hash) = 64 \<Longrightarrow> absorbed (secp256k1_sha256_initialize hash) []"
  by (simp add: absorbed_def secp256k1_sha256_initialize_def sha_blocks_short)

section \<open>Finalising\<close>

lemma pad_count:
  fixes n :: nat
  shows "(119 - n mod 64) mod 64 = nat ((55 - int n) mod 64)"
proof -
  have r: "n mod 64 < 64" by simp
  define q t where "q = n div 64" and "t = n mod 64"
  have "n = q * 64 + t" unfolding q_def t_def by (simp only: div_mult_mod_eq)
  then have "119 - int t = 55 - int n + 64 * (1 + int q)" by simp
  then have "(55 - int n) mod 64 = (119 - int (n mod 64)) mod 64" by (simp only: mod_mult_self2 t_def)
  also have "119 - int (n mod 64) = int (119 - n mod 64)" using r by (simp add: of_nat_diff)
  also have "int (119 - n mod 64) mod 64 = int ((119 - n mod 64) mod 64)" by (simp only: of_nat_mod of_nat_numeral)
  finally show ?thesis by (simp only: nat_int)
qed

lemma take_pad: "k < 64 \<Longrightarrow> take (Suc k) sha256_pad = 0x80 # replicate k 0"
  by (simp add: sha256_pad_def min_def)

lemma le_bytes_BE32: "le_bytes 4 (BE32 x) = rev (le_bytes 4 x)"
proof -
  have "BE32 x = le_word (rev (le_bytes 4 x))" using BE32_le_word [of "le_bytes 4 x"] by (simp add: le_word_le_bytes)
  then show ?thesis by (simp add: le_bytes_le_word)
qed

lemma le_bytes_split: "le_bytes 8 (x :: 64 word) = le_bytes 4 (ucast x :: 32 word) @ le_bytes 4 (ucast (drop_bit 32 x) :: 32 word)"
proof (rule nth_equalityI)
  fix i assume i: "i < length (le_bytes 8 x)"
  show "le_bytes 8 x ! i = (le_bytes 4 (ucast x :: 32 word) @ le_bytes 4 (ucast (drop_bit 32 x) :: 32 word)) ! i"
  proof (cases "i < 4")
    case True
    then show ?thesis by (intro bit_word_eqI) (auto simp: nth_append bit_le_bytes bit_simps)
  next
    case False
    then obtain j where j: "i = 4 + j" using le_Suc_ex [of 4 i] by (auto simp: not_less)
    show ?thesis using i unfolding j by (intro bit_word_eqI) (auto simp: nth_append bit_le_bytes bit_simps add.assoc)
  qed
qed simp

lemma size_bytes:
  "concat (map (le_bytes 4) [BE32 (ucast (drop_bit 29 (of_nat n :: 64 word))), BE32 (ucast (push_bit 3 (of_nat n :: 64 word)))]) =
    rev (le_bytes 8 (of_nat (8 * n) :: 64 word))"
proof -
  have e: "of_nat (8 * n) = push_bit 3 (of_nat n :: 64 word)" by (simp add: push_bit_eq_mult)
  have "ucast (drop_bit 32 (push_bit 3 x)) = (ucast (drop_bit 29 x) :: 32 word)" for x :: "64 word"
    by (rule bit_word_eqI) (auto simp: bit_simps)
  then show ?thesis unfolding e le_bytes_split by (simp add: le_bytes_BE32)
qed

lemma absorbed_full: "absorbed hash m \<Longrightarrow> 64 dvd length m \<Longrightarrow> sha_s hash = sha_blocks sha256_iv m"
proof -
  assume "absorbed hash m" and d: "64 dvd length m"
  then obtain p r where a: "m = p @ r" "64 dvd length p" "length r < 64" "sha_s hash = sha_blocks sha256_iv p"
    unfolding absorbed_def by blast
  then have "64 dvd length r" using d by (simp add: dvd_add_right_iff)
  then have "r = []" using a(3) by (auto dest: dvd_imp_le)
  then show ?thesis using a by simp
qed

lemma length_sha_blocks: "length H = 8 \<Longrightarrow> length (sha_blocks H m) = 8"
proof (induction H m rule: sha_blocks.induct)
  case (1 H m)
  have "length (fips_compress H b) = 8" for b by (simp add: fips_compress_def split: prod.split)
  then show ?case using 1 by (subst sha_blocks.simps) auto
qed

lemma finalize_spec:
  assumes "absorbed hash m"
  shows "snd (secp256k1_sha256_finalize hash) = fips_sha256 m"
proof -
  let ?k = "nat ((55 - int (length m)) mod 64)"
  have n: "sha_bytes hash = of_nat (length m)" using assms by (simp add: absorbed_def)
  have k: "?k < 64" by (simp add: nat_less_iff)
  let ?h1 = "secp256k1_sha256_write hash (0x80 # replicate ?k 0)"
  let ?h2 = "secp256k1_sha256_write ?h1 (rev (le_bytes 8 (of_nat (8 * length m) :: 64 word)))"
  have a: "absorbed ?h2 (fips_pad m)"
    using write_absorbs [OF write_absorbs [OF assms, of "0x80 # replicate ?k 0"],
      of "rev (le_bytes 8 (of_nat (8 * length m) :: 64 word))"] by (simp add: fips_pad_def)
  have "64 dvd length (fips_pad m)"
  proof -
    have "int (length m + 9 + ?k) mod 64 = (int (length m) + 9 + (55 - int (length m)) mod 64) mod 64" by simp
    also have "\<dots> = 0" by (simp add: mod_add_right_eq)
    finally have "int ((length m + 9 + ?k) mod 64) = 0" by (simp only: of_nat_mod of_nat_numeral)
    then have "(length m + 9 + ?k) mod 64 = 0" by (simp only: of_nat_eq_0_iff)
    moreover have "length (fips_pad m) = length m + 9 + ?k" by (simp add: fips_pad_def)
    ultimately show ?thesis by (simp only: dvd_eq_mod_eq_0)
  qed
  then have s: "sha_s ?h2 = sha_blocks sha256_iv (fips_pad m)" by (rule absorbed_full [OF a])
  have "snd (secp256k1_sha256_finalize hash) = concat (map (\<lambda>i. rev (le_bytes 4 (sha_s ?h2 ! i))) [0..<8])"
    unfolding secp256k1_sha256_finalize_def Let_def n bufsize pad_count size_bytes plus_1_eq_Suc take_pad [OF k]
    by (simp only: le_bytes_BE32 snd_conv)
  also have "\<dots> = concat (map (\<lambda>w. rev (le_bytes 4 w)) (map (\<lambda>i. sha_s ?h2 ! i) [0..<8]))" by (simp add: comp_def)
  also have "map (\<lambda>i. sha_s ?h2 ! i) [0..<8] = sha_s ?h2"
    using length_sha_blocks [of sha256_iv] s map_nth [of "sha_s ?h2"] by (simp add: sha256_iv_def)
  finally show ?thesis unfolding s fips_sha256_def fips_iv_eq .
qed

lemma fold_absorbs: "absorbed h m \<Longrightarrow> absorbed (fold (\<lambda>p h. secp256k1_sha256_write h p) pieces h) (m @ concat pieces)"
proof (induction pieces arbitrary: h m)
  case (Cons p ps)
  then show ?case using Cons.IH [OF write_absorbs [OF Cons.prems, of p]] by simp
qed simp

section \<open>Properties\<close>

text \<open>
  The 64 hand-unrolled rounds of the transform, which keep only sixteen schedule words and
  rotate the names of the eight variables instead of their values, compute the compression
  function of FIPS 180-4 on the block read as big-endian words.
\<close>

lemma sha256_transform_is_fips_compression:
  assumes "length chunk = 16"
  shows "secp256k1_sha256_transform s chunk = fips_compress s (map BE32 chunk)"
  using assms by (rule transform_fips)

text \<open>
  C29: however a message is cut into pieces, writing the pieces one after the other and
  finalising gives the SHA-256 of the whole message as FIPS 180-4 defines it by padding and
  compressing its blocks; the previous contents of the buffer do not matter. The initial hash value of
  the definition is computed from the square roots of the first primes and its round constants are a
  table of its own, so that none of them is taken from the code.
\<close>

theorem sha256_of_pieces:
  assumes "length (sha_buf h) = 64"
  shows "snd (secp256k1_sha256_finalize (fold (\<lambda>p h. secp256k1_sha256_write h p) pieces (secp256k1_sha256_initialize h))) =
    fips_sha256 (concat pieces)"
  using finalize_spec [OF fold_absorbs [OF initialize_absorbed [OF assms], of pieces]] by simp

theorem sha256_of_pieces_witness:
  "snd (secp256k1_sha256_finalize (fold (\<lambda>p h. secp256k1_sha256_write h p) [[97], [], [98, 99]]
    (secp256k1_sha256_initialize \<lparr>sha_s = [], sha_buf = replicate 64 7, sha_bytes = 5\<rparr>))) = fips_sha256 [97, 98, 99]"
  using sha256_of_pieces [of "\<lparr>sha_s = [], sha_buf = replicate 64 7, sha_bytes = 5\<rparr>" "[[97], [], [98, 99]]"] by simp

end
