(* ===== verification/Hmac.thy ===== *)
theory Hmac
  imports Sha256
begin

text \<open>
  HMAC-SHA-256 and the RFC 6979 generator of \<open>secp256k1/src/hash_impl.h\<close>. A local hash state
  of the C code starts with undefined contents; here it is \<open>sha_local\<close>, and the lemmas show
  that no output depends on it.
\<close>

section \<open>State and operations\<close>

record secp256k1_hmac_sha256_t =
  inner :: secp256k1_sha256_t
  outer :: secp256k1_sha256_t

definition sha_local :: secp256k1_sha256_t where
  "sha_local = \<lparr>sha_s = replicate 8 0, sha_buf = replicate 64 0, sha_bytes = 0\<rparr>"

definition hmac_local :: secp256k1_hmac_sha256_t where
  "hmac_local = \<lparr>inner = sha_local, outer = sha_local\<rparr>"

definition secp256k1_hmac_sha256_initialize :: "secp256k1_hmac_sha256_t \<Rightarrow> bytes \<Rightarrow> secp256k1_hmac_sha256_t" where
  "secp256k1_hmac_sha256_initialize hash key =
     (let rkey = (if length key \<le> 64 then key @ replicate (64 - length key) 0
                  else let sha256 = secp256k1_sha256_initialize sha_local;
                           sha256 = secp256k1_sha256_write sha256 key
                       in snd (secp256k1_sha256_finalize sha256) @ replicate 32 0);
          out = secp256k1_sha256_initialize (outer hash);
          rkey = map (\<lambda>b. b XOR 0x5c) rkey;
          out = secp256k1_sha256_write out rkey;
          inn = secp256k1_sha256_initialize (inner hash);
          rkey = map (\<lambda>b. b XOR (0x5c XOR 0x36)) rkey;
          inn = secp256k1_sha256_write inn rkey
      in \<lparr>inner = inn, outer = out\<rparr>)"

definition secp256k1_hmac_sha256_write :: "secp256k1_hmac_sha256_t \<Rightarrow> bytes \<Rightarrow> secp256k1_hmac_sha256_t" where
  "secp256k1_hmac_sha256_write hash data = hash\<lparr>inner := secp256k1_sha256_write (inner hash) data\<rparr>"

definition secp256k1_hmac_sha256_finalize :: "secp256k1_hmac_sha256_t \<Rightarrow> secp256k1_hmac_sha256_t \<times> bytes" where
  "secp256k1_hmac_sha256_finalize hash =
     (let (inn, temp) = secp256k1_sha256_finalize (inner hash);
          out = secp256k1_sha256_write (outer hash) temp;
          (out, out32) = secp256k1_sha256_finalize out
      in (\<lparr>inner = inn, outer = out\<rparr>, out32))"

record secp256k1_rfc6979_hmac_sha256_t =
  rng_v :: bytes
  rng_k :: bytes
  rng_retry :: bool

text \<open>
  The three calls that recur: a fresh keyed hash over a list of pieces. The C code writes the
  pieces one after the other into the same local state.
\<close>

definition hmac_of :: "bytes \<Rightarrow> bytes list \<Rightarrow> bytes" where
  "hmac_of key pieces =
     (let hmac = secp256k1_hmac_sha256_initialize hmac_local key;
          hmac = fold (\<lambda>p h. secp256k1_hmac_sha256_write h p) pieces hmac
      in snd (secp256k1_hmac_sha256_finalize hmac))"

definition secp256k1_rfc6979_hmac_sha256_initialize :: "bytes \<Rightarrow> secp256k1_rfc6979_hmac_sha256_t" where
  "secp256k1_rfc6979_hmac_sha256_initialize key =
     (let v = replicate 32 0x01; k = replicate 32 0x00;
          k = hmac_of k [v, [0x00], key];
          v = hmac_of k [v];
          k = hmac_of k [v, [0x01], key];
          v = hmac_of k [v]
      in \<lparr>rng_v = v, rng_k = k, rng_retry = False\<rparr>)"

text \<open>The loop that fills the output, for lengths below \<open>2 ^ 31\<close>, where \<open>now\<close> is the length itself.\<close>

function rfc6979_loop :: "bytes \<Rightarrow> bytes \<Rightarrow> nat \<Rightarrow> bytes \<times> bytes" where
  "rfc6979_loop k v outlen =
     (if 0 < outlen then
        let v = hmac_of k [v]; now = (if 32 < outlen then 32 else outlen);
            (v', out) = rfc6979_loop k v (outlen - now)
        in (v', take now v @ out)
      else (v, []))"
  by pat_completeness auto
termination by (relation "measure (\<lambda>(k, v, outlen). outlen)") auto

declare rfc6979_loop.simps [simp del]

definition secp256k1_rfc6979_hmac_sha256_generate ::
    "secp256k1_rfc6979_hmac_sha256_t \<Rightarrow> nat \<Rightarrow> secp256k1_rfc6979_hmac_sha256_t \<times> bytes" where
  "secp256k1_rfc6979_hmac_sha256_generate rng outlen =
     (let k = rng_k rng; v = rng_v rng;
          k = (if rng_retry rng then hmac_of k [v, [0x00]] else k);
          v = (if rng_retry rng then hmac_of k [v] else v);
          (v, out) = rfc6979_loop k v outlen
      in (\<lparr>rng_v = v, rng_k = k, rng_retry = True\<rparr>, out))"

definition secp256k1_rfc6979_hmac_sha256_finalize ::
    "secp256k1_rfc6979_hmac_sha256_t \<Rightarrow> secp256k1_rfc6979_hmac_sha256_t" where
  "secp256k1_rfc6979_hmac_sha256_finalize rng = \<lparr>rng_v = replicate 32 0, rng_k = replicate 32 0, rng_retry = False\<rparr>"

section \<open>The specifications\<close>

text \<open>RFC 2104 with blocks of 64 bytes.\<close>

definition hmac_key :: "bytes \<Rightarrow> bytes" where
  "hmac_key key = (let k = if length key \<le> 64 then key else fips_sha256 key in k @ replicate (64 - length k) 0)"

definition hmac_spec :: "bytes \<Rightarrow> bytes \<Rightarrow> bytes" where
  "hmac_spec key m =
     fips_sha256 (map (\<lambda>b. b XOR 0x5c) (hmac_key key) @ fips_sha256 (map (\<lambda>b. b XOR 0x36) (hmac_key key) @ m))"

definition hmac_absorbed :: "secp256k1_hmac_sha256_t \<Rightarrow> bytes \<Rightarrow> bytes \<Rightarrow> bool" where
  "hmac_absorbed hash key m \<longleftrightarrow> absorbed (outer hash) (map (\<lambda>b. b XOR 0x5c) (hmac_key key)) \<and>
     absorbed (inner hash) (map (\<lambda>b. b XOR 0x36) (hmac_key key) @ m)"

section \<open>Correctness\<close>

lemma length_fips_sha256 [simp]: "length (fips_sha256 m) = 32"
proof -
  have "length (sha_blocks sha256_iv (fips_pad m)) = 8" by (rule length_sha_blocks) (simp add: sha256_iv_def)
  moreover have "length (concat (map (\<lambda>w :: 32 word. rev (le_bytes 4 w)) ws)) = 4 * length ws" for ws
    by (induction ws) simp_all
  ultimately show ?thesis unfolding fips_sha256_def fips_iv_eq by simp
qed

lemma sha_of: "length (sha_buf h) = 64 \<Longrightarrow> absorbed (secp256k1_sha256_write (secp256k1_sha256_initialize h) m) m"
  using write_absorbs [OF initialize_absorbed, of h m] by simp

lemma hmac_initialize_absorbed:
  assumes "length (sha_buf (inner hash)) = 64" "length (sha_buf (outer hash)) = 64"
  shows "hmac_absorbed (secp256k1_hmac_sha256_initialize hash key) key []"
proof -
  have l: "length (sha_buf sha_local) = 64" by (simp add: sha_local_def)
  have k: "(if length key \<le> 64 then key @ replicate (64 - length key) 0
       else let sha256 = secp256k1_sha256_initialize sha_local; sha256 = secp256k1_sha256_write sha256 key
            in snd (secp256k1_sha256_finalize sha256) @ replicate 32 0) = hmac_key key"
    using finalize_spec [OF sha_of [OF l]] by (simp add: hmac_key_def Let_def)
  have x: "map (\<lambda>b. b XOR (0x5c XOR 0x36)) (map (\<lambda>b. b XOR 0x5c) ks) = map (\<lambda>b. b XOR 0x36) ks" for ks :: bytes
  proof -
    have "(b XOR 0x5c) XOR (0x5c XOR 0x36) = b XOR (0x36 :: byte)" for b by (simp add: xor.assoc)
    then show ?thesis unfolding map_map comp_def by (rule arg_cong [OF ext])
  qed
  show ?thesis unfolding secp256k1_hmac_sha256_initialize_def k
    unfolding Let_def hmac_absorbed_def x using sha_of assms by simp
qed

lemma hmac_write_absorbs:
  "hmac_absorbed hash key m \<Longrightarrow> hmac_absorbed (secp256k1_hmac_sha256_write hash data) key (m @ data)"
  unfolding hmac_absorbed_def secp256k1_hmac_sha256_write_def
  by (auto simp flip: append_assoc intro: write_absorbs)

lemma hmac_finalize_spec: "hmac_absorbed hash key m \<Longrightarrow> snd (secp256k1_hmac_sha256_finalize hash) = hmac_spec key m"
proof -
  assume a: "hmac_absorbed hash key m"
  then have i: "snd (secp256k1_sha256_finalize (inner hash)) = fips_sha256 (map (\<lambda>b. b XOR 0x36) (hmac_key key) @ m)"
    unfolding hmac_absorbed_def using finalize_spec by blast
  show ?thesis using a i finalize_spec [OF write_absorbs] unfolding hmac_absorbed_def secp256k1_hmac_sha256_finalize_def hmac_spec_def
    by (simp add: Let_def case_prod_beta)
qed

lemma hmac_fold_absorbs:
  "hmac_absorbed h key m \<Longrightarrow> hmac_absorbed (fold (\<lambda>p h. secp256k1_hmac_sha256_write h p) ps h) key (m @ concat ps)"
  by (induction ps arbitrary: h m) (use hmac_write_absorbs in fastforce)+

lemma hmac_of_spec: "hmac_of key pieces = hmac_spec key (concat pieces)"
proof -
  have "hmac_absorbed (secp256k1_hmac_sha256_initialize hmac_local key) key []"
    by (rule hmac_initialize_absorbed) (simp_all add: hmac_local_def sha_local_def)
  from hmac_fold_absorbs [OF this, of pieces] show ?thesis unfolding hmac_of_def Let_def by (simp add: hmac_finalize_spec)
qed

lemma length_hmac_spec [simp]: "length (hmac_spec key m) = 32"
  by (simp add: hmac_spec_def)

text \<open>The output is a prefix of the sequence of values \<open>V\<close>, each the keyed hash of the one before.\<close>

definition rfc6979_stream :: "bytes \<Rightarrow> bytes \<Rightarrow> nat \<Rightarrow> bytes" where
  "rfc6979_stream k v n = concat (map (\<lambda>i. (hmac_spec k ^^ Suc i) v) [0..<n])"

lemma rfc6979_stream_Suc: "rfc6979_stream k v (Suc n) = hmac_spec k v @ rfc6979_stream k (hmac_spec k v) n"
proof -
  have "[0..<Suc n] = 0 # map Suc [0..<n]" by (simp add: map_Suc_upt upt_conv_Cons del: upt_Suc)
  then show ?thesis by (simp add: rfc6979_stream_def comp_def funpow_swap1 del: upt_Suc)
qed

lemma rfc6979_loop_spec:
  "rfc6979_loop k v outlen = ((hmac_spec k ^^ ((outlen + 31) div 32)) v, take outlen (rfc6979_stream k v ((outlen + 31) div 32)))"
proof (induction outlen arbitrary: v rule: less_induct)
  case (less n)
  consider "n = 0" | "0 < n" "n \<le> 32" | "32 < n" by linarith
  then show ?case
  proof cases
    case 1
    then show ?thesis by (simp add: rfc6979_loop.simps)
  next
    case 2
    then have "(n + 31) div 32 = Suc 0" by auto
    then show ?thesis using 2 by (simp add: rfc6979_loop.simps [of k v n] rfc6979_loop.simps [of k _ 0] hmac_of_spec
        rfc6979_stream_def Let_def)
  next
    case 3
    then have e: "(n + 31) div 32 = Suc ((n - 32 + 31) div 32)" using le_div_geq [of 32 "n + 31"] by simp
    have "rfc6979_loop k v n = (let (v', out) = rfc6979_loop k (hmac_spec k v) (n - 32) in (v', hmac_spec k v @ out))"
      using 3 by (simp add: rfc6979_loop.simps [of k v n] hmac_of_spec Let_def)
    then show ?thesis using 3 less [of "n - 32" "hmac_spec k v"] unfolding e rfc6979_stream_Suc
      by (simp add: funpow_swap1)
  qed
qed

lemma length_stream: "length (rfc6979_stream k v n) = 32 * n"
  by (induction n) (simp_all add: rfc6979_stream_def)

section \<open>Properties\<close>

text \<open>
  C30: a keyed hash computed by initialising with a key of any length, writing a message in any
  pieces and finalising is the HMAC of RFC 2104 over the SHA-256 of FIPS 180-4, whatever the
  hash states contained before.
\<close>

theorem hmac_sha256_is_rfc2104:
  assumes "length (sha_buf (inner h)) = 64" and "length (sha_buf (outer h)) = 64"
  shows "snd (secp256k1_hmac_sha256_finalize (fold (\<lambda>p h. secp256k1_hmac_sha256_write h p) pieces
    (secp256k1_hmac_sha256_initialize h key))) = hmac_spec key (concat pieces)"
  using hmac_finalize_spec [OF hmac_fold_absorbs [OF hmac_initialize_absorbed [OF assms], of pieces]] by simp

theorem hmac_sha256_is_rfc2104_witness:
  "snd (secp256k1_hmac_sha256_finalize (fold (\<lambda>p h. secp256k1_hmac_sha256_write h p) [[1], [2, 3]]
    (secp256k1_hmac_sha256_initialize hmac_local [4]))) = hmac_spec [4] [1, 2, 3]"
  using hmac_sha256_is_rfc2104 [of hmac_local "[[1], [2, 3]]" "[4]"] by (simp add: hmac_local_def sha_local_def)

text \<open>
  The RFC 6979 generator returns exactly the bytes asked for, and they are a prefix of the
  sequence of values \<open>V\<close> that RFC 6979 defines, after the extra update step exactly when it
  has produced output before; the generator then holds the last value used.
\<close>

lemma rfc6979_generates_the_stream:
  "secp256k1_rfc6979_hmac_sha256_generate rng outlen =
    (let k = (if rng_retry rng then hmac_spec (rng_k rng) (rng_v rng @ [0]) else rng_k rng);
         v = (if rng_retry rng then hmac_spec k (rng_v rng) else rng_v rng);
         n = (outlen + 31) div 32
     in (\<lparr>rng_v = (hmac_spec k ^^ n) v, rng_k = k, rng_retry = True\<rparr>, take outlen (rfc6979_stream k v n))) \<and>
   length (snd (secp256k1_rfc6979_hmac_sha256_generate rng outlen)) = outlen"
proof -
  have "outlen \<le> 32 * ((outlen + 31) div 32)" by linarith
  then show ?thesis
    by (simp add: secp256k1_rfc6979_hmac_sha256_generate_def hmac_of_spec rfc6979_loop_spec Let_def length_stream)
qed

end
