(* ===== verification/Residues.thy ===== *)
theory Residues
  imports MachineWords
begin

text \<open>
  What the addition chains for inverses and roots need of a representation of residues: an
  interface with a product and a square that are right modulo \<open>m\<close> on valid representations.
  Both the field elements and the scalars of the curve provide it.
\<close>

text \<open>\<open>power_of val ok m a e x\<close>: \<open>x\<close> is a valid representation of the \<open>e\<close>-th power of \<open>a\<close> modulo \<open>m\<close>.\<close>

definition power_of :: "('a \<Rightarrow> int) \<Rightarrow> ('a \<Rightarrow> bool) \<Rightarrow> int \<Rightarrow> 'a \<Rightarrow> nat \<Rightarrow> 'a \<Rightarrow> bool" where
  "power_of val ok m a e x \<longleftrightarrow> ok x \<and> val x mod m = val a ^ e mod m"

locale residue_products =
  fixes mul :: "'a \<Rightarrow> 'a \<Rightarrow> 'a" and sqr :: "'a \<Rightarrow> 'a" and val :: "'a \<Rightarrow> int" and ok :: "'a \<Rightarrow> bool" and m :: int
  assumes mul_ok: "ok x \<Longrightarrow> ok y \<Longrightarrow> ok (mul x y)"
    and mul_val: "ok x \<Longrightarrow> ok y \<Longrightarrow> val (mul x y) mod m = val x * val y mod m"
    and sqr_ok: "ok x \<Longrightarrow> ok (sqr x)"
    and sqr_val: "ok x \<Longrightarrow> val (sqr x) mod m = val x * val x mod m"
begin

lemma power_one: "ok a \<Longrightarrow> power_of val ok m a 1 a"
  by (simp add: power_of_def)

lemma power_mul:
  assumes "power_of val ok m a e x" "power_of val ok m a f y" "e + f = g"
  shows "power_of val ok m a g (mul x y)"
proof -
  have "val x * val y mod m = val a ^ e * val a ^ f mod m"
    using assms unfolding power_of_def by (intro mod_mult_cong) auto
  then show ?thesis using assms mul_ok mul_val unfolding power_of_def by (auto simp: power_add [symmetric])
qed

lemma power_sqr:
  assumes "power_of val ok m a e x" "2 * e = g"
  shows "power_of val ok m a g (sqr x)"
proof -
  have "val x * val x mod m = val a ^ e * val a ^ e mod m"
    using assms unfolding power_of_def by (intro mod_mult_cong) auto
  then show ?thesis using assms sqr_ok sqr_val unfolding power_of_def by (auto simp: power_add [symmetric] mult_2)
qed

lemma power_sqrs: "power_of val ok m a e x \<Longrightarrow> 2 ^ j * e = g \<Longrightarrow> power_of val ok m a g ((sqr ^^ j) x)"
  by (induction j arbitrary: g) (auto intro!: power_sqr simp: mult.assoc)

text \<open>A block of the chain: \<open>j\<close> squarings and a product.\<close>

lemma power_block:
  "power_of val ok m a e x \<Longrightarrow> power_of val ok m a f y \<Longrightarrow> 2 ^ j * e + f = g \<Longrightarrow> power_of val ok m a g (mul ((sqr ^^ j) x) y)"
  by (rule power_mul [OF power_sqrs [OF _ refl]])

end

end
