(* ===== verification/FieldImpl.thy ===== *)
theory FieldImpl
  imports Field5x52 Residues
begin

text \<open>
  \<open>secp256k1/src/field_impl.h\<close>: equality tests, square roots and inverses of field elements
  in the build without GMP (\<open>USE_NUM_NONE\<close>, \<open>USE_FIELD_INV_BUILTIN\<close>), which computes both by
  addition chains for a fixed exponent. A loop that squares \<open>n\<close> times is \<open>secp256k1_fe_sqr ^^ n\<close>.
  The lemmas carry the exponent of the argument through the chains.
\<close>

section \<open>Operations\<close>

definition secp256k1_fe_equal :: "secp256k1_fe \<Rightarrow> secp256k1_fe \<Rightarrow> bool" where
  "secp256k1_fe_equal a b =
     (let na = secp256k1_fe_negate a 1; na = secp256k1_fe_add na b in secp256k1_fe_normalizes_to_zero na)"

definition secp256k1_fe_equal_var :: "secp256k1_fe \<Rightarrow> secp256k1_fe \<Rightarrow> bool" where
  "secp256k1_fe_equal_var a b =
     (let na = secp256k1_fe_negate a 1; na = secp256k1_fe_add na b in secp256k1_fe_normalizes_to_zero_var na)"

text \<open>The result of the C function and the root written to \<open>r\<close>.\<close>

definition secp256k1_fe_sqrt :: "secp256k1_fe \<Rightarrow> bool \<times> secp256k1_fe" where
  "secp256k1_fe_sqrt a =
     (let x2 = secp256k1_fe_mul (secp256k1_fe_sqr a) a;
          x3 = secp256k1_fe_mul (secp256k1_fe_sqr x2) a;
          x6 = secp256k1_fe_mul ((secp256k1_fe_sqr ^^ 3) x3) x3;
          x9 = secp256k1_fe_mul ((secp256k1_fe_sqr ^^ 3) x6) x3;
          x11 = secp256k1_fe_mul ((secp256k1_fe_sqr ^^ 2) x9) x2;
          x22 = secp256k1_fe_mul ((secp256k1_fe_sqr ^^ 11) x11) x11;
          x44 = secp256k1_fe_mul ((secp256k1_fe_sqr ^^ 22) x22) x22;
          x88 = secp256k1_fe_mul ((secp256k1_fe_sqr ^^ 44) x44) x44;
          x176 = secp256k1_fe_mul ((secp256k1_fe_sqr ^^ 88) x88) x88;
          x220 = secp256k1_fe_mul ((secp256k1_fe_sqr ^^ 44) x176) x44;
          x223 = secp256k1_fe_mul ((secp256k1_fe_sqr ^^ 3) x220) x3;
          t1 = secp256k1_fe_mul ((secp256k1_fe_sqr ^^ 23) x223) x22;
          t1 = secp256k1_fe_mul ((secp256k1_fe_sqr ^^ 6) t1) x2;
          t1 = secp256k1_fe_sqr t1;
          r = secp256k1_fe_sqr t1;
          t1 = secp256k1_fe_sqr r
      in (secp256k1_fe_equal t1 a, r))"

definition secp256k1_fe_inv :: "secp256k1_fe \<Rightarrow> secp256k1_fe" where
  "secp256k1_fe_inv a =
     (let x2 = secp256k1_fe_mul (secp256k1_fe_sqr a) a;
          x3 = secp256k1_fe_mul (secp256k1_fe_sqr x2) a;
          x6 = secp256k1_fe_mul ((secp256k1_fe_sqr ^^ 3) x3) x3;
          x9 = secp256k1_fe_mul ((secp256k1_fe_sqr ^^ 3) x6) x3;
          x11 = secp256k1_fe_mul ((secp256k1_fe_sqr ^^ 2) x9) x2;
          x22 = secp256k1_fe_mul ((secp256k1_fe_sqr ^^ 11) x11) x11;
          x44 = secp256k1_fe_mul ((secp256k1_fe_sqr ^^ 22) x22) x22;
          x88 = secp256k1_fe_mul ((secp256k1_fe_sqr ^^ 44) x44) x44;
          x176 = secp256k1_fe_mul ((secp256k1_fe_sqr ^^ 88) x88) x88;
          x220 = secp256k1_fe_mul ((secp256k1_fe_sqr ^^ 44) x176) x44;
          x223 = secp256k1_fe_mul ((secp256k1_fe_sqr ^^ 3) x220) x3;
          t1 = secp256k1_fe_mul ((secp256k1_fe_sqr ^^ 23) x223) x22;
          t1 = secp256k1_fe_mul ((secp256k1_fe_sqr ^^ 5) t1) a;
          t1 = secp256k1_fe_mul ((secp256k1_fe_sqr ^^ 3) t1) x2;
          t1 = (secp256k1_fe_sqr ^^ 2) t1
      in secp256k1_fe_mul a t1)"

definition secp256k1_fe_inv_var :: "secp256k1_fe \<Rightarrow> secp256k1_fe" where
  "secp256k1_fe_inv_var a = secp256k1_fe_inv a"

text \<open>
  The two loops of the simultaneous inversion: products of prefixes forwards, then single
  inverses backwards. The buffer \<open>r\<close> does not overlap \<open>a\<close> and has its length.
\<close>

definition inv_all_forward :: "secp256k1_fe list \<Rightarrow> secp256k1_fe list \<Rightarrow> secp256k1_fe list" where
  "inv_all_forward r a =
     fold (\<lambda>i r. r[i := secp256k1_fe_mul (r ! (i - 1)) (a ! i)]) [1..<length a] (r[0 := a ! 0])"

fun inv_all_backward :: "nat \<Rightarrow> secp256k1_fe list \<Rightarrow> secp256k1_fe \<Rightarrow> secp256k1_fe list \<Rightarrow> secp256k1_fe list \<times> secp256k1_fe" where
  "inv_all_backward 0 a u r = (r, u)"
| "inv_all_backward (Suc i) a u r =
     inv_all_backward i a (secp256k1_fe_mul u (a ! Suc i)) (r[Suc i := secp256k1_fe_mul (r ! i) u])"

definition secp256k1_fe_inv_all_var :: "secp256k1_fe list \<Rightarrow> secp256k1_fe list \<Rightarrow> secp256k1_fe list" where
  "secp256k1_fe_inv_all_var r a =
     (if length a < 1 then r
      else let r = inv_all_forward r a;
               i = length a - 1;
               u = secp256k1_fe_inv_var (r ! i);
               (r, u) = inv_all_backward i a u r
           in r[0 := u])"

definition secp256k1_fe_is_quad_var :: "secp256k1_fe \<Rightarrow> bool" where
  "secp256k1_fe_is_quad_var a = fst (secp256k1_fe_sqrt a)"

section \<open>Equality\<close>

lemma fe_equal_spec: "fe_mag 1 a \<Longrightarrow> fe_mag 30 b \<Longrightarrow>
    (secp256k1_fe_equal a b \<longleftrightarrow> fe_val a mod fe_p = fe_val b mod fe_p) \<and> secp256k1_fe_equal_var a b = secp256k1_fe_equal a b"
  using fe_difference_zero [of 1 a 30 b]
  by (simp add: secp256k1_fe_equal_def secp256k1_fe_equal_var_def normalizes_to_zero_var_eq)

section \<open>Powers\<close>

text \<open>
  Field elements are residues with exact products: \<open>pw a e x\<close> says that \<open>x\<close> denotes the \<open>e\<close>-th
  power of \<open>a\<close>, with a magnitude that allows multiplying.
\<close>

interpretation fe_products: residue_products secp256k1_fe_mul secp256k1_fe_sqr fe_val "fe_mag 8" fe_p
proof
  fix x y assume "fe_mag 8 x" "fe_mag 8 y"
  then show "fe_mag 8 (secp256k1_fe_mul x y)" "fe_val (secp256k1_fe_mul x y) mod fe_p = fe_val x * fe_val y mod fe_p"
    using fe_mul_spec [of x y] by (auto intro: fe_mag_mono)
next
  fix x assume "fe_mag 8 x"
  then show "fe_mag 8 (secp256k1_fe_sqr x)" "fe_val (secp256k1_fe_sqr x) mod fe_p = fe_val x * fe_val x mod fe_p"
    using fe_sqr_spec [of x] by (auto intro: fe_mag_mono)
qed

abbreviation pw :: "secp256k1_fe \<Rightarrow> nat \<Rightarrow> secp256k1_fe \<Rightarrow> bool" where
  "pw \<equiv> power_of fe_val (fe_mag 8) fe_p"

lemmas pw_def = power_of_def [of fe_val "fe_mag 8" fe_p]
lemmas pw_one = fe_products.power_one
lemmas pw_mul = fe_products.power_mul
lemmas pw_sqr = fe_products.power_sqr
lemmas pw_sqrs = fe_products.power_sqrs
lemmas pw_block = fe_products.power_block

text \<open>The common part of both chains: blocks of 2, 22 and 223 ones, and the first 246 bits.\<close>

lemma pw_chain:
  assumes "fe_mag 8 a"
  obtains x2 x3 x6 x9 x11 x22 x44 x88 x176 x220 x223 t1 where
    "x2 = secp256k1_fe_mul (secp256k1_fe_sqr a) a"
    "x3 = secp256k1_fe_mul (secp256k1_fe_sqr x2) a"
    "x6 = secp256k1_fe_mul ((secp256k1_fe_sqr ^^ 3) x3) x3"
    "x9 = secp256k1_fe_mul ((secp256k1_fe_sqr ^^ 3) x6) x3"
    "x11 = secp256k1_fe_mul ((secp256k1_fe_sqr ^^ 2) x9) x2"
    "x22 = secp256k1_fe_mul ((secp256k1_fe_sqr ^^ 11) x11) x11"
    "x44 = secp256k1_fe_mul ((secp256k1_fe_sqr ^^ 22) x22) x22"
    "x88 = secp256k1_fe_mul ((secp256k1_fe_sqr ^^ 44) x44) x44"
    "x176 = secp256k1_fe_mul ((secp256k1_fe_sqr ^^ 88) x88) x88"
    "x220 = secp256k1_fe_mul ((secp256k1_fe_sqr ^^ 44) x176) x44"
    "x223 = secp256k1_fe_mul ((secp256k1_fe_sqr ^^ 3) x220) x3"
    "t1 = secp256k1_fe_mul ((secp256k1_fe_sqr ^^ 23) x223) x22"
    "pw a 3 x2" "pw a (2 ^ 23 * (2 ^ 223 - 1) + (2 ^ 22 - 1)) t1"
proof -
  note b = pw_block [where a = a]
  have p2: "pw a 3 (secp256k1_fe_mul (secp256k1_fe_sqr a) a)" (is "pw a 3 ?x2")
    by (rule pw_mul [OF pw_sqr [OF pw_one [OF assms] refl] pw_one [OF assms]]) simp
  have p3: "pw a 7 (secp256k1_fe_mul (secp256k1_fe_sqr ?x2) a)" (is "pw a 7 ?x3")
    by (rule pw_mul [OF pw_sqr [OF p2 refl] pw_one [OF assms]]) simp
  have p6: "pw a (2 ^ 6 - 1) (secp256k1_fe_mul ((secp256k1_fe_sqr ^^ 3) ?x3) ?x3)" (is "pw a _ ?x6")
    by (rule b [OF p3 p3]) simp
  have p9: "pw a (2 ^ 9 - 1) (secp256k1_fe_mul ((secp256k1_fe_sqr ^^ 3) ?x6) ?x3)" (is "pw a _ ?x9")
    by (rule b [OF p6 p3]) simp
  have p11: "pw a (2 ^ 11 - 1) (secp256k1_fe_mul ((secp256k1_fe_sqr ^^ 2) ?x9) ?x2)" (is "pw a _ ?x11")
    by (rule b [OF p9 p2]) simp
  have p22: "pw a (2 ^ 22 - 1) (secp256k1_fe_mul ((secp256k1_fe_sqr ^^ 11) ?x11) ?x11)" (is "pw a _ ?x22")
    by (rule b [OF p11 p11]) simp
  have p44: "pw a (2 ^ 44 - 1) (secp256k1_fe_mul ((secp256k1_fe_sqr ^^ 22) ?x22) ?x22)" (is "pw a _ ?x44")
    by (rule b [OF p22 p22]) simp
  have p88: "pw a (2 ^ 88 - 1) (secp256k1_fe_mul ((secp256k1_fe_sqr ^^ 44) ?x44) ?x44)" (is "pw a _ ?x88")
    by (rule b [OF p44 p44]) simp
  have p176: "pw a (2 ^ 176 - 1) (secp256k1_fe_mul ((secp256k1_fe_sqr ^^ 88) ?x88) ?x88)" (is "pw a _ ?x176")
    by (rule b [OF p88 p88]) simp
  have p220: "pw a (2 ^ 220 - 1) (secp256k1_fe_mul ((secp256k1_fe_sqr ^^ 44) ?x176) ?x44)" (is "pw a _ ?x220")
    by (rule b [OF p176 p44]) simp
  have p223: "pw a (2 ^ 223 - 1) (secp256k1_fe_mul ((secp256k1_fe_sqr ^^ 3) ?x220) ?x3)" (is "pw a _ ?x223")
    by (rule b [OF p220 p3]) simp
  show ?thesis
    by (rule that [OF refl refl refl refl refl refl refl refl refl refl refl refl p2 b [OF p223 p22 refl]])
qed

lemma sqrt_exponent: "2 * (2 * (2 ^ 6 * (2 ^ 23 * (2 ^ 223 - 1) + (2 ^ 22 - 1)) + 3)) = nat ((fe_p + 1) div 4)"
  by (simp add: fe_p_def)

lemma inv_exponent:
  "2 ^ 2 * (2 ^ 3 * (2 ^ 5 * (2 ^ 23 * (2 ^ 223 - 1) + (2 ^ 22 - 1)) + 1) + 3) + 1 = nat (fe_p - 2)"
  by (simp add: fe_p_def)

lemma sqrt_power:
  assumes "fe_mag 8 a"
  shows "pw a (nat ((fe_p + 1) div 4)) (snd (secp256k1_fe_sqrt a)) \<and> fe_mag 1 (snd (secp256k1_fe_sqrt a))"
    and "fst (secp256k1_fe_sqrt a) \<longleftrightarrow> fe_val (snd (secp256k1_fe_sqrt a)) ^ 2 mod fe_p = fe_val a mod fe_p"
proof -
  obtain x2 x3 x6 x9 x11 x22 x44 x88 x176 x220 x223 t1 where
    c: "x2 = secp256k1_fe_mul (secp256k1_fe_sqr a) a"
    "x3 = secp256k1_fe_mul (secp256k1_fe_sqr x2) a"
    "x6 = secp256k1_fe_mul ((secp256k1_fe_sqr ^^ 3) x3) x3"
    "x9 = secp256k1_fe_mul ((secp256k1_fe_sqr ^^ 3) x6) x3"
    "x11 = secp256k1_fe_mul ((secp256k1_fe_sqr ^^ 2) x9) x2"
    "x22 = secp256k1_fe_mul ((secp256k1_fe_sqr ^^ 11) x11) x11"
    "x44 = secp256k1_fe_mul ((secp256k1_fe_sqr ^^ 22) x22) x22"
    "x88 = secp256k1_fe_mul ((secp256k1_fe_sqr ^^ 44) x44) x44"
    "x176 = secp256k1_fe_mul ((secp256k1_fe_sqr ^^ 88) x88) x88"
    "x220 = secp256k1_fe_mul ((secp256k1_fe_sqr ^^ 44) x176) x44"
    "x223 = secp256k1_fe_mul ((secp256k1_fe_sqr ^^ 3) x220) x3"
    "t1 = secp256k1_fe_mul ((secp256k1_fe_sqr ^^ 23) x223) x22" and
    p: "pw a 3 x2" "pw a (2 ^ 23 * (2 ^ 223 - 1) + (2 ^ 22 - 1)) t1"
    by (rule pw_chain [OF assms])
  let ?t = "secp256k1_fe_sqr (secp256k1_fe_mul ((secp256k1_fe_sqr ^^ 6) t1) x2)"
  let ?r = "secp256k1_fe_sqr ?t"
  have s: "secp256k1_fe_sqrt a = (secp256k1_fe_equal (secp256k1_fe_sqr ?r) a, ?r)"
    unfolding secp256k1_fe_sqrt_def Let_def c [symmetric] ..
  have t: "pw a (2 * (2 ^ 6 * (2 ^ 23 * (2 ^ 223 - 1) + (2 ^ 22 - 1)) + 3)) ?t"
    by (rule pw_sqr [OF pw_block [OF p(2,1) refl] refl])
  have r: "pw a (nat ((fe_p + 1) div 4)) ?r" by (rule pw_sqr [OF t sqrt_exponent])
  moreover have m: "fe_mag 1 ?r" using t fe_sqr_spec unfolding pw_def by blast
  ultimately show "pw a (nat ((fe_p + 1) div 4)) (snd (secp256k1_fe_sqrt a)) \<and> fe_mag 1 (snd (secp256k1_fe_sqrt a))"
    unfolding s by simp
  have "fe_mag 30 a" using assms by (rule fe_mag_mono) simp
  then show "fst (secp256k1_fe_sqrt a) \<longleftrightarrow> fe_val (snd (secp256k1_fe_sqrt a)) ^ 2 mod fe_p = fe_val a mod fe_p"
    using fe_sqr_spec [OF fe_mag_mono [OF m, of 8]] fe_equal_spec [of "secp256k1_fe_sqr ?r" a]
    unfolding s by (simp add: power2_eq_square)
qed

lemma inv_power:
  assumes "fe_mag 8 a"
  shows "pw a (nat (fe_p - 2)) (secp256k1_fe_inv a) \<and> fe_mag 1 (secp256k1_fe_inv a)"
proof -
  obtain x2 x3 x6 x9 x11 x22 x44 x88 x176 x220 x223 t1 where
    c: "x2 = secp256k1_fe_mul (secp256k1_fe_sqr a) a"
    "x3 = secp256k1_fe_mul (secp256k1_fe_sqr x2) a"
    "x6 = secp256k1_fe_mul ((secp256k1_fe_sqr ^^ 3) x3) x3"
    "x9 = secp256k1_fe_mul ((secp256k1_fe_sqr ^^ 3) x6) x3"
    "x11 = secp256k1_fe_mul ((secp256k1_fe_sqr ^^ 2) x9) x2"
    "x22 = secp256k1_fe_mul ((secp256k1_fe_sqr ^^ 11) x11) x11"
    "x44 = secp256k1_fe_mul ((secp256k1_fe_sqr ^^ 22) x22) x22"
    "x88 = secp256k1_fe_mul ((secp256k1_fe_sqr ^^ 44) x44) x44"
    "x176 = secp256k1_fe_mul ((secp256k1_fe_sqr ^^ 88) x88) x88"
    "x220 = secp256k1_fe_mul ((secp256k1_fe_sqr ^^ 44) x176) x44"
    "x223 = secp256k1_fe_mul ((secp256k1_fe_sqr ^^ 3) x220) x3"
    "t1 = secp256k1_fe_mul ((secp256k1_fe_sqr ^^ 23) x223) x22" and
    p: "pw a 3 x2" "pw a (2 ^ 23 * (2 ^ 223 - 1) + (2 ^ 22 - 1)) t1"
    by (rule pw_chain [OF assms])
  let ?t = "(secp256k1_fe_sqr ^^ 2) (secp256k1_fe_mul ((secp256k1_fe_sqr ^^ 3) (secp256k1_fe_mul ((secp256k1_fe_sqr ^^ 5) t1) a)) x2)"
  have s: "secp256k1_fe_inv a = secp256k1_fe_mul a ?t"
    unfolding secp256k1_fe_inv_def Let_def c [symmetric] ..
  note o = pw_one [OF assms]
  have t: "pw a (2 ^ 2 * (2 ^ 3 * (2 ^ 5 * (2 ^ 23 * (2 ^ 223 - 1) + (2 ^ 22 - 1)) + 1) + 3)) ?t"
    by (rule pw_sqrs [OF pw_block [OF pw_block [OF p(2) o refl] p(1) refl] refl])
  have "pw a (nat (fe_p - 2)) (secp256k1_fe_inv a)"
    unfolding s by (rule pw_mul [OF o t]) (simp only: inv_exponent [symmetric] add.commute)
  moreover have "fe_mag 1 (secp256k1_fe_inv a)" unfolding s using assms t fe_mul_spec unfolding pw_def by blast
  ultimately show ?thesis ..
qed

section \<open>Simultaneous inversion\<close>

text \<open>Invertible in the sense the exponent relies on; for a prime modulus, every non-zero residue is.\<close>

definition fe_unit :: "secp256k1_fe \<Rightarrow> bool" where
  "fe_unit a \<longleftrightarrow> fe_val a ^ nat (fe_p - 1) mod fe_p = 1"

abbreviation (input) cong_p :: "int \<Rightarrow> int \<Rightarrow> bool" where
  "cong_p x y \<equiv> x mod fe_p = y mod fe_p"

lemma forward_spec:
  assumes "length r = length a" "\<forall>x\<in>set a. fe_mag 8 x" "0 < length a"
  shows "length (inv_all_forward r a) = length a \<and>
    (\<forall>k<length a. fe_mag 8 (inv_all_forward r a ! k) \<and>
       cong_p (fe_val (inv_all_forward r a ! k)) (\<Prod>i\<le>k. fe_val (a ! i)))"
proof -
  let ?f = "\<lambda>m. fold (\<lambda>i r. r[i := secp256k1_fe_mul (r ! (i - 1)) (a ! i)]) [1..<m] (r[0 := a ! 0])"
  have all: "m < length a \<Longrightarrow> length (?f (Suc m)) = length a \<and>
      (\<forall>k\<le>m. fe_mag 8 (?f (Suc m) ! k) \<and> cong_p (fe_val (?f (Suc m) ! k)) (\<Prod>i\<le>k. fe_val (a ! i)))" for m
  proof (induction m)
    case 0
    then show ?case using assms by simp
  next
    case (Suc m)
    define R where "R = ?f (Suc m)"
    have F: "?f (Suc (Suc m)) = R[Suc m := secp256k1_fe_mul (R ! m) (a ! Suc m)]" unfolding R_def by simp
    have l: "length R = length a" and h: "\<And>k. k \<le> m \<Longrightarrow> fe_mag 8 (R ! k) \<and> cong_p (fe_val (R ! k)) (\<Prod>i\<le>k. fe_val (a ! i))"
      unfolding R_def using Suc by auto
    have am: "fe_mag 8 (a ! Suc m)" using assms(2) Suc.prems by simp
    have "cong_p (fe_val (R ! m) * fe_val (a ! Suc m)) ((\<Prod>i\<le>m. fe_val (a ! i)) * fe_val (a ! Suc m))"
      using h [of m] by (intro mod_mult_cong) auto
    then have new: "fe_mag 8 (secp256k1_fe_mul (R ! m) (a ! Suc m)) \<and>
        cong_p (fe_val (secp256k1_fe_mul (R ! m) (a ! Suc m))) (\<Prod>i\<le>Suc m. fe_val (a ! i))"
      using fe_mul_spec [of "R ! m" "a ! Suc m"] h [of m] am by (auto intro: fe_mag_mono)
    have "fe_mag 8 (?f (Suc (Suc m)) ! k) \<and> cong_p (fe_val (?f (Suc (Suc m)) ! k)) (\<Prod>i\<le>k. fe_val (a ! i))" if "k \<le> Suc m" for k
      unfolding F using that new h [of k] l Suc.prems by (cases "k = Suc m") simp_all
    then show ?case unfolding F using l by simp
  qed
  obtain n where n: "length a = Suc n" using assms(3) by (cases "length a") auto
  show ?thesis unfolding inv_all_forward_def n less_Suc_eq_le by (rule all [of n, unfolded n, OF lessI])
qed

lemma backward_spec:
  assumes "i < length a" "length r = length a" "\<forall>x\<in>set a. fe_mag 8 x" "fe_mag 8 u"
    "cong_p (fe_val u * (\<Prod>k\<le>i. fe_val (a ! k))) 1"
    "\<forall>k\<le>i. fe_mag 8 (r ! k) \<and> cong_p (fe_val (r ! k)) (\<Prod>j\<le>k. fe_val (a ! j))"
    "\<forall>k. i < k \<and> k < length a \<longrightarrow> cong_p (fe_val (r ! k) * fe_val (a ! k)) 1"
  obtains r' u' where "inv_all_backward i a u r = (r', u')" "length r' = length a" "fe_mag 8 u'"
    "cong_p (fe_val u' * fe_val (a ! 0)) 1"
    "\<forall>k. 0 < k \<and> k < length a \<longrightarrow> cong_p (fe_val (r' ! k) * fe_val (a ! k)) 1"
  using assms
proof (induction i arbitrary: u r thesis)
  case 0
  then show ?case by simp
next
  case (Suc i)
  let ?r = "r[Suc i := secp256k1_fe_mul (r ! i) u]" and ?u = "secp256k1_fe_mul u (a ! Suc i)"
  have ai: "fe_mag 8 (a ! Suc i)" using Suc.prems(2,4) by simp
  have u: "fe_mag 8 ?u \<and> cong_p (fe_val ?u) (fe_val u * fe_val (a ! Suc i))"
    using fe_mul_spec [OF Suc.prems(5) ai] by (auto intro: fe_mag_mono)
  have ri: "fe_mag 8 (r ! i) \<and> cong_p (fe_val (r ! i)) (\<Prod>j\<le>i. fe_val (a ! j))" using Suc.prems(7) by simp
  have v: "cong_p (fe_val (secp256k1_fe_mul (r ! i) u)) (fe_val (r ! i) * fe_val u)"
    using fe_mul_spec [of "r ! i" u] ri Suc.prems(5) by blast
  have 1: "cong_p (fe_val ?u * (\<Prod>k\<le>i. fe_val (a ! k))) 1"
  proof -
    have "cong_p (fe_val ?u * (\<Prod>k\<le>i. fe_val (a ! k))) (fe_val u * fe_val (a ! Suc i) * (\<Prod>k\<le>i. fe_val (a ! k)))"
      using u by (intro mod_mult_cong) auto
    then show ?thesis using Suc.prems(6) by (simp add: ac_simps)
  qed
  have 2: "cong_p (fe_val (?r ! Suc i) * fe_val (a ! Suc i)) 1"
  proof -
    have "cong_p (fe_val (r ! i) * fe_val u * fe_val (a ! Suc i)) ((\<Prod>j\<le>i. fe_val (a ! j)) * fe_val u * fe_val (a ! Suc i))"
      using ri by (intro mod_mult_cong) auto
    moreover have "cong_p (fe_val (?r ! Suc i) * fe_val (a ! Suc i)) (fe_val (r ! i) * fe_val u * fe_val (a ! Suc i))"
      using v Suc.prems(2,3) by (intro mod_mult_cong) auto
    ultimately show ?thesis using Suc.prems(6) by (simp add: ac_simps)
  qed
  have 3: "cong_p (fe_val (?r ! k) * fe_val (a ! k)) 1" if "i < k" "k < length a" for k
    using 2 that Suc.prems(8) by (cases "k = Suc i") auto
  obtain r' u' where "inv_all_backward i a ?u ?r = (r', u')" "length r' = length a" "fe_mag 8 u'"
    "cong_p (fe_val u' * fe_val (a ! 0)) 1" "\<forall>k. 0 < k \<and> k < length a \<longrightarrow> cong_p (fe_val (r' ! k) * fe_val (a ! k)) 1"
    by (rule Suc.IH [of ?u ?r]) (use Suc.prems u 1 3 in \<open>auto simp: nth_list_update\<close>)
  then show ?case using Suc.prems(1) by simp
qed

lemma unit_product:
  "(\<forall>k\<le>n. fe_unit (a ! k)) \<Longrightarrow> cong_p ((\<Prod>k\<le>n. fe_val (a ! k)) ^ nat (fe_p - 1)) 1"
proof (induction n)
  case (Suc n)
  have "cong_p ((\<Prod>k\<le>n. fe_val (a ! k)) ^ nat (fe_p - 1) * fe_val (a ! Suc n) ^ nat (fe_p - 1)) (1 * 1)"
    using Suc by (intro mod_mult_cong) (auto simp: fe_unit_def fe_p_def)
  then show ?case by (simp add: power_mult_distrib)
qed (simp add: fe_unit_def fe_p_def)

lemma inv_all_spec:
  assumes "length r = length a" "\<forall>x\<in>set a. fe_mag 8 x \<and> fe_unit x" "k < length a"
  shows "cong_p (fe_val (secp256k1_fe_inv_all_var r a ! k) * fe_val (a ! k)) 1"
proof -
  let ?n = "length a - 1" and ?r = "inv_all_forward r a"
  let ?P = "\<Prod>k\<le>?n. fe_val (a ! k)"
  have m: "\<forall>x\<in>set a. fe_mag 8 x" using assms(2) by simp
  have n: "0 < length a" "?n < length a" using assms(3) by auto
  note f = forward_spec [OF assms(1) m n(1)]
  have rn: "fe_mag 8 (?r ! ?n)" "cong_p (fe_val (?r ! ?n)) ?P" using f n(2) by blast+
  have "cong_p (fe_val (secp256k1_fe_inv (?r ! ?n))) (?P ^ nat (fe_p - 2))"
    using inv_power [OF rn(1)] rn(2) unfolding pw_def by (metis power_mod)
  then have "cong_p (fe_val (secp256k1_fe_inv (?r ! ?n)) * ?P) (?P ^ nat (fe_p - 2) * ?P)"
    by (intro mod_mult_cong) auto
  moreover have "Suc (nat (fe_p - 2)) = nat (fe_p - 1)" by (simp add: fe_p_def)
  then have "?P ^ nat (fe_p - 2) * ?P = ?P ^ nat (fe_p - 1)" by (metis power_Suc2)
  moreover have "cong_p (?P ^ nat (fe_p - 1)) 1" 
  proof (intro unit_product allI impI)
    fix k assume "k \<le> ?n"
    then have "k < length a" using n by linarith
    then show "fe_unit (a ! k)" using assms(2) by simp
  qed
  ultimately have u: "cong_p (fe_val (secp256k1_fe_inv (?r ! ?n)) * ?P) 1" by metis
  have um: "fe_mag 8 (secp256k1_fe_inv (?r ! ?n))" using inv_power [OF rn(1)] by (auto intro: fe_mag_mono)
  have f': "\<forall>k\<le>?n. fe_mag 8 (?r ! k) \<and> cong_p (fe_val (?r ! k)) (\<Prod>j\<le>k. fe_val (a ! j))"
    using f le_less_trans [OF _ n(2)] by blast
  obtain r' u' where b: "inv_all_backward ?n a (secp256k1_fe_inv (?r ! ?n)) ?r = (r', u')" "length r' = length a"
    "cong_p (fe_val u' * fe_val (a ! 0)) 1" "\<forall>k. 0 < k \<and> k < length a \<longrightarrow> cong_p (fe_val (r' ! k) * fe_val (a ! k)) 1"
    by (rule backward_spec [OF n(2) _ m um u, of ?r]) (use f f' n in auto)
  have "secp256k1_fe_inv_all_var r a = r'[0 := u']"
    using n(1) b(1) by (simp add: secp256k1_fe_inv_all_var_def secp256k1_fe_inv_var_def Let_def not_less_eq)
  then show ?thesis using b(2,3,4) assms(3) n(1) by (cases k) simp_all
qed

lemma fe_unit_inv: "fe_mag 8 a \<Longrightarrow> fe_unit a \<Longrightarrow> fe_val (secp256k1_fe_inv a) * fe_val a mod fe_p = 1"
proof -
  assume a: "fe_mag 8 a" "fe_unit a"
  have "Suc (nat (fe_p - 2)) = nat (fe_p - 1)" by (simp add: fe_p_def)
  then have "fe_val a ^ nat (fe_p - 2) * fe_val a = fe_val a ^ nat (fe_p - 1)" by (metis power_Suc2)
  moreover have "cong_p (fe_val (secp256k1_fe_inv a) * fe_val a) (fe_val a ^ nat (fe_p - 2) * fe_val a)"
    using inv_power [OF a(1)] unfolding pw_def by (intro mod_mult_cong) auto
  ultimately show ?thesis using a(2) unfolding fe_unit_def by simp
qed

section \<open>Properties\<close>

text \<open>
  C27: the addition chain of the square root raises its argument to the power \<open>(p + 1) / 4\<close> modulo
  the field prime, and reports success exactly when the square of that power is the
  argument again; so a reported root is a root.
\<close>

theorem field_sqrt_is_checked_power:
  assumes "fe_mag 8 a"
  shows "fe_val (snd (secp256k1_fe_sqrt a)) mod fe_p = fe_val a ^ nat ((fe_p + 1) div 4) mod fe_p \<and>
    (fst (secp256k1_fe_sqrt a) \<longleftrightarrow> fe_val (snd (secp256k1_fe_sqrt a)) ^ 2 mod fe_p = fe_val a mod fe_p)"
  using sqrt_power [OF assms] unfolding pw_def by simp

theorem field_sqrt_is_checked_power_witness: "fst (secp256k1_fe_sqrt (fe_make 1 0 0 0 0))"
proof -
  have "fe_mag 8 (fe_make 1 0 0 0 0)" by (simp add: fe_mag_def)
  moreover have "fe_val (fe_make 1 0 0 0 0) = 1" by (simp add: fe_val_def)
  ultimately show ?thesis
    using field_sqrt_is_checked_power [of "fe_make 1 0 0 0 0"] by (metis power_mod power_one)
qed

text \<open>
  The inverse is the power \<open>p - 2\<close> of its argument, and inverting a whole list at the
  price of one inversion gives, at every position, an element whose product with the original
  is one modulo the prime, whenever every element is a unit.
\<close>

lemma field_simultaneous_inversion:
  assumes "length r = length a" and "\<forall>x\<in>set a. fe_mag 8 x \<and> fe_unit x" and "k < length a"
  shows "fe_val (secp256k1_fe_inv_all_var r a ! k) * fe_val (a ! k) mod fe_p = 1 \<and>
    fe_val (secp256k1_fe_inv (a ! k)) * fe_val (a ! k) mod fe_p = 1"
proof -
  have "fe_mag 8 (a ! k)" "fe_unit (a ! k)" using assms(2,3) by auto
  then show ?thesis using inv_all_spec [OF assms] fe_unit_inv by (simp add: fe_p_def)
qed

end
