(* ===== verification/Group.thy ===== *)
theory Group
  imports FieldImpl
begin

text \<open>
  \<open>secp256k1/src/group.h\<close> and \<open>group_impl.h\<close>: points of the curve \<open>y^2 = x^3 + 7\<close> in affine and in
  Jacobian coordinates, in the build with \<open>USE_ENDOMORPHISM\<close>. A function that writes through
  its pointer \<open>r\<close> returns the new value, and takes the old one when it leaves a field of it
  alone; a pointer that may be \<open>NULL\<close> is an option. The flag \<open>infinity\<close> is a bool.
\<close>

section \<open>Points\<close>

record secp256k1_ge =
  ge_x :: secp256k1_fe
  ge_y :: secp256k1_fe
  ge_inf :: bool

record secp256k1_gej =
  gej_x :: secp256k1_fe
  gej_y :: secp256k1_fe
  gej_z :: secp256k1_fe
  gej_inf :: bool

record secp256k1_ge_storage =
  gs_x :: secp256k1_fe_storage
  gs_y :: secp256k1_fe_storage

definition secp256k1_ge_const_g :: secp256k1_ge where
  "secp256k1_ge_const_g =
     \<lparr>ge_x = SECP256K1_FE_CONST 0x79BE667E 0xF9DCBBAC 0x55A06295 0xCE870B07 0x029BFCDB 0x2DCE28D9 0x59F2815B 0x16F81798,
      ge_y = SECP256K1_FE_CONST 0x483ADA77 0x26A3C465 0x5DA4FBFC 0x0E1108A8 0xFD17B448 0xA6855419 0x9C47D08F 0xFB10D4B8,
      ge_inf = False\<rparr>"

definition CURVE_B :: int where "CURVE_B = 7"

section \<open>Conversions\<close>

definition secp256k1_ge_set_gej_zinv :: "secp256k1_gej \<Rightarrow> secp256k1_fe \<Rightarrow> secp256k1_ge" where
  "secp256k1_ge_set_gej_zinv a zi =
     (let zi2 = secp256k1_fe_sqr zi; zi3 = secp256k1_fe_mul zi2 zi
      in \<lparr>ge_x = secp256k1_fe_mul (gej_x a) zi2, ge_y = secp256k1_fe_mul (gej_y a) zi3, ge_inf = gej_inf a\<rparr>)"

definition secp256k1_ge_set_xy :: "secp256k1_fe \<Rightarrow> secp256k1_fe \<Rightarrow> secp256k1_ge" where
  "secp256k1_ge_set_xy x y = \<lparr>ge_x = x, ge_y = y, ge_inf = False\<rparr>"

definition secp256k1_ge_is_infinity :: "secp256k1_ge \<Rightarrow> bool" where
  "secp256k1_ge_is_infinity a = ge_inf a"

definition secp256k1_ge_neg :: "secp256k1_ge \<Rightarrow> secp256k1_ge" where
  "secp256k1_ge_neg a =
     (let r = a; r = r\<lparr>ge_y := secp256k1_fe_normalize_weak (ge_y r)\<rparr> in r\<lparr>ge_y := secp256k1_fe_negate (ge_y r) 1\<rparr>)"

text \<open>The affine point, and the argument, which is rescaled to \<open>z = 1\<close> in place.\<close>

definition secp256k1_ge_set_gej :: "secp256k1_gej \<Rightarrow> secp256k1_ge \<times> secp256k1_gej" where
  "secp256k1_ge_set_gej a =
     (let a = a\<lparr>gej_z := secp256k1_fe_inv (gej_z a)\<rparr>;
          z2 = secp256k1_fe_sqr (gej_z a);
          z3 = secp256k1_fe_mul (gej_z a) z2;
          a = a\<lparr>gej_x := secp256k1_fe_mul (gej_x a) z2\<rparr>;
          a = a\<lparr>gej_y := secp256k1_fe_mul (gej_y a) z3\<rparr>;
          a = a\<lparr>gej_z := secp256k1_fe_set_int 1\<rparr>
      in (\<lparr>ge_x = gej_x a, ge_y = gej_y a, ge_inf = gej_inf a\<rparr>, a))"

definition secp256k1_ge_set_gej_var :: "secp256k1_ge \<Rightarrow> secp256k1_gej \<Rightarrow> secp256k1_ge \<times> secp256k1_gej" where
  "secp256k1_ge_set_gej_var r a =
     (let r = r\<lparr>ge_inf := gej_inf a\<rparr> in
      if gej_inf a then (r, a)
      else let a = a\<lparr>gej_z := secp256k1_fe_inv_var (gej_z a)\<rparr>;
               z2 = secp256k1_fe_sqr (gej_z a);
               z3 = secp256k1_fe_mul (gej_z a) z2;
               a = a\<lparr>gej_x := secp256k1_fe_mul (gej_x a) z2\<rparr>;
               a = a\<lparr>gej_y := secp256k1_fe_mul (gej_y a) z3\<rparr>;
               a = a\<lparr>gej_z := secp256k1_fe_set_int 1\<rparr>
           in (r\<lparr>ge_x := gej_x a, ge_y := gej_y a\<rparr>, a))"

text \<open>
  The last loop of \<open>secp256k1_ge_set_all_gej_var\<close>, with \<open>count\<close> as the rest of the list of
  inverses. Allocation is taken to succeed; \<open>buf\<close> is what the fresh memory for the inverses holds.
\<close>

fun set_all_loop :: "secp256k1_ge list \<Rightarrow> secp256k1_gej list \<Rightarrow> secp256k1_fe list \<Rightarrow> secp256k1_ge list" where
  "set_all_loop (r # rs) (a # as) azi =
     (if gej_inf a then r\<lparr>ge_inf := gej_inf a\<rparr> # set_all_loop rs as azi
      else secp256k1_ge_set_gej_zinv a (hd azi) # set_all_loop rs as (tl azi))"
| "set_all_loop rs as azi = rs"

definition secp256k1_ge_set_all_gej_var ::
    "secp256k1_fe list \<Rightarrow> secp256k1_ge list \<Rightarrow> secp256k1_gej list \<Rightarrow> secp256k1_ge list" where
  "secp256k1_ge_set_all_gej_var buf r a =
     (let az = map gej_z (filter (\<lambda>a. \<not> gej_inf a) a);
          azi = secp256k1_fe_inv_all_var (take (length az) buf) az
      in set_all_loop r a azi)"

text \<open>The backward loop shared by the two table conversions: index \<open>i\<close> down to 0.\<close>

fun set_table_loop :: "nat \<Rightarrow> secp256k1_gej list \<Rightarrow> secp256k1_fe list \<Rightarrow> secp256k1_fe \<Rightarrow> secp256k1_ge list \<Rightarrow> secp256k1_ge list" where
  "set_table_loop 0 a zr zi r = r"
| "set_table_loop (Suc i) a zr zi r =
     (let zi = secp256k1_fe_mul zi (zr ! Suc i)
      in set_table_loop i a zr zi (r[i := secp256k1_ge_set_gej_zinv (a ! i) zi]))"

definition secp256k1_ge_set_table_gej_var ::
    "secp256k1_ge list \<Rightarrow> secp256k1_gej list \<Rightarrow> secp256k1_fe list \<Rightarrow> secp256k1_ge list" where
  "secp256k1_ge_set_table_gej_var r a zr =
     (if 0 < length a then
        let i = length a - 1;
            zi = secp256k1_fe_inv (gej_z (a ! i));
            r = r[i := secp256k1_ge_set_gej_zinv (a ! i) zi]
        in set_table_loop i a zr zi r
      else r)"

fun globalz_loop :: "nat \<Rightarrow> nat \<Rightarrow> secp256k1_gej list \<Rightarrow> secp256k1_fe list \<Rightarrow> secp256k1_fe \<Rightarrow> secp256k1_ge list \<Rightarrow> secp256k1_ge list" where
  "globalz_loop len 0 a zr zs r = r"
| "globalz_loop len (Suc i) a zr zs r =
     (let zs = (if Suc i \<noteq> len - 1 then secp256k1_fe_mul zs (zr ! Suc i) else zs)
      in globalz_loop len i a zr zs (r[i := secp256k1_ge_set_gej_zinv (a ! i) zs]))"

definition secp256k1_ge_globalz_set_table_gej ::
    "secp256k1_ge list \<Rightarrow> secp256k1_fe \<Rightarrow> secp256k1_gej list \<Rightarrow> secp256k1_fe list \<Rightarrow> secp256k1_ge list \<times> secp256k1_fe" where
  "secp256k1_ge_globalz_set_table_gej r globalz a zr =
     (if 0 < length a then
        let i = length a - 1;
            r = r[i := \<lparr>ge_x = gej_x (a ! i), ge_y = gej_y (a ! i), ge_inf = False\<rparr>];
            globalz = gej_z (a ! i);
            zs = zr ! i
        in (globalz_loop (length a) i a zr zs r, globalz)
      else (r, globalz))"

definition secp256k1_gej_set_infinity :: secp256k1_gej where
  "secp256k1_gej_set_infinity =
     \<lparr>gej_x = secp256k1_fe_clear, gej_y = secp256k1_fe_clear, gej_z = secp256k1_fe_clear, gej_inf = True\<rparr>"

definition secp256k1_ge_set_infinity :: secp256k1_ge where
  "secp256k1_ge_set_infinity = \<lparr>ge_x = secp256k1_fe_clear, ge_y = secp256k1_fe_clear, ge_inf = True\<rparr>"

definition secp256k1_gej_clear :: secp256k1_gej where
  "secp256k1_gej_clear =
     \<lparr>gej_x = secp256k1_fe_clear, gej_y = secp256k1_fe_clear, gej_z = secp256k1_fe_clear, gej_inf = False\<rparr>"

definition secp256k1_ge_clear :: secp256k1_ge where
  "secp256k1_ge_clear = \<lparr>ge_x = secp256k1_fe_clear, ge_y = secp256k1_fe_clear, ge_inf = False\<rparr>"

definition secp256k1_ge_set_xquad :: "secp256k1_fe \<Rightarrow> bool \<times> secp256k1_ge" where
  "secp256k1_ge_set_xquad x =
     (let x2 = secp256k1_fe_sqr x;
          x3 = secp256k1_fe_mul x x2;
          c = secp256k1_fe_set_int CURVE_B;
          c = secp256k1_fe_add c x3;
          (ok, y) = secp256k1_fe_sqrt c
      in (ok, \<lparr>ge_x = x, ge_y = y, ge_inf = False\<rparr>))"

definition secp256k1_ge_set_xo_var :: "secp256k1_fe \<Rightarrow> int \<Rightarrow> bool \<times> secp256k1_ge" where
  "secp256k1_ge_set_xo_var x odd' =
     (let (ok, r) = secp256k1_ge_set_xquad x in
      if \<not> ok then (False, r)
      else let r = r\<lparr>ge_y := secp256k1_fe_normalize_var (ge_y r)\<rparr>;
               r = (if of_bool (secp256k1_fe_is_odd (ge_y r)) \<noteq> odd' then r\<lparr>ge_y := secp256k1_fe_negate (ge_y r) 1\<rparr> else r)
           in (True, r))"

definition secp256k1_gej_set_ge :: "secp256k1_ge \<Rightarrow> secp256k1_gej" where
  "secp256k1_gej_set_ge a = \<lparr>gej_x = ge_x a, gej_y = ge_y a, gej_z = secp256k1_fe_set_int 1, gej_inf = ge_inf a\<rparr>"

definition secp256k1_gej_eq_x_var :: "secp256k1_fe \<Rightarrow> secp256k1_gej \<Rightarrow> bool" where
  "secp256k1_gej_eq_x_var x a =
     (let r = secp256k1_fe_sqr (gej_z a); r = secp256k1_fe_mul r x;
          r2 = gej_x a; r2 = secp256k1_fe_normalize_weak r2
      in secp256k1_fe_equal_var r r2)"

definition secp256k1_gej_neg :: "secp256k1_gej \<Rightarrow> secp256k1_gej" where
  "secp256k1_gej_neg a =
     (let r = a; r = r\<lparr>gej_y := secp256k1_fe_normalize_weak (gej_y r)\<rparr> in r\<lparr>gej_y := secp256k1_fe_negate (gej_y r) 1\<rparr>)"

definition secp256k1_gej_is_infinity :: "secp256k1_gej \<Rightarrow> bool" where
  "secp256k1_gej_is_infinity a = gej_inf a"

definition secp256k1_gej_is_valid_var :: "secp256k1_gej \<Rightarrow> bool" where
  "secp256k1_gej_is_valid_var a =
     (if gej_inf a then False
      else let y2 = secp256k1_fe_sqr (gej_y a);
               x3 = secp256k1_fe_sqr (gej_x a); x3 = secp256k1_fe_mul x3 (gej_x a);
               z2 = secp256k1_fe_sqr (gej_z a);
               z6 = secp256k1_fe_sqr z2; z6 = secp256k1_fe_mul z6 z2;
               z6 = secp256k1_fe_mul_int z6 CURVE_B;
               x3 = secp256k1_fe_add x3 z6;
               x3 = secp256k1_fe_normalize_weak x3
           in secp256k1_fe_equal_var y2 x3)"

definition secp256k1_ge_is_valid_var :: "secp256k1_ge \<Rightarrow> bool" where
  "secp256k1_ge_is_valid_var a =
     (if ge_inf a then False
      else let y2 = secp256k1_fe_sqr (ge_y a);
               x3 = secp256k1_fe_sqr (ge_x a); x3 = secp256k1_fe_mul x3 (ge_x a);
               c = secp256k1_fe_set_int CURVE_B;
               x3 = secp256k1_fe_add x3 c;
               x3 = secp256k1_fe_normalize_weak x3
           in secp256k1_fe_equal_var y2 x3)"

section \<open>Doubling and addition\<close>

definition secp256k1_gej_double_var ::
    "secp256k1_gej \<Rightarrow> secp256k1_gej \<Rightarrow> secp256k1_fe option \<Rightarrow> secp256k1_gej \<times> secp256k1_fe option" where
  "secp256k1_gej_double_var r a rzr =
     (if gej_inf a then (r\<lparr>gej_inf := gej_inf a\<rparr>, map_option (\<lambda>_. secp256k1_fe_set_int 1) rzr)
      else
        let rzr = map_option (\<lambda>_. secp256k1_fe_mul_int (secp256k1_fe_normalize_weak (gej_y a)) 2) rzr;
            rz = secp256k1_fe_mul (gej_z a) (gej_y a);
            rz = secp256k1_fe_mul_int rz 2;
            t1 = secp256k1_fe_sqr (gej_x a);
            t1 = secp256k1_fe_mul_int t1 3;
            t2 = secp256k1_fe_sqr t1;
            t3 = secp256k1_fe_sqr (gej_y a);
            t3 = secp256k1_fe_mul_int t3 2;
            t4 = secp256k1_fe_sqr t3;
            t4 = secp256k1_fe_mul_int t4 2;
            t3 = secp256k1_fe_mul t3 (gej_x a);
            rx = t3;
            rx = secp256k1_fe_mul_int rx 4;
            rx = secp256k1_fe_negate rx 4;
            rx = secp256k1_fe_add rx t2;
            t2 = secp256k1_fe_negate t2 1;
            t3 = secp256k1_fe_mul_int t3 6;
            t3 = secp256k1_fe_add t3 t2;
            ry = secp256k1_fe_mul t1 t3;
            t2 = secp256k1_fe_negate t4 2;
            ry = secp256k1_fe_add ry t2
        in (\<lparr>gej_x = rx, gej_y = ry, gej_z = rz, gej_inf = gej_inf a\<rparr>, rzr))"

definition secp256k1_gej_double_nonzero ::
    "secp256k1_gej \<Rightarrow> secp256k1_gej \<Rightarrow> secp256k1_fe option \<Rightarrow> secp256k1_gej \<times> secp256k1_fe option" where
  "secp256k1_gej_double_nonzero r a rzr = secp256k1_gej_double_var r a rzr"

definition secp256k1_gej_add_var ::
    "secp256k1_gej \<Rightarrow> secp256k1_gej \<Rightarrow> secp256k1_gej \<Rightarrow> secp256k1_fe option \<Rightarrow> secp256k1_gej \<times> secp256k1_fe option" where
  "secp256k1_gej_add_var r a b rzr =
     (if gej_inf a then (b, rzr)
      else if gej_inf b then (a, map_option (\<lambda>_. secp256k1_fe_set_int 1) rzr)
      else
        let r = r\<lparr>gej_inf := False\<rparr>;
            z22 = secp256k1_fe_sqr (gej_z b);
            z12 = secp256k1_fe_sqr (gej_z a);
            u1 = secp256k1_fe_mul (gej_x a) z22;
            u2 = secp256k1_fe_mul (gej_x b) z12;
            s1 = secp256k1_fe_mul (gej_y a) z22; s1 = secp256k1_fe_mul s1 (gej_z b);
            s2 = secp256k1_fe_mul (gej_y b) z12; s2 = secp256k1_fe_mul s2 (gej_z a);
            h = secp256k1_fe_negate u1 1; h = secp256k1_fe_add h u2;
            i = secp256k1_fe_negate s1 1; i = secp256k1_fe_add i s2
        in if secp256k1_fe_normalizes_to_zero_var h then
             if secp256k1_fe_normalizes_to_zero_var i then secp256k1_gej_double_var r a rzr
             else (r\<lparr>gej_inf := True\<rparr>, map_option (\<lambda>_. secp256k1_fe_set_int 0) rzr)
           else
             let i2 = secp256k1_fe_sqr i;
                 h2 = secp256k1_fe_sqr h;
                 h3 = secp256k1_fe_mul h h2;
                 h = secp256k1_fe_mul h (gej_z b);
                 rzr = map_option (\<lambda>_. h) rzr;
                 rz = secp256k1_fe_mul (gej_z a) h;
                 t = secp256k1_fe_mul u1 h2;
                 rx = t; rx = secp256k1_fe_mul_int rx 2; rx = secp256k1_fe_add rx h3;
                 rx = secp256k1_fe_negate rx 3; rx = secp256k1_fe_add rx i2;
                 ry = secp256k1_fe_negate rx 5; ry = secp256k1_fe_add ry t; ry = secp256k1_fe_mul ry i;
                 h3 = secp256k1_fe_mul h3 s1; h3 = secp256k1_fe_negate h3 1;
                 ry = secp256k1_fe_add ry h3
             in (\<lparr>gej_x = rx, gej_y = ry, gej_z = rz, gej_inf = gej_inf r\<rparr>, rzr))"

definition secp256k1_gej_add_ge_var ::
    "secp256k1_gej \<Rightarrow> secp256k1_gej \<Rightarrow> secp256k1_ge \<Rightarrow> secp256k1_fe option \<Rightarrow> secp256k1_gej \<times> secp256k1_fe option" where
  "secp256k1_gej_add_ge_var r a b rzr =
     (if gej_inf a then (secp256k1_gej_set_ge b, rzr)
      else if ge_inf b then (a, map_option (\<lambda>_. secp256k1_fe_set_int 1) rzr)
      else
        let r = r\<lparr>gej_inf := False\<rparr>;
            z12 = secp256k1_fe_sqr (gej_z a);
            u1 = gej_x a; u1 = secp256k1_fe_normalize_weak u1;
            u2 = secp256k1_fe_mul (ge_x b) z12;
            s1 = gej_y a; s1 = secp256k1_fe_normalize_weak s1;
            s2 = secp256k1_fe_mul (ge_y b) z12; s2 = secp256k1_fe_mul s2 (gej_z a);
            h = secp256k1_fe_negate u1 1; h = secp256k1_fe_add h u2;
            i = secp256k1_fe_negate s1 1; i = secp256k1_fe_add i s2
        in if secp256k1_fe_normalizes_to_zero_var h then
             if secp256k1_fe_normalizes_to_zero_var i then secp256k1_gej_double_var r a rzr
             else (r\<lparr>gej_inf := True\<rparr>, map_option (\<lambda>_. secp256k1_fe_set_int 0) rzr)
           else
             let i2 = secp256k1_fe_sqr i;
                 h2 = secp256k1_fe_sqr h;
                 h3 = secp256k1_fe_mul h h2;
                 rzr = map_option (\<lambda>_. h) rzr;
                 rz = secp256k1_fe_mul (gej_z a) h;
                 t = secp256k1_fe_mul u1 h2;
                 rx = t; rx = secp256k1_fe_mul_int rx 2; rx = secp256k1_fe_add rx h3;
                 rx = secp256k1_fe_negate rx 3; rx = secp256k1_fe_add rx i2;
                 ry = secp256k1_fe_negate rx 5; ry = secp256k1_fe_add ry t; ry = secp256k1_fe_mul ry i;
                 h3 = secp256k1_fe_mul h3 s1; h3 = secp256k1_fe_negate h3 1;
                 ry = secp256k1_fe_add ry h3
             in (\<lparr>gej_x = rx, gej_y = ry, gej_z = rz, gej_inf = gej_inf r\<rparr>, rzr))"

definition secp256k1_gej_add_zinv_var ::
    "secp256k1_gej \<Rightarrow> secp256k1_gej \<Rightarrow> secp256k1_ge \<Rightarrow> secp256k1_fe \<Rightarrow> secp256k1_gej" where
  "secp256k1_gej_add_zinv_var r a b bzinv =
     (if ge_inf b then a
      else if gej_inf a then
        let bzinv2 = secp256k1_fe_sqr bzinv;
            bzinv3 = secp256k1_fe_mul bzinv2 bzinv
        in \<lparr>gej_x = secp256k1_fe_mul (ge_x b) bzinv2, gej_y = secp256k1_fe_mul (ge_y b) bzinv3,
            gej_z = secp256k1_fe_set_int 1, gej_inf = ge_inf b\<rparr>
      else
        let r = r\<lparr>gej_inf := False\<rparr>;
            az = secp256k1_fe_mul (gej_z a) bzinv;
            z12 = secp256k1_fe_sqr az;
            u1 = gej_x a; u1 = secp256k1_fe_normalize_weak u1;
            u2 = secp256k1_fe_mul (ge_x b) z12;
            s1 = gej_y a; s1 = secp256k1_fe_normalize_weak s1;
            s2 = secp256k1_fe_mul (ge_y b) z12; s2 = secp256k1_fe_mul s2 az;
            h = secp256k1_fe_negate u1 1; h = secp256k1_fe_add h u2;
            i = secp256k1_fe_negate s1 1; i = secp256k1_fe_add i s2
        in if secp256k1_fe_normalizes_to_zero_var h then
             if secp256k1_fe_normalizes_to_zero_var i then fst (secp256k1_gej_double_var r a None)
             else r\<lparr>gej_inf := True\<rparr>
           else
             let i2 = secp256k1_fe_sqr i;
                 h2 = secp256k1_fe_sqr h;
                 h3 = secp256k1_fe_mul h h2;
                 rz = gej_z a; rz = secp256k1_fe_mul rz h;
                 t = secp256k1_fe_mul u1 h2;
                 rx = t; rx = secp256k1_fe_mul_int rx 2; rx = secp256k1_fe_add rx h3;
                 rx = secp256k1_fe_negate rx 3; rx = secp256k1_fe_add rx i2;
                 ry = secp256k1_fe_negate rx 5; ry = secp256k1_fe_add ry t; ry = secp256k1_fe_mul ry i;
                 h3 = secp256k1_fe_mul h3 s1; h3 = secp256k1_fe_negate h3 1;
                 ry = secp256k1_fe_add ry h3
             in \<lparr>gej_x = rx, gej_y = ry, gej_z = rz, gej_inf = gej_inf r\<rparr>)"

definition secp256k1_gej_add_ge :: "secp256k1_gej \<Rightarrow> secp256k1_ge \<Rightarrow> secp256k1_gej" where
  "secp256k1_gej_add_ge a b =
     (let fe_1 = SECP256K1_FE_CONST 0 0 0 0 0 0 0 1;
          zz = secp256k1_fe_sqr (gej_z a);
          u1 = gej_x a; u1 = secp256k1_fe_normalize_weak u1;
          u2 = secp256k1_fe_mul (ge_x b) zz;
          s1 = gej_y a; s1 = secp256k1_fe_normalize_weak s1;
          s2 = secp256k1_fe_mul (ge_y b) zz;
          s2 = secp256k1_fe_mul s2 (gej_z a);
          t = u1; t = secp256k1_fe_add t u2;
          m = s1; m = secp256k1_fe_add m s2;
          rr = secp256k1_fe_sqr t;
          m_alt = secp256k1_fe_negate u2 1;
          tt = secp256k1_fe_mul u1 m_alt;
          rr = secp256k1_fe_add rr tt;
          degenerate = (secp256k1_fe_normalizes_to_zero m \<and> secp256k1_fe_normalizes_to_zero rr);
          rr_alt = s1;
          rr_alt = secp256k1_fe_mul_int rr_alt 2;
          m_alt = secp256k1_fe_add m_alt u1;
          rr_alt = secp256k1_fe_cmov rr_alt rr (of_bool (\<not> degenerate));
          m_alt = secp256k1_fe_cmov m_alt m (of_bool (\<not> degenerate));
          n = secp256k1_fe_sqr m_alt;
          q = secp256k1_fe_mul n t;
          n = secp256k1_fe_sqr n;
          n = secp256k1_fe_cmov n m (of_bool degenerate);
          t = secp256k1_fe_sqr rr_alt;
          rz = secp256k1_fe_mul (gej_z a) m_alt;
          inf = (secp256k1_fe_normalizes_to_zero rz \<and> \<not> gej_inf a);
          rz = secp256k1_fe_mul_int rz 2;
          q = secp256k1_fe_negate q 1;
          t = secp256k1_fe_add t q;
          t = secp256k1_fe_normalize_weak t;
          rx = t;
          t = secp256k1_fe_mul_int t 2;
          t = secp256k1_fe_add t q;
          t = secp256k1_fe_mul t rr_alt;
          t = secp256k1_fe_add t n;
          ry = secp256k1_fe_negate t 3;
          ry = secp256k1_fe_normalize_weak ry;
          rx = secp256k1_fe_mul_int rx 4;
          ry = secp256k1_fe_mul_int ry 4;
          rx = secp256k1_fe_cmov rx (ge_x b) (of_bool (gej_inf a));
          ry = secp256k1_fe_cmov ry (ge_y b) (of_bool (gej_inf a));
          rz = secp256k1_fe_cmov rz fe_1 (of_bool (gej_inf a))
      in \<lparr>gej_x = rx, gej_y = ry, gej_z = rz, gej_inf = inf\<rparr>)"

definition secp256k1_gej_rescale :: "secp256k1_gej \<Rightarrow> secp256k1_fe \<Rightarrow> secp256k1_gej" where
  "secp256k1_gej_rescale r s =
     (let zz = secp256k1_fe_sqr s;
          r = r\<lparr>gej_x := secp256k1_fe_mul (gej_x r) zz\<rparr>;
          r = r\<lparr>gej_y := secp256k1_fe_mul (gej_y r) zz\<rparr>;
          r = r\<lparr>gej_y := secp256k1_fe_mul (gej_y r) s\<rparr>
      in r\<lparr>gej_z := secp256k1_fe_mul (gej_z r) s\<rparr>)"

section \<open>Storage, endomorphism, quadratic residues\<close>

definition secp256k1_ge_to_storage :: "secp256k1_ge \<Rightarrow> secp256k1_ge_storage" where
  "secp256k1_ge_to_storage a =
     (let x = ge_x a; x = secp256k1_fe_normalize x; y = ge_y a; y = secp256k1_fe_normalize y
      in \<lparr>gs_x = secp256k1_fe_to_storage x, gs_y = secp256k1_fe_to_storage y\<rparr>)"

definition secp256k1_ge_from_storage :: "secp256k1_ge_storage \<Rightarrow> secp256k1_ge" where
  "secp256k1_ge_from_storage a =
     \<lparr>ge_x = secp256k1_fe_from_storage (gs_x a), ge_y = secp256k1_fe_from_storage (gs_y a), ge_inf = False\<rparr>"

definition secp256k1_ge_storage_cmov :: "secp256k1_ge_storage \<Rightarrow> secp256k1_ge_storage \<Rightarrow> int \<Rightarrow> secp256k1_ge_storage" where
  "secp256k1_ge_storage_cmov r a flag =
     \<lparr>gs_x = secp256k1_fe_storage_cmov (gs_x r) (gs_x a) flag, gs_y = secp256k1_fe_storage_cmov (gs_y r) (gs_y a) flag\<rparr>"

definition secp256k1_ge_mul_lambda :: "secp256k1_ge \<Rightarrow> secp256k1_ge" where
  "secp256k1_ge_mul_lambda a =
     (let beta = SECP256K1_FE_CONST 0x7ae96a2b 0x657c0710 0x6e64479e 0xac3434e9 0x9cf04975 0x12f58995 0xc1396c28 0x719501ee;
          r = a
      in r\<lparr>ge_x := secp256k1_fe_mul (ge_x r) beta\<rparr>)"

definition secp256k1_gej_has_quad_y_var :: "secp256k1_gej \<Rightarrow> bool" where
  "secp256k1_gej_has_quad_y_var a =
     (if gej_inf a then False else secp256k1_fe_is_quad_var (secp256k1_fe_mul (gej_y a) (gej_z a)))"

section \<open>What an element denotes\<close>

text \<open>
  \<open>den m x v\<close>: the limbs of \<open>x\<close> are bounded by magnitude \<open>m\<close>, and \<open>x\<close> denotes the number \<open>v\<close>
  modulo the prime. One rule per field operation carries both through a formula.
\<close>

definition den :: "int \<Rightarrow> secp256k1_fe \<Rightarrow> int \<Rightarrow> bool" where
  "den m x v \<longleftrightarrow> fe_mag m x \<and> fe_val x mod fe_p = v mod fe_p"

lemma den_self: "fe_mag m x \<Longrightarrow> den m x (fe_val x)"
  by (simp add: den_def)

lemma den_mono: "den m x v \<Longrightarrow> m \<le> n \<Longrightarrow> den n x v"
  by (auto simp: den_def intro: fe_mag_mono)

lemma den_cong: "den m x v \<Longrightarrow> v mod fe_p = w mod fe_p \<Longrightarrow> den m x w"
  by (simp add: den_def)

lemma den_eq: "den m x v \<Longrightarrow> v = w \<Longrightarrow> den m x w"
  by simp

lemma den_mag: "den m x v \<Longrightarrow> m \<le> n \<Longrightarrow> fe_mag n x"
  by (auto simp: den_def intro: fe_mag_mono)

lemma den_mul: "den m x v \<Longrightarrow> den n y w \<Longrightarrow> m \<le> 8 \<Longrightarrow> n \<le> 8 \<Longrightarrow> den 1 (secp256k1_fe_mul x y) (v * w)"
  unfolding den_def using fe_mul_spec [of x y] by (metis fe_mag_mono mod_mult_cong)

lemma den_sqr: "den m x v \<Longrightarrow> m \<le> 8 \<Longrightarrow> den 1 (secp256k1_fe_sqr x) (v * v)"
  unfolding den_def using fe_sqr_spec [of x] by (metis fe_mag_mono mod_mult_cong)

lemma den_add: "den m x v \<Longrightarrow> den n y w \<Longrightarrow> m + n \<le> 32 \<Longrightarrow> den (m + n) (secp256k1_fe_add x y) (v + w)"
  unfolding den_def using fe_add_spec [of m x n y] by (metis mod_add_cong)

lemma den_negate: "den m x v \<Longrightarrow> 0 \<le> m \<Longrightarrow> m \<le> 31 \<Longrightarrow> den (m + 1) (secp256k1_fe_negate x m) (- v)"
proof -
  assume a: "den m x v" "0 \<le> m" "m \<le> 31"
  have "(2 * (m + 1) * fe_p - fe_val x) mod fe_p = (- fe_val x) mod fe_p"
    using mod_mult_self1 [of "- fe_val x" "2 * (m + 1)" fe_p] by simp
  also have "\<dots> = (- v) mod fe_p" using a(1) unfolding den_def by (metis mod_minus_eq)
  finally show ?thesis using a fe_negate_spec [of m x] unfolding den_def by simp
qed

lemma den_mul_int: "den m x v \<Longrightarrow> 0 \<le> m \<Longrightarrow> 0 \<le> k \<Longrightarrow> m * k \<le> 32 \<Longrightarrow> den (m * k) (secp256k1_fe_mul_int x k) (v * k)"
  unfolding den_def using fe_mul_int_spec [of m x k] by (auto intro: mod_mult_cong)

lemma den_weak: "den m x v \<Longrightarrow> m \<le> 32 \<Longrightarrow> den 1 (secp256k1_fe_normalize_weak x) v"
proof -
  assume a: "den m x v" "m \<le> 32"
  then have "fe_mag 32 x" by (auto simp: den_def intro: fe_mag_mono)
  note n = normalize_weak_spec [OF this]
  have "fe_val (secp256k1_fe_normalize_weak x) mod fe_p = fe_val x mod fe_p"
    unfolding n(1) using mod_mult_self1 [of "fe_val x" "- (uint (fe4 x) div 2 ^ 48)" fe_p] by simp
  then show ?thesis using a(1) n(2-6) unfolding den_def fe_mag_def by simp
qed

lemma fe_reduced_mag: "fe_reduced x \<Longrightarrow> fe_mag 1 x"
  unfolding fe_reduced_def fe_mag_def by auto

lemma den_normalize: "den m x v \<Longrightarrow> m \<le> 32 \<Longrightarrow> den 1 (secp256k1_fe_normalize x) v"
  using normalize_spec [of x] den_mag [of m x v 32] fe_reduced_mag unfolding den_def by simp

lemma den_normalize_var: "den m x v \<Longrightarrow> m \<le> 32 \<Longrightarrow> den 1 (secp256k1_fe_normalize_var x) v"
  using den_normalize [of m x v] normalize_var_eq [of x] den_mag [of m x v 32] by simp

lemma den_int: "0 \<le> k \<Longrightarrow> k \<le> 7 \<Longrightarrow> den 1 (secp256k1_fe_set_int k) k"
  by (simp add: den_def secp256k1_fe_set_int_def fe_mag_def fe_val_def u64_of_int)

lemma den_zero: "den m x v \<Longrightarrow> m \<le> 32 \<Longrightarrow>
    (secp256k1_fe_normalizes_to_zero x \<longleftrightarrow> v mod fe_p = 0) \<and> (secp256k1_fe_normalizes_to_zero_var x \<longleftrightarrow> v mod fe_p = 0)"
  using normalizes_to_zero_spec [of x] normalizes_to_zero_var_eq [of x] den_mag [of m x v 32] unfolding den_def by simp

lemma den_equal: "den 1 x v \<Longrightarrow> den n y w \<Longrightarrow> n \<le> 30 \<Longrightarrow>
    (secp256k1_fe_equal_var x y \<longleftrightarrow> v mod fe_p = w mod fe_p) \<and> (secp256k1_fe_equal x y \<longleftrightarrow> v mod fe_p = w mod fe_p)"
  unfolding den_def using fe_equal_spec [of x y] by (auto intro: fe_mag_mono)

lemma cmov_of_bool: "secp256k1_fe_cmov r a (of_bool b) = (if b then a else r)"
  by (cases b; cases r; cases a) (simp_all add: secp256k1_fe_cmov_def fe_make_def)

lemma den_sqrt: "den m x v \<Longrightarrow> m \<le> 8 \<Longrightarrow> secp256k1_fe_sqrt x = (True, y) \<Longrightarrow> \<exists>w. den 1 y w \<and> w * w mod fe_p = v mod fe_p"
  using sqrt_power [of x] den_self [of 1 y] unfolding den_def
  by (metis fe_mag_mono fst_conv power2_eq_square snd_conv)

section \<open>Points as numbers\<close>

text \<open>Magnitudes every operation accepts and keeps.\<close>

definition gej_mag :: "secp256k1_gej \<Rightarrow> bool" where
  "gej_mag a \<longleftrightarrow> fe_mag 8 (gej_x a) \<and> fe_mag 8 (gej_y a) \<and> fe_mag 8 (gej_z a)"

definition ge_mag :: "secp256k1_ge \<Rightarrow> bool" where
  "ge_mag a \<longleftrightarrow> fe_mag 8 (ge_x a) \<and> fe_mag 8 (ge_y a)"

text \<open>
  A Jacobian triple stands for the affine pair \<open>(x, y)\<close>: the pair, scaled by the powers of
  \<open>z\<close>, gives the other coordinates. No division is needed to say so.
\<close>

definition gej_rep :: "secp256k1_gej \<Rightarrow> int \<Rightarrow> int \<Rightarrow> bool" where
  "gej_rep a x y \<longleftrightarrow> \<not> gej_inf a \<and> den 8 (gej_x a) (x * fe_val (gej_z a) ^ 2) \<and>
     den 8 (gej_y a) (y * fe_val (gej_z a) ^ 3) \<and> fe_mag 8 (gej_z a)"

definition ge_rep :: "secp256k1_ge \<Rightarrow> int \<Rightarrow> int \<Rightarrow> bool" where
  "ge_rep a x y \<longleftrightarrow> \<not> ge_inf a \<and> den 8 (ge_x a) x \<and> den 8 (ge_y a) y"

text \<open>The curve equation, on affine and on Jacobian coordinates.\<close>

definition on_curve :: "int \<Rightarrow> int \<Rightarrow> bool" where
  "on_curve x y \<longleftrightarrow> y ^ 2 mod fe_p = (x ^ 3 + CURVE_B) mod fe_p"

definition gej_on :: "secp256k1_gej \<Rightarrow> bool" where
  "gej_on a \<longleftrightarrow> fe_val (gej_y a) ^ 2 mod fe_p = (fe_val (gej_x a) ^ 3 + CURVE_B * fe_val (gej_z a) ^ 6) mod fe_p"

lemma gej_valid_spec: "gej_mag a \<Longrightarrow> secp256k1_gej_is_valid_var a \<longleftrightarrow> \<not> gej_inf a \<and> gej_on a"
proof -
  assume m: "gej_mag a"
  note X = den_self [of 8 "gej_x a"] and Y = den_self [of 8 "gej_y a"] and Z = den_self [of 8 "gej_z a"]
  have x: "den 8 (gej_x a) (fe_val (gej_x a))" and y: "den 8 (gej_y a) (fe_val (gej_y a))" and z: "den 8 (gej_z a) (fe_val (gej_z a))"
    using m X Y Z unfolding gej_mag_def by auto
  have y2: "den 1 (secp256k1_fe_sqr (gej_y a)) (fe_val (gej_y a) * fe_val (gej_y a))" by (rule den_sqr [OF y]) simp
  have x3: "den 1 (secp256k1_fe_mul (secp256k1_fe_sqr (gej_x a)) (gej_x a)) (fe_val (gej_x a) * fe_val (gej_x a) * fe_val (gej_x a))"
    by (rule den_mul [OF den_sqr [OF x] x]) simp_all
  have z2: "den 1 (secp256k1_fe_sqr (gej_z a)) (fe_val (gej_z a) * fe_val (gej_z a))" (is "den 1 ?z2 ?v2") by (rule den_sqr [OF z]) simp
  have "den 1 (secp256k1_fe_mul (secp256k1_fe_sqr ?z2) ?z2) (?v2 * ?v2 * ?v2)" by (rule den_mul [OF den_sqr [OF z2] z2]) simp_all
  then have "den (1 * 7) (secp256k1_fe_mul_int (secp256k1_fe_mul (secp256k1_fe_sqr ?z2) ?z2) CURVE_B) (?v2 * ?v2 * ?v2 * 7)"
    unfolding CURVE_B_def by (rule den_mul_int) simp_all
  from den_weak [OF den_add [OF x3 this]] den_equal [OF y2]
  show ?thesis unfolding secp256k1_gej_is_valid_var_def gej_on_def Let_def
    by (simp add: power2_eq_square power3_eq_cube CURVE_B_def eval_nat_numeral ac_simps)
qed

end
