(* ===== verification/GroupAdd.thy ===== *)
theory GroupAdd
  imports Group
begin

text \<open>
  Correctness of the point operations of \<open>group_impl.h\<close>: the Jacobian formulas compute the
  chord and tangent law on the affine points the triples stand for, and stay on the curve.
\<close>

section \<open>Doubling\<close>

lemma double_den:
  assumes "\<not> gej_inf a" and X: "den 8 (gej_x a) X" and Y: "den 8 (gej_y a) Y" and Z: "den 8 (gej_z a) Z"
    and d_def: "d = fst (secp256k1_gej_double_var r a rzr)"
  shows "\<not> gej_inf d" "den 6 (gej_x d) (9 * X ^ 4 - 8 * X * Y ^ 2)"
    "den 4 (gej_y d) (36 * X ^ 3 * Y ^ 2 - 27 * X ^ 6 - 8 * Y ^ 4)" "den 2 (gej_z d) (2 * Y * Z)"
proof -
  note rz = den_mul_int [OF den_mul [OF Z Y], of 2, simplified]
  note t1 = den_mul_int [OF den_sqr [OF X], of 3, simplified]
  note t2 = den_sqr [OF t1, simplified]
  note t3 = den_mul_int [OF den_sqr [OF Y], of 2, simplified]
  note t4 = den_mul_int [OF den_sqr [OF t3], of 2, simplified]
  note t3' = den_mul [OF t3 X, simplified]
  note rx = den_add [OF den_negate [OF den_mul_int [OF t3', of 4, simplified], simplified] t2, simplified]
  note t3'' = den_add [OF den_mul_int [OF t3', of 6, simplified] den_negate [OF t2, simplified], simplified]
  note ry = den_add [OF den_mul [OF t1 t3'', simplified] den_negate [OF t4, simplified], simplified]
  show "\<not> gej_inf d" using assms(1) by (simp add: d_def secp256k1_gej_double_var_def Let_def)
  show "den 6 (gej_x d) (9 * X ^ 4 - 8 * X * Y ^ 2)"
    using rx assms(1) by (simp add: d_def secp256k1_gej_double_var_def Let_def eval_nat_numeral algebra_simps)
  show "den 4 (gej_y d) (36 * X ^ 3 * Y ^ 2 - 27 * X ^ 6 - 8 * Y ^ 4)"
    using ry assms(1) by (simp add: d_def secp256k1_gej_double_var_def Let_def eval_nat_numeral algebra_simps)
  show "den 2 (gej_z d) (2 * Y * Z)"
    using rz assms(1) by (simp add: d_def secp256k1_gej_double_var_def Let_def algebra_simps)
qed

section \<open>Representation\<close>

lemma gej_repI:
  assumes "\<not> gej_inf r" "den m (gej_x r) (x * Z ^ 2)" "den n (gej_y r) (y * Z ^ 3)" "den k (gej_z r) Z" "m \<le> 8" "n \<le> 8" "k \<le> 8"
  shows "gej_rep r x y"
proof -
  have z: "fe_val (gej_z r) mod fe_p = Z mod fe_p" using assms(4) by (simp add: den_def)
  then have "(x * Z ^ 2) mod fe_p = (x * fe_val (gej_z r) ^ 2) mod fe_p" "(y * Z ^ 3) mod fe_p = (y * fe_val (gej_z r) ^ 3) mod fe_p"
    by (intro mod_mult_cong refl; metis power_mod)+
  then show ?thesis unfolding gej_rep_def using assms den_cong den_mono den_mag by meson
qed

lemma gej_repE:
  assumes "gej_rep a x y"
  shows "\<not> gej_inf a" "den 8 (gej_x a) (x * fe_val (gej_z a) ^ 2)" "den 8 (gej_y a) (y * fe_val (gej_z a) ^ 3)"
    "den 8 (gej_z a) (fe_val (gej_z a))"
  using assms den_self unfolding gej_rep_def by auto

text \<open>Replacing a number by a congruent one inside a polynomial.\<close>

lemmas cong_intros = mod_add_cong mod_diff_cong mod_mult_cong refl

lemma double_tangent:
  assumes "gej_rep a x y" and l: "l * (2 * y) mod fe_p = (3 * x ^ 2) mod fe_p"
  defines "x3 \<equiv> l ^ 2 - 2 * x"
  shows "gej_rep (fst (secp256k1_gej_double_var r a rzr)) x3 (l * (x - x3) - y)"
proof -
  note e = gej_repE [OF assms(1)]
  define Z T L where "Z = fe_val (gej_z a)" and "T = 3 * x ^ 2" and "L = l * (2 * y)"
  note d = double_den [OF e refl, of r rzr, folded Z_def]
  have TL: "T mod fe_p = L mod fe_p" using l unfolding T_def L_def by simp
  have "(T * T * Z ^ 8 - 8 * x * y ^ 2 * Z ^ 8) mod fe_p = (L * L * Z ^ 8 - 8 * x * y ^ 2 * Z ^ 8) mod fe_p"
    by (intro cong_intros TL)
  moreover have "9 * (x * Z ^ 2) ^ 4 - 8 * (x * Z ^ 2) * (y * Z ^ 3) ^ 2 = T * T * Z ^ 8 - 8 * x * y ^ 2 * Z ^ 8"
    unfolding T_def by (simp add: eval_nat_numeral algebra_simps)
  moreover have "L * L * Z ^ 8 - 8 * x * y ^ 2 * Z ^ 8 = x3 * (2 * (y * Z ^ 3) * Z) ^ 2"
    unfolding L_def x3_def by (simp add: eval_nat_numeral algebra_simps)
  ultimately have X: "den 6 (gej_x (fst (secp256k1_gej_double_var r a rzr))) (x3 * (2 * (y * Z ^ 3) * Z) ^ 2)"
    by (intro den_cong [OF d(2)]) simp
  have "(12 * x * T * y ^ 2 - T * T * T - 8 * y ^ 4) * Z ^ 12 mod fe_p = (12 * x * L * y ^ 2 - L * L * L - 8 * y ^ 4) * Z ^ 12 mod fe_p"
    by (intro cong_intros TL)
  moreover have "36 * (x * Z ^ 2) ^ 3 * (y * Z ^ 3) ^ 2 - 27 * (x * Z ^ 2) ^ 6 - 8 * (y * Z ^ 3) ^ 4 =
      (12 * x * T * y ^ 2 - T * T * T - 8 * y ^ 4) * Z ^ 12"
    unfolding T_def by (simp add: eval_nat_numeral algebra_simps)
  moreover have "(12 * x * L * y ^ 2 - L * L * L - 8 * y ^ 4) * Z ^ 12 = (l * (x - x3) - y) * (2 * (y * Z ^ 3) * Z) ^ 3"
    unfolding L_def x3_def by (simp add: eval_nat_numeral algebra_simps)
  ultimately have Y: "den 4 (gej_y (fst (secp256k1_gej_double_var r a rzr))) ((l * (x - x3) - y) * (2 * (y * Z ^ 3) * Z) ^ 3)"
    by (intro den_cong [OF d(3)]) simp
  show ?thesis by (rule gej_repI [OF d(1) X Y d(4)]) simp_all
qed

section \<open>Addition of different points\<close>

text \<open>The part that all variable-time additions share after \<open>h\<close> and \<open>i\<close>.\<close>

definition add_tail :: "secp256k1_fe \<Rightarrow> secp256k1_fe \<Rightarrow> secp256k1_fe \<Rightarrow> secp256k1_fe \<Rightarrow> secp256k1_fe \<times> secp256k1_fe" where
  "add_tail h i u1 s1 =
     (let i2 = secp256k1_fe_sqr i; h2 = secp256k1_fe_sqr h; h3 = secp256k1_fe_mul h h2;
          t = secp256k1_fe_mul u1 h2;
          rx = t; rx = secp256k1_fe_mul_int rx 2; rx = secp256k1_fe_add rx h3;
          rx = secp256k1_fe_negate rx 3; rx = secp256k1_fe_add rx i2;
          ry = secp256k1_fe_negate rx 5; ry = secp256k1_fe_add ry t; ry = secp256k1_fe_mul ry i;
          h3 = secp256k1_fe_mul h3 s1; h3 = secp256k1_fe_negate h3 1;
          ry = secp256k1_fe_add ry h3
      in (rx, ry))"

lemma add_tail_den:
  assumes "den 3 h H" "den 3 i I" "den 1 u1 U" "den 1 s1 S"
  shows "den 5 (fst (add_tail h i u1 s1)) (I ^ 2 - H ^ 3 - 2 * U * H ^ 2)"
    and "den 3 (snd (add_tail h i u1 s1)) (I * (U * H ^ 2 - (I ^ 2 - H ^ 3 - 2 * U * H ^ 2)) - S * H ^ 3)"
proof -
  note i2 = den_sqr [OF assms(2), simplified]
  note h2 = den_sqr [OF assms(1), simplified]
  note h3 = den_mul [OF assms(1) h2, simplified]
  note t = den_mul [OF assms(3) h2, simplified]
  note rx = den_add [OF den_negate [OF den_add [OF den_mul_int [OF t, of 2, simplified] h3, simplified], simplified] i2, simplified]
  note ry = den_add [OF den_mul [OF den_add [OF den_negate [OF rx, simplified] t, simplified] assms(2), simplified]
      den_negate [OF den_mul [OF h3 assms(4), simplified], simplified], simplified]
  show "den 5 (fst (add_tail h i u1 s1)) (I ^ 2 - H ^ 3 - 2 * U * H ^ 2)"
    using rx by (simp add: add_tail_def Let_def eval_nat_numeral algebra_simps)
  show "den 3 (snd (add_tail h i u1 s1)) (I * (U * H ^ 2 - (I ^ 2 - H ^ 3 - 2 * U * H ^ 2)) - S * H ^ 3)"
    using ry by (simp add: add_tail_def Let_def eval_nat_numeral algebra_simps)
qed

text \<open>
  One record for what the three additions have in common: the common scale \<open>W\<close> of both
  points, the four scaled coordinates, and the differences.
\<close>

lemma differences_den:
  assumes "den 1 u1 U1" "den 1 u2 U2" "den 1 s1 S1" "den 1 s2 S2"
  shows "den 3 (secp256k1_fe_add (secp256k1_fe_negate u1 1) u2) (U2 - U1)"
    "den 3 (secp256k1_fe_add (secp256k1_fe_negate s1 1) s2) (S2 - S1)"
  using den_add [OF den_negate [OF assms(1), simplified] assms(2), simplified]
    den_add [OF den_negate [OF assms(3), simplified] assms(4), simplified] by simp_all

lemma tail_chord:
  assumes "den 3 h ((x2 - x1) * W ^ 2)" "den 3 i ((y2 - y1) * W ^ 3)" "den 1 u1 (x1 * W ^ 2)" "den 1 s1 (y1 * W ^ 3)"
    and l: "l * (x2 - x1) mod fe_p = (y2 - y1) mod fe_p"
  defines "x3 \<equiv> l ^ 2 - x1 - x2"
  shows "den 5 (fst (add_tail h i u1 s1)) (x3 * ((x2 - x1) * W ^ 3) ^ 2)"
    and "den 3 (snd (add_tail h i u1 s1)) ((l * (x1 - x3) - y1) * ((x2 - x1) * W ^ 3) ^ 3)"
proof -
  have "(y2 - y1) * W ^ 3 mod fe_p = l * (x2 - x1) * W ^ 3 mod fe_p" using l by (intro cong_intros) simp
  then have i: "den 3 i (l * (x2 - x1) * W ^ 3)" by (rule den_cong [OF assms(2)])
  note t = add_tail_den [OF assms(1) i assms(3,4)]
  show "den 5 (fst (add_tail h i u1 s1)) (x3 * ((x2 - x1) * W ^ 3) ^ 2)"
    by (rule den_eq [OF t(1)]) (simp add: x3_def eval_nat_numeral algebra_simps)
  show "den 3 (snd (add_tail h i u1 s1)) ((l * (x1 - x3) - y1) * ((x2 - x1) * W ^ 3) ^ 3)"
    by (rule den_eq [OF t(2)]) (simp add: x3_def eval_nat_numeral algebra_simps)
qed

text \<open>Each addition is a preparation of \<open>h\<close>, \<open>i\<close>, \<open>u1\<close>, \<open>s1\<close>, a case distinction, and the tail.\<close>

lemma add_var_cases:
  assumes "\<not> gej_inf a" "\<not> gej_inf b" "den 8 (gej_x a) X1" "den 8 (gej_y a) Y1" "den 8 (gej_z a) Z1"
    "den 8 (gej_x b) X2" "den 8 (gej_y b) Y2" "den 8 (gej_z b) Z2"
  defines "H \<equiv> X2 * Z1 ^ 2 - X1 * Z2 ^ 2" and "I \<equiv> Y2 * Z1 ^ 3 - Y1 * Z2 ^ 3"
  obtains (same) "H mod fe_p = 0" "I mod fe_p = 0" "\<exists>r'. secp256k1_gej_add_var r a b rzr = secp256k1_gej_double_var r' a rzr"
  | (opposite) "H mod fe_p = 0" "I mod fe_p \<noteq> 0" "gej_inf (fst (secp256k1_gej_add_var r a b rzr))"
  | (different) h i u1 s1 where "H mod fe_p \<noteq> 0" "den 3 h H" "den 3 i I" "den 1 u1 (X1 * Z2 ^ 2)" "den 1 s1 (Y1 * Z2 ^ 3)"
      "gej_x (fst (secp256k1_gej_add_var r a b rzr)) = fst (add_tail h i u1 s1)"
      "gej_y (fst (secp256k1_gej_add_var r a b rzr)) = snd (add_tail h i u1 s1)"
      "den 1 (gej_z (fst (secp256k1_gej_add_var r a b rzr))) (Z1 * (H * Z2))"
      "\<not> gej_inf (fst (secp256k1_gej_add_var r a b rzr))"
proof -
  let ?z22 = "secp256k1_fe_sqr (gej_z b)" and ?z12 = "secp256k1_fe_sqr (gej_z a)"
  let ?u1 = "secp256k1_fe_mul (gej_x a) ?z22" and ?u2 = "secp256k1_fe_mul (gej_x b) ?z12"
  let ?s1 = "secp256k1_fe_mul (secp256k1_fe_mul (gej_y a) ?z22) (gej_z b)"
  let ?s2 = "secp256k1_fe_mul (secp256k1_fe_mul (gej_y b) ?z12) (gej_z a)"
  let ?h = "secp256k1_fe_add (secp256k1_fe_negate ?u1 1) ?u2" and ?i = "secp256k1_fe_add (secp256k1_fe_negate ?s1 1) ?s2"
  have u1: "den 1 ?u1 (X1 * Z2 ^ 2)" using den_mul [OF assms(3) den_sqr [OF assms(8)], simplified] by (simp add: power2_eq_square)
  have u2: "den 1 ?u2 (X2 * Z1 ^ 2)" using den_mul [OF assms(6) den_sqr [OF assms(5)], simplified] by (simp add: power2_eq_square)
  have s1: "den 1 ?s1 (Y1 * Z2 ^ 3)"
    using den_mul [OF den_mul [OF assms(4) den_sqr [OF assms(8)], simplified] assms(8), simplified] by (simp add: power3_eq_cube mult.assoc)
  have s2: "den 1 ?s2 (Y2 * Z1 ^ 3)"
    using den_mul [OF den_mul [OF assms(7) den_sqr [OF assms(5)], simplified] assms(5), simplified] by (simp add: power3_eq_cube mult.assoc)
  note hi = differences_den [OF u1 u2 s1 s2, folded H_def I_def]
  have zh: "secp256k1_fe_normalizes_to_zero_var ?h \<longleftrightarrow> H mod fe_p = 0" using den_zero [OF hi(1)] by simp
  have zi: "secp256k1_fe_normalizes_to_zero_var ?i \<longleftrightarrow> I mod fe_p = 0" using den_zero [OF hi(2)] by simp
  have z: "den 1 (secp256k1_fe_mul (gej_z a) (secp256k1_fe_mul ?h (gej_z b))) (Z1 * (H * Z2))"
    using den_mul [OF assms(5) den_mul [OF hi(1) assms(8), simplified], simplified] .
  note add = secp256k1_gej_add_var_def [of r a b rzr] 
  consider "H mod fe_p = 0" "I mod fe_p = 0" | "H mod fe_p = 0" "I mod fe_p \<noteq> 0" | "H mod fe_p \<noteq> 0" by blast
  then show ?thesis
  proof cases
    case 1
    then show ?thesis using assms(1,2) zh zi by (intro same) (auto simp: add Let_def)
  next
    case 2
    then show ?thesis using assms(1,2) zh zi by (intro opposite) (simp_all add: add Let_def)
  next
    case 3
    then show ?thesis using assms(1,2) zh z by (intro different [OF _ hi u1 s1]) (simp_all add: add Let_def add_tail_def)
  qed
qed

lemma ge_differences:
  assumes "den 8 ax X1" "den 8 ay Y1" "den 8 bx X2" "den 8 by Y2" "den 8 az Z"
  defines "h \<equiv> secp256k1_fe_add (secp256k1_fe_negate (secp256k1_fe_normalize_weak ax) 1) (secp256k1_fe_mul bx (secp256k1_fe_sqr az))"
    and "i \<equiv> secp256k1_fe_add (secp256k1_fe_negate (secp256k1_fe_normalize_weak ay) 1)
      (secp256k1_fe_mul (secp256k1_fe_mul by (secp256k1_fe_sqr az)) az)"
  shows "den 3 h (X2 * Z ^ 2 - X1)" "den 3 i (Y2 * Z ^ 3 - Y1)"
    "secp256k1_fe_normalizes_to_zero_var h \<longleftrightarrow> (X2 * Z ^ 2 - X1) mod fe_p = 0"
    "secp256k1_fe_normalizes_to_zero_var i \<longleftrightarrow> (Y2 * Z ^ 3 - Y1) mod fe_p = 0"
proof -
  have u2: "den 1 (secp256k1_fe_mul bx (secp256k1_fe_sqr az)) (X2 * Z ^ 2)"
    using den_mul [OF assms(3) den_sqr [OF assms(5)], simplified] by (simp add: power2_eq_square)
  have s2: "den 1 (secp256k1_fe_mul (secp256k1_fe_mul by (secp256k1_fe_sqr az)) az) (Y2 * Z ^ 3)"
    using den_mul [OF den_mul [OF assms(4) den_sqr [OF assms(5)], simplified] assms(5), simplified] by (simp add: power3_eq_cube mult.assoc)
  note d = differences_den [OF den_weak [OF assms(1), simplified] u2 den_weak [OF assms(2), simplified] s2, folded h_def i_def]
  show "den 3 h (X2 * Z ^ 2 - X1)" "den 3 i (Y2 * Z ^ 3 - Y1)" by (rule d)+
  show "secp256k1_fe_normalizes_to_zero_var h \<longleftrightarrow> (X2 * Z ^ 2 - X1) mod fe_p = 0" using den_zero [OF d(1)] by simp
  show "secp256k1_fe_normalizes_to_zero_var i \<longleftrightarrow> (Y2 * Z ^ 3 - Y1) mod fe_p = 0" using den_zero [OF d(2)] by simp
qed

lemma add_ge_var_cases:
  assumes "\<not> gej_inf a" "\<not> ge_inf b" "den 8 (gej_x a) X1" "den 8 (gej_y a) Y1" "den 8 (gej_z a) Z1"
    "den 8 (ge_x b) X2" "den 8 (ge_y b) Y2"
  defines "H \<equiv> X2 * Z1 ^ 2 - X1" and "I \<equiv> Y2 * Z1 ^ 3 - Y1"
  obtains (same) "H mod fe_p = 0" "I mod fe_p = 0" "\<exists>r'. secp256k1_gej_add_ge_var r a b rzr = secp256k1_gej_double_var r' a rzr"
  | (opposite) "H mod fe_p = 0" "I mod fe_p \<noteq> 0" "gej_inf (fst (secp256k1_gej_add_ge_var r a b rzr))"
  | (different) h i u1 s1 where "H mod fe_p \<noteq> 0" "den 3 h H" "den 3 i I" "den 1 u1 X1" "den 1 s1 Y1"
      "gej_x (fst (secp256k1_gej_add_ge_var r a b rzr)) = fst (add_tail h i u1 s1)"
      "gej_y (fst (secp256k1_gej_add_ge_var r a b rzr)) = snd (add_tail h i u1 s1)"
      "den 1 (gej_z (fst (secp256k1_gej_add_ge_var r a b rzr))) (Z1 * H)"
      "\<not> gej_inf (fst (secp256k1_gej_add_ge_var r a b rzr))"
proof -
  note d = ge_differences [OF assms(3,4,6,7,5), folded H_def I_def]
  note z = den_mul [OF assms(5) d(1), simplified]
  note u = den_weak [OF assms(3), simplified] den_weak [OF assms(4), simplified]
  note add = secp256k1_gej_add_ge_var_def [of r a b rzr]
  consider "H mod fe_p = 0" "I mod fe_p = 0" | "H mod fe_p = 0" "I mod fe_p \<noteq> 0" | "H mod fe_p \<noteq> 0" by blast
  then show ?thesis
  proof cases
    case 1
    then show ?thesis using assms(1,2) d by (intro same) (auto simp: add Let_def)
  next
    case 2
    then show ?thesis using assms(1,2) d by (intro opposite) (simp_all add: add Let_def)
  next
    case 3
    then show ?thesis using assms(1,2) d z by (intro different [OF _ d(1,2) u]) (simp_all add: add Let_def add_tail_def)
  qed
qed

text \<open>Here the second point carries the inverse \<open>V\<close> of its coordinate \<open>z\<close>.\<close>

lemma add_zinv_var_cases:
  assumes "\<not> gej_inf a" "\<not> ge_inf b" "den 8 (gej_x a) X1" "den 8 (gej_y a) Y1" "den 8 (gej_z a) Z1"
    "den 8 (ge_x b) X2" "den 8 (ge_y b) Y2" "den 8 bzinv V"
  defines "H \<equiv> X2 * (Z1 * V) ^ 2 - X1" and "I \<equiv> Y2 * (Z1 * V) ^ 3 - Y1"
  obtains (same) "H mod fe_p = 0" "I mod fe_p = 0" "\<exists>r'. secp256k1_gej_add_zinv_var r a b bzinv = fst (secp256k1_gej_double_var r' a None)"
  | (opposite) "H mod fe_p = 0" "I mod fe_p \<noteq> 0" "gej_inf (secp256k1_gej_add_zinv_var r a b bzinv)"
  | (different) h i u1 s1 where "H mod fe_p \<noteq> 0" "den 3 h H" "den 3 i I" "den 1 u1 X1" "den 1 s1 Y1"
      "gej_x (secp256k1_gej_add_zinv_var r a b bzinv) = fst (add_tail h i u1 s1)"
      "gej_y (secp256k1_gej_add_zinv_var r a b bzinv) = snd (add_tail h i u1 s1)"
      "den 1 (gej_z (secp256k1_gej_add_zinv_var r a b bzinv)) (Z1 * H)"
      "\<not> gej_inf (secp256k1_gej_add_zinv_var r a b bzinv)"
proof -
  have az: "den 8 (secp256k1_fe_mul (gej_z a) bzinv) (Z1 * V)" by (rule den_mono [OF den_mul [OF assms(5,8)]]) simp_all
  note d = ge_differences [OF assms(3,4,6,7) az, folded H_def I_def]
  note z = den_mul [OF assms(5) d(1), simplified]
  note u = den_weak [OF assms(3), simplified] den_weak [OF assms(4), simplified]
  note add = secp256k1_gej_add_zinv_var_def [of r a b bzinv]
  consider "H mod fe_p = 0" "I mod fe_p = 0" | "H mod fe_p = 0" "I mod fe_p \<noteq> 0" | "H mod fe_p \<noteq> 0" by blast
  then show ?thesis
  proof cases
    case 1
    then show ?thesis using assms(1,2) d by (intro same) (auto simp: add Let_def)
  next
    case 2
    then show ?thesis using assms(1,2) d by (intro opposite) (simp_all add: add Let_def)
  next
    case 3
    then show ?thesis using assms(1,2) d z by (intro different [OF _ d(1,2) u]) (simp_all add: add Let_def add_tail_def)
  qed
qed

section \<open>Addition is the chord law\<close>

lemma add_var_chord:
  assumes "gej_rep a x1 y1" "gej_rep b x2 y2"
    and H: "(x2 - x1) * (fe_val (gej_z a) * fe_val (gej_z b)) ^ 2 mod fe_p \<noteq> 0"
    and l: "l * (x2 - x1) mod fe_p = (y2 - y1) mod fe_p"
  defines "x3 \<equiv> l ^ 2 - x1 - x2"
  shows "gej_rep (fst (secp256k1_gej_add_var r a b rzr)) x3 (l * (x1 - x3) - y1)"
proof -
  note a = gej_repE [OF assms(1)] and b = gej_repE [OF assms(2)]
  define Z1 Z2 where "Z1 = fe_val (gej_z a)" and "Z2 = fe_val (gej_z b)"
  have h: "x2 * Z2 ^ 2 * Z1 ^ 2 = x2 * (Z1 * Z2) ^ 2" "y2 * Z2 ^ 3 * Z1 ^ 3 = y2 * (Z1 * Z2) ^ 3"
    "x1 * Z1 ^ 2 * Z2 ^ 2 = x1 * (Z1 * Z2) ^ 2" "y1 * Z1 ^ 3 * Z2 ^ 3 = y1 * (Z1 * Z2) ^ 3"
    "Z1 * ((x2 - x1) * (Z1 * Z2) ^ 2 * Z2) = (x2 - x1) * (Z1 * Z2) ^ 3" 
    by (simp_all add: power_mult_distrib eval_nat_numeral algebra_simps)
  have H': "(x2 - x1) * (Z1 * Z2) ^ 2 mod fe_p \<noteq> 0" using H unfolding Z1_def Z2_def .
  have tail: "gej_rep (fst (secp256k1_gej_add_var r a b rzr)) x3 (l * (x1 - x3) - y1)"
    if "den 3 h ((x2 - x1) * (Z1 * Z2) ^ 2)" "den 3 i ((y2 - y1) * (Z1 * Z2) ^ 3)" "den 1 u1 (x1 * (Z1 * Z2) ^ 2)"
      "den 1 s1 (y1 * (Z1 * Z2) ^ 3)" and
      e: "gej_x (fst (secp256k1_gej_add_var r a b rzr)) = fst (add_tail h i u1 s1)"
      "gej_y (fst (secp256k1_gej_add_var r a b rzr)) = snd (add_tail h i u1 s1)" and
      z: "den 1 (gej_z (fst (secp256k1_gej_add_var r a b rzr))) ((x2 - x1) * (Z1 * Z2) ^ 3)"
      "\<not> gej_inf (fst (secp256k1_gej_add_var r a b rzr))" for h i u1 s1
    by (rule gej_repI [OF z(2) tail_chord(1) [OF that(1-4) l, folded x3_def e] tail_chord(2) [OF that(1-4) l, folded x3_def e] z(1)]) simp_all
  show ?thesis
    by (rule add_var_cases [OF a(1) b(1) a(2,3,4) b(2,3,4), folded Z1_def Z2_def, unfolded h left_diff_distrib [symmetric], of r rzr])
      (use H' tail in blast)+
qed

lemma add_ge_var_chord:
  assumes "gej_rep a x1 y1" "ge_rep b x2 y2"
    and H: "(x2 - x1) * fe_val (gej_z a) ^ 2 mod fe_p \<noteq> 0"
    and l: "l * (x2 - x1) mod fe_p = (y2 - y1) mod fe_p"
  defines "x3 \<equiv> l ^ 2 - x1 - x2"
  shows "gej_rep (fst (secp256k1_gej_add_ge_var r a b rzr)) x3 (l * (x1 - x3) - y1)"
proof -
  note a = gej_repE [OF assms(1)]
  have b: "\<not> ge_inf b" "den 8 (ge_x b) x2" "den 8 (ge_y b) y2" using assms(2) unfolding ge_rep_def by auto
  define Z where "Z = fe_val (gej_z a)"
  have h: "Z * ((x2 - x1) * Z ^ 2) = (x2 - x1) * Z ^ 3" by (simp add: eval_nat_numeral algebra_simps)
  have H': "(x2 - x1) * Z ^ 2 mod fe_p \<noteq> 0" using H unfolding Z_def .
  have tail: "gej_rep (fst (secp256k1_gej_add_ge_var r a b rzr)) x3 (l * (x1 - x3) - y1)"
    if "den 3 h ((x2 - x1) * Z ^ 2)" "den 3 i ((y2 - y1) * Z ^ 3)" "den 1 u1 (x1 * Z ^ 2)" "den 1 s1 (y1 * Z ^ 3)" and
      e: "gej_x (fst (secp256k1_gej_add_ge_var r a b rzr)) = fst (add_tail h i u1 s1)"
      "gej_y (fst (secp256k1_gej_add_ge_var r a b rzr)) = snd (add_tail h i u1 s1)" and
      z: "den 1 (gej_z (fst (secp256k1_gej_add_ge_var r a b rzr))) ((x2 - x1) * Z ^ 3)"
      "\<not> gej_inf (fst (secp256k1_gej_add_ge_var r a b rzr))" for h i u1 s1
    by (rule gej_repI [OF z(2) tail_chord(1) [OF that(1-4) l, folded x3_def e] tail_chord(2) [OF that(1-4) l, folded x3_def e] z(1)]) simp_all
  show ?thesis
    by (rule add_ge_var_cases [OF a(1) b(1) a(2,3,4) b(2,3), folded Z_def, unfolded left_diff_distrib [symmetric] h, of r rzr])
      (use H' tail in blast)+
qed

section \<open>Staying on the curve\<close>

lemma gej_on_den:
  assumes "den m (gej_x a) X" "den n (gej_y a) Y" "den k (gej_z a) Z"
  shows "gej_on a \<longleftrightarrow> (Y ^ 2 - X ^ 3 - CURVE_B * Z ^ 6) mod fe_p = 0"
proof -
  have v: "fe_val (gej_x a) mod fe_p = X mod fe_p" "fe_val (gej_y a) mod fe_p = Y mod fe_p" "fe_val (gej_z a) mod fe_p = Z mod fe_p"
    using assms by (simp_all add: den_def)
  have "fe_val (gej_y a) ^ 2 mod fe_p = Y ^ 2 mod fe_p" using v(2) by (metis power_mod)
  moreover have "(fe_val (gej_x a) ^ 3 + CURVE_B * fe_val (gej_z a) ^ 6) mod fe_p = (X ^ 3 + CURVE_B * Z ^ 6) mod fe_p"
    by (intro cong_intros; metis v power_mod)
  ultimately have "gej_on a \<longleftrightarrow> Y ^ 2 mod fe_p = (X ^ 3 + CURVE_B * Z ^ 6) mod fe_p"
    unfolding gej_on_def by simp
  then have "gej_on a \<longleftrightarrow> (Y ^ 2 - (X ^ 3 + CURVE_B * Z ^ 6)) mod fe_p = 0"
    by (simp only: mod_eq_dvd_iff dvd_eq_mod_eq_0)
  then show ?thesis by (simp add: diff_diff_eq)
qed

text \<open>The defect of the tangent formulas is a multiple of the defect of the point.\<close>

lemma tangent_defect:
  fixes X Y c :: int
  shows "(36 * X ^ 3 * Y ^ 2 - 27 * X ^ 6 - 8 * Y ^ 4) ^ 2 - (9 * X ^ 4 - 8 * X * Y ^ 2) ^ 3 - c * 64 * Y ^ 6 =
    64 * Y ^ 6 * (Y ^ 2 - X ^ 3 - c)"
  by (simp add: eval_nat_numeral algebra_simps)

lemma double_on_curve:
  assumes "gej_mag a" "\<not> gej_inf a" "gej_on a"
  shows "gej_on (fst (secp256k1_gej_double_var r a rzr)) \<and> gej_mag (fst (secp256k1_gej_double_var r a rzr))"
proof -
  define X Y Z where "X = fe_val (gej_x a)" and "Y = fe_val (gej_y a)" and "Z = fe_val (gej_z a)"
  have v: "den 8 (gej_x a) X" "den 8 (gej_y a) Y" "den 8 (gej_z a) Z"
    using assms(1) den_self unfolding X_def Y_def Z_def gej_mag_def by auto
  note d = double_den [OF assms(2) v refl, of r rzr]
  have "CURVE_B * (2 * Y * Z) ^ 6 = CURVE_B * Z ^ 6 * 64 * Y ^ 6" by (simp add: power_mult_distrib)
  note c = this
  have e: "(36 * X ^ 3 * Y ^ 2 - 27 * X ^ 6 - 8 * Y ^ 4) ^ 2 - (9 * X ^ 4 - 8 * X * Y ^ 2) ^ 3 - CURVE_B * (2 * Y * Z) ^ 6 =
      64 * Y ^ 6 * (Y ^ 2 - X ^ 3 - CURVE_B * Z ^ 6)"
    unfolding c by (rule tangent_defect)
  have "(Y ^ 2 - X ^ 3 - CURVE_B * Z ^ 6) mod fe_p = 0" using assms(3) gej_on_den [OF v] by blast
  then have "gej_on (fst (secp256k1_gej_double_var r a rzr))" unfolding gej_on_den [OF d(2-4)] e
    by (simp add: dvd_eq_mod_eq_0 [symmetric])
  moreover have "gej_mag (fst (secp256k1_gej_double_var r a rzr))"
    unfolding gej_mag_def using den_mag [OF d(2)] den_mag [OF d(3)] den_mag [OF d(4)] by simp
  ultimately show ?thesis ..
qed

lemma chord_defect:
  fixes U S H I c :: int
  defines "X \<equiv> I ^ 2 - H ^ 3 - 2 * U * H ^ 2"
  shows "(I * (U * H ^ 2 - X) - S * H ^ 3) ^ 2 - X ^ 3 - c * H ^ 6 =
    H ^ 3 * (((S + I) ^ 2 - (U + H) ^ 3 - c) * (X - U * H ^ 2) - (S ^ 2 - U ^ 3 - c) * (X - (U + H) * H ^ 2))"
  unfolding X_def by (simp add: eval_nat_numeral algebra_simps)

lemma tail_on_curve:
  assumes "den 3 h H" "den 3 i I" "den 1 u1 U" "den 1 s1 S" "gej_x r = fst (add_tail h i u1 s1)" "gej_y r = snd (add_tail h i u1 s1)"
    "den 1 (gej_z r) Z" "CURVE_B * Z ^ 6 = c * H ^ 6"
    "(S ^ 2 - U ^ 3 - c) mod fe_p = 0" "((S + I) ^ 2 - (U + H) ^ 3 - c) mod fe_p = 0"
  shows "gej_on r \<and> gej_mag r"
proof -
  note t = add_tail_den [OF assms(1-4), folded assms(5,6)]
  define X where "X = I ^ 2 - H ^ 3 - 2 * U * H ^ 2"
  have "fe_p dvd H ^ 3 * (((S + I) ^ 2 - (U + H) ^ 3 - c) * (X - U * H ^ 2) - (S ^ 2 - U ^ 3 - c) * (X - (U + H) * H ^ 2))"
    using assms(9,10) by (intro dvd_mult [of _ _ "H ^ 3"] dvd_diff; intro dvd_mult2) (simp_all add: dvd_eq_mod_eq_0)
  then have "gej_on r" unfolding gej_on_den [OF t assms(7)] assms(8)
    using chord_defect [of I U H S c] by (simp add: X_def dvd_eq_mod_eq_0)
  moreover have "gej_mag r" unfolding gej_mag_def using den_mag [OF t(1)] den_mag [OF t(2)] den_mag [OF assms(7)] by simp
  ultimately show ?thesis ..
qed

text \<open>Scaling a point scales its defect.\<close>

lemma scaled_defect:
  fixes X Y Z W :: int
  assumes "(Y ^ 2 - X ^ 3 - CURVE_B * Z ^ 6) mod fe_p = 0"
  shows "((Y * W ^ 3) ^ 2 - (X * W ^ 2) ^ 3 - CURVE_B * (Z * W) ^ 6) mod fe_p = 0"
proof -
  have "(Y * W ^ 3) ^ 2 - (X * W ^ 2) ^ 3 - CURVE_B * (Z * W) ^ 6 = W ^ 6 * (Y ^ 2 - X ^ 3 - CURVE_B * Z ^ 6)"
    by (simp add: power_mult_distrib flip: power_mult) (simp add: algebra_simps)
  then show ?thesis using assms by (simp add: dvd_eq_mod_eq_0 [symmetric])
qed

lemma add_var_on_curve:
  assumes "gej_mag a" "gej_mag b" "gej_on a" "gej_on b" "\<not> gej_inf (fst (secp256k1_gej_add_var r a b rzr))"
  shows "gej_on (fst (secp256k1_gej_add_var r a b rzr)) \<and> gej_mag (fst (secp256k1_gej_add_var r a b rzr))"
proof (cases "gej_inf a \<or> gej_inf b")
  case True
  then show ?thesis using assms by (auto simp: secp256k1_gej_add_var_def)
next
  case False
  define X1 Y1 Z1 X2 Y2 Z2 where "X1 = fe_val (gej_x a)" and "Y1 = fe_val (gej_y a)" and "Z1 = fe_val (gej_z a)"
    and "X2 = fe_val (gej_x b)" and "Y2 = fe_val (gej_y b)" and "Z2 = fe_val (gej_z b)"
  have v: "den 8 (gej_x a) X1" "den 8 (gej_y a) Y1" "den 8 (gej_z a) Z1" "den 8 (gej_x b) X2" "den 8 (gej_y b) Y2" "den 8 (gej_z b) Z2"
    using assms(1,2) den_self unfolding X1_def Y1_def Z1_def X2_def Y2_def Z2_def gej_mag_def by auto
  have n: "\<not> gej_inf a" "\<not> gej_inf b" using False by auto
  have f1: "((Y1 * Z2 ^ 3) ^ 2 - (X1 * Z2 ^ 2) ^ 3 - CURVE_B * (Z1 * Z2) ^ 6) mod fe_p = 0"
    using gej_on_den [OF v(1-3)] assms(3) by (intro scaled_defect) simp
  have "((Y2 * Z1 ^ 3) ^ 2 - (X2 * Z1 ^ 2) ^ 3 - CURVE_B * (Z2 * Z1) ^ 6) mod fe_p = 0"
    using gej_on_den [OF v(4-6)] assms(4) by (intro scaled_defect) simp
  then have f2: "((Y1 * Z2 ^ 3 + (Y2 * Z1 ^ 3 - Y1 * Z2 ^ 3)) ^ 2 - (X1 * Z2 ^ 2 + (X2 * Z1 ^ 2 - X1 * Z2 ^ 2)) ^ 3 -
      CURVE_B * (Z1 * Z2) ^ 6) mod fe_p = 0" by (simp add: mult.commute)
  show ?thesis
  proof (cases rule: add_var_cases [OF n v, of r rzr, case_names same opposite different])
    case same
    then obtain r' where "secp256k1_gej_add_var r a b rzr = secp256k1_gej_double_var r' a rzr" by blast
    then show ?thesis using double_on_curve [OF assms(1) n(1) assms(3)] by simp
  next
    case opposite
    then show ?thesis using assms(5) by simp
  next
    case (different h i u1 s1)
    have "CURVE_B * (Z1 * ((X2 * Z1 ^ 2 - X1 * Z2 ^ 2) * Z2)) ^ 6 = CURVE_B * (Z1 * Z2) ^ 6 * (X2 * Z1 ^ 2 - X1 * Z2 ^ 2) ^ 6"
      by (simp add: power_mult_distrib)
    then show ?thesis by (rule tail_on_curve [OF different(2-8) _ f1 f2])
  qed
qed

definition ge_on :: "secp256k1_ge \<Rightarrow> bool" where
  "ge_on b \<longleftrightarrow> (fe_val (ge_y b) ^ 2 - fe_val (ge_x b) ^ 3 - CURVE_B * 1 ^ 6) mod fe_p = 0"

lemma add_ge_var_on_curve:
  assumes "gej_mag a" "ge_mag b" "gej_on a" "ge_on b" "\<not> gej_inf (fst (secp256k1_gej_add_ge_var r a b rzr))"
  shows "gej_on (fst (secp256k1_gej_add_ge_var r a b rzr)) \<and> gej_mag (fst (secp256k1_gej_add_ge_var r a b rzr))"
proof -
  define X1 Y1 Z1 X2 Y2 where "X1 = fe_val (gej_x a)" and "Y1 = fe_val (gej_y a)" and "Z1 = fe_val (gej_z a)"
    and "X2 = fe_val (ge_x b)" and "Y2 = fe_val (ge_y b)"
  have v: "den 8 (gej_x a) X1" "den 8 (gej_y a) Y1" "den 8 (gej_z a) Z1" "den 8 (ge_x b) X2" "den 8 (ge_y b) Y2"
    using assms(1,2) den_self unfolding X1_def Y1_def Z1_def X2_def Y2_def gej_mag_def ge_mag_def by auto
  have f1: "(Y1 ^ 2 - X1 ^ 3 - CURVE_B * Z1 ^ 6) mod fe_p = 0" using gej_on_den [OF v(1-3)] assms(3) by simp
  have b: "(Y2 ^ 2 - X2 ^ 3 - CURVE_B * 1 ^ 6) mod fe_p = 0" using assms(4) unfolding ge_on_def X2_def Y2_def .
  have f2: "((Y1 + (Y2 * Z1 ^ 3 - Y1)) ^ 2 - (X1 + (X2 * Z1 ^ 2 - X1)) ^ 3 - CURVE_B * Z1 ^ 6) mod fe_p = 0"
    using scaled_defect [OF b, of Z1] by simp
  consider "gej_inf a" | "\<not> gej_inf a" "ge_inf b" | "\<not> gej_inf a" "\<not> ge_inf b" by blast
  then show ?thesis
  proof cases
    case 1
    have i: "den 1 (secp256k1_fe_set_int 1) 1" by (rule den_int) simp_all
    have "gej_on (secp256k1_gej_set_ge b)" using b gej_on_den [of 8 "secp256k1_gej_set_ge b" X2 8 Y2 1 1] v(4,5) i
      by (simp add: secp256k1_gej_set_ge_def)
    moreover have "gej_mag (secp256k1_gej_set_ge b)" using v(4,5) den_mag [OF i] unfolding gej_mag_def
      by (simp add: secp256k1_gej_set_ge_def den_def)
    ultimately show ?thesis using 1 by (simp add: secp256k1_gej_add_ge_var_def)
  next
    case 2
    then show ?thesis using assms by (simp add: secp256k1_gej_add_ge_var_def)
  next
    case n: 3
    show ?thesis
    proof (cases rule: add_ge_var_cases [OF n v, of r rzr, case_names same opposite different])
      case same
      then obtain r' where "secp256k1_gej_add_ge_var r a b rzr = secp256k1_gej_double_var r' a rzr" by blast
      then show ?thesis using double_on_curve [OF assms(1) n(1) assms(3)] by simp
    next
      case opposite
      then show ?thesis using assms(5) by simp
    next
      case (different h i u1 s1)
      have "CURVE_B * (Z1 * (X2 * Z1 ^ 2 - X1)) ^ 6 = CURVE_B * Z1 ^ 6 * (X2 * Z1 ^ 2 - X1) ^ 6"
        by (simp add: power_mult_distrib)
      then show ?thesis by (rule tail_on_curve [OF different(2-8) _ f1 f2])
    qed
  qed
qed

section \<open>The constant-time addition\<close>

text \<open>
  With numerator \<open>rr_alt\<close>, denominator \<open>m_alt\<close> and the last summand \<open>n\<close>, the rest of the
  function is the same in both cases of the slope.
\<close>

lemma cmov_01: "secp256k1_fe_cmov r a 0 = r" "secp256k1_fe_cmov r a 1 = a"
  using cmov_of_bool [of r a False] cmov_of_bool [of r a True] by simp_all

definition add_ge_tail :: "secp256k1_fe \<Rightarrow> secp256k1_fe \<Rightarrow> secp256k1_fe \<Rightarrow> secp256k1_fe \<Rightarrow> secp256k1_fe \<times> secp256k1_fe" where
  "add_ge_tail t rr_alt m_alt n =
     (let q = secp256k1_fe_mul (secp256k1_fe_sqr m_alt) t;
          t = secp256k1_fe_sqr rr_alt;
          q = secp256k1_fe_negate q 1;
          t = secp256k1_fe_add t q;
          t = secp256k1_fe_normalize_weak t;
          rx = t;
          t = secp256k1_fe_mul_int t 2;
          t = secp256k1_fe_add t q;
          t = secp256k1_fe_mul t rr_alt;
          t = secp256k1_fe_add t n;
          ry = secp256k1_fe_negate t 3;
          ry = secp256k1_fe_normalize_weak ry
      in (secp256k1_fe_mul_int rx 4, secp256k1_fe_mul_int ry 4))"

lemma add_ge_tail_den:
  assumes "den 2 t T" "den 3 rr_alt R" "den 3 m_alt M" "den 2 n N"
  shows "den 4 (fst (add_ge_tail t rr_alt m_alt n)) (4 * (R ^ 2 - T * M ^ 2))"
    and "den 4 (snd (add_ge_tail t rr_alt m_alt n)) (- 4 * (R * (2 * R ^ 2 - 3 * T * M ^ 2) + N))"
proof -
  note q = den_negate [OF den_mul [OF den_sqr [OF assms(3), simplified] assms(1), simplified], simplified]
  note x = den_weak [OF den_add [OF den_sqr [OF assms(2), simplified] q, simplified], simplified]
  note t = den_add [OF den_mul [OF den_add [OF den_mul_int [OF x, of 2, simplified] q, simplified] assms(2), simplified] assms(4), simplified]
  note y = den_mul_int [OF den_weak [OF den_negate [OF t, simplified], simplified], of 4, simplified]
  show "den 4 (fst (add_ge_tail t rr_alt m_alt n)) (4 * (R ^ 2 - T * M ^ 2))"
    using den_mul_int [OF x, of 4, simplified] by (simp add: add_ge_tail_def Let_def eval_nat_numeral algebra_simps)
  show "den 4 (snd (add_ge_tail t rr_alt m_alt n)) (- 4 * (R * (2 * R ^ 2 - 3 * T * M ^ 2) + N))"
    using y by (simp add: add_ge_tail_def Let_def eval_nat_numeral algebra_simps)
qed

lemma add_ge_cases:
  assumes "\<not> gej_inf a" "den 8 (gej_x a) X1" "den 8 (gej_y a) Y1" "den 8 (gej_z a) Z" "den 8 (ge_x b) X2" "den 8 (ge_y b) Y2"
  defines "U2 \<equiv> X2 * Z ^ 2" and "S2 \<equiv> Y2 * Z ^ 3"
  defines "M \<equiv> Y1 + S2" and "R \<equiv> (X1 + U2) ^ 2 - X1 * U2"
  obtains t rr m n RA MA N where "den 2 t (X1 + U2)" "den 3 rr RA" "den 3 m MA" "den 2 n N"
    "(M mod fe_p = 0 \<and> R mod fe_p = 0 \<and> RA = 2 * Y1 \<and> MA = X1 - U2 \<and> N = M) \<or>
     (\<not> (M mod fe_p = 0 \<and> R mod fe_p = 0) \<and> RA = R \<and> MA = M \<and> N = M ^ 4)"
    "gej_x (secp256k1_gej_add_ge a b) = fst (add_ge_tail t rr m n)"
    "gej_y (secp256k1_gej_add_ge a b) = snd (add_ge_tail t rr m n)"
    "den 2 (gej_z (secp256k1_gej_add_ge a b)) (2 * Z * MA)"
    "gej_inf (secp256k1_gej_add_ge a b) \<longleftrightarrow> Z * MA mod fe_p = 0"
proof -
  let ?zz = "secp256k1_fe_sqr (gej_z a)"
  let ?u1 = "secp256k1_fe_normalize_weak (gej_x a)" and ?u2 = "secp256k1_fe_mul (ge_x b) ?zz"
  let ?s1 = "secp256k1_fe_normalize_weak (gej_y a)" and ?s2 = "secp256k1_fe_mul (secp256k1_fe_mul (ge_y b) ?zz) (gej_z a)"
  let ?t = "secp256k1_fe_add ?u1 ?u2" and ?m = "secp256k1_fe_add ?s1 ?s2"
  let ?na = "secp256k1_fe_negate ?u2 1"
  let ?rr = "secp256k1_fe_add (secp256k1_fe_sqr ?t) (secp256k1_fe_mul ?u1 ?na)"
  note u1 = den_weak [OF assms(2), simplified] and s1 = den_weak [OF assms(3), simplified]
  have u2: "den 1 ?u2 U2" using den_mul [OF assms(5) den_sqr [OF assms(4)], simplified] by (simp add: U2_def power2_eq_square)
  have s2: "den 1 ?s2 S2" using den_mul [OF den_mul [OF assms(6) den_sqr [OF assms(4)], simplified] assms(4), simplified]
    by (simp add: S2_def power3_eq_cube mult.assoc)
  have t: "den 2 ?t (X1 + U2)" using den_add [OF u1 u2, simplified] .
  have m: "den 2 ?m M" using den_add [OF s1 s2, simplified] unfolding M_def .
  note na = den_negate [OF u2, simplified]
  have rr: "den 2 ?rr R" using den_add [OF den_sqr [OF t, simplified] den_mul [OF u1 na, simplified], simplified]
    by (simp add: R_def power2_eq_square)
  have ra: "den 2 (secp256k1_fe_mul_int ?s1 2) (2 * Y1)" using den_mul_int [OF s1, of 2, simplified] by (simp add: mult.commute)
  have ma: "den 3 (secp256k1_fe_add ?na ?u1) (X1 - U2)" using den_add [OF na u1, simplified] by simp
  have zm: "secp256k1_fe_normalizes_to_zero ?m \<longleftrightarrow> M mod fe_p = 0" using den_zero [OF m] by simp
  have zr: "secp256k1_fe_normalizes_to_zero ?rr \<longleftrightarrow> R mod fe_p = 0" using den_zero [OF rr] by simp
  have fin: "den 2 (secp256k1_fe_mul_int (secp256k1_fe_mul (gej_z a) x) 2) (2 * Z * v) \<and>
      (secp256k1_fe_normalizes_to_zero (secp256k1_fe_mul (gej_z a) x) \<longleftrightarrow> Z * v mod fe_p = 0)" if "den 3 x v" for x v
    using den_mul_int [OF den_mul [OF assms(4) that, simplified], of 2, simplified] den_zero [OF den_mul [OF assms(4) that, simplified]]
    by (simp add: ac_simps)
  show ?thesis
  proof (cases "M mod fe_p = 0 \<and> R mod fe_p = 0")
    case True
    show ?thesis by (rule that [OF t den_mono [OF ra, of 3] ma m])
      (use True assms(1) zm zr fin [OF ma] in \<open>simp_all add: secp256k1_gej_add_ge_def Let_def cmov_of_bool cmov_01 add_ge_tail_def
        del: of_bool_not_iff\<close>)
  next
    case False
    have n: "den 2 (secp256k1_fe_sqr (secp256k1_fe_sqr ?m)) (M ^ 4)"
      by (rule den_eq [OF den_mono [OF den_sqr [OF den_sqr [OF m]]]]) (simp_all add: eval_nat_numeral)
    show ?thesis by (rule that [OF t den_mono [OF rr, of 3] den_mono [OF m, of 3] n]; cases "M mod fe_p = 0")
      (use False assms(1) zm zr fin [OF den_mono [OF m, of 3]] in \<open>simp_all add: secp256k1_gej_add_ge_def Let_def cmov_of_bool cmov_01 add_ge_tail_def
        del: of_bool_not_iff\<close>)
  qed
qed

lemma add_ge_tail_slope:
  assumes "den 2 t ((x1 + x2) * Z ^ 2)" "den 3 rr (l * MA * Z)" "den 3 m MA" "den 2 n (MA ^ 3 * ((y1 + y2) * Z ^ 3))"
    and l: "l * (x2 - x1) mod fe_p = (y2 - y1) mod fe_p"
  defines "x3 \<equiv> l ^ 2 - x1 - x2"
  shows "den 4 (fst (add_ge_tail t rr m n)) (x3 * (2 * Z * MA) ^ 2)"
    and "den 4 (snd (add_ge_tail t rr m n)) ((l * (x1 - x3) - y1) * (2 * Z * MA) ^ 3)"
proof -
  note d = add_ge_tail_den [OF assms(1-4)]
  show "den 4 (fst (add_ge_tail t rr m n)) (x3 * (2 * Z * MA) ^ 2)"
    by (rule den_eq [OF d(1)]) (simp add: x3_def eval_nat_numeral algebra_simps)
  let ?A = "4 * Z ^ 3 * MA ^ 3" and ?B = "l * (x1 + 3 * x1 + 2 * x2 - 2 * l ^ 2) - 2 * y1"
  have "(l * (x2 - x1) + (y1 - y2)) mod fe_p = 0"
    using l by (simp add: mod_eq_dvd_iff dvd_eq_mod_eq_0 algebra_simps)
  then have "?A * (l * (x2 - x1) + (y1 - y2)) mod fe_p = 0" by (simp add: dvd_eq_mod_eq_0 [symmetric])
  moreover have "(l * (x1 - x3) - y1) * (2 * Z * MA) ^ 3 = - 4 * (l * MA * Z * (2 * (l * MA * Z) ^ 2 - 3 * ((x1 + x2) * Z ^ 2) * MA ^ 2) +
      MA ^ 3 * ((y1 + y2) * Z ^ 3)) - ?A * (l * (x2 - x1) + (y1 - y2))"
    unfolding x3_def by (simp add: eval_nat_numeral algebra_simps)
  ultimately show "den 4 (snd (add_ge_tail t rr m n)) ((l * (x1 - x3) - y1) * (2 * Z * MA) ^ 3)"
    by (intro den_cong [OF d(2)]) (simp only: mod_diff_right_eq [symmetric] diff_0_right)
qed

lemma add_ge_chord:
  assumes "gej_rep a x1 y1" "ge_rep b x2 y2" "\<not> gej_inf (secp256k1_gej_add_ge a b)"
    and l1: "l * (y1 + y2) mod fe_p = (x1 ^ 2 + x1 * x2 + x2 ^ 2) mod fe_p"
    and l2: "l * (x2 - x1) mod fe_p = (y2 - y1) mod fe_p"
  defines "x3 \<equiv> l ^ 2 - x1 - x2"
  shows "gej_rep (secp256k1_gej_add_ge a b) x3 (l * (x1 - x3) - y1)"
proof -
  define Z where "Z = fe_val (gej_z a)"
  note a = gej_repE [OF assms(1), folded Z_def]
  have b: "den 8 (ge_x b) x2" "den 8 (ge_y b) y2" using assms(2) unfolding ge_rep_def by auto
  have s: "x1 * Z ^ 2 + x2 * Z ^ 2 = (x1 + x2) * Z ^ 2" "y1 * Z ^ 3 + y2 * Z ^ 3 = (y1 + y2) * Z ^ 3" 
    by (simp_all add: algebra_simps)
  obtain t rr m n RA MA N where c: "den 2 t ((x1 + x2) * Z ^ 2)" "den 3 rr RA" "den 3 m MA" "den 2 n N" and
    k: "((y1 + y2) * Z ^ 3 mod fe_p = 0 \<and> RA = 2 * (y1 * Z ^ 3) \<and> MA = x1 * Z ^ 2 - x2 * Z ^ 2 \<and> N = (y1 + y2) * Z ^ 3) \<or>
     (RA = ((x1 + x2) * Z ^ 2) ^ 2 - x1 * Z ^ 2 * (x2 * Z ^ 2) \<and> MA = (y1 + y2) * Z ^ 3 \<and> N = ((y1 + y2) * Z ^ 3) ^ 4)" and
    e: "gej_x (secp256k1_gej_add_ge a b) = fst (add_ge_tail t rr m n)" "gej_y (secp256k1_gej_add_ge a b) = snd (add_ge_tail t rr m n)"
    "den 2 (gej_z (secp256k1_gej_add_ge a b)) (2 * Z * MA)"
    by (rule add_ge_cases [OF a b, unfolded s], erule (3) that, blast, assumption+)
  have "RA mod fe_p = l * MA * Z mod fe_p \<and> N mod fe_p = MA ^ 3 * ((y1 + y2) * Z ^ 3) mod fe_p"
    using k
  proof (elim disjE conjE)
    assume z: "(y1 + y2) * Z ^ 3 mod fe_p = 0" and q: "RA = 2 * (y1 * Z ^ 3)" "MA = x1 * Z ^ 2 - x2 * Z ^ 2" "N = (y1 + y2) * Z ^ 3"
    have "fe_p dvd (y1 + y2) * Z ^ 3" "fe_p dvd l * (x2 - x1) - (y2 - y1)" using z l2 by (simp_all add: dvd_eq_mod_eq_0 mod_eq_dvd_iff)
    then have "fe_p dvd (y1 + y2) * Z ^ 3 + (l * (x2 - x1) - (y2 - y1)) * Z ^ 3" by (rule dvd_add [OF _ dvd_mult2])
    moreover have "RA - l * MA * Z = (y1 + y2) * Z ^ 3 + (l * (x2 - x1) - (y2 - y1)) * Z ^ 3"
      unfolding q by (simp add: eval_nat_numeral algebra_simps)
    moreover have "fe_p dvd N - MA ^ 3 * ((y1 + y2) * Z ^ 3)" unfolding q(3) by (rule dvd_diff [OF _ dvd_mult]) fact+
    ultimately show ?thesis by (simp add: mod_eq_dvd_iff)
  next
    assume q: "RA = ((x1 + x2) * Z ^ 2) ^ 2 - x1 * Z ^ 2 * (x2 * Z ^ 2)" "MA = (y1 + y2) * Z ^ 3" "N = ((y1 + y2) * Z ^ 3) ^ 4"
    have "RA = (x1 ^ 2 + x1 * x2 + x2 ^ 2) * Z ^ 4" unfolding q by (simp add: eval_nat_numeral algebra_simps)
    moreover have "l * MA * Z = l * (y1 + y2) * Z ^ 4" unfolding q by (simp add: eval_nat_numeral algebra_simps)
    ultimately have "RA mod fe_p = l * MA * Z mod fe_p" using l1 by (simp only:) (intro cong_intros; simp)
    moreover have "N = MA ^ 3 * ((y1 + y2) * Z ^ 3)" unfolding q by (simp add: eval_nat_numeral algebra_simps)
    ultimately show ?thesis by simp
  qed
  then have d: "den 3 rr (l * MA * Z)" "den 2 n (MA ^ 3 * ((y1 + y2) * Z ^ 3))" using c den_cong by blast+
  note r = add_ge_tail_slope [OF c(1) d(1) c(3) d(2) l2, folded x3_def e(1,2)]
  show ?thesis by (rule gej_repI [OF assms(3) r e(3)]) simp_all
qed

section \<open>The constant-time addition is finite on a chord\<close>

text \<open>A power of a unit modulo the prime can be cancelled.\<close>

lemma unit_cancel:
  assumes u: "z * w mod fe_p = 1" and x: "z ^ k * x mod fe_p = 0"
  shows "x mod fe_p = 0"
proof -
  have "(z * w) ^ k mod fe_p = (z * w mod fe_p) ^ k mod fe_p" by (simp only: power_mod)
  also have "\<dots> = 1" unfolding u by (simp add: fe_p_def)
  finally have "(z * w) ^ k mod fe_p = 1" .
  then have "(z * w) ^ k * x mod fe_p = 1 * x mod fe_p" by (metis mod_mult_left_eq)
  moreover have "(z * w) ^ k * x = w ^ k * (z ^ k * x)" by (simp add: power_mult_distrib)
  moreover have "w ^ k * (z ^ k * x) mod fe_p = 0" using x by (simp add: dvd_eq_mod_eq_0 [symmetric])
  ultimately show ?thesis by simp
qed

lemma add_ge_finite:
  assumes "gej_rep a x1 y1" "ge_rep b x2 y2" and u: "fe_val (gej_z a) * w mod fe_p = 1" and x: "(x2 - x1) mod fe_p \<noteq> 0"
    and l: "l * (y1 + y2) mod fe_p = (x1 ^ 2 + x1 * x2 + x2 ^ 2) mod fe_p"
  shows "\<not> gej_inf (secp256k1_gej_add_ge a b)"
proof -
  define Z where "Z = fe_val (gej_z a)"
  note a = gej_repE [OF assms(1), folded Z_def] and u = u [folded Z_def]
  have b: "den 8 (ge_x b) x2" "den 8 (ge_y b) y2" using assms(2) unfolding ge_rep_def by auto
  have s: "y1 * Z ^ 3 + y2 * Z ^ 3 = Z ^ 3 * (y1 + y2)"
    "(x1 * Z ^ 2 + x2 * Z ^ 2) ^ 2 - x1 * Z ^ 2 * (x2 * Z ^ 2) = Z ^ 4 * (x1 ^ 2 + x1 * x2 + x2 ^ 2)"
    by (simp_all add: eval_nat_numeral algebra_simps)
  obtain MA where
    k: "(Z ^ 3 * (y1 + y2) mod fe_p = 0 \<and> Z ^ 4 * (x1 ^ 2 + x1 * x2 + x2 ^ 2) mod fe_p = 0 \<and> MA = x1 * Z ^ 2 - x2 * Z ^ 2) \<or>
      (\<not> (Z ^ 3 * (y1 + y2) mod fe_p = 0 \<and> Z ^ 4 * (x1 ^ 2 + x1 * x2 + x2 ^ 2) mod fe_p = 0) \<and> MA = Z ^ 3 * (y1 + y2))" and
    i: "gej_inf (secp256k1_gej_add_ge a b) \<longleftrightarrow> Z * MA mod fe_p = 0"
    by (rule add_ge_cases [OF a b, unfolded s], rule that) (erule disjE, simp only: simp_thms, simp only: simp_thms, assumption)
  have "Z * MA mod fe_p \<noteq> 0"
    using k
  proof (elim disjE conjE)
    assume q: "MA = x1 * Z ^ 2 - x2 * Z ^ 2"
    have "Z * MA = - (Z ^ 3 * (x2 - x1))" unfolding q by (simp add: eval_nat_numeral algebra_simps)
    then show ?thesis using unit_cancel [OF u, of 3 "x2 - x1"] x by (auto simp: dvd_eq_mod_eq_0 [symmetric])
  next
    assume n: "\<not> (Z ^ 3 * (y1 + y2) mod fe_p = 0 \<and> Z ^ 4 * (x1 ^ 2 + x1 * x2 + x2 ^ 2) mod fe_p = 0)" and q: "MA = Z ^ 3 * (y1 + y2)"
    have "(y1 + y2) mod fe_p \<noteq> 0"
    proof
      assume y: "(y1 + y2) mod fe_p = 0"
      then have "l * (y1 + y2) mod fe_p = 0" by (simp add: dvd_eq_mod_eq_0 [symmetric])
      then have "(x1 ^ 2 + x1 * x2 + x2 ^ 2) mod fe_p = 0" using l by simp
      then show False using n y by (simp add: dvd_eq_mod_eq_0 [symmetric])
    qed
    moreover have "Z * MA = Z ^ 4 * (y1 + y2)" unfolding q by (simp add: eval_nat_numeral algebra_simps)
    ultimately show ?thesis using unit_cancel [OF u, of 4 "y1 + y2"] by auto
  qed
  then show ?thesis using i by blast
qed

section \<open>Points and the curve\<close>

text \<open>A point of the library: infinity, or coordinates of bounded magnitude on the curve.\<close>

definition gej_good :: "secp256k1_gej \<Rightarrow> bool" where
  "gej_good a \<longleftrightarrow> gej_inf a \<or> gej_mag a \<and> gej_on a"

definition ge_good :: "secp256k1_ge \<Rightarrow> bool" where
  "ge_good a \<longleftrightarrow> ge_inf a \<or> ge_mag a \<and> ge_on a"

lemma set_ge_good: "gej_good (secp256k1_gej_set_ge p) \<longleftrightarrow> ge_good p"
proof -
  have z: "den 1 (secp256k1_fe_set_int 1) 1" by (rule den_int) simp_all
  have "gej_on (secp256k1_gej_set_ge p) \<longleftrightarrow> ge_on p" if "ge_mag p"
    using that gej_on_den [of 8 "secp256k1_gej_set_ge p" "fe_val (ge_x p)" 8 "fe_val (ge_y p)" 1 1] z
    by (simp add: secp256k1_gej_set_ge_def ge_on_def ge_mag_def den_self)
  moreover have "gej_mag (secp256k1_gej_set_ge p) \<longleftrightarrow> ge_mag p"
    using den_mag [OF z, of 8] by (simp add: gej_mag_def ge_mag_def secp256k1_gej_set_ge_def)
  moreover have "gej_inf (secp256k1_gej_set_ge p) = ge_inf p" by (simp add: secp256k1_gej_set_ge_def)
  ultimately show ?thesis by (auto simp: gej_good_def ge_good_def)
qed

lemma ge_on_den:
  assumes "den m (ge_x p) X" "den n (ge_y p) Y" "m \<le> 8" "n \<le> 8"
  shows "ge_mag p \<and> (ge_on p \<longleftrightarrow> (Y ^ 2 - X ^ 3 - CURVE_B) mod fe_p = 0)"
proof -
  have z: "den 1 (secp256k1_fe_set_int 1) 1" by (rule den_int) simp_all
  have m: "ge_mag p" using den_mag assms by (auto simp: ge_mag_def)
  have "gej_on (secp256k1_gej_set_ge p) \<longleftrightarrow> ge_on p"
    using m gej_on_den [of 8 "secp256k1_gej_set_ge p" "fe_val (ge_x p)" 8 "fe_val (ge_y p)" 1 1] z
    by (simp add: secp256k1_gej_set_ge_def ge_on_def ge_mag_def den_self)
  moreover have "gej_on (secp256k1_gej_set_ge p) \<longleftrightarrow> (Y ^ 2 - X ^ 3 - CURVE_B) mod fe_p = 0"
    using gej_on_den [of m "secp256k1_gej_set_ge p" X n Y 1 1] assms z by (simp add: secp256k1_gej_set_ge_def)
  ultimately show ?thesis using m by simp
qed

lemma ge_neg_good: "ge_good p \<Longrightarrow> ge_good (secp256k1_ge_neg p)"
proof -
  assume g: "ge_good p"
  show ?thesis
  proof (cases "ge_inf p")
    case False
    define X Y where "X = fe_val (ge_x p)" and "Y = fe_val (ge_y p)"
    have d: "den 8 (ge_x p) X" "den 8 (ge_y p) Y" and on: "ge_on p"
      using g False den_self unfolding X_def Y_def by (auto simp: ge_good_def ge_mag_def)
    have "den 2 (secp256k1_fe_negate (secp256k1_fe_normalize_weak (ge_y p)) 1) (- Y)"
      using den_negate [OF den_weak [OF d(2)]] by simp
    then have n: "den 8 (ge_x (secp256k1_ge_neg p)) X" "den 2 (ge_y (secp256k1_ge_neg p)) (- Y)"
      using d(1) by (simp_all add: secp256k1_ge_neg_def Let_def)
    have "(Y ^ 2 - X ^ 3 - CURVE_B) mod fe_p = 0" using ge_on_den [OF d] on by simp
    then show ?thesis using ge_on_den [OF n] by (simp add: ge_good_def)
  qed (simp add: ge_good_def secp256k1_ge_neg_def Let_def)
qed

text \<open>Every operation gives such a point, also where an argument is infinity.\<close>

lemma add_var_good: "gej_good a \<Longrightarrow> gej_good b \<Longrightarrow> gej_good (fst (secp256k1_gej_add_var r a b rzr))"
proof (cases "gej_inf a \<or> gej_inf b")
  case True
  assume "gej_good a" "gej_good b"
  then show ?thesis using True by (auto simp: secp256k1_gej_add_var_def)
next
  case False
  assume "gej_good a" "gej_good b"
  then show ?thesis using False add_var_on_curve [of a b r rzr] by (auto simp: gej_good_def)
qed

lemma add_ge_var_good: "gej_good a \<Longrightarrow> ge_good p \<Longrightarrow> gej_good (fst (secp256k1_gej_add_ge_var r a p rzr))"
proof (cases "gej_inf a \<or> ge_inf p")
  case True
  assume "gej_good a" "ge_good p"
  then show ?thesis using True set_ge_good by (auto simp: secp256k1_gej_add_ge_var_def)
next
  case False
  assume "gej_good a" "ge_good p"
  then show ?thesis using False add_ge_var_on_curve [of a p r rzr] by (auto simp: gej_good_def ge_good_def)
qed

lemma double_inf: "gej_inf (fst (secp256k1_gej_double_var r a rzr)) = gej_inf a"
  by (simp add: secp256k1_gej_double_var_def Let_def)

lemma double_good: "gej_good a \<Longrightarrow> gej_good (fst (secp256k1_gej_double_var r a rzr))"
  using double_on_curve [of a r rzr] double_inf [of r a rzr] by (cases "gej_inf a") (auto simp: gej_good_def)

section \<open>The generator\<close>

lemma generator_x: "SECP256K1_FE_CONST 0x79BE667E 0xF9DCBBAC 0x55A06295 0xCE870B07 0x029BFCDB 0x2DCE28D9 0x59F2815B 0x16F81798
 = fe_make 0x2815B16F81798 0xDB2DCE28D959F 0xE870B07029BFC 0xBBAC55A06295C 0x79BE667EF9DC"
  unfolding SECP256K1_FE_CONST_def fe_make_def by simp
lemma generator_y: "SECP256K1_FE_CONST 0x483ADA77 0x26A3C465 0x5DA4FBFC 0x0E1108A8 0xFD17B448 0xA6855419 0x9C47D08F 0xFB10D4B8
 = fe_make 0x7D08FFB10D4B8 0x48A68554199C4 0xE1108A8FD17B4 0xC4655DA4FBFC0 0x483ADA7726A3"
  unfolding SECP256K1_FE_CONST_def fe_make_def by simp
lemma generator_eq:
  "secp256k1_ge_const_g = \<lparr>ge_x = fe_make 0x2815B16F81798 0xDB2DCE28D959F 0xE870B07029BFC 0xBBAC55A06295C 0x79BE667EF9DC,
     ge_y = fe_make 0x7D08FFB10D4B8 0x48A68554199C4 0xE1108A8FD17B4 0xC4655DA4FBFC0 0x483ADA7726A3, ge_inf = False\<rparr>"
  unfolding secp256k1_ge_const_g_def generator_x generator_y by simp

lemma generator_mag: "ge_mag secp256k1_ge_const_g" "gej_mag (secp256k1_gej_set_ge secp256k1_ge_const_g)"
  unfolding generator_eq
  by (simp_all add: ge_mag_def gej_mag_def secp256k1_gej_set_ge_def secp256k1_fe_set_int_def fe_mag_def)

lemma generator_coords: "fe_val (ge_x secp256k1_ge_const_g) = 0x79BE667EF9DCBBAC55A06295CE870B07029BFCDB2DCE28D959F2815B16F81798" "fe_val (ge_y secp256k1_ge_const_g) = 0x483ADA7726A3C4655DA4FBFC0E1108A8FD17B448A68554199C47D08FFB10D4B8"
  unfolding generator_eq by (simp_all add: fe_val_def)

lemma generator_equation:
  "(0x79BE667EF9DCBBAC55A06295CE870B07029BFCDB2DCE28D959F2815B16F81798 :: int) ^ 3 + 7 =
   0x483ADA7726A3C4655DA4FBFC0E1108A8FD17B448A68554199C47D08FFB10D4B8 ^ 2 +
   0x1B888E01A06E974017A28A5B4DA436169761C9730B7AEEDF75FC60F6A33CFC7792FE74711F025D590B10E57F1B3A7CE38FFC4C885C515894B45C19C9F413E5E9 * fe_p"
  unfolding fe_p_def by (simp add: power3_eq_cube power2_eq_square)

lemma generator_on: "ge_on secp256k1_ge_const_g" "gej_on (secp256k1_gej_set_ge secp256k1_ge_const_g)"
proof -
  have z: "fe_val (secp256k1_fe_set_int 1) = 1" by (simp add: fe_val_def secp256k1_fe_set_int_def)
  let ?x = "fe_val (ge_x secp256k1_ge_const_g)" and ?y = "fe_val (ge_y secp256k1_ge_const_g)"
  obtain k where k: "?x ^ 3 + 7 = ?y ^ 2 + k * fe_p" unfolding generator_coords using generator_equation by blast
  then have "?y ^ 2 - ?x ^ 3 - 7 = - k * fe_p" by linarith
  then have d: "fe_p dvd ?y ^ 2 - ?x ^ 3 - 7" by (metis dvd_triv_right)
  show "ge_on secp256k1_ge_const_g" using d by (simp only: ge_on_def CURVE_B_def power_one mult_1_right dvd_eq_mod_eq_0)
  have "?y ^ 2 mod fe_p = (?x ^ 3 + 7) mod fe_p" unfolding k by simp
  then show "gej_on (secp256k1_gej_set_ge secp256k1_ge_const_g)"
    by (simp only: gej_on_def secp256k1_gej_set_ge_def secp256k1_gej.simps z CURVE_B_def power_one mult_1_right)
qed

lemma generator_finite: "\<not> gej_inf (secp256k1_gej_set_ge secp256k1_ge_const_g)"
  by (simp add: generator_eq secp256k1_gej_set_ge_def)

section \<open>Properties\<close>

text \<open>
  C31: doubling in Jacobian coordinates is the tangent law: if the triple stands for the affine
  point \<open>(x, y)\<close> and \<open>l\<close> is a slope of its tangent, the result stands for the point
  \<open>(l^2 - 2 x, l (x - x3) - y)\<close>, with magnitudes that every further operation accepts.
\<close>

theorem doubling_is_the_tangent_law:
  assumes "gej_rep a x y" and "l * (2 * y) mod fe_p = (3 * x ^ 2) mod fe_p"
  shows "gej_rep (fst (secp256k1_gej_double_var r a rzr)) (l ^ 2 - 2 * x) (l * (x - (l ^ 2 - 2 * x)) - y)"
  using double_tangent [OF assms] .

theorem doubling_is_the_tangent_law_witness:
  "gej_rep (fst (secp256k1_gej_double_var secp256k1_gej_clear
     \<lparr>gej_x = fe_make 2 0 0 0 0, gej_y = fe_make 6 0 0 0 0, gej_z = fe_make 1 0 0 0 0, gej_inf = False\<rparr> None)) (- 3) (- 1)"
proof -
  let ?a = "\<lparr>gej_x = fe_make 2 0 0 0 0, gej_y = fe_make 6 0 0 0 0, gej_z = fe_make 1 0 0 0 0, gej_inf = False\<rparr>"
  have "gej_rep ?a 2 6" by (simp add: gej_rep_def den_def fe_mag_def fe_val_def)
  then show ?thesis using doubling_is_the_tangent_law [of ?a 2 6 1 secp256k1_gej_clear None] by simp
qed

text \<open>
  C32: the three additions are the chord law and agree: adding points that stand for
  \<open>(x1, y1)\<close> and \<open>(x2, y2)\<close>, whose \<open>x\<close> differ modulo the prime, gives, in the Jacobian, the mixed and the
  constant-time version, a finite triple that stands for \<open>(l^2 - x1 - x2, l (x1 - x3) - y1)\<close>, where
  \<open>l\<close> is the slope of the chord, given also in the unified form the last version computes it in. The
  \<open>Z\<close> coordinates are units modulo the prime, \<open>w1\<close> and \<open>w2\<close> being their inverses.
\<close>

theorem additions_are_the_chord_law:
  assumes "gej_rep a x1 y1" and "gej_rep b x2 y2" and "ge_rep c x2 y2"
    and "fe_val (gej_z a) * w1 mod fe_p = 1" and "fe_val (gej_z b) * w2 mod fe_p = 1" and "(x2 - x1) mod fe_p \<noteq> 0"
    and "l * (x2 - x1) mod fe_p = (y2 - y1) mod fe_p"
    and "l * (y1 + y2) mod fe_p = (x1 ^ 2 + x1 * x2 + x2 ^ 2) mod fe_p"
  shows "gej_rep (fst (secp256k1_gej_add_var r a b rzr)) (l ^ 2 - x1 - x2) (l * (x1 - (l ^ 2 - x1 - x2)) - y1) \<and>
    gej_rep (fst (secp256k1_gej_add_ge_var r a c rzr)) (l ^ 2 - x1 - x2) (l * (x1 - (l ^ 2 - x1 - x2)) - y1) \<and>
    gej_rep (secp256k1_gej_add_ge a c) (l ^ 2 - x1 - x2) (l * (x1 - (l ^ 2 - x1 - x2)) - y1)"
proof -
  let ?z1 = "fe_val (gej_z a)" and ?z2 = "fe_val (gej_z b)"
  have one: "(x2 - x1) * ?z1 ^ 2 mod fe_p \<noteq> 0"
    using unit_cancel [OF assms(4), of 2 "x2 - x1"] assms(6) by (auto simp: mult.commute)
  have e: "(x2 - x1) * (?z1 * ?z2) ^ 2 = ?z2 ^ 2 * ((x2 - x1) * ?z1 ^ 2)" by (simp add: power_mult_distrib)
  have both: "(x2 - x1) * (?z1 * ?z2) ^ 2 mod fe_p \<noteq> 0"
    unfolding e using one by (rule contrapos_nn) (rule unit_cancel [OF assms(5)])
  show ?thesis
    using add_var_chord [OF assms(1,2) both assms(7)] add_ge_var_chord [OF assms(1,3) one assms(7)]
      add_ge_chord [OF assms(1,3) add_ge_finite [OF assms(1,3,4,6,8)] assms(8,7)] by simp
qed

theorem additions_are_the_chord_law_witness:
  "gej_rep (secp256k1_gej_add_ge \<lparr>gej_x = fe_make 2 0 0 0 0, gej_y = fe_make 3 0 0 0 0, gej_z = fe_make 1 0 0 0 0, gej_inf = False\<rparr>
     \<lparr>ge_x = fe_make 0 0 0 0 0, ge_y = fe_make 1 0 0 0 0, ge_inf = False\<rparr>) (- 1) 0"
proof -
  let ?a = "\<lparr>gej_x = fe_make 2 0 0 0 0, gej_y = fe_make 3 0 0 0 0, gej_z = fe_make 1 0 0 0 0, gej_inf = False\<rparr>"
  let ?b = "\<lparr>gej_x = fe_make 0 0 0 0 0, gej_y = fe_make 1 0 0 0 0, gej_z = fe_make 1 0 0 0 0, gej_inf = False\<rparr>"
  let ?c = "\<lparr>ge_x = fe_make 0 0 0 0 0, ge_y = fe_make 1 0 0 0 0, ge_inf = False\<rparr>"
  have "gej_rep ?a 2 3" "gej_rep ?b 0 1" "ge_rep ?c 0 1" by (simp_all add: gej_rep_def ge_rep_def den_def fe_mag_def fe_val_def)
  then show ?thesis
    using additions_are_the_chord_law [of ?a 2 3 ?b 0 1 ?c 1 1 1 secp256k1_gej_clear None] by (simp add: fe_val_def fe_p_def)
qed

text \<open>
  C33: the group operations stay on the curve: doubling, adding two Jacobian points and adding an affine
  to a Jacobian point, applied to points that are infinity or on the curve \<open>Y^2 = X^3 + 7 Z^6\<close> with bounded
  magnitudes, give a point that is infinity or on the curve with bounded magnitudes. Infinity is allowed in
  every argument: it is the neutral element of the additions, and only infinity doubles to infinity.
\<close>

theorem group_operations_stay_on_curve:
  assumes "gej_good a" and "gej_good b" and "ge_good c"
  shows "gej_good (fst (secp256k1_gej_double_var r a rzr)) \<and> gej_good (fst (secp256k1_gej_add_var r a b rzr)) \<and>
    gej_good (fst (secp256k1_gej_add_ge_var r a c rzr)) \<and>
    gej_inf (fst (secp256k1_gej_double_var r a rzr)) = gej_inf a \<and>
    (gej_inf a \<longrightarrow> fst (secp256k1_gej_add_var r a b rzr) = b \<and> fst (secp256k1_gej_add_ge_var r a c rzr) = secp256k1_gej_set_ge c) \<and>
    (\<not> gej_inf a \<and> gej_inf b \<longrightarrow> fst (secp256k1_gej_add_var r a b rzr) = a) \<and>
    (\<not> gej_inf a \<and> ge_inf c \<longrightarrow> fst (secp256k1_gej_add_ge_var r a c rzr) = a)"
  using double_good [OF assms(1)] add_var_good [OF assms(1,2)] add_ge_var_good [OF assms(1,3)] double_inf
  by (simp add: secp256k1_gej_add_var_def secp256k1_gej_add_ge_var_def)

theorem group_operations_stay_on_curve_witness:
  "gej_good (fst (secp256k1_gej_double_var secp256k1_gej_clear (secp256k1_gej_set_ge secp256k1_ge_const_g) None)) \<and>
   fst (secp256k1_gej_add_ge_var secp256k1_gej_clear secp256k1_gej_set_infinity secp256k1_ge_const_g None) = secp256k1_gej_set_ge secp256k1_ge_const_g"
proof -
  have g: "gej_good (secp256k1_gej_set_ge secp256k1_ge_const_g)" "ge_good secp256k1_ge_const_g" "gej_good secp256k1_gej_set_infinity"
    using generator_mag generator_on by (simp_all add: gej_good_def ge_good_def secp256k1_gej_set_infinity_def)
  have i: "gej_inf secp256k1_gej_set_infinity" by (simp add: secp256k1_gej_set_infinity_def)
  show ?thesis
    using group_operations_stay_on_curve [OF g(1,1,2), of secp256k1_gej_clear None]
      group_operations_stay_on_curve [OF g(3,1,2), of secp256k1_gej_clear None] i by simp
qed

end
