(* ===== verification/Scalar.thy ===== *)
theory Scalar
  imports Residues
begin

text \<open>
  \<open>secp256k1/src/scalar_4x64.h\<close>, \<open>scalar_4x64_impl.h\<close> and \<open>scalar_impl.h\<close>: numbers modulo the order
  of the curve in four 64-bit words, in the build without assembly. A function that writes
  through its pointer \<open>r\<close> returns the new value; a C integer used as a truth value is a bool.
\<close>

unbundle bit_operations_syntax

section \<open>The data type and its constants\<close>

record secp256k1_scalar =
  sc0 :: "64 word"
  sc1 :: "64 word"
  sc2 :: "64 word"
  sc3 :: "64 word"

definition sc_make :: "64 word \<Rightarrow> 64 word \<Rightarrow> 64 word \<Rightarrow> 64 word \<Rightarrow> secp256k1_scalar" where
  "sc_make a b c d = \<lparr>sc0 = a, sc1 = b, sc2 = c, sc3 = d\<rparr>"

lemma sc_make_simps [simp]:
  "sc0 (sc_make a b c d) = a" "sc1 (sc_make a b c d) = b" "sc2 (sc_make a b c d) = c" "sc3 (sc_make a b c d) = d"
  by (simp_all add: sc_make_def)

lemma sc_make_eta [simp]: "sc_make (sc0 a) (sc1 a) (sc2 a) (sc3 a) = a"
  by (simp add: sc_make_def)

definition sc_limb :: "secp256k1_scalar \<Rightarrow> nat \<Rightarrow> 64 word" where
  "sc_limb a i = [sc0 a, sc1 a, sc2 a, sc3 a] ! i"

definition SECP256K1_SCALAR_CONST ::
    "32 word \<Rightarrow> 32 word \<Rightarrow> 32 word \<Rightarrow> 32 word \<Rightarrow> 32 word \<Rightarrow> 32 word \<Rightarrow> 32 word \<Rightarrow> 32 word \<Rightarrow> secp256k1_scalar" where
  "SECP256K1_SCALAR_CONST d7 d6 d5 d4 d3 d2 d1 d0 = sc_make
     (push_bit 32 (ucast d1) OR ucast d0) (push_bit 32 (ucast d3) OR ucast d2)
     (push_bit 32 (ucast d5) OR ucast d4) (push_bit 32 (ucast d7) OR ucast d6)"

definition SECP256K1_N_0 :: "64 word" where "SECP256K1_N_0 = 0xBFD25E8CD0364141"
definition SECP256K1_N_1 :: "64 word" where "SECP256K1_N_1 = 0xBAAEDCE6AF48A03B"
definition SECP256K1_N_2 :: "64 word" where "SECP256K1_N_2 = 0xFFFFFFFFFFFFFFFE"
definition SECP256K1_N_3 :: "64 word" where "SECP256K1_N_3 = 0xFFFFFFFFFFFFFFFF"
definition SECP256K1_N_C_0 :: "64 word" where "SECP256K1_N_C_0 = NOT SECP256K1_N_0 + 1"
definition SECP256K1_N_C_1 :: "64 word" where "SECP256K1_N_C_1 = NOT SECP256K1_N_1"
definition SECP256K1_N_C_2 :: "32 word" where "SECP256K1_N_C_2 = 1"
definition SECP256K1_N_H_0 :: "64 word" where "SECP256K1_N_H_0 = 0xDFE92F46681B20A0"
definition SECP256K1_N_H_1 :: "64 word" where "SECP256K1_N_H_1 = 0x5D576E7357A4501D"
definition SECP256K1_N_H_2 :: "64 word" where "SECP256K1_N_H_2 = 0xFFFFFFFFFFFFFFFF"
definition SECP256K1_N_H_3 :: "64 word" where "SECP256K1_N_H_3 = 0x7FFFFFFFFFFFFFFF"

section \<open>Addition, negation and comparison\<close>

definition secp256k1_scalar_clear :: secp256k1_scalar where
  "secp256k1_scalar_clear = sc_make 0 0 0 0"

definition secp256k1_scalar_set_int :: "32 word \<Rightarrow> secp256k1_scalar" where
  "secp256k1_scalar_set_int v = sc_make (ucast v) 0 0 0"

definition secp256k1_scalar_get_bits :: "secp256k1_scalar \<Rightarrow> nat \<Rightarrow> nat \<Rightarrow> 32 word" where
  "secp256k1_scalar_get_bits a offset count =
     ucast (drop_bit (offset mod 64) (sc_limb a (offset div 64)) AND (push_bit count 1 - 1))"

definition secp256k1_scalar_get_bits_var :: "secp256k1_scalar \<Rightarrow> nat \<Rightarrow> nat \<Rightarrow> 32 word" where
  "secp256k1_scalar_get_bits_var a offset count =
     (if (offset + count - 1) div 64 = offset div 64 then secp256k1_scalar_get_bits a offset count
      else ucast ((drop_bit (offset mod 64) (sc_limb a (offset div 64)) OR
                   push_bit (64 - offset mod 64) (sc_limb a (offset div 64 + 1))) AND (push_bit count 1 - 1)))"

definition secp256k1_scalar_check_overflow :: "secp256k1_scalar \<Rightarrow> bool" where
  "secp256k1_scalar_check_overflow a =
     (let yes = False; no = False;
          no = (no \<or> sc3 a < SECP256K1_N_3);
          no = (no \<or> sc2 a < SECP256K1_N_2);
          yes = (yes \<or> SECP256K1_N_2 < sc2 a \<and> \<not> no);
          no = (no \<or> sc1 a < SECP256K1_N_1);
          yes = (yes \<or> SECP256K1_N_1 < sc1 a \<and> \<not> no);
          yes = (yes \<or> SECP256K1_N_0 \<le> sc0 a \<and> \<not> no)
      in yes)"

abbreviation (input) sc_M :: "128 word" where "sc_M \<equiv> 0xFFFFFFFFFFFFFFFF"

definition secp256k1_scalar_reduce :: "secp256k1_scalar \<Rightarrow> 32 word \<Rightarrow> secp256k1_scalar" where
  "secp256k1_scalar_reduce r overflow =
     (let t = w128 (sc0 r) + w128 (ucast overflow * SECP256K1_N_C_0);
          r0 = w64 (t AND sc_M); t = drop_bit 64 t;
          t = t + (w128 (sc1 r) + w128 (ucast overflow * SECP256K1_N_C_1));
          r1 = w64 (t AND sc_M); t = drop_bit 64 t;
          t = t + (w128 (sc2 r) + w128 (ucast (overflow * SECP256K1_N_C_2)));
          r2 = w64 (t AND sc_M); t = drop_bit 64 t;
          t = t + w128 (sc3 r);
          r3 = w64 (t AND sc_M)
      in sc_make r0 r1 r2 r3)"

definition secp256k1_scalar_add :: "secp256k1_scalar \<Rightarrow> secp256k1_scalar \<Rightarrow> secp256k1_scalar \<times> bool" where
  "secp256k1_scalar_add a b =
     (let t = w128 (sc0 a) + w128 (sc0 b);
          r0 = w64 (t AND sc_M); t = drop_bit 64 t;
          t = t + (w128 (sc1 a) + w128 (sc1 b));
          r1 = w64 (t AND sc_M); t = drop_bit 64 t;
          t = t + (w128 (sc2 a) + w128 (sc2 b));
          r2 = w64 (t AND sc_M); t = drop_bit 64 t;
          t = t + (w128 (sc3 a) + w128 (sc3 b));
          r3 = w64 (t AND sc_M); t = drop_bit 64 t;
          r = sc_make r0 r1 r2 r3;
          overflow = ucast (t + of_bool (secp256k1_scalar_check_overflow r)) :: 32 word
      in (secp256k1_scalar_reduce r overflow, overflow \<noteq> 0))"

definition secp256k1_scalar_cadd_bit :: "secp256k1_scalar \<Rightarrow> 32 word \<Rightarrow> 32 word \<Rightarrow> secp256k1_scalar" where
  "secp256k1_scalar_cadd_bit r b flag =
     (let b = b + ((flag - 1) AND 0x100);
          s = unat (b AND 0x3F);
          w = (\<lambda>i. w128 (push_bit s (of_bool (drop_bit 6 b = i))));
          t = w128 (sc0 r) + w 0;
          r0 = w64 (t AND sc_M); t = drop_bit 64 t;
          t = t + (w128 (sc1 r) + w 1);
          r1 = w64 (t AND sc_M); t = drop_bit 64 t;
          t = t + (w128 (sc2 r) + w 2);
          r2 = w64 (t AND sc_M); t = drop_bit 64 t;
          t = t + (w128 (sc3 r) + w 3);
          r3 = w64 (t AND sc_M)
      in sc_make r0 r1 r2 r3)"

text \<open>A limb from eight bytes, the most significant first.\<close>

definition be_limb :: "bytes \<Rightarrow> nat \<Rightarrow> 64 word" where
  "be_limb b i = ucast (b ! (i + 7)) OR push_bit 8 (ucast (b ! (i + 6))) OR push_bit 16 (ucast (b ! (i + 5))) OR
     push_bit 24 (ucast (b ! (i + 4))) OR push_bit 32 (ucast (b ! (i + 3))) OR push_bit 40 (ucast (b ! (i + 2))) OR
     push_bit 48 (ucast (b ! (i + 1))) OR push_bit 56 (ucast (b ! i))"

definition secp256k1_scalar_set_b32 :: "bytes \<Rightarrow> secp256k1_scalar \<times> bool" where
  "secp256k1_scalar_set_b32 b32 =
     (let r = sc_make (be_limb b32 24) (be_limb b32 16) (be_limb b32 8) (be_limb b32 0);
          over = secp256k1_scalar_check_overflow r
      in (secp256k1_scalar_reduce r (of_bool over), over))"

definition limb_be :: "64 word \<Rightarrow> bytes" where
  "limb_be d = [ucast (drop_bit 56 d), ucast (drop_bit 48 d), ucast (drop_bit 40 d), ucast (drop_bit 32 d),
     ucast (drop_bit 24 d), ucast (drop_bit 16 d), ucast (drop_bit 8 d), ucast d]"

definition secp256k1_scalar_get_b32 :: "secp256k1_scalar \<Rightarrow> bytes" where
  "secp256k1_scalar_get_b32 a = limb_be (sc3 a) @ limb_be (sc2 a) @ limb_be (sc1 a) @ limb_be (sc0 a)"

definition secp256k1_scalar_is_zero :: "secp256k1_scalar \<Rightarrow> bool" where
  "secp256k1_scalar_is_zero a = ((sc0 a OR sc1 a OR sc2 a OR sc3 a) = 0)"

definition secp256k1_scalar_negate :: "secp256k1_scalar \<Rightarrow> secp256k1_scalar" where
  "secp256k1_scalar_negate a =
     (let nonzero = w128 (0xFFFFFFFFFFFFFFFF * of_bool (\<not> secp256k1_scalar_is_zero a));
          t = w128 (NOT (sc0 a)) + w128 SECP256K1_N_0 + 1;
          r0 = w64 (t AND nonzero); t = drop_bit 64 t;
          t = t + (w128 (NOT (sc1 a)) + w128 SECP256K1_N_1);
          r1 = w64 (t AND nonzero); t = drop_bit 64 t;
          t = t + (w128 (NOT (sc2 a)) + w128 SECP256K1_N_2);
          r2 = w64 (t AND nonzero); t = drop_bit 64 t;
          t = t + (w128 (NOT (sc3 a)) + w128 SECP256K1_N_3);
          r3 = w64 (t AND nonzero)
      in sc_make r0 r1 r2 r3)"

definition secp256k1_scalar_is_one :: "secp256k1_scalar \<Rightarrow> bool" where
  "secp256k1_scalar_is_one a = (((sc0 a XOR 1) OR sc1 a OR sc2 a OR sc3 a) = 0)"

definition secp256k1_scalar_is_even :: "secp256k1_scalar \<Rightarrow> bool" where
  "secp256k1_scalar_is_even a = (sc0 a AND 1 = 0)"

definition secp256k1_scalar_is_high :: "secp256k1_scalar \<Rightarrow> bool" where
  "secp256k1_scalar_is_high a =
     (let yes = False; no = False;
          no = (no \<or> sc3 a < SECP256K1_N_H_3);
          yes = (yes \<or> SECP256K1_N_H_3 < sc3 a \<and> \<not> no);
          no = (no \<or> sc2 a < SECP256K1_N_H_2 \<and> \<not> yes);
          no = (no \<or> sc1 a < SECP256K1_N_H_1 \<and> \<not> yes);
          yes = (yes \<or> SECP256K1_N_H_1 < sc1 a \<and> \<not> no);
          yes = (yes \<or> SECP256K1_N_H_0 < sc0 a \<and> \<not> no)
      in yes)"

definition secp256k1_scalar_cond_negate :: "secp256k1_scalar \<Rightarrow> bool \<Rightarrow> secp256k1_scalar \<times> int" where
  "secp256k1_scalar_cond_negate r flag =
     (let mask = of_bool (\<not> flag) - 1 :: 64 word;
          nonzero = w128 (of_bool (secp256k1_scalar_is_zero r) - 1);
          t = w128 (sc0 r XOR mask) + w128 ((SECP256K1_N_0 + 1) AND mask);
          r0 = w64 (t AND nonzero); t = drop_bit 64 t;
          t = t + (w128 (sc1 r XOR mask) + w128 (SECP256K1_N_1 AND mask));
          r1 = w64 (t AND nonzero); t = drop_bit 64 t;
          t = t + (w128 (sc2 r XOR mask) + w128 (SECP256K1_N_2 AND mask));
          r2 = w64 (t AND nonzero); t = drop_bit 64 t;
          t = t + (w128 (sc3 r XOR mask) + w128 (SECP256K1_N_3 AND mask));
          r3 = w64 (t AND nonzero)
      in (sc_make r0 r1 r2 r3, 2 * of_bool (mask = 0) - 1))"

section \<open>The accumulator\<close>

text \<open>
  The macros on the variables \<open>c0\<close>, \<open>c1\<close>, \<open>c2\<close>. The third has 32 bits in the products and 64 in
  the reduction, so its type is a parameter.
\<close>

type_synonym 'c acc = "64 word \<times> 64 word \<times> 'c word"

definition product_words :: "64 word \<Rightarrow> 64 word \<Rightarrow> 64 word \<times> 64 word" where
  "product_words a b = (let t = w128 a * w128 b in (w64 (drop_bit 64 t), w64 t))"

definition muladd :: "64 word \<Rightarrow> 64 word \<Rightarrow> 'c::len acc \<Rightarrow> 'c acc" where
  "muladd a b acc =
     (case acc of (c0, c1, c2) \<Rightarrow>
        let (th, tl) = product_words a b;
            c0 = c0 + tl;
            th = th + of_bool (c0 < tl);
            c1 = c1 + th;
            c2 = c2 + of_bool (c1 < th)
        in (c0, c1, c2))"

definition muladd_fast :: "64 word \<Rightarrow> 64 word \<Rightarrow> 'c::len acc \<Rightarrow> 'c acc" where
  "muladd_fast a b acc =
     (case acc of (c0, c1, c2) \<Rightarrow>
        let (th, tl) = product_words a b;
            c0 = c0 + tl;
            th = th + of_bool (c0 < tl);
            c1 = c1 + th
        in (c0, c1, c2))"

definition muladd2 :: "64 word \<Rightarrow> 64 word \<Rightarrow> 'c::len acc \<Rightarrow> 'c acc" where
  "muladd2 a b acc =
     (case acc of (c0, c1, c2) \<Rightarrow>
        let (th, tl) = product_words a b;
            th2 = th + th;
            c2 = c2 + of_bool (th2 < th);
            tl2 = tl + tl;
            th2 = th2 + of_bool (tl2 < tl);
            c0 = c0 + tl2;
            th2 = th2 + of_bool (c0 < tl2);
            c2 = c2 + of_bool (c0 < tl2 \<and> th2 = 0);
            c1 = c1 + th2;
            c2 = c2 + of_bool (c1 < th2)
        in (c0, c1, c2))"

definition sumadd :: "64 word \<Rightarrow> 'c::len acc \<Rightarrow> 'c acc" where
  "sumadd a acc =
     (case acc of (c0, c1, c2) \<Rightarrow>
        let c0 = c0 + a;
            over = of_bool (c0 < a) :: 64 word;
            c1 = c1 + over;
            c2 = c2 + of_bool (c1 < over)
        in (c0, c1, c2))"

definition sumadd_fast :: "64 word \<Rightarrow> 'c::len acc \<Rightarrow> 'c acc" where
  "sumadd_fast a acc =
     (case acc of (c0, c1, c2) \<Rightarrow>
        let c0 = c0 + a;
            c1 = c1 + of_bool (c0 < a)
        in (c0, c1, c2))"

definition extract_word :: "'c::len acc \<Rightarrow> 64 word \<times> 'c acc" where
  "extract_word acc = (case acc of (c0, c1, c2) \<Rightarrow> (c0, (c1, ucast c2, 0)))"

definition extract_fast :: "'c::len acc \<Rightarrow> 64 word \<times> 'c acc" where
  "extract_fast acc = (case acc of (c0, c1, c2) \<Rightarrow> (c0, (c1, 0, c2)))"

section \<open>Products and reduction\<close>

definition secp256k1_scalar_mul_512 :: "secp256k1_scalar \<Rightarrow> secp256k1_scalar \<Rightarrow> 64 word list" where
  "secp256k1_scalar_mul_512 a b =
     (let c = (0, 0, 0 :: 32 word);
          c = muladd_fast (sc0 a) (sc0 b) c;
          (l0, c) = extract_fast c;
          c = muladd (sc0 a) (sc1 b) c;
          c = muladd (sc1 a) (sc0 b) c;
          (l1, c) = extract_word c;
          c = muladd (sc0 a) (sc2 b) c;
          c = muladd (sc1 a) (sc1 b) c;
          c = muladd (sc2 a) (sc0 b) c;
          (l2, c) = extract_word c;
          c = muladd (sc0 a) (sc3 b) c;
          c = muladd (sc1 a) (sc2 b) c;
          c = muladd (sc2 a) (sc1 b) c;
          c = muladd (sc3 a) (sc0 b) c;
          (l3, c) = extract_word c;
          c = muladd (sc1 a) (sc3 b) c;
          c = muladd (sc2 a) (sc2 b) c;
          c = muladd (sc3 a) (sc1 b) c;
          (l4, c) = extract_word c;
          c = muladd (sc2 a) (sc3 b) c;
          c = muladd (sc3 a) (sc2 b) c;
          (l5, c) = extract_word c;
          c = muladd_fast (sc3 a) (sc3 b) c;
          (l6, c) = extract_fast c;
          l7 = fst c
      in [l0, l1, l2, l3, l4, l5, l6, l7])"

definition secp256k1_scalar_sqr_512 :: "secp256k1_scalar \<Rightarrow> 64 word list" where
  "secp256k1_scalar_sqr_512 a =
     (let c = (0, 0, 0 :: 32 word);
          c = muladd_fast (sc0 a) (sc0 a) c;
          (l0, c) = extract_fast c;
          c = muladd2 (sc0 a) (sc1 a) c;
          (l1, c) = extract_word c;
          c = muladd2 (sc0 a) (sc2 a) c;
          c = muladd (sc1 a) (sc1 a) c;
          (l2, c) = extract_word c;
          c = muladd2 (sc0 a) (sc3 a) c;
          c = muladd2 (sc1 a) (sc2 a) c;
          (l3, c) = extract_word c;
          c = muladd2 (sc1 a) (sc3 a) c;
          c = muladd (sc2 a) (sc2 a) c;
          (l4, c) = extract_word c;
          c = muladd2 (sc2 a) (sc3 a) c;
          (l5, c) = extract_word c;
          c = muladd_fast (sc3 a) (sc3 a) c;
          (l6, c) = extract_fast c;
          l7 = fst c
      in [l0, l1, l2, l3, l4, l5, l6, l7])"

text \<open>The two passes that fold the upper words, then the last one.\<close>

definition reduce_385 :: "64 word list \<Rightarrow> 64 word list \<times> 32 word" where
  "reduce_385 l =
     (let n0 = l ! 4; n1 = l ! 5; n2 = l ! 6; n3 = l ! 7;
          c = (l ! 0, 0, 0 :: 64 word);
          c = muladd_fast n0 SECP256K1_N_C_0 c;
          (m0, c) = extract_fast c;
          c = sumadd_fast (l ! 1) c;
          c = muladd n1 SECP256K1_N_C_0 c;
          c = muladd n0 SECP256K1_N_C_1 c;
          (m1, c) = extract_word c;
          c = sumadd (l ! 2) c;
          c = muladd n2 SECP256K1_N_C_0 c;
          c = muladd n1 SECP256K1_N_C_1 c;
          c = sumadd n0 c;
          (m2, c) = extract_word c;
          c = sumadd (l ! 3) c;
          c = muladd n3 SECP256K1_N_C_0 c;
          c = muladd n2 SECP256K1_N_C_1 c;
          c = sumadd n1 c;
          (m3, c) = extract_word c;
          c = muladd n3 SECP256K1_N_C_1 c;
          c = sumadd n2 c;
          (m4, c) = extract_word c;
          c = sumadd_fast n3 c;
          (m5, c) = extract_fast c;
          m6 = ucast (fst c)
      in ([m0, m1, m2, m3, m4, m5], m6))"

definition reduce_258 :: "64 word list \<times> 32 word \<Rightarrow> 64 word list \<times> 32 word" where
  "reduce_258 m =
     (let m0 = fst m ! 0; m1 = fst m ! 1; m2 = fst m ! 2; m3 = fst m ! 3; m4 = fst m ! 4; m5 = fst m ! 5; m6 = snd m;
          c = (m0, 0, 0 :: 64 word);
          c = muladd_fast m4 SECP256K1_N_C_0 c;
          (p0, c) = extract_fast c;
          c = sumadd_fast m1 c;
          c = muladd m5 SECP256K1_N_C_0 c;
          c = muladd m4 SECP256K1_N_C_1 c;
          (p1, c) = extract_word c;
          c = sumadd m2 c;
          c = muladd (ucast m6) SECP256K1_N_C_0 c;
          c = muladd m5 SECP256K1_N_C_1 c;
          c = sumadd m4 c;
          (p2, c) = extract_word c;
          c = sumadd_fast m3 c;
          c = muladd_fast (ucast m6) SECP256K1_N_C_1 c;
          c = sumadd_fast m5 c;
          (p3, c) = extract_fast c;
          p4 = ucast (fst c + ucast m6)
      in ([p0, p1, p2, p3], p4))"

definition secp256k1_scalar_reduce_512 :: "64 word list \<Rightarrow> secp256k1_scalar" where
  "secp256k1_scalar_reduce_512 l =
     (let (p, p4) = reduce_258 (reduce_385 l);
          c = w128 (p ! 0) + w128 SECP256K1_N_C_0 * ucast p4;
          r0 = w64 (c AND sc_M); c = drop_bit 64 c;
          c = c + (w128 (p ! 1) + w128 SECP256K1_N_C_1 * ucast p4);
          r1 = w64 (c AND sc_M); c = drop_bit 64 c;
          c = c + (w128 (p ! 2) + ucast p4);
          r2 = w64 (c AND sc_M); c = drop_bit 64 c;
          c = c + w128 (p ! 3);
          r3 = w64 (c AND sc_M); c = drop_bit 64 c;
          r = sc_make r0 r1 r2 r3
      in secp256k1_scalar_reduce r (ucast (c + of_bool (secp256k1_scalar_check_overflow r))))"

definition secp256k1_scalar_mul :: "secp256k1_scalar \<Rightarrow> secp256k1_scalar \<Rightarrow> secp256k1_scalar" where
  "secp256k1_scalar_mul a b = secp256k1_scalar_reduce_512 (secp256k1_scalar_mul_512 a b)"

definition secp256k1_scalar_sqr :: "secp256k1_scalar \<Rightarrow> secp256k1_scalar" where
  "secp256k1_scalar_sqr a = secp256k1_scalar_reduce_512 (secp256k1_scalar_sqr_512 a)"

definition secp256k1_scalar_shr_int :: "secp256k1_scalar \<Rightarrow> nat \<Rightarrow> secp256k1_scalar \<times> 32 word" where
  "secp256k1_scalar_shr_int r n =
     (sc_make (drop_bit n (sc0 r) + push_bit (64 - n) (sc1 r)) (drop_bit n (sc1 r) + push_bit (64 - n) (sc2 r))
        (drop_bit n (sc2 r) + push_bit (64 - n) (sc3 r)) (drop_bit n (sc3 r)),
      ucast (sc0 r AND ucast (push_bit n 1 - 1 :: 32 word)))"

definition secp256k1_scalar_split_128 :: "secp256k1_scalar \<Rightarrow> secp256k1_scalar \<times> secp256k1_scalar" where
  "secp256k1_scalar_split_128 a = (sc_make (sc0 a) (sc1 a) 0 0, sc_make (sc2 a) (sc3 a) 0 0)"

definition secp256k1_scalar_eq :: "secp256k1_scalar \<Rightarrow> secp256k1_scalar \<Rightarrow> bool" where
  "secp256k1_scalar_eq a b =
     (((sc0 a XOR sc0 b) OR (sc1 a XOR sc1 b) OR (sc2 a XOR sc2 b) OR (sc3 a XOR sc3 b)) = 0)"

definition secp256k1_scalar_mul_shift_var :: "secp256k1_scalar \<Rightarrow> secp256k1_scalar \<Rightarrow> nat \<Rightarrow> secp256k1_scalar" where
  "secp256k1_scalar_mul_shift_var a b shift =
     (let l = secp256k1_scalar_mul_512 a b;
          shiftlimbs = shift div 64; shiftlow = shift mod 64; shifthigh = 64 - shiftlow;
          r = sc_make
            (if shift < 512 then drop_bit shiftlow (l ! (0 + shiftlimbs)) OR
               (if shift < 448 \<and> shiftlow \<noteq> 0 then push_bit shifthigh (l ! (1 + shiftlimbs)) else 0) else 0)
            (if shift < 448 then drop_bit shiftlow (l ! (1 + shiftlimbs)) OR
               (if shift < 384 \<and> shiftlow \<noteq> 0 then push_bit shifthigh (l ! (2 + shiftlimbs)) else 0) else 0)
            (if shift < 384 then drop_bit shiftlow (l ! (2 + shiftlimbs)) OR
               (if shift < 320 \<and> shiftlow \<noteq> 0 then push_bit shifthigh (l ! (3 + shiftlimbs)) else 0) else 0)
            (if shift < 320 then drop_bit shiftlow (l ! (3 + shiftlimbs)) else 0)
      in secp256k1_scalar_cadd_bit r 0 (ucast (drop_bit ((shift - 1) mod 64) (l ! ((shift - 1) div 64)) AND 1)))"

section \<open>Values\<close>

definition sc_val :: "secp256k1_scalar \<Rightarrow> int" where
  "sc_val a = uint (sc0 a) + 2 ^ 64 * uint (sc1 a) + 2 ^ 128 * uint (sc2 a) + 2 ^ 192 * uint (sc3 a)"

text \<open>The order of the curve, and what it lacks of \<open>2^256\<close>.\<close>

definition sc_c :: int where "sc_c = 0x14551231950B75FC4402DA1732FC9BEBF"
definition sc_n :: int where "sc_n = 2 ^ 256 - sc_c"

text \<open>The invariant of the type: a value below the order.\<close>

definition sc_ok :: "secp256k1_scalar \<Rightarrow> bool" where
  "sc_ok a \<longleftrightarrow> sc_val a < sc_n"

lemmas N_defs = SECP256K1_N_0_def SECP256K1_N_1_def SECP256K1_N_2_def SECP256K1_N_3_def
  SECP256K1_N_C_0_def SECP256K1_N_C_1_def SECP256K1_N_C_2_def

lemma N_uint:
  "uint SECP256K1_N_0 = 0xBFD25E8CD0364141" "uint SECP256K1_N_1 = 0xBAAEDCE6AF48A03B"
  "uint SECP256K1_N_2 = 0xFFFFFFFFFFFFFFFE" "uint SECP256K1_N_3 = 0xFFFFFFFFFFFFFFFF"
  "uint SECP256K1_N_C_0 = 0x402DA1732FC9BEBF" "uint SECP256K1_N_C_1 = 0x4551231950B75FC4"
  "uint SECP256K1_N_C_2 = 1"
  by (simp_all add: N_defs)

lemma sc_val_bounds: "0 \<le> sc_val a" "sc_val a < 2 ^ 256"
  using u64_bounds [of "sc0 a"] u64_bounds [of "sc1 a"] u64_bounds [of "sc2 a"] u64_bounds [of "sc3 a"]
  unfolding sc_val_def by simp_all

lemma sc_n_bounds: "0 < sc_n" "sc_n < 2 ^ 256" "2 ^ 256 < 2 * sc_n" "0 < sc_c" "sc_c < 2 ^ 129"
  by (simp_all add: sc_n_def sc_c_def)

lemma split_unique:
  fixes x y :: int
  assumes "x + m * y = x' + m * y'" and "0 \<le> x" "x < m" "0 \<le> x'" "x' < m"
  shows "x = x' \<and> y = y'"
proof -
  have "x = (x + m * y) mod m" "y = (x + m * y) div m" using assms(2,3) by simp_all
  then show ?thesis unfolding assms(1) using assms(4,5) by simp
qed

lemma sc_val_inj: "sc_val a = sc_val b \<longleftrightarrow> a = b"
proof
  assume e: "sc_val a = sc_val b"
  have v: "sc_val x = uint (sc0 x) + 2 ^ 64 * (uint (sc1 x) + 2 ^ 64 * (uint (sc2 x) + 2 ^ 64 * uint (sc3 x)))" for x
    by (simp add: sc_val_def)
  have "uint (sc0 a) = uint (sc0 b) \<and> uint (sc1 a) = uint (sc1 b) \<and> uint (sc2 a) = uint (sc2 b) \<and> uint (sc3 a) = uint (sc3 b)"
    using e unfolding v by (smt (verit) split_unique u64_bounds)
  then show "a = b" by (simp add: word_uint_eq_iff)
qed simp

lemma check_overflow_iff: "secp256k1_scalar_check_overflow a \<longleftrightarrow> sc_n \<le> sc_val a"
proof -
  note b = u64_bounds [of "sc0 a"] u64_bounds [of "sc1 a"] u64_bounds [of "sc2 a"] u64_bounds [of "sc3 a"]
  have "secp256k1_scalar_check_overflow a \<longleftrightarrow> uint (sc3 a) = 0xFFFFFFFFFFFFFFFF \<and> (0xFFFFFFFFFFFFFFFE < uint (sc2 a) \<or>
      uint (sc2 a) = 0xFFFFFFFFFFFFFFFE \<and> (0xBAAEDCE6AF48A03B < uint (sc1 a) \<or>
        uint (sc1 a) = 0xBAAEDCE6AF48A03B \<and> 0xBFD25E8CD0364141 \<le> uint (sc0 a)))"
    using b unfolding secp256k1_scalar_check_overflow_def Let_def word_less_def word_le_def N_uint by auto
  also have "\<dots> \<longleftrightarrow> sc_n \<le> sc_val a"
    using b unfolding sc_val_def sc_n_def sc_c_def by (simp, linarith?)
  finally show ?thesis .
qed

section \<open>Carry chains\<close>

text \<open>
  Four 128-bit terms added with carries, as in addition, reduction and negation: \<open>sc_chain\<close> gives
  the four limbs and the last 128-bit sum.
\<close>

definition sc_chain :: "128 word \<Rightarrow> 128 word \<Rightarrow> 128 word \<Rightarrow> 128 word \<Rightarrow> secp256k1_scalar \<times> 128 word" where
  "sc_chain w0 w1 w2 w3 =
     (let t1 = drop_bit 64 w0 + w1; t2 = drop_bit 64 t1 + w2; t3 = drop_bit 64 t2 + w3
      in (sc_make (w64 (w0 AND sc_M)) (w64 (t1 AND sc_M)) (w64 (t2 AND sc_M)) (w64 (t3 AND sc_M)), t3))"

lemma chain_int:
  fixes r0 r1 r2 r3 q0 q1 q2 q3 w0 w1 w2 w3 :: int
  assumes "r0 + 2 ^ 64 * q0 = w0" "r1 + 2 ^ 64 * q1 = q0 + w1" "r2 + 2 ^ 64 * q2 = q1 + w2" "r3 + 2 ^ 64 * q3 = q2 + w3"
  shows "r0 + 2 ^ 64 * r1 + 2 ^ 128 * r2 + 2 ^ 192 * r3 + 2 ^ 256 * q3 = w0 + 2 ^ 64 * w1 + 2 ^ 128 * w2 + 2 ^ 192 * w3"
  using assms by simp

lemma sc_chain_spec:
  assumes "uint w0 < 2 ^ 127" "uint w1 < 2 ^ 127" "uint w2 < 2 ^ 127" "uint w3 < 2 ^ 127"
  shows "sc_val (fst (sc_chain w0 w1 w2 w3)) + 2 ^ 256 * (uint (snd (sc_chain w0 w1 w2 w3)) div 2 ^ 64) =
    uint w0 + 2 ^ 64 * uint w1 + 2 ^ 128 * uint w2 + 2 ^ 192 * uint w3"
proof -
  define t1 where "t1 = drop_bit 64 w0 + w1"
  define t2 where "t2 = drop_bit 64 t1 + w2"
  define t3 where "t3 = drop_bit 64 t2 + w3"
  have a: "uint (drop_bit 64 t + w) = uint t div 2 ^ 64 + uint w" if "uint w < 2 ^ 127" for t w :: "128 word"
  proof -
    have "uint (drop_bit 64 t) < 2 ^ 64" using uint_bounded [of t] unfolding uint_drop by simp
    then show ?thesis unfolding uint_drop [symmetric] using that by (intro u128_add) simp
  qed
  have t: "uint t1 = uint w0 div 2 ^ 64 + uint w1" "uint t2 = uint t1 div 2 ^ 64 + uint w2" "uint t3 = uint t2 div 2 ^ 64 + uint w3"
    unfolding t1_def t2_def t3_def using assms by (simp_all only: a)
  have c: "sc_chain w0 w1 w2 w3 =
      (sc_make (w64 (w0 AND sc_M)) (w64 (t1 AND sc_M)) (w64 (t2 AND sc_M)) (w64 (t3 AND sc_M)), t3)"
    unfolding sc_chain_def Let_def t1_def t2_def t3_def ..
  have d: "x mod 2 ^ 64 + 2 ^ 64 * (x div 2 ^ 64) = x" for x :: int by (rule mod_mult_div_eq)
  note e = d [of "uint t1", unfolded t(1)] d [of "uint t2", unfolded t(2)] d [of "uint t3", unfolded t(3)]
  show ?thesis unfolding c fst_conv snd_conv sc_val_def sc_make_simps w64_low t
    by (rule chain_int [OF d e [unfolded t]])
qed

lemma sc_chain_mod:
  assumes "uint w0 < 2 ^ 127" "uint w1 < 2 ^ 127" "uint w2 < 2 ^ 127" "uint w3 < 2 ^ 127"
    and "uint w0 + 2 ^ 64 * uint w1 + 2 ^ 128 * uint w2 + 2 ^ 192 * uint w3 = W"
  shows "sc_val (fst (sc_chain w0 w1 w2 w3)) = W mod 2 ^ 256" "uint (drop_bit 64 (snd (sc_chain w0 w1 w2 w3))) = W div 2 ^ 256"
proof -
  note s = sc_chain_spec [OF assms(1-4), unfolded assms(5)]
  have "W = sc_val (fst (sc_chain w0 w1 w2 w3)) + 2 ^ 256 * (uint (snd (sc_chain w0 w1 w2 w3)) div 2 ^ 64)" using s ..
  moreover have "(x + 2 ^ 256 * y) mod 2 ^ 256 = x \<and> (x + 2 ^ 256 * y) div 2 ^ 256 = y" if "0 \<le> x" "x < 2 ^ 256" for x y :: int
    using that by simp
  ultimately show "sc_val (fst (sc_chain w0 w1 w2 w3)) = W mod 2 ^ 256" "uint (drop_bit 64 (snd (sc_chain w0 w1 w2 w3))) = W div 2 ^ 256"
    unfolding uint_drop using sc_val_bounds by metis+
qed

section \<open>Addition and reduction\<close>

lemma w128_sum: "uint (w128 x + w128 y) < 2 ^ 127" "uint (w128 x) < 2 ^ 127"
  using u64_bounds [of x] u64_bounds [of y] by (simp_all add: w128_add)

lemma reduce_chain: "secp256k1_scalar_reduce r v =
    fst (sc_chain (w128 (sc0 r) + w128 (ucast v * SECP256K1_N_C_0)) (w128 (sc1 r) + w128 (ucast v * SECP256K1_N_C_1))
      (w128 (sc2 r) + w128 (ucast (v * SECP256K1_N_C_2))) (w128 (sc3 r)))"
  unfolding secp256k1_scalar_reduce_def sc_chain_def Let_def fst_conv ..

lemma reduce_spec:
  "sc_val (secp256k1_scalar_reduce r (of_bool v)) = (if v then (sc_val r + sc_c) mod 2 ^ 256 else sc_val r)"
proof -
  have n: "uint (ucast (of_bool v :: 32 word) * SECP256K1_N_C_0) = of_bool v * 0x402DA1732FC9BEBF"
    "uint (ucast (of_bool v :: 32 word) * SECP256K1_N_C_1) = of_bool v * 0x4551231950B75FC4"
    "uint (ucast (of_bool v * SECP256K1_N_C_2 :: 32 word) :: 64 word) = of_bool v"
    by (cases v; simp add: N_defs)+
  have "sc_val (secp256k1_scalar_reduce r (of_bool v)) = (sc_val r + of_bool v * sc_c) mod 2 ^ 256"
    unfolding reduce_chain
    by (rule sc_chain_mod(1) [OF w128_sum(1) w128_sum(1) w128_sum(1) w128_sum(2)])
      (simp only: w128_add uint_w128 n, simp add: sc_val_def sc_c_def)
  then show ?thesis using sc_val_bounds [of r] by simp
qed

lemma reduce_bit:
  "sc_val (secp256k1_scalar_reduce r 1) = (sc_val r + sc_c) mod 2 ^ 256" "sc_val (secp256k1_scalar_reduce r 0) = sc_val r"
  using reduce_spec [of r True] reduce_spec [of r False] by simp_all

lemma reduce_once:
  assumes "sc_val r < 2 * sc_n"
  shows "sc_val (secp256k1_scalar_reduce r (of_bool (secp256k1_scalar_check_overflow r))) = sc_val r mod sc_n"
proof (cases "sc_n \<le> sc_val r")
  case True
  have "sc_val r + sc_c = sc_val r - sc_n + 2 ^ 256" by (simp add: sc_n_def)
  moreover have "0 \<le> sc_val r - sc_n" "sc_val r - sc_n < 2 ^ 256" using True sc_val_bounds [of r] sc_n_bounds by linarith+
  ultimately have "(sc_val r + sc_c) mod 2 ^ 256 = sc_val r - sc_n" by (intro mod_shift) simp_all
  moreover have "sc_val r mod sc_n = sc_val r - sc_n"
    using True assms by (rule mod_once)
  ultimately show ?thesis using True by (simp add: reduce_bit check_overflow_iff)
next
  case False
  then show ?thesis using sc_val_bounds [of r] by (simp add: reduce_bit check_overflow_iff)
qed

lemma sc_val_double: "sc_val r < 2 * sc_n"
  using sc_val_bounds [of r] sc_n_bounds by linarith

text \<open>The last step of addition and of the product: a value with a carry bit, below twice the order.\<close>

lemma reduce_carry:
  assumes "sc_val r + 2 ^ 256 * k = W" and "0 \<le> k" and "W < 2 * sc_n" and "uint c = k"
  shows "sc_val (secp256k1_scalar_reduce r (ucast (c + of_bool (secp256k1_scalar_check_overflow r) :: 128 word))) = W mod sc_n"
    and "(ucast (c + of_bool (secp256k1_scalar_check_overflow r) :: 128 word) :: 32 word) = of_bool (sc_n \<le> W)"
proof -
  have "k < 2" using assms(1,3) sc_val_bounds(1) [of r] sc_n_bounds(2) by simp
  then have k: "k = 0 \<or> k = 1" using assms(2) by auto
  have c: "c = of_bool (k = 1)" using k assms(4) by (auto simp: word_uint_eq_iff)
  show e: "(ucast (c + of_bool (secp256k1_scalar_check_overflow r) :: 128 word) :: 32 word) = of_bool (sc_n \<le> W)"
  proof (cases "k = 1")
    case True
    then have "sc_val r + 2 ^ 256 = W" using assms(1) by simp
    then have "sc_val r < sc_n" "sc_n \<le> W" using assms(3) sc_val_bounds(1) [of r] sc_n_bounds(2) by linarith+
    then show ?thesis using True c by (simp add: check_overflow_iff)
  next
    case False
    then show ?thesis using k c assms(1) by (simp add: check_overflow_iff)
  qed
  have v: "sc_val r = (if k = 1 then W - 2 ^ 256 else W)" using assms(1) k by auto
  show "sc_val (secp256k1_scalar_reduce r (ucast (c + of_bool (secp256k1_scalar_check_overflow r) :: 128 word))) = W mod sc_n"
  proof (cases "sc_n \<le> W")
    case True
    have m: "W mod sc_n = W - sc_n" using True assms(3) by (rule mod_once)
    have b: "0 \<le> W - sc_n" "W - sc_n < 2 ^ 256" using True assms(3) sc_n_bounds by linarith+
    have "sc_val r + sc_c = W - sc_n + (if k = 1 then 0 else 2 ^ 256)" using v by (simp add: sc_n_def)
    then have "(sc_val r + sc_c) mod 2 ^ 256 = W - sc_n" using b by (intro mod_shift) (simp_all split: if_splits)
    then show ?thesis unfolding e using True m by (simp add: reduce_bit)
  next
    case False
    then have "k = 0" using k assms(1) sc_val_bounds [of r] sc_n_bounds by auto
    then show ?thesis unfolding e using False v sc_val_bounds [of r] by (simp add: reduce_bit)
  qed
qed

lemma add_chain: "secp256k1_scalar_add a b =
    (let (r, t) = sc_chain (w128 (sc0 a) + w128 (sc0 b)) (w128 (sc1 a) + w128 (sc1 b))
       (w128 (sc2 a) + w128 (sc2 b)) (w128 (sc3 a) + w128 (sc3 b));
       overflow = ucast (drop_bit 64 t + of_bool (secp256k1_scalar_check_overflow r)) :: 32 word
     in (secp256k1_scalar_reduce r overflow, overflow \<noteq> 0))"
  unfolding secp256k1_scalar_add_def sc_chain_def Let_def prod.case ..

lemma add_below:
  assumes l: "sc_val a + sc_val b < 2 * sc_n"
  shows "sc_val (fst (secp256k1_scalar_add a b)) = (sc_val a + sc_val b) mod sc_n"
    and "snd (secp256k1_scalar_add a b) \<longleftrightarrow> sc_n \<le> sc_val a + sc_val b"
proof -
  let ?ch = "sc_chain (w128 (sc0 a) + w128 (sc0 b)) (w128 (sc1 a) + w128 (sc1 b))
       (w128 (sc2 a) + w128 (sc2 b)) (w128 (sc3 a) + w128 (sc3 b))"
  obtain r t where ch: "?ch = (r, t)" by fastforce
  have W: "uint (w128 (sc0 a) + w128 (sc0 b)) + 2 ^ 64 * uint (w128 (sc1 a) + w128 (sc1 b)) +
      2 ^ 128 * uint (w128 (sc2 a) + w128 (sc2 b)) + 2 ^ 192 * uint (w128 (sc3 a) + w128 (sc3 b)) = sc_val a + sc_val b"
    unfolding w128_add sc_val_def by simp
  note m = sc_chain_mod [OF w128_sum(1) w128_sum(1) w128_sum(1) w128_sum(1) W, unfolded ch fst_conv snd_conv]
  have s: "sc_val r + 2 ^ 256 * ((sc_val a + sc_val b) div 2 ^ 256) = sc_val a + sc_val b" unfolding m(1) by simp
  have p: "0 \<le> (sc_val a + sc_val b) div 2 ^ 256" using sc_val_bounds [of a] sc_val_bounds [of b]
    by (simp add: pos_imp_zdiv_nonneg_iff)
  note c = reduce_carry [OF s p l m(2)]
  show "sc_val (fst (secp256k1_scalar_add a b)) = (sc_val a + sc_val b) mod sc_n"
    unfolding add_chain ch Let_def prod.case fst_conv by (rule c(1))
  show "snd (secp256k1_scalar_add a b) \<longleftrightarrow> sc_n \<le> sc_val a + sc_val b"
    unfolding add_chain ch Let_def prod.case snd_conv c(2) by simp
qed

lemma add_spec:
  assumes "sc_ok a" "sc_ok b"
  shows "sc_val (fst (secp256k1_scalar_add a b)) = (sc_val a + sc_val b) mod sc_n"
    and "snd (secp256k1_scalar_add a b) \<longleftrightarrow> sc_n \<le> sc_val a + sc_val b"
  using assms by (intro add_below; unfold sc_ok_def, linarith)+

lemma ok_mod: "sc_val x = v mod sc_n \<Longrightarrow> sc_ok x"
  using sc_n_bounds by (simp add: sc_ok_def)

section \<open>The accumulator as a number\<close>

definition acc_val :: "'c::len acc \<Rightarrow> int" where
  "acc_val acc = (case acc of (c0, c1, c2) \<Rightarrow> uint c0 + 2 ^ 64 * uint c1 + 2 ^ 128 * uint c2)"

lemma acc_val_nonneg: "0 \<le> acc_val acc"
  by (simp add: acc_val_def split: prod.split)

lemma uint_plus_bit: "uint c + of_bool b < 2 ^ LENGTH('c) \<Longrightarrow> uint (c + of_bool b) = uint c + of_bool b" for c :: "'c::len word"
  by (cases b) (simp_all add: uint_word_ariths mod_pos_pos_trivial)

lemma product_words_spec:
  assumes "product_words a b = (th, lo)"
  shows "uint lo + 2 ^ 64 * uint th = uint a * uint b" "uint th \<le> 2 ^ 64 - 2"
proof -
  have b: "uint a * uint b \<le> (2 ^ 64 - 1) * (2 ^ 64 - 1)" by (rule mult_mono [OF u64_bounds(2) u64_bounds(2)]) simp_all
  have b': "0 \<le> uint a * uint b" by simp
  note b = b b'
  then have m: "uint (w128 a * w128 b) = uint a * uint b" by (intro uint_mul128) simp_all
  have d: "uint (drop_bit 64 (w128 a * w128 b)) = uint a * uint b div 2 ^ 64" unfolding uint_drop m ..
  have h: "uint a * uint b div 2 ^ 64 \<le> 2 ^ 64 - 2" using b by simp
  then have t: "uint th = uint a * uint b div 2 ^ 64" "uint lo = uint a * uint b mod 2 ^ 64"
    using assms b unfolding product_words_def Let_def
    by (auto simp: uint_w64 d m mod_pos_pos_trivial pos_imp_zdiv_nonneg_iff)
  show "uint lo + 2 ^ 64 * uint th = uint a * uint b" "uint th \<le> 2 ^ 64 - 2"
    unfolding t using h by simp_all
qed

lemma drop_low:
  fixes x y z w k m :: int
  assumes "x + k * y + m * z < m * w" "0 \<le> x" "0 \<le> y" "0 \<le> k" "0 < m"
  shows "z < w"
proof -
  have "0 \<le> k * y" using assms(3,4) by simp
  then have "m * z < m * w" using assms(1,2) by linarith
  then show ?thesis using assms(5) by simp
qed

lemma acc_top: "uint c0 + 2 ^ 64 * uint c1 + 2 ^ 128 * z < 2 ^ (128 + n) \<Longrightarrow> z < 2 ^ n" for c0 c1 :: "64 word" and z :: int
  by (rule drop_low [of "uint c0" "2 ^ 64" "uint c1" "2 ^ 128"]) (simp_all add: power_add)

lemma acc_carry:
  fixes c2 :: "'c::len word"
  assumes "uint c0 + 2 ^ 64 * uint c1 + 2 ^ 128 * (uint c2 + of_bool k) = V" "V < 2 ^ (128 + LENGTH('c))"
  shows "acc_val (c0, c1, c2 + of_bool k) = V"
  using assms acc_top [of c0 c1 "uint c2 + of_bool k" "LENGTH('c)"] by (simp add: acc_val_def uint_plus_bit)

lemma muladd_val:
  fixes acc :: "'c::len acc"
  assumes "acc_val acc + uint a * uint b < 2 ^ (128 + LENGTH('c))"
  shows "acc_val (muladd a b acc) = acc_val acc + uint a * uint b"
proof -
  obtain c0 c1 c2 th lo where s: "acc = (c0, c1, c2)" "product_words a b = (th, lo)" by (metis prod_cases3 surj_pair)
  note p = product_words_spec [OF s(2)]
  define th' where "th' = th + of_bool (c0 + lo < lo)"
  have t: "uint th' = uint th + of_bool (c0 + lo < lo)" using p(2) unfolding th'_def by (intro uint_plus_bit) simp
  have r: "muladd a b acc = (c0 + lo, c1 + th', c2 + of_bool (c1 + th' < th'))"
    unfolding muladd_def s prod.case Let_def th'_def ..
  have V: "acc_val acc = uint c0 + 2 ^ 64 * uint c1 + 2 ^ 128 * uint c2" unfolding s acc_val_def by simp
  show ?thesis unfolding r
    by (rule acc_carry [OF _ assms]) (use V p(1) t carry64 [of c0 lo] carry64 [of c1 th'] in simp)
qed

lemma fast_carry:
  fixes c0 :: "64 word"
  assumes "uint c0 + 2 ^ 64 * (c1' + 2 ^ 64 * of_bool k) + 2 ^ 128 * z = V" "V < 2 ^ 128" "0 \<le> c1'" "0 \<le> z"
  shows "\<not> k" "z = 0"
proof -
  have "uint c0 + 2 ^ 64 * c1' + 2 ^ 128 * (of_bool k + z) < 2 ^ 128 * 1"
    using assms(1,2) unfolding distrib_left by simp
  then have "of_bool k + z < 1" by (rule drop_low) (use assms(3) in simp_all)
  then show "\<not> k" "z = 0" using assms(4) by (cases k; simp)+
qed

lemma muladd_fast_val:
  fixes acc :: "'c::len acc"
  assumes "acc_val acc + uint a * uint b < 2 ^ 128"
  shows "acc_val (muladd_fast a b acc) = acc_val acc + uint a * uint b"
proof -
  obtain c0 c1 c2 th lo where s: "acc = (c0, c1, c2)" "product_words a b = (th, lo)" by (metis prod_cases3 surj_pair)
  note p = product_words_spec [OF s(2)]
  define th' where "th' = th + of_bool (c0 + lo < lo)"
  have t: "uint th' = uint th + of_bool (c0 + lo < lo)" using p(2) unfolding th'_def by (intro uint_plus_bit) simp
  have r: "muladd_fast a b acc = (c0 + lo, c1 + th', c2)"
    unfolding muladd_fast_def s prod.case Let_def th'_def ..
  have V: "uint (c0 + lo) + 2 ^ 64 * (uint (c1 + th') + 2 ^ 64 * of_bool (c1 + th' < th')) + 2 ^ 128 * uint c2 = acc_val acc + uint a * uint b"
    using p(1) t carry64 [of c0 lo] carry64 [of c1 th'] unfolding s acc_val_def by simp
  show ?thesis using V fast_carry [OF V assms] unfolding r acc_val_def by simp
qed

lemma sumadd_val:
  fixes acc :: "'c::len acc"
  assumes "acc_val acc + uint a < 2 ^ (128 + LENGTH('c))"
  shows "acc_val (sumadd a acc) = acc_val acc + uint a"
proof -
  obtain c0 c1 c2 where s: "acc = (c0, c1, c2)" by (metis prod_cases3)
  define v :: "64 word" where "v = of_bool (c0 + a < a)"
  have t: "uint v = of_bool (c0 + a < a)" unfolding v_def by simp
  have r: "sumadd a acc = (c0 + a, c1 + v, c2 + of_bool (c1 + v < v))"
    unfolding sumadd_def s prod.case Let_def v_def ..
  have V: "acc_val acc = uint c0 + 2 ^ 64 * uint c1 + 2 ^ 128 * uint c2" unfolding s acc_val_def by simp
  show ?thesis unfolding r
    by (rule acc_carry [OF _ assms]) (use V t carry64 [of c0 a] carry64 [of c1 v] in simp)
qed

lemma sumadd_fast_val:
  fixes acc :: "'c::len acc"
  assumes "acc_val acc + uint a < 2 ^ 128"
  shows "acc_val (sumadd_fast a acc) = acc_val acc + uint a"
proof -
  obtain c0 c1 c2 where s: "acc = (c0, c1, c2)" by (metis prod_cases3)
  define v :: "64 word" where "v = of_bool (c0 + a < a)"
  have t: "uint v = of_bool (c0 + a < a)" unfolding v_def by simp
  have r: "sumadd_fast a acc = (c0 + a, c1 + v, c2)"
    unfolding sumadd_fast_def s prod.case Let_def v_def ..
  have V: "uint (c0 + a) + 2 ^ 64 * (uint (c1 + v) + 2 ^ 64 * of_bool (c1 + v < v)) + 2 ^ 128 * uint c2 = acc_val acc + uint a"
    using t carry64 [of c0 a] carry64 [of c1 v] unfolding s acc_val_def by simp
  show ?thesis using V fast_carry [OF V assms] unfolding r acc_val_def by simp
qed

lemma extract_val:
  fixes acc :: "'c::len acc"
  assumes "LENGTH('c) \<le> 64"
  shows "acc_val acc = uint (fst (extract_word acc)) + 2 ^ 64 * acc_val (snd (extract_word acc))"
proof -
  obtain c0 c1 c2 where s: "acc = (c0, c1, c2)" by (metis prod_cases3)
  have "uint (ucast c2 :: 64 word) = uint c2"
    using order_less_le_trans [OF uint_bounded power_increasing [OF assms]]
    by (simp add: unsigned_ucast_eq take_bit_int_eq_self)
  then show ?thesis unfolding s extract_word_def acc_val_def by simp
qed

lemma extract_fast_val:
  fixes acc :: "'c::len acc"
  assumes "acc_val acc < 2 ^ 128"
  shows "acc_val acc = uint (fst (extract_fast acc)) + 2 ^ 64 * acc_val (snd (extract_fast acc))"
proof -
  obtain c0 c1 c2 where s: "acc = (c0, c1, c2)" by (metis prod_cases3)
  have "uint c2 < 1" using assms acc_top [of c0 c1 "uint c2" 0] unfolding s acc_val_def by simp
  then have "uint c2 = 0" using uint_ge_0 [of c2] by linarith
  then show ?thesis unfolding s extract_fast_def acc_val_def by simp
qed

lemma acc_low: "acc_val acc < 2 ^ 64 \<Longrightarrow> uint (fst acc) = acc_val acc" for acc :: "'c::len acc"
proof -
  assume a: "acc_val acc < 2 ^ 64"
  obtain c0 c1 c2 where s: "acc = (c0, c1, c2)" by (metis prod_cases3)
  have "uint c1 + 2 ^ 64 * uint c2 < 1"
    by (rule drop_low [of "uint c0" 0 0 "2 ^ 64"]) (use a in \<open>simp_all add: s acc_val_def\<close>)
  then have "uint c1 + 18446744073709551616 * uint c2 < 1" by simp
  then have "uint c1 = 0" "uint c2 = 0" using uint_ge_0 [of c1] uint_ge_0 [of c2] by linarith+
  then show ?thesis unfolding s acc_val_def by simp
qed

lemma muladd2_val:
  fixes acc :: "'c::len acc"
  assumes "acc_val acc + 2 * (uint a * uint b) < 2 ^ (128 + LENGTH('c))"
  shows "acc_val (muladd2 a b acc) = acc_val acc + 2 * (uint a * uint b)"
proof -
  obtain c0 c1 c2 th lo where s: "acc = (c0, c1, c2)" "product_words a b = (th, lo)" by (metis prod_cases3 surj_pair)
  note p = product_words_spec [OF s(2)]
  define k1 k2 k3 where "k1 = (th + th < th)" and "k2 = (lo + lo < lo)" and "k3 = (c0 + (lo + lo) < lo + lo)"
  define v1 where "v1 = th + th + of_bool k2"
  define v2 where "v2 = v1 + of_bool k3"
  define k4 where "k4 = (k3 \<and> v2 = 0)"
  define k5 where "k5 = (c1 + v2 < v2)"
  have r: "muladd2 a b acc = (c0 + (lo + lo), c1 + v2, c2 + of_bool k1 + of_bool k4 + of_bool k5)"
    unfolding muladd2_def s prod.case Let_def k1_def k2_def k3_def v1_def v2_def k4_def k5_def ..
  have "uint (th + th) = 2 * (uint th - 2 ^ 63 * of_bool (th + th < th))" using carry64 [of th th] by simp
  then have "even (uint (th + th))" by simp
  then have "uint (th + th) \<noteq> 2 ^ 64 - 1" by force
  then have "uint (th + th) \<le> 2 ^ 64 - 2" using u64_bounds(2) [of "th + th"] by linarith
  then have t1: "uint v1 = uint (th + th) + of_bool k2" unfolding v1_def by (intro uint_plus_bit) simp
  have t2: "uint v2 + 2 ^ 64 * of_bool k4 = uint v1 + of_bool k3"
    using carry64 [of v1 "of_bool k3"] unfolding v2_def k4_def by (cases k3) (simp_all add: word_less_1)
  have V: "uint (c0 + (lo + lo)) + 2 ^ 64 * uint (c1 + v2) + 2 ^ 128 * (uint c2 + of_bool k1 + of_bool k4 + of_bool k5) =
      acc_val acc + 2 * (uint a * uint b)"
    using p(1) t1 t2 carry64 [of th th] carry64 [of lo lo] carry64 [of c0 "lo + lo"] carry64 [of c1 v2]
    unfolding s acc_val_def k1_def [symmetric] k2_def [symmetric] k3_def [symmetric] k5_def [symmetric] by simp
  have "uint c2 + of_bool k1 + of_bool k4 + of_bool k5 < 2 ^ LENGTH('c)"
    using acc_top [of "c0 + (lo + lo)" "c1 + v2" "uint c2 + of_bool k1 + of_bool k4 + of_bool k5" "LENGTH('c)"] V assms by simp
  then have "uint (c2 + of_bool k1 + of_bool k4 + of_bool k5) = uint c2 + of_bool k1 + of_bool k4 + of_bool k5"
    by (smt (verit) of_bool_eq_iff uint_plus_bit zero_less_eq_of_bool)
  then show ?thesis using V unfolding r acc_val_def by simp
qed

section \<open>The 512-bit products\<close>

fun words_val :: "64 word list \<Rightarrow> int" where
  "words_val [] = 0"
| "words_val (x # xs) = uint x + 2 ^ 64 * words_val xs"

lemma words_val_nonneg: "0 \<le> words_val xs"
  by (induction xs) simp_all

lemma words_val_less: "words_val xs < 2 ^ (64 * length xs)"
proof (induction xs)
  case (Cons x xs)
  have "uint x + 2 ^ 64 * words_val xs < 2 ^ 64 * (words_val xs + 1)" using u64_bounds(2) [of x] by simp
  also have "\<dots> \<le> 2 ^ 64 * 2 ^ (64 * length xs)" by (rule mult_left_mono) (use Cons in simp_all)
  finally show ?case by (simp add: power_add)
qed simp

text \<open>
  \<open>acc_le k V c\<close>: the accumulator holds \<open>V\<close>, after at most \<open>k\<close> products on top of a carry of
  66 bits. Up to four products leave such a carry again.
\<close>

definition acc_le :: "int \<Rightarrow> int \<Rightarrow> 'c::len acc \<Rightarrow> bool" where
  "acc_le k V c \<longleftrightarrow> acc_val c = V \<and> V \<le> 0x40000000000000000 + k * 0xFFFFFFFFFFFFFFFE0000000000000001"

lemma product_le: "uint a * uint b \<le> 0xFFFFFFFFFFFFFFFE0000000000000001" for a b :: "64 word"
proof -
  have "uint a * uint b \<le> (2 ^ 64 - 1) * (2 ^ 64 - 1)" by (rule mult_mono [OF u64_bounds(2) u64_bounds(2)]) simp_all
  then show ?thesis by simp
qed

lemma acc_room:
  fixes V w :: int
  assumes "V \<le> 0x40000000000000000 + k * 0xFFFFFFFFFFFFFFFE0000000000000001" "k \<le> 4"
    and "w \<le> 2 * 0xFFFFFFFFFFFFFFFE0000000000000001" "32 \<le> n"
  shows "V + w < 2 ^ (128 + n)"
proof -
  have "V + w < 2 ^ 160" using assms by simp
  also have "\<dots> \<le> 2 ^ (128 + n)" by (rule power_increasing) (use assms(4) in simp_all)
  finally show ?thesis .
qed

lemma acc_le_muladd:
  fixes c :: "'c::len acc"
  assumes "acc_le k V c" "k \<le> 4" "32 \<le> LENGTH('c)"
  shows "acc_le (k + 1) (V + uint a * uint b) (muladd a b c)"
  using assms product_le [of a b] muladd_val [of c a b] acc_room [of V k "uint a * uint b" "LENGTH('c)"]
  unfolding acc_le_def by (simp add: algebra_simps)

lemma acc_le_muladd2:
  fixes c :: "'c::len acc"
  assumes "acc_le k V c" "k \<le> 4" "32 \<le> LENGTH('c)"
  shows "acc_le (k + 2) (V + 2 * (uint a * uint b)) (muladd2 a b c)"
  using assms product_le [of a b] muladd2_val [of c a b] acc_room [of V k "2 * (uint a * uint b)" "LENGTH('c)"]
  unfolding acc_le_def by (simp add: algebra_simps)

lemma acc_le_sumadd:
  fixes c :: "'c::len acc"
  assumes "acc_le k V c" "k \<le> 4" "32 \<le> LENGTH('c)"
  shows "acc_le (k + 1) (V + uint a) (sumadd a c)"
  using assms u64_bounds(2) [of a] sumadd_val [of c a] acc_room [of V k "uint a" "LENGTH('c)"]
  unfolding acc_le_def by (simp add: algebra_simps)

lemma acc_le_zero: "acc_le 0 0 (0, 0, 0)" "acc_le 0 (uint x) (x, 0, 0)"
  using u64_bounds(2) [of x] by (simp_all add: acc_le_def acc_val_def)

lemma acc_le_carry:
  fixes x V V' :: int
  assumes "V = x + 2 ^ 64 * V'" "0 \<le> x" "V \<le> 0x40000000000000000 + k * 0xFFFFFFFFFFFFFFFE0000000000000001" "k \<le> 4"
  shows "V' \<le> 0x40000000000000000"
proof (rule ccontr)
  assume "\<not> ?thesis"
  then have "0x40000000000000001 \<le> V'" by simp
  then show False using assms by simp
qed

lemma acc_le_extract:
  fixes c :: "'c::len acc"
  assumes "acc_le k V c" "k \<le> 4" "LENGTH('c) \<le> 64"
  shows "V = uint (fst (extract_word c)) + 2 ^ 64 * acc_val (snd (extract_word c)) \<and>
    acc_le 0 (acc_val (snd (extract_word c))) (snd (extract_word c))"
  using assms(1,2) extract_val [OF assms(3), of c] acc_le_carry [of V "uint (fst (extract_word c))" "acc_val (snd (extract_word c))" k]
  unfolding acc_le_def by simp

lemma acc_le_extract_fast:
  fixes c :: "'c::len acc"
  assumes "acc_val c < 2 ^ 128"
  shows "acc_val c = uint (fst (extract_fast c)) + 2 ^ 64 * acc_val (snd (extract_fast c)) \<and>
    acc_le 0 (acc_val (snd (extract_fast c))) (snd (extract_fast c)) \<and> acc_val (snd (extract_fast c)) < 2 ^ 64"
proof -
  note e = extract_fast_val [OF assms]
  have "acc_val (snd (extract_fast c)) < 2 ^ 64"
    by (rule drop_low [of "uint (fst (extract_fast c))" 0 0 "2 ^ 64"]) (use assms e in simp_all)
  then show ?thesis using e unfolding acc_le_def by simp
qed

text \<open>The schoolbook scheme over the integers, for any base.\<close>

lemma columns_int:
  fixes B a0 a1 a2 a3 b0 b1 b2 b3 l0 l1 l2 l3 l4 l5 V1 V2 V3 V4 V5 V6 :: int
  assumes "0 + a0 * b0 = l0 + B * V1" "V1 + a0 * b1 + a1 * b0 = l1 + B * V2"
    "V2 + a0 * b2 + a1 * b1 + a2 * b0 = l2 + B * V3" "V3 + a0 * b3 + a1 * b2 + a2 * b1 + a3 * b0 = l3 + B * V4"
    "V4 + a1 * b3 + a2 * b2 + a3 * b1 = l4 + B * V5" "V5 + a2 * b3 + a3 * b2 = l5 + B * V6"
  shows "(a0 + B * a1 + B ^ 2 * a2 + B ^ 3 * a3) * (b0 + B * b1 + B ^ 2 * b2 + B ^ 3 * b3) =
    l0 + B * (l1 + B * (l2 + B * (l3 + B * (l4 + B * (l5 + B * (V6 + a3 * b3))))))"
proof -
  have s: "l + B * (W + Y) = V + (x + B * Y)" if "V + x = l + B * W" for l V W x Y :: int
    using that by (simp add: distrib_left)
  have "l0 + B * (l1 + B * (l2 + B * (l3 + B * (l4 + B * (l5 + B * (V6 + a3 * b3)))))) =
      0 + (a0 * b0 + B * (a0 * b1 + a1 * b0 + B * (a0 * b2 + a1 * b1 + a2 * b0 + B * (a0 * b3 + a1 * b2 + a2 * b1 + a3 * b0 +
        B * (a1 * b3 + a2 * b2 + a3 * b1 + B * (a2 * b3 + a3 * b2 + B * (a3 * b3)))))))"
    unfolding s [OF assms(6) [unfolded add.assoc]] s [OF assms(5) [unfolded add.assoc]] s [OF assms(4) [unfolded add.assoc]]
      s [OF assms(3) [unfolded add.assoc]] s [OF assms(2) [unfolded add.assoc]] s [OF assms(1)] by (simp only: add.assoc)
  also have "\<dots> = (a0 + B * a1 + B ^ 2 * a2 + B ^ 3 * a3) * (b0 + B * b1 + B ^ 2 * b2 + B ^ 3 * b3)" by algebra
  finally show ?thesis ..
qed

lemma sc_val_base: "sc_val a = uint (sc0 a) + 2 ^ 64 * uint (sc1 a) + (2 ^ 64) ^ 2 * uint (sc2 a) + (2 ^ 64) ^ 3 * uint (sc3 a)"
  by (simp add: sc_val_def)

text \<open>The end of both products, where nothing is left above the eighth word.\<close>

lemma columns_end:
  fixes c :: "'c::len acc" and x y :: "64 word"
  assumes P: "P = uint l0 + 2 ^ 64 * (uint l1 + 2 ^ 64 * (uint l2 + 2 ^ 64 * (uint l3 + 2 ^ 64 * (uint l4 + 2 ^ 64 * (uint l5 + 2 ^ 64 * (V + uint x * uint y))))))"
    and "P < 2 ^ 512" and "acc_val c = V"
  defines "s \<equiv> extract_fast (muladd_fast x y c)"
  shows "words_val [l0, l1, l2, l3, l4, l5, fst s, fst (snd s)] = P"
proof -
  let ?L = "uint l0 + 2 ^ 64 * uint l1 + 2 ^ 128 * uint l2 + 2 ^ 192 * uint l3 + 2 ^ 256 * uint l4 + 2 ^ 320 * uint l5"
  have "?L + 0 * 0 + 2 ^ 384 * (V + uint x * uint y) < 2 ^ 384 * 2 ^ 128" using P assms(2) by simp
  then have v: "V + uint x * uint y < 2 ^ 128" by (rule drop_low) simp_all
  note f = muladd_fast_val [of c x y, unfolded assms(3), OF v]
  note e = acc_le_extract_fast [of "muladd_fast x y c", unfolded f, OF v, folded s_def]
  have "uint (fst (snd s)) = acc_val (snd s)" using e by (intro acc_low) blast
  then show ?thesis unfolding P using e by simp
qed

lemma fast_column:
  fixes c :: "'c::len acc"
  assumes "acc_val c = V" "V + uint x * uint y < 2 ^ 128" "s = extract_fast (muladd_fast x y c)"
  shows "V + uint x * uint y = uint (fst s) + 2 ^ 64 * acc_val (snd s) \<and> acc_le 0 (acc_val (snd s)) (snd s) \<and>
    acc_val (snd s) < 2 ^ 64"
proof -
  note f = muladd_fast_val [of c x y, unfolded assms(1), OF assms(2)]
  show ?thesis using acc_le_extract_fast [of "muladd_fast x y c", unfolded f, OF assms(2)] unfolding assms(3) .
qed

lemma mul_512_spec: "words_val (secp256k1_scalar_mul_512 a b) = sc_val a * sc_val b" "length (secp256k1_scalar_mul_512 a b) = 8"
proof -
  define s0 where "s0 = extract_fast (muladd_fast (sc0 a) (sc0 b) (0, 0, 0 :: 32 word))"
  define s1 where "s1 = extract_word (muladd (sc1 a) (sc0 b) (muladd (sc0 a) (sc1 b) (snd s0)))"
  define s2 where "s2 = extract_word (muladd (sc2 a) (sc0 b) (muladd (sc1 a) (sc1 b) (muladd (sc0 a) (sc2 b) (snd s1))))"
  define s3 where "s3 = extract_word (muladd (sc3 a) (sc0 b) (muladd (sc2 a) (sc1 b)
    (muladd (sc1 a) (sc2 b) (muladd (sc0 a) (sc3 b) (snd s2)))))"
  define s4 where "s4 = extract_word (muladd (sc3 a) (sc1 b) (muladd (sc2 a) (sc2 b) (muladd (sc1 a) (sc3 b) (snd s3))))"
  define s5 where "s5 = extract_word (muladd (sc3 a) (sc2 b) (muladd (sc2 a) (sc3 b) (snd s4)))"
  define s6 where "s6 = extract_fast (muladd_fast (sc3 a) (sc3 b) (snd s5))"
  have r: "secp256k1_scalar_mul_512 a b = [fst s0, fst s1, fst s2, fst s3, fst s4, fst s5, fst s6, fst (snd s6)]"
    unfolding secp256k1_scalar_mul_512_def Let_def split_beta s0_def s1_def s2_def s3_def s4_def s5_def s6_def ..
  then show "length (secp256k1_scalar_mul_512 a b) = 8" by simp
  let ?m = "\<lambda>x y. uint x * uint y"
  have e0: "0 + ?m (sc0 a) (sc0 b) = uint (fst s0) + 2 ^ 64 * acc_val (snd s0) \<and> acc_le 0 (acc_val (snd s0)) (snd s0)"
    using fast_column [OF _ _ s0_def, of 0] product_le [of "sc0 a" "sc0 b"] by (simp add: acc_val_def)
  have e1: "acc_val (snd s0) + ?m (sc0 a) (sc1 b) + ?m (sc1 a) (sc0 b) = uint (fst s1) + 2 ^ 64 * acc_val (snd s1) \<and>
      acc_le 0 (acc_val (snd s1)) (snd s1)"
    unfolding s1_def by (rule acc_le_extract [OF acc_le_muladd [OF acc_le_muladd [OF e0 [THEN conjunct2]]]]) simp_all
  have e2: "acc_val (snd s1) + ?m (sc0 a) (sc2 b) + ?m (sc1 a) (sc1 b) + ?m (sc2 a) (sc0 b) =
      uint (fst s2) + 2 ^ 64 * acc_val (snd s2) \<and> acc_le 0 (acc_val (snd s2)) (snd s2)"
    unfolding s2_def
    by (rule acc_le_extract [OF acc_le_muladd [OF acc_le_muladd [OF acc_le_muladd [OF e1 [THEN conjunct2]]]]]) simp_all
  have e3: "acc_val (snd s2) + ?m (sc0 a) (sc3 b) + ?m (sc1 a) (sc2 b) + ?m (sc2 a) (sc1 b) + ?m (sc3 a) (sc0 b) =
      uint (fst s3) + 2 ^ 64 * acc_val (snd s3) \<and> acc_le 0 (acc_val (snd s3)) (snd s3)"
    unfolding s3_def
    by (rule acc_le_extract [OF acc_le_muladd [OF acc_le_muladd [OF acc_le_muladd [OF acc_le_muladd [OF e2 [THEN conjunct2]]]]]]) simp_all
  have e4: "acc_val (snd s3) + ?m (sc1 a) (sc3 b) + ?m (sc2 a) (sc2 b) + ?m (sc3 a) (sc1 b) =
      uint (fst s4) + 2 ^ 64 * acc_val (snd s4) \<and> acc_le 0 (acc_val (snd s4)) (snd s4)"
    unfolding s4_def
    by (rule acc_le_extract [OF acc_le_muladd [OF acc_le_muladd [OF acc_le_muladd [OF e3 [THEN conjunct2]]]]]) simp_all
  have e5: "acc_val (snd s4) + ?m (sc2 a) (sc3 b) + ?m (sc3 a) (sc2 b) = uint (fst s5) + 2 ^ 64 * acc_val (snd s5) \<and>
      acc_le 0 (acc_val (snd s5)) (snd s5)"
    unfolding s5_def by (rule acc_le_extract [OF acc_le_muladd [OF acc_le_muladd [OF e4 [THEN conjunct2]]]]) simp_all
  note c = columns_int [OF e0 [THEN conjunct1] e1 [THEN conjunct1] e2 [THEN conjunct1] e3 [THEN conjunct1] e4 [THEN conjunct1]
      e5 [THEN conjunct1], folded sc_val_base]
  have "sc_val a * sc_val b < 2 ^ 256 * 2 ^ 256" by (rule mult_strict_mono') (use sc_val_bounds in simp_all)
  then have l: "sc_val a * sc_val b < 2 ^ 512" by simp
  show "words_val (secp256k1_scalar_mul_512 a b) = sc_val a * sc_val b"
    unfolding r s6_def by (rule columns_end [OF c l refl])
qed

lemma sqr_512_spec: "words_val (secp256k1_scalar_sqr_512 a) = sc_val a * sc_val a" "length (secp256k1_scalar_sqr_512 a) = 8"
proof -
  define s0 where "s0 = extract_fast (muladd_fast (sc0 a) (sc0 a) (0, 0, 0 :: 32 word))"
  define s1 where "s1 = extract_word (muladd2 (sc0 a) (sc1 a) (snd s0))"
  define s2 where "s2 = extract_word (muladd (sc1 a) (sc1 a) (muladd2 (sc0 a) (sc2 a) (snd s1)))"
  define s3 where "s3 = extract_word (muladd2 (sc1 a) (sc2 a) (muladd2 (sc0 a) (sc3 a) (snd s2)))"
  define s4 where "s4 = extract_word (muladd (sc2 a) (sc2 a) (muladd2 (sc1 a) (sc3 a) (snd s3)))"
  define s5 where "s5 = extract_word (muladd2 (sc2 a) (sc3 a) (snd s4))"
  define s6 where "s6 = extract_fast (muladd_fast (sc3 a) (sc3 a) (snd s5))"
  have r: "secp256k1_scalar_sqr_512 a = [fst s0, fst s1, fst s2, fst s3, fst s4, fst s5, fst s6, fst (snd s6)]"
    unfolding secp256k1_scalar_sqr_512_def Let_def split_beta s0_def s1_def s2_def s3_def s4_def s5_def s6_def ..
  then show "length (secp256k1_scalar_sqr_512 a) = 8" by simp
  let ?m = "\<lambda>x y. uint x * uint y"
  have e0: "0 + ?m (sc0 a) (sc0 a) = uint (fst s0) + 2 ^ 64 * acc_val (snd s0) \<and> acc_le 0 (acc_val (snd s0)) (snd s0)"
    using fast_column [OF _ _ s0_def, of 0] product_le [of "sc0 a" "sc0 a"] by (simp add: acc_val_def)
  have e1: "acc_val (snd s0) + 2 * ?m (sc0 a) (sc1 a) = uint (fst s1) + 2 ^ 64 * acc_val (snd s1) \<and>
      acc_le 0 (acc_val (snd s1)) (snd s1)"
    unfolding s1_def by (rule acc_le_extract [OF acc_le_muladd2 [OF e0 [THEN conjunct2]]]) simp_all
  have e2: "acc_val (snd s1) + 2 * ?m (sc0 a) (sc2 a) + ?m (sc1 a) (sc1 a) = uint (fst s2) + 2 ^ 64 * acc_val (snd s2) \<and>
      acc_le 0 (acc_val (snd s2)) (snd s2)"
    unfolding s2_def by (rule acc_le_extract [OF acc_le_muladd [OF acc_le_muladd2 [OF e1 [THEN conjunct2]]]]) simp_all
  have e3: "acc_val (snd s2) + 2 * ?m (sc0 a) (sc3 a) + 2 * ?m (sc1 a) (sc2 a) = uint (fst s3) + 2 ^ 64 * acc_val (snd s3) \<and>
      acc_le 0 (acc_val (snd s3)) (snd s3)"
    unfolding s3_def by (rule acc_le_extract [OF acc_le_muladd2 [OF acc_le_muladd2 [OF e2 [THEN conjunct2]]]]) simp_all
  have e4: "acc_val (snd s3) + 2 * ?m (sc1 a) (sc3 a) + ?m (sc2 a) (sc2 a) = uint (fst s4) + 2 ^ 64 * acc_val (snd s4) \<and>
      acc_le 0 (acc_val (snd s4)) (snd s4)"
    unfolding s4_def by (rule acc_le_extract [OF acc_le_muladd [OF acc_le_muladd2 [OF e3 [THEN conjunct2]]]]) simp_all
  have e5: "acc_val (snd s4) + 2 * ?m (sc2 a) (sc3 a) = uint (fst s5) + 2 ^ 64 * acc_val (snd s5) \<and>
      acc_le 0 (acc_val (snd s5)) (snd s5)"
    unfolding s5_def by (rule acc_le_extract [OF acc_le_muladd2 [OF e4 [THEN conjunct2]]]) simp_all
  have c1: "acc_val (snd s0) + ?m (sc0 a) (sc1 a) + ?m (sc1 a) (sc0 a) = uint (fst s1) + 2 ^ 64 * acc_val (snd s1)"
    using e1 by (simp add: mult.commute)
  have c2: "acc_val (snd s1) + ?m (sc0 a) (sc2 a) + ?m (sc1 a) (sc1 a) + ?m (sc2 a) (sc0 a) = uint (fst s2) + 2 ^ 64 * acc_val (snd s2)"
    using e2 by (simp add: mult.commute)
  have c3: "acc_val (snd s2) + ?m (sc0 a) (sc3 a) + ?m (sc1 a) (sc2 a) + ?m (sc2 a) (sc1 a) + ?m (sc3 a) (sc0 a) = uint (fst s3) + 2 ^ 64 * acc_val (snd s3)"
    using e3 by (simp add: mult.commute)
  have c4: "acc_val (snd s3) + ?m (sc1 a) (sc3 a) + ?m (sc2 a) (sc2 a) + ?m (sc3 a) (sc1 a) = uint (fst s4) + 2 ^ 64 * acc_val (snd s4)"
    using e4 by (simp add: mult.commute)
  have c5: "acc_val (snd s4) + ?m (sc2 a) (sc3 a) + ?m (sc3 a) (sc2 a) = uint (fst s5) + 2 ^ 64 * acc_val (snd s5)"
    using e5 by (simp add: mult.commute)
  note P = columns_int [OF e0 [THEN conjunct1] c1 c2 c3 c4 c5, folded sc_val_base]
  have "sc_val a * sc_val a < 2 ^ 256 * 2 ^ 256" by (rule mult_strict_mono') (use sc_val_bounds in simp_all)
  then have l: "sc_val a * sc_val a < 2 ^ 512" by simp
  show "words_val (secp256k1_scalar_sqr_512 a) = sc_val a * sc_val a"
    unfolding r s6_def by (rule columns_end [OF P l refl])
qed

section \<open>Reduction modulo the order\<close>

lemma fold_mod: "(x + 2 ^ 256 * y) mod sc_n = (x + y * sc_c) mod sc_n"
proof -
  have "x + 2 ^ 256 * y = x + y * sc_c + sc_n * y" by (simp add: sc_n_def algebra_simps)
  then show ?thesis by (simp only: mod_mult_self2)
qed

lemma sc_c_words: "sc_c = uint SECP256K1_N_C_0 + 2 ^ 64 * (uint SECP256K1_N_C_1 + 2 ^ 64 * 1)"
  by (simp add: sc_c_def N_uint)

lemma acc_le_sumadd_fast:
  fixes c :: "'c::len acc"
  assumes "acc_le 0 V c"
  shows "acc_le 1 (V + uint a) (sumadd_fast a c)" "V + uint a < 2 ^ 128"
  using assms u64_bounds(2) [of a] sumadd_fast_val [of c a] unfolding acc_le_def by simp_all

lemma fold_int:
  fixes B c0 c1 l0 l1 l2 l3 n0 n1 n2 n3 m0 m1 m2 m3 m4 m5 V1 V2 V3 V4 V5 V6 :: int
  assumes "l0 + n0 * c0 = m0 + B * V1" "V1 + l1 + n1 * c0 + n0 * c1 = m1 + B * V2"
    "V2 + l2 + n2 * c0 + n1 * c1 + n0 = m2 + B * V3" "V3 + l3 + n3 * c0 + n2 * c1 + n1 = m3 + B * V4"
    "V4 + n3 * c1 + n2 = m4 + B * V5" "V5 + n3 = m5 + B * V6"
  shows "m0 + B * (m1 + B * (m2 + B * (m3 + B * (m4 + B * (m5 + B * V6))))) =
    l0 + B * (l1 + B * (l2 + B * l3)) + (n0 + B * (n1 + B * (n2 + B * n3))) * (c0 + B * (c1 + B * 1))"
proof -
  have l: "m0 = l0 + n0 * c0 - B * V1" "m1 = V1 + l1 + n1 * c0 + n0 * c1 - B * V2"
    "m2 = V2 + l2 + n2 * c0 + n1 * c1 + n0 - B * V3" "m3 = V3 + l3 + n3 * c0 + n2 * c1 + n1 - B * V4"
    "m4 = V4 + n3 * c1 + n2 - B * V5" "m5 = V5 + n3 - B * V6" using assms by linarith+
  show ?thesis unfolding l by algebra
qed

lemma words4: "words_val [a, b, c, d] = uint a + 2 ^ 64 * (uint b + 2 ^ 64 * (uint c + 2 ^ 64 * uint d))"
  by simp

lemma words6: "words_val [a, b, c, d, e, f] =
    uint a + 2 ^ 64 * (uint b + 2 ^ 64 * (uint c + 2 ^ 64 * (uint d + 2 ^ 64 * (uint e + 2 ^ 64 * uint f))))"
  by simp

lemma small_fast: "acc_val c \<le> 2 \<Longrightarrow> uint (fst c) = acc_val c" for c :: "'c::len acc"
  by (rule acc_low) simp

lemma uint_ucast_small: "uint (ucast x :: 'b::len word) = uint x" if "uint x < 2 ^ LENGTH('b)" for x :: "'a::len word"
  using that by (simp add: unsigned_ucast_eq take_bit_int_eq_self)

lemma reduce_385_spec:
  fixes l0 l1 l2 l3 n0 n1 n2 n3 :: "64 word"
  assumes "reduce_385 [l0, l1, l2, l3, n0, n1, n2, n3] = (m, m6)"
  shows "words_val m + 2 ^ 384 * uint m6 = words_val [l0, l1, l2, l3] + words_val [n0, n1, n2, n3] * sc_c"
    and "length m = 6" and "uint m6 \<le> 1"
proof -
  let ?c0 = SECP256K1_N_C_0 and ?c1 = SECP256K1_N_C_1
  define s0 where "s0 = extract_fast (muladd_fast n0 ?c0 (l0, 0, 0 :: 64 word))"
  define s1 where "s1 = extract_word (muladd n0 ?c1 (muladd n1 ?c0 (sumadd_fast l1 (snd s0))))"
  define s2 where "s2 = extract_word (sumadd n0 (muladd n1 ?c1 (muladd n2 ?c0 (sumadd l2 (snd s1)))))"
  define s3 where "s3 = extract_word (sumadd n1 (muladd n2 ?c1 (muladd n3 ?c0 (sumadd l3 (snd s2)))))"
  define s4 where "s4 = extract_word (sumadd n2 (muladd n3 ?c1 (snd s3)))"
  define s5 where "s5 = extract_fast (sumadd_fast n3 (snd s4))"
  have r: "m = [fst s0, fst s1, fst s2, fst s3, fst s4, fst s5]" "m6 = ucast (fst (snd s5))"
    using assms unfolding reduce_385_def Let_def split_beta s0_def s1_def s2_def s3_def s4_def s5_def
    by (simp_all add: eval_nat_numeral)
  then show "length m = 6" by simp
  let ?m = "\<lambda>x y. uint x * uint y"
  have e0: "uint l0 + ?m n0 ?c0 = uint (fst s0) + 2 ^ 64 * acc_val (snd s0) \<and> acc_le 0 (acc_val (snd s0)) (snd s0)"
    using fast_column [OF _ _ s0_def, of "uint l0"] product_le [of n0 ?c0] u64_bounds(2) [of l0] by (simp add: acc_val_def)
  have e1: "acc_val (snd s0) + uint l1 + ?m n1 ?c0 + ?m n0 ?c1 = uint (fst s1) + 2 ^ 64 * acc_val (snd s1) \<and>
      acc_le 0 (acc_val (snd s1)) (snd s1)"
    unfolding s1_def
    by (rule acc_le_extract [OF acc_le_muladd [OF acc_le_muladd [OF acc_le_sumadd_fast(1) [OF e0 [THEN conjunct2]]]]]) simp_all
  have e2: "acc_val (snd s1) + uint l2 + ?m n2 ?c0 + ?m n1 ?c1 + uint n0 = uint (fst s2) + 2 ^ 64 * acc_val (snd s2) \<and>
      acc_le 0 (acc_val (snd s2)) (snd s2)"
    unfolding s2_def
    by (rule acc_le_extract [OF acc_le_sumadd [OF acc_le_muladd [OF acc_le_muladd [OF acc_le_sumadd [OF e1 [THEN conjunct2]]]]]]) simp_all
  have e3: "acc_val (snd s2) + uint l3 + ?m n3 ?c0 + ?m n2 ?c1 + uint n1 = uint (fst s3) + 2 ^ 64 * acc_val (snd s3) \<and>
      acc_le 0 (acc_val (snd s3)) (snd s3)"
    unfolding s3_def
    by (rule acc_le_extract [OF acc_le_sumadd [OF acc_le_muladd [OF acc_le_muladd [OF acc_le_sumadd [OF e2 [THEN conjunct2]]]]]]) simp_all
  have e4: "acc_val (snd s3) + ?m n3 ?c1 + uint n2 = uint (fst s4) + 2 ^ 64 * acc_val (snd s4) \<and>
      acc_le 0 (acc_val (snd s4)) (snd s4)"
    unfolding s4_def by (rule acc_le_extract [OF acc_le_sumadd [OF acc_le_muladd [OF e3 [THEN conjunct2]]]]) simp_all
  note f5 = acc_le_sumadd_fast [OF e4 [THEN conjunct2], of n3]
  have e5: "acc_val (snd s4) + uint n3 = uint (fst s5) + 2 ^ 64 * acc_val (snd s5)"
    using acc_le_extract_fast [of "sumadd_fast n3 (snd s4)"] f5 unfolding s5_def acc_le_def by simp
  note M = fold_int [OF e0 [THEN conjunct1] e1 [THEN conjunct1] e2 [THEN conjunct1] e3 [THEN conjunct1] e4 [THEN conjunct1] e5,
      folded sc_c_words words4]
  have "words_val [l0, l1, l2, l3] < 2 ^ 256" "words_val [n0, n1, n2, n3] < 2 ^ 256"
    using words_val_less [of "[l0, l1, l2, l3]"] words_val_less [of "[n0, n1, n2, n3]"] by simp_all
  then have "words_val [l0, l1, l2, l3] + words_val [n0, n1, n2, n3] * sc_c < 2 ^ 385" unfolding sc_c_def by simp
  then have "acc_val (snd s5) < 2"
    unfolding M [symmetric]
    using drop_low [of "words_val [fst s0, fst s1, fst s2, fst s3, fst s4, fst s5]" 0 0 "2 ^ 384" "acc_val (snd s5)" 2]
      words_val_nonneg [of "[fst s0, fst s1, fst s2, fst s3, fst s4, fst s5]"] by simp
  moreover from this have f: "uint (fst (snd s5)) = acc_val (snd s5)" by (intro small_fast) simp
  ultimately have u: "uint m6 = acc_val (snd s5)" unfolding r(2) by (subst uint_ucast_small) simp_all
  show "uint m6 \<le> 1" using \<open>acc_val (snd s5) < 2\<close> unfolding u by simp
  show "words_val m + 2 ^ 384 * uint m6 = words_val [l0, l1, l2, l3] + words_val [n0, n1, n2, n3] * sc_c"
    unfolding u M [symmetric] r(1) by simp
qed

lemma fold2_int:
  fixes B c0 c1 m0 m1 m2 m3 m4 m5 m6 p0 p1 p2 p3 V1 V2 V3 V4 :: int
  assumes "m0 + m4 * c0 = p0 + B * V1" "V1 + m1 + m5 * c0 + m4 * c1 = p1 + B * V2"
    "V2 + m2 + m6 * c0 + m5 * c1 + m4 = p2 + B * V3" "V3 + m3 + m6 * c1 + m5 = p3 + B * V4"
  shows "p0 + B * (p1 + B * (p2 + B * (p3 + B * (V4 + m6)))) =
    m0 + B * (m1 + B * (m2 + B * m3)) + (m4 + B * (m5 + B * m6)) * (c0 + B * (c1 + B * 1))"
proof -
  have l: "p0 = m0 + m4 * c0 - B * V1" "p1 = V1 + m1 + m5 * c0 + m4 * c1 - B * V2"
    "p2 = V2 + m2 + m6 * c0 + m5 * c1 + m4 - B * V3" "p3 = V3 + m3 + m6 * c1 + m5 - B * V4" using assms by linarith+
  show ?thesis unfolding l by algebra
qed

lemma reduce_258_spec:
  fixes m0 m1 m2 m3 m4 m5 :: "64 word"
  assumes "reduce_258 ([m0, m1, m2, m3, m4, m5], m6) = (p, p4)" and m6: "uint m6 \<le> 1"
    and hi: "uint m4 + 2 ^ 64 * (uint m5 + 2 ^ 64 * uint m6) \<le> sc_c + 1"
  shows "words_val p + 2 ^ 256 * uint p4 = words_val [m0, m1, m2, m3] + (uint m4 + 2 ^ 64 * (uint m5 + 2 ^ 64 * uint m6)) * sc_c"
    and "length p = 4" and "uint p4 \<le> 2"
proof -
  let ?c0 = SECP256K1_N_C_0 and ?c1 = SECP256K1_N_C_1
  define s0 where "s0 = extract_fast (muladd_fast m4 ?c0 (m0, 0, 0 :: 64 word))"
  define s1 where "s1 = extract_word (muladd m4 ?c1 (muladd m5 ?c0 (sumadd_fast m1 (snd s0))))"
  define s2 where "s2 = extract_word (sumadd m4 (muladd m5 ?c1 (muladd (ucast m6) ?c0 (sumadd m2 (snd s1)))))"
  define c3 where "c3 = sumadd_fast m5 (muladd_fast (ucast m6) ?c1 (sumadd_fast m3 (snd s2)))"
  define s3 where "s3 = extract_fast c3"
  have r: "p = [fst s0, fst s1, fst s2, fst s3]" "p4 = ucast (fst (snd s3) + ucast m6)"
    using assms(1) unfolding reduce_258_def Let_def split_beta s0_def s1_def s2_def c3_def s3_def
    by (simp_all add: eval_nat_numeral)
  then show "length p = 4" by simp
  have u6: "uint (ucast m6 :: 64 word) = uint m6" using m6 by (intro uint_ucast_small) simp
  let ?m = "\<lambda>x y. uint x * uint y"
  have e0: "uint m0 + ?m m4 ?c0 = uint (fst s0) + 2 ^ 64 * acc_val (snd s0) \<and> acc_le 0 (acc_val (snd s0)) (snd s0)"
    using fast_column [OF _ _ s0_def, of "uint m0"] product_le [of m4 ?c0] u64_bounds(2) [of m0] by (simp add: acc_val_def)
  have e1: "acc_val (snd s0) + uint m1 + ?m m5 ?c0 + ?m m4 ?c1 = uint (fst s1) + 2 ^ 64 * acc_val (snd s1) \<and>
      acc_le 0 (acc_val (snd s1)) (snd s1)"
    unfolding s1_def
    by (rule acc_le_extract [OF acc_le_muladd [OF acc_le_muladd [OF acc_le_sumadd_fast(1) [OF e0 [THEN conjunct2]]]]]) simp_all
  have e2: "acc_val (snd s1) + uint m2 + ?m m6 ?c0 + ?m m5 ?c1 + uint m4 = uint (fst s2) + 2 ^ 64 * acc_val (snd s2) \<and>
      acc_le 0 (acc_val (snd s2)) (snd s2)"
    unfolding s2_def u6 [symmetric]
    by (rule acc_le_extract [OF acc_le_sumadd [OF acc_le_muladd [OF acc_le_muladd [OF acc_le_sumadd [OF e1 [THEN conjunct2]]]]]]) simp_all
  have b: "acc_val (snd s2) \<le> 0x40000000000000000" using e2 unfolding acc_le_def by simp
  have q: "?m m6 ?c1 \<le> 2 ^ 64" using m6 u64_bounds(2) [of ?c1] mult_mono [OF m6 u64_bounds(2) [of ?c1]] by simp
  have v: "acc_val c3 = acc_val (snd s2) + uint m3 + ?m m6 ?c1 + uint m5" "acc_val c3 < 2 ^ 128"
    using b q u64_bounds(2) [of m3] u64_bounds(2) [of m5]
    unfolding c3_def u6 [symmetric] by (simp_all add: sumadd_fast_val muladd_fast_val)
  have e3: "acc_val (snd s2) + uint m3 + ?m m6 ?c1 + uint m5 = uint (fst s3) + 2 ^ 64 * acc_val (snd s3)"
    using acc_le_extract_fast [OF v(2)] unfolding v(1) s3_def by simp
  note M = fold2_int [OF e0 [THEN conjunct1] e1 [THEN conjunct1] e2 [THEN conjunct1] e3, folded sc_c_words words4]
  have "words_val [m0, m1, m2, m3] < 2 ^ 256" using words_val_less [of "[m0, m1, m2, m3]"] by simp
  moreover have "(uint m4 + 2 ^ 64 * (uint m5 + 2 ^ 64 * uint m6)) * sc_c \<le> (sc_c + 1) * sc_c"
    using hi by (rule mult_right_mono) (simp add: sc_c_def)
  ultimately have "words_val [m0, m1, m2, m3] + (uint m4 + 2 ^ 64 * (uint m5 + 2 ^ 64 * uint m6)) * sc_c < 2 ^ 256 * 3"
    unfolding sc_c_def by simp
  then have lt: "acc_val (snd s3) + uint m6 < 3"
    unfolding M [symmetric]
    using drop_low [of "words_val [fst s0, fst s1, fst s2, fst s3]" 0 0 "2 ^ 256" "acc_val (snd s3) + uint m6" 3]
      words_val_nonneg [of "[fst s0, fst s1, fst s2, fst s3]"] by simp
  then have "acc_val (snd s3) \<le> 2" using uint_ge_0 [of m6] by linarith
  then have "uint (fst (snd s3)) = acc_val (snd s3)" by (rule small_fast)
  then have "uint (fst (snd s3) + ucast m6) = acc_val (snd s3) + uint m6" using lt u6 by (subst u64_add) simp_all
  then have u: "uint p4 = acc_val (snd s3) + uint m6" unfolding r(2) using lt by (subst uint_ucast_small) simp_all
  show "uint p4 \<le> 2" unfolding u using lt by simp
  show "words_val p + 2 ^ 256 * uint p4 = words_val [m0, m1, m2, m3] + (uint m4 + 2 ^ 64 * (uint m5 + 2 ^ 64 * uint m6)) * sc_c"
    unfolding u M [symmetric] r(1) by simp
qed

lemma reduce_512_chain: "secp256k1_scalar_reduce_512 l =
    (let (p, p4) = reduce_258 (reduce_385 l);
         (r, c) = sc_chain (w128 (p ! 0) + w128 SECP256K1_N_C_0 * ucast p4) (w128 (p ! 1) + w128 SECP256K1_N_C_1 * ucast p4)
           (w128 (p ! 2) + ucast p4) (w128 (p ! 3))
     in secp256k1_scalar_reduce r (ucast (drop_bit 64 c + of_bool (secp256k1_scalar_check_overflow r))))"
  unfolding secp256k1_scalar_reduce_512_def sc_chain_def Let_def prod.case ..

lemma list4: "length p = 4 \<Longrightarrow> p = [p ! 0, p ! 1, p ! 2, p ! 3]"
  by (cases p; simp add: numeral_eq_Suc length_Suc_conv) auto

lemma list6: "length p = 6 \<Longrightarrow> \<exists>a b c d e f. p = [a, b, c, d, e, f]"
  by (auto simp: numeral_eq_Suc length_Suc_conv)

lemma list8: "length p = 8 \<Longrightarrow> \<exists>a b c d e f g h. p = [a, b, c, d, e, f, g, h]"
  by (auto simp: numeral_eq_Suc length_Suc_conv)

lemma reduce_512_spec:
  assumes "length l = 8"
  shows "sc_val (secp256k1_scalar_reduce_512 l) = words_val l mod sc_n"
proof -
  obtain l0 l1 l2 l3 n0 n1 n2 n3 where l: "l = [l0, l1, l2, l3, n0, n1, n2, n3]" using list8 [OF assms] by blast
  obtain m m6 where m: "reduce_385 l = (m, m6)" by fastforce
  note R = reduce_385_spec [OF m [unfolded l]]
  obtain m0 m1 m2 m3 m4 m5 where mm: "m = [m0, m1, m2, m3, m4, m5]" using list6 [OF R(2)] by blast
  obtain p p4 where p: "reduce_258 (m, m6) = (p, p4)" by fastforce
  let ?hi = "uint m4 + 2 ^ 64 * (uint m5 + 2 ^ 64 * uint m6)"
  have M: "words_val [m0, m1, m2, m3] + 2 ^ 256 * ?hi = words_val [l0, l1, l2, l3] + words_val [n0, n1, n2, n3] * sc_c"
    using R(1) unfolding mm by simp
  have w: "words_val [l0, l1, l2, l3] < 2 ^ 256" "words_val [n0, n1, n2, n3] < 2 ^ 256"
    using words_val_less [of "[l0, l1, l2, l3]"] words_val_less [of "[n0, n1, n2, n3]"] by simp_all
  have "L + N * sc_c < 2 ^ 256 * (sc_c + 2)" if "L < 2 ^ 256" "N < 2 ^ 256" for L N :: int
    using that by (simp add: sc_c_def)
  from this [OF w, folded M] have "words_val [m0, m1, m2, m3] + 0 * 0 + 2 ^ 256 * ?hi < 2 ^ 256 * (sc_c + 2)"
    by (simp only: mult_zero_left add_0_right)
  then have "?hi < sc_c + 2" by (rule drop_low) (use words_val_nonneg [of "[m0, m1, m2, m3]"] in simp_all)
  then have hi: "?hi \<le> sc_c + 1" by simp
  note P = reduce_258_spec [OF p [unfolded mm] R(3) hi]
  let ?W = "words_val p + uint p4 * sc_c"
  have u4: "uint (ucast p4 :: 128 word) = uint p4" using P(3) by (intro uint_ucast_small) simp
  have t: "uint (w128 SECP256K1_N_C_0 * ucast p4) = uint SECP256K1_N_C_0 * uint p4"
    "uint (w128 SECP256K1_N_C_1 * ucast p4) = uint SECP256K1_N_C_1 * uint p4"
    using P(3) by (intro uint_mul128; simp add: u4 N_uint)+
  have w0: "uint (w128 (p ! 0) + w128 SECP256K1_N_C_0 * ucast p4) = uint (p ! 0) + uint SECP256K1_N_C_0 * uint p4"
    using t P(3) u64_bounds(2) [of "p ! 0"] by (intro uint_add128) (simp_all add: N_uint)
  have w1: "uint (w128 (p ! 1) + w128 SECP256K1_N_C_1 * ucast p4) = uint (p ! 1) + uint SECP256K1_N_C_1 * uint p4"
    using t P(3) u64_bounds(2) [of "p ! 1"] by (intro uint_add128) (simp_all add: N_uint)
  have w2: "uint (w128 (p ! 2) + ucast p4) = uint (p ! 2) + uint p4"
    using u4 P(3) u64_bounds(2) [of "p ! 2"] by (intro uint_add128) simp_all
  obtain r c where ch: "sc_chain (w128 (p ! 0) + w128 SECP256K1_N_C_0 * ucast p4) (w128 (p ! 1) + w128 SECP256K1_N_C_1 * ucast p4)
           (w128 (p ! 2) + ucast p4) (w128 (p ! 3)) = (r, c)" by fastforce
  have lt: "uint (w128 (p ! 0) + w128 SECP256K1_N_C_0 * ucast p4) < 2 ^ 127" "uint (w128 (p ! 1) + w128 SECP256K1_N_C_1 * ucast p4) < 2 ^ 127"
    "uint (w128 (p ! 2) + ucast p4) < 2 ^ 127" "uint (w128 (p ! 3)) < 2 ^ 127"
    unfolding w0 w1 w2 using P(3) u64_bounds(2) [of "p ! 0"] u64_bounds(2) [of "p ! 1"] u64_bounds(2) [of "p ! 2"] u64_bounds(2) [of "p ! 3"]
    by (simp_all add: N_uint)
  have W: "uint (w128 (p ! 0) + w128 SECP256K1_N_C_0 * ucast p4) + 2 ^ 64 * uint (w128 (p ! 1) + w128 SECP256K1_N_C_1 * ucast p4) +
      2 ^ 128 * uint (w128 (p ! 2) + ucast p4) + 2 ^ 192 * uint (w128 (p ! 3)) = ?W"
    unfolding w0 w1 w2 uint_w128 by (subst (5) list4 [OF P(2)]) (simp add: sc_c_words algebra_simps)
  note k = sc_chain_mod [OF lt W, unfolded ch fst_conv snd_conv]
  have Wb: "0 \<le> ?W" "?W < 2 * sc_n"
    using words_val_nonneg [of p] words_val_less [of p] P(2,3) mult_right_mono [OF P(3), of sc_c]
    by (simp_all add: sc_n_def sc_c_def)
  have s: "sc_val r + 2 ^ 256 * (?W div 2 ^ 256) = ?W" unfolding k(1) by simp
  have d: "0 \<le> ?W div 2 ^ 256" using Wb(1) by (simp add: pos_imp_zdiv_nonneg_iff)
  have "sc_val (secp256k1_scalar_reduce_512 l) = ?W mod sc_n"
    unfolding reduce_512_chain m p Let_def prod.case ch by (rule reduce_carry(1) [OF s d Wb(2) k(2)])
  also have "\<dots> = (words_val p + 2 ^ 256 * uint p4) mod sc_n" by (rule fold_mod [symmetric])
  also have "\<dots> = (words_val [m0, m1, m2, m3] + 2 ^ 256 * ?hi) mod sc_n" unfolding P(1) by (rule fold_mod [symmetric])
  also have "\<dots> = (words_val [l0, l1, l2, l3] + 2 ^ 256 * words_val [n0, n1, n2, n3]) mod sc_n" unfolding M by (rule fold_mod [symmetric])
  also have "words_val [l0, l1, l2, l3] + 2 ^ 256 * words_val [n0, n1, n2, n3] = words_val l" unfolding l by simp
  finally show ?thesis .
qed

lemma mul_spec: "sc_val (secp256k1_scalar_mul a b) = sc_val a * sc_val b mod sc_n"
  unfolding secp256k1_scalar_mul_def by (simp add: reduce_512_spec mul_512_spec)

lemma sqr_spec: "sc_val (secp256k1_scalar_sqr a) = sc_val a * sc_val a mod sc_n"
  unfolding secp256k1_scalar_sqr_def by (simp add: reduce_512_spec sqr_512_spec)

section \<open>Negation and tests\<close>

lemma sc_val_make: "sc_val (sc_make a b c d) = uint a + 2 ^ 64 * uint b + 2 ^ 128 * uint c + 2 ^ 192 * uint d"
  by (simp add: sc_val_def)

lemma sc_val_zero [simp]: "sc_val (sc_make 0 0 0 0) = 0" "sc_val (sc_make 1 0 0 0) = 1"
  by (simp_all add: sc_val_make)

lemma is_zero_iff: "secp256k1_scalar_is_zero a \<longleftrightarrow> sc_val a = 0"
proof -
  have "secp256k1_scalar_is_zero a \<longleftrightarrow> a = sc_make 0 0 0 0"
    by (cases a) (auto simp: secp256k1_scalar_is_zero_def or_zero_iff sc_make_def)
  then show ?thesis using sc_val_inj [of a "sc_make 0 0 0 0"] by simp
qed

lemma xor_zero_iff: "(x XOR y) = 0 \<longleftrightarrow> x = y" for x y :: "'a::len word"
  by (auto simp: bit_eq_iff bit_simps)

lemma is_one_iff: "secp256k1_scalar_is_one a \<longleftrightarrow> sc_val a = 1"
proof -
  have "secp256k1_scalar_is_one a \<longleftrightarrow> a = sc_make 1 0 0 0"
    by (cases a) (auto simp: secp256k1_scalar_is_one_def or_zero_iff xor_zero_iff sc_make_def)
  then show ?thesis using sc_val_inj [of a "sc_make 1 0 0 0"] by simp
qed

lemma eq_iff: "secp256k1_scalar_eq a b \<longleftrightarrow> a = b"
  by (cases a; cases b) (auto simp: secp256k1_scalar_eq_def or_zero_iff xor_zero_iff)

lemma is_even_iff: "secp256k1_scalar_is_even a \<longleftrightarrow> even (sc_val a)"
proof -
  have "sc0 a AND 1 = 0 \<longleftrightarrow> even (uint (sc0 a))" 
    using uint_and_mask [of "sc0 a" 1] by (simp add: word_uint_eq_iff even_iff_mod_2_eq_zero)
  moreover have "even (sc_val a) \<longleftrightarrow> even (uint (sc0 a))" by (simp add: sc_val_def)
  ultimately show ?thesis by (simp add: secp256k1_scalar_is_even_def)
qed

lemma uint_not: "uint (NOT x) = 2 ^ 64 - 1 - uint x" for x :: "64 word"
proof -
  have "uint (- 1 - x) = uint (- 1 :: 64 word) - uint x"
    by (subst uint_sub_lem [symmetric]) (use u64_bounds(2) [of x] in \<open>simp add: unsigned_minus_1_eq_mask mask_eq_exp_minus_1\<close>)
  moreover have "NOT x = - 1 - x" by (simp add: not_eq_complement)
  ultimately show ?thesis by (simp only: unsigned_minus_1_eq_mask mask_eq_exp_minus_1 len_num1 len_num0 len_bit0)
    simp
qed

lemma w64_zero [simp]: "w64 0 = 0"
  by (simp add: w64_def)

lemma minus_one_word: "- 1 = (0xFFFFFFFFFFFFFFFF :: 64 word)"
  by (rule word_uint_eqI) (simp add: unsigned_minus_1_eq_mask mask_eq_exp_minus_1)

definition negate_chain :: "secp256k1_scalar \<Rightarrow> secp256k1_scalar" where
  "negate_chain a = fst (sc_chain (w128 (NOT (sc0 a)) + w128 SECP256K1_N_0 + 1) (w128 (NOT (sc1 a)) + w128 SECP256K1_N_1)
     (w128 (NOT (sc2 a)) + w128 SECP256K1_N_2) (w128 (NOT (sc3 a)) + w128 SECP256K1_N_3))"

lemma negate_chain_spec: "sc_ok a \<Longrightarrow> sc_val a \<noteq> 0 \<Longrightarrow> sc_val (negate_chain a) = sc_n - sc_val a"
proof -
  assume a: "sc_ok a" "sc_val a \<noteq> 0"
  have w0: "uint (w128 (NOT (sc0 a)) + w128 SECP256K1_N_0 + 1) = uint (NOT (sc0 a)) + uint SECP256K1_N_0 + 1"
    using u64_bounds(2) [of "NOT (sc0 a)"] by (intro uint_add128) (simp_all add: w128_add N_uint)
  have lt: "uint (w128 (NOT (sc0 a)) + w128 SECP256K1_N_0 + 1) < 2 ^ 127"
    unfolding w0 N_uint using u64_bounds(2) [of "NOT (sc0 a)"] by simp
  have "sc_val (negate_chain a) = (sc_n - sc_val a + 2 ^ 256) mod 2 ^ 256"
    unfolding negate_chain_def
    by (rule sc_chain_mod(1) [OF lt w128_sum(1) w128_sum(1) w128_sum(1)])
      (simp add: w0 w128_add uint_not N_uint sc_val_def sc_n_def sc_c_def)
  also have "\<dots> = sc_n - sc_val a"
    by (rule mod_shift) (use a sc_val_bounds [of a] sc_n_bounds in \<open>simp_all add: sc_ok_def\<close>)
  finally show ?thesis .
qed

lemma negate_eq: "secp256k1_scalar_negate a = (if sc_val a = 0 then sc_make 0 0 0 0 else negate_chain a)"
proof (cases "sc_val a = 0")
  case True
  then show ?thesis by (simp add: secp256k1_scalar_negate_def Let_def is_zero_iff w128_def)
next
  case False
  then have "w128 (0xFFFFFFFFFFFFFFFF * of_bool (\<not> secp256k1_scalar_is_zero a)) = sc_M" by (simp add: is_zero_iff w128_def)
  then show ?thesis using False
    by (simp only: secp256k1_scalar_negate_def negate_chain_def sc_chain_def Let_def fst_conv if_False)
qed

lemma negate_spec: "sc_ok a \<Longrightarrow> sc_val (secp256k1_scalar_negate a) = (- sc_val a) mod sc_n"
proof -
  assume a: "sc_ok a"
  show ?thesis
  proof (cases "sc_val a = 0")
    case False
    have "(- sc_val a) mod sc_n = (sc_n - sc_val a) mod sc_n" by simp
    also have "\<dots> = sc_n - sc_val a" using a False sc_val_bounds(1) [of a] by (intro mod_pos_pos_trivial) (simp_all add: sc_ok_def)
    finally show ?thesis using a False by (simp add: negate_eq negate_chain_spec)
  qed (simp add: negate_eq)
qed

lemma cond_negate_eq: "secp256k1_scalar_cond_negate r flag = (if flag then (secp256k1_scalar_negate r, - 1) else (r, 1))"
proof (cases flag)
  case True
  have z: "w128 (of_bool (secp256k1_scalar_is_zero r) - 1) = (if sc_val r = 0 then 0 else sc_M)"
    by (simp add: is_zero_iff w128_def minus_one_word)
  have n: "SECP256K1_N_0 + 1 AND - 1 = SECP256K1_N_0 + 1" "x XOR - 1 = NOT x" for x :: "64 word"
    by (simp_all add: bit_eq_iff bit_simps)
  have o: "w128 (NOT (sc0 r)) + w128 (SECP256K1_N_0 + 1) = w128 (NOT (sc0 r)) + w128 SECP256K1_N_0 + 1"
    by (simp add: w128_def N_defs)
  show ?thesis
  proof (cases "sc_val r = 0")
    case True
    then show ?thesis using \<open>flag\<close> z by (simp add: secp256k1_scalar_cond_negate_def Let_def negate_eq)
  next
    case False
    then show ?thesis using \<open>flag\<close>
      by (simp add: secp256k1_scalar_cond_negate_def Let_def z n o negate_eq negate_chain_def sc_chain_def)
  qed
next
  case False
  have c: "fst (sc_chain (w128 (sc0 r) + w128 0) (w128 (sc1 r) + w128 0) (w128 (sc2 r) + w128 0) (w128 (sc3 r) + w128 0)) = r"
  proof -
    have "sc_val (fst (sc_chain (w128 (sc0 r) + w128 0) (w128 (sc1 r) + w128 0) (w128 (sc2 r) + w128 0) (w128 (sc3 r) + w128 0))) =
        sc_val r mod 2 ^ 256"
      by (rule sc_chain_mod(1) [OF w128_sum(1) w128_sum(1) w128_sum(1) w128_sum(1)]) (simp add: w128_add sc_val_def)
    then show ?thesis using sc_val_bounds [of r] by (simp add: sc_val_inj)
  qed
  have z: "w128 (of_bool (secp256k1_scalar_is_zero r) - 1) = (if sc_val r = 0 then 0 else sc_M)"
    by (simp add: is_zero_iff w128_def minus_one_word)
  show ?thesis
  proof (cases "sc_val r = 0")
    case True
    then have "r = sc_make 0 0 0 0" using sc_val_inj [of r "sc_make 0 0 0 0"] by simp
    then show ?thesis using False z by (simp add: secp256k1_scalar_cond_negate_def Let_def)
  next
    case nz: False
    then show ?thesis using False c unfolding sc_chain_def Let_def fst_conv
      by (simp add: secp256k1_scalar_cond_negate_def Let_def z)
  qed
qed

lemma is_high_iff: "secp256k1_scalar_is_high a \<longleftrightarrow> sc_n < 2 * sc_val a"
proof -
  note b = u64_bounds [of "sc0 a"] u64_bounds [of "sc1 a"] u64_bounds [of "sc2 a"] u64_bounds [of "sc3 a"]
  have n: "uint SECP256K1_N_H_0 = 0xDFE92F46681B20A0" "uint SECP256K1_N_H_1 = 0x5D576E7357A4501D"
    "uint SECP256K1_N_H_2 = 0xFFFFFFFFFFFFFFFF" "uint SECP256K1_N_H_3 = 0x7FFFFFFFFFFFFFFF"
    by (simp_all add: SECP256K1_N_H_0_def SECP256K1_N_H_1_def SECP256K1_N_H_2_def SECP256K1_N_H_3_def)
  have "secp256k1_scalar_is_high a \<longleftrightarrow> 0x7FFFFFFFFFFFFFFF < uint (sc3 a) \<or> uint (sc3 a) = 0x7FFFFFFFFFFFFFFF \<and>
      uint (sc2 a) = 0xFFFFFFFFFFFFFFFF \<and> (0x5D576E7357A4501D < uint (sc1 a) \<or>
        uint (sc1 a) = 0x5D576E7357A4501D \<and> 0xDFE92F46681B20A0 < uint (sc0 a))"
    using b unfolding secp256k1_scalar_is_high_def Let_def word_less_def word_le_def n by auto
  also have "\<dots> \<longleftrightarrow> sc_n < 2 * sc_val a"
    using b unfolding sc_val_def sc_n_def sc_c_def by (simp, linarith?)
  finally show ?thesis .
qed
section \<open>Properties\<close>

text \<open>
  C34: addition and negation of scalars below the order of the curve are exact modulo the order,
  the addition's flag tells whether the order was taken off, and both results are again below
  the order.
\<close>

theorem scalar_addition_and_negation_exact:
  assumes "sc_ok a" and "sc_ok b"
  shows "sc_val (fst (secp256k1_scalar_add a b)) = (sc_val a + sc_val b) mod sc_n \<and>
    (snd (secp256k1_scalar_add a b) \<longleftrightarrow> sc_n \<le> sc_val a + sc_val b) \<and>
    sc_val (secp256k1_scalar_negate a) = (- sc_val a) mod sc_n \<and>
    sc_ok (fst (secp256k1_scalar_add a b)) \<and> sc_ok (secp256k1_scalar_negate a)"
  using add_spec [OF assms] negate_spec [OF assms(1)] ok_mod [of "secp256k1_scalar_negate a"] ok_mod [of "fst (secp256k1_scalar_add a b)"]
  by blast

theorem scalar_addition_and_negation_exact_witness:
  "sc_val (fst (secp256k1_scalar_add (sc_make 5 0 0 0) (sc_make 7 0 0 0))) = 12 mod sc_n \<and>
   \<not> snd (secp256k1_scalar_add (sc_make 5 0 0 0) (sc_make 7 0 0 0)) \<and>
   sc_val (secp256k1_scalar_negate (sc_make 5 0 0 0)) = (- 5) mod sc_n"
proof -
  have "sc_ok (sc_make 5 0 0 0)" "sc_ok (sc_make 7 0 0 0)" by (simp_all add: sc_ok_def sc_val_make sc_n_def sc_c_def)
  from scalar_addition_and_negation_exact [OF this] show ?thesis
    by (simp add: sc_val_make) (simp add: sc_n_def sc_c_def)
qed

text \<open>
  C35: the product of any two 256-bit values is exact: 512-bit column sums in three words, folded
  three times, give the product modulo the order, below the order; no carry is lost on the way.
\<close>

theorem scalar_multiplication_exact:
  "sc_val (secp256k1_scalar_mul a b) = sc_val a * sc_val b mod sc_n \<and> sc_ok (secp256k1_scalar_mul a b)"
  using mul_spec [of a b] ok_mod [OF mul_spec, of a b] by blast

text \<open>
  The squaring routine, which doubles the mixed products of its columns, computes the same
  limbs as the multiplication of a scalar by itself.
\<close>

lemma scalar_squaring_is_self_multiplication: "secp256k1_scalar_sqr a = secp256k1_scalar_mul a a"
  by (simp add: sc_val_inj [symmetric] mul_spec sqr_spec)

end
