(* ===== verification/ScalarImpl.thy ===== *)
theory ScalarImpl
  imports Scalar Hmac Uint256
begin

text \<open>
  Scalars as bytes, and the operations of \<open>secp256k1/src/scalar_impl.h\<close> and of the C++ class
  \<open>Scalar\<close> (\<open>secp256k1/src/cpp/Scalar.cpp\<close>) over the limb arithmetic of theory \<open>Scalar\<close>:
  the inverse by an addition chain, the split for the endomorphism, exponentiation, encoding,
  decoding and hashing. The class throws \<open>std::runtime_error\<close>; here these are the left values of \<open>res\<close>.
\<close>

section \<open>Big-endian bytes\<close>

text \<open>The number that bytes denote, the most significant first.\<close>

definition be_val :: "bytes \<Rightarrow> int" where
  "be_val bs = horner_sum uint 256 (rev bs)"

lemma be_val_simps [simp]: "be_val [] = 0" "be_val (bs @ [b]) = uint b + 256 * be_val bs"
  by (simp_all add: be_val_def)

lemma be_val_append: "be_val (xs @ ys) = 2 ^ (8 * length ys) * be_val xs + be_val ys"
  by (simp add: be_val_def horner_sum_append power_mult)

lemma be_val_nonneg: "0 \<le> be_val bs"
  by (induction bs rule: rev_induct) simp_all

lemma be_val_less: "be_val bs < 2 ^ (8 * length bs)"
proof (induction bs rule: rev_induct)
  case (snoc b bs)
  have "uint b < 256" using uint_lt2p [of b] by simp
  then show ?case using snoc by (simp add: power_add)
qed simp

lemma digit_split:
  fixes a b x y :: int
  assumes "0 \<le> a" "a < 256" "0 \<le> b" "b < 256"
  shows "a + 256 * x = b + 256 * y \<longleftrightarrow> a = b \<and> x = y"
proof
  assume e: "a + 256 * x = b + 256 * y"
  have "(a + 256 * x) mod 256 = a" "(b + 256 * y) mod 256 = b" using assms by simp_all
  then show "a = b \<and> x = y" using e by simp
qed simp

lemma be_val_inj: "length xs = length ys \<Longrightarrow> be_val xs = be_val ys \<longleftrightarrow> xs = ys"
proof (induction xs arbitrary: ys rule: rev_induct)
  case (snoc x xs)
  obtain y zs where ys: "ys = zs @ [y]" "length zs = length xs"
    using snoc.prems by (metis length_append_singleton length_Suc_conv_rev)
  have b: "uint x < 256" "uint y < 256" using uint_lt2p [of x] uint_lt2p [of y] by simp_all
  have "uint x + 256 * be_val xs = uint y + 256 * be_val zs \<longleftrightarrow> uint x = uint y \<and> be_val xs = be_val zs"
    using digit_split [OF uint_ge_0 b(1) uint_ge_0 b(2)] .
  then show ?case using snoc.IH [of zs] ys by (auto simp: word_uint_eq_iff)
qed simp

lemma or_push:
  fixes x :: "64 word" and y :: byte
  assumes "uint x < 2 ^ n" "n + 8 \<le> 64"
  shows "uint (x OR push_bit n (ucast y)) = uint x + 2 ^ n * uint y"
proof -
  have low: "take_bit n x = x"
    by (rule word_uint_eqI) (use assms(1) in \<open>simp add: unsigned_take_bit_eq take_bit_int_eq_self\<close>)
  have high: "\<not> bit x k" if "n \<le> k" for k
    using that low bit_take_bit_iff [of n x k] by simp
  have "x AND push_bit n (ucast y) = 0"
    using high by (auto intro!: bit_word_eqI simp: bit_simps)
  then have "x OR push_bit n (ucast y) = x + push_bit n (ucast y)"
    by (simp add: disjunctive_add_eq_or)
  moreover have "uint (push_bit n (ucast y :: 64 word)) = 2 ^ n * uint y"
  proof -
    have "uint y < 2 ^ 8" using uint_lt2p [of y] by simp
    then have "2 ^ n * uint y < 2 ^ n * 2 ^ 8" by simp
    also have "2 ^ n * 2 ^ 8 \<le> (2 :: int) ^ 64" using assms(2) power_increasing [of "n + 8" 64 "2 :: int"] by (simp add: power_add)
    finally have lt: "2 ^ n * uint y < 2 ^ 64" .
    have "uint (ucast y :: 64 word) = uint y"
      by (rule uint_ucast_small) (use uint_lt2p [of y] in simp)
    then have "uint (push_bit n (ucast y :: 64 word)) = 2 ^ n * uint y mod 2 ^ 64"
      unfolding unsigned_push_bit_eq by (simp add: push_bit_eq_mult take_bit_eq_mod mult.commute)
    then show ?thesis using lt by simp
  qed
  moreover have "uint x + 2 ^ n * uint y < 2 ^ 64"
  proof -
    have "2 ^ n * uint y \<le> 2 ^ n * 255" using uint_lt2p [of y] by simp
    moreover have "(2 :: int) ^ n * 256 \<le> 2 ^ 64" using assms(2) power_increasing [of "n + 8" 64 "2 :: int"] by (simp add: power_add)
    moreover have "X + Y < Z" if "X < P" "Y \<le> P * 255" "P * 256 \<le> Z" for X Y Z P :: int using that by linarith
    ultimately show ?thesis using assms(1) by blast
  qed
  ultimately show ?thesis by (simp add: u64_add)
qed

lemma uint_be_limb:
  "uint (be_limb b i) = uint (b ! (i + 7)) + 2 ^ 8 * uint (b ! (i + 6)) + 2 ^ 16 * uint (b ! (i + 5)) + 2 ^ 24 * uint (b ! (i + 4)) +
     2 ^ 32 * uint (b ! (i + 3)) + 2 ^ 40 * uint (b ! (i + 2)) + 2 ^ 48 * uint (b ! (i + 1)) + 2 ^ 56 * uint (b ! i)"
proof -
  have 0: "uint (ucast (b ! (i + 7)) :: 64 word) = uint (b ! (i + 7))"
    by (rule uint_ucast_small) (use uint_lt2p [of "b ! (i + 7)"] in simp)
  have lt: "uint x < 256" for x :: byte using uint_lt2p [of x] by simp
  show ?thesis
    unfolding be_limb_def or.assoc [symmetric]
    using lt [of "b ! (i + 7)"] lt [of "b ! (i + 6)"] lt [of "b ! (i + 5)"] lt [of "b ! (i + 4)"]
      lt [of "b ! (i + 3)"] lt [of "b ! (i + 2)"] lt [of "b ! (i + 1)"]
    by (simp add: or_push 0)
qed

lemma bytes_of_8: "i + 8 \<le> length b \<Longrightarrow>
  take 8 (drop i b) = [b ! i, b ! (i + 1), b ! (i + 2), b ! (i + 3), b ! (i + 4), b ! (i + 5), b ! (i + 6), b ! (i + 7)]"
  by (rule nth_equalityI) (auto simp: less_Suc_eq numeral_eq_Suc)

lemma be_limb_val: "i + 8 \<le> length b \<Longrightarrow> uint (be_limb b i) = be_val (take 8 (drop i b))"
  by (simp add: bytes_of_8 uint_be_limb be_val_def)

lemma byte_of_limb: "uint (ucast (drop_bit k d) :: byte) = uint d div 2 ^ k mod 256" for d :: "64 word"
  by (simp add: unsigned_ucast_eq take_bit_eq_mod uint_drop)

lemma eight_digits:
  fixes v :: int
  assumes "0 \<le> v" "v < 2 ^ 64"
  shows "v mod 256 + 256 * (v div 2 ^ 8 mod 256 + 256 * (v div 2 ^ 16 mod 256 + 256 * (v div 2 ^ 24 mod 256 +
    256 * (v div 2 ^ 32 mod 256 + 256 * (v div 2 ^ 40 mod 256 + 256 * (v div 2 ^ 48 mod 256 + 256 * (v div 2 ^ 56 mod 256))))))) = v"
proof -
  have step: "v div 2 ^ k mod 256 + 256 * (v div 2 ^ l) = v div 2 ^ k" if "l = k + 8" for k l
  proof -
    have "v div 2 ^ l = v div 2 ^ k div 256" unfolding that power_add by (subst zdiv_zmult2_eq) simp_all
    then show ?thesis by simp
  qed
  have 6: "v div 2 ^ 48 mod 256 + 256 * (v div 2 ^ 56) = v div 2 ^ 48" by (rule step) simp
  have 5: "v div 2 ^ 40 mod 256 + 256 * (v div 2 ^ 48) = v div 2 ^ 40" by (rule step) simp
  have 4: "v div 2 ^ 32 mod 256 + 256 * (v div 2 ^ 40) = v div 2 ^ 32" by (rule step) simp
  have 3: "v div 2 ^ 24 mod 256 + 256 * (v div 2 ^ 32) = v div 2 ^ 24" by (rule step) simp
  have 2: "v div 2 ^ 16 mod 256 + 256 * (v div 2 ^ 24) = v div 2 ^ 16" by (rule step) simp
  have 1: "v div 2 ^ 8 mod 256 + 256 * (v div 2 ^ 16) = v div 2 ^ 8" by (rule step) simp
  have 0: "v mod 256 + 256 * (v div 2 ^ 8) = v" by simp
  have 7: "v div 2 ^ 56 mod 256 = v div 2 ^ 56" using assms by simp
  show ?thesis unfolding 7 6 5 4 3 2 1 0 ..
qed

lemma limb_be_val: "be_val (limb_be d) = uint d" "length (limb_be d) = 8"
proof -
  have "uint d < 2 ^ 64" using uint_lt2p [of d] by simp
  then show "be_val (limb_be d) = uint d"
    using eight_digits [OF uint_ge_0, of d] byte_of_limb [of 0 d]
    by (simp add: limb_be_def be_val_def byte_of_limb)
qed (simp add: limb_be_def)

lemma get_b32_val [simp]: "be_val (secp256k1_scalar_get_b32 a) = sc_val a" "length (secp256k1_scalar_get_b32 a) = 32"
  by (simp_all add: secp256k1_scalar_get_b32_def be_val_append limb_be_val sc_val_def)

lemma raw_b32_val:
  assumes "length b = 32"
  shows "sc_val (sc_make (be_limb b 24) (be_limb b 16) (be_limb b 8) (be_limb b 0)) = be_val b"
proof -
  have "b = take 8 b @ take 8 (drop 8 b) @ take 8 (drop 16 b) @ take 8 (drop 24 b)"
    using append_take_drop_id [of 8 b] append_take_drop_id [of 8 "drop 8 b"] append_take_drop_id [of 8 "drop 16 b"] assms by simp
  then have "be_val b = be_val (take 8 b @ take 8 (drop 8 b) @ take 8 (drop 16 b) @ take 8 (drop 24 b))" by simp
  then show ?thesis using assms by (simp add: be_val_append sc_val_make be_limb_val)
qed

text \<open>Thirty-two bytes are read as their value modulo the order; the flag tells whether that changed it.\<close>

lemma set_b32_spec:
  assumes "length b = 32"
  shows "snd (secp256k1_scalar_set_b32 b) \<longleftrightarrow> sc_n \<le> be_val b"
    and "sc_val (fst (secp256k1_scalar_set_b32 b)) = be_val b mod sc_n"
proof -
  let ?r = "sc_make (be_limb b 24) (be_limb b 16) (be_limb b 8) (be_limb b 0)"
  show "snd (secp256k1_scalar_set_b32 b) \<longleftrightarrow> sc_n \<le> be_val b"
    by (simp add: secp256k1_scalar_set_b32_def Let_def check_overflow_iff raw_b32_val [OF assms])
  show "sc_val (fst (secp256k1_scalar_set_b32 b)) = be_val b mod sc_n"
    unfolding secp256k1_scalar_set_b32_def Let_def fst_conv reduce_once [OF sc_val_double] raw_b32_val [OF assms] ..
qed

section \<open>The inverse\<close>

text \<open>The blocks of the second half: so many squarings of \<open>t\<close>, then a product.\<close>

definition scalar_block :: "nat \<times> secp256k1_scalar \<Rightarrow> secp256k1_scalar \<Rightarrow> secp256k1_scalar" where
  "scalar_block jy t = secp256k1_scalar_mul ((secp256k1_scalar_sqr ^^ fst jy) t) (snd jy)"

definition secp256k1_scalar_inverse :: "secp256k1_scalar \<Rightarrow> secp256k1_scalar" where
  "secp256k1_scalar_inverse x =
     (let x2 = secp256k1_scalar_mul (secp256k1_scalar_sqr x) x;
          x3 = secp256k1_scalar_mul (secp256k1_scalar_sqr x2) x;
          x4 = secp256k1_scalar_mul (secp256k1_scalar_sqr x3) x;
          x6 = secp256k1_scalar_mul (secp256k1_scalar_sqr (secp256k1_scalar_sqr x4)) x2;
          x7 = secp256k1_scalar_mul (secp256k1_scalar_sqr x6) x;
          x8 = secp256k1_scalar_mul (secp256k1_scalar_sqr x7) x;
          x15 = secp256k1_scalar_mul ((secp256k1_scalar_sqr ^^ 6) (secp256k1_scalar_sqr x8)) x7;
          x30 = secp256k1_scalar_mul ((secp256k1_scalar_sqr ^^ 14) (secp256k1_scalar_sqr x15)) x15;
          x60 = secp256k1_scalar_mul ((secp256k1_scalar_sqr ^^ 29) (secp256k1_scalar_sqr x30)) x30;
          x120 = secp256k1_scalar_mul ((secp256k1_scalar_sqr ^^ 59) (secp256k1_scalar_sqr x60)) x60;
          x127 = secp256k1_scalar_mul ((secp256k1_scalar_sqr ^^ 6) (secp256k1_scalar_sqr x120)) x7
      in fold scalar_block
    [(2, x), (4, x3), (2, x), (2, x), (2, x), (4, x3), (3, x2), (4, x3), (5, x3), (4, x2), (2, x), (2,
     x), (5, x4), (2, x), (3, x), (4, x), (2, x), (10, x3), (4, x3), (9, x8), (2, x), (3, x), (3, x), (5,
     x4), (2, x), (5, x2), (4, x2), (2, x), (8, x2), (3, x2), (3, x), (6, x), (8, x6)] x127)"

definition secp256k1_scalar_inverse_var :: "secp256k1_scalar \<Rightarrow> secp256k1_scalar" where
  "secp256k1_scalar_inverse_var x = secp256k1_scalar_inverse x"

interpretation sc_products: residue_products secp256k1_scalar_mul secp256k1_scalar_sqr sc_val "\<lambda>_. True" sc_n
  by unfold_locales (simp_all add: mul_spec sqr_spec)

abbreviation spw :: "secp256k1_scalar \<Rightarrow> nat \<Rightarrow> secp256k1_scalar \<Rightarrow> bool" where
  "spw \<equiv> power_of sc_val (\<lambda>_. True) sc_n"

lemma spw_blocks:
  "list_all2 (\<lambda>jy jf. fst jy = fst jf \<and> spw a (snd jf) (snd jy)) bs fs \<Longrightarrow> spw a e t \<Longrightarrow>
   spw a (fold (\<lambda>jf e. 2 ^ fst jf * e + snd jf) fs e) (fold scalar_block bs t)"
proof (induction bs fs arbitrary: t e rule: list_all2_induct)
  case (Cons b bs f fs)
  then have "spw a (2 ^ fst f * e + snd f) (scalar_block b t)"
    unfolding scalar_block_def by (auto intro: sc_products.power_block)
  then show ?case using Cons.IH by simp
qed simp

lemma inverse_exponent:
  "fold (\<lambda>jf e. 2 ^ fst jf * e + snd jf)
    [(2, 1), (4, 7), (2, 1), (2, 1), (2, 1), (4, 7), (3, 3), (4, 7), (5, 7), (4, 3), (2, 1), (2, 1), (5,
     15), (2, 1), (3, 1), (4, 1), (2, 1), (10, 7), (4, 7), (9, 255), (2, 1), (3, 1), (3, 1), (5, 15), (2,
     1), (5, 3), (4, 3), (2, 1), (8, 3), (3, 3), (3, 1), (6, 1), (8, 63)]
    (2 ^ 127 - 1) = nat (sc_n - 2)"
  by (simp add: sc_n_def sc_c_def)

lemma inverse_power: "spw x (nat (sc_n - 2)) (secp256k1_scalar_inverse x)"
proof -
  define x2 where "x2 = secp256k1_scalar_mul (secp256k1_scalar_sqr x) x"
  define x3 where "x3 = secp256k1_scalar_mul (secp256k1_scalar_sqr x2) x"
  define x4 where "x4 = secp256k1_scalar_mul (secp256k1_scalar_sqr x3) x"
  define x6 where "x6 = secp256k1_scalar_mul (secp256k1_scalar_sqr (secp256k1_scalar_sqr x4)) x2"
  define x7 where "x7 = secp256k1_scalar_mul (secp256k1_scalar_sqr x6) x"
  define x8 where "x8 = secp256k1_scalar_mul (secp256k1_scalar_sqr x7) x"
  define x15 where "x15 = secp256k1_scalar_mul ((secp256k1_scalar_sqr ^^ 6) (secp256k1_scalar_sqr x8)) x7"
  define x30 where "x30 = secp256k1_scalar_mul ((secp256k1_scalar_sqr ^^ 14) (secp256k1_scalar_sqr x15)) x15"
  define x60 where "x60 = secp256k1_scalar_mul ((secp256k1_scalar_sqr ^^ 29) (secp256k1_scalar_sqr x30)) x30"
  define x120 where "x120 = secp256k1_scalar_mul ((secp256k1_scalar_sqr ^^ 59) (secp256k1_scalar_sqr x60)) x60"
  define x127 where "x127 = secp256k1_scalar_mul ((secp256k1_scalar_sqr ^^ 6) (secp256k1_scalar_sqr x120)) x7"
  have 1: "spw x 1 x" by (rule sc_products.power_one) simp
  note steps = sc_products.power_mul sc_products.power_sqr sc_products.power_sqrs
  have x2: "spw x (3) x2"
    unfolding x2_def by (rule sc_products.power_mul [OF sc_products.power_sqr [OF 1 refl] 1]) simp
  have x3: "spw x (7) x3"
    unfolding x3_def by (rule sc_products.power_mul [OF sc_products.power_sqr [OF x2 refl] 1]) simp
  have x4: "spw x (15) x4"
    unfolding x4_def by (rule sc_products.power_mul [OF sc_products.power_sqr [OF x3 refl] 1]) simp
  have x6: "spw x (63) x6"
    unfolding x6_def by (rule sc_products.power_mul [OF sc_products.power_sqr [OF sc_products.power_sqr [OF x4 refl] refl] x2]) simp
  have x7: "spw x (127) x7"
    unfolding x7_def by (rule sc_products.power_mul [OF sc_products.power_sqr [OF x6 refl] 1]) simp
  have x8: "spw x (255) x8"
    unfolding x8_def by (rule sc_products.power_mul [OF sc_products.power_sqr [OF x7 refl] 1]) simp
  have x15: "spw x (2 ^ 15 - 1) x15"
    unfolding x15_def by (rule sc_products.power_mul [OF sc_products.power_sqrs [OF sc_products.power_sqr [OF x8 refl] refl] x7]) simp
  have x30: "spw x (2 ^ 30 - 1) x30"
    unfolding x30_def by (rule sc_products.power_mul [OF sc_products.power_sqrs [OF sc_products.power_sqr [OF x15 refl] refl] x15]) simp
  have x60: "spw x (2 ^ 60 - 1) x60"
    unfolding x60_def by (rule sc_products.power_mul [OF sc_products.power_sqrs [OF sc_products.power_sqr [OF x30 refl] refl] x30]) simp
  have x120: "spw x (2 ^ 120 - 1) x120"
    unfolding x120_def by (rule sc_products.power_mul [OF sc_products.power_sqrs [OF sc_products.power_sqr [OF x60 refl] refl] x60]) simp
  have x127: "spw x (2 ^ 127 - 1) x127"
    unfolding x127_def by (rule sc_products.power_mul [OF sc_products.power_sqrs [OF sc_products.power_sqr [OF x120 refl] refl] x7]) simp
  have "secp256k1_scalar_inverse x = fold scalar_block
    [(2, x), (4, x3), (2, x), (2, x), (2, x), (4, x3), (3, x2), (4, x3), (5, x3), (4, x2), (2, x), (2,
     x), (5, x4), (2, x), (3, x), (4, x), (2, x), (10, x3), (4, x3), (9, x8), (2, x), (3, x), (3, x), (5,
     x4), (2, x), (5, x2), (4, x2), (2, x), (8, x2), (3, x2), (3, x), (6, x), (8, x6)] x127"
    unfolding secp256k1_scalar_inverse_def Let_def
    unfolding x2_def x3_def x4_def x6_def x7_def x8_def x15_def x30_def x60_def x120_def x127_def ..
  also have "spw x (fold (\<lambda>jf e. 2 ^ fst jf * e + snd jf)
    [(2, 1), (4, 7), (2, 1), (2, 1), (2, 1), (4, 7), (3, 3), (4, 7), (5, 7), (4, 3), (2, 1), (2, 1), (5,
     15), (2, 1), (3, 1), (4, 1), (2, 1), (10, 7), (4, 7), (9, 255), (2, 1), (3, 1), (3, 1), (5, 15), (2,
     1), (5, 3), (4, 3), (2, 1), (8, 3), (3, 3), (3, 1), (6, 1), (8, 63)]
    (2 ^ 127 - 1)) \<dots>"
    by (rule spw_blocks [OF _ x127]) (simp add: 1 [simplified] x2 x3 x4 x6 x8)
  finally show ?thesis unfolding inverse_exponent .
qed

lemma inverse_ok: "sc_ok (secp256k1_scalar_inverse x)"
  unfolding secp256k1_scalar_inverse_def Let_def fold.simps comp_apply scalar_block_def id_apply
  by (rule ok_mod [OF mul_spec])

section \<open>Shifts\<close>

lemma div_less: "x < q * p \<Longrightarrow> 0 < p \<Longrightarrow> x div p < q" for x p q :: int
proof (rule ccontr)
  assume a: "x < q * p" "0 < p" "\<not> x div p < q"
  then have "q * p \<le> x div p * p" by (intro mult_right_mono) simp_all
  also have "x div p * p = x - x mod p" by (rule minus_mod_eq_div_mult [symmetric])
  also have "\<dots> \<le> x" using a(2) by simp
  finally show False using a(1) by simp
qed

text \<open>A limb of the result takes its high bits from the next limb.\<close>

lemma shift_limb:
  fixes x y :: "64 word"
  assumes "0 < n" "n < 64"
  shows "uint (drop_bit n x + push_bit (64 - n) y) = uint x div 2 ^ n + 2 ^ (64 - n) * (uint y mod 2 ^ n)"
    and "drop_bit n x OR push_bit (64 - n) y = drop_bit n x + push_bit (64 - n) y"
proof -
  have p: "(2 :: int) ^ 64 = 2 ^ (64 - n) * 2 ^ n" using assms by (simp only: power_add [symmetric]) simp
  have "uint x div 2 ^ n < 2 ^ (64 - n)"
    by (rule div_less) (use uint_lt2p [of x] p in simp_all)
  then have d: "uint (drop_bit n x) < 2 ^ (64 - n)" by (simp add: uint_drop)
  have u: "uint (push_bit (64 - n) y) = 2 ^ (64 - n) * (uint y mod 2 ^ n)"
  proof -
    have "2 ^ (64 - n) * uint y mod (2 ^ (64 - n) * 2 ^ n) = 2 ^ (64 - n) * (uint y mod 2 ^ n)"
      by (rule mult_mod_right [symmetric])
    then show ?thesis unfolding unsigned_push_bit_eq p [symmetric] by (simp add: push_bit_eq_mult take_bit_eq_mod mult.commute)
  qed
  have "bit (drop_bit n x) k \<Longrightarrow> \<not> bit (push_bit (64 - n) y) k" for k
    using assms bit_imp_le_length [of x "n + k"] by (auto simp: bit_simps)
  then have "drop_bit n x AND push_bit (64 - n) y = 0"
    by (intro bit_word_eqI) (auto simp: bit_and_iff)
  then show "drop_bit n x OR push_bit (64 - n) y = drop_bit n x + push_bit (64 - n) y"
    by (simp add: disjunctive_add_eq_or)
  have "uint y mod 2 ^ n + 1 \<le> 2 ^ n" by (rule zless_imp_add1_zle) simp
  then have "2 ^ (64 - n) * (uint y mod 2 ^ n + 1) \<le> 2 ^ (64 - n) * 2 ^ n" by (intro mult_left_mono) simp_all
  then have "uint (drop_bit n x) + 2 ^ (64 - n) * (uint y mod 2 ^ n) < 2 ^ 64"
    using d unfolding p by (simp add: distrib_left)
  then show "uint (drop_bit n x + push_bit (64 - n) y) = uint x div 2 ^ n + 2 ^ (64 - n) * (uint y mod 2 ^ n)"
    using u by (subst u64_add) (simp_all add: uint_drop)
qed

lemma shift_limbs:
  fixes s0 s1 s2 s3 p q :: int
  assumes "p * q = 2 ^ 64" "0 < p"
  shows "(s0 + 2 ^ 64 * s1 + 2 ^ 128 * s2 + 2 ^ 192 * s3) div p =
    (s0 div p + q * (s1 mod p)) + 2 ^ 64 * (s1 div p + q * (s2 mod p)) + 2 ^ 128 * (s2 div p + q * (s3 mod p)) + 2 ^ 192 * (s3 div p)"
proof -
  have m: "s1 = p * (s1 div p) + s1 mod p" "s2 = p * (s2 div p) + s2 mod p" "s3 = p * (s3 div p) + s3 mod p" by simp_all
  have w: "(2 :: int) ^ 128 = 2 ^ 64 * (p * q)" "(2 :: int) ^ 192 = 2 ^ 128 * (p * q)" unfolding assms by simp_all
  define t1 t2 t3 where "t1 = s1 mod p" and "t2 = s2 mod p" and "t3 = s3 mod p"
  define d1 d2 d3 where "d1 = s1 div p" and "d2 = s2 div p" and "d3 = s3 div p"
  have e: "s0 + 2 ^ 64 * s1 + 2 ^ 128 * s2 + 2 ^ 192 * s3 =
      s0 + p * (q * t1 + 2 ^ 64 * (d1 + q * t2) + 2 ^ 128 * (d2 + q * t3) + 2 ^ 192 * d3)"
    using m w assms(1) unfolding t1_def [symmetric] t2_def [symmetric] t3_def [symmetric] d1_def [symmetric] d2_def [symmetric] d3_def [symmetric]
    by algebra
  show ?thesis unfolding e using assms(2) by (simp add: t1_def t2_def t3_def d1_def d2_def d3_def)
qed

lemma shr_int_spec:
  assumes "0 < n" "n < 16"
  shows "sc_val (fst (secp256k1_scalar_shr_int r n)) = sc_val r div 2 ^ n"
    and "uint (snd (secp256k1_scalar_shr_int r n)) = sc_val r mod 2 ^ n"
proof -
  have "(2 :: int) ^ n * 2 ^ (64 - n) = 2 ^ 64" using assms by (simp only: power_add [symmetric]) simp
  from shift_limbs [OF this, of "uint (sc0 r)" "uint (sc1 r)" "uint (sc2 r)" "uint (sc3 r)"]
  show "sc_val (fst (secp256k1_scalar_shr_int r n)) = sc_val r div 2 ^ n"
    using assms by (simp add: secp256k1_scalar_shr_int_def sc_val_make shift_limb uint_drop sc_val_def)
  have "push_bit n 1 - 1 = (mask n :: 32 word)" by (simp add: mask_eq_exp_minus_1)
  then have "(ucast (push_bit n 1 - 1 :: 32 word) :: 64 word) = mask n"
    using assms by (auto intro!: bit_word_eqI simp: bit_simps)
  moreover have "uint (sc0 r) mod 2 ^ n < 2 ^ 32"
  proof -
    have "uint (sc0 r) mod 2 ^ n < 2 ^ n" by simp
    also have "(2 :: int) ^ n \<le> 2 ^ 32" using assms by (intro power_increasing) simp_all
    finally show ?thesis .
  qed
  ultimately have "uint (snd (secp256k1_scalar_shr_int r n)) = uint (sc0 r) mod 2 ^ n"
    by (simp add: secp256k1_scalar_shr_int_def uint_ucast_small uint_and_mask)
  moreover have "sc_val r mod 2 ^ n = uint (sc0 r) mod 2 ^ n"
  proof -
    have "(2 :: int) ^ n dvd 2 ^ 64" using assms by (intro le_imp_power_dvd) simp
    then obtain k where k: "(2 :: int) ^ 64 = 2 ^ n * k" by (rule dvdE)
    have "sc_val r = uint (sc0 r) + 2 ^ 64 * (uint (sc1 r) + 2 ^ 64 * uint (sc2 r) + 2 ^ 128 * uint (sc3 r))"
      by (simp add: sc_val_def)
    then show ?thesis unfolding k mult.assoc by simp
  qed
  ultimately show "uint (snd (secp256k1_scalar_shr_int r n)) = sc_val r mod 2 ^ n" by simp
qed

section \<open>The split for the endomorphism\<close>

text \<open>\<open>secp256k1_scalar_split_lambda\<close> with its constants; the results are \<open>r1\<close> and \<open>r2\<close>.\<close>

definition minus_lambda :: secp256k1_scalar where
  "minus_lambda = SECP256K1_SCALAR_CONST 0xAC9C52B3 0x3FA3CF1F 0x5AD9E3FD 0x77ED9BA4 0xA880B9FC 0x8EC739C2 0xE0CFC810 0xB51283CF"
definition minus_b1 :: secp256k1_scalar where
  "minus_b1 = SECP256K1_SCALAR_CONST 0 0 0 0 0xE4437ED6 0x010E8828 0x6F547FA9 0x0ABFE4C3"
definition minus_b2 :: secp256k1_scalar where
  "minus_b2 = SECP256K1_SCALAR_CONST 0xFFFFFFFF 0xFFFFFFFF 0xFFFFFFFF 0xFFFFFFFE 0x8A280AC5 0x0774346D 0xD765CDA8 0x3DB1562C"
definition g1 :: secp256k1_scalar where
  "g1 = SECP256K1_SCALAR_CONST 0 0 0 0x00003086 0xD221A7D4 0x6BCDE86C 0x90E49284 0xEB153DAB"
definition g2 :: secp256k1_scalar where
  "g2 = SECP256K1_SCALAR_CONST 0 0 0 0x0000E443 0x7ED6010E 0x88286F54 0x7FA90ABF 0xE4C42212"

definition secp256k1_scalar_split_lambda :: "secp256k1_scalar \<Rightarrow> secp256k1_scalar \<times> secp256k1_scalar" where
  "secp256k1_scalar_split_lambda a =
     (let c1 = secp256k1_scalar_mul_shift_var a g1 272;
          c2 = secp256k1_scalar_mul_shift_var a g2 272;
          c1 = secp256k1_scalar_mul c1 minus_b1;
          c2 = secp256k1_scalar_mul c2 minus_b2;
          r2 = fst (secp256k1_scalar_add c1 c2);
          r1 = secp256k1_scalar_mul r2 minus_lambda;
          r1 = fst (secp256k1_scalar_add r1 a)
      in (r1, r2))"

text \<open>The numbers of the comment above the function.\<close>

definition sc_lambda :: int where "sc_lambda = 0x5363ad4cc05c30e0a5261c028812645a122e22ea20816678df02967c1b23bd72"
definition lat_a1 :: int where "lat_a1 = 0x3086d221a7d46bcde86c90e49284eb15"
definition lat_b1 :: int where "lat_b1 = - 0xe4437ed6010e88286f547fa90abfe4c3"
definition lat_a2 :: int where "lat_a2 = 0x0114ca50f7a8e2f3f657c1108d9d44cfd8"
definition lat_b2 :: int where "lat_b2 = 0x3086d221a7d46bcde86c90e49284eb15"

lemma const_val:
  "sc_val (SECP256K1_SCALAR_CONST d7 d6 d5 d4 d3 d2 d1 d0) = uint d0 + 2 ^ 32 * uint d1 + 2 ^ 64 * uint d2 + 2 ^ 96 * uint d3 +
     2 ^ 128 * uint d4 + 2 ^ 160 * uint d5 + 2 ^ 192 * uint d6 + 2 ^ 224 * uint d7"
proof -
  have w: "uint (push_bit 32 (ucast x) OR ucast y :: 64 word) = uint y + 2 ^ 32 * uint x" for x y :: "32 word"
  proof -
    have high: "\<not> bit y k" if "32 \<le> k" for k
      using that bit_imp_le_length [of y k] by auto
    have "push_bit 32 (ucast x) AND (ucast y :: 64 word) = 0"
      by (auto intro!: bit_word_eqI simp: bit_simps high)
    then have "push_bit 32 (ucast x) OR (ucast y :: 64 word) = push_bit 32 (ucast x) + ucast y"
      by (simp add: disjunctive_add_eq_or)
    moreover have lt: "uint x < 2 ^ 32" "uint y < 2 ^ 32" using uint_lt2p [of x] uint_lt2p [of y] by simp_all
    moreover have "uint (ucast y :: 64 word) = uint y" "uint (ucast x :: 64 word) = uint x"
      using lt by (simp_all add: uint_ucast_small)
    moreover from this have "uint (push_bit 32 (ucast x :: 64 word)) = 2 ^ 32 * uint x"
      unfolding unsigned_push_bit_eq using lt by (simp add: push_bit_eq_mult take_bit_eq_mod)
    ultimately show ?thesis by (simp add: u64_add)
  qed
  show ?thesis by (simp add: SECP256K1_SCALAR_CONST_def sc_val_make w)
qed

lemma split_const_vals:
  "sc_val minus_lambda = sc_n - sc_lambda" "sc_val minus_b1 = - lat_b1" "sc_val minus_b2 = sc_n - lat_b2"
  "sc_val g1 = 0x3086D221A7D46BCDE86C90E49284EB153DAB" "sc_val g2 = 0xE4437ED6010E88286F547FA90ABFE4C42212"
  by (simp_all add: minus_lambda_def minus_b1_def minus_b2_def g1_def g2_def const_val sc_n_def sc_c_def sc_lambda_def lat_b1_def lat_b2_def)

lemma lattice_identities:
  "lat_a1 + lat_b1 * sc_lambda = sc_n * - 0x4a5ac2bf7b5f37f9f1db10d7a2a9c981" "lat_a2 + lat_b2 * sc_lambda = sc_n * 0xfce9b1dd4eb7dd2718a2906787061b2"
  "sc_lambda * sc_lambda + sc_lambda + 1 = sc_n * 0x1b29c92f436961feda2d80bf0132192d742f75b6e07a478c03a79ce97fce2f77"
  "lat_a1 * lat_b2 - lat_b1 * lat_a2 = sc_n"
  unfolding lat_a1_def lat_b1_def lat_a2_def lat_b2_def sc_lambda_def sc_n_def sc_c_def by simp_all

lemma cadd_bit_0: "sc_val (secp256k1_scalar_cadd_bit r 0 (of_bool f)) = (sc_val r + of_bool f) mod 2 ^ 256"
proof -
  have b: "0 + ((of_bool f - 1) AND 0x100) = (if f then 0 else 0x100 :: 32 word)" by simp
  have m: "unat ((if f then 0 else 0x100 :: 32 word) AND 0x3F) = 0" by simp
  have d: "drop_bit 6 (if f then 0 else 0x100 :: 32 word) = (if f then 0 else 4)" by (simp add: drop_bit_eq_div)
  have "secp256k1_scalar_cadd_bit r 0 (of_bool f) =
      fst (sc_chain (w128 (sc0 r) + w128 (of_bool f)) (w128 (sc1 r) + w128 0) (w128 (sc2 r) + w128 0) (w128 (sc3 r) + w128 0))"
    unfolding secp256k1_scalar_cadd_bit_def sc_chain_def Let_def fst_conv b m d by simp
  also have "sc_val \<dots> = (sc_val r + of_bool f) mod 2 ^ 256"
    by (rule sc_chain_mod(1) [OF w128_sum(1) w128_sum(1) w128_sum(1) w128_sum(1)])
      (simp only: w128_add, simp add: sc_val_def)
  finally show ?thesis .
qed

lemma round_half:
  fixes x p :: int
  assumes "0 < p"
  shows "(x + p) div (p * 2) = x div (p * 2) + x div p mod 2"
proof -
  define q where "q = x div p"
  have "(x + p) div p = q + 1" unfolding q_def by (rule div_add_self2) (use assms in simp)
  moreover have "(q + 1) div 2 = q div 2 + q mod 2" by presburger
  ultimately show ?thesis unfolding q_def by (simp add: zdiv_zmult2_eq)
qed

lemma low_div: "0 \<le> b \<Longrightarrow> b < p \<Longrightarrow> (b + p * t) div p = t" for b p t :: int
  by simp

text \<open>The rounded product by 272 bits: the four upper words of the product, shifted, and the bit below.\<close>

lemma words8: "words_val [l0, l1, l2, l3, l4, l5, l6, l7] =
    sc_val (sc_make l0 l1 l2 l3) + 2 ^ 256 * sc_val (sc_make l4 l5 l6 l7)"
  unfolding words_val.simps sc_val_make by algebra

lemma upper_words: "words_val [l0, l1, l2, l3, l4, l5, l6, l7] div 2 ^ 256 = sc_val (sc_make l4 l5 l6 l7)"
  unfolding words8 by (rule low_div) (rule sc_val_bounds)+

lemma upper_div: "0 < p \<Longrightarrow> words_val [l0, l1, l2, l3, l4, l5, l6, l7] div (2 ^ 256 * p) = sc_val (sc_make l4 l5 l6 l7) div p"
  by (subst zdiv_zmult2_eq) (simp_all only: upper_words order.strict_implies_order)

lemma upper_bit: "sc_val (sc_make l4 l5 l6 l7) div 2 ^ 15 mod 2 = of_bool (bit l4 15)"
proof -
  have "sc_val (sc_make l4 l5 l6 l7) = uint l4 + 2 ^ 15 * (2 * (2 ^ 48 * uint l5 + 2 ^ 112 * uint l6 + 2 ^ 176 * uint l7))"
    by (simp add: sc_val_make)
  also have "\<dots> div 2 ^ 15 = uint l4 div 2 ^ 15 + 2 * (2 ^ 48 * uint l5 + 2 ^ 112 * uint l6 + 2 ^ 176 * uint l7)"
    by (subst div_mult_self2) simp_all
  finally have "sc_val (sc_make l4 l5 l6 l7) div 2 ^ 15 mod 2 = uint l4 div 2 ^ 15 mod 2"
    by (simp only: mod_mult_self2)
  moreover have "bit l4 15 \<longleftrightarrow> odd (uint l4 div 2 ^ 15)"
    using bit_uint_iff [of l4 15] bit_iff_odd [of "uint l4" 15] by simp
  ultimately show ?thesis by (simp add: mod2_eq_if of_bool_def)
qed

definition shift_272 :: "64 word \<Rightarrow> 64 word \<Rightarrow> 64 word \<Rightarrow> 64 word \<Rightarrow> secp256k1_scalar" where
  "shift_272 l4 l5 l6 l7 = sc_make (drop_bit 16 l4 OR push_bit 48 l5) (drop_bit 16 l5 OR push_bit 48 l6)
     (drop_bit 16 l6 OR push_bit 48 l7) (drop_bit 16 l7)"

lemma shift_272_val: "sc_val (shift_272 l4 l5 l6 l7) = sc_val (sc_make l4 l5 l6 l7) div 2 ^ 16"
proof -
  have h: "uint (drop_bit 16 x OR push_bit 48 y) = uint x div 2 ^ 16 + 2 ^ 48 * (uint y mod 2 ^ 16)" for x y :: "64 word"
    using shift_limb [of 16 x y] by simp
  show ?thesis unfolding shift_272_def sc_val_make h uint_drop by (rule shift_limbs [symmetric]) simp_all
qed

lemma mul_shift_eq: "secp256k1_scalar_mul_512 a b = [l0, l1, l2, l3, l4, l5, l6, l7] \<Longrightarrow>
  secp256k1_scalar_mul_shift_var a b 272 = secp256k1_scalar_cadd_bit (shift_272 l4 l5 l6 l7) 0 (of_bool (bit l4 15))"
proof -
  have "(ucast (drop_bit 15 l4 AND 1) :: 32 word) = of_bool (bit l4 15)"
    by (auto intro!: bit_word_eqI simp: bit_simps)
  then show "secp256k1_scalar_mul_512 a b = [l0, l1, l2, l3, l4, l5, l6, l7] \<Longrightarrow>
    secp256k1_scalar_mul_shift_var a b 272 = secp256k1_scalar_cadd_bit (shift_272 l4 l5 l6 l7) 0 (of_bool (bit l4 15))"
    by (simp add: secp256k1_scalar_mul_shift_var_def Let_def shift_272_def)
qed

lemma mul_shift_272: "sc_val (secp256k1_scalar_mul_shift_var a b 272) = (sc_val a * sc_val b + 2 ^ 271) div 2 ^ 272"
proof -
  obtain l0 l1 l2 l3 l4 l5 l6 l7 where l: "secp256k1_scalar_mul_512 a b = [l0, l1, l2, l3, l4, l5, l6, l7]"
    using list8 [OF mul_512_spec(2)] by blast
  let ?L = "sc_val a * sc_val b" and ?T = "sc_val (sc_make l4 l5 l6 l7)"
  have L: "words_val [l0, l1, l2, l3, l4, l5, l6, l7] = ?L" using mul_512_spec(1) [of a b] unfolding l .
  have p: "(2 :: int) ^ 271 = 2 ^ 256 * 2 ^ 15" "(2 :: int) ^ 272 = 2 ^ 256 * 2 ^ 16" "(2 :: int) ^ 272 = 2 ^ 271 * 2" by simp_all
  have "(?L + 2 ^ 271) div 2 ^ 272 = ?L div 2 ^ 272 + ?L div 2 ^ 271 mod 2"
    unfolding p(3) by (rule round_half) simp
  also have "\<dots> = ?T div 2 ^ 16 + ?T div 2 ^ 15 mod 2"
    unfolding p(1,2) L [symmetric] by (simp only: upper_div zero_less_power zero_less_numeral)
  finally have e: "(?L + 2 ^ 271) div 2 ^ 272 = ?T div 2 ^ 16 + of_bool (bit l4 15)" unfolding upper_bit .
  have "?T div 2 ^ 16 < 2 ^ 240" by (rule div_less) (use sc_val_bounds(2) [of "sc_make l4 l5 l6 l7"] in simp_all)
  moreover have "0 \<le> ?T div 2 ^ 16" unfolding shift_272_val [symmetric] by (rule sc_val_bounds)
  moreover have "of_bool (bit l4 15) \<le> (1 :: int)" "0 \<le> (of_bool (bit l4 15) :: int)" by simp_all
  moreover have "(2 :: int) ^ 240 + 1 < 2 ^ 256" by simp
  ultimately have "(?T div 2 ^ 16 + of_bool (bit l4 15)) mod 2 ^ 256 = ?T div 2 ^ 16 + of_bool (bit l4 15)"
    by (intro mod_pos_pos_trivial) linarith+
  then show ?thesis unfolding mul_shift_eq [OF l] cadd_bit_0 shift_272_val e .
qed

text \<open>What the split computes, before reduction: two small numbers.\<close>

definition split_k1 :: "int \<Rightarrow> int" where
  "split_k1 k = k - ((k * 0x3086D221A7D46BCDE86C90E49284EB153DAB + 2 ^ 271) div 2 ^ 272 * lat_a1 +
     (k * 0xE4437ED6010E88286F547FA90ABFE4C42212 + 2 ^ 271) div 2 ^ 272 * lat_a2)"

definition split_k2 :: "int \<Rightarrow> int" where
  "split_k2 k = - ((k * 0x3086D221A7D46BCDE86C90E49284EB153DAB + 2 ^ 271) div 2 ^ 272 * lat_b1 +
     (k * 0xE4437ED6010E88286F547FA90ABFE4C42212 + 2 ^ 271) div 2 ^ 272 * lat_b2)"

lemma rounded: "p * ((x + h) div p) \<le> x + h" "x + h < p * ((x + h) div p) + p" if "0 < p" for x h p :: int
  using that mult_div_mod_eq [of p "x + h"] pos_mod_sign [of p "x + h"] pos_mod_bound [of p "x + h"] by linarith+

lemma split_small:
  assumes "0 \<le> k" "k < sc_n"
  shows "\<bar>split_k1 k\<bar> < 2 ^ 128" "\<bar>split_k2 k\<bar> < 2 ^ 128"
proof -
  define c1 where "c1 = (k * 0x3086D221A7D46BCDE86C90E49284EB153DAB + 2 ^ 271) div 2 ^ 272"
  define c2 where "c2 = (k * 0xE4437ED6010E88286F547FA90ABFE4C42212 + 2 ^ 271) div 2 ^ 272"
  note r = rounded [of "2 ^ 272" "k * 0x3086D221A7D46BCDE86C90E49284EB153DAB" "2 ^ 271", folded c1_def]
    rounded [of "2 ^ 272" "k * 0xE4437ED6010E88286F547FA90ABFE4C42212" "2 ^ 271", folded c2_def]
  have k: "split_k1 k = k - (c1 * lat_a1 + c2 * lat_a2)" "split_k2 k = - (c1 * lat_b1 + c2 * lat_b2)"
    unfolding split_k1_def split_k2_def c1_def c2_def by (rule refl)+
  note d = lat_a1_def lat_a2_def lat_b1_def lat_b2_def sc_n_def sc_c_def
  show "\<bar>split_k1 k\<bar> < 2 ^ 128" using r assms unfolding k abs_less_iff d by simp
  show "\<bar>split_k2 k\<bar> < 2 ^ 128" using r assms unfolding k abs_less_iff d by simp
qed

lemma split_sum: "(split_k1 k + sc_lambda * split_k2 k) mod sc_n = k mod sc_n"
proof -
  define c1 where "c1 = (k * 0x3086D221A7D46BCDE86C90E49284EB153DAB + 2 ^ 271) div 2 ^ 272"
  define c2 where "c2 = (k * 0xE4437ED6010E88286F547FA90ABFE4C42212 + 2 ^ 271) div 2 ^ 272"
  obtain m1 m2 where m: "lat_a1 + lat_b1 * sc_lambda = sc_n * m1" "lat_a2 + lat_b2 * sc_lambda = sc_n * m2"
    using lattice_identities(1,2) by blast
  have "split_k1 k + sc_lambda * split_k2 k = k - (c1 * (lat_a1 + lat_b1 * sc_lambda) + c2 * (lat_a2 + lat_b2 * sc_lambda))"
    unfolding split_k1_def split_k2_def c1_def [symmetric] c2_def [symmetric] by algebra
  also have "\<dots> = k + sc_n * (- (c1 * m1 + c2 * m2))" unfolding m by algebra
  finally show ?thesis by (simp only: mod_mult_self2)
qed

lemma split_lambda_spec:
  assumes "sc_ok a"
  shows "sc_val (snd (secp256k1_scalar_split_lambda a)) = split_k2 (sc_val a) mod sc_n"
    and "sc_val (fst (secp256k1_scalar_split_lambda a)) = split_k1 (sc_val a) mod sc_n"
proof -
  let ?k = "sc_val a"
  define c1 where "c1 = secp256k1_scalar_mul_shift_var a g1 272"
  define c2 where "c2 = secp256k1_scalar_mul_shift_var a g2 272"
  define d1 where "d1 = secp256k1_scalar_mul c1 minus_b1"
  define d2 where "d2 = secp256k1_scalar_mul c2 minus_b2"
  define r2 where "r2 = fst (secp256k1_scalar_add d1 d2)"
  define e where "e = secp256k1_scalar_mul r2 minus_lambda"
  have ok: "sc_ok d1" "sc_ok d2" "sc_ok e" unfolding d1_def d2_def e_def by (auto intro: ok_mod mul_spec)
  have s: "secp256k1_scalar_split_lambda a = (fst (secp256k1_scalar_add e a), r2)"
    unfolding secp256k1_scalar_split_lambda_def Let_def e_def r2_def d1_def d2_def c1_def c2_def ..
  have k2: "split_k2 ?k = sc_val c1 * - lat_b1 - sc_val c2 * lat_b2"
    unfolding split_k2_def c1_def c2_def mul_shift_272 split_const_vals by algebra
  have "sc_val r2 = (sc_val c1 * - lat_b1 mod sc_n + sc_val c2 * (sc_n - lat_b2) mod sc_n) mod sc_n"
    unfolding r2_def using add_spec(1) [OF ok(1,2)] unfolding d1_def d2_def mul_spec split_const_vals .
  also have "\<dots> = (sc_val c1 * - lat_b1 + sc_val c2 * (sc_n - lat_b2)) mod sc_n" by (rule mod_add_eq)
  also have "sc_val c1 * - lat_b1 + sc_val c2 * (sc_n - lat_b2) = split_k2 ?k + sc_n * sc_val c2"
    unfolding k2 by algebra
  finally have r2: "sc_val r2 = split_k2 ?k mod sc_n" by (simp only: mod_mult_self2)
  then show "sc_val (snd (secp256k1_scalar_split_lambda a)) = split_k2 ?k mod sc_n" unfolding s by simp
  have "sc_val (fst (secp256k1_scalar_add e a)) = (split_k2 ?k mod sc_n * (sc_n - sc_lambda) mod sc_n + ?k) mod sc_n"
    using add_spec(1) [OF ok(3) assms] unfolding e_def mul_spec split_const_vals r2 .
  also have "\<dots> = (split_k2 ?k * (sc_n - sc_lambda) + ?k) mod sc_n"
    by (simp only: mod_mult_left_eq mod_add_left_eq)
  also have "\<dots> = (split_k2 ?k * (sc_n - sc_lambda) + (split_k1 ?k + sc_lambda * split_k2 ?k)) mod sc_n"
    using split_sum [of ?k] by (metis mod_add_right_eq)
  also have "split_k2 ?k * (sc_n - sc_lambda) + (split_k1 ?k + sc_lambda * split_k2 ?k) = split_k1 ?k + sc_n * split_k2 ?k"
    by algebra
  finally show "sc_val (fst (secp256k1_scalar_split_lambda a)) = split_k1 ?k mod sc_n"
    unfolding s by (simp only: mod_mult_self2 fst_conv)
qed

lemma split_size: "\<bar>k\<bar> < 2 ^ 128 \<Longrightarrow> k mod sc_n < 2 ^ 128 \<or> sc_n - 2 ^ 128 < k mod sc_n" for k :: int
proof (cases "0 \<le> k")
  case False
  assume "\<bar>k\<bar> < 2 ^ 128"
  then have "(k + sc_n) mod sc_n = k + sc_n"
    using False by (intro mod_pos_pos_trivial) (simp_all add: sc_n_def sc_c_def)
  then have "k mod sc_n = k + sc_n" by simp
  then show ?thesis using \<open>\<bar>k\<bar> < 2 ^ 128\<close> by linarith
qed (simp add: sc_n_def sc_c_def)

section \<open>The class Scalar\<close>

text \<open>
  The methods of the C++ class with their guards. A constructor from bytes ignores the overflow
  flag, \<open>deserialize\<close>, \<open>hash\<close> and \<open>SetHex\<close> throw on it.
\<close>

definition Scalar_default :: secp256k1_scalar where
  "Scalar_default = secp256k1_scalar_clear"

definition Scalar_of_bytes :: "bytes \<Rightarrow> secp256k1_scalar" where
  "Scalar_of_bytes str = fst (secp256k1_scalar_set_b32 str)"

definition Scalar_of_uint64 :: "64 word \<Rightarrow> secp256k1_scalar" where
  "Scalar_of_uint64 v = fst (secp256k1_scalar_set_b32 (replicate 24 0 @
     [ucast (drop_bit 56 v), ucast (drop_bit 48 v), ucast (drop_bit 40 v), ucast (drop_bit 32 v),
      ucast (drop_bit 24 v), ucast (drop_bit 16 v), ucast (drop_bit 8 v), ucast v]))"

definition Scalar_times :: "secp256k1_scalar \<Rightarrow> secp256k1_scalar \<Rightarrow> secp256k1_scalar" where
  "Scalar_times a b = secp256k1_scalar_mul a b"

definition Scalar_plus :: "secp256k1_scalar \<Rightarrow> secp256k1_scalar \<Rightarrow> secp256k1_scalar" where
  "Scalar_plus a b = fst (secp256k1_scalar_add a b)"

definition Scalar_minus :: "secp256k1_scalar \<Rightarrow> secp256k1_scalar \<Rightarrow> secp256k1_scalar" where
  "Scalar_minus a b = fst (secp256k1_scalar_add (secp256k1_scalar_negate b) a)"

definition Scalar_minus_assign :: "secp256k1_scalar \<Rightarrow> secp256k1_scalar \<Rightarrow> secp256k1_scalar" where
  "Scalar_minus_assign a b = fst (secp256k1_scalar_add a (secp256k1_scalar_negate b))"

definition Scalar_mod_p :: "secp256k1_scalar \<Rightarrow> secp256k1_scalar" where
  "Scalar_mod_p a = fst (secp256k1_scalar_add a secp256k1_scalar_clear)"

definition Scalar_isMember :: "secp256k1_scalar \<Rightarrow> bool" where
  "Scalar_isMember a = secp256k1_scalar_eq a (Scalar_mod_p a)"

definition Scalar_generate :: "bytes \<Rightarrow> secp256k1_scalar" where
  "Scalar_generate buff = fst (secp256k1_scalar_add (fst (secp256k1_scalar_set_b32 buff)) (secp256k1_scalar_set_int 0))"

definition Scalar_serialize :: "secp256k1_scalar \<Rightarrow> bytes" where
  "Scalar_serialize a = secp256k1_scalar_get_b32 a"

definition Scalar_deserialize :: "bytes \<Rightarrow> secp256k1_scalar res" where
  "Scalar_deserialize buffer =
     (let (r, overflow) = secp256k1_scalar_set_b32 buffer
      in if overflow then Inl (Runtime_Error ''Scalar: decoding overflowed'') else Inr r)"

definition Scalar_hash :: "bytes \<Rightarrow> secp256k1_scalar res" where
  "Scalar_hash data =
     (let sha256 = secp256k1_sha256_initialize sha_local;
          sha256 = secp256k1_sha256_write sha256 data;
          hash = snd (secp256k1_sha256_finalize sha256);
          (r, overflow) = secp256k1_scalar_set_b32 hash
      in if overflow then Inl (Runtime_Error ''Scalar: hashing overflowed'') else Inr (Scalar_mod_p r))"

text \<open>The \<open>do\<close> loop of \<open>memberFromSeed\<close>: the seed buffer and the value, as many rounds as it takes.\<close>

partial_function (option) seed_loop :: "secp256k1_scalar \<Rightarrow> (bytes \<times> secp256k1_scalar) res option" where
  "seed_loop a =
     (let seed = Scalar_serialize a
      in case Scalar_hash seed of
           Inl e \<Rightarrow> Some (Inl e)
         | Inr a' \<Rightarrow> if Scalar_isMember a' then Some (Inr (seed, a')) else seed_loop a')"

definition Scalar_memberFromSeed :: "bytes \<Rightarrow> (bytes \<times> secp256k1_scalar) res option" where
  "Scalar_memberFromSeed seed =
     (case Scalar_deserialize seed of Inl e \<Rightarrow> Some (Inl e) | Inr a \<Rightarrow> seed_loop a)"

definition Scalar_get_hash :: "secp256k1_scalar \<Rightarrow> 64 word" where
  "Scalar_get_hash a = sc0 a XOR push_bit 8 (sc1 a)"

definition Scalar_GetHex :: "secp256k1_scalar \<Rightarrow> bytes" where
  "Scalar_GetHex a = concat (map hex_byte (secp256k1_scalar_get_b32 a))"

text \<open>\<open>isxdigit\<close> and \<open>strtol\<close> on two hexadecimal digits.\<close>

definition Scalar_SetHex :: "bytes \<Rightarrow> secp256k1_scalar res" where
  "Scalar_SetHex str =
     (if length str \<noteq> 64 then Inl (Runtime_Error ''Scalar: decoding invalid length'')
      else if list_all (\<lambda>i. 0 \<le> HexDigit (str ! (2 * i)) \<and> 0 \<le> HexDigit (str ! (2 * i + 1))) [0..<32] then
        let (r, overflow) = secp256k1_scalar_set_b32
              (map (\<lambda>i. of_int (16 * HexDigit (str ! (2 * i)) + HexDigit (str ! (2 * i + 1)))) [0..<32])
        in if overflow then Inl (Runtime_Error ''Scalar: decoding overflowed'') else Inr r
      else Inl (Runtime_Error ''Scalar: decoding invalid hex''))"

definition Scalar_get_bits :: "secp256k1_scalar \<Rightarrow> bool list" where
  "Scalar_get_bits a = concat (map (\<lambda>val. map (\<lambda>j. bit val j) [7, 6, 5, 4, 3, 2, 1, 0]) (secp256k1_scalar_get_b32 a))"

section \<open>Exponentiation\<close>

lemma exponent_decreases:
  "\<not> secp256k1_scalar_is_zero e \<Longrightarrow> nat (sc_val (fst (secp256k1_scalar_shr_int e 1))) < nat (sc_val e)"
  using sc_val_bounds(1) [of e] by (simp add: is_zero_iff shr_int_spec(1) [of 1 e, simplified])

function exponent_loop :: "secp256k1_scalar \<Rightarrow> secp256k1_scalar \<Rightarrow> secp256k1_scalar \<Rightarrow> secp256k1_scalar" where
  "exponent_loop result v e =
     (if secp256k1_scalar_is_zero e then result
      else exponent_loop (if \<not> secp256k1_scalar_is_even e then secp256k1_scalar_mul result v else result)
             (secp256k1_scalar_sqr v) (fst (secp256k1_scalar_shr_int e 1)))"
  by pat_completeness auto
termination
  by (relation "measure (\<lambda>(result, v, e). nat (sc_val e))") (use exponent_decreases in auto)

declare exponent_loop.simps [simp del]

definition Scalar_exponent :: "secp256k1_scalar \<Rightarrow> secp256k1_scalar \<Rightarrow> secp256k1_scalar" where
  "Scalar_exponent a e = exponent_loop (secp256k1_scalar_set_int 1) a e"

definition Scalar_exponent_uint64 :: "secp256k1_scalar \<Rightarrow> 64 word \<Rightarrow> secp256k1_scalar" where
  "Scalar_exponent_uint64 a e = Scalar_exponent a (Scalar_of_uint64 e)"

lemma exponent_loop_spec:
  "sc_val result mod sc_n = sc_val result \<Longrightarrow>
   sc_val (exponent_loop result v e) = sc_val result * sc_val v ^ nat (sc_val e) mod sc_n"
proof (induction result v e rule: exponent_loop.induct)
  case (1 result v e)
  show ?case
  proof (cases "secp256k1_scalar_is_zero e")
    case True
    then show ?thesis using 1(2) by (simp add: exponent_loop.simps [of result v e] is_zero_iff)
  next
    case False
    let ?r = "if \<not> secp256k1_scalar_is_even e then secp256k1_scalar_mul result v else result"
    let ?h = "sc_val e div 2" and ?V = "sc_val v" and ?R = "sc_val result"
    have step: "exponent_loop result v e = exponent_loop ?r (secp256k1_scalar_sqr v) (fst (secp256k1_scalar_shr_int e 1))"
      using False by (subst exponent_loop.simps) simp
    have r: "sc_val ?r = ?R * ?V ^ (if even (sc_val e) then 0 else 1) mod sc_n"
      using 1(2) by (simp add: is_even_iff mul_spec)
    have "sc_val ?r mod sc_n = sc_val ?r" unfolding r by simp
    then have "sc_val (exponent_loop result v e) = sc_val ?r * sc_val (secp256k1_scalar_sqr v) ^ nat ?h mod sc_n"
      unfolding step using 1(1) [OF False] by (simp add: shr_int_spec(1) [of 1 e, simplified])
    also have "\<dots> = ?R * ?V ^ (if even (sc_val e) then 0 else 1) * (?V * ?V) ^ nat ?h mod sc_n"
      unfolding r sqr_spec by (metis mod_mult_left_eq mod_mult_right_eq power_mod)
    also have "?R * ?V ^ (if even (sc_val e) then 0 else 1) * (?V * ?V) ^ nat ?h = ?R * ?V ^ nat (sc_val e)"
    proof -
      obtain k where k: "sc_val e = int k" using sc_val_bounds(1) [of e] zero_le_imp_eq_int by blast
      have h: "int k div 2 = int (k div 2)" by simp
      have "k = (if even k then 0 else 1) + 2 * (k div 2)" by presburger
      then have "?V ^ k = ?V ^ (if even k then 0 else 1) * (?V * ?V) ^ (k div 2)"
        by (metis power_add power_mult power2_eq_square)
      then show ?thesis unfolding k h nat_int even_of_nat mult.assoc by (rule arg_cong [OF sym])
    qed
    finally show ?thesis .
  qed
qed

section \<open>Encoding and decoding\<close>

lemma clear_val [simp]: "sc_val secp256k1_scalar_clear = 0"
  by (simp add: secp256k1_scalar_clear_def)

lemma set_int_val [simp]: "sc_val (secp256k1_scalar_set_int v) = uint v"
  using uint_lt2p [of v] by (simp add: secp256k1_scalar_set_int_def sc_val_make uint_ucast_small)

lemma ok_small: "sc_val a < 2 ^ 128 \<Longrightarrow> sc_ok a"
  by (simp add: sc_ok_def sc_n_def sc_c_def)

lemma mod_p_val: "sc_val (Scalar_mod_p a) = sc_val a mod sc_n"
  using add_below(1) [of a secp256k1_scalar_clear] sc_val_double [of a] by (simp add: Scalar_mod_p_def)

lemma isMember_iff: "Scalar_isMember a \<longleftrightarrow> sc_ok a"
proof -
  have "Scalar_isMember a \<longleftrightarrow> sc_val a = sc_val a mod sc_n"
    by (simp add: Scalar_isMember_def eq_iff sc_val_inj [symmetric] mod_p_val)
  also have "\<dots> \<longleftrightarrow> sc_ok a"
    using ok_mod [of a "sc_val a"] sc_val_bounds(1) [of a] by (auto simp: sc_ok_def)
  finally show ?thesis .
qed

lemma of_bytes_val: "length b = 32 \<Longrightarrow> sc_val (Scalar_of_bytes b) = be_val b mod sc_n"
  by (simp add: Scalar_of_bytes_def set_b32_spec)

lemma be_val_zeros: "be_val (replicate k 0 @ b) = be_val b"
proof -
  have "be_val (replicate k 0) = 0"
    by (induction k) (simp, simp only: replicate_Suc replicate_append_same [symmetric] be_val_simps, simp)
  then show ?thesis by (simp add: be_val_append)
qed

lemma of_uint64_val [simp]: "sc_val (Scalar_of_uint64 v) = uint v"
proof -
  have "uint v < 2 ^ 64" using uint_lt2p [of v] by simp
  then have "uint v mod sc_n = uint v" by (intro mod_pos_pos_trivial) (simp_all add: sc_n_def sc_c_def)
  moreover have "sc_val (Scalar_of_uint64 v) = be_val (replicate 24 0 @ limb_be v) mod sc_n"
    unfolding Scalar_of_uint64_def limb_be_def [symmetric] by (rule set_b32_spec) (simp add: limb_be_val)
  ultimately show ?thesis by (simp add: be_val_zeros limb_be_val)
qed

lemma deserialize_iff:
  assumes "length b = 32"
  shows "Scalar_deserialize b = Inr a \<longleftrightarrow> sc_ok a \<and> b = Scalar_serialize a"
proof -
  obtain r v where s: "secp256k1_scalar_set_b32 b = (r, v)" by fastforce
  note spec = set_b32_spec [OF assms, unfolded s fst_conv snd_conv]
  have d: "Scalar_deserialize b = Inr a \<longleftrightarrow> \<not> sc_n \<le> be_val b \<and> r = a"
    using spec(1) by (simp add: Scalar_deserialize_def s)
  show ?thesis
  proof
    assume "Scalar_deserialize b = Inr a"
    then have n: "be_val b < sc_n" and r: "r = a" using d by auto
    then have v: "sc_val a = be_val b" using spec(2) be_val_nonneg [of b] by simp
    then have "be_val (Scalar_serialize a) = be_val b" unfolding Scalar_serialize_def by simp
    then have "Scalar_serialize a = b" using assms by (subst (asm) be_val_inj) (simp_all add: Scalar_serialize_def)
    then show "sc_ok a \<and> b = Scalar_serialize a" using n v by (simp add: sc_ok_def)
  next
    assume "sc_ok a \<and> b = Scalar_serialize a"
    then have "be_val b = sc_val a" "sc_val a < sc_n" by (simp_all add: Scalar_serialize_def sc_ok_def)
    then show "Scalar_deserialize b = Inr a"
      unfolding d using spec(2) sc_val_bounds(1) [of a] by (simp add: sc_val_inj [symmetric])
  qed
qed

lemma deserialize_cases:
  assumes "length b = 32"
  shows "Scalar_deserialize b = (if be_val b < sc_n then Inr (Scalar_of_bytes b)
    else Inl (Runtime_Error ''Scalar: decoding overflowed''))"
  using set_b32_spec(1) [OF assms] by (auto simp: Scalar_deserialize_def Scalar_of_bytes_def split: prod.split)

lemma hash_spec:
  "Scalar_hash data = (if be_val (fips_sha256 data) < sc_n then Inr (Scalar_of_bytes (fips_sha256 data))
    else Inl (Runtime_Error ''Scalar: hashing overflowed''))"
proof -
  have "absorbed (secp256k1_sha256_initialize sha_local) []" by (rule initialize_absorbed) (simp add: sha_local_def)
  from finalize_spec [OF write_absorbs [OF this, of data]]
  have h: "snd (secp256k1_sha256_finalize (secp256k1_sha256_write (secp256k1_sha256_initialize sha_local) data)) = fips_sha256 data"
    by simp
  obtain r v where s: "secp256k1_scalar_set_b32 (fips_sha256 data) = (r, v)" by fastforce
  note spec = set_b32_spec [OF length_fips_sha256, of data, unfolded s fst_conv snd_conv]
  have "Scalar_mod_p r = r" using spec(2) by (simp add: sc_val_inj [symmetric] mod_p_val)
  then show ?thesis unfolding Scalar_hash_def Let_def h s Scalar_of_bytes_def using spec(1) by auto
qed

text \<open>The loop of \<open>memberFromSeed\<close> ends in its first round.\<close>

lemma seed_loop_spec: "seed_loop a = Some (rbind (Scalar_hash (Scalar_serialize a)) (\<lambda>a'. Inr (Scalar_serialize a, a')))"
proof (cases "Scalar_hash (Scalar_serialize a)")
  case (Inr a')
  then have "sc_val a' = be_val (fips_sha256 (Scalar_serialize a)) mod sc_n"
    by (auto simp: hash_spec of_bytes_val split: if_splits)
  then have "Scalar_isMember a'" unfolding isMember_iff by (rule ok_mod)
  then show ?thesis using Inr by (subst seed_loop.simps) simp
qed (subst seed_loop.simps, simp)

text \<open>Hexadecimal text.\<close>

lemma hex_byte_digits:
  "hex_byte b ! 0 = hexmap ! unat (drop_bit 4 b)" "hex_byte b ! Suc 0 = hexmap ! unat (b AND 15)" "length (hex_byte b) = 2"
  by (simp_all add: hex_byte_def)

lemma hex_concat_nth:
  "i < length bs \<Longrightarrow> concat (map hex_byte bs) ! (2 * i) = hexmap ! unat (drop_bit 4 (bs ! i)) \<and>
     concat (map hex_byte bs) ! (2 * i + 1) = hexmap ! unat (bs ! i AND 15)"
proof (induction bs arbitrary: i)
  case (Cons b bs)
  then show ?case by (cases i) (simp_all add: nth_append hex_byte_digits)
qed simp

lemma join_digits: "(of_int (16 * int (unat (drop_bit 4 b)) + int (unat (b AND 15))) :: byte) = b"
proof -
  have "uint (b AND 15) = uint b mod 16" using uint_and_mask [of b 4] by (simp add: mask_eq_exp_minus_1)
  then have "16 * int (unat (drop_bit 4 b)) + int (unat (b AND 15)) = uint b" by (simp add: uint_drop)
  then show ?thesis by simp
qed

lemma Scalar_SetHex_GetHex: "sc_ok a \<Longrightarrow> Scalar_SetHex (Scalar_GetHex a) = Inr a"
proof -
  assume ok: "sc_ok a"
  let ?b = "secp256k1_scalar_get_b32 a"
  have n: "i < 32 \<Longrightarrow> HexDigit (Scalar_GetHex a ! (2 * i)) = int (unat (drop_bit 4 (?b ! i))) \<and>
      HexDigit (Scalar_GetHex a ! (2 * i + 1)) = int (unat (?b ! i AND 15))" for i
    using hex_concat_nth [of i ?b] nibbles [of "?b ! i"] by (simp add: Scalar_GetHex_def HexDigit_hexmap)
  have "length (concat (map hex_byte bs)) = 2 * length bs" for bs by (induction bs) (simp_all add: hex_byte_digits)
  then have l: "length (Scalar_GetHex a) = 64" by (simp add: Scalar_GetHex_def)
  have m: "map (\<lambda>i. of_int (16 * HexDigit (Scalar_GetHex a ! (2 * i)) + HexDigit (Scalar_GetHex a ! (2 * i + 1)))) [0..<32] = ?b"
  proof (rule nth_equalityI)
    fix i assume "i < length (map (\<lambda>i. of_int (16 * HexDigit (Scalar_GetHex a ! (2 * i)) + HexDigit (Scalar_GetHex a ! (2 * i + 1))) :: byte) [0..<32])"
    then show "map (\<lambda>i. of_int (16 * HexDigit (Scalar_GetHex a ! (2 * i)) + HexDigit (Scalar_GetHex a ! (2 * i + 1)))) [0..<32] ! i = ?b ! i"
      using n [of i] join_digits [of "?b ! i"] by simp
  qed simp
  have "Scalar_deserialize ?b = Inr a" using ok by (subst deserialize_iff) (simp_all add: Scalar_serialize_def)
  then have "\<not> snd (secp256k1_scalar_set_b32 ?b)" "fst (secp256k1_scalar_set_b32 ?b) = a"
    by (auto simp: Scalar_deserialize_def split: prod.splits if_splits)
  moreover have "list_all (\<lambda>i. 0 \<le> HexDigit (Scalar_GetHex a ! (2 * i)) \<and> 0 \<le> HexDigit (Scalar_GetHex a ! (2 * i + 1))) [0..<32]"
    using n by (simp add: list_all_iff)
  ultimately show ?thesis unfolding Scalar_SetHex_def m using l by (simp add: case_prod_beta)
qed
section \<open>Properties\<close>

text \<open>
  The addition chain of \<open>secp256k1_scalar_inverse\<close> raises its argument to the order minus two:
  for a prime order this is the inverse of every scalar but zero, whose image is zero.
\<close>

lemma scalar_inverse_is_the_power:
  "sc_val (secp256k1_scalar_inverse a) = sc_val a ^ nat (sc_n - 2) mod sc_n \<and> sc_ok (secp256k1_scalar_inverse a)"
  using inverse_power [of a] inverse_ok [of a] sc_val_bounds(1) [of "secp256k1_scalar_inverse a"]
  by (simp add: power_of_def sc_ok_def)

text \<open>
  C36: the split for the endomorphism is a decomposition of its argument, and a short one: the two
  results sum to it with the second taken times \<open>lambda\<close>, and each is below \<open>2^128\<close> or is the
  negation of a number below \<open>2^128\<close>, which is what the multiplication of points relies on.
\<close>

theorem scalar_split_is_short:
  assumes "sc_ok a"
  shows "(sc_val (fst (secp256k1_scalar_split_lambda a)) + sc_lambda * sc_val (snd (secp256k1_scalar_split_lambda a))) mod sc_n = sc_val a \<and>
    (\<forall>r. r = fst (secp256k1_scalar_split_lambda a) \<or> r = snd (secp256k1_scalar_split_lambda a) \<longrightarrow>
      sc_val r < 2 ^ 128 \<or> sc_n - 2 ^ 128 < sc_val r)"
proof -
  note s = split_lambda_spec [OF assms]
  have a: "0 \<le> sc_val a" "sc_val a < sc_n" using assms sc_val_bounds(1) [of a] by (simp_all add: sc_ok_def)
  note z = split_size [OF split_small(1) [OF a]] split_size [OF split_small(2) [OF a]]
  have reduced: "(x mod n + l * (y mod n)) mod n = (x + l * y) mod n" for x y l n :: int
    by (rule mod_add_cong) (simp_all add: mod_mult_right_eq)
  have "(split_k1 (sc_val a) mod sc_n + sc_lambda * (split_k2 (sc_val a) mod sc_n)) mod sc_n =
      (split_k1 (sc_val a) + sc_lambda * split_k2 (sc_val a)) mod sc_n"
    by (rule reduced)
  then have "(split_k1 (sc_val a) mod sc_n + sc_lambda * (split_k2 (sc_val a) mod sc_n)) mod sc_n = sc_val a"
    using split_sum [of "sc_val a"] a by simp
  then show ?thesis using z unfolding s [symmetric] by blast
qed

theorem scalar_split_is_short_witness:
  "(sc_val (fst (secp256k1_scalar_split_lambda (sc_make 9 8 7 6))) +
     sc_lambda * sc_val (snd (secp256k1_scalar_split_lambda (sc_make 9 8 7 6)))) mod sc_n = sc_val (sc_make 9 8 7 6)"
proof -
  have "sc_ok (sc_make 9 8 7 6)" by (simp add: sc_ok_def sc_val_make sc_n_def sc_c_def)
  from scalar_split_is_short [OF this] show ?thesis by blast
qed

text \<open>
  C37: \<open>Scalar::deserialize\<close> accepts exactly the encodings that \<open>serialize\<close> writes for scalars
  below the order, and gives back the scalar written; every other 32 bytes are refused.
\<close>

theorem scalar_decoding_is_canonical:
  assumes "length b = 32"
  shows "Scalar_deserialize b = Inr a \<longleftrightarrow> sc_ok a \<and> b = Scalar_serialize a"
  using assms by (rule deserialize_iff)

theorem scalar_decoding_is_canonical_witness:
  "Scalar_deserialize (Scalar_serialize (sc_make 1 2 3 4)) = Inr (sc_make 1 2 3 4)"
  using scalar_decoding_is_canonical [of "Scalar_serialize (sc_make 1 2 3 4)" "sc_make 1 2 3 4"]
  by (simp add: Scalar_serialize_def sc_ok_def sc_val_make sc_n_def sc_c_def)

text \<open>
  C38: \<open>Scalar::exponent\<close> always ends, and its square-and-multiply loop over the shifted exponent
  computes the power modulo the order.
\<close>

theorem scalar_exponent_is_the_power:
  "sc_val (Scalar_exponent a e) = sc_val a ^ nat (sc_val e) mod sc_n"
  using exponent_loop_spec [of "secp256k1_scalar_set_int 1" a e]
  by (simp add: Scalar_exponent_def) (simp add: sc_n_def sc_c_def)

text \<open>
  C39: \<open>Scalar::memberFromSeed\<close> returns for every 32-byte seed: its loop ends in the first round,
  with the SHA-256 of the seed as a scalar, or it throws because the seed or the digest is not
  below the order.
\<close>

theorem member_from_seed_returns:
  assumes "length seed = 32"
  shows "Scalar_memberFromSeed seed = Some
    (if sc_n \<le> be_val seed then Inl (Runtime_Error ''Scalar: decoding overflowed'')
     else if sc_n \<le> be_val (fips_sha256 seed) then Inl (Runtime_Error ''Scalar: hashing overflowed'')
     else Inr (seed, Scalar_of_bytes (fips_sha256 seed)))"
proof (cases "sc_n \<le> be_val seed")
  case False
  then have d: "Scalar_deserialize seed = Inr (Scalar_of_bytes seed)" using deserialize_cases [OF assms] by simp
  from iffD1 [OF deserialize_iff [OF assms] d] have "Scalar_serialize (Scalar_of_bytes seed) = seed" by simp
  then show ?thesis using False d by (simp add: Scalar_memberFromSeed_def seed_loop_spec hash_spec)
qed (simp add: Scalar_memberFromSeed_def deserialize_cases [OF assms])

theorem member_from_seed_returns_witness:
  "Scalar_memberFromSeed (replicate 32 255) = Some (Inl (Runtime_Error ''Scalar: decoding overflowed''))"
proof -
  have "be_val (replicate k 255) = 256 ^ k - 1" for k
    by (induction k) (simp, simp only: replicate_Suc replicate_append_same [symmetric] be_val_simps, simp)
  then show ?thesis using member_from_seed_returns [of "replicate 32 255"] by (simp add: sc_n_def sc_c_def)
qed

end
