(* ===== verification/Sha512.thy ===== *)
theory Sha512
  imports Sha256 MachineWords
begin

text \<open>
  SHA-512 as the vendored OpenSSL computes it (\<open>crypto/sha/sha512.c\<close>, built without assembly on a
  64-bit target): the context with its 128-bit bit counter, the unrolled block function with its
  sixteen-word window, buffering and padding. The lemmas relate the block function to the loop of
  FIPS 180-4 and the incremental interface to the digest of the whole message. Spark calls these
  functions through \<open>EVP_DigestInit_ex\<close>, \<open>EVP_DigestUpdate\<close> and \<open>EVP_DigestFinal_ex\<close>.
\<close>

section \<open>State\<close>

record SHA512_CTX =
  c_h :: "64 word list"
  Nl :: "64 word"
  Nh :: "64 word"
  c_p :: bytes
  num :: nat
  md_len :: nat

definition sha512_224_init :: "SHA512_CTX \<Rightarrow> SHA512_CTX" where
  "sha512_224_init c = c\<lparr>c_h := [0x8c3d37c819544da2, 0x73e1996689dcd4d6, 0x1dfab7ae32ff9c82, 0x679dd514582f9fcf,
     0x0f6d2b697bd44da8, 0x77e36f7304c48942, 0x3f9d85a86a1d36c8, 0x1112e6ad91d692a1],
     Nl := 0, Nh := 0, num := 0, md_len := 28\<rparr>"

definition sha512_256_init :: "SHA512_CTX \<Rightarrow> SHA512_CTX" where
  "sha512_256_init c = c\<lparr>c_h := [0x22312194fc2bf72c, 0x9f555fa3c84c64c2, 0x2393b86b6f53b151, 0x963877195940eabd,
     0x96283ee2a88effe3, 0xbe5e1e2553863992, 0x2b0199fc2c85b8aa, 0x0eb72ddc81c52ca2],
     Nl := 0, Nh := 0, num := 0, md_len := 32\<rparr>"

definition SHA384_Init :: "SHA512_CTX \<Rightarrow> SHA512_CTX" where
  "SHA384_Init c = c\<lparr>c_h := [0xcbbb9d5dc1059ed8, 0x629a292a367cd507, 0x9159015a3070dd17, 0x152fecd8f70e5939,
     0x67332667ffc00b31, 0x8eb44a8768581511, 0xdb0c2e0d64f98fa7, 0x47b5481dbefa4fa4],
     Nl := 0, Nh := 0, num := 0, md_len := 48\<rparr>"

definition SHA512_Init :: "SHA512_CTX \<Rightarrow> SHA512_CTX" where
  "SHA512_Init c = c\<lparr>c_h := [0x6a09e667f3bcc908, 0xbb67ae8584caa73b, 0x3c6ef372fe94f82b, 0xa54ff53a5f1d36f1,
     0x510e527fade682d1, 0x9b05688c2b3e6c1f, 0x1f83d9abfb41bd6b, 0x5be0cd19137e2179],
     Nl := 0, Nh := 0, num := 0, md_len := 64\<rparr>"

section \<open>The block function\<close>

definition K512 :: "64 word list" where
  "K512 =
    [0x428a2f98d728ae22, 0x7137449123ef65cd, 0xb5c0fbcfec4d3b2f, 0xe9b5dba58189dbbc,
    0x3956c25bf348b538, 0x59f111f1b605d019, 0x923f82a4af194f9b, 0xab1c5ed5da6d8118,
    0xd807aa98a3030242, 0x12835b0145706fbe, 0x243185be4ee4b28c, 0x550c7dc3d5ffb4e2,
    0x72be5d74f27b896f, 0x80deb1fe3b1696b1, 0x9bdc06a725c71235, 0xc19bf174cf692694,
    0xe49b69c19ef14ad2, 0xefbe4786384f25e3, 0x0fc19dc68b8cd5b5, 0x240ca1cc77ac9c65,
    0x2de92c6f592b0275, 0x4a7484aa6ea6e483, 0x5cb0a9dcbd41fbd4, 0x76f988da831153b5,
    0x983e5152ee66dfab, 0xa831c66d2db43210, 0xb00327c898fb213f, 0xbf597fc7beef0ee4,
    0xc6e00bf33da88fc2, 0xd5a79147930aa725, 0x06ca6351e003826f, 0x142929670a0e6e70,
    0x27b70a8546d22ffc, 0x2e1b21385c26c926, 0x4d2c6dfc5ac42aed, 0x53380d139d95b3df,
    0x650a73548baf63de, 0x766a0abb3c77b2a8, 0x81c2c92e47edaee6, 0x92722c851482353b,
    0xa2bfe8a14cf10364, 0xa81a664bbc423001, 0xc24b8b70d0f89791, 0xc76c51a30654be30,
    0xd192e819d6ef5218, 0xd69906245565a910, 0xf40e35855771202a, 0x106aa07032bbd1b8,
    0x19a4c116b8d2d0c8, 0x1e376c085141ab53, 0x2748774cdf8eeb99, 0x34b0bcb5e19b48a8,
    0x391c0cb3c5c95a63, 0x4ed8aa4ae3418acb, 0x5b9cca4f7763e373, 0x682e6ff3d6b2b8a3,
    0x748f82ee5defb2fc, 0x78a5636f43172f60, 0x84c87814a1f0ab72, 0x8cc702081a6439ec,
    0x90befffa23631e28, 0xa4506cebde82bde9, 0xbef9a3f7b2c67915, 0xc67178f2e372532b,
    0xca273eceea26619c, 0xd186b8c721c0c207, 0xeada7dd6cde0eb1e, 0xf57d4f7fee6ed178,
    0x06f067aa72176fba, 0x0a637dc5a2c898a6, 0x113f9804bef90dae, 0x1b710b35131c471b,
    0x28db77f523047d84, 0x32caab7b40c72493, 0x3c9ebe0a15c9bebc, 0x431d67c49c100d4c,
    0x4cc5d4becb3e42b6, 0x597f299cfc657e2a, 0x5fcb6fab3ad6faec, 0x6c44198c4a475817]"

text \<open>\<open>PULL64 (W[i])\<close>: the eight bytes of word \<open>i\<close> of the input, the most significant first.\<close>

definition PULL64 :: "bytes \<Rightarrow> nat \<Rightarrow> 64 word" where
  "PULL64 inp i = (let B = \<lambda>j. push_bit ((7 - j) * 8) (ucast (inp ! (8 * i + j))) in
     B 0 OR B 1 OR B 2 OR B 3 OR B 4 OR B 5 OR B 6 OR B 7)"

definition ROTR64 :: "64 word \<Rightarrow> nat \<Rightarrow> 64 word" where
  "ROTR64 x s = drop_bit s x OR push_bit (64 - s) x"

definition Sigma0_512 :: "64 word \<Rightarrow> 64 word" where
  "Sigma0_512 x = ROTR64 x 28 XOR ROTR64 x 34 XOR ROTR64 x 39"
definition Sigma1_512 :: "64 word \<Rightarrow> 64 word" where
  "Sigma1_512 x = ROTR64 x 14 XOR ROTR64 x 18 XOR ROTR64 x 41"
definition sigma0_512 :: "64 word \<Rightarrow> 64 word" where
  "sigma0_512 x = ROTR64 x 1 XOR ROTR64 x 8 XOR drop_bit 7 x"
definition sigma1_512 :: "64 word \<Rightarrow> 64 word" where
  "sigma1_512 x = ROTR64 x 19 XOR ROTR64 x 61 XOR drop_bit 6 x"
definition Ch_512 :: "64 word \<Rightarrow> 64 word \<Rightarrow> 64 word \<Rightarrow> 64 word" where
  "Ch_512 x y z = (x AND y) XOR (NOT x AND z)"
definition Maj_512 :: "64 word \<Rightarrow> 64 word \<Rightarrow> 64 word \<Rightarrow> 64 word" where
  "Maj_512 x y z = (x AND y) XOR (x AND z) XOR (y AND z)"

text \<open>The macros assign their arguments \<open>d\<close>, \<open>h\<close> and \<open>X\<close>; the definitions return the new values.\<close>

definition ROUND_00_15 :: "nat \<Rightarrow> 64 word \<Rightarrow> 64 word \<Rightarrow> 64 word \<Rightarrow> 64 word \<Rightarrow> 64 word \<Rightarrow> 64 word \<Rightarrow> 64 word \<Rightarrow>
    64 word \<Rightarrow> 64 word \<Rightarrow> 64 word \<times> 64 word" where
  "ROUND_00_15 i T1 a b c d e f g h =
     (let T1 = T1 + (h + Sigma1_512 e + Ch_512 e f g + K512 ! i);
          h = Sigma0_512 a + Maj_512 a b c
      in (d + T1, h + T1))"

definition ROUND_16_80 :: "nat \<Rightarrow> nat \<Rightarrow> 64 word \<Rightarrow> 64 word \<Rightarrow> 64 word \<Rightarrow> 64 word \<Rightarrow> 64 word \<Rightarrow> 64 word \<Rightarrow>
    64 word \<Rightarrow> 64 word \<Rightarrow> 64 word list \<Rightarrow> 64 word \<times> 64 word \<times> 64 word list" where
  "ROUND_16_80 i j a b c d e f g h X =
     (let s0 = sigma0_512 (X ! ((j + 1) mod 16));
          s1 = sigma1_512 (X ! ((j + 14) mod 16));
          T1 = X ! (j mod 16) + (s0 + s1 + X ! ((j + 9) mod 16));
          X = X[j mod 16 := T1];
          (d, h) = ROUND_00_15 (i + j) T1 a b c d e f g h
      in (d, h, X))"

type_synonym sha512_vars = "64 word \<times> 64 word \<times> 64 word \<times> 64 word \<times> 64 word \<times> 64 word \<times> 64 word \<times> 64 word"

text \<open>The first sixteen rounds, and the body of the loop over the other sixty-four.\<close>

definition sha512_first :: "bytes \<Rightarrow> sha512_vars \<Rightarrow> sha512_vars \<times> 64 word list" where
  "sha512_first inp v =
     (let (a, b, c, d, e, f, g, h) = v;
          x0 = PULL64 inp 0;
          (d, h) = ROUND_00_15 0 x0 a b c d e f g h;
          x1 = PULL64 inp 1;
          (c, g) = ROUND_00_15 1 x1 h a b c d e f g;
          x2 = PULL64 inp 2;
          (b, f) = ROUND_00_15 2 x2 g h a b c d e f;
          x3 = PULL64 inp 3;
          (a, e) = ROUND_00_15 3 x3 f g h a b c d e;
          x4 = PULL64 inp 4;
          (h, d) = ROUND_00_15 4 x4 e f g h a b c d;
          x5 = PULL64 inp 5;
          (g, c) = ROUND_00_15 5 x5 d e f g h a b c;
          x6 = PULL64 inp 6;
          (f, b) = ROUND_00_15 6 x6 c d e f g h a b;
          x7 = PULL64 inp 7;
          (e, a) = ROUND_00_15 7 x7 b c d e f g h a;
          x8 = PULL64 inp 8;
          (d, h) = ROUND_00_15 8 x8 a b c d e f g h;
          x9 = PULL64 inp 9;
          (c, g) = ROUND_00_15 9 x9 h a b c d e f g;
          x10 = PULL64 inp 10;
          (b, f) = ROUND_00_15 10 x10 g h a b c d e f;
          x11 = PULL64 inp 11;
          (a, e) = ROUND_00_15 11 x11 f g h a b c d e;
          x12 = PULL64 inp 12;
          (h, d) = ROUND_00_15 12 x12 e f g h a b c d;
          x13 = PULL64 inp 13;
          (g, c) = ROUND_00_15 13 x13 d e f g h a b c;
          x14 = PULL64 inp 14;
          (f, b) = ROUND_00_15 14 x14 c d e f g h a b;
          x15 = PULL64 inp 15;
          (e, a) = ROUND_00_15 15 x15 b c d e f g h a
      in ((a, b, c, d, e, f, g, h), [x0, x1, x2, x3, x4, x5, x6, x7, x8, x9, x10, x11, x12, x13, x14, x15]))"

definition sha512_sixteen :: "nat \<Rightarrow> sha512_vars \<times> 64 word list \<Rightarrow> sha512_vars \<times> 64 word list" where
  "sha512_sixteen i s =
     (let ((a, b, c, d, e, f, g, h), X) = s;
          (d, h, X) = ROUND_16_80 i 0 a b c d e f g h X;
          (c, g, X) = ROUND_16_80 i 1 h a b c d e f g X;
          (b, f, X) = ROUND_16_80 i 2 g h a b c d e f X;
          (a, e, X) = ROUND_16_80 i 3 f g h a b c d e X;
          (h, d, X) = ROUND_16_80 i 4 e f g h a b c d X;
          (g, c, X) = ROUND_16_80 i 5 d e f g h a b c X;
          (f, b, X) = ROUND_16_80 i 6 c d e f g h a b X;
          (e, a, X) = ROUND_16_80 i 7 b c d e f g h a X;
          (d, h, X) = ROUND_16_80 i 8 a b c d e f g h X;
          (c, g, X) = ROUND_16_80 i 9 h a b c d e f g X;
          (b, f, X) = ROUND_16_80 i 10 g h a b c d e f X;
          (a, e, X) = ROUND_16_80 i 11 f g h a b c d e X;
          (h, d, X) = ROUND_16_80 i 12 e f g h a b c d X;
          (g, c, X) = ROUND_16_80 i 13 d e f g h a b c X;
          (f, b, X) = ROUND_16_80 i 14 c d e f g h a b X;
          (e, a, X) = ROUND_16_80 i 15 b c d e f g h a X
      in ((a, b, c, d, e, f, g, h), X))"

definition sha512_block :: "64 word list \<Rightarrow> bytes \<Rightarrow> 64 word list" where
  "sha512_block s inp =
     (let ((a, b, c, d, e, f, g, h), X) = fold sha512_sixteen [16, 32, 48, 64]
            (sha512_first inp (s ! 0, s ! 1, s ! 2, s ! 3, s ! 4, s ! 5, s ! 6, s ! 7))
      in [s ! 0 + a, s ! 1 + b, s ! 2 + c, s ! 3 + d, s ! 4 + e, s ! 5 + f, s ! 6 + g, s ! 7 + h])"

fun sha512_block_data_order :: "64 word list \<Rightarrow> bytes \<Rightarrow> nat \<Rightarrow> 64 word list" where
  "sha512_block_data_order s inp 0 = s"
| "sha512_block_data_order s inp (Suc n) = sha512_block_data_order (sha512_block s inp) (drop 128 inp) n"

section \<open>Update and final\<close>

text \<open>\<open>len\<close> is the length of the data; bytes past the end of a full buffer are left in place by \<open>memcpy\<close>.\<close>

definition SHA512_Update :: "SHA512_CTX \<Rightarrow> bytes \<Rightarrow> SHA512_CTX" where
  "SHA512_Update c data =
     (if length data = 0 then c
      else let len = of_nat (length data) :: 64 word;
               l = Nl c + push_bit 3 len;
               c = (if l < Nl c then c\<lparr>Nh := Nh c + 1\<rparr> else c);
               c = c\<lparr>Nh := Nh c + drop_bit 61 len\<rparr>;
               c = c\<lparr>Nl := l\<rparr>
           in if num c \<noteq> 0 \<and> length data < 128 - num c
              then c\<lparr>c_p := put (c_p c) (num c) data, num := num c + length data\<rparr>
              else let (c, data) =
                         (if num c \<noteq> 0
                          then let n = 128 - num c; p = put (c_p c) (num c) (take n data)
                               in (c\<lparr>c_p := p, num := 0, c_h := sha512_block_data_order (c_h c) p 1\<rparr>, drop n data)
                          else (c, data));
                       (c, data) =
                         (if 128 \<le> length data
                          then (c\<lparr>c_h := sha512_block_data_order (c_h c) data (length data div 128)\<rparr>,
                                drop (length data - length data mod 128) data)
                          else (c, data))
                   in if length data \<noteq> 0 then c\<lparr>c_p := put (c_p c) 0 data, num := length data\<rparr> else c)"

definition be64 :: "64 word \<Rightarrow> bytes" where
  "be64 t = [ucast (drop_bit 56 t), ucast (drop_bit 48 t), ucast (drop_bit 40 t), ucast (drop_bit 32 t),
     ucast (drop_bit 24 t), ucast (drop_bit 16 t), ucast (drop_bit 8 t), ucast t]"

text \<open>The padding and the last blocks: the hash value and the buffer they leave.\<close>

definition final_blocks :: "SHA512_CTX \<Rightarrow> 64 word list \<times> bytes" where
  "final_blocks c =
     (let n = num c;
          p = (c_p c)[n := 0x80];
          n = n + 1;
          (h, p, n) = (if 128 - 16 < n
             then let p = put p n (replicate (128 - n) 0) in (sha512_block_data_order (c_h c) p 1, p, 0)
             else (c_h c, p, n));
          p = put p n (replicate (128 - 16 - n) 0);
          p = put p 112 (be64 (Nh c) @ be64 (Nl c))
      in (sha512_block_data_order h p 1, p))"

text \<open>The \<open>switch\<close> on the length of the digest: its bytes, or nothing for a length it does not know.\<close>

definition digest_bytes :: "nat \<Rightarrow> 64 word list \<Rightarrow> bytes option" where
  "digest_bytes len h =
     (if len = 28 then Some (concat (map (\<lambda>n. be64 (h ! n)) [0..<28 div 8]) @ take 4 (be64 (h ! (28 div 8))))
      else if len \<in> {32, 48, 64} then Some (concat (map (\<lambda>n. be64 (h ! n)) [0..<len div 8]))
      else None)"

definition SHA512_Final :: "SHA512_CTX \<Rightarrow> SHA512_CTX \<times> bytes option" where
  "SHA512_Final c = (let (h, p) = final_blocks c in (c\<lparr>c_h := h, c_p := p\<rparr>, digest_bytes (md_len c) h))"

definition SHA512_Transform :: "SHA512_CTX \<Rightarrow> bytes \<Rightarrow> SHA512_CTX" where
  "SHA512_Transform c data = c\<lparr>c_h := sha512_block_data_order (c_h c) data 1\<rparr>"

text \<open>The one-shot functions; the context on the stack is initialised before it is used.\<close>

definition sha512_local :: SHA512_CTX where
  "sha512_local = \<lparr>c_h = replicate 8 0, Nl = 0, Nh = 0, c_p = replicate 128 0, num = 0, md_len = 0\<rparr>"

definition SHA384 :: "bytes \<Rightarrow> bytes option" where
  "SHA384 d = snd (SHA512_Final (SHA512_Update (SHA384_Init sha512_local) d))"

definition SHA512 :: "bytes \<Rightarrow> bytes option" where
  "SHA512 d = snd (SHA512_Final (SHA512_Update (SHA512_Init sha512_local) d))"

section \<open>The specification of FIPS 180-4\<close>

definition rotr64 :: "nat \<Rightarrow> 64 word \<Rightarrow> 64 word" where
  "rotr64 n x = word_rotr n x"

text \<open>The message schedule of a block of sixteen words, a round, the rounds, the compression.\<close>

fun fips512_W :: "64 word list \<Rightarrow> nat \<Rightarrow> 64 word" where
  "fips512_W M t = (if t < 16 then M ! t
     else (rotr64 19 (fips512_W M (t - 2)) XOR rotr64 61 (fips512_W M (t - 2)) XOR drop_bit 6 (fips512_W M (t - 2))) + fips512_W M (t - 7) +
       (rotr64 1 (fips512_W M (t - 15)) XOR rotr64 8 (fips512_W M (t - 15)) XOR drop_bit 7 (fips512_W M (t - 15))) + fips512_W M (t - 16))"

declare fips512_W.simps [simp del]

definition fips512_round :: "64 word \<Rightarrow> 64 word \<Rightarrow> sha512_vars \<Rightarrow> sha512_vars" where
  "fips512_round k w v = (case v of (a, b, c, d, e, f, g, h) \<Rightarrow>
     let T1 = h + (rotr64 14 e XOR rotr64 18 e XOR rotr64 41 e) + ((e AND f) XOR (NOT e AND g)) + k + w;
         T2 = (rotr64 28 a XOR rotr64 34 a XOR rotr64 39 a) + ((a AND b) XOR (a AND c) XOR (b AND c))
     in (T1 + T2, a, b, c, d + T1, e, f, g))"

fun fips512_rounds :: "64 word list \<Rightarrow> sha512_vars \<Rightarrow> nat \<Rightarrow> sha512_vars" where
  "fips512_rounds M v 0 = v"
| "fips512_rounds M v (Suc t) = fips512_round (fips512_K ! t) (fips512_W M t) (fips512_rounds M v t)"

definition fips512_compress :: "64 word list \<Rightarrow> 64 word list \<Rightarrow> 64 word list" where
  "fips512_compress H M =
     (case fips512_rounds M (H ! 0, H ! 1, H ! 2, H ! 3, H ! 4, H ! 5, H ! 6, H ! 7) 80 of (a, b, c, d, e, f, g, h) \<Rightarrow>
        [H ! 0 + a, H ! 1 + b, H ! 2 + c, H ! 3 + d, H ! 4 + e, H ! 5 + f, H ! 6 + g, H ! 7 + h])"

definition be_words64 :: "bytes \<Rightarrow> 64 word list" where
  "be_words64 block = map (\<lambda>i. le_word (rev (take 8 (drop (8 * i) block)))) [0..<16]"

section \<open>The block function is the loop\<close>

lemma rotr64_or: "0 < n \<Longrightarrow> n < 64 \<Longrightarrow> ROTR64 x n = rotr64 n x"
proof (rule bit_word_eqI)
  fix i assume a: "0 < n" "n < 64" "i < LENGTH(64)"
  show "bit (ROTR64 x n) i \<longleftrightarrow> bit (rotr64 n x) i"
  proof (cases "i + n < 64")
    case True
    then have "\<not> 64 - n \<le> i" by linarith
    then show ?thesis using a True unfolding rotr64_def ROTR64_def by (simp add: bit_simps add.commute)
  next
    case False
    then have "(i + n) mod 64 = i + n - 64" "\<not> bit x (n + i)" "64 - n \<le> i"
      using a bit_imp_le_length [of x "n + i"] by (auto simp: mod_if)
    then show ?thesis using a False unfolding rotr64_def ROTR64_def by (simp add: bit_simps add.commute)
  qed
qed

lemma Sigma512_rotr:
  "Sigma0_512 x = rotr64 28 x XOR rotr64 34 x XOR rotr64 39 x" "Sigma1_512 x = rotr64 14 x XOR rotr64 18 x XOR rotr64 41 x"
  "sigma0_512 x = rotr64 1 x XOR rotr64 8 x XOR drop_bit 7 x" "sigma1_512 x = rotr64 19 x XOR rotr64 61 x XOR drop_bit 6 x"
  by (simp_all add: Sigma0_512_def Sigma1_512_def sigma0_512_def sigma1_512_def rotr64_or)

text \<open>The constants of the code are those of the specification.\<close>

lemma fips512_K_eq: "fips512_K = K512"
  by (simp add: fips512_K_def first_primes_def cbrt64_1 cbrt64_2 cbrt64_3 cbrt64_4 K512_def)

lemma fips512_iv_eq: "fips512_iv = c_h (SHA512_Init c)"
  by (simp add: fips512_iv_def first_primes_def sqrt64 SHA512_Init_def)

text \<open>A macro call advances the state of the loop by one round, with the names of the variables rotated.\<close>

lemma round_step:
  assumes "fips512_rounds M v t = (a, b, c, d, e, f, g, h)" "T1 = fips512_W M t" "ROUND_00_15 t T1 a b c d e f g h = (d', h')"
  shows "fips512_rounds M v (Suc t) = (h', a, b, c, d', e, f, g)"
  using assms by (auto simp: fips512_round_def fips512_K_eq ROUND_00_15_def Let_def Sigma512_rotr Ch_512_def Maj_512_def ac_simps)

lemma PULL64_word: "8 * i + 8 \<le> length inp \<Longrightarrow> PULL64 inp i = le_word (rev (take 8 (drop (8 * i) inp)))"
proof -
  assume l: "8 * i + 8 \<le> length inp"
  define b where "b = take 8 (drop (8 * i) inp)"
  have n: "inp ! (8 * i + j) = b ! j" if "j < 8" for j using l that unfolding b_def by simp
  obtain b0 b1 b2 b3 b4 b5 b6 b7 where b: "b = [b0, b1, b2, b3, b4, b5, b6, b7]"
  proof -
    have "length b = Suc (Suc (Suc (Suc (Suc (Suc (Suc (Suc 0)))))))" using l unfolding b_def by simp
    then show ?thesis using that by (auto simp: length_Suc_conv)
  qed
  show ?thesis unfolding b_def [symmetric] b
    by (simp add: PULL64_def Let_def n n [of 0, simplified] n [of 1, simplified] n [of 2, simplified] b push_bit_or push_bit_push_bit or.assoc or.commute or.left_commute)
qed

lemma be_words64_nth: "length inp = 128 \<Longrightarrow> i < 16 \<Longrightarrow> be_words64 inp ! i = PULL64 inp i"
  by (simp add: be_words64_def PULL64_word)

lemma W_first: "t < 16 \<Longrightarrow> M ! t = x \<Longrightarrow> x = fips512_W M t"
  by (simp add: fips512_W.simps [of _ t])

text \<open>The window holds the last sixteen words of the schedule, each at its index modulo 16.\<close>

definition window :: "64 word list \<Rightarrow> nat \<Rightarrow> 64 word list \<Rightarrow> bool" where
  "window M t X \<longleftrightarrow> length X = 16 \<and> (\<forall>u. t - 16 \<le> u \<and> u < t \<longrightarrow> X ! (u mod 16) = fips512_W M u)"

lemma W_window:
  assumes "window M t X" "16 \<le> t" "t mod 16 = j"
  shows "X ! (j mod 16) + (sigma0_512 (X ! ((j + 1) mod 16)) + sigma1_512 (X ! ((j + 14) mod 16)) + X ! ((j + 9) mod 16)) = fips512_W M t"
proof -
  have at: "X ! ((j + k) mod 16) = fips512_W M (t + k - 16)" if "k < 16" for k
  proof -
    have "(j + k) mod 16 = (t + k - 16) mod 16"
    proof -
      have "(t + k - 16) mod 16 = (t + k - 16 + 16) mod 16" by simp
      also have "t + k - 16 + 16 = t + k" using assms(2) by simp
      finally show ?thesis using assms(3) by (metis mod_add_left_eq)
    qed
    moreover have "t - 16 \<le> t + k - 16" "t + k - 16 < t" using that assms(2) by linarith+
    ultimately show ?thesis using assms(1) unfolding window_def by metis
  qed
  have i: "t + 0 - 16 = t - 16" "t + 1 - 16 = t - 15" "t + 14 - 16 = t - 2" "t + 9 - 16 = t - 7" using assms(2) by auto
  have x: "X ! (j mod 16) = fips512_W M (t - 16)" "X ! ((j + 1) mod 16) = fips512_W M (t - 15)"
    "X ! ((j + 14) mod 16) = fips512_W M (t - 2)" "X ! ((j + 9) mod 16) = fips512_W M (t - 7)"
    using at [of 0] at [of 1] at [of 14] at [of 9] unfolding i by simp_all
  show ?thesis unfolding x using assms(2) by (subst (5) fips512_W.simps) (simp add: Sigma512_rotr ac_simps)
qed

lemma window_next:
  assumes "window M t X" "16 \<le> t" "t mod 16 = j" "w = fips512_W M t"
  shows "window M (Suc t) (X[j mod 16 := w])"
proof -
  have "X[j mod 16 := w] ! (u mod 16) = fips512_W M u" if "Suc t - 16 \<le> u" "u < Suc t" for u
  proof (cases "u = t")
    case True
    then show ?thesis using assms by (simp add: window_def)
  next
    case False
    then have "u mod 16 \<noteq> t mod 16"
      using that assms(2) mod_eq_dvd_iff_nat [of u t 16] by (auto dest: dvd_imp_le)
    moreover have "X ! (u mod 16) = fips512_W M u" using assms(1) that False unfolding window_def by simp
    ultimately show ?thesis using assms(3) by simp
  qed
  then show ?thesis using assms(1) by (simp add: window_def)
qed

lemma window_step:
  assumes "fips512_rounds M v t = (a, b, c, d, e, f, g, h)" "window M t X" "t = i + j" "i mod 16 = 0" "16 \<le> i" "j < 16" "Suc t = t'"
    and "\<And>d' h' X'. fips512_rounds M v t' = (h', a, b, c, d', e, f, g) \<Longrightarrow> window M t' X' \<Longrightarrow> P (F d' h' X')"
  shows "P (let (d', h', X') = ROUND_16_80 i j a b c d e f g h X in F d' h' X')"
proof -
  have t: "16 \<le> t" "t mod 16 = j" using assms(3-6) by (simp_all add: mod_add_eq [of i 16 j, symmetric])
  define T1 where "T1 = fips512_W M t"
  note w = W_window [OF assms(2) t, folded T1_def]
  obtain d' h' where r: "ROUND_00_15 t T1 a b c d e f g h = (d', h')" by force
  have e: "ROUND_16_80 i j a b c d e f g h X = (d', h', X[j mod 16 := T1])"
    unfolding ROUND_16_80_def Let_def w assms(3) [symmetric] r by simp
  show ?thesis unfolding e
    using assms(8) [OF round_step [OF assms(1) T1_def r, unfolded assms(7)] window_next [OF assms(2) t T1_def, unfolded assms(7)]] by simp
qed

lemma first_step:
  assumes "fips512_rounds M v t = (a, b, c, d, e, f, g, h)" "t < 16" "\<And>i. i < 16 \<Longrightarrow> M ! i = PULL64 inp i" "Suc t = t'"
    and "\<And>x d' h'. x = fips512_W M t \<Longrightarrow> fips512_rounds M v t' = (h', a, b, c, d', e, f, g) \<Longrightarrow> P (F x d' h')"
  shows "P (let x = PULL64 inp t; (d', h') = ROUND_00_15 t x a b c d e f g h in F x d' h')"
proof -
  have x: "PULL64 inp t = fips512_W M t" using assms(2,3) by (intro W_first) simp_all
  obtain d' h' where r: "ROUND_00_15 t (PULL64 inp t) a b c d e f g h = (d', h')" by force
  show ?thesis using assms(5) [OF x] round_step [OF assms(1) x r] r assms(4) by simp
qed

lemma sixteen_steps:
  assumes "fips512_rounds M v i = r" "window M i X" "i mod 16 = 0" "16 \<le> i"
  shows "\<exists>X'. sha512_sixteen i (r, X) = (fips512_rounds M v (i + 16), X') \<and> window M (i + 16) X'"
proof -
  define P where "P = (\<lambda>y. \<exists>X'. y = (fips512_rounds M v (i + 16), X') \<and> window M (i + 16) X')"
  obtain a b c d e f g h where r: "r = (a, b, c, d, e, f, g, h)"
    by (metis prod.collapse)
  have 0: "fips512_rounds M v (i + 0) = (a, b, c, d, e, f, g, h)" "window M (i + 0) X" using assms r by simp_all
  have "P (sha512_sixteen i ((a, b, c, d, e, f, g, h), X))"
    unfolding sha512_sixteen_def Let_def [of "((a, b, c, d, e, f, g, h), X)"] prod.case
    apply (insert 0)
    apply ((rule window_step [where P = P, OF _ _ refl assms(3,4)], assumption, assumption, simp (no_asm),
      simp (no_asm) only: add_Suc_right [symmetric] Suc_numeral add_num_simps One_nat_def [symmetric] Suc_1)+)
    apply (simp add: P_def)
    done
  then show ?thesis unfolding r P_def .
qed

lemma window_first:
  assumes "x0 = fips512_W M 0" "x1 = fips512_W M 1" "x2 = fips512_W M 2" "x3 = fips512_W M 3" "x4 = fips512_W M 4"
    "x5 = fips512_W M 5" "x6 = fips512_W M 6" "x7 = fips512_W M 7" "x8 = fips512_W M 8" "x9 = fips512_W M 9"
    "x10 = fips512_W M 10" "x11 = fips512_W M 11" "x12 = fips512_W M 12" "x13 = fips512_W M 13" "x14 = fips512_W M 14"
    "x15 = fips512_W M 15"
  shows "window M 16 [x0, x1, x2, x3, x4, x5, x6, x7, x8, x9, x10, x11, x12, x13, x14, x15]"
proof -
  have e: "[x0, x1, x2, x3, x4, x5, x6, x7, x8, x9, x10, x11, x12, x13, x14, x15] = map (fips512_W M) [0..<16]"
    using assms by (simp add: upt_rec numeral_eq_Suc)
  show ?thesis unfolding e window_def by auto
qed

lemma first_steps:
  assumes "\<And>i. i < 16 \<Longrightarrow> M ! i = PULL64 inp i"
  shows "\<exists>X. sha512_first inp v = (fips512_rounds M v 16, X) \<and> window M 16 X"
proof -
  define P where "P = (\<lambda>y. \<exists>X. y = (fips512_rounds M v 16, X) \<and> window M 16 X)"
  obtain a b c d e f g h where v: "v = (a, b, c, d, e, f, g, h)"
    by (metis prod.collapse)
  have 0: "fips512_rounds M v 0 = (a, b, c, d, e, f, g, h)" using v by simp
  have "P (sha512_first inp (a, b, c, d, e, f, g, h))"
    unfolding sha512_first_def Let_def [of "(a, b, c, d, e, f, g, h)"] prod.case
    apply (insert 0)
    apply ((rule first_step [where P = P, OF _ _ assms], assumption, simp (no_asm), assumption,
      simp (no_asm) only: Suc_numeral add_num_simps One_nat_def [symmetric] Suc_1)+)
    apply (unfold P_def, rule exI, rule conjI, rule arg_cong2 [where f = Pair], erule sym, rule refl, rule window_first)
    apply assumption+
    done
  then show ?thesis unfolding v P_def .
qed

lemma PULL64_local: "i < 16 \<Longrightarrow> PULL64 (take 128 inp) i = PULL64 inp i"
  by (simp add: PULL64_def Let_def)

lemma block_fips: "128 \<le> length inp \<Longrightarrow> sha512_block H inp = fips512_compress H (be_words64 (take 128 inp))"
proof -
  assume l: "128 \<le> length inp"
  let ?M = "be_words64 (take 128 inp)" and ?v = "(H ! 0, H ! 1, H ! 2, H ! 3, H ! 4, H ! 5, H ! 6, H ! 7)"
  have M: "i < 16 \<Longrightarrow> ?M ! i = PULL64 inp i" for i
    using be_words64_nth [of "take 128 inp" i] l by (simp add: PULL64_local)
  obtain X where X: "sha512_first inp ?v = (fips512_rounds ?M ?v 16, X)" "window ?M 16 X"
    using first_steps [of ?M inp ?v] M by blast
  obtain X1 where X1: "sha512_sixteen 16 (fips512_rounds ?M ?v 16, X) = (fips512_rounds ?M ?v 32, X1)" "window ?M 32 X1"
    using sixteen_steps [OF refl X(2), of ?v] by auto
  obtain X2 where X2: "sha512_sixteen 32 (fips512_rounds ?M ?v 32, X1) = (fips512_rounds ?M ?v 48, X2)" "window ?M 48 X2"
    using sixteen_steps [OF refl X1(2), of ?v] by auto
  obtain X3 where X3: "sha512_sixteen 48 (fips512_rounds ?M ?v 48, X2) = (fips512_rounds ?M ?v 64, X3)" "window ?M 64 X3"
    using sixteen_steps [OF refl X2(2), of ?v] by auto
  obtain X4 where X4: "sha512_sixteen 64 (fips512_rounds ?M ?v 64, X3) = (fips512_rounds ?M ?v 80, X4)"
    using sixteen_steps [OF refl X3(2), of ?v] by auto
  have "fold sha512_sixteen [16, 32, 48, 64] (sha512_first inp ?v) = (fips512_rounds ?M ?v 80, X4)"
    by (simp only: fold.simps comp_apply id_apply X(1) X1(1) X2(1) X3(1) X4)
  moreover obtain a b c d e f g h where "fips512_rounds ?M ?v 80 = (a, b, c, d, e, f, g, h)"
    by (metis prod.collapse)
  ultimately show ?thesis unfolding sha512_block_def fips512_compress_def by (simp only: Let_def prod.case)
qed

section \<open>The digest of a message\<close>

text \<open>The hash value after all full blocks of a message.\<close>

function sha512_blocks :: "64 word list \<Rightarrow> bytes \<Rightarrow> 64 word list" where
  "sha512_blocks H m = (if length m < 128 then H else sha512_blocks (fips512_compress H (be_words64 (take 128 m))) (drop 128 m))"
  by pat_completeness auto
termination by (relation "measure (\<lambda>(H, m). length m)") auto

declare sha512_blocks.simps [simp del]

lemma sha512_blocks_short: "length m < 128 \<Longrightarrow> sha512_blocks H m = H"
  by (simp add: sha512_blocks.simps)

lemma sha512_blocks_cons: "length b = 128 \<Longrightarrow> sha512_blocks H (b @ m) = sha512_blocks (fips512_compress H (be_words64 b)) m"
  by (simp add: sha512_blocks.simps [of H "b @ m"])

lemma sha512_blocks_append: "128 dvd length p \<Longrightarrow> sha512_blocks H (p @ q) = sha512_blocks (sha512_blocks H p) q"
proof (induction H p rule: sha512_blocks.induct)
  case (1 H p)
  show ?case
  proof (cases "length p < 128")
    case True
    then have "p = []" using 1(2) by (auto dest: dvd_imp_le)
    then show ?thesis by (simp add: sha512_blocks_short)
  next
    case False
    then have "128 dvd length (drop 128 p)" using 1(2) by (simp add: dvd_diff_nat)
    moreover have e: "p @ q = take 128 p @ drop 128 p @ q" by (simp only: append.assoc [symmetric] append_take_drop_id)
    ultimately show ?thesis unfolding e using False 1(1) sha512_blocks_cons [of "take 128 p" H "drop 128 p @ q"]
      sha512_blocks_cons [of "take 128 p" H "drop 128 p"] by simp
  qed
qed

lemma data_order_spec: "128 * n \<le> length inp \<Longrightarrow> sha512_block_data_order s inp n = sha512_blocks s (take (128 * n) inp)"
proof (induction n arbitrary: s inp)
  case (Suc n)
  have l: "length (take 128 inp) = 128" using Suc.prems by simp
  have e: "take (128 * Suc n) inp = take 128 inp @ take (128 * n) (drop 128 inp)" by (simp add: take_add)
  have "sha512_block s inp = fips512_compress s (be_words64 (take 128 inp))"
    by (rule block_fips) (use Suc.prems in simp)
  then show ?case using Suc.prems Suc.IH [of "drop 128 inp"] unfolding e sha512_blocks_cons [OF l] by simp
qed (simp add: sha512_blocks_short)

text \<open>
  A context that holds the message \<open>m\<close>: the full blocks are in the hash value, the rest is in the
  buffer. One that has absorbed it also has its length in bits modulo \<open>2 ^ 128\<close> in the counters.
\<close>

definition held512 :: "64 word list \<Rightarrow> SHA512_CTX \<Rightarrow> bytes \<Rightarrow> bool" where
  "held512 iv c m \<longleftrightarrow> length (c_p c) = 128 \<and>
     (\<exists>p r. m = p @ r \<and> 128 dvd length p \<and> length r < 128 \<and> num c = length r \<and> c_h c = sha512_blocks iv p \<and>
        take (length r) (c_p c) = r)"

definition absorbed512 :: "64 word list \<Rightarrow> SHA512_CTX \<Rightarrow> bytes \<Rightarrow> bool" where
  "absorbed512 iv c m \<longleftrightarrow> held512 iv c m \<and> 2 ^ 64 * uint (Nh c) + uint (Nl c) = int (8 * length m) mod 2 ^ 128"

lemma high_mod: "0 \<le> l \<Longrightarrow> l < 2 ^ 64 \<Longrightarrow> 2 ^ 64 * (x mod 2 ^ 64) + l = (2 ^ 64 * x + l) mod 2 ^ 128" for x l :: int
proof -
  assume l: "0 \<le> l" "l < 2 ^ 64"
  have x: "0 \<le> x mod 2 ^ 64" "x mod 2 ^ 64 < 2 ^ 64" by simp_all
  have "2 ^ 64 * x + l = 2 ^ 64 * (x mod 2 ^ 64) + l + 2 ^ 128 * (x div 2 ^ 64)"
  proof -
    have "2 ^ 64 * (2 ^ 64 * q + t) + l = 2 ^ 64 * t + l + 2 ^ 128 * q" for q t :: int by simp
    from this [of "x div 2 ^ 64" "x mod 2 ^ 64"] show ?thesis by (simp only: mult_div_mod_eq)
  qed
  moreover have "(2 ^ 64 * (x mod 2 ^ 64) + l) mod 2 ^ 128 = 2 ^ 64 * (x mod 2 ^ 64) + l"
    using l x by (intro mod_pos_pos_trivial) simp_all
  ultimately show ?thesis by (simp only: mod_mult_self2)
qed

lemma bit_counter:
  fixes nl nh len :: "64 word"
  shows "2 ^ 64 * uint (nh + of_bool (nl + push_bit 3 len < nl) + drop_bit 61 len) + uint (nl + push_bit 3 len) =
    (2 ^ 64 * uint nh + uint nl + 8 * uint len) mod 2 ^ 128"
proof -
  let ?c = "of_bool (nl + push_bit 3 len < nl)"
  have c: "uint (nl + push_bit 3 len) + 2 ^ 64 * ?c = uint nl + uint (push_bit 3 len)"
    using carry64 [of "push_bit 3 len" nl] by (simp only: add.commute)
  have p: "uint (push_bit 3 len) = 8 * uint len mod 2 ^ 64"
    unfolding unsigned_push_bit_eq by (simp add: push_bit_eq_mult take_bit_eq_mod mult.commute)
  have d: "8 * uint len mod 2 ^ 64 + 2 ^ 64 * (uint len div 2 ^ 61) = 8 * uint len"
  proof -
    have "8 * uint len div 2 ^ 64 = uint len div 2 ^ 61" by simp
    then show ?thesis using mod_mult_div_eq [of "8 * uint len" "2 ^ 64"] by simp
  qed
  have h: "uint (nh + ?c + drop_bit 61 len) = (uint nh + ?c + uint len div 2 ^ 61) mod 2 ^ 64"
    by (simp add: uint_word_ariths uint_drop mod_simps)
  have "2 ^ 64 * uint (nh + ?c + drop_bit 61 len) + uint (nl + push_bit 3 len) =
      (2 ^ 64 * (uint nh + ?c + uint len div 2 ^ 61) + uint (nl + push_bit 3 len)) mod 2 ^ 128"
    unfolding h by (rule high_mod) (use u64_bounds [of "nl + push_bit 3 len"] in simp_all)
  also have "2 ^ 64 * (uint nh + ?c + uint len div 2 ^ 61) + uint (nl + push_bit 3 len) = 2 ^ 64 * uint nh + uint nl + 8 * uint len"
    using c p d by (simp add: algebra_simps)
  finally show ?thesis .
qed

lemma counted:
  fixes nh nl :: "64 word"
  assumes "2 ^ 64 * uint nh + uint nl = int (8 * n) mod 2 ^ 128" "k < 2 ^ 64"
  shows "2 ^ 64 * uint (nh + of_bool (nl + push_bit 3 (of_nat k) < nl) + drop_bit 61 (of_nat k)) + uint (nl + push_bit 3 (of_nat k :: 64 word)) =
    int (8 * (n + k)) mod 2 ^ 128"
proof -
  have "uint (of_nat k :: 64 word) = int k" using assms(2) by (simp add: unsigned_of_nat take_bit_nat_eq_self)
  then show ?thesis unfolding bit_counter assms(1) by (simp add: mod_simps algebra_simps)
qed

lemma put_full512: "length buf = 128 \<Longrightarrow> length r \<le> 128 \<Longrightarrow> take (length r) buf = r \<Longrightarrow> length d = 128 - length r \<Longrightarrow> put buf (length r) d = r @ d"
  by (simp add: put_def)

lemma put_part512: "length buf = 128 \<Longrightarrow> length r + length d \<le> 128 \<Longrightarrow> take (length r) buf = r \<Longrightarrow>
    take (length r + length d) (put buf (length r) d) = r @ d \<and> length (put buf (length r) d) = 128"
  by (simp add: put_def min_def)

text \<open>The last two steps of an update: full blocks straight from the data, the rest into the buffer.\<close>

definition update_tail :: "SHA512_CTX \<Rightarrow> bytes \<Rightarrow> SHA512_CTX" where
  "update_tail c data =
     (let (c, data) =
            (if 128 \<le> length data
             then (c\<lparr>c_h := sha512_block_data_order (c_h c) data (length data div 128)\<rparr>,
                   drop (length data - length data mod 128) data)
             else (c, data))
      in if length data \<noteq> 0 then c\<lparr>c_p := put (c_p c) 0 data, num := length data\<rparr> else c)"

lemma tail_counters [simp]: "Nh (update_tail c data) = Nh c" "Nl (update_tail c data) = Nl c" "md_len (update_tail c data) = md_len c"
  by (simp_all add: update_tail_def Let_def)

lemma tail_holds:
  assumes "held512 iv c m" "num c = 0"
  shows "held512 iv (update_tail c data) (m @ data)"
proof -
  let ?k = "length data div 128"
  let ?rest = "drop (128 * ?k) data" and ?h = "sha512_blocks (c_h c) (take (128 * ?k) data)"
  have m: "length (c_p c) = 128" "c_h c = sha512_blocks iv m" "128 dvd length m"
    using assms unfolding held512_def by auto
  have s: "update_tail c data = (if ?rest \<noteq> [] then c\<lparr>c_h := ?h, c_p := put (c_p c) 0 ?rest, num := length ?rest\<rparr> else c\<lparr>c_h := ?h\<rparr>)"
  proof (cases "128 \<le> length data")
    case True
    have "length data - length data mod 128 = 128 * ?k" by (simp add: minus_mod_eq_mult_div)
    then show ?thesis using True data_order_spec [of ?k data "c_h c"] by (simp add: update_tail_def)
  next
    case False
    then show ?thesis by (simp add: update_tail_def sha512_blocks_short)
  qed
  have r: "length ?rest < 128" by (simp add: minus_mult_div_eq_mod)
  have f: "held512 iv (c\<lparr>c_h := ?h, c_p := b, num := length ?rest\<rparr>) (m @ data)"
    if "length b = 128" "take (length ?rest) b = ?rest" for b
    unfolding held512_def
  proof (intro conjI exI)
    show "m @ data = (m @ take (128 * ?k) data) @ ?rest" by simp
    have "length (take (128 * ?k) data) = 128 * ?k" by simp
    then have "128 dvd length (take (128 * ?k) data)" by (simp only: dvd_triv_left)
    then show "128 dvd length (m @ take (128 * ?k) data)" using m(3) by simp
    show "c_h (c\<lparr>c_h := ?h, c_p := b, num := length ?rest\<rparr>) = sha512_blocks iv (m @ take (128 * ?k) data)"
      using m by (simp add: sha512_blocks_append)
  qed (use that r in simp_all)
  show ?thesis
  proof (cases "?rest = []")
    case True
    then have "update_tail c data = c\<lparr>c_h := ?h, c_p := c_p c, num := length ?rest\<rparr>"
      unfolding s using assms(2) by simp
    then show ?thesis using f [of "c_p c"] m(1) True by simp
  next
    case False
    then show ?thesis unfolding s using f [of "put (c_p c) 0 ?rest"] put_part512 [of "c_p c" "[]" ?rest] m(1) r by simp
  qed
qed

lemma update_eq:
  fixes c :: SHA512_CTX
  defines "nl \<equiv> \<lambda>data. Nl c + push_bit 3 (of_nat (length data))"
  defines "nh \<equiv> \<lambda>data. Nh c + of_bool (nl data < Nl c) + drop_bit 61 (of_nat (length data))"
  defines "c' \<equiv> \<lambda>data. c\<lparr>Nh := nh data, Nl := nl data\<rparr>"
  assumes "data \<noteq> []"
  shows "SHA512_Update c data =
      (if num c \<noteq> 0 \<and> length data < 128 - num c then (c' data)\<lparr>c_p := put (c_p c) (num c) data, num := num c + length data\<rparr>
       else if num c \<noteq> 0 then let n = 128 - num c; b = put (c_p c) (num c) (take n data) in
              update_tail ((c' data)\<lparr>c_p := b, num := 0, c_h := sha512_block_data_order (c_h c) b 1\<rparr>) (drop n data)
       else update_tail (c' data) data)"
  using assms(4) by (simp add: SHA512_Update_def update_tail_def Let_def nl_def nh_def c'_def)

lemma md_len_update [simp]: "md_len (SHA512_Update c data) = md_len c"
  by (cases "data = []") (simp add: SHA512_Update_def, simp add: update_eq Let_def)

lemma update_absorbs:
  assumes "absorbed512 iv c m" "length data < 2 ^ 64"
  shows "absorbed512 iv (SHA512_Update c data) (m @ data)"
proof (cases "data = []")
  case True
  then show ?thesis using assms by (simp add: SHA512_Update_def)
next
  case False
  define nl where "nl = Nl c + push_bit 3 (of_nat (length data))"
  define nh where "nh = Nh c + of_bool (nl < Nl c) + drop_bit 61 (of_nat (length data))"
  let ?c = "c\<lparr>Nh := nh, Nl := nl\<rparr>"
  obtain p r where a: "length (c_p c) = 128" "m = p @ r" "128 dvd length p" "length r < 128" "num c = length r"
    "c_h c = sha512_blocks iv p" "take (length r) (c_p c) = r" "2 ^ 64 * uint (Nh c) + uint (Nl c) = int (8 * length m) mod 2 ^ 128"
    using assms(1) unfolding absorbed512_def held512_def by blast
  have cnt: "2 ^ 64 * uint nh + uint nl = int (8 * length (m @ data)) mod 2 ^ 128"
    unfolding nh_def nl_def length_append by (rule counted [OF a(8) assms(2)])
  note u = update_eq [OF False, of c, folded nl_def, folded nh_def]
  have "held512 iv (SHA512_Update c data) (m @ data) \<and> Nh (SHA512_Update c data) = nh \<and> Nl (SHA512_Update c data) = nl"
  proof -
    consider (room) "num c \<noteq> 0" "length data < 128 - num c" | (full) "num c \<noteq> 0" "128 - num c \<le> length data" | (empty) "num c = 0"
      by linarith
    then show ?thesis
    proof cases
      case room
      then have "length r + length data < 128" using a(5) by simp
      then show ?thesis unfolding u using room a put_part512 [of "c_p c" r data]
        by (simp add: held512_def) (intro exI [of _ p] exI [of _ "r @ data"], simp)
    next
      case full
      let ?b = "r @ take (128 - length r) data"
      have b: "length ?b = 128" using full a(4,5) by simp
      have pf: "put (c_p c) (num c) (take (128 - num c) data) = ?b" using full a unfolding a(5) by (intro put_full512) simp_all
      have o: "sha512_block_data_order (c_h c) ?b 1 = sha512_blocks iv (p @ ?b)"
        using data_order_spec [of 1 ?b "c_h c"] b a(3,6) sha512_blocks_append [of p iv ?b] by simp
      have "held512 iv (?c\<lparr>c_p := ?b, num := 0, c_h := sha512_blocks iv (p @ ?b)\<rparr>) (p @ ?b)"
        unfolding held512_def using b a(3) by (intro conjI exI [of _ "p @ ?b"] exI [of _ "[]"]) simp_all
      from tail_holds [OF this, of "drop (128 - length r) data"]
      show ?thesis unfolding u Let_def pf o using full a(2,5) by simp
    next
      case empty
      have "held512 iv ?c m" using assms(1) unfolding absorbed512_def held512_def by simp
      from tail_holds [OF this, of data] show ?thesis unfolding u using empty by simp
    qed
  qed
  then show ?thesis using cnt unfolding absorbed512_def by simp
qed

lemma init_absorbs: "length (c_p c) = 128 \<Longrightarrow> absorbed512 (c_h (SHA512_Init c)) (SHA512_Init c) []"
  by (simp add: absorbed512_def held512_def SHA512_Init_def sha512_blocks_short)

section \<open>Finalising\<close>

text \<open>Padding as FIPS 180-4 has it, and the hash value of the padded message.\<close>

definition fips512_pad :: "bytes \<Rightarrow> bytes" where
  "fips512_pad m = m @ [0x80] @ replicate (nat ((111 - int (length m)) mod 128)) 0 @ rev (le_bytes 16 (of_nat (8 * length m) :: 128 word))"

definition fips512_value :: "64 word list \<Rightarrow> bytes \<Rightarrow> 64 word list" where
  "fips512_value iv m = sha512_blocks iv (fips512_pad m)"

definition fips_sha512 :: "bytes \<Rightarrow> bytes" where
  "fips_sha512 m = concat (map (\<lambda>w. rev (le_bytes 8 w)) (fips512_value fips512_iv m))"

lemma be64_rev: "be64 t = rev (le_bytes 8 t)"
  by (simp add: be64_def le_bytes_def upt_rec)

lemma le_bytes_16: "le_bytes 16 (x :: 128 word) = le_bytes 8 (ucast x :: 64 word) @ le_bytes 8 (ucast (drop_bit 64 x) :: 64 word)"
proof (rule nth_equalityI)
  fix i assume i: "i < length (le_bytes 16 x)"
  show "le_bytes 16 x ! i = (le_bytes 8 (ucast x :: 64 word) @ le_bytes 8 (ucast (drop_bit 64 x) :: 64 word)) ! i"
  proof (cases "i < 8")
    case True
    then show ?thesis by (intro bit_word_eqI) (auto simp: nth_append bit_le_bytes bit_simps)
  next
    case False
    then obtain j where j: "i = 8 + j" using le_Suc_ex [of 8 i] by (auto simp: not_less)
    show ?thesis using i unfolding j by (intro bit_word_eqI) (auto simp: nth_append bit_le_bytes bit_simps add.assoc)
  qed
qed simp

lemma counter_bytes:
  assumes "2 ^ 64 * uint nh + uint nl = int n mod 2 ^ 128"
  shows "be64 nh @ be64 nl = rev (le_bytes 16 (of_nat n :: 128 word))"
proof -
  let ?w = "of_nat n :: 128 word"
  have w: "uint ?w = 2 ^ 64 * uint nh + uint nl" using assms by (simp add: unsigned_of_nat take_bit_eq_mod zmod_int)
  have b: "0 \<le> uint nl" "uint nl < 2 ^ 64" using u64_bounds [of nl] by simp_all
  have "uint (ucast ?w :: 64 word) = uint ?w mod 2 ^ 64" by (simp add: unsigned_ucast_eq take_bit_eq_mod)
  then have l: "ucast ?w = nl" unfolding w using b by (intro word_uint_eqI) simp
  have "uint (ucast (drop_bit 64 ?w) :: 64 word) = uint ?w div 2 ^ 64 mod 2 ^ 64" by (simp add: unsigned_ucast_eq take_bit_eq_mod uint_drop)
  then have h: "ucast (drop_bit 64 ?w) = nh" unfolding w using b u64_bounds [of nh] by (intro word_uint_eqI) simp
  show ?thesis unfolding le_bytes_16 l h by (simp add: be64_rev)
qed

lemma put_exact: "length buf = 128 \<Longrightarrow> length r + length d = 128 \<Longrightarrow> take (length r) buf = r \<Longrightarrow> put buf (length r) d = r @ d"
  by (simp add: put_def)

lemma update_put: "n < length buf \<Longrightarrow> buf[n := x] = put buf n [x]"
  by (simp add: put_def upd_conv_take_nth_drop)

lemma pad_zeros:
  assumes "n < 128"
  shows "(111 - int (128 * q + n)) mod 128 = (if n \<le> 111 then 111 - int n else 239 - int n)"
proof -
  have "111 - int (128 * q + n) = 111 - int n + 128 * (- int q)" by simp
  then have "(111 - int (128 * q + n)) mod 128 = (111 - int n) mod 128" by (simp only: mod_mult_self2)
  also have "\<dots> = (if n \<le> 111 then 111 - int n else 239 - int n)"
  proof (cases "n \<le> 111")
    case False
    have "(111 - int n) mod 128 = (111 - int n + 128) mod 128" by (rule mod_add_self2 [symmetric])
    also have "\<dots> = 239 - int n" using assms False by (subst mod_pos_pos_trivial) simp_all
    finally show ?thesis using False by simp
  qed (simp add: mod_pos_pos_trivial)
  finally show ?thesis .
qed

text \<open>The last block, or the last two.\<close>

lemma final_hash_spec:
  assumes "absorbed512 iv c m"
  shows "fst (final_blocks c) = fips512_value iv m"
proof -
  obtain p r where a: "length (c_p c) = 128" "m = p @ r" "128 dvd length p" "length r < 128" "num c = length r"
    "c_h c = sha512_blocks iv p" "take (length r) (c_p c) = r" "2 ^ 64 * uint (Nh c) + uint (Nl c) = int (8 * length m) mod 2 ^ 128"
    using assms unfolding absorbed512_def held512_def by blast
  define L where "L = rev (le_bytes 16 (of_nat (8 * length m) :: 128 word))"
  have L: "be64 (Nh c) @ be64 (Nl c) = L" "length L = 16" unfolding L_def using counter_bytes [OF a(8)] by simp_all
  define b where "b = put (c_p c) (length r) [0x80]"
  have b: "(c_p c)[num c := 0x80] = b" unfolding b_def a(5) by (rule update_put) (use a in simp)
  have tb: "length b = 128" "take (length (r @ [0x80])) b = r @ [0x80]"
    using put_part512 [of "c_p c" r "[0x80]"] a unfolding b_def by simp_all
  have blk: "sha512_block_data_order h x 1 = sha512_blocks h x" if "length x = 128" for h x
    using data_order_spec [of 1 x h] that by simp
  obtain q where q: "length p = 128 * q" using a(3) by (rule dvdE)
  show ?thesis
  proof (cases "128 - 16 < length r + 1")
    case True
    let ?x = "r @ [0x80] @ replicate (127 - length r) 0"
    have x: "put b (length r + 1) (replicate (128 - (length r + 1)) 0) = ?x" "length ?x = 128"
      using put_exact [of b "r @ [0x80]" "replicate (127 - length r) 0"] tb a(4) by simp_all
    have y: "put ?x 0 (replicate (128 - 16 - 0) 0) = replicate 112 0 @ drop 112 ?x" by (simp add: put_def)
    have z: "put (replicate 112 0 @ drop 112 ?x) 112 L = replicate 112 0 @ L" using x(2) L(2) by (simp add: put_def)
    have zl: "length (replicate 112 0 @ L) = 128" using L(2) by simp
    have "fst (final_blocks c) = sha512_blocks (sha512_blocks (c_h c) ?x) (replicate 112 0 @ L)"
      unfolding final_blocks_def Let_def b using True
      by (simp only: a(5) if_True prod.case fst_conv SHA512_CTX.simps x(1) y L(1) z blk [OF x(2)] blk [OF zl])
    also have "\<dots> = sha512_blocks iv (p @ ?x @ replicate 112 0 @ L)"
      using x(2) a(3,6) by (simp add: sha512_blocks_append del: append_assoc append.simps)
    also have "p @ ?x @ replicate 112 0 @ L = fips512_pad m"
    proof -
      have "(111 - int (length m)) mod 128 = 239 - int (length r)"
        using pad_zeros [OF a(4), of q] True by (simp add: a(2) q)
      then have "nat ((111 - int (length m)) mod 128) = (127 - length r) + 112" using True a(4) by simp
      then show ?thesis unfolding fips512_pad_def L_def a(2) by (simp add: replicate_add)
    qed
    finally show ?thesis unfolding fips512_value_def .
  next
    case False
    let ?x = "r @ [0x80] @ replicate (111 - length r) 0"
    have tx: "take (length ?x) (put b (length r + 1) (replicate (128 - 16 - (length r + 1)) 0)) = ?x"
      "length (put b (length r + 1) (replicate (128 - 16 - (length r + 1)) 0)) = 128" "length ?x = 112"
      using put_part512 [of b "r @ [0x80]" "replicate (111 - length r) 0"] tb False by simp_all
    have y: "put (put b (length r + 1) (replicate (128 - 16 - (length r + 1)) 0)) 112 L = ?x @ L"
      using put_exact [of _ ?x L] tx L(2) by simp
    have yl: "length (?x @ L) = 128" using tx(3) L(2) by simp
    have "fst (final_blocks c) = sha512_blocks (c_h c) (?x @ L)"
      unfolding final_blocks_def Let_def b using False
      by (simp only: a(5) if_False prod.case fst_conv SHA512_CTX.simps L(1) y blk [OF yl])
    also have "\<dots> = sha512_blocks iv (p @ ?x @ L)" using a(3,6) by (simp add: sha512_blocks_append del: append_assoc append.simps)
    also have "p @ ?x @ L = fips512_pad m"
    proof -
      have "(111 - int (length m)) mod 128 = 111 - int (length r)"
        using pad_zeros [OF a(4), of q] False by (simp add: a(2) q)
      then have "nat ((111 - int (length m)) mod 128) = 111 - length r" using False by simp
      then show ?thesis unfolding fips512_pad_def L_def a(2) by simp
    qed
    finally show ?thesis unfolding fips512_value_def .
  qed
qed

lemma length_compress [simp]: "length (fips512_compress H M) = 8"
  by (simp add: fips512_compress_def split: prod.split)

lemma length_sha512_blocks: "length H = 8 \<Longrightarrow> length (sha512_blocks H m) = 8"
proof (induction H m rule: sha512_blocks.induct)
  case (1 H m)
  then show ?case by (subst sha512_blocks.simps) auto
qed

lemma length_init: "length (c_h (SHA512_Init c)) = 8"
  by (simp add: SHA512_Init_def)

lemma init_hash: "c_h (SHA512_Init c) = c_h (SHA512_Init d)"
  by (simp add: SHA512_Init_def)

lemma concat_words:
  assumes "length ws = 8"
  shows "concat (map (\<lambda>n. be64 (ws ! n)) [0..<8]) = concat (map (\<lambda>w. rev (le_bytes 8 w)) ws)"
proof -
  have "map (\<lambda>n. be64 (ws ! n)) [0..<8] = map be64 (map (\<lambda>n. ws ! n) [0..<8])" by (simp only: map_map comp_def)
  also have "map (\<lambda>n. ws ! n) [0..<8] = ws" using map_nth [of ws] assms by (simp only:)
  finally show ?thesis by (simp only: be64_rev)
qed

lemma div_64_8: "64 div 8 = (8 :: nat)"
  by simp

lemma final_spec:
  assumes "absorbed512 (c_h (SHA512_Init c0)) c m" "md_len c = 64"
  shows "snd (SHA512_Final c) = Some (fips_sha512 m)"
proof -
  have h: "fst (final_blocks c) = fips512_value (c_h (SHA512_Init sha512_local)) m"
    using final_hash_spec [OF assms(1)] init_hash [of c0 sha512_local] by simp
  have l: "length (fips512_value (c_h (SHA512_Init sha512_local)) m) = 8"
    unfolding fips512_value_def by (rule length_sha512_blocks [OF length_init])
  have "snd (SHA512_Final c) = digest_bytes 64 (fst (final_blocks c))"
    by (simp only: SHA512_Final_def Let_def case_prod_beta snd_conv assms(2))
  also have "\<dots> = Some (concat (map (\<lambda>n. be64 (fst (final_blocks c) ! n)) [0..<64 div 8]))"
    by (simp only: digest_bytes_def) simp
  also have "\<dots> = Some (fips_sha512 m)" unfolding h fips_sha512_def fips512_iv_eq [of sha512_local] concat_words [OF l, symmetric] by (simp only: div_64_8)
  finally show ?thesis .
qed

lemma length_fips_sha512 [simp]: "length (fips_sha512 m) = 64"
proof -
  have "length (fips512_value (c_h (SHA512_Init sha512_local)) m) = 8"
    unfolding fips512_value_def by (rule length_sha512_blocks [OF length_init])
  moreover have "length (concat (map (\<lambda>w :: 64 word. rev (le_bytes 8 w)) ws)) = 8 * length ws" for ws
    by (induction ws) simp_all
  ultimately show ?thesis unfolding fips_sha512_def fips512_iv_eq [of sha512_local] by simp
qed

text \<open>A context for SHA-512 that has absorbed a message: what the callers in Spark keep.\<close>

definition sha512_ctx :: "SHA512_CTX \<Rightarrow> bytes \<Rightarrow> bool" where
  "sha512_ctx c m \<longleftrightarrow> absorbed512 (c_h (SHA512_Init sha512_local)) c m \<and> md_len c = 64"

lemma ctx_init: "length (c_p c) = 128 \<Longrightarrow> sha512_ctx (SHA512_Init c) []"
  using init_absorbs [of c] init_hash [of c sha512_local] by (simp add: sha512_ctx_def) (simp add: SHA512_Init_def)

lemma ctx_update: "sha512_ctx c m \<Longrightarrow> length d < 2 ^ 64 \<Longrightarrow> sha512_ctx (SHA512_Update c d) (m @ d)"
  unfolding sha512_ctx_def using update_absorbs by simp

lemma ctx_final: "sha512_ctx c m \<Longrightarrow> snd (SHA512_Final c) = Some (fips_sha512 m)"
  unfolding sha512_ctx_def using final_spec by blast

lemma ctx_fold: "sha512_ctx c m \<Longrightarrow> \<forall>p\<in>set ps. length p < 2 ^ 64 \<Longrightarrow>
  sha512_ctx (fold (\<lambda>p c. SHA512_Update c p) ps c) (m @ concat ps)"
proof (induction ps arbitrary: c m)
  case (Cons p ps)
  then show ?case using Cons.IH [OF ctx_update [OF Cons.prems(1), of p]] by simp
qed simp

lemma sha512_local_buffer: "length (c_p sha512_local) = 128"
  by (simp add: sha512_local_def)
section \<open>Properties\<close>

text \<open>
  On a full block, OpenSSL's unrolled block function with its sixteen-word window computes
  the compression function of FIPS 180-4: eighty rounds over the schedule of eighty words.
\<close>

lemma sha512_block_is_fips_compression:
  assumes "128 \<le> length inp"
  shows "sha512_block H inp = fips512_compress H (be_words64 (take 128 inp))"
  using assms by (rule block_fips)

text \<open>
  C40: however a message is cut into pieces, updating a fresh context with the pieces one after
  the other and finalising gives the SHA-512 of the whole message as FIPS 180-4 defines it, with
  the 128-bit length of the padding kept in the two 64-bit counters. The buffer of a context has 128 bytes
  and a piece fewer than \<open>2^64\<close>. The initial hash value and the
  round constants of the definition are computed from the square and cube roots of the first primes, not
  taken from the code.
\<close>

theorem sha512_of_pieces:
  assumes "length (c_p c) = 128" and "\<forall>p\<in>set pieces. length p < 2 ^ 64"
  shows "snd (SHA512_Final (fold (\<lambda>p c. SHA512_Update c p) pieces (SHA512_Init c))) = Some (fips_sha512 (concat pieces))"
  using ctx_final [OF ctx_fold [OF ctx_init [OF assms(1)] assms(2)]] by simp

theorem sha512_of_pieces_witness:
  "snd (SHA512_Final (fold (\<lambda>p c. SHA512_Update c p) [[97], [], [98, 99]] (SHA512_Init sha512_local))) = Some (fips_sha512 [97, 98, 99])"
  using sha512_of_pieces [of sha512_local "[[97], [], [98, 99]]"] by (simp add: sha512_local_def)

end
