(* ===== verification/GroupElement.thy ===== *)
theory GroupElement
  imports GroupAdd FieldBytes ScalarImpl
begin

text \<open>
  The class \<open>GroupElement\<close> of \<open>secp256k1/src/cpp/GroupElement.cpp\<close>: points in Jacobian
  coordinates with their 34-byte encoding. The class keeps the C \<open>int\<close> behind the infinity flag:
  \<open>deserialize\<close> stores a whole byte there and \<open>serialize\<close> writes it back, so it is a field of its own
  (\<open>ge_ok\<close> ties it to the truth value the point arithmetic tests). The lemmas show that decoding gives
  points of the curve and that a canonical encoding is what \<open>serialize\<close> writes.
\<close>

section \<open>The class\<close>

record GroupElement =
  ge_g :: secp256k1_gej
  ge_flag :: int

definition ge_ok :: "GroupElement \<Rightarrow> bool" where
  "ge_ok e \<longleftrightarrow> (gej_inf (ge_g e) \<longleftrightarrow> ge_flag e \<noteq> 0)"

definition gej_to_ge :: "secp256k1_gej \<Rightarrow> secp256k1_ge" where
  "gej_to_ge gej = fst (secp256k1_ge_set_gej gej)"

definition GroupElement_new :: GroupElement where
  "GroupElement_new = \<lparr>ge_g = secp256k1_gej_clear\<lparr>gej_inf := True\<rparr>, ge_flag = 1\<rparr>"

definition GroupElement_set_base_g :: "GroupElement \<Rightarrow> GroupElement" where
  "GroupElement_set_base_g e = \<lparr>ge_g = secp256k1_gej_set_ge secp256k1_ge_const_g, ge_flag = 0\<rparr>"

text \<open>
  The flag that an addition writes: it copies an operand when the other one is infinite, and stores
  0 or 1 otherwise. \<open>loc\<close> is what the uninitialised local result holds: the sum of a point and its
  inverse keeps these coordinates.
\<close>

definition add_flag :: "GroupElement \<Rightarrow> GroupElement \<Rightarrow> secp256k1_gej \<Rightarrow> int" where
  "add_flag a b r = (if gej_inf (ge_g a) then ge_flag b else if gej_inf (ge_g b) then ge_flag a else of_bool (gej_inf r))"

definition GroupElement_plus :: "secp256k1_gej \<Rightarrow> GroupElement \<Rightarrow> GroupElement \<Rightarrow> GroupElement" where
  "GroupElement_plus loc a b =
     (let r = fst (secp256k1_gej_add_var loc (ge_g a) (ge_g b) None) in \<lparr>ge_g = r, ge_flag = add_flag a b r\<rparr>)"

definition GroupElement_plus_assign :: "GroupElement \<Rightarrow> GroupElement \<Rightarrow> GroupElement" where
  "GroupElement_plus_assign a b = GroupElement_plus (ge_g a) a b"

definition GroupElement_inverse :: "GroupElement \<Rightarrow> GroupElement" where
  "GroupElement_inverse e = \<lparr>ge_g = secp256k1_gej_neg (ge_g e), ge_flag = ge_flag e\<rparr>"

definition GroupElement_square :: "GroupElement \<Rightarrow> GroupElement" where
  "GroupElement_square e = \<lparr>ge_g = fst (secp256k1_gej_double_var (ge_g e) (ge_g e) None), ge_flag = ge_flag e\<rparr>"

definition GroupElement_eq :: "GroupElement \<Rightarrow> GroupElement \<Rightarrow> bool" where
  "GroupElement_eq e other =
     (if gej_inf (ge_g e) \<and> gej_inf (ge_g other) then True
      else if ge_flag e \<noteq> ge_flag other then False
      else let this_ge = gej_to_ge (ge_g e); other_ge = gej_to_ge (ge_g other)
           in if \<not> secp256k1_fe_equal (ge_x this_ge) (ge_x other_ge) then False
              else if \<not> secp256k1_fe_equal (ge_y this_ge) (ge_y other_ge) then False
              else True)"

definition GroupElement_isMember :: "GroupElement \<Rightarrow> bool" where
  "GroupElement_isMember e =
     (let v1 = gej_to_ge (ge_g e) in if secp256k1_ge_is_infinity v1 then True else secp256k1_ge_is_valid_var v1)"

definition GroupElement_isInfinity :: "GroupElement \<Rightarrow> bool" where
  "GroupElement_isInfinity e = secp256k1_gej_is_infinity (ge_g e)"

text \<open>The members that write bytes. \<open>getvch\<close> is \<open>serialize\<close> into a vector.\<close>

definition GroupElement_serialize :: "GroupElement \<Rightarrow> bytes" where
  "GroupElement_serialize e =
     (let v = gej_to_ge (ge_g e);
          x = secp256k1_fe_normalize (ge_x v);
          y = secp256k1_fe_normalize (ge_y v);
          oddness = of_bool (secp256k1_fe_is_odd y);
          infinity = of_int (ge_flag e)
      in secp256k1_fe_get_b32 x @ [oddness] @ [infinity])"

definition GroupElement_deserialize :: "bytes \<Rightarrow> GroupElement res" where
  "GroupElement_deserialize buffer =
     (let x = snd (secp256k1_fe_set_b32 (take 32 buffer));
          oddness = buffer ! 32;
          infinity = buffer ! 33;
          r = snd (secp256k1_ge_set_xo_var x (uint oddness));
          r = r\<lparr>ge_inf := infinity \<noteq> 0\<rparr>
      in if \<not> secp256k1_ge_is_valid_var r \<and> \<not> ge_inf r then Inl (Invalid_Argument ''GroupElement: deserialize failed'')
         else Inr \<lparr>ge_g = secp256k1_gej_set_ge r, ge_flag = uint infinity\<rparr>)"

definition GroupElement_getvch :: "GroupElement \<Rightarrow> bytes" where
  "GroupElement_getvch e = GroupElement_serialize e"

definition GroupElement_sha256 :: "GroupElement \<Rightarrow> bytes" where
  "GroupElement_sha256 e =
     (let buff = secp256k1_fe_get_b32 (gej_x (ge_g e)) @ secp256k1_fe_get_b32 (gej_y (ge_g e));
          sha256 = secp256k1_rfc6979_hmac_sha256_initialize buff
      in snd (secp256k1_rfc6979_hmac_sha256_generate sha256 32))"

definition GroupElement_normalSha256 :: "GroupElement \<Rightarrow> bytes" where
  "GroupElement_normalSha256 e =
     (let tmp = e; g = ge_g tmp;
          g = g\<lparr>gej_x := secp256k1_fe_normalize (gej_x g)\<rparr>;
          g = g\<lparr>gej_y := secp256k1_fe_normalize (gej_y g)\<rparr>
      in GroupElement_sha256 (tmp\<lparr>ge_g := g\<rparr>))"

definition GroupElement_get_hash :: "GroupElement \<Rightarrow> 64 word" where
  "GroupElement_get_hash e = (let x = secp256k1_fe_normalize (gej_x (ge_g e)) in fe0 x XOR push_bit 16 (fe1 x))"

section \<open>Hashing to a point\<close>

definition indifferent_c :: secp256k1_fe where
  "indifferent_c = SECP256K1_FE_CONST 0x0a2d2ba9 0x3507f1df 0x233770c2 0xa797962c 0xc61f6d15 0xda14ecd4 0x7d8d27ae 0x1cd5f852"

definition indifferent_d :: secp256k1_fe where
  "indifferent_d = SECP256K1_FE_CONST 0x851695d4 0x9a83f8ef 0x919bb861 0x53cbcb16 0x630fb68a 0xed0a766a 0x3ec693d6 0x8e6afa40"

text \<open>The three candidates for the \<open>x\<close> coordinate.\<close>

definition indifferent_candidates :: "secp256k1_fe \<Rightarrow> secp256k1_fe \<times> secp256k1_fe \<times> secp256k1_fe" where
  "indifferent_candidates t =
     (let b_plus_one = SECP256K1_FE_CONST 0 0 0 0 0 0 0 8;
          wn = secp256k1_fe_mul indifferent_c t;
          wd = secp256k1_fe_sqr t; wd = secp256k1_fe_add wd b_plus_one;
          tmp = secp256k1_fe_mul t wn; tmp = secp256k1_fe_negate tmp 1;
          x1n = secp256k1_fe_mul indifferent_d wd; x1n = secp256k1_fe_add x1n tmp;
          x2n = x1n; x2n = secp256k1_fe_add x2n wd; x2n = secp256k1_fe_negate x2n 5;
          x3d = secp256k1_fe_mul indifferent_c t; x3d = secp256k1_fe_sqr x3d;
          x3n = secp256k1_fe_sqr wd; x3n = secp256k1_fe_add x3n x3d;
          jinv = secp256k1_fe_mul x3d wd; jinv = secp256k1_fe_inv jinv;
          x1 = secp256k1_fe_mul x1n x3d; x1 = secp256k1_fe_mul x1 jinv;
          x2 = secp256k1_fe_mul x2n x3d; x2 = secp256k1_fe_mul x2 jinv;
          x3 = secp256k1_fe_mul x3n wd; x3 = secp256k1_fe_mul x3 jinv
      in (x1, x2, x3))"

text \<open>\<open>x^3 + 7\<close>, the argument of the square roots.\<close>

definition curve_rhs :: "secp256k1_fe \<Rightarrow> secp256k1_fe" where
  "curve_rhs x =
     (let r = secp256k1_fe_sqr x; r = secp256k1_fe_mul r x in secp256k1_fe_add r (SECP256K1_FE_CONST 0 0 0 0 0 0 0 7))"

definition indifferent_hash :: "secp256k1_fe \<Rightarrow> secp256k1_ge" where
  "indifferent_hash t =
     (let (x1, x2, x3) = indifferent_candidates t;
          (alphaquad, y1) = secp256k1_fe_sqrt (curve_rhs x1);
          (betaquad, y2) = secp256k1_fe_sqrt (curve_rhs x2);
          (_, y3) = secp256k1_fe_sqrt (curve_rhs x3);
          x1 = secp256k1_fe_cmov x1 x2 (of_bool (\<not> alphaquad \<and> betaquad));
          y1 = secp256k1_fe_cmov y1 y2 (of_bool (\<not> alphaquad \<and> betaquad));
          x1 = secp256k1_fe_cmov x1 x3 (of_bool (\<not> alphaquad \<and> \<not> betaquad));
          y1 = secp256k1_fe_cmov y1 y3 (of_bool (\<not> alphaquad \<and> \<not> betaquad));
          ge = secp256k1_ge_set_xy x1 y1;
          tmp = secp256k1_fe_negate (ge_y ge) 1
      in ge\<lparr>ge_y := secp256k1_fe_cmov (ge_y ge) tmp (of_bool (secp256k1_fe_is_odd t))\<rparr>)"

definition generation_hash :: "bytes \<Rightarrow> bytes \<Rightarrow> secp256k1_ge" where
  "generation_hash prefix seed =
     (let sha256 = secp256k1_sha256_initialize sha_local;
          sha256 = secp256k1_sha256_write sha256 prefix;
          sha256 = secp256k1_sha256_write sha256 seed;
          b32 = snd (secp256k1_sha256_finalize sha256)
      in indifferent_hash (snd (secp256k1_fe_set_b32 b32)))"

text \<open>The prefixes \<open>1st generationn\<close> and \<open>2nd generationn\<close>, with the terminating zero.\<close>

definition generation_prefix :: "byte \<Rightarrow> byte \<Rightarrow> byte \<Rightarrow> bytes" where
  "generation_prefix a b c =
     [a, b, c, 0x20, 0x67, 0x65, 0x6e, 0x65, 0x72, 0x61, 0x74, 0x69, 0x6f, 0x6e, 0x6e, 0]"

definition GroupElement_generate :: "bytes \<Rightarrow> GroupElement" where
  "GroupElement_generate seed =
     (let accum = secp256k1_gej_set_ge (generation_hash (generation_prefix 0x31 0x73 0x74) seed);
          add = generation_hash (generation_prefix 0x32 0x6e 0x64) seed;
          accum = secp256k1_gej_add_ge accum add;
          add = gej_to_ge accum;
          gx = secp256k1_fe_normalize (ge_x add);
          gen = (11 XOR of_bool (secp256k1_fe_is_quad_var (ge_y add))) # secp256k1_fe_get_b32 gx;
          fe = snd (secp256k1_fe_set_b32 (drop 1 gen));
          ge = snd (secp256k1_ge_set_xquad fe);
          ge = (if (hd gen :: byte) AND 1 \<noteq> 0 then secp256k1_ge_neg ge else ge)
      in \<lparr>ge_g = secp256k1_gej_set_ge ge, ge_flag = of_bool (ge_inf ge)\<rparr>)"

section \<open>Affine coordinates\<close>

lemma one_power_p: "pw a k x \<Longrightarrow> fe_val a = 1 \<Longrightarrow> fe_val x mod fe_p = 1 mod fe_p"
  by (simp add: pw_def power_of_def)

lemma inv_of_one: "den 1 (secp256k1_fe_inv (secp256k1_fe_set_int 1)) 1"
proof -
  have o: "fe_val (secp256k1_fe_set_int 1) = 1" "fe_mag 8 (secp256k1_fe_set_int 1)"
    by (simp_all add: secp256k1_fe_set_int_def fe_val_def fe_mag_def u64_of_int)
  from inv_power [OF o(2)] show ?thesis using one_power_p [OF _ o(1)] unfolding den_def by blast
qed

text \<open>A point with \<open>z = 1\<close> has its own coordinates as affine ones.\<close>

lemma gej_to_ge_den:
  assumes "den 8 x v" "den 8 y w"
  shows "den 1 (ge_x (gej_to_ge (secp256k1_gej_set_ge \<lparr>ge_x = x, ge_y = y, ge_inf = i\<rparr>))) v"
    and "den 1 (ge_y (gej_to_ge (secp256k1_gej_set_ge \<lparr>ge_x = x, ge_y = y, ge_inf = i\<rparr>))) w"
proof -
  let ?z = "secp256k1_fe_inv (secp256k1_fe_set_int 1)"
  have z2: "den 1 (secp256k1_fe_sqr ?z) 1" using den_sqr [OF inv_of_one] by simp
  have z3: "den 1 (secp256k1_fe_mul ?z (secp256k1_fe_sqr ?z)) 1" using den_mul [OF inv_of_one z2] by simp
  have "den 1 (secp256k1_fe_mul x (secp256k1_fe_sqr ?z)) v" using den_mul [OF assms(1) z2] by simp
  moreover have "den 1 (secp256k1_fe_mul y (secp256k1_fe_mul ?z (secp256k1_fe_sqr ?z))) w" using den_mul [OF assms(2) z3] by simp
  ultimately show "den 1 (ge_x (gej_to_ge (secp256k1_gej_set_ge \<lparr>ge_x = x, ge_y = y, ge_inf = i\<rparr>))) v"
    "den 1 (ge_y (gej_to_ge (secp256k1_gej_set_ge \<lparr>ge_x = x, ge_y = y, ge_inf = i\<rparr>))) w"
    by (simp_all add: gej_to_ge_def secp256k1_ge_set_gej_def secp256k1_gej_set_ge_def Let_def)
qed

lemma normalized_value: "den 1 x v \<Longrightarrow> fe_val (secp256k1_fe_normalize x) = v mod fe_p \<and> fe_reduced (secp256k1_fe_normalize x)"
  using normalize_spec [of x] fe_mag_mono [of 1 x 32] by (simp add: den_def)

lemma fe_val_parity: "fe_val a mod 2 = uint (fe0 a) mod 2"
proof -
  have "fe_val a = uint (fe0 a) + 2 * (uint (fe1 a) * 2 ^ 51 + uint (fe2 a) * 2 ^ 103 + uint (fe3 a) * 2 ^ 155 + uint (fe4 a) * 2 ^ 207)"
    by (simp add: fe_val_def)
  then show ?thesis by (metis mod_mult_self2)
qed

lemma is_odd_iff: "secp256k1_fe_is_odd a \<longleftrightarrow> fe_val a mod 2 = 1"
proof -
  have "fe0 a AND 1 = of_bool (odd (fe0 a))" by (simp add: and_one_eq mod_2_eq_odd)
  moreover have "odd (fe0 a) \<longleftrightarrow> odd (uint (fe0 a))" by (metis bit_0 bit_uint_iff len_gt_0)
  ultimately have "secp256k1_fe_is_odd a \<longleftrightarrow> odd (uint (fe0 a))"
    by (simp add: secp256k1_fe_is_odd_def)
  then show ?thesis by (simp add: fe_val_parity odd_iff_mod_2_eq_one)
qed

section \<open>Decoding\<close>

lemma fe_limbs_ok_mag: "fe_limbs_ok a \<Longrightarrow> fe_mag 1 a"
  by (auto simp: fe_limbs_ok_def fe_mag_def)

text \<open>What \<open>set_xo_var\<close> does with a valid \<open>x\<close> coordinate.\<close>

definition xo_root :: "secp256k1_fe \<Rightarrow> secp256k1_fe" where
  "xo_root x = snd (secp256k1_fe_sqrt (secp256k1_fe_add (secp256k1_fe_set_int CURVE_B) (secp256k1_fe_mul x (secp256k1_fe_sqr x))))"

definition xo_square :: "secp256k1_fe \<Rightarrow> bool" where
  "xo_square x \<longleftrightarrow> fst (secp256k1_fe_sqrt (secp256k1_fe_add (secp256k1_fe_set_int CURVE_B) (secp256k1_fe_mul x (secp256k1_fe_sqr x))))"

definition xo_y :: "secp256k1_fe \<Rightarrow> int \<Rightarrow> secp256k1_fe" where
  "xo_y x o' = (if xo_square x then
       let y = secp256k1_fe_normalize_var (xo_root x)
       in if of_bool (secp256k1_fe_is_odd y) \<noteq> o' then secp256k1_fe_negate y 1 else y
     else xo_root x)"

lemma set_xo_eq: "snd (secp256k1_ge_set_xo_var x o') = \<lparr>ge_x = x, ge_y = xo_y x o', ge_inf = False\<rparr>"
  by (simp add: secp256k1_ge_set_xo_var_def secp256k1_ge_set_xquad_def xo_y_def xo_square_def xo_root_def Let_def split_def)

lemma rhs_den: "den 1 x v \<Longrightarrow> den 2 (secp256k1_fe_add (secp256k1_fe_set_int CURVE_B) (secp256k1_fe_mul x (secp256k1_fe_sqr x))) (v ^ 3 + 7)"
proof -
  assume x: "den 1 x v"
  have "den 1 (secp256k1_fe_mul x (secp256k1_fe_sqr x)) (v * (v * v))" using den_mul [OF x den_sqr [OF x]] by simp
  from den_add [OF den_int [of 7] this] show ?thesis
    by (simp add: CURVE_B_def power3_eq_cube algebra_simps)
qed

lemma xo_square_iff: "den 1 x v \<Longrightarrow> xo_square x \<longleftrightarrow> fe_val (xo_root x) ^ 2 mod fe_p = (v ^ 3 + 7) mod fe_p"
  using sqrt_power(2) [OF den_mag [OF rhs_den]] rhs_den [of x v] unfolding xo_square_def xo_root_def den_def by simp

lemma xo_root_mag: "den 1 x v \<Longrightarrow> fe_mag 1 (xo_root x)"
  using sqrt_power(1) [OF den_mag [OF rhs_den]] unfolding xo_root_def by simp

lemma xo_y_den:
  assumes x: "den 1 x v" and s: "xo_square x"
  defines "r \<equiv> fe_val (xo_root x) mod fe_p"
  shows "den 2 (xo_y x o') (if of_bool (r mod 2 = 1) \<noteq> o' then - r else r)"
proof -
  have n: "secp256k1_fe_normalize_var (xo_root x) = secp256k1_fe_normalize (xo_root x)"
    using normalize_var_eq [of "xo_root x"] fe_mag_mono [OF xo_root_mag [OF x], of 32] by simp
  have v: "fe_val (secp256k1_fe_normalize (xo_root x)) = r" "fe_reduced (secp256k1_fe_normalize (xo_root x))"
    using normalized_value [OF den_self [OF xo_root_mag [OF x]]] unfolding r_def by simp_all
  have d: "den 1 (secp256k1_fe_normalize (xo_root x)) r" using den_self [OF fe_reduced_mag [OF v(2)]] v(1) by simp
  have "den 2 (secp256k1_fe_negate (secp256k1_fe_normalize (xo_root x)) 1) (- r)" using den_negate [OF d] by simp
  moreover have "den 2 (secp256k1_fe_normalize (xo_root x)) r" using den_mono [OF d] by simp
  ultimately show ?thesis unfolding xo_y_def n Let_def is_odd_iff v(1) using s by simp
qed

lemma ge_valid_spec:
  assumes "den 1 x v" "den 2 y w"
  shows "secp256k1_ge_is_valid_var \<lparr>ge_x = x, ge_y = y, ge_inf = False\<rparr> \<longleftrightarrow> w ^ 2 mod fe_p = (v ^ 3 + 7) mod fe_p"
proof -
  have l: "den 1 (secp256k1_fe_sqr y) (w * w)" using den_sqr [OF assms(2)] by simp
  have "den 1 (secp256k1_fe_mul (secp256k1_fe_sqr x) x) (v * v * v)" using den_mul [OF den_sqr [OF assms(1)] assms(1)] by simp
  from den_weak [OF den_add [OF this den_int [of 7]]]
  have r: "den 1 (secp256k1_fe_normalize_weak (secp256k1_fe_add (secp256k1_fe_mul (secp256k1_fe_sqr x) x) (secp256k1_fe_set_int 7))) (v * v * v + 7)"
    by simp
  show ?thesis using den_equal [OF l r]
    by (simp add: secp256k1_ge_is_valid_var_def Let_def CURVE_B_def power2_eq_square power3_eq_cube)
qed

lemma square_of_negative: "(if b then - r else r) ^ 2 = (r ^ 2 :: int)"
  by simp

lemma reduced_square: "(r mod m) ^ 2 mod m = (r ^ 2 mod m :: int)"
  by (simp add: power_mod)

text \<open>A decoded \<open>x\<close> coordinate gives a point of the curve exactly when its root was found.\<close>

lemma xo_valid:
  assumes x: "den 1 x v"
  shows "secp256k1_ge_is_valid_var \<lparr>ge_x = x, ge_y = xo_y x o', ge_inf = False\<rparr> \<longleftrightarrow> xo_square x"
proof (cases "xo_square x")
  case True
  have "secp256k1_ge_is_valid_var \<lparr>ge_x = x, ge_y = xo_y x o', ge_inf = False\<rparr> \<longleftrightarrow>
      (fe_val (xo_root x) mod fe_p) ^ 2 mod fe_p = (v ^ 3 + 7) mod fe_p"
    unfolding ge_valid_spec [OF x xo_y_den [OF x True]] square_of_negative ..
  then show ?thesis using xo_square_iff [OF x] True reduced_square by simp
next
  case False
  have "den 2 (xo_y x o') (fe_val (xo_root x))"
    using False den_mono [OF den_self [OF xo_root_mag [OF x]], of 2] by (simp add: xo_y_def)
  then show ?thesis using ge_valid_spec [OF x] xo_square_iff [OF x] False by simp
qed

section \<open>Canonical encodings\<close>

text \<open>The coordinate that the first 32 bytes spell, and the encodings \<open>serialize\<close> can write for a finite point.\<close>

definition enc_x :: "bytes \<Rightarrow> int" where
  "enc_x b = be_val (take 32 b)"

definition canonical_point :: "bytes \<Rightarrow> bool" where
  "canonical_point b \<longleftrightarrow> enc_x b < fe_p \<and> b ! 32 \<le> 1"

lemma enc_fe_den: "length b = 34 \<Longrightarrow> den 1 (snd (secp256k1_fe_set_b32 (take 32 b))) (enc_x b)"
  using fe_limbs_ok_mag [OF set_b32_limbs_ok [of "take 32 b"]] set_b32_value [of "take 32 b"]
  by (simp add: den_def enc_x_def be_val_def)

lemma limbs_reduced: "fe_limbs_ok a \<Longrightarrow> fe_val a < fe_p \<Longrightarrow> fe_reduced a"
  unfolding fe_limbs_ok_def fe_reduced_def by simp

lemma reduced_limbs: "fe_reduced a \<Longrightarrow> fe_limbs_ok a"
  unfolding fe_limbs_ok_def fe_reduced_def by simp

text \<open>Writing the reduced coordinate gives the bytes read exactly when these were reduced.\<close>

lemma normalized_bytes:
  assumes l: "length c = 32" and d: "den 1 g (be_val c)"
  shows "secp256k1_fe_get_b32 (secp256k1_fe_normalize g) = c \<longleftrightarrow> be_val c < fe_p"
proof -
  let ?n = "secp256k1_fe_normalize g" and ?x = "snd (secp256k1_fe_set_b32 c)"
  have n: "fe_val ?n = be_val c mod fe_p" "fe_reduced ?n" using normalized_value [OF d] by simp_all
  have x: "fe_val ?x = be_val c" "fe_limbs_ok ?x" using set_b32_value [OF l] set_b32_limbs_ok by (simp_all add: be_val_def)
  show ?thesis
  proof
    assume "secp256k1_fe_get_b32 ?n = c"
    then have "?x = ?n" using set_get_b32 [OF reduced_limbs [OF n(2)]] by simp
    then show "be_val c < fe_p" using x(1) n(2) by (simp add: fe_reduced_def)
  next
    assume b: "be_val c < fe_p"
    then have "?n = ?x"
      using fe_val_inj [OF n(2) limbs_reduced [OF x(2)]] x(1) n(1) be_val_nonneg [of c] by simp
    then show "secp256k1_fe_get_b32 ?n = c" using get_set_b32 [OF l] by simp
  qed
qed

lemma minus_mod_p: "0 < r \<Longrightarrow> r < fe_p \<Longrightarrow> (- r) mod fe_p = fe_p - r"
  by (simp add: zmod_zminus1_eq_if)

lemma negated_parity: "0 < r \<Longrightarrow> r < fe_p \<Longrightarrow> (- r) mod fe_p mod 2 = 1 \<longleftrightarrow> r mod 2 = 0"
proof -
  assume r: "0 < r" "r < fe_p"
  have "fe_p mod 2 = 1" by (simp add: fe_p_def)
  then have "(fe_p - r) mod 2 = (1 - r) mod 2" by (metis mod_diff_left_eq)
  then show ?thesis unfolding minus_mod_p [OF r] by presburger
qed

lemma byte_bit: "(of_bool c :: byte) = o' \<longleftrightarrow> uint o' = of_bool c"
  by (cases c) (auto simp: word_uint_eq_iff)

text \<open>The parity of the root that \<open>set_xo_var\<close> chose is the oddness byte, if this is a bit.\<close>

lemma chosen_parity:
  fixes o' :: byte
  assumes "0 < r" "r < fe_p"
  shows "of_bool ((if of_bool (r mod 2 = 1) \<noteq> uint o' then - r else r) mod fe_p mod 2 = 1) = o' \<longleftrightarrow> o' \<le> 1"
proof (cases "of_bool (r mod 2 = 1) = uint o'")
  case True
  then have "o' \<le> 1" by (cases "r mod 2 = 1") (simp_all add: word_le_def)
  then show ?thesis using True assms by (simp add: byte_bit)
next
  case False
  have "of_bool ((- r) mod fe_p mod 2 = 1) = o' \<longleftrightarrow> uint o' = of_bool (r mod 2 = 0)"
    unfolding negated_parity [OF assms] byte_bit ..
  also have "\<dots> \<longleftrightarrow> o' \<le> 1"
  proof -
    have "uint o' = 0 \<or> uint o' = 1" if "o' \<le> 1"
    proof -
      have "0 \<le> uint o'" "uint o' \<le> 1" using that by (simp_all add: word_le_def)
      then show ?thesis by arith
    qed
    moreover have "r mod 2 = 0 \<or> r mod 2 = 1" by presburger
    ultimately show ?thesis using False by (auto simp: word_le_def)
  qed
  finally show ?thesis using False by simp
qed

lemma deserialize_eq:
  assumes l: "length b = 34" and f: "b ! 33 = 0"
  defines "x \<equiv> snd (secp256k1_fe_set_b32 (take 32 b))"
  shows "GroupElement_deserialize b =
    (if xo_square x then Inr \<lparr>ge_g = secp256k1_gej_set_ge \<lparr>ge_x = x, ge_y = xo_y x (uint (b ! 32)), ge_inf = False\<rparr>, ge_flag = 0\<rparr>
     else Inl (Invalid_Argument ''GroupElement: deserialize failed''))"
  using xo_valid [OF enc_fe_den [OF l], of "uint (b ! 32)"] f unfolding x_def
  by (simp add: GroupElement_deserialize_def Let_def set_xo_eq)

lemma serialize_deserialize:
  assumes l: "length b = 34" and f: "b ! 33 = 0" and d: "GroupElement_deserialize b = Inr e"
    and y: "(enc_x b ^ 3 + 7) mod fe_p \<noteq> 0"
  shows "GroupElement_serialize e = b \<longleftrightarrow> canonical_point b"
proof -
  let ?x = "snd (secp256k1_fe_set_b32 (take 32 b))"
  define r where "r = fe_val (xo_root ?x) mod fe_p"
  note x = enc_fe_den [OF l]
  have s: "xo_square ?x" and e: "e = \<lparr>ge_g = secp256k1_gej_set_ge \<lparr>ge_x = ?x, ge_y = xo_y ?x (uint (b ! 32)), ge_inf = False\<rparr>, ge_flag = 0\<rparr>"
    using d deserialize_eq [OF l f] by (simp_all split: if_splits)
  have "r ^ 2 mod fe_p \<noteq> 0" using y xo_square_iff [OF x] s unfolding r_def reduced_square by simp
  then have r: "0 < r" "r < fe_p" unfolding r_def using pos_mod_bound [of fe_p] pos_mod_sign [of fe_p "fe_val (xo_root ?x)"]
    by (auto simp: fe_p_def order_less_le)
  note yd = den_mono [OF xo_y_den [OF x s, of "uint (b ! 32)"], of 8]
  let ?v = "gej_to_ge (ge_g e)"
  have gx: "den 1 (ge_x ?v) (be_val (take 32 b))" and
    gy: "den 1 (ge_y ?v) (if of_bool (r mod 2 = 1) \<noteq> uint (b ! 32) then - r else r)"
    using gej_to_ge_den [OF den_mono [OF x] yd] unfolding e enc_x_def r_def by simp_all
  have l32: "length (take 32 b) = 32" using l by simp
  have "take 32 b @ [b ! 32] @ [b ! 33] = b"
    using l by (intro nth_equalityI) (auto simp: nth_append less_Suc_eq numeral_eq_Suc)
  then have "GroupElement_serialize e = b \<longleftrightarrow>
      secp256k1_fe_get_b32 (secp256k1_fe_normalize (ge_x ?v)) @ [of_bool (secp256k1_fe_is_odd (secp256k1_fe_normalize (ge_y ?v)))] @ [0] =
      take 32 b @ [b ! 32] @ [b ! 33]"
    by (simp add: GroupElement_serialize_def Let_def e)
  also have "\<dots> \<longleftrightarrow> secp256k1_fe_get_b32 (secp256k1_fe_normalize (ge_x ?v)) = take 32 b \<and>
      of_bool (secp256k1_fe_is_odd (secp256k1_fe_normalize (ge_y ?v))) = b ! 32"
    using f l32 by (simp add: secp256k1_fe_get_b32_def)
  also have "\<dots> \<longleftrightarrow> canonical_point b"
    unfolding normalized_bytes [OF l32 gx] is_odd_iff conjunct1 [OF normalized_value [OF gy]] chosen_parity [OF r]
      canonical_point_def enc_x_def ..
  finally show ?thesis .
qed

lemma deserialize_on_curve:
  assumes l: "length b = 34" and f: "b ! 33 = 0" and d: "GroupElement_deserialize b = Inr e"
  shows "ge_ok e \<and> \<not> GroupElement_isInfinity e \<and> GroupElement_isMember e \<and> gej_mag (ge_g e) \<and> gej_on (ge_g e)"
proof -
  let ?x = "snd (secp256k1_fe_set_b32 (take 32 b))" and ?o = "uint (b ! 32)"
  note x = enc_fe_den [OF l]
  have s: "xo_square ?x" and e: "e = \<lparr>ge_g = secp256k1_gej_set_ge \<lparr>ge_x = ?x, ge_y = xo_y ?x ?o, ge_inf = False\<rparr>, ge_flag = 0\<rparr>"
    using d deserialize_eq [OF l f] by (simp_all split: if_splits)
  define w where "w = fe_val (xo_y ?x ?o)"
  have y: "den 2 (xo_y ?x ?o) w" using xo_y_den [OF x s] by (simp add: den_def w_def)
  have eq: "w ^ 2 mod fe_p = (enc_x b ^ 3 + 7) mod fe_p" using ge_valid_spec [OF x y] xo_valid [OF x] s by simp
  note g = gej_to_ge_den [OF den_mono [OF x] den_mono [OF y], of False]
  have v: "gej_to_ge (ge_g e) = \<lparr>ge_x = ge_x (gej_to_ge (ge_g e)), ge_y = ge_y (gej_to_ge (ge_g e)), ge_inf = False\<rparr>"
    by (simp add: e gej_to_ge_def secp256k1_ge_set_gej_def secp256k1_gej_set_ge_def Let_def)
  have "secp256k1_ge_is_valid_var (gej_to_ge (ge_g e))"
    using ge_valid_spec [OF g(1) den_mono [OF g(2)]] eq unfolding e by (subst v [unfolded e]) simp
  then have m: "GroupElement_isMember e" by (simp add: GroupElement_isMember_def Let_def)
  have z: "fe_mag 8 (secp256k1_fe_set_int 1)" "fe_val (secp256k1_fe_set_int 1) = 1"
    by (simp_all add: secp256k1_fe_set_int_def fe_val_def fe_mag_def u64_of_int)
  have "gej_mag (ge_g e)"
    using den_mag [OF x, of 8] den_mag [OF y, of 8] z by (simp add: e gej_mag_def secp256k1_gej_set_ge_def)
  moreover have "fe_val ?x = enc_x b" using set_b32_value [of "take 32 b"] l by (simp add: enc_x_def be_val_def)
  then have "gej_on (ge_g e)" using eq by (simp add: e gej_on_def secp256k1_gej_set_ge_def z CURVE_B_def w_def)
  ultimately show ?thesis using m by (simp add: e ge_ok_def GroupElement_isInfinity_def secp256k1_gej_is_infinity_def secp256k1_gej_set_ge_def)
qed

section \<open>Sums of opposite points\<close>

text \<open>The addition of opposite points writes the flag and nothing else.\<close>

lemma opposite_sum:
  assumes "\<not> gej_inf a" "\<not> gej_inf b" "gej_inf (fst (secp256k1_gej_add_var r a b rzr))"
  shows "fst (secp256k1_gej_add_var r a b rzr) = r\<lparr>gej_inf := True\<rparr>"
  using assms by (auto simp: secp256k1_gej_add_var_def secp256k1_gej_double_var_def Let_def split: if_splits)

lemma opposite_sum_any:
  assumes "\<not> gej_inf a" "\<not> gej_inf b" "gej_inf (fst (secp256k1_gej_add_var r a b rzr))"
  shows "gej_inf (fst (secp256k1_gej_add_var r' a b rzr'))"
  using assms by (auto simp: secp256k1_gej_add_var_def secp256k1_gej_double_var_def Let_def split: if_splits)

lemma gej_to_ge_inf:
  "ge_x (gej_to_ge (g\<lparr>gej_inf := i\<rparr>)) = ge_x (gej_to_ge g)" "ge_y (gej_to_ge (g\<lparr>gej_inf := i\<rparr>)) = ge_y (gej_to_ge g)"
  by (simp_all add: gej_to_ge_def secp256k1_ge_set_gej_def Let_def)

lemma opposite_sum_bytes:
  assumes "\<not> gej_inf (ge_g a)" "\<not> gej_inf (ge_g b)" "gej_inf (fst (secp256k1_gej_add_var r (ge_g a) (ge_g b) rzr))"
    and c: "length c = 32" "be_val c < fe_p"
  shows "\<exists>loc. take 32 (GroupElement_serialize (GroupElement_plus loc a b)) = c"
proof -
  let ?x = "snd (secp256k1_fe_set_b32 c)"
  let ?loc = "secp256k1_gej_set_ge \<lparr>ge_x = ?x, ge_y = ?x, ge_inf = False\<rparr>"
  have x: "den 8 ?x (be_val c)"
    using den_mono [OF den_self [OF fe_limbs_ok_mag [OF set_b32_limbs_ok [of c]]], of 8] set_b32_value [OF c(1)] by (simp add: be_val_def)
  have p: "GroupElement_plus ?loc a b = \<lparr>ge_g = ?loc\<lparr>gej_inf := True\<rparr>, ge_flag = 1\<rparr>"
    using opposite_sum [OF assms(1,2) opposite_sum_any [OF assms(1-3)]] assms(1,2)
    by (simp add: GroupElement_plus_def add_flag_def Let_def)
  have "secp256k1_fe_get_b32 (secp256k1_fe_normalize (ge_x (gej_to_ge ?loc))) = c"
    using normalized_bytes [OF c(1) gej_to_ge_den(1) [OF x x]] c(2) by simp
  then have "take 32 (GroupElement_serialize (GroupElement_plus ?loc a b)) = c"
    using c(1) by (simp add: p GroupElement_serialize_def Let_def gej_to_ge_inf)
  then show ?thesis by blast
qed

section \<open>A point with a known root\<close>

text \<open>An \<open>x\<close> coordinate with \<open>x^3 + 7 = 1\<close>, whose root is one.\<close>

definition sample_x :: bytes where
  "sample_x = [0x14, 0x6d, 0x3b, 0x65, 0xad, 0xd9, 0xf5, 0x4c, 0xcc, 0xa2, 0x85, 0x33, 0xc8, 0x8e, 0x2c, 0xbc, 0x63, 0xf7, 0x44, 0x3e, 0x16, 0x58, 0x78, 0x3a, 0xb4, 0x1f, 0x8e, 0xf9, 0x7c, 0x2a, 0x10, 0xb5]"

lemma sample_x_val: "be_val sample_x = 0x146d3b65add9f54ccca28533c88e2cbc63f7443e1658783ab41f8ef97c2a10b5" "length sample_x = 32"
  by (simp_all add: sample_x_def be_val_def)

lemma sample_equation: "(0x146d3b65add9f54ccca28533c88e2cbc63f7443e1658783ab41f8ef97c2a10b5 :: int) ^ 3 + 7 = 1 + 0x214b06c9c17d74a7df1370d007bce824c913296f0b57f4369a81fed04ab834aff8536586e72ece2e6b22145ccc245cbd40d29188b7dd81f49100f91116d25d * fe_p"
  unfolding fe_p_def by (simp add: power3_eq_cube)

lemma root_of_one:
  assumes "den 1 x v" "(v ^ 3 + 7) mod fe_p = 1"
  shows "xo_square x"
proof -
  let ?a = "secp256k1_fe_add (secp256k1_fe_set_int CURVE_B) (secp256k1_fe_mul x (secp256k1_fe_sqr x))"
  have a: "fe_mag 8 ?a" "fe_val ?a mod fe_p = 1" using rhs_den [OF assms(1)] assms(2) by (auto simp: den_def intro: fe_mag_mono)
  have p: "(1 :: int) mod fe_p = 1" by (simp add: fe_p_def)
  have "fe_val ?a ^ k mod fe_p = 1" for k using power_mod [of "fe_val ?a" fe_p k] a(2) p by simp
  then have "fe_val (xo_root x) mod fe_p = 1" using sqrt_power(1) [OF a(1)] by (simp add: pw_def power_of_def xo_root_def)
  then have "fe_val (xo_root x) ^ 2 mod fe_p = 1" using power_mod [of "fe_val (xo_root x)" fe_p 2] p by simp
  then show ?thesis using xo_square_iff [OF assms(1)] assms(2) by simp
qed

lemma sample_accepted:
  "\<exists>e. GroupElement_deserialize (sample_x @ [1, 0]) = Inr e"
  "(be_val sample_x ^ 3 + 7) mod fe_p = 1" "be_val sample_x < fe_p"
proof -
  show v: "(be_val sample_x ^ 3 + 7) mod fe_p = 1"
    unfolding sample_x_val(1) sample_equation by (subst mod_mult_self1) (simp add: fe_p_def)
  show "be_val sample_x < fe_p" unfolding sample_x_val(1) by (simp add: fe_p_def)
  have l: "length (sample_x @ [1, 0]) = 34" "(sample_x @ [1, 0]) ! 33 = 0" "take 32 (sample_x @ [1, 0]) = sample_x"
    by (simp_all add: nth_append sample_x_val(2))
  have "xo_square (snd (secp256k1_fe_set_b32 (take 32 (sample_x @ [1, 0]))))"
    using root_of_one [OF enc_fe_den [OF l(1)]] v unfolding enc_x_def l(3) by simp
  then show "\<exists>e. GroupElement_deserialize (sample_x @ [1, 0]) = Inr e" using deserialize_eq [OF l(1,2)] by simp
qed

lemma generator_opposite:
  "\<not> GroupElement_isInfinity (GroupElement_set_base_g e)"
  "\<not> GroupElement_isInfinity (GroupElement_inverse (GroupElement_set_base_g e))"
  "GroupElement_isInfinity (GroupElement_plus r (GroupElement_set_base_g e) (GroupElement_inverse (GroupElement_set_base_g e)))"
proof -
  let ?g = "ge_g (GroupElement_set_base_g e)" and ?n = "ge_g (GroupElement_inverse (GroupElement_set_base_g e))"
  let ?y = "fe_val (ge_y secp256k1_ge_const_g)"
  show fin: "\<not> GroupElement_isInfinity (GroupElement_set_base_g e)" "\<not> GroupElement_isInfinity (GroupElement_inverse (GroupElement_set_base_g e))"
    by (simp_all add: GroupElement_isInfinity_def secp256k1_gej_is_infinity_def GroupElement_set_base_g_def GroupElement_inverse_def
      secp256k1_gej_neg_def Let_def generator_finite)
  have x: "den 8 (gej_x ?g) (fe_val (ge_x secp256k1_ge_const_g))" and y: "den 8 (gej_y ?g) ?y" and z: "den 8 (gej_z ?g) 1"
    using generator_mag den_mono [OF den_int [of 1], of 8]
    by (simp_all add: GroupElement_set_base_g_def secp256k1_gej_set_ge_def den_def ge_mag_def)
  have n: "den 8 (gej_y ?n) (- ?y)"
    using den_mono [OF den_negate [OF den_weak [OF y]], of 8] by (simp add: GroupElement_inverse_def secp256k1_gej_neg_def Let_def)
  have xz: "den 8 (gej_x ?n) (fe_val (ge_x secp256k1_ge_const_g))" "den 8 (gej_z ?n) 1"
    using x z by (simp_all add: GroupElement_inverse_def secp256k1_gej_neg_def Let_def)
  have f: "\<not> gej_inf ?g" "\<not> gej_inf ?n" using fin by (simp_all add: GroupElement_isInfinity_def secp256k1_gej_is_infinity_def)
  show "GroupElement_isInfinity (GroupElement_plus r (GroupElement_set_base_g e) (GroupElement_inverse (GroupElement_set_base_g e)))"
    by (rule add_var_cases [OF f x y z xz(1) n xz(2), of r None])
      (simp_all add: GroupElement_isInfinity_def secp256k1_gej_is_infinity_def GroupElement_plus_def Let_def generator_coords fe_p_def)
qed

section \<open>Properties\<close>

text \<open>
  C14: decoding is protected against invalid curves: a 34-byte string without the infinity flag is
  accepted exactly when the root computed for its \<open>x\<close> squares to \<open>x^3 + 7\<close>, and what is accepted is a
  finite member of the curve with coordinates every operation takes.
\<close>

theorem decoded_points_are_on_the_curve:
  assumes "length b = 34" and "b ! 33 = 0"
  shows "(case GroupElement_deserialize b of
      Inl e \<Rightarrow> e = Invalid_Argument ''GroupElement: deserialize failed'' \<and>
        fe_val (xo_root (snd (secp256k1_fe_set_b32 (take 32 b)))) ^ 2 mod fe_p \<noteq> (be_val (take 32 b) ^ 3 + 7) mod fe_p
    | Inr e \<Rightarrow> fe_val (xo_root (snd (secp256k1_fe_set_b32 (take 32 b)))) ^ 2 mod fe_p = (be_val (take 32 b) ^ 3 + 7) mod fe_p \<and>
        ge_ok e \<and> \<not> GroupElement_isInfinity e \<and> GroupElement_isMember e \<and> gej_mag (ge_g e) \<and> gej_on (ge_g e))"
  using deserialize_eq [OF assms] xo_square_iff [OF enc_fe_den [OF assms(1)]] deserialize_on_curve [OF assms]
  by (auto simp: enc_x_def split: sum.splits if_splits)

theorem decoded_points_are_on_the_curve_witness:
  "\<exists>e. GroupElement_deserialize (sample_x @ [1, 0]) = Inr e \<and> GroupElement_isMember e \<and> gej_on (ge_g e)"
proof -
  obtain e where "GroupElement_deserialize (sample_x @ [1, 0]) = Inr e" using sample_accepted(1) by blast
  then show ?thesis using decoded_points_are_on_the_curve [of "sample_x @ [1, 0]"] by (simp add: nth_append sample_x_val(2))
qed

text \<open>
  C15: encodings of points are unique: when a finite point is decoded whose \<open>y\<close> is not zero, writing it
  again gives the same 34 bytes exactly when the first 32 spell a number below the prime and the
  oddness byte is 0 or 1.
\<close>

theorem point_encoding_is_canonical:
  assumes "length b = 34" and "b ! 33 = 0" and "GroupElement_deserialize b = Inr e"
    and "(be_val (take 32 b) ^ 3 + 7) mod fe_p \<noteq> 0"
  shows "GroupElement_serialize e = b \<longleftrightarrow> be_val (take 32 b) < fe_p \<and> b ! 32 \<le> 1"
  using serialize_deserialize [OF assms(1-3)] assms(4) by (simp add: enc_x_def canonical_point_def)

theorem point_encoding_is_canonical_witness:
  "\<exists>e. GroupElement_deserialize (sample_x @ [1, 0]) = Inr e \<and> GroupElement_serialize e = sample_x @ [1, 0]"
proof -
  obtain e where "GroupElement_deserialize (sample_x @ [1, 0]) = Inr e" using sample_accepted(1) by blast
  then show ?thesis using point_encoding_is_canonical [of "sample_x @ [1, 0]" e] sample_accepted(2,3)
    by (simp add: nth_append sample_x_val(2))
qed

text \<open>
  C16: the encoding of an infinite sum is undetermined: when the sum of two finite points is infinite,
  the addition leaves the coordinates of its local result unset, and for every 32 bytes below the prime
  there are contents of that memory for which \<open>serialize\<close> writes these bytes.
\<close>

theorem infinite_sum_has_no_encoding:
  assumes "\<not> GroupElement_isInfinity a" and "\<not> GroupElement_isInfinity b" and "GroupElement_isInfinity (GroupElement_plus r a b)"
    and "length c = 32" and "be_val c < fe_p"
  shows "\<exists>loc. take 32 (GroupElement_serialize (GroupElement_plus loc a b)) = c"
  using opposite_sum_bytes [of a b r None c] assms
  by (simp add: GroupElement_isInfinity_def secp256k1_gej_is_infinity_def GroupElement_plus_def Let_def)

theorem infinite_sum_has_no_encoding_witness:
  "\<exists>loc. take 32 (GroupElement_serialize (GroupElement_plus loc (GroupElement_set_base_g GroupElement_new)
     (GroupElement_inverse (GroupElement_set_base_g GroupElement_new)))) = sample_x"
  using infinite_sum_has_no_encoding [of "GroupElement_set_base_g GroupElement_new"
      "GroupElement_inverse (GroupElement_set_base_g GroupElement_new)" _ sample_x]
    generator_opposite sample_x_val(2) sample_accepted(3) by simp

end
