(* ===== verification/SparkHash.thy ===== *)
theory SparkHash
  imports GroupElement Sha512 AesCbc
begin

text \<open>
  The hashing of the protocol: \<open>Hash\<close> (\<open>src/hash.cpp\<close>), \<open>KDF\<close> (\<open>src/kdf.cpp\<close>), \<open>Transcript\<close>
  (\<open>src/transcript.cpp\<close>) and the functions of \<open>SparkUtils\<close> (\<open>src/util.cpp\<close>) built from them, over the
  SHA-512 contexts of OpenSSL. The locale \<open>digest\<close> is what they need of the contexts; it is interpreted on
  the model of OpenSSL. The specification is the byte string that has gone into the digest: the lemmas show
  what every operation appends, that these strings can be read back in one way only, and when the loops
  that look for a valid digest end.
\<close>

section \<open>The digest layer\<close>

text \<open>
  \<open>EVP_DigestInit_ex\<close> with \<open>EVP_sha512()\<close> on a fresh context: zeroed memory, then \<open>SHA512_Init\<close>. Copying a
  context copies its value. \<open>CheckOpenSSL\<close> throws when the digest function does not return 1.
\<close>

definition EVP_DigestInit_sha512 :: SHA512_CTX where
  "EVP_DigestInit_sha512 = SHA512_Init sha512_local"

definition EVP_DigestUpdate :: "SHA512_CTX \<Rightarrow> bytes \<Rightarrow> SHA512_CTX" where
  "EVP_DigestUpdate ctx data = (if length data = 0 then ctx else SHA512_Update ctx data)"

definition EVP_DigestFinal_ex :: "SHA512_CTX \<Rightarrow> bytes res" where
  "EVP_DigestFinal_ex ctx =
     (case snd (SHA512_Final ctx) of None \<Rightarrow> Inl (Runtime_Error ''OpenSSL operation failed'') | Some md \<Rightarrow> Inr md)"

definition LABEL_PROTOCOL :: bytes where "LABEL_PROTOCOL = [0x53, 0x50, 0x41, 0x52, 0x4B]"
definition HASH_MODE_TRANSCRIPT :: byte where "HASH_MODE_TRANSCRIPT = 0"
definition HASH_MODE_GROUP_GENERATOR :: byte where "HASH_MODE_GROUP_GENERATOR = 1"
definition HASH_MODE_FUNCTION :: byte where "HASH_MODE_FUNCTION = 2"
definition HASH_MODE_KDF :: byte where "HASH_MODE_KDF = 3"

text \<open>
  The loop shared by \<open>Transcript::challenge\<close>, \<open>Hash::finalize_scalar\<close>, \<open>Hash::finalize_group\<close> and
  \<open>hash_generator\<close>: the counter is one byte, so the loop tries 256 digests and then the same ones again.
  \<open>f\<close> is the body: it throws, rejects the candidate (\<open>None\<close>) or returns.
\<close>

partial_function (option) counter_loop :: "(byte \<Rightarrow> 'a option res) \<Rightarrow> byte \<Rightarrow> 'a res option" where
  "counter_loop f counter =
     (case f counter of
        Inl e \<Rightarrow> Some (Inl e)
      | Inr None \<Rightarrow> counter_loop f (counter + 1)
      | Inr (Some a) \<Rightarrow> Some (Inr a))"

definition finalize_copy :: "SHA512_CTX \<Rightarrow> byte \<Rightarrow> SHA512_CTX \<times> bytes res" where
  "finalize_copy ctx counter =
     (let state_counter = ctx; state_counter = EVP_DigestUpdate state_counter [counter];
          state_finalize = state_counter
      in (state_counter, EVP_DigestFinal_ex state_finalize))"

section \<open>Transcripts\<close>

definition FLAG_DOMAIN :: byte where "FLAG_DOMAIN = 0"
definition FLAG_DATA :: byte where "FLAG_DATA = 1"
definition FLAG_VECTOR :: byte where "FLAG_VECTOR = 2"
definition FLAG_CHALLENGE :: byte where "FLAG_CHALLENGE = 3"

definition Transcript_size :: "SHA512_CTX \<Rightarrow> nat \<Rightarrow> SHA512_CTX" where
  "Transcript_size ctx n =
     (let size_scalar = Scalar_of_uint64 (of_nat n) in EVP_DigestUpdate ctx (Scalar_serialize size_scalar))"

definition Transcript_include_flag :: "SHA512_CTX \<Rightarrow> byte \<Rightarrow> SHA512_CTX" where
  "Transcript_include_flag ctx flag = EVP_DigestUpdate ctx [flag]"

definition Transcript_include_data :: "SHA512_CTX \<Rightarrow> bytes \<Rightarrow> SHA512_CTX" where
  "Transcript_include_data ctx data = EVP_DigestUpdate (Transcript_size ctx (length data)) data"

definition Transcript_include_label :: "SHA512_CTX \<Rightarrow> bytes \<Rightarrow> SHA512_CTX" where
  "Transcript_include_label ctx label = Transcript_include_data ctx label"

definition Transcript_new :: "bytes \<Rightarrow> SHA512_CTX" where
  "Transcript_new domain =
     (let ctx = EVP_DigestInit_sha512;
          ctx = EVP_DigestUpdate ctx LABEL_PROTOCOL;
          ctx = EVP_DigestUpdate ctx [HASH_MODE_TRANSCRIPT];
          ctx = Transcript_include_flag ctx FLAG_DOMAIN
      in Transcript_include_label ctx domain)"

definition Transcript_add_data :: "SHA512_CTX \<Rightarrow> bytes \<Rightarrow> bytes \<Rightarrow> SHA512_CTX" where
  "Transcript_add_data ctx label data =
     (let ctx = Transcript_include_flag ctx FLAG_DATA; ctx = Transcript_include_label ctx label
      in Transcript_include_data ctx data)"

definition Transcript_add_data_vector :: "SHA512_CTX \<Rightarrow> bytes \<Rightarrow> bytes list \<Rightarrow> SHA512_CTX" where
  "Transcript_add_data_vector ctx label data =
     (let ctx = Transcript_include_flag ctx FLAG_VECTOR; ctx = Transcript_size ctx (length data);
          ctx = Transcript_include_label ctx label
      in fold (\<lambda>value ctx. Transcript_include_data ctx value) data ctx)"

definition Transcript_add_group :: "SHA512_CTX \<Rightarrow> bytes \<Rightarrow> GroupElement \<Rightarrow> SHA512_CTX" where
  "Transcript_add_group ctx label e =
     (let data = GroupElement_serialize e;
          ctx = Transcript_include_flag ctx FLAG_DATA; ctx = Transcript_include_label ctx label
      in Transcript_include_data ctx data)"

definition Transcript_add_group_vector :: "SHA512_CTX \<Rightarrow> bytes \<Rightarrow> GroupElement list \<Rightarrow> SHA512_CTX" where
  "Transcript_add_group_vector ctx label es =
     (let ctx = Transcript_include_flag ctx FLAG_VECTOR; ctx = Transcript_size ctx (length es);
          ctx = Transcript_include_label ctx label
      in fold (\<lambda>e ctx. Transcript_include_data ctx (GroupElement_serialize e)) es ctx)"

definition Transcript_add_scalar :: "SHA512_CTX \<Rightarrow> bytes \<Rightarrow> secp256k1_scalar \<Rightarrow> SHA512_CTX" where
  "Transcript_add_scalar ctx label s =
     (let data = Scalar_serialize s;
          ctx = Transcript_include_flag ctx FLAG_DATA; ctx = Transcript_include_label ctx label
      in Transcript_include_data ctx data)"

definition Transcript_add_scalar_vector :: "SHA512_CTX \<Rightarrow> bytes \<Rightarrow> secp256k1_scalar list \<Rightarrow> SHA512_CTX" where
  "Transcript_add_scalar_vector ctx label ss =
     (let ctx = Transcript_include_flag ctx FLAG_VECTOR; ctx = Transcript_size ctx (length ss);
          ctx = Transcript_include_label ctx label
      in fold (\<lambda>s ctx. Transcript_include_data ctx (Scalar_serialize s)) ss ctx)"

text \<open>The challenge and the transcript after it, which has the counter of the accepted digest in it.\<close>

definition challenge_body :: "SHA512_CTX \<Rightarrow> byte \<Rightarrow> (secp256k1_scalar \<times> SHA512_CTX) option res" where
  "challenge_body ctx counter =
     (let (state_counter, r) = finalize_copy ctx counter
      in rbind r (\<lambda>hash. case Scalar_deserialize (take 32 hash) of
           Inr candidate \<Rightarrow> Inr (Some (candidate, state_counter))
         | Inl e \<Rightarrow> Inr None))"

definition Transcript_challenge :: "SHA512_CTX \<Rightarrow> bytes \<Rightarrow> (secp256k1_scalar \<times> SHA512_CTX) res option" where
  "Transcript_challenge ctx label =
     (let ctx = Transcript_include_flag ctx FLAG_CHALLENGE; ctx = Transcript_include_label ctx label
      in counter_loop (challenge_body ctx) 0)"

section \<open>Labelled hash functions and key derivation\<close>

definition include_size :: "SHA512_CTX \<Rightarrow> nat \<Rightarrow> SHA512_CTX" where
  "include_size ctx n =
     (let stream = ser_writedata64 (of_nat n) (ds_init SER_NETWORK 0) in EVP_DigestUpdate ctx (pending stream))"

definition Hash_new :: "bytes \<Rightarrow> SHA512_CTX" where
  "Hash_new label =
     (let ctx = EVP_DigestInit_sha512;
          ctx = EVP_DigestUpdate ctx LABEL_PROTOCOL;
          ctx = EVP_DigestUpdate ctx [HASH_MODE_FUNCTION];
          ctx = include_size ctx (length label)
      in EVP_DigestUpdate ctx label)"

definition Hash_include :: "SHA512_CTX \<Rightarrow> CDataStream \<Rightarrow> SHA512_CTX" where
  "Hash_include ctx data = EVP_DigestUpdate (include_size ctx (ds_size data)) (pending data)"

definition Hash_finalize :: "SHA512_CTX \<Rightarrow> bytes res" where
  "Hash_finalize ctx = EVP_DigestFinal_ex ctx"

definition scalar_body :: "SHA512_CTX \<Rightarrow> byte \<Rightarrow> secp256k1_scalar option res" where
  "scalar_body ctx counter =
     (let (_, r) = finalize_copy ctx counter
      in rbind r (\<lambda>hash. case Scalar_deserialize (take 32 hash) of
           Inr candidate \<Rightarrow> Inr (Some candidate)
         | Inl e \<Rightarrow> Inr None))"

definition Hash_finalize_scalar :: "SHA512_CTX \<Rightarrow> secp256k1_scalar res option" where
  "Hash_finalize_scalar ctx = counter_loop (scalar_body ctx) 0"

definition group_body :: "SHA512_CTX \<Rightarrow> byte \<Rightarrow> GroupElement option res" where
  "group_body ctx counter =
     (let (_, r) = finalize_copy ctx counter
      in rbind r (\<lambda>hash.
           let candidate_bytes = take 33 hash @ [0]
           in case GroupElement_deserialize candidate_bytes of
                Inr candidate \<Rightarrow> if \<not> GroupElement_isMember candidate then Inr None else Inr (Some candidate)
              | Inl e \<Rightarrow> Inr None))"

definition Hash_finalize_group :: "SHA512_CTX \<Rightarrow> GroupElement res option" where
  "Hash_finalize_group ctx = counter_loop (group_body ctx) 0"

record KDF =
  kdf_ctx :: SHA512_CTX
  kdf_derived_key_size :: nat

definition KDF_new :: "bytes \<Rightarrow> nat \<Rightarrow> KDF res" where
  "KDF_new label derived_key_size =
     (let ctx = EVP_DigestInit_sha512;
          ctx = EVP_DigestUpdate ctx LABEL_PROTOCOL;
          ctx = EVP_DigestUpdate ctx [HASH_MODE_KDF];
          ctx = include_size ctx (length label);
          ctx = EVP_DigestUpdate ctx label
      in if 64 < derived_key_size then Inl (Invalid_Argument ''Requested KDF size is too large'')
         else Inr \<lparr>kdf_ctx = include_size ctx derived_key_size, kdf_derived_key_size = derived_key_size\<rparr>)"

definition KDF_include :: "KDF \<Rightarrow> CDataStream \<Rightarrow> KDF" where
  "KDF_include k data = k\<lparr>kdf_ctx := EVP_DigestUpdate (include_size (kdf_ctx k) (ds_size data)) (pending data)\<rparr>"

definition KDF_finalize :: "KDF \<Rightarrow> bytes res" where
  "KDF_finalize k = rbind (EVP_DigestFinal_ex (kdf_ctx k)) (\<lambda>result. Inr (take (kdf_derived_key_size k) result))"

section \<open>The functions of the protocol\<close>

definition generator_ctx :: "bytes \<Rightarrow> SHA512_CTX" where
  "generator_ctx label =
     (let ctx = EVP_DigestInit_sha512;
          ctx = EVP_DigestUpdate ctx LABEL_PROTOCOL;
          ctx = EVP_DigestUpdate ctx [HASH_MODE_GROUP_GENERATOR]
      in EVP_DigestUpdate ctx label)"

definition hash_generator :: "bytes \<Rightarrow> GroupElement res option" where
  "hash_generator label = counter_loop (group_body (generator_ctx label)) 0"

definition Serialize_Scalar :: "secp256k1_scalar writer" where
  "Serialize_Scalar s os = ds_write (Scalar_serialize s) os"

definition Serialize_GroupElement :: "GroupElement writer" where
  "Serialize_GroupElement e os = ds_write (GroupElement_serialize e) os"

definition Unserialize_Scalar :: "(CDataStream, secp256k1_scalar) reader" where
  "Unserialize_Scalar = sbind (ds_read 32) (\<lambda>buffer s. rbind (Scalar_deserialize buffer) (\<lambda>r. Inr (r, s)))"

definition Unserialize_GroupElement :: "(CDataStream, GroupElement) reader" where
  "Unserialize_GroupElement = sbind (ds_read 34) (\<lambda>buffer s. rbind (GroupElement_deserialize buffer) (\<lambda>r. Inr (r, s)))"

definition stream0 :: CDataStream where "stream0 = ds_init SER_NETWORK 0"

definition LABEL_KDF_DIVERSIFIER :: bytes where
  "LABEL_KDF_DIVERSIFIER = [0x44, 0x49, 0x56, 0x45, 0x52, 0x53, 0x49, 0x46, 0x49, 0x45, 0x52]"
definition LABEL_KDF_AEAD :: bytes where "LABEL_KDF_AEAD = [0x41, 0x45, 0x41, 0x44]"
definition LABEL_COMMIT_AEAD :: bytes where
  "LABEL_COMMIT_AEAD = [0x43, 0x4F, 0x4D, 0x4D, 0x49, 0x54, 0x5F, 0x41, 0x45, 0x41, 0x44]"
definition LABEL_HASH_DIV :: bytes where "LABEL_HASH_DIV = [0x44, 0x49, 0x56]"
definition LABEL_HASH_Q2 :: bytes where "LABEL_HASH_Q2 = [0x51, 0x32]"
definition LABEL_HASH_K :: bytes where "LABEL_HASH_K = [0x4B]"
definition LABEL_HASH_SER :: bytes where "LABEL_HASH_SER = [0x53, 0x45, 0x52]"
definition LABEL_HASH_VAL :: bytes where "LABEL_HASH_VAL = [0x56, 0x41, 0x4C]"
definition LABEL_HASH_SER1 :: bytes where "LABEL_HASH_SER1 = [0x53, 0x45, 0x52, 0x31]"
definition LABEL_HASH_VAL1 :: bytes where "LABEL_HASH_VAL1 = [0x56, 0x41, 0x4C, 0x31]"

definition kdf_stream :: "bytes \<Rightarrow> nat \<Rightarrow> CDataStream \<Rightarrow> bytes res" where
  "kdf_stream label n stream = rbind (KDF_new label n) (\<lambda>kdf. KDF_finalize (KDF_include kdf stream))"

definition kdf_diversifier :: "secp256k1_scalar \<Rightarrow> bytes res" where
  "kdf_diversifier s1 = kdf_stream LABEL_KDF_DIVERSIFIER AES256_KEYSIZE (Serialize_Scalar s1 stream0)"

definition kdf_aead :: "GroupElement \<Rightarrow> bytes res" where
  "kdf_aead K_der = kdf_stream LABEL_KDF_AEAD 32 (Serialize_GroupElement K_der stream0)"

definition commit_aead :: "GroupElement \<Rightarrow> bytes res" where
  "commit_aead K_der = kdf_stream LABEL_COMMIT_AEAD 32 (Serialize_GroupElement K_der stream0)"

definition hash_div :: "bytes \<Rightarrow> GroupElement res option" where
  "hash_div d = Hash_finalize_group (Hash_include (Hash_new LABEL_HASH_DIV) (Serialize_bytes d stream0))"

definition hash_Q2 :: "secp256k1_scalar \<Rightarrow> secp256k1_scalar \<Rightarrow> secp256k1_scalar res option" where
  "hash_Q2 s1 i = Hash_finalize_scalar (Hash_include (Hash_new LABEL_HASH_Q2)
     (let stream = Serialize_Scalar s1 stream0 in Serialize_Scalar i stream))"

definition hash_k :: "secp256k1_scalar \<Rightarrow> secp256k1_scalar res option" where
  "hash_k k = Hash_finalize_scalar (Hash_include (Hash_new LABEL_HASH_K) (Serialize_Scalar k stream0))"

definition hash_ser :: "secp256k1_scalar \<Rightarrow> bytes \<Rightarrow> secp256k1_scalar res option" where
  "hash_ser k serial_context = Hash_finalize_scalar (Hash_include (Hash_new LABEL_HASH_SER)
     (let stream = Serialize_Scalar k stream0 in Serialize_bytes serial_context stream))"

definition hash_val :: "secp256k1_scalar \<Rightarrow> secp256k1_scalar res option" where
  "hash_val k = Hash_finalize_scalar (Hash_include (Hash_new LABEL_HASH_VAL) (Serialize_Scalar k stream0))"

definition hash_ser1 :: "secp256k1_scalar \<Rightarrow> GroupElement \<Rightarrow> secp256k1_scalar res option" where
  "hash_ser1 s D = Hash_finalize_scalar (Hash_include (Hash_new LABEL_HASH_SER1)
     (let stream = Serialize_Scalar s stream0 in Serialize_GroupElement D stream))"

definition hash_val1 :: "secp256k1_scalar \<Rightarrow> GroupElement \<Rightarrow> secp256k1_scalar res option" where
  "hash_val1 s D = Hash_finalize_scalar (Hash_include (Hash_new LABEL_HASH_VAL1)
     (let stream = Serialize_Scalar s stream0 in Serialize_GroupElement D stream))"

section \<open>What the classes need of a digest\<close>

text \<open>\<open>holds c m\<close>: the context has absorbed the bytes \<open>m\<close>.\<close>

locale digest =
  fixes update :: "'s \<Rightarrow> bytes \<Rightarrow> 's" and final :: "'s \<Rightarrow> bytes res"
    and holds :: "'s \<Rightarrow> bytes \<Rightarrow> bool" and H :: "bytes \<Rightarrow> bytes"
  assumes update_holds: "holds c m \<Longrightarrow> length d < 2 ^ 64 \<Longrightarrow> holds (update c d) (m @ d)"
    and final_holds: "holds c m \<Longrightarrow> final c = Inr (H m)"
begin

lemma update_byte: "holds c m \<Longrightarrow> holds (update c [b]) (m @ [b])"
  by (rule update_holds) simp_all

lemma update_pair: "holds c m \<Longrightarrow> length d < 2 ^ 64 \<Longrightarrow> length e < 2 ^ 64 \<Longrightarrow> holds (update (update c d) e) (m @ d @ e)"
  using update_holds [OF update_holds, of c m d e] by simp

lemma fold_holds:
  assumes "\<And>x c m. x \<in> set xs \<Longrightarrow> holds c m \<Longrightarrow> holds (f x c) (m @ enc x)" and "holds c m"
  shows "holds (fold f xs c) (m @ concat (map enc xs))"
  using assms
proof (induction xs arbitrary: c m)
  case (Cons x xs)
  have "holds (fold f xs (f x c)) ((m @ enc x) @ concat (map enc xs))"
    using Cons.prems by (intro Cons.IH) auto
  then show ?case by simp
qed simp

end

lemma EVP_update_holds: "sha512_ctx c m \<Longrightarrow> length d < 2 ^ 64 \<Longrightarrow> sha512_ctx (EVP_DigestUpdate c d) (m @ d)"
  by (cases d) (simp_all add: EVP_DigestUpdate_def ctx_update)

interpretation evp: digest EVP_DigestUpdate EVP_DigestFinal_ex sha512_ctx fips_sha512
  by unfold_locales (simp_all add: EVP_update_holds EVP_DigestFinal_ex_def ctx_final)

lemma EVP_init_holds: "sha512_ctx EVP_DigestInit_sha512 []"
  unfolding EVP_DigestInit_sha512_def by (rule ctx_init) (rule sha512_local_buffer)

section \<open>Strings that are read back in one way\<close>

locale prefix_code =
  fixes enc :: "'a \<Rightarrow> bytes" and ok :: "'a \<Rightarrow> bool"
  assumes unique: "ok x \<Longrightarrow> ok y \<Longrightarrow> enc x @ p = enc y @ q \<Longrightarrow> x = y \<and> p = q"
begin

lemma repeated:
  "list_all ok xs \<Longrightarrow> list_all ok ys \<Longrightarrow> length xs = length ys \<Longrightarrow>
   concat (map enc xs) @ p = concat (map enc ys) @ q \<Longrightarrow> xs = ys \<and> p = q"
proof (induction xs ys rule: list_induct2')
  case (4 x xs y ys)
  have "x = y \<and> concat (map enc xs) @ p = concat (map enc ys) @ q"
    using "4.prems" by (intro unique) simp_all
  then show ?case using "4.IH" "4.prems" by simp
qed simp_all

text \<open>A sequence followed by a tail too short to be an element.\<close>

lemma sequence:
  assumes long: "\<And>x. ok x \<Longrightarrow> k < length (enc x)" and t: "length t \<le> k" "length u \<le> k"
  shows "list_all ok xs \<Longrightarrow> list_all ok ys \<Longrightarrow> concat (map enc xs) @ t = concat (map enc ys) @ u \<Longrightarrow> xs = ys \<and> t = u"
proof (induction xs ys rule: list_induct2')
  case (2 x xs)
  have "length u = length (enc x) + length (concat (map enc xs)) + length t" using "2.prems" by (simp flip: length_append)
  then show ?case using long [of x] t "2.prems" by simp
next
  case (3 y ys)
  have "length t = length (enc y) + length (concat (map enc ys)) + length u" using "3.prems" by (simp flip: length_append)
  then show ?case using long [of y] t "3.prems" by simp
next
  case (4 x xs y ys)
  have "x = y \<and> concat (map enc xs) @ t = concat (map enc ys) @ u"
    using "4.prems" by (intro unique) simp_all
  then show ?case using "4.IH" "4.prems" by simp
qed simp

end

text \<open>The two ways of writing a length: 32 big-endian bytes in transcripts, 8 little-endian bytes elsewhere.\<close>

definition size32 :: "nat \<Rightarrow> bytes" where
  "size32 n = Scalar_serialize (Scalar_of_uint64 (of_nat n))"

definition size8 :: "nat \<Rightarrow> bytes" where
  "size8 n = le_bytes 8 (of_nat n :: 64 word)"

definition frame :: "bytes \<Rightarrow> bytes" where "frame d = size32 (length d) @ d"
definition frame8 :: "bytes \<Rightarrow> bytes" where "frame8 d = size8 (length d) @ d"

definition short :: "bytes \<Rightarrow> bool" where "short d \<longleftrightarrow> length d < 2 ^ 64"

lemma length_sizes [simp]: "length (size32 n) = 32" "length (size8 n) = 8"
  by (simp_all add: size32_def size8_def Scalar_serialize_def)

lemma of_nat64_inj: "m < 2 ^ 64 \<Longrightarrow> n < 2 ^ 64 \<Longrightarrow> (of_nat m :: 64 word) = of_nat n \<Longrightarrow> m = n"
proof -
  assume a: "m < 2 ^ 64" "n < 2 ^ 64" "(of_nat m :: 64 word) = of_nat n"
  have "unat (of_nat k :: 64 word) = k" if "k < 2 ^ 64" for k using that by (simp add: unsigned_of_nat take_bit_nat_eq_self)
  then show "m = n" using a by metis
qed

lemma size32_inj: "m < 2 ^ 64 \<Longrightarrow> n < 2 ^ 64 \<Longrightarrow> size32 m = size32 n \<Longrightarrow> m = n"
proof -
  assume a: "m < 2 ^ 64" "n < 2 ^ 64" "size32 m = size32 n"
  have "be_val (size32 k) = uint (of_nat k :: 64 word)" for k
    unfolding size32_def Scalar_serialize_def by (simp only: get_b32_val of_uint64_val)
  from this [of m] this [of n] have "uint (of_nat m :: 64 word) = uint (of_nat n :: 64 word)" unfolding a(3) by (rule trans [OF sym])
  then have "(of_nat m :: 64 word) = of_nat n" by (rule word_uint_eqI)
  then show "m = n" by (rule of_nat64_inj [OF a(1,2)])
qed

lemma size8_inj: "m < 2 ^ 64 \<Longrightarrow> n < 2 ^ 64 \<Longrightarrow> size8 m = size8 n \<Longrightarrow> m = n"
  unfolding size8_def by (subst (asm) le_bytes_inj) (simp_all add: of_nat64_inj)

lemma frames_unique:
  assumes "short d" "short e" and "\<And>m n. m < 2 ^ 64 \<Longrightarrow> n < 2 ^ 64 \<Longrightarrow> sz m = sz n \<Longrightarrow> m = n" and "\<And>n. length (sz n) = k"
    and "sz (length d) @ d @ p = sz (length e) @ e @ q"
  shows "d = e \<and> p = q"
proof -
  have "sz (length d) = sz (length e) \<and> d @ p = e @ q" using assms(4,5) by simp
  moreover from this have "length d = length e" using assms(1-3) by (simp add: short_def)
  ultimately show ?thesis by simp
qed

interpretation frame: prefix_code frame short
  by unfold_locales (rule frames_unique [of _ _ size32 32], simp_all add: frame_def size32_inj)

interpretation frame8: prefix_code frame8 short
  by unfold_locales (rule frames_unique [of _ _ size8 8], simp_all add: frame8_def size8_inj)

section \<open>The inputs of the digest\<close>

text \<open>
  Every use of the digest in the protocol, as data: a transcript with what was added to it and the
  counters of the challenges drawn, a group generator with its counter, a labelled function with its
  inputs (and the counter, for the results that are scalars or points), a derived key.
\<close>

datatype item = Data bytes bytes | Vector bytes "bytes list" | Challenge bytes byte

fun item_bytes :: "item \<Rightarrow> bytes" where
  "item_bytes (Data label d) = FLAG_DATA # frame label @ frame d"
| "item_bytes (Vector label ds) = FLAG_VECTOR # size32 (length ds) @ frame label @ concat (map frame ds)"
| "item_bytes (Challenge label k) = FLAG_CHALLENGE # frame label @ [k]"

fun item_ok :: "item \<Rightarrow> bool" where
  "item_ok (Data label d) = (short label \<and> short d)"
| "item_ok (Vector label ds) = (short label \<and> length ds < 2 ^ 64 \<and> list_all short ds)"
| "item_ok (Challenge label k) = short label"

datatype hash_input =
    Transcript_input bytes "item list"
  | Generator_input bytes byte
  | Function_input bytes "bytes list" "byte option"
  | Kdf_input bytes nat "bytes list"

fun input_bytes :: "hash_input \<Rightarrow> bytes" where
  "input_bytes (Transcript_input domain items) =
     LABEL_PROTOCOL @ HASH_MODE_TRANSCRIPT # FLAG_DOMAIN # frame domain @ concat (map item_bytes items)"
| "input_bytes (Generator_input label k) = LABEL_PROTOCOL @ HASH_MODE_GROUP_GENERATOR # label @ [k]"
| "input_bytes (Function_input label ds k) =
     LABEL_PROTOCOL @ HASH_MODE_FUNCTION # frame8 label @ concat (map frame8 ds) @ (case k of None \<Rightarrow> [] | Some c \<Rightarrow> [c])"
| "input_bytes (Kdf_input label n ds) =
     LABEL_PROTOCOL @ HASH_MODE_KDF # frame8 label @ size8 n @ concat (map frame8 ds)"

fun input_ok :: "hash_input \<Rightarrow> bool" where
  "input_ok (Transcript_input domain items) = (short domain \<and> list_all item_ok items)"
| "input_ok (Generator_input label k) = short label"
| "input_ok (Function_input label ds k) = (short label \<and> list_all short ds)"
| "input_ok (Kdf_input label n ds) = (short label \<and> n \<le> 64 \<and> list_all short ds)"

lemmas mode_defs = LABEL_PROTOCOL_def HASH_MODE_TRANSCRIPT_def HASH_MODE_GROUP_GENERATOR_def
  HASH_MODE_FUNCTION_def HASH_MODE_KDF_def FLAG_DOMAIN_def FLAG_DATA_def FLAG_VECTOR_def FLAG_CHALLENGE_def

lemma item_unique: "item_ok x \<Longrightarrow> item_ok y \<Longrightarrow> item_bytes x @ p = item_bytes y @ q \<Longrightarrow> x = y \<and> p = q"
proof (cases x; cases y)
  fix l d l' d'
  assume a: "item_ok x" "item_ok y" "item_bytes x @ p = item_bytes y @ q" and xy: "x = Data l d" "y = Data l' d'"
  then have "l = l' \<and> frame d @ p = frame d' @ q" by (intro frame.unique) simp_all
  moreover from this have "d = d' \<and> p = q" using a xy by (intro frame.unique) simp_all
  ultimately show "x = y \<and> p = q" using xy by simp
next
  fix l ds l' ds'
  assume a: "item_ok x" "item_ok y" "item_bytes x @ p = item_bytes y @ q" and xy: "x = Vector l ds" "y = Vector l' ds'"
  then have s: "size32 (length ds) = size32 (length ds')" and
    r: "frame l @ concat (map frame ds) @ p = frame l' @ concat (map frame ds') @ q" by simp_all
  have n: "length ds = length ds'" by (rule size32_inj [OF _ _ s]) (use a(1,2) xy in simp_all)
  have "l = l' \<and> concat (map frame ds) @ p = concat (map frame ds') @ q" by (rule frame.unique [OF _ _ r]) (use a(1,2) xy in simp_all)
  moreover from this have "ds = ds' \<and> p = q" using a xy n by (intro frame.repeated) simp_all
  ultimately show "x = y \<and> p = q" using xy by simp
next
  fix l k l' k'
  assume a: "item_ok x" "item_ok y" "item_bytes x @ p = item_bytes y @ q" and xy: "x = Challenge l k" "y = Challenge l' k'"
  then have "l = l' \<and> [k] @ p = [k'] @ q" by (intro frame.unique) simp_all
  then show "x = y \<and> p = q" using xy by simp
qed (simp_all add: mode_defs)

interpretation item: prefix_code item_bytes item_ok
  by unfold_locales (rule item_unique)

lemma item_nonempty: "0 < length (item_bytes x)"
  by (cases x) simp_all

lemma frame8_long: "1 < length (frame8 d)"
  by (simp add: frame8_def)

lemma option_byte: "length (case k of None \<Rightarrow> [] | Some c \<Rightarrow> [c]) \<le> 1"
  by (cases k) simp_all

lemma option_byte_inj: "(case k of None \<Rightarrow> [] | Some c \<Rightarrow> [c]) = (case k' of None \<Rightarrow> [] | Some c \<Rightarrow> [c]) \<longleftrightarrow> k = k'"
  by (cases k; cases k') simp_all

lemma input_unique: "input_ok u \<Longrightarrow> input_ok v \<Longrightarrow> input_bytes u = input_bytes v \<Longrightarrow> u = v"
proof (cases u; cases v)
  fix l xs l' xs'
  assume a: "input_ok u" "input_ok v" "input_bytes u = input_bytes v" and uv: "u = Transcript_input l xs" "v = Transcript_input l' xs'"
  then have "l = l' \<and> concat (map item_bytes xs) = concat (map item_bytes xs')" by (intro frame.unique) simp_all
  moreover from this have "xs = xs'" using a uv item.sequence [of 0 "[]" "[]" xs xs'] item_nonempty by simp
  ultimately show "u = v" using uv by simp
next
  fix l ds k l' ds' k'
  assume a: "input_ok u" "input_ok v" "input_bytes u = input_bytes v" and uv: "u = Function_input l ds k" "v = Function_input l' ds' k'"
  then have r: "frame8 l @ concat (map frame8 ds) @ (case k of None \<Rightarrow> [] | Some c \<Rightarrow> [c]) =
      frame8 l' @ concat (map frame8 ds') @ (case k' of None \<Rightarrow> [] | Some c \<Rightarrow> [c])" by simp
  have l: "l = l' \<and> concat (map frame8 ds) @ (case k of None \<Rightarrow> [] | Some c \<Rightarrow> [c]) =
      concat (map frame8 ds') @ (case k' of None \<Rightarrow> [] | Some c \<Rightarrow> [c])"
    by (rule frame8.unique [OF _ _ r]) (use a(1,2) uv in simp_all)
  then have "ds = ds' \<and> (case k of None \<Rightarrow> [] | Some c \<Rightarrow> [c]) = (case k' of None \<Rightarrow> [] | Some c \<Rightarrow> [c])"
    using a uv option_byte frame8_long by (intro frame8.sequence [of 1]) simp_all
  then show "u = v" using l uv option_byte_inj [of k k'] by simp
next
  fix l n ds l' n' ds'
  assume a: "input_ok u" "input_ok v" "input_bytes u = input_bytes v" and uv: "u = Kdf_input l n ds" "v = Kdf_input l' n' ds'"
  then have r: "frame8 l @ size8 n @ concat (map frame8 ds) = frame8 l' @ size8 n' @ concat (map frame8 ds')" by simp
  have l: "l = l' \<and> size8 n @ concat (map frame8 ds) = size8 n' @ concat (map frame8 ds')"
    by (rule frame8.unique [OF _ _ r]) (use a(1,2) uv in simp_all)
  then have s: "size8 n = size8 n'" "concat (map frame8 ds) = concat (map frame8 ds')" by simp_all
  have "n = n'" by (rule size8_inj [OF _ _ s(1)]) (use a(1,2) uv in simp_all)
  moreover have "ds = ds' \<and> ([] :: bytes) = []"
    by (rule frame8.sequence [of 1]) (use a(1,2) uv s(2) frame8_long in simp_all)
  ultimately show "u = v" using l uv by simp
qed (simp_all add: mode_defs)

section \<open>What the operations absorb\<close>

lemma size_holds: "sha512_ctx c m \<Longrightarrow> sha512_ctx (Transcript_size c n) (m @ size32 n)"
  using evp.update_holds [of c m "size32 n"] by (simp add: Transcript_size_def size32_def [symmetric] Let_def)

lemma flag_holds: "sha512_ctx c m \<Longrightarrow> sha512_ctx (Transcript_include_flag c f) (m @ [f])"
  unfolding Transcript_include_flag_def by (rule evp.update_byte)

lemma data_holds: "sha512_ctx c m \<Longrightarrow> short d \<Longrightarrow> sha512_ctx (Transcript_include_data c d) (m @ frame d)"
  using evp.update_holds [OF size_holds, of c m d "length d"] by (simp add: Transcript_include_data_def frame_def short_def)

lemma label_holds: "sha512_ctx c m \<Longrightarrow> short d \<Longrightarrow> sha512_ctx (Transcript_include_label c d) (m @ frame d)"
  unfolding Transcript_include_label_def by (rule data_holds)

lemma new_holds: "short domain \<Longrightarrow> sha512_ctx (Transcript_new domain) (input_bytes (Transcript_input domain []))"
  using label_holds [OF flag_holds [OF evp.update_byte [OF evp.update_holds [OF EVP_init_holds, of LABEL_PROTOCOL]]], of domain]
  by (simp add: Transcript_new_def Let_def mode_defs)

lemma short_encodings: "short (GroupElement_serialize e)" "short (Scalar_serialize s)"
  by (simp_all add: short_def GroupElement_serialize_def Scalar_serialize_def secp256k1_fe_get_b32_def Let_def)

lemma add_data_holds: "sha512_ctx c m \<Longrightarrow> item_ok (Data l d) \<Longrightarrow> sha512_ctx (Transcript_add_data c l d) (m @ item_bytes (Data l d))"
  using data_holds [OF label_holds [OF flag_holds [of c m FLAG_DATA]], of l d] by (simp add: Transcript_add_data_def Let_def)

lemma add_vector_holds:
  "sha512_ctx c m \<Longrightarrow> item_ok (Vector l ds) \<Longrightarrow> sha512_ctx (Transcript_add_data_vector c l ds) (m @ item_bytes (Vector l ds))"
proof -
  assume a: "sha512_ctx c m" "item_ok (Vector l ds)"
  have h: "sha512_ctx (Transcript_include_label (Transcript_size (Transcript_include_flag c FLAG_VECTOR) (length ds)) l)
      (m @ FLAG_VECTOR # size32 (length ds) @ frame l)"
    using label_holds [OF size_holds [OF flag_holds [OF a(1), of FLAG_VECTOR]], of l "length ds"] a(2) by simp
  have "sha512_ctx (fold (\<lambda>value ctx. Transcript_include_data ctx value) ds
      (Transcript_include_label (Transcript_size (Transcript_include_flag c FLAG_VECTOR) (length ds)) l))
      ((m @ FLAG_VECTOR # size32 (length ds) @ frame l) @ concat (map frame ds))"
    by (rule evp.fold_holds [OF _ h]) (use a(2) in \<open>auto intro!: data_holds simp: list_all_iff\<close>)
  then show ?thesis by (simp add: Transcript_add_data_vector_def Let_def)
qed

text \<open>Points and scalars are added as their encodings.\<close>

lemma add_group_eq: "Transcript_add_group c l e = Transcript_add_data c l (GroupElement_serialize e)"
  by (simp add: Transcript_add_group_def Transcript_add_data_def Let_def)

lemma add_scalar_eq: "Transcript_add_scalar c l s = Transcript_add_data c l (Scalar_serialize s)"
  by (simp add: Transcript_add_scalar_def Transcript_add_data_def Let_def)

lemma add_group_vector_eq: "Transcript_add_group_vector c l es = Transcript_add_data_vector c l (map GroupElement_serialize es)"
  by (simp add: Transcript_add_group_vector_def Transcript_add_data_vector_def Let_def fold_map comp_def)

lemma add_scalar_vector_eq: "Transcript_add_scalar_vector c l ss = Transcript_add_data_vector c l (map Scalar_serialize ss)"
  by (simp add: Transcript_add_scalar_vector_def Transcript_add_data_vector_def Let_def fold_map comp_def)

lemma include_size_holds: "sha512_ctx c m \<Longrightarrow> sha512_ctx (include_size c n) (m @ size8 n)"
  using evp.update_holds [of c m "size8 n"]
  by (simp add: include_size_def size8_def Let_def ser_writedata64_def)

lemma framed_holds: "sha512_ctx c m \<Longrightarrow> short d \<Longrightarrow> sha512_ctx (EVP_DigestUpdate (include_size c (length d)) d) (m @ frame8 d)"
  using evp.update_holds [OF include_size_holds, of c m d "length d"] by (simp add: frame8_def short_def)

text \<open>A stream whose size fits, as every stream of the library.\<close>

definition stream_short :: "CDataStream \<Rightarrow> bool" where
  "stream_short s \<longleftrightarrow> nReadPos s \<le> length (vch s) \<and> short (pending s)"

lemma stream_size: "stream_short s \<Longrightarrow> ds_size s = length (pending s)"
proof -
  assume a: "stream_short s"
  then have "int (length (vch s)) - int (nReadPos s) = int (length (pending s))" by (simp add: stream_short_def pending_def)
  moreover have "int (length (pending s)) < 2 ^ 64" using a by (simp add: stream_short_def short_def)
  ultimately show ?thesis by (simp only: ds_size_def mod_pos_pos_trivial of_nat_0_le_iff nat_int)
qed

lemma mode_holds: "sha512_ctx (EVP_DigestUpdate (EVP_DigestUpdate EVP_DigestInit_sha512 LABEL_PROTOCOL) [mode]) (LABEL_PROTOCOL @ [mode])"
  using evp.update_byte [OF evp.update_holds [OF EVP_init_holds, of LABEL_PROTOCOL]] by (simp add: mode_defs)

lemma Hash_new_holds: "short label \<Longrightarrow> sha512_ctx (Hash_new label) (input_bytes (Function_input label [] None))"
  using framed_holds [OF mode_holds, of label HASH_MODE_FUNCTION] by (simp add: Hash_new_def Let_def)

lemma Hash_include_holds: "sha512_ctx c m \<Longrightarrow> stream_short s \<Longrightarrow> sha512_ctx (Hash_include c s) (m @ frame8 (pending s))"
  using framed_holds [of c m "pending s"] stream_size [of s] by (simp add: Hash_include_def stream_short_def)

lemma Hash_holds: "short label \<Longrightarrow> list_all stream_short ss \<Longrightarrow>
    sha512_ctx (fold (\<lambda>s c. Hash_include c s) ss (Hash_new label)) (input_bytes (Function_input label (map pending ss) None))"
  using evp.fold_holds [OF _ Hash_new_holds, of ss "\<lambda>s c. Hash_include c s" "\<lambda>s. frame8 (pending s)" label]
  by (simp add: list_all_iff Hash_include_holds comp_def)

lemma KDF_new_holds: "short label \<Longrightarrow> n \<le> 64 \<Longrightarrow>
    \<exists>k. KDF_new label n = Inr k \<and> kdf_derived_key_size k = n \<and> sha512_ctx (kdf_ctx k) (input_bytes (Kdf_input label n []))"
  using include_size_holds [OF framed_holds [OF mode_holds, of label HASH_MODE_KDF], of n] by (simp add: KDF_new_def Let_def)

lemma KDF_include_holds:
  "sha512_ctx (kdf_ctx k) m \<Longrightarrow> stream_short s \<Longrightarrow> sha512_ctx (kdf_ctx (KDF_include k s)) (m @ frame8 (pending s))"
  using framed_holds [of "kdf_ctx k" m "pending s"] stream_size [of s] by (simp add: KDF_include_def stream_short_def)

lemma KDF_include_size: "kdf_derived_key_size (fold (\<lambda>s k. KDF_include k s) ss k) = kdf_derived_key_size k"
  by (induction ss arbitrary: k) (simp_all add: KDF_include_def)

lemma KDF_fold_holds: "list_all stream_short ss \<Longrightarrow> sha512_ctx (kdf_ctx k) m \<Longrightarrow>
    sha512_ctx (kdf_ctx (fold (\<lambda>s k. KDF_include k s) ss k)) (m @ concat (map frame8 (map pending ss)))"
proof (induction ss arbitrary: k m)
  case (Cons s ss)
  have "sha512_ctx (kdf_ctx (fold (\<lambda>s k. KDF_include k s) ss (KDF_include k s))) ((m @ frame8 (pending s)) @ concat (map frame8 (map pending ss)))"
    using Cons.prems by (intro Cons.IH KDF_include_holds) simp_all
  then show ?case by simp
qed simp

lemma KDF_spec:
  assumes "short label" "n \<le> 64" "list_all stream_short ss"
  shows "rbind (KDF_new label n) (\<lambda>k. KDF_finalize (fold (\<lambda>s k. KDF_include k s) ss k)) =
    Inr (take n (fips_sha512 (input_bytes (Kdf_input label n (map pending ss)))))"
proof -
  obtain k where k: "KDF_new label n = Inr k" "kdf_derived_key_size k = n" "sha512_ctx (kdf_ctx k) (input_bytes (Kdf_input label n []))"
    using KDF_new_holds [OF assms(1,2)] by blast
  have "sha512_ctx (kdf_ctx (fold (\<lambda>s k. KDF_include k s) ss k)) (input_bytes (Kdf_input label n (map pending ss)))"
    using KDF_fold_holds [OF assms(3) k(3)] by simp
  from evp.final_holds [OF this] show ?thesis by (simp only: k(1,2) rbind_simps KDF_finalize_def KDF_include_size)
qed

section \<open>The loops over the counter\<close>

lemma counter_loop_hit:
  "f (c + of_nat j) = Inr (Some a) \<Longrightarrow> \<forall>i<j. f (c + of_nat i) = Inr None \<Longrightarrow> counter_loop f c = Some (Inr a)"
proof (induction j arbitrary: c)
  case (Suc j)
  have "f c = Inr None" using Suc.prems(2) by force
  moreover have "counter_loop f (c + 1) = Some (Inr a)"
    using Suc.prems by (intro Suc.IH) (auto simp: add.assoc dest: spec [of _ "Suc _"])
  ultimately show ?case by (subst counter_loop.simps) simp
qed (subst counter_loop.simps, simp)

lemma counter_loop_result:
  assumes "counter_loop f c = Some r"
  shows "\<exists>k. f k \<noteq> Inr None"
proof (rule counter_loop.raw_induct [OF _ assms, where P = "\<lambda>f c r. \<exists>k. f k \<noteq> Inr None"])
  fix g :: "(byte \<Rightarrow> 'a option res) \<Rightarrow> byte \<Rightarrow> 'a res option" and f c y
  assume IH: "\<And>f c y. g f c = Some y \<Longrightarrow> \<exists>k. f k \<noteq> Inr None"
    and r: "(case f c of Inl e \<Rightarrow> Some (Inl e) | Inr None \<Rightarrow> g f (c + 1) | Inr (Some a) \<Rightarrow> Some (Inr a)) = Some y"
  show "\<exists>k. f k \<noteq> Inr None"
  proof (cases "f c = Inr None")
    case True
    then show ?thesis using r IH [of f "c + 1" y] by simp
  qed blast
qed

lemma unat_byte: "unat (k :: byte) < 2 ^ 8"
proof -
  have "unat k < 2 ^ LENGTH(8)" by (rule unsigned_less)
  then show ?thesis by simp
qed

text \<open>
  A loop that never throws returns exactly when some counter is accepted, and then with the candidate
  of the first such counter.
\<close>

definition first_counter :: "(byte \<Rightarrow> bool) \<Rightarrow> byte \<Rightarrow> bool" where
  "first_counter good k \<longleftrightarrow> good k \<and> (\<forall>j. j < k \<longrightarrow> \<not> good j)"

lemma first_counter_exists:
  assumes "good k"
  shows "\<exists>k. first_counter good k"
proof -
  define n where "n = (LEAST n. good (of_nat n) \<and> n < 2 ^ 8)"
  have "good (of_nat (unat k)) \<and> unat k < 2 ^ 8" using assms unat_byte [of k] by simp
  then have n: "good (of_nat n) \<and> n < 2 ^ 8" unfolding n_def by (rule LeastI)
  have "\<not> good j" if "j < of_nat n" for j
  proof
    assume g: "good j"
    have "unat (of_nat n :: byte) = n" using n by (simp add: unsigned_of_nat take_bit_nat_eq_self)
    then have "unat j < n" using that by (simp add: word_less_nat_alt)
    moreover have "good (of_nat (unat j)) \<and> unat j < 2 ^ 8" using g unat_byte [of j] by simp
    then have "n \<le> unat j" unfolding n_def by (rule Least_le)
    ultimately show False by simp
  qed
  then show ?thesis using n unfolding first_counter_def by blast
qed

lemma counter_loop_spec:
  assumes "\<And>k. f k = Inr (if good k then Some (g k) else None)"
  shows "(\<forall>k. first_counter good k \<longrightarrow> counter_loop f 0 = Some (Inr (g k))) \<and> (counter_loop f 0 = None \<longleftrightarrow> (\<forall>k. \<not> good k))"
proof -
  have hit: "counter_loop f 0 = Some (Inr (g k))" if "first_counter good k" for k
  proof (rule counter_loop_hit [of f 0 "unat k"])
    show "f (0 + of_nat (unat k)) = Inr (Some (g k))" using that assms [of k] by (simp add: first_counter_def)
    show "\<forall>i<unat k. f (0 + of_nat i) = Inr None"
    proof (intro allI impI)
      fix i assume i: "i < unat k"
      have "i < 2 ^ 8" using i unat_byte [of k] by simp
      then have "unat (of_nat i :: byte) = i" by (simp add: unsigned_of_nat take_bit_nat_eq_self)
      then have "(of_nat i :: byte) < k" using i by (simp add: word_less_nat_alt)
      then show "f (0 + of_nat i) = Inr None" using that assms [of "of_nat i"] by (simp add: first_counter_def)
    qed
  qed
  have some: "counter_loop f 0 \<noteq> None" if "good k" for k using hit first_counter_exists [of good, OF that] by blast
  have "\<exists>k. good k" if "counter_loop f 0 \<noteq> None"
  proof -
    obtain r where "counter_loop f 0 = Some r" using \<open>counter_loop f 0 \<noteq> None\<close> by blast
    then obtain k where "f k \<noteq> Inr None" using counter_loop_result by blast
    then show ?thesis using assms [of k] by (auto split: if_splits)
  qed
  then show ?thesis using hit some by blast
qed

section \<open>Challenges, scalars and points\<close>

definition scalar_digest :: "bytes \<Rightarrow> byte \<Rightarrow> bool" where
  "scalar_digest m k \<longleftrightarrow> be_val (take 32 (fips_sha512 (m @ [k]))) < sc_n"

definition point_digest :: "bytes \<Rightarrow> byte \<Rightarrow> bool" where
  "point_digest m k \<longleftrightarrow> (\<exists>e. GroupElement_deserialize (take 33 (fips_sha512 (m @ [k])) @ [0]) = Inr e)"

lemma finalize_copy_holds:
  assumes "sha512_ctx c m"
  shows "sha512_ctx (fst (finalize_copy c k)) (m @ [k])" and "snd (finalize_copy c k) = Inr (fips_sha512 (m @ [k]))"
  using evp.update_byte [OF assms, of k] evp.final_holds by (simp_all add: finalize_copy_def Let_def)

lemma candidate_scalar: "Scalar_deserialize (take 32 (fips_sha512 m)) =
    (if be_val (take 32 (fips_sha512 m)) < sc_n then Inr (Scalar_of_bytes (take 32 (fips_sha512 m)))
     else Inl (Runtime_Error ''Scalar: decoding overflowed''))"
  by (subst deserialize_cases) simp_all

lemma challenge_body_eq: "sha512_ctx c m \<Longrightarrow> challenge_body c k =
    Inr (if scalar_digest m k then Some (Scalar_of_bytes (take 32 (fips_sha512 (m @ [k]))), fst (finalize_copy c k)) else None)"
  by (simp add: challenge_body_def scalar_digest_def finalize_copy_holds split_def candidate_scalar)

lemma scalar_body_eq: "sha512_ctx c m \<Longrightarrow> scalar_body c k =
    Inr (if scalar_digest m k then Some (Scalar_of_bytes (take 32 (fips_sha512 (m @ [k])))) else None)"
  by (simp add: scalar_body_def scalar_digest_def finalize_copy_holds split_def candidate_scalar)

lemma candidate_point:
  assumes "GroupElement_deserialize (take 33 (fips_sha512 m) @ [0]) = Inr e"
  shows "ge_ok e \<and> \<not> GroupElement_isInfinity e \<and> GroupElement_isMember e \<and> gej_mag (ge_g e) \<and> gej_on (ge_g e)"
  using assms by (intro deserialize_on_curve) (simp_all add: nth_append)

lemma group_body_eq:
  assumes "sha512_ctx c m"
  shows "group_body c k =
    Inr (if point_digest m k then Some (projr (GroupElement_deserialize (take 33 (fips_sha512 (m @ [k])) @ [0]))) else None)"
proof (cases "GroupElement_deserialize (take 33 (fips_sha512 (m @ [k])) @ [0])")
  case (Inr e)
  then show ?thesis using candidate_point [OF Inr] assms
    by (simp add: group_body_def point_digest_def finalize_copy_holds split_def Let_def)
qed (use assms in \<open>simp add: group_body_def point_digest_def finalize_copy_holds split_def Let_def\<close>)

lemma challenge_holds: "sha512_ctx c m \<Longrightarrow> short label \<Longrightarrow>
    sha512_ctx (Transcript_include_label (Transcript_include_flag c FLAG_CHALLENGE) label) (m @ FLAG_CHALLENGE # frame label)"
  using label_holds [OF flag_holds, of c m label FLAG_CHALLENGE] by simp

lemma challenge_spec:
  assumes "sha512_ctx c m" "short label"
  defines "n \<equiv> m @ FLAG_CHALLENGE # frame label"
  shows "(\<forall>k. first_counter (scalar_digest n) k \<longrightarrow>
      (\<exists>c'. Transcript_challenge c label = Some (Inr (Scalar_of_bytes (take 32 (fips_sha512 (n @ [k]))), c')) \<and>
        sha512_ctx c' (m @ item_bytes (Challenge label k)))) \<and>
    (Transcript_challenge c label = None \<longleftrightarrow> (\<forall>k. \<not> scalar_digest n k))"
proof -
  let ?c = "Transcript_include_label (Transcript_include_flag c FLAG_CHALLENGE) label"
  have h: "sha512_ctx ?c n" unfolding n_def by (rule challenge_holds [OF assms(1,2)])
  have i: "n @ [k] = m @ item_bytes (Challenge label k)" for k by (simp add: n_def)
  from counter_loop_spec [of "challenge_body ?c" "scalar_digest n"
      "\<lambda>k. (Scalar_of_bytes (take 32 (fips_sha512 (n @ [k]))), fst (finalize_copy ?c k))", OF challenge_body_eq [OF h]]
    finalize_copy_holds(1) [OF h]
  show ?thesis unfolding Transcript_challenge_def Let_def i by blast
qed

lemma finalize_scalar_spec:
  assumes "sha512_ctx c m"
  shows "(\<forall>k. first_counter (scalar_digest m) k \<longrightarrow>
      Hash_finalize_scalar c = Some (Inr (Scalar_of_bytes (take 32 (fips_sha512 (m @ [k])))))) \<and>
    (Hash_finalize_scalar c = None \<longleftrightarrow> (\<forall>k. \<not> scalar_digest m k))"
  unfolding Hash_finalize_scalar_def by (rule counter_loop_spec [OF scalar_body_eq [OF assms]])

lemma group_spec:
  assumes "sha512_ctx c m"
  shows "(\<forall>k. first_counter (point_digest m) k \<longrightarrow>
      counter_loop (group_body c) 0 = Some (Inr (projr (GroupElement_deserialize (take 33 (fips_sha512 (m @ [k])) @ [0]))))) \<and>
    (counter_loop (group_body c) 0 = None \<longleftrightarrow> (\<forall>k. \<not> point_digest m k))"
  by (rule counter_loop_spec [OF group_body_eq [OF assms]])

lemma counter_loop_value:
  assumes "\<And>k. f k = Inr (if good k then Some (g k) else None)" and "counter_loop f 0 = Some r"
  obtains k where "good k" and "r = Inr (g k)"
proof -
  have "r = Inr (g k)" if "first_counter good k" for k using counter_loop_spec [of f good g, OF assms(1)] assms(2) that by auto
  moreover have "\<exists>k. good k" using counter_loop_spec [of f good g, OF assms(1)] assms(2) by auto
  ultimately show thesis using that first_counter_exists by (metis first_counter_def)
qed

lemma group_on_curve:
  assumes "sha512_ctx c m" "counter_loop (group_body c) 0 = Some r"
  shows "\<exists>e. r = Inr e \<and> ge_ok e \<and> \<not> GroupElement_isInfinity e \<and> GroupElement_isMember e \<and> gej_mag (ge_g e) \<and> gej_on (ge_g e)"
proof (rule counter_loop_value [OF group_body_eq [OF assms(1)] assms(2)])
  fix k assume k: "point_digest m k" "r = Inr (projr (GroupElement_deserialize (take 33 (fips_sha512 (m @ [k])) @ [0])))"
  then obtain e where "GroupElement_deserialize (take 33 (fips_sha512 (m @ [k])) @ [0]) = Inr e" by (auto simp: point_digest_def)
  with candidate_point [OF this] k(2) show ?thesis by auto
qed

lemma generator_holds: "short label \<Longrightarrow> sha512_ctx (generator_ctx label) (LABEL_PROTOCOL @ HASH_MODE_GROUP_GENERATOR # label)"
  using evp.update_holds [OF mode_holds, of label HASH_MODE_GROUP_GENERATOR] by (simp add: generator_ctx_def Let_def short_def)

section \<open>The uses of the digest\<close>

text \<open>
  The calls the code makes for an input, up to the point where a digest is taken: the items of a transcript
  (a challenge leaves its label and the accepted counter in it), a candidate of a generator, the inputs of
  a labelled function with the counter if there is one, those of a key derivation.
\<close>

definition stream_of :: "bytes \<Rightarrow> CDataStream" where
  "stream_of d = ds_write d stream0"

fun item_run :: "item \<Rightarrow> SHA512_CTX \<Rightarrow> SHA512_CTX" where
  "item_run (Data label d) c = Transcript_add_data c label d"
| "item_run (Vector label ds) c = Transcript_add_data_vector c label ds"
| "item_run (Challenge label k) c =
     fst (finalize_copy (Transcript_include_label (Transcript_include_flag c FLAG_CHALLENGE) label) k)"

fun code_ctx :: "hash_input \<Rightarrow> SHA512_CTX" where
  "code_ctx (Transcript_input domain items) = fold item_run items (Transcript_new domain)"
| "code_ctx (Generator_input label k) = fst (finalize_copy (generator_ctx label) k)"
| "code_ctx (Function_input label ds k) =
     (let c = fold (\<lambda>s c. Hash_include c s) (map stream_of ds) (Hash_new label)
      in case k of None \<Rightarrow> c | Some counter \<Rightarrow> fst (finalize_copy c counter))"
| "code_ctx (Kdf_input label n ds) = kdf_ctx (fold (\<lambda>s k. KDF_include k s) (map stream_of ds) (projr (KDF_new label n)))"

lemma stream_of_short: "short d \<Longrightarrow> stream_short (stream_of d)" "pending (stream_of d) = d"
  by (simp_all add: stream_of_def stream0_def stream_short_def ds_write_def pending_def)

lemma streams_short: "list_all short ds \<Longrightarrow> list_all stream_short (map stream_of ds)" "map pending (map stream_of ds) = ds"
  by (simp_all add: list_all_iff stream_of_short comp_def)

lemma item_run_holds: "sha512_ctx c m \<Longrightarrow> item_ok i \<Longrightarrow> sha512_ctx (item_run i c) (m @ item_bytes i)"
proof (cases i)
  case (Challenge label k)
  assume "sha512_ctx c m" "item_ok i"
  then show ?thesis using finalize_copy_holds(1) [OF challenge_holds, of c m label k] Challenge by simp
qed (simp_all add: add_data_holds add_vector_holds del: item_bytes.simps)

lemma code_absorbs: "input_ok u \<Longrightarrow> sha512_ctx (code_ctx u) (input_bytes u)"
proof (cases u)
  case (Transcript_input domain items)
  assume ok: "input_ok u"
  have "sha512_ctx (fold item_run items (Transcript_new domain))
      (input_bytes (Transcript_input domain []) @ concat (map item_bytes items))"
    by (rule evp.fold_holds [OF _ new_holds]) (use ok Transcript_input in \<open>auto intro!: item_run_holds simp: list_all_iff\<close>)
  then show ?thesis using Transcript_input by simp
next
  case (Generator_input label k)
  assume ok: "input_ok u"
  then show ?thesis using finalize_copy_holds(1) [OF generator_holds, of label k] Generator_input by simp
next
  case (Function_input label ds k)
  assume ok: "input_ok u"
  have h: "sha512_ctx (fold (\<lambda>s c. Hash_include c s) (map stream_of ds) (Hash_new label)) (input_bytes (Function_input label ds None))"
    using Hash_holds [OF _ streams_short(1), of label ds] ok unfolding streams_short(2) Function_input by simp
  then show ?thesis using finalize_copy_holds(1) [OF h] Function_input by (cases k) simp_all
next
  case (Kdf_input label n ds)
  assume ok: "input_ok u"
  then have "short label" "n \<le> 64" and ds: "list_all short ds" using Kdf_input by simp_all
  from KDF_new_holds [OF this(1,2)] obtain k where k: "KDF_new label n = Inr k" "sha512_ctx (kdf_ctx k) (input_bytes (Kdf_input label n []))"
    by blast
  from KDF_fold_holds [OF streams_short(1) [OF ds] k(2)] show ?thesis
    unfolding streams_short(2) Kdf_input by (simp add: k(1))
qed

section \<open>Properties\<close>

text \<open>
  C9: no two uses of the hash function feed it the same bytes. Whatever the code hashes - a transcript with
  its domain, items and challenges, a generator, a labelled function, a key derivation - the digest it
  takes is SHA-512 of the input's byte encoding, and different inputs, of one kind or of two, have
  different encodings: labels, data, their number and order, the output size and the counters are all
  told apart. Lengths are below \<open>2^64\<close> and the derived key has at most 64 bytes.
\<close>

theorem hash_inputs_are_unique:
  assumes "input_ok u" and "input_ok v"
  shows "EVP_DigestFinal_ex (code_ctx u) = Inr (fips_sha512 (input_bytes u)) \<and>
    EVP_DigestFinal_ex (code_ctx v) = Inr (fips_sha512 (input_bytes v)) \<and>
    (input_bytes u = input_bytes v \<longrightarrow> u = v)"
  using evp.final_holds [OF code_absorbs [OF assms(1)]] evp.final_holds [OF code_absorbs [OF assms(2)]]
    input_unique [OF assms] by blast

theorem hash_inputs_are_unique_witness:
  "EVP_DigestFinal_ex (Transcript_add_data (Transcript_new [65]) [1] [2, 3]) =
     Inr (fips_sha512 (input_bytes (Transcript_input [65] [Data [1] [2, 3]]))) \<and>
   input_bytes (Transcript_input [65] [Data [1] [2, 3]]) \<noteq> input_bytes (Transcript_input [65] [Data [1, 2] [3]])"
proof -
  have "input_ok (Transcript_input [65] [Data [1] [2, 3]])" "input_ok (Transcript_input [65] [Data [1, 2] [3]])"
    by (simp_all add: short_def)
  from hash_inputs_are_unique [OF this] show ?thesis
    by (auto simp del: input_bytes.simps)
qed

text \<open>
  C10: a transcript is its list of items: a new transcript holds its domain alone, and every
  \<open>add\<close> appends exactly one item, points and scalars as their encodings and vectors with their number.
\<close>

theorem transcript_absorbs_items:
  assumes "sha512_ctx c (input_bytes (Transcript_input domain items))" and "short domain" and "short label" and "short d"
    and "list_all short ds" and "length ds < 2 ^ 64" and "length es < 2 ^ 64" and "length ss < 2 ^ 64"
  shows "sha512_ctx (Transcript_new domain) (input_bytes (Transcript_input domain [])) \<and>
    sha512_ctx (Transcript_add_data c label d) (input_bytes (Transcript_input domain (items @ [Data label d]))) \<and>
    sha512_ctx (Transcript_add_data_vector c label ds) (input_bytes (Transcript_input domain (items @ [Vector label ds]))) \<and>
    sha512_ctx (Transcript_add_group c label e) (input_bytes (Transcript_input domain (items @ [Data label (GroupElement_serialize e)]))) \<and>
    sha512_ctx (Transcript_add_scalar c label s) (input_bytes (Transcript_input domain (items @ [Data label (Scalar_serialize s)]))) \<and>
    sha512_ctx (Transcript_add_group_vector c label es) (input_bytes (Transcript_input domain (items @ [Vector label (map GroupElement_serialize es)]))) \<and>
    sha512_ctx (Transcript_add_scalar_vector c label ss) (input_bytes (Transcript_input domain (items @ [Vector label (map Scalar_serialize ss)])))"
proof -
  have e: "input_bytes (Transcript_input domain (items @ [i])) = input_bytes (Transcript_input domain items) @ item_bytes i" for i
    by simp
  have o: "item_ok (Data label (GroupElement_serialize e))" "item_ok (Data label (Scalar_serialize s))"
    "item_ok (Vector label (map GroupElement_serialize es))" "item_ok (Vector label (map Scalar_serialize ss))"
    using assms short_encodings by (simp_all add: list_all_iff)
  show ?thesis unfolding e add_group_eq add_scalar_eq add_group_vector_eq add_scalar_vector_eq
    by (intro conjI new_holds add_data_holds add_vector_holds assms o) (use assms in simp_all)
qed

theorem transcript_absorbs_items_witness:
  "sha512_ctx (Transcript_add_data (Transcript_new [65]) [66] [67]) (input_bytes (Transcript_input [65] [Data [66] [67]]))"
  using transcript_absorbs_items [of "Transcript_new [65]" "[65]" "[]" "[66]" "[67]" "[]" "[]" "[]"] new_holds [of "[65]"]
  by (simp add: short_def)

text \<open>
  C11: a challenge is drawn from the first of 256 digests that is below the order, and the counter of
  that digest is in the transcript afterwards; if no counter gives such a digest, and only then, the
  loop runs forever.
\<close>

theorem challenge_returns_first_scalar:
  assumes "sha512_ctx c (input_bytes (Transcript_input domain items))" and "short label"
  defines "m \<equiv> input_bytes (Transcript_input domain items) @ FLAG_CHALLENGE # frame label"
  shows "(\<forall>k. first_counter (scalar_digest m) k \<longrightarrow>
      (\<exists>c'. Transcript_challenge c label = Some (Inr (Scalar_of_bytes (take 32 (fips_sha512 (m @ [k]))), c')) \<and>
        sha512_ctx c' (input_bytes (Transcript_input domain (items @ [Challenge label k]))))) \<and>
    (Transcript_challenge c label = None \<longleftrightarrow> (\<forall>k. \<not> scalar_digest m k))"
  using challenge_spec [OF assms(1,2)] unfolding m_def by simp

theorem challenge_returns_first_scalar_witness:
  "Transcript_challenge (Transcript_new [65]) [66] = None \<longleftrightarrow>
   (\<forall>k. \<not> scalar_digest (input_bytes (Transcript_input [65] []) @ FLAG_CHALLENGE # frame [66]) k)"
  using challenge_returns_first_scalar [OF new_holds [of "[65]"], of "[66]"] by (simp add: short_def)

text \<open>
  C12: hashing to a point gives points of the curve: what \<open>hash_generator\<close> returns is never an
  exception and always a finite member of the curve, made from the first digest whose leading bytes
  decode to a point; it fails to return exactly when none of the 256 digests does.
\<close>

theorem generators_are_on_the_curve:
  assumes "short label"
  defines "m \<equiv> LABEL_PROTOCOL @ HASH_MODE_GROUP_GENERATOR # label"
  shows "(hash_generator label = None \<longleftrightarrow> (\<forall>k. \<not> point_digest m k)) \<and>
    (\<forall>r. hash_generator label = Some r \<longrightarrow>
      (\<exists>e. r = Inr e \<and> \<not> GroupElement_isInfinity e \<and> GroupElement_isMember e \<and> gej_mag (ge_g e) \<and> gej_on (ge_g e))) \<and>
    (\<forall>k. first_counter (point_digest m) k \<longrightarrow>
      hash_generator label = Some (GroupElement_deserialize (take 33 (fips_sha512 (input_bytes (Generator_input label k))) @ [0])))"
proof -
  note h = generator_holds [OF assms(1), folded m_def]
  have p: "Inr (projr (GroupElement_deserialize (take 33 (fips_sha512 (m @ [k])) @ [0]))) =
      GroupElement_deserialize (take 33 (fips_sha512 (m @ [k])) @ [0])" if "first_counter (point_digest m) k" for k
    using that by (auto simp: first_counter_def point_digest_def)
  have i: "input_bytes (Generator_input label k) = m @ [k]" for k by (simp add: m_def)
  show ?thesis using group_spec [OF h] group_on_curve [OF h] p unfolding hash_generator_def i by metis
qed

theorem generators_are_on_the_curve_witness:
  "hash_generator [0x46] = None \<longleftrightarrow> (\<forall>k. \<not> point_digest (LABEL_PROTOCOL @ HASH_MODE_GROUP_GENERATOR # [0x46]) k)"
  using generators_are_on_the_curve [of "[0x46]"] by (simp add: short_def)

text \<open>
  C13: the labelled hash functions and the key derivation compute SHA-512 of the input that names
  their label and lists what was included, cut to the size asked for, and never throw for sizes up to 64.
\<close>

theorem labelled_hashes_are_sha512:
  assumes "short label" and "list_all stream_short ss" and "n \<le> 64"
  shows "Hash_finalize (fold (\<lambda>s c. Hash_include c s) ss (Hash_new label)) =
      Inr (fips_sha512 (input_bytes (Function_input label (map pending ss) None))) \<and>
    rbind (KDF_new label n) (\<lambda>k. KDF_finalize (fold (\<lambda>s k. KDF_include k s) ss k)) =
      Inr (take n (fips_sha512 (input_bytes (Kdf_input label n (map pending ss)))))"
  using evp.final_holds [OF Hash_holds [OF assms(1,2)]] KDF_spec [OF assms(1,3,2)] by (simp add: Hash_finalize_def)

theorem labelled_hashes_are_sha512_witness:
  "rbind (KDF_new [65] 32) KDF_finalize = Inr (take 32 (fips_sha512 (input_bytes (Kdf_input [65] 32 []))))"
  using labelled_hashes_are_sha512 [of "[65]" "[]" 32] by (simp add: short_def)

end
