(* ===== verification/F4Grumble.thy ===== *)
theory F4Grumble
  imports SparkHash
begin

text \<open>
  The scrambling of address bytes, \<open>src/f4grumble.cpp\<close>: a Feistel network of four rounds over SHA-512
  with the network byte in every round. The lemmas show that decoding inverts encoding in both
  directions, for every length the constructor accepts.
\<close>

record F4Grumble =
  f4_network :: byte
  f4_M :: nat
  f4_L :: nat
  f4_R :: nat

definition LABEL_F4GRUMBLE_G :: bytes where
  "LABEL_F4GRUMBLE_G = [0x53, 0x50, 0x41, 0x52, 0x4B, 0x5F, 0x46, 0x34, 0x47, 0x52, 0x55, 0x4D, 0x42, 0x4C, 0x45, 0x5F, 0x47]"

definition LABEL_F4GRUMBLE_H :: bytes where
  "LABEL_F4GRUMBLE_H = [0x53, 0x50, 0x41, 0x52, 0x4B, 0x5F, 0x46, 0x34, 0x47, 0x52, 0x55, 0x4D, 0x42, 0x4C, 0x45, 0x5F, 0x48]"

definition vec_xor :: "bytes \<Rightarrow> bytes \<Rightarrow> bytes res" where
  "vec_xor x y =
     (if length x \<noteq> length y then Inl (Invalid_Argument ''Mismatched vector sizes'')
      else Inr (map (\<lambda>i. x ! i XOR y ! i) [0..<length x]))"

definition F4_get_max_size :: nat where
  "F4_get_max_size = 2 * 64"

text \<open>The lengths are the sizes of vectors, so the \<open>int\<close> of the code is a natural number here.\<close>

definition F4Grumble_new :: "byte \<Rightarrow> nat \<Rightarrow> F4Grumble res" where
  "F4Grumble_new network l_M =
     (if 2 * 64 < l_M then Inl (Invalid_Argument ''Bad address size'')
      else Inr \<lparr>f4_network = network, f4_M = l_M, f4_L = l_M div 2, f4_R = l_M - l_M div 2\<rparr>)"

text \<open>\<open>std::vector::resize\<close> fills with zeros.\<close>

definition vec_resize :: "nat \<Rightarrow> bytes \<Rightarrow> bytes" where
  "vec_resize n v = take n v @ replicate (n - length v) 0"

definition F4_round :: "F4Grumble \<Rightarrow> bytes \<Rightarrow> nat \<Rightarrow> byte \<Rightarrow> bytes \<Rightarrow> bytes res" where
  "F4_round f label l i u =
     (let ctx = EVP_DigestInit_sha512;
          ctx = EVP_DigestUpdate ctx label;
          ctx = EVP_DigestUpdate ctx [f4_network f];
          ctx = EVP_DigestUpdate ctx [i];
          ctx = EVP_DigestUpdate ctx u
      in rbind (EVP_DigestFinal_ex ctx) (\<lambda>result. Inr (vec_resize l result)))"

definition F4_G :: "F4Grumble \<Rightarrow> byte \<Rightarrow> bytes \<Rightarrow> bytes res" where
  "F4_G f i u = F4_round f LABEL_F4GRUMBLE_G (f4_R f) i u"

definition F4_H :: "F4Grumble \<Rightarrow> byte \<Rightarrow> bytes \<Rightarrow> bytes res" where
  "F4_H f i u = F4_round f LABEL_F4GRUMBLE_H (f4_L f) i u"

definition F4_encode :: "F4Grumble \<Rightarrow> bytes \<Rightarrow> bytes res" where
  "F4_encode f input =
     (if length input \<noteq> f4_M f then Inl (Invalid_Argument ''Bad address size'')
      else let a = take (f4_M f div 2) input; b = drop (f4_M f div 2) input in
        rbind (rbind (F4_G f 0 a) (vec_xor b)) (\<lambda>x.
        rbind (rbind (F4_H f 0 x) (vec_xor a)) (\<lambda>y.
        rbind (rbind (F4_G f 1 y) (vec_xor x)) (\<lambda>d.
        rbind (rbind (F4_H f 1 d) (vec_xor y)) (\<lambda>c.
        Inr (c @ d))))))"

definition F4_decode :: "F4Grumble \<Rightarrow> bytes \<Rightarrow> bytes res" where
  "F4_decode f input =
     (if length input \<noteq> f4_M f then Inl (Invalid_Argument ''Bad address size'')
      else let c = take (f4_M f div 2) input; d = drop (f4_M f div 2) input in
        rbind (rbind (F4_H f 1 d) (vec_xor c)) (\<lambda>y.
        rbind (rbind (F4_G f 1 y) (vec_xor d)) (\<lambda>x.
        rbind (rbind (F4_H f 0 x) (vec_xor y)) (\<lambda>a.
        rbind (rbind (F4_G f 0 a) (vec_xor x)) (\<lambda>b.
        Inr (a @ b))))))"

section \<open>A Feistel step and its inverse\<close>

text \<open>
  What the network needs of its round function: a result of the length of the half it is mixed into.
  The four rounds of \<open>encode\<close> and of \<open>decode\<close> are steps of this kind, in opposite orders.
\<close>

definition vxor :: "bytes \<Rightarrow> bytes \<Rightarrow> bytes" where
  "vxor x y = map (\<lambda>i. x ! i XOR y ! i) [0..<length x]"

lemma vec_xor_eq: "length x = length y \<Longrightarrow> vec_xor x y = Inr (vxor x y)"
  by (simp add: vec_xor_def vxor_def)

lemma length_vxor [simp]: "length (vxor x y) = length x"
  by (simp add: vxor_def)

lemma vxor_twice [simp]: "length y = length x \<Longrightarrow> vxor (vxor x y) y = x"
  by (rule nth_equalityI) (simp_all add: vxor_def xor.assoc)

locale feistel =
  fixes ok :: "'f \<Rightarrow> bool" and g h :: "'f \<Rightarrow> byte \<Rightarrow> bytes \<Rightarrow> bytes res"
    and G H :: "'f \<Rightarrow> byte \<Rightarrow> bytes \<Rightarrow> bytes" and l r :: "'f \<Rightarrow> nat"
  assumes g: "ok f \<Longrightarrow> length u = l f \<Longrightarrow> g f i u = Inr (G f i u)"
    and h: "ok f \<Longrightarrow> length u = r f \<Longrightarrow> h f i u = Inr (H f i u)"
    and length_G: "ok f \<Longrightarrow> length u = l f \<Longrightarrow> length (G f i u) = r f"
    and length_H: "ok f \<Longrightarrow> length u = r f \<Longrightarrow> length (H f i u) = l f"
begin

definition rounds :: "'f \<Rightarrow> bytes \<Rightarrow> bytes \<Rightarrow> bytes \<times> bytes" where
  "rounds f a b =
     (let x = vxor b (G f 0 a); y = vxor a (H f 0 x); d = vxor x (G f 1 y); c = vxor y (H f 1 d) in (c, d))"

definition unrounds :: "'f \<Rightarrow> bytes \<Rightarrow> bytes \<Rightarrow> bytes \<times> bytes" where
  "unrounds f c d =
     (let y = vxor c (H f 1 d); x = vxor d (G f 1 y); a = vxor y (H f 0 x); b = vxor x (G f 0 a) in (a, b))"

lemma rounds_length: "length a = l f \<Longrightarrow> length b = r f \<Longrightarrow> length (fst (rounds f a b)) = l f \<and> length (snd (rounds f a b)) = r f"
  by (simp add: rounds_def Let_def)

lemma unrounds_length: "length a = l f \<Longrightarrow> length b = r f \<Longrightarrow> length (fst (unrounds f a b)) = l f \<and> length (snd (unrounds f a b)) = r f"
  by (simp add: unrounds_def Let_def)

lemma unrounds_rounds: "ok f \<Longrightarrow> length a = l f \<Longrightarrow> length b = r f \<Longrightarrow>
    unrounds f (fst (rounds f a b)) (snd (rounds f a b)) = (a, b)"
  by (simp add: rounds_def unrounds_def Let_def length_G length_H)

lemma rounds_unrounds: "ok f \<Longrightarrow> length c = l f \<Longrightarrow> length d = r f \<Longrightarrow>
    rounds f (fst (unrounds f c d)) (snd (unrounds f c d)) = (c, d)"
  by (simp add: rounds_def unrounds_def Let_def length_G length_H)

lemma forward: "ok f \<Longrightarrow> length a = l f \<Longrightarrow> length b = r f \<Longrightarrow>
  rbind (rbind (g f 0 a) (vec_xor b)) (\<lambda>x. rbind (rbind (h f 0 x) (vec_xor a)) (\<lambda>y.
  rbind (rbind (g f 1 y) (vec_xor x)) (\<lambda>d. rbind (rbind (h f 1 d) (vec_xor y)) (\<lambda>c. Inr (c @ d))))) =
  Inr (fst (rounds f a b) @ snd (rounds f a b))"
  by (simp add: rounds_def Let_def g h length_G length_H vec_xor_eq)

lemma backward: "ok f \<Longrightarrow> length c = l f \<Longrightarrow> length d = r f \<Longrightarrow>
  rbind (rbind (h f 1 d) (vec_xor c)) (\<lambda>y. rbind (rbind (g f 1 y) (vec_xor d)) (\<lambda>x.
  rbind (rbind (h f 0 x) (vec_xor y)) (\<lambda>a. rbind (rbind (g f 0 a) (vec_xor x)) (\<lambda>b. Inr (a @ b))))) =
  Inr (fst (unrounds f c d) @ snd (unrounds f c d))"
  by (simp add: unrounds_def Let_def g h length_G length_H vec_xor_eq)

end

section \<open>The rounds of the code\<close>

definition round_digest :: "F4Grumble \<Rightarrow> bytes \<Rightarrow> nat \<Rightarrow> byte \<Rightarrow> bytes \<Rightarrow> bytes" where
  "round_digest f label l i u = take l (fips_sha512 (label @ [f4_network f, i] @ u))"

lemma F4_round_eq:
  assumes "length label < 2 ^ 64" "l \<le> 64" "length u < 2 ^ 64"
  shows "F4_round f label l i u = Inr (round_digest f label l i u)"
proof -
  have h: "sha512_ctx (EVP_DigestUpdate (EVP_DigestUpdate (EVP_DigestUpdate (EVP_DigestUpdate EVP_DigestInit_sha512 label) [f4_network f]) [i]) u)
      (label @ [f4_network f, i] @ u)"
    using evp.update_holds [OF evp.update_byte [OF evp.update_byte [OF evp.update_holds [OF EVP_init_holds assms(1)]]] assms(3)] by simp
  show ?thesis using evp.final_holds [OF h] assms(2) by (simp add: F4_round_def Let_def vec_resize_def round_digest_def)
qed

definition f4_ok :: "F4Grumble \<Rightarrow> bool" where
  "f4_ok f \<longleftrightarrow> f4_M f \<le> 128 \<and> f4_L f = f4_M f div 2 \<and> f4_R f = f4_M f - f4_M f div 2"

lemma F4_new_ok: "F4Grumble_new network n = Inr f \<Longrightarrow> f4_ok f \<and> f4_network f = network \<and> f4_M f = n"
  by (auto simp: F4Grumble_new_def f4_ok_def split: if_splits)

lemma f4_labels: "length LABEL_F4GRUMBLE_G < 2 ^ 64" "length LABEL_F4GRUMBLE_H < 2 ^ 64"
  by (simp_all add: LABEL_F4GRUMBLE_G_def LABEL_F4GRUMBLE_H_def)

lemma f4_sizes: "f4_ok f \<Longrightarrow> f4_L f \<le> 64" "f4_ok f \<Longrightarrow> f4_R f \<le> 64"
  by (auto simp: f4_ok_def)

interpretation f4: feistel f4_ok F4_G F4_H "\<lambda>f. round_digest f LABEL_F4GRUMBLE_G (f4_R f)"
    "\<lambda>f. round_digest f LABEL_F4GRUMBLE_H (f4_L f)" f4_L f4_R
proof unfold_locales
  fix f :: F4Grumble and u i
  assume f: "f4_ok f"
  note s = f4_sizes [OF f]
  show "F4_G f i u = Inr (round_digest f LABEL_F4GRUMBLE_G (f4_R f) i u)" if "length u = f4_L f"
    unfolding F4_G_def by (rule F4_round_eq [OF f4_labels(1) s(2)]) (use that s in simp)
  show "F4_H f i u = Inr (round_digest f LABEL_F4GRUMBLE_H (f4_L f) i u)" if "length u = f4_R f"
    unfolding F4_H_def by (rule F4_round_eq [OF f4_labels(2) s(1)]) (use that s in simp)
  show "length (round_digest f LABEL_F4GRUMBLE_G (f4_R f) i u) = f4_R f"
    "length (round_digest f LABEL_F4GRUMBLE_H (f4_L f) i u) = f4_L f"
    using s by (simp_all add: round_digest_def)
qed

text \<open>Encoding and decoding are the two directions of the network on the halves of the input.\<close>

lemma f4_halves: "f4_ok f \<Longrightarrow> length input = f4_M f \<Longrightarrow>
    length (take (f4_M f div 2) input) = f4_L f \<and> length (drop (f4_M f div 2) input) = f4_R f"
  by (simp add: f4_ok_def)

lemma F4_encode_eq:
  assumes "f4_ok f" "length input = f4_M f"
  shows "F4_encode f input = (let r = f4.rounds f (take (f4_M f div 2) input) (drop (f4_M f div 2) input) in Inr (fst r @ snd r))"
  using f4.forward [OF assms(1) conjunct1 [OF f4_halves [OF assms]] conjunct2 [OF f4_halves [OF assms]]]
  by (simp only: F4_encode_def Let_def assms(2) simp_thms if_False)

lemma F4_decode_eq:
  assumes "f4_ok f" "length input = f4_M f"
  shows "F4_decode f input = (let r = f4.unrounds f (take (f4_M f div 2) input) (drop (f4_M f div 2) input) in Inr (fst r @ snd r))"
  using f4.backward [OF assms(1) conjunct1 [OF f4_halves [OF assms]] conjunct2 [OF f4_halves [OF assms]]]
  by (simp only: F4_decode_def Let_def assms(2) simp_thms if_False)

lemma f4_joined:
  assumes "f4_ok f" "length a = f4_L f" "length b = f4_R f"
  shows "length (a @ b) = f4_M f" "take (f4_M f div 2) (a @ b) = a" "drop (f4_M f div 2) (a @ b) = b"
proof -
  have h: "f4_M f div 2 = f4_L f" "f4_L f + f4_R f = f4_M f" using assms(1) by (simp_all add: f4_ok_def)
  show "length (a @ b) = f4_M f" using assms(2,3) h(2) by simp
  show "take (f4_M f div 2) (a @ b) = a" "drop (f4_M f div 2) (a @ b) = b" unfolding h(1) assms(2) [symmetric] by simp_all
qed

lemma F4_decode_encode:
  assumes "f4_ok f" "length m = f4_M f"
  shows "\<exists>s. F4_encode f m = Inr s \<and> length s = f4_M f \<and> F4_decode f s = Inr m"
proof -
  define r where "r = f4.rounds f (take (f4_M f div 2) m) (drop (f4_M f div 2) m)"
  note l = f4_halves [OF assms]
  have rl: "length (fst r) = f4_L f" "length (snd r) = f4_R f" unfolding r_def using f4.rounds_length l by blast+
  note j = f4_joined [OF assms(1) rl]
  have "f4.unrounds f (fst r) (snd r) = (take (f4_M f div 2) m, drop (f4_M f div 2) m)"
    unfolding r_def using f4.unrounds_rounds [OF assms(1)] l by blast
  then have "F4_decode f (fst r @ snd r) = Inr m" unfolding F4_decode_eq [OF assms(1) j(1)] j(2,3) Let_def by simp
  moreover have "F4_encode f m = Inr (fst r @ snd r)" unfolding F4_encode_eq [OF assms] Let_def r_def ..
  ultimately show ?thesis using j(1) by blast
qed

lemma F4_encode_decode:
  assumes "f4_ok f" "length s = f4_M f"
  shows "\<exists>m. F4_decode f s = Inr m \<and> length m = f4_M f \<and> F4_encode f m = Inr s"
proof -
  define r where "r = f4.unrounds f (take (f4_M f div 2) s) (drop (f4_M f div 2) s)"
  note l = f4_halves [OF assms]
  have rl: "length (fst r) = f4_L f" "length (snd r) = f4_R f" unfolding r_def using f4.unrounds_length l by blast+
  note j = f4_joined [OF assms(1) rl]
  have "f4.rounds f (fst r) (snd r) = (take (f4_M f div 2) s, drop (f4_M f div 2) s)"
    unfolding r_def using f4.rounds_unrounds [OF assms(1)] l by blast
  then have "F4_encode f (fst r @ snd r) = Inr s" unfolding F4_encode_eq [OF assms(1) j(1)] j(2,3) Let_def by simp
  moreover have "F4_decode f s = Inr (fst r @ snd r)" unfolding F4_decode_eq [OF assms] Let_def r_def ..
  ultimately show ?thesis using j(1) by blast
qed

section \<open>Properties\<close>

text \<open>
  C8: scrambling is a bijection on the strings of its length: for every network byte and every length
  the constructor accepts, encoding and decoding never throw on inputs of that length, keep the length
  and invert each other.
\<close>

theorem scrambling_is_a_bijection:
  assumes "F4Grumble_new network n = Inr f" and "length m = n" and "length s = n"
  shows "(F4_encode f m = Inr s \<longleftrightarrow> F4_decode f s = Inr m) \<and> (\<exists>t. F4_encode f m = Inr t \<and> length t = n) \<and>
    (\<exists>t. F4_decode f s = Inr t \<and> length t = n)"
proof -
  note f = F4_new_ok [OF assms(1)]
  then have ok: "f4_ok f" "length m = f4_M f" "length s = f4_M f" using assms(2,3) by simp_all
  show ?thesis using F4_decode_encode [OF ok(1,2)] F4_encode_decode [OF ok(1,3)] f by auto
qed

theorem scrambling_is_a_bijection_witness:
  "\<exists>f t. F4Grumble_new 109 5 = Inr f \<and> F4_encode f [1, 2, 3, 4, 5] = Inr t \<and> length t = 5"
  using scrambling_is_a_bijection [of 109 5 _ "[1, 2, 3, 4, 5]" "[1, 2, 3, 4, 5]"] by (simp add: F4Grumble_new_def)

end
