(* ===== verification/Address.thy ===== *)
theory Address
  imports F4Grumble Bech32
begin

text \<open>
  Addresses, \<open>src/keys.cpp\<close>: the diversifier and two points, scrambled by \<open>F4Grumble\<close>, regrouped to
  five-bit symbols and written in Bech32m. The lemmas compose the theorems of these parts: an address
  string has one meaning, an address has one string, and the owner of the viewing key recovers the index
  from the diversifier. The multiplications of points in the constructors are not modelled.
\<close>

section \<open>Diversifiers of addresses\<close>

definition IncomingViewKey_get_diversifier :: "secp256k1_scalar \<Rightarrow> bytes \<Rightarrow> 64 word res" where
  "IncomingViewKey_get_diversifier s1 d =
     (if length d \<noteq> AES_BLOCKSIZE then Inl (Invalid_Argument ''Bad encrypted diversifier'')
      else rbind (kdf_diversifier s1) (\<lambda>key. rbind (diversifier_decrypt key d) (\<lambda>i. Inr i)))"

text \<open>The part of the constructor of \<open>Address\<close> that computes \<open>d\<close>.\<close>

definition Address_diversifier :: "secp256k1_scalar \<Rightarrow> 64 word \<Rightarrow> bytes res" where
  "Address_diversifier s1 i = rbind (kdf_diversifier s1) (\<lambda>key. diversifier_encrypt key i)"

section \<open>Encoding and decoding\<close>

record Address =
  ad_d :: bytes
  ad_Q1 :: GroupElement
  ad_Q2 :: GroupElement

definition ADDRESS_ENCODING_PREFIX :: byte where "ADDRESS_ENCODING_PREFIX = 0x73"

definition Address_encode :: "Address \<Rightarrow> byte \<Rightarrow> bytes res" where
  "Address_encode a network =
     (let raw = ad_d a;
          component = GroupElement_serialize (ad_Q1 a);
          raw = raw @ component;
          component = GroupElement_serialize (ad_Q2 a);
          raw = raw @ component
      in rbind (F4Grumble_new network (length raw)) (\<lambda>f.
         rbind (F4_encode f raw) (\<lambda>scrambled.
           let hrp = [ADDRESS_ENCODING_PREFIX] @ [network];
               bit_converted = snd (convertbits [] scrambled 8 5 True)
           in bech32_encode hrp bit_converted BECH32M)))"

definition decode_component :: "bytes \<Rightarrow> GroupElement res" where
  "decode_component component =
     rbind (GroupElement_deserialize component) (\<lambda>Q.
       let canonical = GroupElement_serialize Q
       in if component \<noteq> canonical then Inl (Invalid_Argument ''Bad address key encoding'') else Inr Q)"

definition Address_decode :: "bytes \<Rightarrow> (byte \<times> Address) res" where
  "Address_decode str =
     (let decoded = bech32_decode str in
      if dr_encoding decoded \<noteq> BECH32M then Inl (Invalid_Argument ''Bad address encoding'')
      else if length (dr_hrp decoded) \<noteq> 2 \<or> dr_hrp decoded ! 0 \<noteq> ADDRESS_ENCODING_PREFIX then
        Inl (Invalid_Argument ''Bad address prefix'')
      else let network = dr_hrp decoded ! 1; (ok, scrambled) = convertbits [] (dr_data decoded) 5 8 False in
        if \<not> ok then Inl (Invalid_Argument ''Bad address encoding'')
        else if length scrambled \<noteq> 2 * 34 + AES_BLOCKSIZE then Inl (Invalid_Argument ''Bad address size'')
        else rbind (F4Grumble_new network (length scrambled)) (\<lambda>f.
          rbind (F4_decode f scrambled) (\<lambda>raw.
          let d = take AES_BLOCKSIZE raw in
          rbind (decode_component (take 34 (drop AES_BLOCKSIZE raw))) (\<lambda>Q1.
          rbind (decode_component (drop (AES_BLOCKSIZE + 34) raw)) (\<lambda>Q2.
          if GroupElement_isInfinity Q1 \<or> GroupElement_isInfinity Q2 then Inl (Invalid_Argument ''Bad address key'')
          else Inr (network, \<lparr>ad_d = d, ad_Q1 = Q1, ad_Q2 = Q2\<rparr>))))))"

section \<open>Regrouping back\<close>

text \<open>The converse of \<open>convertbits_round_trip\<close>: what is accepted without padding is the padded regrouping of its result.\<close>

lemma convertbits_back:
  assumes "0 < frombits" "frombits < tobits" "tobits \<le> 8" "digits_ok frombits vs"
    and c: "convertbits [] vs frombits tobits False = (True, out)"
  shows "convertbits [] out tobits frombits True = (True, vs)"
proof -
  obtain acc bits ws where r: "cb_loop frombits tobits 0 0 [] vs = (acc, bits, ws)" by (metis prod_cases3)
  have t: "0 < tobits" using assms(1,2) by simp
  note f = cb_loop_result [OF t assms(3,1,4) r]
  have o: "ws = out" "bits < frombits" "push_bit (tobits - bits) acc AND (push_bit tobits 1 - 1) = 0"
    using c by (simp_all add: convertbits_def r del: push_bit_of_1 split: if_splits)
  have z: "acc mod 2 ^ bits = 0" using o(3) f(4) by (simp add: low_bits_shifted del: push_bit_of_1)
  have fb: "frombits \<le> 8" using assms(2,3) by simp
  obtain out' k where p: "convertbits [] out tobits frombits True = (True, out')" "k < frombits" "digits_ok frombits out'"
    "length out' * frombits = tobits * length out + k" "digits_val frombits out' = digits_val tobits out * 2 ^ k"
    using convertbits_padded [OF assms(1) fb t, of out] f(2) o(1) by auto
  have len: "length vs * frombits + k = length out' * frombits + bits" using f(3) o(1) p(4) by (simp add: mult.commute)
  then have "bits = k" using o(2) p(2) by (metis mod_less mod_mult_self3)
  then have "length out' = length vs" using len assms(1) by simp
  moreover have "digits_val frombits out' = digits_val frombits vs" using f(1) z o(1) p(5) \<open>bits = k\<close> by simp
  ultimately have "out' = vs" using digits_val_inj p(3) assms(4) by metis
  then show ?thesis using p(1) by simp
qed

lemma symbols_digits: "symbols vs \<longleftrightarrow> digits_ok 5 vs"
proof -
  have "unat v < 32 \<longleftrightarrow> uint v < 2 ^ 5" for v :: byte
  proof -
    have "int (unat v) = uint v" by simp
    then have "unat v < 32 \<longleftrightarrow> uint v < 32" by presburger
    then show ?thesis by simp
  qed
  then show ?thesis unfolding digits_ok_def by simp
qed

lemma bytes_digits: "digits_ok 8 vs"
  unfolding digits_ok_def using uint_lt2p [where 'a=8] by (simp add: list_all_iff)

section \<open>Reading and writing addresses\<close>

lemma AES_BLOCKSIZE_16: "AES_BLOCKSIZE = 16"
  by (simp add: AES_BLOCKSIZE_def)

lemma length_serialize [simp]: "length (GroupElement_serialize e) = 34"
  by (simp add: GroupElement_serialize_def Let_def secp256k1_fe_get_b32_def)

lemma decode_component_Inr: "decode_component b = Inr Q \<longleftrightarrow> GroupElement_deserialize b = Inr Q \<and> GroupElement_serialize Q = b"
  by (auto simp: decode_component_def Let_def rbind_Inr_iff)

lemma F4_new_84: "F4Grumble_new network 84 = Inr \<lparr>f4_network = network, f4_M = 84, f4_L = 42, f4_R = 42\<rparr>"
  by (simp add: F4Grumble_new_def)

text \<open>What a successful decoding has seen, step by step.\<close>

lemma Address_decode_Inr:
  assumes "Address_decode str = Inr (network, a)"
  obtains scrambled f where "dr_encoding (bech32_decode str) = BECH32M"
    and "dr_hrp (bech32_decode str) = [ADDRESS_ENCODING_PREFIX, network]"
    and "convertbits [] (dr_data (bech32_decode str)) 5 8 False = (True, scrambled)" and "length scrambled = 84"
    and "F4Grumble_new network 84 = Inr f"
    and "F4_decode f scrambled = Inr (ad_d a @ GroupElement_serialize (ad_Q1 a) @ GroupElement_serialize (ad_Q2 a))"
    and "length (ad_d a) = 16" and "\<not> GroupElement_isInfinity (ad_Q1 a)" and "\<not> GroupElement_isInfinity (ad_Q2 a)"
proof -
  let ?r = "bech32_decode str"
  obtain ok scrambled where c: "convertbits [] (dr_data ?r) 5 8 False = (ok, scrambled)" by fastforce
  have e: "dr_encoding ?r = BECH32M" "length (dr_hrp ?r) = 2" "dr_hrp ?r ! 0 = ADDRESS_ENCODING_PREFIX" "ok" "length scrambled = 84"
    using assms by (auto simp: Address_decode_def Let_def c AES_BLOCKSIZE_16 split: if_splits)
  obtain f where f: "F4Grumble_new (dr_hrp ?r ! 1) 84 = Inr f" using F4_new_84 by blast
  note fo = F4_new_ok [OF f]
  obtain raw where raw: "F4_decode f scrambled = Inr raw" "length raw = 84"
    using F4_encode_decode [of f scrambled] fo e(5) by auto
  have step: "Address_decode str = rbind (decode_component (take 34 (drop 16 raw))) (\<lambda>Q1.
      rbind (decode_component (drop 50 raw)) (\<lambda>Q2.
      if GroupElement_isInfinity Q1 \<or> GroupElement_isInfinity Q2 then Inl (Invalid_Argument ''Bad address key'')
      else Inr (dr_hrp ?r ! 1, \<lparr>ad_d = take 16 raw, ad_Q1 = Q1, ad_Q2 = Q2\<rparr>)))"
    using e f raw by (simp add: Address_decode_def Let_def c AES_BLOCKSIZE_16 del: One_nat_def)
  note d = assms [unfolded step]
  from d obtain Q1 Q2 where q: "decode_component (take 34 (drop 16 raw)) = Inr Q1" "decode_component (drop 50 raw) = Inr Q2"
    "\<not> GroupElement_isInfinity Q1" "\<not> GroupElement_isInfinity Q2" "network = dr_hrp ?r ! 1"
    "a = \<lparr>ad_d = take 16 raw, ad_Q1 = Q1, ad_Q2 = Q2\<rparr>"
    by (auto simp: rbind_Inr_iff split: if_splits)
  have s: "GroupElement_serialize Q1 = take 34 (drop 16 raw)" "GroupElement_serialize Q2 = drop 50 raw"
    using q(1,2) by (simp_all add: decode_component_Inr)
  have "take 16 raw @ take 34 (drop 16 raw) @ drop 50 raw = raw"
    using append_take_drop_id [of 34 "drop 16 raw"] append_take_drop_id [of 16 raw] by (simp del: append_take_drop_id)
  then have "F4_decode f scrambled = Inr (ad_d a @ GroupElement_serialize (ad_Q1 a) @ GroupElement_serialize (ad_Q2 a))"
    using raw(1) by (simp add: q(6) s)
  moreover have "dr_hrp ?r = [ADDRESS_ENCODING_PREFIX, network]"
    using e(2,3) q(5) by (cases "dr_hrp ?r") (auto simp: length_Suc_conv numeral_2_eq_2)
  ultimately show thesis using e c f q raw(2) by (intro that [of scrambled f]) simp_all
qed

lemma Address_encode_eq:
  assumes "length (ad_d a) = 16" "F4Grumble_new network 84 = Inr f"
    and "F4_encode f (ad_d a @ GroupElement_serialize (ad_Q1 a) @ GroupElement_serialize (ad_Q2 a)) = Inr scrambled"
  shows "Address_encode a network = bech32_encode [ADDRESS_ENCODING_PREFIX, network] (snd (convertbits [] scrambled 8 5 True)) BECH32M"
  using assms by (simp add: Address_encode_def Let_def)

lemma address_canonical:
  assumes "Address_decode str = Inr (network, a)"
  shows "Address_encode a network = Inr (map lc str)"
proof (rule Address_decode_Inr [OF assms])
  fix scrambled f
  let ?r = "bech32_decode str"
  assume d: "dr_encoding ?r = BECH32M" "dr_hrp ?r = [ADDRESS_ENCODING_PREFIX, network]"
    "convertbits [] (dr_data ?r) 5 8 False = (True, scrambled)" "length scrambled = 84" "F4Grumble_new network 84 = Inr f"
    "F4_decode f scrambled = Inr (ad_d a @ GroupElement_serialize (ad_Q1 a) @ GroupElement_serialize (ad_Q2 a))" "length (ad_d a) = 16"
  have b: "bech32_encode (dr_hrp ?r) (dr_data ?r) BECH32M = Inr (map lc str)" "symbols (dr_data ?r)"
    using bech32_decode_sound [of str ?r] d(1) by simp_all
  have "F4_encode f (ad_d a @ GroupElement_serialize (ad_Q1 a) @ GroupElement_serialize (ad_Q2 a)) = Inr scrambled"
    using F4_encode_decode [of f scrambled] F4_new_ok [OF d(5)] d(4,6) by auto
  moreover have "convertbits [] scrambled 8 5 True = (True, dr_data ?r)"
    using convertbits_back [of 5 8 "dr_data ?r" scrambled] b(2) d(3) by (simp add: symbols_digits)
  ultimately show "Address_encode a network = Inr (map lc str)"
    using Address_encode_eq [OF d(7,5)] b(1) d(2) by simp
qed

text \<open>A point whose encoding reads back as itself, as all points decoded from canonical bytes.\<close>

definition readable :: "GroupElement \<Rightarrow> bool" where
  "readable Q \<longleftrightarrow> (\<exists>Q'. decode_component (GroupElement_serialize Q) = Inr Q' \<and> \<not> GroupElement_isInfinity Q')"

lemma address_round_trip:
  assumes "length (ad_d a) = 16" "readable (ad_Q1 a)" "readable (ad_Q2 a)" "hrp_char network"
  shows "\<exists>str b. Address_encode a network = Inr str \<and> Address_decode str = Inr (network, b) \<and> ad_d b = ad_d a \<and>
    GroupElement_serialize (ad_Q1 b) = GroupElement_serialize (ad_Q1 a) \<and> GroupElement_serialize (ad_Q2 b) = GroupElement_serialize (ad_Q2 a)"
proof -
  let ?raw = "ad_d a @ GroupElement_serialize (ad_Q1 a) @ GroupElement_serialize (ad_Q2 a)"
  obtain f where f: "F4Grumble_new network 84 = Inr f" using F4_new_84 by blast
  have l: "length ?raw = 84" using assms(1) by simp
  obtain s where s: "F4_encode f ?raw = Inr s" "length s = 84" "F4_decode f s = Inr ?raw"
    using F4_decode_encode [of f ?raw] F4_new_ok [OF f] l by auto
  obtain out where out: "convertbits [] s 8 5 True = (True, out)" "digits_ok 5 out" "convertbits [] out 5 8 False = (True, s)"
    using convertbits_round_trip [of 5 8 s] bytes_digits by auto
  have h: "hrp_ok [ADDRESS_ENCODING_PREFIX, network]" using assms(4) by (simp add: hrp_ok_def hrp_char_def ADDRESS_ENCODING_PREFIX_def)
  obtain str where str: "bech32_encode [ADDRESS_ENCODING_PREFIX, network] out BECH32M = Inr str"
    "bech32_decode str = \<lparr>dr_encoding = BECH32M, dr_hrp = [ADDRESS_ENCODING_PREFIX, network], dr_data = out\<rparr>"
    using bech32_round_trip [OF h, of out BECH32M] out(2) by (auto simp: symbols_digits)
  obtain Q1 Q2 where q: "decode_component (GroupElement_serialize (ad_Q1 a)) = Inr Q1" "\<not> GroupElement_isInfinity Q1"
    "decode_component (GroupElement_serialize (ad_Q2 a)) = Inr Q2" "\<not> GroupElement_isInfinity Q2"
    using assms(2,3) by (auto simp: readable_def)
  have "Address_decode str = Inr (network, \<lparr>ad_d = ad_d a, ad_Q1 = Q1, ad_Q2 = Q2\<rparr>)"
    using str(2) out(3) s f q assms(1) by (simp add: Address_decode_def Let_def AES_BLOCKSIZE_16)
  moreover have "Address_encode a network = Inr str" using Address_encode_eq [OF assms(1) f s(1)] out(1) str(1) by simp
  ultimately show ?thesis using q(1,3) by (auto simp: decode_component_Inr)
qed

section \<open>Diversifiers\<close>

lemma kdf_diversifier_32: "\<exists>key. kdf_diversifier s1 = Inr key \<and> length key = 32"
proof -
  have "short LABEL_KDF_DIVERSIFIER" by (simp add: short_def LABEL_KDF_DIVERSIFIER_def)
  moreover have "stream_short (Serialize_Scalar s1 stream0)"
    using short_encodings(2) [of s1] by (simp add: stream_short_def Serialize_Scalar_def stream0_def)
  ultimately show ?thesis
    using KDF_spec [of LABEL_KDF_DIVERSIFIER 32 "[Serialize_Scalar s1 stream0]"]
    by (simp add: kdf_diversifier_def kdf_stream_def AES256_KEYSIZE_def)
qed

lemma diversifier_index: "\<exists>d. Address_diversifier s1 i = Inr d \<and> length d = 16 \<and> IncomingViewKey_get_diversifier s1 d = Inr i"
proof -
  obtain key where k: "kdf_diversifier s1 = Inr key" "length key = 32" using kdf_diversifier_32 by blast
  from diversifier_round_trip [OF k(2), of i] show ?thesis
    by (auto simp: Address_diversifier_def IncomingViewKey_get_diversifier_def k(1) AES_BLOCKSIZE_16)
qed

lemma diversifier_index_only:
  assumes "IncomingViewKey_get_diversifier s1 d = Inr i"
  shows "Address_diversifier s1 i = Inr d"
proof -
  obtain key where k: "kdf_diversifier s1 = Inr key" using kdf_diversifier_32 by blast
  have "diversifier_decrypt key d = Inr i"
    using assms by (auto simp: IncomingViewKey_get_diversifier_def k rbind_Inr_iff split: if_splits)
  from diversifier_decrypt_sound [OF this] show ?thesis by (simp add: Address_diversifier_def k)
qed

section \<open>An address\<close>

lemma sample_readable: "\<exists>e. GroupElement_deserialize (sample_x @ [1, 0]) = Inr e \<and> readable e"
proof -
  let ?b = "sample_x @ [1, 0]"
  obtain e where e: "GroupElement_deserialize ?b = Inr e" using sample_accepted(1) by blast
  have l: "length ?b = 34" "?b ! 33 = 0" "take 32 ?b = sample_x" "?b ! 32 = 1" by (simp_all add: nth_append sample_x_val(2))
  have "GroupElement_serialize e = ?b"
    using serialize_deserialize [OF l(1,2) e] sample_accepted(2,3) unfolding enc_x_def canonical_point_def l(3,4) by simp
  moreover have "\<not> GroupElement_isInfinity e" using deserialize_on_curve [OF l(1,2) e] by blast
  ultimately show ?thesis using e by (auto simp: readable_def decode_component_Inr)
qed

lemma sample_address: "\<exists>a str b. Address_encode a 0x6D = Inr str \<and> Address_decode str = Inr (0x6D, b)"
proof -
  obtain e where "readable e" using sample_readable by blast
  moreover have "hrp_char 0x6D" by (simp add: hrp_char_def)
  ultimately show ?thesis using address_round_trip [of "\<lparr>ad_d = replicate 16 7, ad_Q1 = e, ad_Q2 = e\<rparr>" "0x6D"] by auto
qed

section \<open>Properties\<close>

text \<open>
  C5: an address string has one meaning and an address one string: whatever \<open>decode\<close> accepts is, in
  lower case, what \<open>encode\<close> writes for the network and the address returned, whose points are finite and
  whose diversifier has sixteen bytes.
\<close>

theorem address_decoding_is_canonical:
  assumes "Address_decode str = Inr (network, a)"
  shows "Address_encode a network = Inr (map lc str) \<and> length (ad_d a) = 16 \<and>
    \<not> GroupElement_isInfinity (ad_Q1 a) \<and> \<not> GroupElement_isInfinity (ad_Q2 a)"
  by (rule Address_decode_Inr [OF assms]) (use address_canonical [OF assms] in simp)

theorem address_decoding_is_canonical_witness:
  "\<exists>str a. Address_decode str = Inr (0x6D, a) \<and> Address_encode a 0x6D = Inr (map lc str)"
proof -
  obtain a str b where "Address_encode a 0x6D = Inr str" "Address_decode str = Inr (0x6D, b)" using sample_address by blast
  from address_decoding_is_canonical [OF this(2)] this(2) show ?thesis by blast
qed

text \<open>
  C6: encoded addresses decode: for a sixteen-byte diversifier, points whose encodings read back and a
  network letter that Bech32 allows, \<open>encode\<close> does not throw and \<open>decode\<close> gives back the network, the
  diversifier and points with the same encodings.
\<close>

theorem address_decodes_what_it_encodes:
  assumes "length (ad_d a) = 16" and "readable (ad_Q1 a)" and "readable (ad_Q2 a)" and "hrp_char network"
  shows "\<exists>str b. Address_encode a network = Inr str \<and> Address_decode str = Inr (network, b) \<and> ad_d b = ad_d a \<and>
    GroupElement_serialize (ad_Q1 b) = GroupElement_serialize (ad_Q1 a) \<and> GroupElement_serialize (ad_Q2 b) = GroupElement_serialize (ad_Q2 a)"
  using assms by (rule address_round_trip)

theorem address_decodes_what_it_encodes_witness:
  "\<exists>e str b. GroupElement_deserialize (sample_x @ [1, 0]) = Inr e \<and>
     Address_encode \<lparr>ad_d = replicate 16 7, ad_Q1 = e, ad_Q2 = e\<rparr> 0x6D = Inr str \<and> Address_decode str = Inr (0x6D, b) \<and> ad_d b = replicate 16 7"
proof -
  obtain e where e: "GroupElement_deserialize (sample_x @ [1, 0]) = Inr e" "readable e" using sample_readable by blast
  have "hrp_char 0x6D" by (simp add: hrp_char_def)
  with e address_decodes_what_it_encodes [of "\<lparr>ad_d = replicate 16 7, ad_Q1 = e, ad_Q2 = e\<rparr>" "0x6D"] show ?thesis by auto
qed

text \<open>
  C7: the holder of the viewing key can always read the index: the diversifier that the constructor of
  \<open>Address\<close> computes for an index is a block from which \<open>get_diversifier\<close> recovers it, and a block from
  which it recovers an index is the diversifier of that index.
\<close>

theorem viewing_key_recovers_the_index:
  "(\<exists>d. Address_diversifier s1 i = Inr d \<and> length d = 16) \<and>
   (Address_diversifier s1 i = Inr d \<longleftrightarrow> IncomingViewKey_get_diversifier s1 d = Inr i)"
  using diversifier_index [of s1 i] diversifier_index_only [of s1 d i] by (metis sum.inject(2))

end
