(* ===== verification/Wnaf.thy ===== *)
theory Wnaf
  imports ScalarImpl
begin

text \<open>
  The signed digit expansions of scalars in \<open>secp256k1/src/ecmult_impl.h\<close>, which the multiplications of
  points start from: \<open>secp256k1_ecmult_wnaf\<close> with digits up to a width and zeros between them, and
  \<open>secp256k1_wnaf_fixed\<close> with one digit per window and a skew. The digits are C \<open>int\<close>s far from their
  limits and are integers here. The lemmas show that the expansions have the value of the scalar and the
  digits the shape that the tables of multiples are made for.
\<close>

section \<open>Windows of a scalar\<close>

lemma sc_val_concat: "sc_val a = concat_bit 64 (uint (sc0 a)) (concat_bit 64 (uint (sc1 a)) (concat_bit 64 (uint (sc2 a)) (uint (sc3 a))))"
proof -
  have t: "take_bit 64 (uint x) = uint x" for x :: "64 word" using uint_lt2p [of x] by (simp add: take_bit_int_eq_self)
  show ?thesis by (simp add: sc_val_def concat_bit_eq t push_bit_eq_mult algebra_simps)
qed

lemma less_4: "(n :: nat) < 4 \<Longrightarrow> n = 0 \<or> n = 1 \<or> n = 2 \<or> n = 3"
  by auto

lemma bit_sc_val: "k < 256 \<Longrightarrow> bit (sc_val a) k \<longleftrightarrow> bit (sc_limb a (k div 64)) (k mod 64)"
proof -
  assume k: "k < 256"
  define q r where "q = k div 64" and "r = k mod 64"
  have qr: "k = 64 * q + r" "r < 64" "q < 4" using k by (simp_all add: q_def r_def less_mult_imp_div_less)
  have "bit (sc_val a) (64 * q + r) \<longleftrightarrow> bit (sc_limb a q) r"
    using less_4 [OF qr(3)] qr(2)
    by (elim disjE) (simp_all add: sc_val_concat bit_concat_bit_iff bit_uint_iff sc_limb_def)
  then show ?thesis by (simp add: q_def r_def)
qed

text \<open>Both ways of reading a window give the bits of the value.\<close>

definition window :: "secp256k1_scalar \<Rightarrow> nat \<Rightarrow> nat \<Rightarrow> 64 word" where
  "window a b c = (if (b + c - 1) div 64 = b div 64 then drop_bit (b mod 64) (sc_limb a (b div 64))
     else drop_bit (b mod 64) (sc_limb a (b div 64)) OR push_bit (64 - b mod 64) (sc_limb a (b div 64 + 1)))"

lemma get_bits_window: "secp256k1_scalar_get_bits_var a b c = ucast (window a b c AND mask c)"
  by (simp add: secp256k1_scalar_get_bits_var_def secp256k1_scalar_get_bits_def window_def mask_eq_exp_minus_1)

lemma window_bit: "c < 32 \<Longrightarrow> bit (ucast (x AND mask c :: 64 word) :: 32 word) k \<longleftrightarrow> k < c \<and> bit x k"
  by (auto simp: bit_ucast_iff bit_and_iff bit_mask_iff)

lemma limb_bits: "64 \<le> k \<Longrightarrow> \<not> bit (x :: 64 word) k"
  using bit_imp_le_length [of x k] by auto

lemma window_spec:
  assumes k: "k < c" "c < 32" "b + c \<le> 256"
  shows "bit (window a b c) k \<longleftrightarrow> bit (sc_val a) (b + k)"
proof -
  define q r where "q = b div 64" and "r = b mod 64"
  have qr: "b = 64 * q + r" "r < 64" by (simp_all add: q_def r_def)
  have bk: "b + k < 256" using k by simp
  have v: "bit (sc_val a) (b + k) \<longleftrightarrow> bit (sc_limb a ((b + k) div 64)) ((b + k) mod 64)" by (rule bit_sc_val [OF bk])
  show ?thesis
  proof (cases "r + k < 64")
    case True
    have "(b + k) div 64 = q" "(b + k) mod 64 = r + k" using True by (simp_all add: qr(1) add.assoc)
    moreover have "\<not> bit (push_bit (64 - r) x) k" for x :: "64 word" using True qr(2) by (auto simp: bit_push_bit_iff)
    moreover have "bit (drop_bit r x) k \<longleftrightarrow> bit x (r + k)" for x :: "64 word" by (simp add: bit_drop_bit_eq)
    ultimately show ?thesis unfolding v window_def q_def [symmetric] r_def [symmetric] by (simp add: bit_or_iff)
  next
    case False
    define t where "t = r + k - 64"
    have e: "b + k = 64 * (q + 1) + t" "t < 64" using False qr k by (simp_all add: t_def)
    have d: "(b + k) div 64 = q + 1" "(b + k) mod 64 = t"
      using e by (auto intro: div_nat_eqI) (metis e mod_mult_self4 mod_less)
    have "64 * (q + 1) \<le> b + c - 1" using e(1) k by simp
    then have "q + 1 \<le> (b + c - 1) div 64" using div_le_mono [of "64 * (q + 1)" "b + c - 1" 64] by simp
    then have n: "(b + c - 1) div 64 \<noteq> q" by simp
    have "\<not> bit (drop_bit r x) k" for x :: "64 word" using False limb_bits [of "r + k" x] by (simp add: bit_drop_bit_eq)
    moreover have "bit (push_bit (64 - r) x) k \<longleftrightarrow> bit x t" for x :: "64 word"
      unfolding t_def using False qr(2) k by (simp add: bit_push_bit_iff) (simp add: algebra_simps, linarith)
    ultimately show ?thesis unfolding v d window_def q_def [symmetric] r_def [symmetric] using n by (simp add: bit_or_iff)
  qed
qed

lemma get_bits_spec:
  assumes "c < 32" "b + c \<le> 256"
  shows "uint (secp256k1_scalar_get_bits_var a b c) = sc_val a div 2 ^ b mod 2 ^ c"
proof -
  have "uint (secp256k1_scalar_get_bits_var a b c) = take_bit c (drop_bit b (sc_val a))"
  proof (rule bit_eqI)
    fix k
    have "bit (uint (secp256k1_scalar_get_bits_var a b c)) k \<longleftrightarrow> k < c \<and> bit (window a b c) k"
      unfolding get_bits_window using window_bit [OF assms(1)] assms(1) by (auto simp: bit_uint_iff)
    also have "\<dots> \<longleftrightarrow> k < c \<and> bit (sc_val a) (b + k)" using window_spec [OF _ assms] by blast
    finally show "bit (uint (secp256k1_scalar_get_bits_var a b c)) k \<longleftrightarrow> bit (take_bit c (drop_bit b (sc_val a))) k"
      by (simp add: bit_take_bit_iff bit_drop_bit_eq)
  qed
  then show ?thesis by (simp add: take_bit_eq_mod drop_bit_eq_div)
qed

lemma get_bit_spec: "b < 256 \<Longrightarrow> uint (secp256k1_scalar_get_bits a b 1) = sc_val a div 2 ^ b mod 2"
  using get_bits_spec [of 1 b a] by (simp add: secp256k1_scalar_get_bits_var_def)

section \<open>The value of an expansion\<close>

definition wnaf_value :: "nat \<Rightarrow> int list \<Rightarrow> int" where
  "wnaf_value w ds = (\<Sum>i<length ds. ds ! i * 2 ^ (w * i))"

lemma wnaf_value_update:
  assumes "i < length ds"
  shows "wnaf_value w (ds[i := d]) = wnaf_value w ds + (d - ds ! i) * 2 ^ (w * i)"
proof -
  have "wnaf_value w (ds[i := d]) = (\<Sum>j<length ds. ds ! j * 2 ^ (w * j) + (if j = i then (d - ds ! i) * 2 ^ (w * i) else 0))"
    by (auto simp: wnaf_value_def nth_list_update algebra_simps intro!: sum.cong)
  then show ?thesis using assms by (simp add: sum.distrib wnaf_value_def)
qed

lemma wnaf_value_zeros: "wnaf_value w (replicate n 0) = 0"
  by (simp add: wnaf_value_def)

lemma mod_power_split: "(v :: int) mod 2 ^ (b + c) = v mod 2 ^ b + 2 ^ b * (v div 2 ^ b mod 2 ^ c)"
  by (simp add: power_add zmod_zmult2_eq)

section \<open>secp256k1_ecmult_wnaf\<close>

text \<open>
  The loop, with the window \<open>w\<close>, the sign and the variables \<open>bit\<close>, \<open>carry\<close>, \<open>last_set_bit\<close> and \<open>wnaf\<close>.
  The final carry is kept in the result: the code checks it under \<open>VERIFY\<close>.
\<close>

function wnaf_loop :: "secp256k1_scalar \<Rightarrow> nat \<Rightarrow> nat \<Rightarrow> int \<Rightarrow> nat \<Rightarrow> int \<Rightarrow> int \<Rightarrow> int list \<Rightarrow> int list \<times> int \<times> int" where
  "wnaf_loop s len w sign bit' carry last_set_bit wnaf =
     (if bit' < len \<and> 0 < w then
        if uint (secp256k1_scalar_get_bits s bit' 1) = carry then wnaf_loop s len w sign (bit' + 1) carry last_set_bit wnaf
        else
          let now = (if len - bit' < w then len - bit' else w);
              word = uint (secp256k1_scalar_get_bits_var s bit' now) + carry;
              carry = word div 2 ^ (w - 1) mod 2;
              word = word - carry * 2 ^ w
          in wnaf_loop s len w sign (bit' + now) carry (int bit') (wnaf[bit' := sign * word])
      else (wnaf, last_set_bit, carry))"
  by pat_completeness auto
termination
  by (relation "measure (\<lambda>(s, len, w, sign, b, carry, last, wnaf). len - b)") auto

declare wnaf_loop.simps [simp del]

text \<open>\<open>wnaf\<close> is the array before the call, of at least \<open>len\<close> entries; the result is the array and the number of set values.\<close>

definition secp256k1_ecmult_wnaf :: "int list \<Rightarrow> nat \<Rightarrow> secp256k1_scalar \<Rightarrow> nat \<Rightarrow> int list \<times> int" where
  "secp256k1_ecmult_wnaf wnaf len a w =
     (let wnaf = replicate len 0 @ drop len wnaf;
          (s, sign) = (if secp256k1_scalar_get_bits a 255 1 \<noteq> 0 then (secp256k1_scalar_negate a, - 1) else (a, 1));
          (wnaf, last_set_bit, carry) = wnaf_loop s len w sign 0 0 (- 1) wnaf
      in (wnaf, last_set_bit + 1))"

text \<open>The digits: zero or odd and below half the window's range, with zeros up to the end of the window.\<close>

definition wnaf_digits :: "nat \<Rightarrow> int list \<Rightarrow> bool" where
  "wnaf_digits w ds \<longleftrightarrow> (\<forall>i < length ds. ds ! i \<noteq> 0 \<longrightarrow> odd (ds ! i) \<and> \<bar>ds ! i\<bar> < 2 ^ (w - 1) \<and>
     (\<forall>j < length ds. i < j \<and> j < i + w \<longrightarrow> ds ! j = 0))"

text \<open>The window that starts at a bit different from the carry.\<close>

lemma window_digit:
  fixes X c :: int
  assumes w: "2 \<le> w" and n: "0 < n" "n \<le> w" and X: "0 \<le> X" "X < 2 ^ n" and c: "c \<in> {0, 1}" "X mod 2 \<noteq> c"
  defines "c' \<equiv> (X + c) div 2 ^ (w - 1) mod 2"
  shows "odd (X + c - c' * 2 ^ w)" "\<bar>X + c - c' * 2 ^ w\<bar> < 2 ^ (w - 1)" "c' \<in> {0, 1}" "n < w \<Longrightarrow> c' = 0"
    "c' = 1 \<Longrightarrow> X div 2 ^ (w - 1) mod 2 = 1"
proof -
  define h :: int where "h = 2 ^ (w - 1)"
  have h: "2 ^ w = 2 * h" "even h" "2 \<le> h" using w by (cases w; simp add: h_def; cases "w - 1"; simp)+
  have o: "odd (X + c)" using c by (elim insertE emptyE) (simp_all add: mod2_eq_if split: if_splits)
  have nw: "(2 :: int) ^ n \<le> 2 ^ w" using n by (simp add: power_increasing)
  have "X + c \<le> 2 * h" using nw X(2) c(1) h(1) by auto
  moreover have "even (2 * h)" by simp
  then have "X + c \<noteq> 2 * h" using o by metis
  ultimately have lt: "X + c < 2 * h" by simp
  have pos: "0 \<le> X + c" using X(1) c(1) by auto
  have d: "(X + c) div h = (if X + c < h then 0 else 1)"
    using lt pos div_pos_pos_trivial [of "X + c" h] int_div_pos_eq [of "X + c" h 1 "X + c - h"] by simp
  then have c': "c' = (if X + c < h then 0 else 1)" by (simp add: c'_def h_def)
  have ne: "X + c \<noteq> h" using o h(2) by auto
  show "odd (X + c - c' * 2 ^ w)" using o h by (simp add: c')
  show "\<bar>X + c - c' * 2 ^ w\<bar> < 2 ^ (w - 1)" using lt ne pos unfolding h_def [symmetric] h(1) by (simp add: c')
  show "c' \<in> {0, 1}" by (simp add: c')
  show "c' = 0" if "n < w"
  proof -
    have "(2 :: int) ^ n \<le> h" using that unfolding h_def by (intro power_increasing) simp_all
    then have "X + c \<le> h" using X(2) c by auto
    then show ?thesis using ne by (simp add: c')
  qed
  show "X div 2 ^ (w - 1) mod 2 = 1" if "c' = 1"
  proof -
    have "h \<le> X + c" using that by (simp add: c' split: if_splits)
    then have "h \<le> X" using ne c by auto
    moreover have "X < 2 * h" using X(2) nw h(1) by simp
    ultimately have "X div h = 1" using int_div_pos_eq [of X h 1 "X - h"] by simp
    then show ?thesis by (simp add: h_def)
  qed
qed

text \<open>
  What holds at the head of the loop: the digits written so far have the value of the bits read, less the
  carry; a carry comes from a bit that is set.
\<close>

definition wnaf_inv :: "int \<Rightarrow> nat \<Rightarrow> nat \<Rightarrow> int \<Rightarrow> nat \<Rightarrow> int \<Rightarrow> int \<Rightarrow> int list \<Rightarrow> bool" where
  "wnaf_inv V len w sign b carry lsb ds \<longleftrightarrow>
     length ds = len \<and> b \<le> len \<and> carry \<in> {0, 1} \<and> (carry = 1 \<longrightarrow> 0 < b \<and> V div 2 ^ (b - 1) mod 2 = 1) \<and>
     wnaf_value 1 ds = sign * (V mod 2 ^ b - carry * 2 ^ b) \<and> wnaf_digits w ds \<and> - 1 \<le> lsb \<and> lsb < int len \<and>
     (\<forall>i < len. (ds ! i \<noteq> 0 \<longrightarrow> int i \<le> lsb \<and> (i + w \<le> b \<or> b = len)) \<and> (b \<le> i \<longrightarrow> ds ! i = 0))"

lemma wnaf_inv_init: "wnaf_inv V len w sign 0 0 (- 1) (replicate len 0)"
  by (simp add: wnaf_inv_def wnaf_value_zeros wnaf_digits_def)

lemma wnaf_inv_skip:
  assumes "wnaf_inv V len w sign b carry lsb ds" "b < len" "V div 2 ^ b mod 2 = carry"
  shows "wnaf_inv V len w sign (b + 1) carry lsb ds"
proof -
  have "V mod 2 ^ (b + 1) = V mod 2 ^ b + 2 ^ b * carry" using mod_power_split [of V b 1] assms(3) by simp
  then have "V mod 2 ^ (b + 1) - carry * 2 ^ (b + 1) = V mod 2 ^ b - carry * 2 ^ b" by simp
  then show ?thesis using assms unfolding wnaf_inv_def by (auto simp: le_Suc_eq)
qed

lemma signed_digit: "sign \<in> {1, - 1} \<Longrightarrow> odd d \<Longrightarrow> \<bar>d\<bar> < h \<Longrightarrow> odd (sign * d) \<and> \<bar>sign * d\<bar> < h" for d :: int
  by auto

lemma wnaf_inv_word:
  assumes inv: "wnaf_inv V len w sign b carry lsb ds" and b: "b < len" and w: "2 \<le> w" and sg: "sign \<in> {1, - 1}"
    and c: "V div 2 ^ b mod 2 \<noteq> carry"
  defines "now \<equiv> if len - b < w then len - b else w"
  defines "word \<equiv> V div 2 ^ b mod 2 ^ now + carry"
  defines "carry' \<equiv> word div 2 ^ (w - 1) mod 2"
  shows "wnaf_inv V len w sign (b + now) carry' (int b) (ds[b := sign * (word - carry' * 2 ^ w)])"
proof -
  define X where "X = V div 2 ^ b mod 2 ^ now"
  have n: "0 < now" "now \<le> w" "b + now \<le> len" using b w by (auto simp: now_def)
  have i: "length ds = len" "carry \<in> {0, 1}" "wnaf_value 1 ds = sign * (V mod 2 ^ b - carry * 2 ^ b)" "wnaf_digits w ds"
    "\<And>i. i < len \<Longrightarrow> ds ! i \<noteq> 0 \<Longrightarrow> i + w \<le> b" "\<And>i. i < len \<Longrightarrow> b \<le> i \<Longrightarrow> ds ! i = 0"
    using inv b by (auto simp: wnaf_inv_def)
  have two: "(2 :: int) ^ now = 2 * 2 ^ (now - 1)" using n(1) by (cases now) simp_all
  have Xb: "X mod 2 = V div 2 ^ b mod 2" unfolding X_def two by (simp add: mod_mult2_eq' mod_mod_cancel)
  have word: "word = X + carry" by (simp add: word_def X_def)
  have c': "carry' = (X + carry) div 2 ^ (w - 1) mod 2" by (simp add: carry'_def word)
  have X: "0 \<le> X" "X < 2 ^ now" by (simp_all add: X_def)
  note d = window_digit [OF w n(1,2) X i(2), unfolded Xb, OF c, folded c' word]
  have top: "V div 2 ^ (b + now - 1) mod 2 = 1" if "carry' = 1"
  proof -
    have nw: "now = w" using d(4) that n(2) by fastforce
    have "X div 2 ^ (w - 1) = V div 2 ^ b div 2 ^ (w - 1) mod 2"
      using mod_power_split [of "V div 2 ^ b" "w - 1" 1] w by (simp add: X_def nw)
    then show ?thesis using d(5) [OF that] nw w by (simp add: zdiv_zmult2_eq [symmetric] power_add [symmetric])
  qed
  have ds: "ds ! b = 0" using i(6) b by simp
  have low: "carry' * 2 ^ (b + now) = carry' * 2 ^ w * 2 ^ b" using d(3,4) n(2) by (cases "now = w") (auto simp: power_add)
  have "wnaf_value 1 (ds[b := sign * (word - carry' * 2 ^ w)]) = wnaf_value 1 ds + sign * (word - carry' * 2 ^ w) * 2 ^ b"
    using wnaf_value_update [of b ds 1] b i(1) ds by simp
  also have "\<dots> = sign * (V mod 2 ^ b + 2 ^ b * X - carry' * 2 ^ (b + now))"
    unfolding i(3) low word by (simp add: algebra_simps)
  also have "V mod 2 ^ b + 2 ^ b * X = V mod 2 ^ (b + now)" unfolding X_def by (rule mod_power_split [symmetric])
  finally have val: "wnaf_value 1 (ds[b := sign * (word - carry' * 2 ^ w)]) = sign * (V mod 2 ^ (b + now) - carry' * 2 ^ (b + now))" .
  have dig: "odd (sign * (word - carry' * 2 ^ w))" "\<bar>sign * (word - carry' * 2 ^ w)\<bar> < 2 ^ (w - 1)"
    using signed_digit [OF sg d(1,2)] by blast+
  define D where "D = sign * (word - carry' * 2 ^ w)"
  note val = val [folded D_def] and dig = dig [folded D_def]
  have old: "odd (ds ! j)" "\<bar>ds ! j\<bar> < 2 ^ (w - 1)" "\<And>k. k < len \<Longrightarrow> j < k \<Longrightarrow> k < j + w \<Longrightarrow> ds ! k = 0" if "j < len" "ds ! j \<noteq> 0" for j
    using i(4) that unfolding wnaf_digits_def i(1) by blast+
  have "wnaf_digits w (ds[b := D])"
    unfolding wnaf_digits_def
  proof (intro allI impI conjI)
    fix j assume j: "j < length (ds[b := D])" and nz: "ds[b := D] ! j \<noteq> 0"
    show "odd (ds[b := D] ! j)" "\<bar>ds[b := D] ! j\<bar> < 2 ^ (w - 1)"
      using j nz dig old(1,2) [of j] i(1) b by (cases "j = b"; force)+
    fix k assume k: "k < length (ds[b := D])" "j < k \<and> k < j + w"
    show "ds[b := D] ! k = 0"
    proof (cases "j = b")
      case True
      then show ?thesis using k i(6) [of k] i(1) by simp
    next
      case False
      then have "ds ! j \<noteq> 0" using nz by simp
      moreover have "k \<noteq> b" using i(5) [of j] j i(1) calculation k by auto
      ultimately show ?thesis using old(3) [of j k] j k i(1) by simp
    qed
  qed
  moreover have "(ds[b := D] ! j \<noteq> 0 \<longrightarrow> int j \<le> int b \<and> (j + w \<le> b + now \<or> b + now = len)) \<and>
      (b + now \<le> j \<longrightarrow> ds[b := D] ! j = 0)" if "j < len" for j
  proof (cases "j = b")
    case True
    then show ?thesis using n by (auto simp: now_def)
  next
    case False
    then show ?thesis using i(5,6) [of j] that by fastforce
  qed
  ultimately show ?thesis using val d(3) top n b i(1) unfolding wnaf_inv_def D_def [symmetric] by simp
qed

lemma get_bit_carry: "b < 256 \<Longrightarrow> uint (secp256k1_scalar_get_bits a b 1) = carry \<longleftrightarrow> sc_val a div 2 ^ b mod 2 = carry"
  using get_bit_spec [of b a] by simp

lemma wnaf_loop_inv:
  assumes "wnaf_inv (sc_val s) len w sign b carry lsb ds" "2 \<le> w" "w < 32" "len \<le> 256" "sign \<in> {1, - 1}"
  shows "case wnaf_loop s len w sign b carry lsb ds of (ds', lsb', carry') \<Rightarrow> wnaf_inv (sc_val s) len w sign len carry' lsb' ds'"
  using assms
proof (induction s len w sign b carry lsb ds rule: wnaf_loop.induct)
  case (1 s len w sign b carry lsb ds)
  show ?case
  proof (cases "b < len")
    case False
    then have "b = len" using "1.prems"(1) by (simp add: wnaf_inv_def)
    then show ?thesis using "1.prems"(1) by (simp add: wnaf_loop.simps [of s len])
  next
    case b: True
    then have bw: "b < len \<and> 0 < w" and b256: "b < 256" using "1.prems"(2,4) by simp_all
    show ?thesis
    proof (cases "uint (secp256k1_scalar_get_bits s b 1) = carry")
      case True
      then have "sc_val s div 2 ^ b mod 2 = carry" using get_bit_carry [OF b256] by blast
      from "1.IH"(1) [OF bw True wnaf_inv_skip [OF "1.prems"(1) b this] "1.prems"(2-)] True bw
      show ?thesis by (simp add: wnaf_loop.simps [of s len w sign b])
    next
      case False
      then have ne: "sc_val s div 2 ^ b mod 2 \<noteq> carry" using get_bit_carry [OF b256] by blast
      define now where "now = (if len - b < w then len - b else w)"
      define word where "word = sc_val s div 2 ^ b mod 2 ^ now + carry"
      define carry' where "carry' = word div 2 ^ (w - 1) mod 2"
      have "now < 32" "b + now \<le> 256" using "1.prems"(3,4) b by (auto simp: now_def)
      then have g: "uint (secp256k1_scalar_get_bits_var s b now) + carry = word" by (simp add: get_bits_spec word_def)
      have inv: "wnaf_inv (sc_val s) len w sign (b + now) carry' (int b) (ds[b := sign * (word - carry' * 2 ^ w)])"
        unfolding carry'_def word_def now_def by (rule wnaf_inv_word [OF "1.prems"(1) b "1.prems"(2,5) ne])
      have step: "wnaf_loop s len w sign b carry lsb ds =
          wnaf_loop s len w sign (b + now) carry' (int b) (ds[b := sign * (word - carry' * 2 ^ w)])"
        by (subst wnaf_loop.simps, subst if_P [OF bw], subst if_not_P [OF False]) (simp only: Let_def now_def [symmetric] g carry'_def)
      show ?thesis unfolding step
        by (rule "1.IH"(2) [OF bw False now_def g [symmetric] carry'_def refl inv "1.prems"(2-)])
    qed
  qed
qed

text \<open>A scalar with the sign the routine gives it.\<close>

definition sc_signed :: "secp256k1_scalar \<Rightarrow> int" where
  "sc_signed a = (if sc_val a < 2 ^ 255 then sc_val a else sc_val a - sc_n)"

lemma top_bit: "secp256k1_scalar_get_bits a 255 1 \<noteq> 0 \<longleftrightarrow> 2 ^ 255 \<le> sc_val a"
proof -
  have "uint (secp256k1_scalar_get_bits a 255 1) = sc_val a div 2 ^ 255 mod 2" using get_bit_spec [of 255 a] by simp
  moreover have "sc_val a div 2 ^ 255 = (if 2 ^ 255 \<le> sc_val a then 1 else 0)"
    using sc_val_bounds [of a] div_pos_pos_trivial [of "sc_val a" "2 ^ 255"] int_div_pos_eq [of "sc_val a" "2 ^ 255" 1 "sc_val a - 2 ^ 255"] by simp
  ultimately have "uint (secp256k1_scalar_get_bits a 255 1) = (if 2 ^ 255 \<le> sc_val a then 1 else 0)" by simp
  then show ?thesis by (auto simp: word_uint_eq_iff split: if_splits)
qed

lemma wnaf_spec:
  assumes a: "sc_ok a" and w: "2 \<le> w" "w < 32" and len: "0 < len" "len \<le> 256" "length ds = len" and short: "\<bar>sc_signed a\<bar> < 2 ^ (len - 1)"
  obtains ds' n where "secp256k1_ecmult_wnaf ds len a w = (ds', n)" "wnaf_value 1 ds' = sc_signed a" "wnaf_digits w ds'"
    "length ds' = len" "0 \<le> n" "n \<le> int len" "\<And>i. i < len \<Longrightarrow> n \<le> int i \<Longrightarrow> ds' ! i = 0"
proof -
  define s where "s = (if 2 ^ 255 \<le> sc_val a then secp256k1_scalar_negate a else a)"
  define sign :: int where "sign = (if 2 ^ 255 \<le> sc_val a then - 1 else 1)"
  have neg: "sc_val (secp256k1_scalar_negate a) = sc_n - sc_val a" if "2 ^ 255 \<le> sc_val a"
    using negate_spec [OF a] that a sc_val_bounds [of a] zmod_zminus1_eq_if [of "sc_val a" sc_n] by (simp add: sc_ok_def)
  have v: "sign * sc_val s = sc_signed a" "sign \<in> {1, - 1}"
    using neg by (auto simp: sign_def s_def sc_signed_def)
  have "\<bar>sc_val s\<bar> = \<bar>sc_signed a\<bar>" unfolding v(1) [symmetric] using v(2) by auto
  then have V: "0 \<le> sc_val s" "sc_val s < 2 ^ (len - 1)" using short sc_val_bounds [of s] by simp_all
  obtain ds' lsb carry where r: "wnaf_loop s len w sign 0 0 (- 1) (replicate len 0) = (ds', lsb, carry)" by (metis prod_cases3)
  have e: "secp256k1_ecmult_wnaf ds len a w = (ds', lsb + 1)"
    using r len(3) unfolding secp256k1_ecmult_wnaf_def top_bit s_def sign_def by (simp split: if_splits)
  have inv: "wnaf_inv (sc_val s) len w sign len carry lsb ds'"
    using wnaf_loop_inv [OF wnaf_inv_init w len(2) v(2), of s] by (simp add: r)
  have "carry \<noteq> 1"
  proof
    assume "carry = 1"
    then have "sc_val s div 2 ^ (len - 1) mod 2 = 1" using inv by (simp add: wnaf_inv_def)
    then show False using V by simp
  qed
  then have c: "carry = 0" using inv by (auto simp: wnaf_inv_def)
  have "(2 :: int) ^ (len - 1) \<le> 2 ^ len" by (rule power_increasing) simp_all
  then have "sc_val s < 2 ^ len" using V(2) by linarith
  then have "wnaf_value 1 ds' = sc_signed a" using inv V(1) c v(1) by (simp add: wnaf_inv_def)
  then show ?thesis using that [OF e] inv by (force simp: wnaf_inv_def)
qed

section \<open>secp256k1_wnaf_fixed\<close>

definition WNAF_BITS :: nat where "WNAF_BITS = 128"

definition WNAF_SIZE_BITS :: "nat \<Rightarrow> nat \<Rightarrow> nat" where "WNAF_SIZE_BITS bits w = (bits + w - 1) div w"

definition WNAF_SIZE :: "nat \<Rightarrow> nat" where "WNAF_SIZE w = WNAF_SIZE_BITS WNAF_BITS w"

text \<open>The window at \<open>pos\<close>; the last one may be narrower.\<close>

definition wnaf_window :: "secp256k1_scalar \<Rightarrow> nat \<Rightarrow> nat \<Rightarrow> int" where
  "wnaf_window s w pos =
     (let last_w = WNAF_BITS - (WNAF_SIZE w - 1) * w
      in uint (secp256k1_scalar_get_bits_var s (pos * w) (if pos = WNAF_SIZE w - 1 then last_w else w)))"

text \<open>The position of the first nonzero window from above, with the windows above it cleared.\<close>

fun wnaf_max_pos :: "secp256k1_scalar \<Rightarrow> nat \<Rightarrow> nat \<Rightarrow> int list \<Rightarrow> nat \<times> int list" where
  "wnaf_max_pos s w 0 wnaf = (0, wnaf)"
| "wnaf_max_pos s w (Suc pos) wnaf =
     (if wnaf_window s w (Suc pos) \<noteq> 0 then (Suc pos, wnaf) else wnaf_max_pos s w pos (wnaf[Suc pos := 0]))"

definition wnaf_fixed_step :: "secp256k1_scalar \<Rightarrow> nat \<Rightarrow> nat \<Rightarrow> int list \<Rightarrow> int list" where
  "wnaf_fixed_step s w pos wnaf =
     (let val = wnaf_window s w pos;
          wnaf = (if val mod 2 = 0 then (let wnaf = wnaf[pos - 1 := wnaf ! (pos - 1) - 2 ^ w] in wnaf[pos := val + 1])
                  else wnaf[pos := val])
      in if 2 \<le> pos \<and> (wnaf ! (pos - 1) = 1 \<and> wnaf ! (pos - 2) < 0 \<or> wnaf ! (pos - 1) = - 1 \<and> 0 < wnaf ! (pos - 2)) then
           (let wnaf = (if wnaf ! (pos - 1) = 1 then wnaf[pos - 2 := wnaf ! (pos - 2) + 2 ^ w] else wnaf[pos - 2 := wnaf ! (pos - 2) - 2 ^ w])
            in wnaf[pos - 1 := 0])
         else wnaf)"

text \<open>\<open>wnaf\<close> is the array before the call; the result is the array and the skew.\<close>

definition secp256k1_wnaf_fixed :: "int list \<Rightarrow> secp256k1_scalar \<Rightarrow> nat \<Rightarrow> int list \<times> int" where
  "secp256k1_wnaf_fixed wnaf s w =
     (if secp256k1_scalar_is_zero s then (replicate (WNAF_SIZE w) 0 @ drop (WNAF_SIZE w) wnaf, 0)
      else
        let skew = (if secp256k1_scalar_is_even s then 1 else 0);
            wnaf = wnaf[0 := uint (secp256k1_scalar_get_bits_var s 0 w) + skew];
            (max_pos, wnaf) = wnaf_max_pos s w (WNAF_SIZE w - 1) wnaf
        in (fold (wnaf_fixed_step s w) [1..<max_pos + 1] wnaf, skew))"

text \<open>Every window holds the bits of the scalar at its place, when the scalar has 128 bits.\<close>

lemma wnaf_size:
  assumes "2 \<le> w" "w < 32"
  shows "0 < WNAF_SIZE w" "(WNAF_SIZE w - 1) * w < 128" "128 \<le> WNAF_SIZE w * w"
proof -
  define n where "n = WNAF_SIZE w"
  have n: "n = (127 + w) div w" by (simp add: n_def WNAF_SIZE_def WNAF_SIZE_BITS_def WNAF_BITS_def)
  have a: "n * w \<le> 127 + w" "127 + w < n * w + w" 
    using div_mult_mod_eq [of "127 + w" w] mod_less_divisor [of w "127 + w"] assms unfolding n [symmetric] by linarith+
  have "0 < n" using a assms by (cases n) simp_all
  moreover have "(n - 1) * w = n * w - w" by (simp add: diff_mult_distrib)
  ultimately show "0 < WNAF_SIZE w" "(WNAF_SIZE w - 1) * w < 128" "128 \<le> WNAF_SIZE w * w"
    unfolding n_def [symmetric] using a assms by (cases n; simp)+
qed

lemma wnaf_window_spec:
  assumes w: "2 \<le> w" "w < 32" and p: "p < WNAF_SIZE w" and V: "sc_val s < 2 ^ 128"
  shows "wnaf_window s w p = sc_val s div 2 ^ (w * p) mod 2 ^ w"
proof (cases "p = WNAF_SIZE w - 1")
  case False
  then have "p + 1 \<le> WNAF_SIZE w - 1" using p by simp
  then have "(p + 1) * w \<le> (WNAF_SIZE w - 1) * w" by (rule mult_le_mono1)
  then have "p * w + w \<le> 256" using wnaf_size(2) [OF w] by simp
  then show ?thesis using False w get_bits_spec [of w "p * w" s] by (simp add: wnaf_window_def mult.commute)
next
  case True
  define l where "l = 128 - p * w"
  have pw: "p * w < 128" using wnaf_size(2) [OF w] True by simp
  have "(p + 1) * w = WNAF_SIZE w * w" using True p by simp
  then have lw: "l \<le> w" using wnaf_size(3) [OF w] by (simp add: l_def)
  have e: "p * w + l = 128" using pw by (simp add: l_def)
  have "sc_val s div 2 ^ (p * w) * 2 ^ (p * w) \<le> sc_val s"
    using div_mult_mod_eq [of "sc_val s" "2 ^ (p * w)"] pos_mod_sign [of "2 ^ (p * w)" "sc_val s", OF zero_less_power] by linarith
  also have "\<dots> < 2 ^ l * 2 ^ (p * w)" using V unfolding e [symmetric] power_add by (simp add: mult.commute)
  finally have "sc_val s div 2 ^ (p * w) < 2 ^ l" by simp
  moreover have "(2 :: int) ^ l \<le> 2 ^ w" using lw by (simp add: power_increasing)
  ultimately have "sc_val s div 2 ^ (p * w) < 2 ^ w" by linarith
  moreover have "0 \<le> sc_val s div 2 ^ (p * w)" using sc_val_bounds(1) [of s] by (simp add: pos_imp_zdiv_nonneg_iff)
  ultimately have "sc_val s div 2 ^ (p * w) mod 2 ^ l = sc_val s div 2 ^ (p * w) mod 2 ^ w"
    using \<open>sc_val s div 2 ^ (p * w) < 2 ^ l\<close> by (simp only: mod_pos_pos_trivial)
  moreover have "wnaf_window s w p = uint (secp256k1_scalar_get_bits_var s (p * w) l)"
    using True by (simp add: wnaf_window_def WNAF_BITS_def l_def)
  ultimately show ?thesis using get_bits_spec [of l "p * w" s] lw w e by (simp add: mult.commute)
qed

lemma wnaf_value_snoc: "wnaf_value w (ds @ [d]) = wnaf_value w ds + d * 2 ^ (w * length ds)"
  by (simp add: wnaf_value_def nth_append)

definition fixed_digit :: "nat \<Rightarrow> int \<Rightarrow> bool" where
  "fixed_digit w d \<longleftrightarrow> d = 0 \<or> odd d \<and> \<bar>d\<bar> < 2 ^ w"

text \<open>At the head of the loop the first \<open>p\<close> digits have the value \<open>v\<close>, and the last of them is odd and positive.\<close>

definition fixed_inv :: "nat \<Rightarrow> int \<Rightarrow> nat \<Rightarrow> int list \<Rightarrow> bool" where
  "fixed_inv w v p ds \<longleftrightarrow> 0 < p \<and> p \<le> length ds \<and> wnaf_value w (take p ds) = v \<and>
     (\<forall>i < p. fixed_digit w (ds ! i)) \<and> odd (ds ! (p - 1)) \<and> 0 < ds ! (p - 1)"

definition fixed_push :: "nat \<Rightarrow> nat \<Rightarrow> int \<Rightarrow> int list \<Rightarrow> int list" where
  "fixed_push w p val ds = (if val mod 2 = 0 then ds[p - 1 := ds ! (p - 1) - 2 ^ w, p := val + 1] else ds[p := val])"

definition fixed_cancel :: "nat \<Rightarrow> nat \<Rightarrow> int list \<Rightarrow> int list" where
  "fixed_cancel w p ds =
     (if 2 \<le> p \<and> (ds ! (p - 1) = 1 \<and> ds ! (p - 2) < 0 \<or> ds ! (p - 1) = - 1 \<and> 0 < ds ! (p - 2))
      then ds[p - 2 := ds ! (p - 2) + ds ! (p - 1) * 2 ^ w, p - 1 := 0] else ds)"

lemma fixed_step_parts: "wnaf_fixed_step s w p ds = fixed_cancel w p (fixed_push w p (wnaf_window s w p) ds)"
proof -
  have "wnaf_fixed_step s w p ds =
      (let ds = fixed_push w p (wnaf_window s w p) ds
       in if 2 \<le> p \<and> (ds ! (p - 1) = 1 \<and> ds ! (p - 2) < 0 \<or> ds ! (p - 1) = - 1 \<and> 0 < ds ! (p - 2)) then
            (let wnaf = (if ds ! (p - 1) = 1 then ds[p - 2 := ds ! (p - 2) + 2 ^ w] else ds[p - 2 := ds ! (p - 2) - 2 ^ w])
             in wnaf[p - 1 := 0])
          else ds)"
    by (simp only: wnaf_fixed_step_def fixed_push_def Let_def)
  then show ?thesis by (auto simp: fixed_cancel_def Let_def)
qed

lemma fixed_push_inv:
  assumes inv: "fixed_inv w v p ds" and p: "p < length ds" and w: "0 < w" and val: "0 \<le> val" "val < 2 ^ w"
  shows "fixed_inv w (v + val * 2 ^ (w * p)) (p + 1) (fixed_push w p val ds)"
proof -
  have i: "0 < p" "wnaf_value w (take p ds) = v" "\<And>i. i < p \<Longrightarrow> fixed_digit w (ds ! i)" "odd (ds ! (p - 1))" "0 < ds ! (p - 1)"
    using inv by (simp_all add: fixed_inv_def)
  have ew: "even ((2 :: int) ^ w)" using w by simp
  have lt: "ds ! (p - 1) < 2 ^ w" using i(1) i(3) [of "p - 1"] i(5) by (simp add: fixed_digit_def)
  have pw: "(2 :: int) ^ (w * p) = 2 ^ w * 2 ^ (w * (p - 1))" using i(1) by (cases p) (simp_all add: power_add)
  show ?thesis
  proof (cases "even val")
    case True
    have "val + 1 < 2 ^ w" using val True ew by (metis add1_zle_eq even_add order_le_less odd_one)
    then have d: "fixed_digit w (val + 1)" using True val by (simp add: fixed_digit_def)
    have e: "fixed_digit w (ds ! (p - 1) - 2 ^ w)" using i(4,5) lt ew by (simp add: fixed_digit_def)
    have "take (p + 1) (ds[p - 1 := ds ! (p - 1) - 2 ^ w, p := val + 1]) = (take p ds)[p - 1 := ds ! (p - 1) - 2 ^ w] @ [val + 1]"
      using p i(1) by (simp add: take_Suc_conv_app_nth take_update_swap list_update_append)
    moreover have "wnaf_value w ((take p ds)[p - 1 := ds ! (p - 1) - 2 ^ w] @ [val + 1]) = v + val * 2 ^ (w * p)"
      using p i(1,2) by (simp add: wnaf_value_snoc wnaf_value_update pw) (simp add: algebra_simps)
    ultimately show ?thesis using True d e p i(1,3) val by (auto simp: fixed_inv_def fixed_push_def nth_list_update less_Suc_eq)
  next
    case False
    then have "fixed_digit w val" "0 < val" using val by (auto simp: fixed_digit_def le_less)
    moreover have "take (p + 1) (ds[p := val]) = take p ds @ [val]" using p by (simp add: take_Suc_conv_app_nth)
    ultimately show ?thesis using False p i by (auto simp: fixed_inv_def fixed_push_def nth_list_update less_Suc_eq wnaf_value_snoc odd_iff_mod_2_eq_one)
  qed
qed

lemma fixed_cancel_inv:
  assumes inv: "fixed_inv w v (p + 1) ds" and w: "0 < w"
  shows "fixed_inv w v (p + 1) (fixed_cancel w p ds)"
proof (cases "2 \<le> p \<and> (ds ! (p - 1) = 1 \<and> ds ! (p - 2) < 0 \<or> ds ! (p - 1) = - 1 \<and> 0 < ds ! (p - 2))")
  case False
  then show ?thesis using inv unfolding fixed_cancel_def by (simp only: if_False)
next
  case True
  then obtain q where q: "p = q + 2" by (metis le_add_diff_inverse2)
  have i: "p < length ds" "wnaf_value w (take (p + 1) ds) = v" "\<And>i. i < p + 1 \<Longrightarrow> fixed_digit w (ds ! i)" "odd (ds ! p)" "0 < ds ! p"
    using inv by (simp_all add: fixed_inv_def)
  have ew: "even ((2 :: int) ^ w)" using w by simp
  have c: "fixed_cancel w p ds = ds[q := ds ! q + ds ! (q + 1) * 2 ^ w, q + 1 := 0]"
    using True by (simp add: fixed_cancel_def q)
  have d: "fixed_digit w (ds ! q + ds ! (q + 1) * 2 ^ w)" using True i(3) [of q] ew by (auto simp: fixed_digit_def q)
  have "take (p + 1) (fixed_cancel w p ds) = (take (p + 1) ds)[q := ds ! q + ds ! (q + 1) * 2 ^ w, q + 1 := 0]"
    by (simp only: c take_update_swap)
  moreover have "wnaf_value w ((take (p + 1) ds)[q := ds ! q + ds ! (q + 1) * 2 ^ w, q + 1 := 0]) = v"
    using i(1,2) by (simp add: wnaf_value_update q power_add)
  ultimately show ?thesis using c d i by (auto simp: fixed_inv_def nth_list_update q fixed_digit_def [of w 0])
qed

lemma fixed_step_frame: "length (wnaf_fixed_step s w p ds) = length ds" "p < i \<Longrightarrow> wnaf_fixed_step s w p ds ! i = ds ! i"
  by (auto simp: fixed_step_parts fixed_cancel_def fixed_push_def)

lemma mod_power_step: "(v :: int) mod 2 ^ (w * Suc q) = v mod 2 ^ (w * q) + v div 2 ^ (w * q) mod 2 ^ w * 2 ^ (w * q)"
  using mod_power_split [of v "w * q" w] by (simp only: mult_Suc_right add.commute [of w] mult.commute [of "2 ^ (w * q)"])

lemma wnaf_value_take:
  assumes "k \<le> length ds" "\<And>i. k \<le> i \<Longrightarrow> i < length ds \<Longrightarrow> ds ! i = 0"
  shows "wnaf_value w ds = wnaf_value w (take k ds)"
proof -
  have "(\<Sum>i<length ds. ds ! i * 2 ^ (w * i)) = (\<Sum>i<k. ds ! i * 2 ^ (w * i))"
    using assms by (intro sum.mono_neutral_right) auto
  then show ?thesis using assms(1) by (simp add: wnaf_value_def min_absorb2)
qed

lemma fixed_loop_inv:
  assumes w: "2 \<le> w" "w < 32" and V: "sc_val s < 2 ^ 128" and m: "m < WNAF_SIZE w" "length ds = WNAF_SIZE w"
    and inv: "fixed_inv w (k + sc_val s mod 2 ^ w) 1 ds"
  shows "fixed_inv w (k + sc_val s mod 2 ^ (w * (m + 1))) (m + 1) (fold (wnaf_fixed_step s w) [1..<m + 1] ds) \<and>
    length (fold (wnaf_fixed_step s w) [1..<m + 1] ds) = length ds \<and>
    (\<forall>i. m < i \<longrightarrow> fold (wnaf_fixed_step s w) [1..<m + 1] ds ! i = ds ! i)"
  using m(1)
proof (induction m)
  case 0
  then show ?case using inv by simp
next
  case (Suc m)
  define es where "es = fold (wnaf_fixed_step s w) [1..<m + 1] ds"
  define val where "val = wnaf_window s w (m + 1)"
  have IH: "fixed_inv w (k + sc_val s mod 2 ^ (w * (m + 1))) (m + 1) es" "length es = length ds" "\<And>i. m < i \<Longrightarrow> es ! i = ds ! i"
    using Suc by (auto simp: es_def)
  have f: "fold (wnaf_fixed_step s w) [1..<Suc m + 1] ds = wnaf_fixed_step s w (m + 1) es" by (simp add: es_def)
  have v: "val = sc_val s div 2 ^ (w * (m + 1)) mod 2 ^ w" unfolding val_def using w V Suc.prems by (intro wnaf_window_spec) simp_all
  have "k + sc_val s mod 2 ^ (w * (Suc m + 1)) = k + sc_val s mod 2 ^ (w * (m + 1)) + val * 2 ^ (w * (m + 1))"
    using mod_power_step [of "sc_val s" w "m + 1"] unfolding v by simp
  moreover have "fixed_inv w (k + sc_val s mod 2 ^ (w * (m + 1)) + val * 2 ^ (w * (m + 1))) (m + 1 + 1) (wnaf_fixed_step s w (m + 1) es)"
    unfolding fixed_step_parts val_def [symmetric] using w v m(2) Suc.prems IH(2)
    by (intro fixed_cancel_inv fixed_push_inv IH(1)) simp_all
  ultimately show ?case using IH(2,3) unfolding f by (simp add: fixed_step_frame add.assoc)
qed

lemma max_pos_spec:
  assumes "wnaf_max_pos s w p ds = (m, ds')" "p < length ds"
  shows "m \<le> p" "length ds' = length ds" "\<And>i. m < i \<Longrightarrow> i \<le> p \<Longrightarrow> wnaf_window s w i = 0 \<and> ds' ! i = 0" "ds' ! 0 = ds ! 0"
    "\<And>i. p < i \<Longrightarrow> ds' ! i = ds ! i"
  using assms
proof (induction s w p ds rule: wnaf_max_pos.induct)
  case (2 s w p ds)
  { case 1 then show ?case using 2 by (auto split: if_splits) }
  { case 2 then show ?case using "2.IH"(2) by (auto split: if_splits) }
  { case 3 then show ?case using "2.IH"(3,5) by (cases "i = Suc p") (auto split: if_splits) }
  { case 4 then show ?case using "2.IH"(4) by (auto split: if_splits) }
  { case 5 then show ?case using "2.IH"(5) by (auto split: if_splits) }
qed auto

text \<open>The windows above a place are zero exactly when the scalar ends below it.\<close>

lemma windows_zero:
  assumes "2 \<le> w" "w < 32" "sc_val s < 2 ^ 128" "m < WNAF_SIZE w" "\<And>i. m < i \<Longrightarrow> i < WNAF_SIZE w \<Longrightarrow> wnaf_window s w i = 0"
  shows "sc_val s mod 2 ^ (w * (m + 1)) = sc_val s"
proof -
  have "sc_val s mod 2 ^ (w * (m + 1)) = sc_val s mod 2 ^ (w * (m + 1 + d))" if "m + d < WNAF_SIZE w" for d
    using that
  proof (induction d)
    case (Suc d)
    have z: "sc_val s div 2 ^ (w * (m + 1 + d)) mod 2 ^ w = 0"
      using wnaf_window_spec [OF assms(1,2) _ assms(3), of "m + 1 + d"] assms(5) [of "m + 1 + d"] Suc.prems by simp
    show ?case using Suc mod_power_step [of "sc_val s" w "m + 1 + d"] unfolding z by simp
  qed simp
  from this [of "WNAF_SIZE w - 1 - m"] have "sc_val s mod 2 ^ (w * (m + 1)) = sc_val s mod 2 ^ (w * WNAF_SIZE w)"
    using assms(4) by simp
  moreover have "(2 :: int) ^ 128 \<le> 2 ^ (w * WNAF_SIZE w)"
    using wnaf_size(3) [OF assms(1,2)] by (intro power_increasing) (simp_all add: mult.commute)
  then have "sc_val s mod 2 ^ (w * WNAF_SIZE w) = sc_val s"
    using assms(3) sc_val_bounds(1) [of s] by (intro mod_pos_pos_trivial) simp_all
  ultimately show ?thesis by simp
qed

lemma wnaf_fixed_spec:
  assumes w: "2 \<le> w" "w < 32" and V: "sc_val s < 2 ^ 128" and len: "length ds = WNAF_SIZE w"
  obtains ds' skew where "secp256k1_wnaf_fixed ds s w = (ds', skew)" "wnaf_value w ds' = sc_val s + skew"
    "length ds' = WNAF_SIZE w" "\<And>i. i < WNAF_SIZE w \<Longrightarrow> fixed_digit w (ds' ! i)" "skew \<in> {0, 1}"
proof (cases "secp256k1_scalar_is_zero s")
  case True
  then have "secp256k1_wnaf_fixed ds s w = (replicate (WNAF_SIZE w) 0, 0)" using len by (simp add: secp256k1_wnaf_fixed_def)
  then show ?thesis using that True by (simp add: wnaf_value_zeros is_zero_iff fixed_digit_def)
next
  case False
  define skew :: int where "skew = (if secp256k1_scalar_is_even s then 1 else 0)"
  define d0 where "d0 = uint (secp256k1_scalar_get_bits_var s 0 w) + skew"
  define n where "n = WNAF_SIZE w"
  have n: "0 < n" "length ds = n" using wnaf_size(1) [OF w] len by (simp_all add: n_def)
  obtain m es where mp: "wnaf_max_pos s w (n - 1) (ds[0 := d0]) = (m, es)" by (cases "wnaf_max_pos s w (n - 1) (ds[0 := d0])")
  have e: "secp256k1_wnaf_fixed ds s w = (fold (wnaf_fixed_step s w) [1..<m + 1] es, skew)"
    using False mp unfolding n_def by (simp add: secp256k1_wnaf_fixed_def skew_def [symmetric] d0_def [symmetric] Let_def)
  note mps = max_pos_spec [OF mp, simplified]
  have es: "m < n" "length es = n" "es ! 0 = d0" "\<And>i. m < i \<Longrightarrow> i < n \<Longrightarrow> wnaf_window s w i = 0 \<and> es ! i = 0"
    using mps n by auto
  have b: "uint (secp256k1_scalar_get_bits_var s 0 w) = sc_val s mod 2 ^ w" using get_bits_spec [of w 0 s] w by simp
  have ev: "even (sc_val s mod 2 ^ w) \<longleftrightarrow> even (sc_val s)" using w by (simp add: dvd_mod_iff)
  define x where "x = sc_val s mod 2 ^ w"
  have x: "0 \<le> x" "x < 2 ^ w" by (simp_all add: x_def)
  have d0: "d0 = (if even x then x + 1 else x)" using ev by (simp add: d0_def b skew_def is_even_iff x_def)
  have "even ((2 :: int) ^ w)" using w by simp
  then have "even x \<Longrightarrow> x + 1 \<noteq> 2 ^ w" by (metis even_plus_one_iff)
  moreover have "x \<noteq> 0" if "odd x" using that by auto
  ultimately have "odd d0" "0 < d0" "d0 < 2 ^ w" using x unfolding d0 by (cases "even x"; simp; linarith)+
  then have "fixed_inv w (skew + sc_val s mod 2 ^ w) 1 es"
    using es n by (auto simp: fixed_inv_def fixed_digit_def take_Suc_conv_app_nth wnaf_value_def d0_def b)
  from fixed_loop_inv [OF w V es(1,2) [unfolded n_def] this]
  have r: "fixed_inv w (skew + sc_val s mod 2 ^ (w * (m + 1))) (m + 1) (fold (wnaf_fixed_step s w) [1..<m + 1] es)"
    "length (fold (wnaf_fixed_step s w) [1..<m + 1] es) = n" "\<And>i. m < i \<Longrightarrow> fold (wnaf_fixed_step s w) [1..<m + 1] es ! i = es ! i"
    using es(2) by (auto simp: n_def)
  have V2: "sc_val s mod 2 ^ (w * (m + 1)) = sc_val s"
    using es by (intro windows_zero [OF w V]) (simp_all add: n_def [symmetric])
  have z: "fold (wnaf_fixed_step s w) [1..<m + 1] es ! i = 0" if "m + 1 \<le> i" "i < n" for i using r(3) [of i] es(4) [of i] that by simp
  have "wnaf_value w (fold (wnaf_fixed_step s w) [1..<m + 1] es) = sc_val s + skew"
    using wnaf_value_take [of "m + 1" "fold (wnaf_fixed_step s w) [1..<m + 1] es" w] z r(1,2) es(1) V2 by (simp add: fixed_inv_def)
  moreover have "fixed_digit w (fold (wnaf_fixed_step s w) [1..<m + 1] es ! i)" if "i < n" for i
    using r(1) z [of i] that by (cases "i < m + 1") (auto simp: fixed_inv_def fixed_digit_def [of w 0])
  moreover have "skew \<in> {0, 1}" by (simp add: skew_def)
  ultimately show ?thesis using that [OF e] r(2) unfolding n_def by blast
qed


end
