(* ===== verification/Ecmult.thy ===== *)
theory Ecmult
  imports Wnaf GroupAdd
begin

text \<open>
  The multiplication of many points by scalars in \<open>secp256k1/src/ecmult_impl.h\<close>: the split of a scalar and
  its point for the endomorphism, Pippenger's method with its buckets, the sizes and the scratch memory
  (\<open>scratch_impl.h\<close>) that decide how many points a batch takes, the batches of
  \<open>secp256k1_ecmult_multi_var\<close>, Strauss' method for few points with its tables of odd multiples, and the
  class of \<open>MultiExponent.cpp\<close> that calls them. The method of Pippenger is written over the operations it
  uses, so that the one definition runs on the points of the code and on any abelian group.
\<close>

section \<open>Sizes and windows\<close>

definition SIZE_MAX :: nat where "SIZE_MAX = 2 ^ 64 - 1"
definition ECMULT_TABLE_SIZE :: "nat \<Rightarrow> nat" where "ECMULT_TABLE_SIZE w = 2 ^ (w - 2)"
definition WINDOW_A :: nat where "WINDOW_A = 5"
definition WINDOW_G :: nat where "WINDOW_G = 15"
definition PIPPENGER_SCRATCH_OBJECTS :: nat where "PIPPENGER_SCRATCH_OBJECTS = 6"
definition STRAUSS_SCRATCH_OBJECTS :: nat where "STRAUSS_SCRATCH_OBJECTS = 6"
definition PIPPENGER_MAX_BUCKET_WINDOW :: nat where "PIPPENGER_MAX_BUCKET_WINDOW = 12"
definition ECMULT_PIPPENGER_THRESHOLD :: nat where "ECMULT_PIPPENGER_THRESHOLD = 88"
definition ECMULT_MAX_POINTS_PER_BATCH :: nat where "ECMULT_MAX_POINTS_PER_BATCH = 5000000"

text \<open>The sizes of the structures with 64-bit limbs and pointers.\<close>

definition sizeof_ge :: nat where "sizeof_ge = 88"
definition sizeof_gej :: nat where "sizeof_gej = 128"
definition sizeof_fe :: nat where "sizeof_fe = 40"
definition sizeof_scalar :: nat where "sizeof_scalar = 32"
definition sizeof_pippenger_point_state :: nat where "sizeof_pippenger_point_state = 16"
definition sizeof_pippenger_state :: nat where "sizeof_pippenger_state = 16"
definition sizeof_strauss_point_state :: nat where "sizeof_strauss_point_state = 1120"
definition sizeof_int :: nat where "sizeof_int = 4"

definition bucket_sizes :: "nat list" where
  "bucket_sizes = [1, 4, 20, 57, 136, 235, 1260, 1260, 4420, 7880, 16050]"

fun bucket_window_loop :: "nat \<Rightarrow> nat \<Rightarrow> nat list \<Rightarrow> nat" where
  "bucket_window_loop n i [] = PIPPENGER_MAX_BUCKET_WINDOW"
| "bucket_window_loop n i (sz # sizes) = (if n \<le> sz then i + 1 else bucket_window_loop n (i + 1) sizes)"

definition secp256k1_pippenger_bucket_window :: "nat \<Rightarrow> nat" where
  "secp256k1_pippenger_bucket_window n = bucket_window_loop n 0 bucket_sizes"

definition secp256k1_pippenger_bucket_window_inv :: "nat \<Rightarrow> nat" where
  "secp256k1_pippenger_bucket_window_inv bucket_window =
     (if bucket_window = PIPPENGER_MAX_BUCKET_WINDOW then SIZE_MAX
      else if 1 \<le> bucket_window \<and> bucket_window \<le> 11 then bucket_sizes ! (bucket_window - 1)
      else 0)"

definition secp256k1_pippenger_scratch_size :: "nat \<Rightarrow> nat \<Rightarrow> nat" where
  "secp256k1_pippenger_scratch_size n_points bucket_window =
     (let entries = 2 * n_points + 2;
          entry_size = sizeof_ge + sizeof_scalar + sizeof_pippenger_point_state + (WNAF_SIZE (bucket_window + 1) + 1) * sizeof_int
      in 2 ^ bucket_window * sizeof_gej + sizeof_pippenger_state + entries * entry_size)"

definition secp256k1_strauss_scratch_size :: "nat \<Rightarrow> nat" where
  "secp256k1_strauss_scratch_size n_points =
     (let point_size = (2 * sizeof_ge + sizeof_gej + sizeof_fe) * ECMULT_TABLE_SIZE WINDOW_A +
            sizeof_strauss_point_state + sizeof_gej + sizeof_scalar
      in n_points * point_size)"

section \<open>Scratch memory\<close>

text \<open>
  The frames of a scratch space as pairs of a size and an offset, the newest first; the memory itself is
  not modelled, and \<open>checked_malloc\<close> is taken to succeed. The sizes are far from the limit of \<open>size_t\<close>.
\<close>

record secp256k1_scratch =
  scratch_frames :: "(nat \<times> nat) list"
  scratch_max_size :: nat

definition ALIGNMENT :: nat where "ALIGNMENT = 16"

definition secp256k1_scratch_create :: "nat \<Rightarrow> secp256k1_scratch" where
  "secp256k1_scratch_create max_size = \<lparr>scratch_frames = [], scratch_max_size = max_size\<rparr>"

definition secp256k1_scratch_max_allocation :: "secp256k1_scratch \<Rightarrow> nat \<Rightarrow> nat" where
  "secp256k1_scratch_max_allocation scratch objects =
     (let allocated = sum_list (map fst (scratch_frames scratch))
      in if scratch_max_size scratch - allocated \<le> objects * ALIGNMENT then 0
         else scratch_max_size scratch - allocated - objects * ALIGNMENT)"

definition secp256k1_scratch_allocate_frame :: "secp256k1_scratch \<Rightarrow> nat \<Rightarrow> nat \<Rightarrow> bool \<times> secp256k1_scratch" where
  "secp256k1_scratch_allocate_frame scratch n objects =
     (if n \<le> secp256k1_scratch_max_allocation scratch objects then
        (let n = n + objects * ALIGNMENT in (True, scratch\<lparr>scratch_frames := (n, 0) # scratch_frames scratch\<rparr>))
      else (False, scratch))"

definition secp256k1_scratch_deallocate_frame :: "secp256k1_scratch \<Rightarrow> secp256k1_scratch" where
  "secp256k1_scratch_deallocate_frame scratch = scratch\<lparr>scratch_frames := tl (scratch_frames scratch)\<rparr>"

text \<open>The place of the new object in its frame; None for \<open>NULL\<close>.\<close>

definition secp256k1_scratch_alloc :: "secp256k1_scratch \<Rightarrow> nat \<Rightarrow> (nat \<times> secp256k1_scratch) option" where
  "secp256k1_scratch_alloc scratch sz =
     (let sz = (sz + ALIGNMENT - 1) div ALIGNMENT * ALIGNMENT
      in case scratch_frames scratch of
           [] \<Rightarrow> None
         | (frame_size, offset) # fs \<Rightarrow>
             if frame_size < sz + offset then None
             else Some (offset, scratch\<lparr>scratch_frames := (frame_size, offset + sz) # fs\<rparr>))"

text \<open>Several objects in a row, as both batch routines allocate them; None when one of them is \<open>NULL\<close>.\<close>

fun scratch_allocs :: "secp256k1_scratch \<Rightarrow> nat list \<Rightarrow> secp256k1_scratch option" where
  "scratch_allocs scratch [] = Some scratch"
| "scratch_allocs scratch (sz # sizes) =
     (case secp256k1_scratch_alloc scratch sz of None \<Rightarrow> None | Some (place, scratch) \<Rightarrow> scratch_allocs scratch sizes)"

section \<open>Pippenger's method\<close>

text \<open>The operations the method uses on Jacobian and affine points.\<close>

record ('j, 'g) point_ops =
  op_infinity :: 'j
  op_add :: "'j \<Rightarrow> 'j \<Rightarrow> 'j"
  op_add_ge :: "'j \<Rightarrow> 'g \<Rightarrow> 'j"
  op_double :: "'j \<Rightarrow> 'j"
  op_neg :: "'g \<Rightarrow> 'g"
  op_is_infinity :: "'g \<Rightarrow> bool"

record pippenger_point =
  skew_na :: int
  input_pos :: nat
  wnaf_na :: "int list"

definition pippenger_points :: "('j, 'g) point_ops \<Rightarrow> nat \<Rightarrow> secp256k1_scalar list \<Rightarrow> 'g list \<Rightarrow> pippenger_point list" where
  "pippenger_points ops bucket_window sc pt =
     map (\<lambda>np. case secp256k1_wnaf_fixed (replicate (WNAF_SIZE (bucket_window + 1)) 0) (sc ! np) (bucket_window + 1) of
             (wnaf, skew) \<Rightarrow> \<lparr>skew_na = skew, input_pos = np, wnaf_na = wnaf\<rparr>)
       (filter (\<lambda>np. \<not> (secp256k1_scalar_is_zero (sc ! np) \<or> op_is_infinity ops (pt ! np))) [0..<length sc])"

definition bucket_add :: "('j, 'g) point_ops \<Rightarrow> 'g list \<Rightarrow> nat \<Rightarrow> pippenger_point \<Rightarrow> 'j list \<Rightarrow> 'j list" where
  "bucket_add ops pt i ps buckets =
     (let n = wnaf_na ps ! i;
          p = pt ! input_pos ps;
          buckets = (if i = 0 \<and> skew_na ps \<noteq> 0 then buckets[0 := op_add_ge ops (buckets ! 0) (op_neg ops p)] else buckets)
      in if 0 < n then
           (let idx = nat ((n - 1) div 2) in buckets[idx := op_add_ge ops (buckets ! idx) p])
         else if n < 0 then
           (let idx = nat (- (n + 1) div 2) in buckets[idx := op_add_ge ops (buckets ! idx) (op_neg ops p)])
         else buckets)"

text \<open>\<open>bucket[0] + 3*bucket[1] + 5*bucket[2] + ...\<close> with a running sum; \<open>j\<close> counts down to 1.\<close>

fun running_sums :: "('j, 'g) point_ops \<Rightarrow> 'j list \<Rightarrow> nat \<Rightarrow> 'j \<Rightarrow> 'j \<Rightarrow> 'j \<times> 'j" where
  "running_sums ops buckets 0 running_sum r = (running_sum, r)"
| "running_sums ops buckets (Suc j) running_sum r =
     (let running_sum = op_add ops running_sum (buckets ! Suc j)
      in running_sums ops buckets j running_sum (op_add ops r running_sum))"

definition pippenger_round ::
    "('j, 'g) point_ops \<Rightarrow> nat \<Rightarrow> pippenger_point list \<Rightarrow> 'g list \<Rightarrow> nat \<Rightarrow> 'j \<Rightarrow> 'j" where
  "pippenger_round ops bucket_window ps pt i r =
     (let buckets = fold (bucket_add ops pt i) ps (replicate (ECMULT_TABLE_SIZE (bucket_window + 2)) (op_infinity ops));
          r = (op_double ops ^^ bucket_window) r;
          (running_sum, r) = running_sums ops buckets (ECMULT_TABLE_SIZE (bucket_window + 2) - 1) (op_infinity ops) r;
          running_sum = op_add ops running_sum (buckets ! 0);
          r = op_double ops r
      in op_add ops r running_sum)"

definition pippenger_wnaf :: "('j, 'g) point_ops \<Rightarrow> nat \<Rightarrow> secp256k1_scalar list \<Rightarrow> 'g list \<Rightarrow> 'j" where
  "pippenger_wnaf ops bucket_window sc pt =
     (let n_wnaf = WNAF_SIZE (bucket_window + 1);
          ps = pippenger_points ops bucket_window sc pt
      in if ps = [] then op_infinity ops
         else fold (pippenger_round ops bucket_window ps pt) (rev [0..<n_wnaf]) (op_infinity ops))"

text \<open>The method on the points of the code.\<close>

definition gej_ops :: "(secp256k1_gej, secp256k1_ge) point_ops" where
  "gej_ops = \<lparr>op_infinity = secp256k1_gej_set_infinity, op_add = (\<lambda>r a. fst (secp256k1_gej_add_var r r a None)),
     op_add_ge = (\<lambda>r a. fst (secp256k1_gej_add_ge_var r r a None)), op_double = (\<lambda>r. fst (secp256k1_gej_double_var r r None)),
     op_neg = secp256k1_ge_neg, op_is_infinity = secp256k1_ge_is_infinity\<rparr>"

definition secp256k1_ecmult_pippenger_wnaf :: "nat \<Rightarrow> secp256k1_scalar list \<Rightarrow> secp256k1_ge list \<Rightarrow> secp256k1_gej" where
  "secp256k1_ecmult_pippenger_wnaf bucket_window sc pt = pippenger_wnaf gej_ops bucket_window sc pt"

text \<open>
  A scalar and a point become two short scalars and two points. The split is written over the negation of
  points and the endomorphism.
\<close>

definition endo_split ::
    "('g \<Rightarrow> 'g) \<Rightarrow> ('g \<Rightarrow> 'g) \<Rightarrow> secp256k1_scalar \<Rightarrow> 'g \<Rightarrow> secp256k1_scalar \<times> secp256k1_scalar \<times> 'g \<times> 'g" where
  "endo_split neg mul_lambda s1 p1 =
     (let tmp = s1;
          (s1, s2) = secp256k1_scalar_split_lambda tmp;
          p2 = mul_lambda p1;
          (s1, p1) = (if secp256k1_scalar_is_high s1 then (secp256k1_scalar_negate s1, neg p1) else (s1, p1));
          (s2, p2) = (if secp256k1_scalar_is_high s2 then (secp256k1_scalar_negate s2, neg p2) else (s2, p2))
      in (s1, s2, p1, p2))"

definition secp256k1_ecmult_endo_split ::
    "secp256k1_scalar \<Rightarrow> secp256k1_ge \<Rightarrow> secp256k1_scalar \<times> secp256k1_scalar \<times> secp256k1_ge \<times> secp256k1_ge" where
  "secp256k1_ecmult_endo_split s1 p1 = endo_split secp256k1_ge_neg secp256k1_ge_mul_lambda s1 p1"

text \<open>The scalars and points a batch is run on: both halves of every entry.\<close>

fun split_entries :: "('g \<Rightarrow> 'g) \<Rightarrow> ('g \<Rightarrow> 'g) \<Rightarrow> (secp256k1_scalar \<times> 'g) list \<Rightarrow> secp256k1_scalar list \<times> 'g list" where
  "split_entries neg mul_lambda [] = ([], [])"
| "split_entries neg mul_lambda ((s, p) # es) =
     (let (s1, s2, p1, p2) = endo_split neg mul_lambda s p; (ss, ps) = split_entries neg mul_lambda es
      in (s1 # s2 # ss, p1 # p2 # ps))"

section \<open>The sum the method computes\<close>

text \<open>Multiples in an abelian group, and its operations in the shape the method wants.\<close>

primrec nmul :: "nat \<Rightarrow> 'a :: ab_group_add \<Rightarrow> 'a" where
  "nmul 0 a = 0"
| "nmul (Suc n) a = a + nmul n a"

definition zmul :: "int \<Rightarrow> 'a :: ab_group_add \<Rightarrow> 'a" where
  "zmul n a = nmul (nat n) a - nmul (nat (- n)) a"

definition group_ops :: "('a :: ab_group_add, 'a) point_ops" where
  "group_ops = \<lparr>op_infinity = 0, op_add = (+), op_add_ge = (+), op_double = (\<lambda>a. a + a), op_neg = uminus, op_is_infinity = (\<lambda>a. a = 0)\<rparr>"

lemma group_sel [simp]: "op_infinity group_ops = 0" "op_add group_ops = (+)" "op_add_ge group_ops = (+)"
    "op_double group_ops = (\<lambda>a. a + a)" "op_neg group_ops = uminus" "op_is_infinity group_ops = (\<lambda>a. a = 0)"
  by (simp_all add: group_ops_def)

lemma nmul_add: "nmul (m + n) a = nmul m a + nmul n a"
  by (induction m) (simp_all add: add.assoc)

lemma nmul_neg: "nmul n (- a) = - nmul n a"
  by (induction n) simp_all

lemma zmul_diff: "zmul (int i - int j) a = nmul i a - nmul j a"
proof (cases "j \<le> i")
  case True
  then obtain k where "i = k + j" by (metis le_add_diff_inverse2)
  then show ?thesis by (simp add: zmul_def nmul_add)
next
  case False
  then obtain k where "j = k + i" by (metis le_add_diff_inverse2 linear)
  then show ?thesis by (simp add: zmul_def nmul_add)
qed

lemma zmul_add: "zmul (m + n) a = zmul m a + zmul n a"
proof -
  have "m + n = int (nat m + nat n) - int (nat (- m) + nat (- n))" by simp
  then have "zmul (m + n) a = nmul (nat m + nat n) a - nmul (nat (- m) + nat (- n)) a" by (metis zmul_diff)
  then show ?thesis by (simp add: zmul_def nmul_add)
qed

lemma nmul_zero: "nmul k 0 = 0"
  by (induction k) simp_all

lemma zmul_simps [simp]: "zmul 0 a = 0" "zmul 1 a = a" "zmul (- 1) a = - a" "zmul n 0 = 0"
  by (simp_all add: zmul_def nmul_zero)

lemma zmul_minus: "zmul (- n) a = - zmul n a" "zmul n (- a) = - zmul n a"
  by (simp_all add: zmul_def nmul_neg)

lemma zmul_plus: "zmul n (a + b) = zmul n a + zmul n b"
proof -
  have "nmul k (a + b) = nmul k a + nmul k b" for k by (induction k) (simp_all add: algebra_simps)
  then show ?thesis by (simp add: zmul_def)
qed

lemma zmul_Suc: "zmul (1 + int k) a = a + zmul (int k) a"
  using zmul_add [of 1 "int k" a] by simp

text \<open>Doubling and the running sums.\<close>

lemma zmul_double: "zmul n a + zmul n a = zmul (2 * n) a"
  using zmul_add [of n n a] by (simp only: mult_2)

lemma doubles: "((\<lambda>a. a + a) ^^ k) (zmul n a) = zmul (2 ^ k * n) a"
proof (induction k)
  case (Suc k)
  then show ?case by (simp add: zmul_double mult.assoc)
qed simp

lemma doubles_sum: "((\<lambda>a :: 'a :: ab_group_add. a + a) ^^ k) (\<Sum>x\<leftarrow>xs. f x) = (\<Sum>x\<leftarrow>xs. ((\<lambda>a. a + a) ^^ k) (f x))"
  by (induction k) (simp_all add: sum_list_addf)

lemma running_sums_step: "running_sums group_ops b (Suc j) s r = running_sums group_ops b j (s + b ! Suc j) (r + (s + b ! Suc j))"
  by (simp add: Let_def)

lemma running_sums_spec:
  "running_sums group_ops b j s r = (s + (\<Sum>k = 1..j. b ! k), r + zmul (int j) s + (\<Sum>k = 1..j. zmul (int k) (b ! k)))"
proof (induction j arbitrary: s r)
  case (Suc j)
  have n: "zmul (int (Suc j)) c = c + zmul (int j) c" for c :: 'a using zmul_Suc [of j c] by simp
  show ?case unfolding running_sums_step Suc
    by (simp only: sum.cl_ivl_Suc prod.inject n zmul_plus) (simp add: add_ac)
qed simp

definition bucket_total :: "'a :: ab_group_add list \<Rightarrow> 'a" where
  "bucket_total b = (\<Sum>k<length b. zmul (2 * int k + 1) (b ! k))"

lemma bucket_total_update:
  assumes "k < length b"
  shows "bucket_total (b[k := b ! k + x]) = bucket_total b + zmul (2 * int k + 1) x"
proof -
  have "bucket_total (b[k := b ! k + x]) = (\<Sum>j<length b. zmul (2 * int j + 1) (b ! j) + (if j = k then zmul (2 * int k + 1) x else 0))"
    by (auto simp: bucket_total_def nth_list_update zmul_plus intro!: sum.cong)
  then show ?thesis using assms by (simp add: sum.distrib bucket_total_def)
qed

lemma bucket_add_spec:
  assumes "0 < length b" "fixed_digit w n" "n = wnaf_na st ! i" "2 ^ w = 2 * int (length b)" "skew_na st \<in> {0, 1}"
  shows "bucket_total (bucket_add group_ops pt i st b) =
      bucket_total b + zmul (n - (if i = 0 then skew_na st else 0)) (pt ! input_pos st)" (is "_ = _ + zmul (n - ?k) ?P")
    and "length (bucket_add group_ops pt i st b) = length b"
proof -
  define b0 where "b0 = (if i = 0 \<and> skew_na st \<noteq> 0 then b[0 := b ! 0 + - ?P] else b)"
  have l: "length b0 = length b" by (simp add: b0_def)
  have b0: "bucket_total b0 = bucket_total b + zmul (- ?k) ?P"
    using assms(1,5) bucket_total_update [of 0 b "- ?P"] by (auto simp: b0_def zmul_minus)
  have g: "bucket_add group_ops pt i st b =
      (if 0 < n then b0[nat ((n - 1) div 2) := b0 ! nat ((n - 1) div 2) + ?P]
       else if n < 0 then b0[nat (- (n + 1) div 2) := b0 ! nat (- (n + 1) div 2) + - ?P] else b0)"
    unfolding bucket_add_def assms(3) [symmetric] by (simp add: b0_def Let_def)
  show "length (bucket_add group_ops pt i st b) = length b" unfolding g using l by simp
  have "bucket_total (bucket_add group_ops pt i st b) = bucket_total b0 + zmul n ?P"
  proof (cases "n = 0")
    case False
    then have o: "odd n" "\<bar>n\<bar> < 2 * int (length b)" using assms(2,4) by (auto simp: fixed_digit_def)
    show ?thesis
    proof (cases "0 < n")
      case True
      define k where "k = nat ((n - 1) div 2)"
      have k: "n = 2 * int k + 1" "k < length b0" using o True l by (auto simp: k_def elim!: oddE)
      show ?thesis unfolding g k_def [symmetric] using True bucket_total_update [OF k(2), of ?P] k(1) by simp
    next
      case neg: False
      define k where "k = nat (- (n + 1) div 2)"
      have "- (n + 1) div 2 = - ((n + 1) div 2)" "2 * ((n + 1) div 2) = n + 1" using o(1) by (auto elim!: oddE)
      then have k: "n = - (2 * int k + 1)" "k < length b0" using o neg False l by (auto simp: k_def)
      show ?thesis unfolding g k_def [symmetric] using neg False bucket_total_update [OF k(2), of "- ?P"] k(1)
        by (simp only: zmul_minus if_False) simp
    qed
  qed (simp add: g)
  then show "bucket_total (bucket_add group_ops pt i st b) = bucket_total b + zmul (n - ?k) ?P"
    using zmul_add [of "- ?k" n ?P] by (simp add: b0 add.assoc)
qed

lemma buckets_spec:
  assumes "\<And>st. st \<in> set ps \<Longrightarrow> fixed_digit w (wnaf_na st ! i) \<and> skew_na st \<in> {0, 1}" "0 < length b" "2 ^ w = 2 * int (length b)"
  shows "bucket_total (fold (bucket_add group_ops pt i) ps b) =
      bucket_total b + (\<Sum>st\<leftarrow>ps. zmul (wnaf_na st ! i - (if i = 0 then skew_na st else 0)) (pt ! input_pos st)) \<and>
    length (fold (bucket_add group_ops pt i) ps b) = length b"
  using assms
proof (induction ps arbitrary: b)
  case (Cons st ps)
  note s = bucket_add_spec [of b w "wnaf_na st ! i" st i pt]
  have "fixed_digit w (wnaf_na st ! i)" "skew_na st \<in> {0, 1}" using Cons.prems(1) [of st] by simp_all
  note s = s [OF Cons.prems(2) this(1) refl Cons.prems(3) this(2)]
  have "bucket_total (fold (bucket_add group_ops pt i) ps (bucket_add group_ops pt i st b)) =
      bucket_total (bucket_add group_ops pt i st b) + (\<Sum>st\<leftarrow>ps. zmul (wnaf_na st ! i - (if i = 0 then skew_na st else 0)) (pt ! input_pos st)) \<and>
    length (fold (bucket_add group_ops pt i) ps (bucket_add group_ops pt i st b)) = length (bucket_add group_ops pt i st b)"
    using Cons.prems s(2) by (intro Cons.IH) auto
  then show ?case unfolding s by (simp add: add.assoc)
qed simp

lemma split_first: "0 < (N :: nat) \<Longrightarrow> (\<Sum>k<N. f k) = f 0 + (\<Sum>k = 1..N - 1. f k)" for f :: "nat \<Rightarrow> 'a :: comm_monoid_add"
proof -
  assume "0 < N"
  then have "{..<N} = insert 0 {1..N - 1}" by auto
  then show ?thesis by simp
qed

lemma pippenger_round_spec:
  assumes ps: "\<And>st. st \<in> set ps \<Longrightarrow> fixed_digit (bw + 1) (wnaf_na st ! i) \<and> skew_na st \<in> {0, 1}"
  shows "pippenger_round group_ops bw ps pt i r =
    ((\<lambda>a. a + a) ^^ (bw + 1)) r + (\<Sum>st\<leftarrow>ps. zmul (wnaf_na st ! i - (if i = 0 then skew_na st else 0)) (pt ! input_pos st))"
proof -
  define N :: nat where "N = 2 ^ bw"
  define b where "b = fold (bucket_add group_ops pt i) ps (replicate N 0)"
  define q where "q = ((\<lambda>a. a + a) ^^ bw) r"
  have N: "0 < N" by (simp add: N_def)
  have z: "bucket_total (replicate N (0 :: 'a)) = 0" by (simp add: bucket_total_def)
  have w: "2 ^ (bw + 1) = 2 * int (length (replicate N (0 :: 'a)))" by (simp add: N_def)
  have l: "0 < length (replicate N (0 :: 'a))" using N by simp
  note bt = buckets_spec [where pt = pt and ps = ps, OF ps l w, folded b_def, unfolded z]
  have len: "length b = N" using bt by simp
  define S where "S = (\<Sum>k = 1..N - 1. b ! k)"
  define T where "T = (\<Sum>k = 1..N - 1. zmul (int k) (b ! k))"
  have tot: "b ! 0 + (T + T) + S = bucket_total b"
  proof -
    have "bucket_total b = b ! 0 + (\<Sum>k = 1..N - 1. zmul (2 * int k + 1) (b ! k))"
      unfolding bucket_total_def len using split_first [OF N, of "\<lambda>k. zmul (2 * int k + 1) (b ! k)"] by simp
    also have "(\<Sum>k = 1..N - 1. zmul (2 * int k + 1) (b ! k)) = (\<Sum>k = 1..N - 1. zmul (int k) (b ! k) + zmul (int k) (b ! k) + b ! k)"
      by (simp add: zmul_add zmul_double)
    finally show ?thesis by (simp only: sum.distrib S_def T_def add.assoc)
  qed
  have "pippenger_round group_ops bw ps pt i r = (q + T) + (q + T) + (S + b ! 0)"
  proof -
    have t: "ECMULT_TABLE_SIZE (bw + 2) = N" by (simp add: ECMULT_TABLE_SIZE_def N_def)
    have B: "fold (bucket_add group_ops pt i) ps (replicate (ECMULT_TABLE_SIZE (bw + 2)) (op_infinity group_ops)) = b"
      by (simp only: b_def t group_sel)
    have D: "(op_double group_ops ^^ bw) r = q" by (simp add: q_def)
    have R: "running_sums group_ops b (N - 1) 0 q = (S, q + T)"
      unfolding running_sums_spec S_def [symmetric] T_def [symmetric] by simp
    show ?thesis unfolding pippenger_round_def Let_def unfolding B D unfolding t group_sel R by simp
  qed
  also have "\<dots> = (q + q) + (b ! 0 + (T + T) + S)" by (simp add: add_ac)
  also have "\<dots> = ((\<lambda>a. a + a) ^^ (bw + 1)) r + bucket_total b" by (simp add: tot q_def)
  finally show ?thesis using bt by simp
qed

text \<open>Horner's rule over the windows, from the top one down to the window \<open>i\<close>.\<close>

definition horner :: "nat \<Rightarrow> pippenger_point \<Rightarrow> nat \<Rightarrow> int" where
  "horner w st k = (\<Sum>i<k. (wnaf_na st ! (length (wnaf_na st) - k + i)) * 2 ^ (w * i))"

lemma horner_step:
  assumes "k < length (wnaf_na st)"
  shows "horner w st (Suc k) = wnaf_na st ! (length (wnaf_na st) - Suc k) + 2 ^ w * horner w st k"
proof -
  have "length (wnaf_na st) - Suc k + Suc i = length (wnaf_na st) - k + i" for i using assms by simp
  moreover have "(2 :: int) ^ (w * Suc i) = 2 ^ w * 2 ^ (w * i)" for i by (simp add: power_add)
  ultimately have "(\<Sum>i<k. wnaf_na st ! (length (wnaf_na st) - Suc k + Suc i) * 2 ^ (w * Suc i)) = 2 ^ w * horner w st k"
    unfolding horner_def sum_distrib_left by (intro sum.cong) (simp_all only: mult_ac)
  then show ?thesis unfolding horner_def [of w st "Suc k"] sum.lessThan_Suc_shift by simp
qed

lemma horner_all: "horner w st (length (wnaf_na st)) = wnaf_value w (wnaf_na st)"
  by (simp add: horner_def wnaf_value_def)

lemma rounds_spec:
  fixes pt :: "'a :: ab_group_add list"
  assumes ps: "\<And>st. st \<in> set ps \<Longrightarrow> length (wnaf_na st) = n \<and> (\<forall>i < n. fixed_digit (bw + 1) (wnaf_na st ! i)) \<and> skew_na st \<in> {0, 1}"
    and k: "k \<le> n"
  shows "fold (pippenger_round group_ops bw ps pt) (rev [n - k..<n]) 0 =
    (\<Sum>st\<leftarrow>ps. zmul (horner (bw + 1) st k - (if k = n \<and> 0 < n then skew_na st else 0)) (pt ! input_pos st))"
  using k
proof (induction k)
  case 0
  have "horner (bw + 1) st 0 = 0" for st by (simp add: horner_def)
  then show ?case by (cases "n = 0") (simp_all add: sum_list_triv)
next
  case (Suc k)
  define i where "i = n - Suc k"
  have i: "n - k = Suc i" "i < n" "i = 0 \<longleftrightarrow> Suc k = n" using Suc.prems by (auto simp: i_def)
  have "[i..<n] = i # [n - k..<n]" using i by (simp add: upt_conv_Cons)
  then have f: "fold (pippenger_round group_ops bw ps pt) (rev [i..<n]) 0 =
      pippenger_round group_ops bw ps pt i (fold (pippenger_round group_ops bw ps pt) (rev [n - k..<n]) 0)" by simp
  have IH: "fold (pippenger_round group_ops bw ps pt) (rev [n - k..<n]) 0 = (\<Sum>st\<leftarrow>ps. zmul (horner (bw + 1) st k) (pt ! input_pos st))"
    using Suc by simp
  have d: "\<And>st. st \<in> set ps \<Longrightarrow> fixed_digit (bw + 1) (wnaf_na st ! i) \<and> skew_na st \<in> {0, 1}" using ps i(2) by blast
  have s: "((\<lambda>a. a + a) ^^ (bw + 1)) (zmul (horner (bw + 1) st k) (pt ! input_pos st)) +
      zmul (wnaf_na st ! i - (if i = 0 then skew_na st else 0)) (pt ! input_pos st) =
      zmul (horner (bw + 1) st (Suc k) - (if Suc k = n \<and> 0 < n then skew_na st else 0)) (pt ! input_pos st)" if "st \<in> set ps" for st
  proof -
    have "horner (bw + 1) st (Suc k) = wnaf_na st ! i + 2 ^ (bw + 1) * horner (bw + 1) st k"
      using horner_step [of k st "bw + 1"] ps [OF that] Suc.prems by (simp add: i_def)
    then have "2 ^ (bw + 1) * horner (bw + 1) st k + (wnaf_na st ! i - (if i = 0 then skew_na st else 0)) =
        horner (bw + 1) st (Suc k) - (if Suc k = n \<and> 0 < n then skew_na st else 0)" using i by simp
    then show ?thesis unfolding doubles zmul_add [symmetric] by (simp only:)
  qed
  have r: "pippenger_round group_ops bw ps pt i r = ((\<lambda>a. a + a) ^^ (bw + 1)) r +
      (\<Sum>st\<leftarrow>ps. zmul (wnaf_na st ! i - (if i = 0 then skew_na st else 0)) (pt ! input_pos st))" for r
    by (rule pippenger_round_spec) (rule d)
  show ?case unfolding i_def [symmetric] f r IH doubles_sum sum_list_addf [symmetric]
    by (rule arg_cong [of _ _ sum_list], rule map_cong [OF refl]) (rule s)
qed

lemma pippenger_points_spec:
  assumes "1 \<le> bw" "bw < 31" "length pt = length sc" "\<And>s. s \<in> set sc \<Longrightarrow> sc_val s < 2 ^ 128" "st \<in> set (pippenger_points ops bw sc pt)"
  shows "length (wnaf_na st) = WNAF_SIZE (bw + 1)" "\<And>i. i < WNAF_SIZE (bw + 1) \<Longrightarrow> fixed_digit (bw + 1) (wnaf_na st ! i)"
    "skew_na st \<in> {0, 1}" "wnaf_value (bw + 1) (wnaf_na st) - skew_na st = sc_val (sc ! input_pos st)" "input_pos st < length sc"
proof -
  obtain np where np: "np < length sc" "st = (case secp256k1_wnaf_fixed (replicate (WNAF_SIZE (bw + 1)) 0) (sc ! np) (bw + 1) of
      (wnaf, skew) \<Rightarrow> \<lparr>skew_na = skew, input_pos = np, wnaf_na = wnaf\<rparr>)"
    using assms(5) by (auto simp: pippenger_points_def)
  have "2 \<le> bw + 1" "bw + 1 < 32" using assms(1,2) by simp_all
  from wnaf_fixed_spec [OF this, of "sc ! np" "replicate (WNAF_SIZE (bw + 1)) 0"] obtain ds skew where
    d: "secp256k1_wnaf_fixed (replicate (WNAF_SIZE (bw + 1)) 0) (sc ! np) (bw + 1) = (ds, skew)"
      "wnaf_value (bw + 1) ds = sc_val (sc ! np) + skew" "length ds = WNAF_SIZE (bw + 1)"
      "\<And>i. i < WNAF_SIZE (bw + 1) \<Longrightarrow> fixed_digit (bw + 1) (ds ! i)" "skew \<in> {0, 1}"
    using assms(4) [of "sc ! np"] np(1) by auto
  have "st = \<lparr>skew_na = skew, input_pos = np, wnaf_na = ds\<rparr>" using np(2) d(1) by simp
  then show "length (wnaf_na st) = WNAF_SIZE (bw + 1)" "\<And>i. i < WNAF_SIZE (bw + 1) \<Longrightarrow> fixed_digit (bw + 1) (wnaf_na st ! i)"
    "skew_na st \<in> {0, 1}" "wnaf_value (bw + 1) (wnaf_na st) - skew_na st = sc_val (sc ! input_pos st)" "input_pos st < length sc"
    using d(2-5) np(1) by simp_all
qed

lemma pippenger_positions:
  "map input_pos (pippenger_points ops bw sc pt) =
    filter (\<lambda>np. \<not> (secp256k1_scalar_is_zero (sc ! np) \<or> op_is_infinity ops (pt ! np))) [0..<length sc]"
  by (simp add: pippenger_points_def o_def split: prod.splits) (simp add: case_prod_unfold)

lemma sum_list_filter_zero: "(\<And>x. x \<in> set xs \<Longrightarrow> \<not> P x \<Longrightarrow> f x = 0) \<Longrightarrow> (\<Sum>x\<leftarrow>filter P xs. f x) = (\<Sum>x\<leftarrow>xs. f x)"
  for f :: "'b \<Rightarrow> 'a :: comm_monoid_add"
  by (induction xs) auto

lemma pippenger_group:
  fixes pt :: "'a :: ab_group_add list"
  assumes bw: "1 \<le> bw" "bw < 31" and l: "length pt = length sc" and short: "\<And>s. s \<in> set sc \<Longrightarrow> sc_val s < 2 ^ 128"
  shows "pippenger_wnaf group_ops bw sc pt = (\<Sum>np\<leftarrow>[0..<length sc]. zmul (sc_val (sc ! np)) (pt ! np))"
proof -
  define ps where "ps = pippenger_points group_ops bw sc pt"
  define n where "n = WNAF_SIZE (bw + 1)"
  note spec = pippenger_points_spec [OF bw l short, where ops = "group_ops :: ('a, 'a) point_ops", folded ps_def]
  have n: "0 < n" using wnaf_size(1) [of "bw + 1"] bw by (simp add: n_def)
  have "(\<Sum>np\<leftarrow>[0..<length sc]. zmul (sc_val (sc ! np)) (pt ! np)) = (\<Sum>np\<leftarrow>map input_pos ps. zmul (sc_val (sc ! np)) (pt ! np))"
    unfolding ps_def pippenger_positions by (rule sum_list_filter_zero [symmetric]) (auto simp: is_zero_iff)
  also have "\<dots> = (\<Sum>st\<leftarrow>ps. zmul (sc_val (sc ! input_pos st)) (pt ! input_pos st))" by (simp add: o_def)
  also have "\<dots> = (\<Sum>st\<leftarrow>ps. zmul (horner (bw + 1) st n - (if n = n \<and> 0 < n then skew_na st else 0)) (pt ! input_pos st))"
  proof (rule arg_cong [of _ _ sum_list], rule map_cong [OF refl])
    fix st assume st: "st \<in> set ps"
    have "horner (bw + 1) st n = wnaf_value (bw + 1) (wnaf_na st)" using horner_all [of "bw + 1" st] spec(1) [OF _ st] by (simp add: n_def)
    then show "zmul (sc_val (sc ! input_pos st)) (pt ! input_pos st) =
        zmul (horner (bw + 1) st n - (if n = n \<and> 0 < n then skew_na st else 0)) (pt ! input_pos st)"
      using spec(4) [OF _ st] n by simp
  qed
  also have "\<dots> = fold (pippenger_round group_ops bw ps pt) (rev [n - n..<n]) 0"
    using spec unfolding n_def by (intro rounds_spec [symmetric]) auto
  also have "\<dots> = pippenger_wnaf group_ops bw sc pt"
  proof (cases "ps = []")
    case True
    then have "fold (pippenger_round group_ops bw ps pt) (rev [n - n..<n]) 0 = 0"
      using rounds_spec [of ps n bw n pt] by simp
    then show ?thesis using True by (simp add: pippenger_wnaf_def ps_def)
  qed (simp add: pippenger_wnaf_def ps_def n_def Let_def)
  finally show ?thesis ..
qed

section \<open>Points on the curve\<close>

text \<open>The operations of a set of points closed under them, and what the method then returns.\<close>

locale point_set =
  fixes ops :: "('j, 'g) point_ops" and okj :: "'j \<Rightarrow> bool" and okg :: "'g \<Rightarrow> bool"
  assumes infinity: "okj (op_infinity ops)"
    and add: "okj a \<Longrightarrow> okj b \<Longrightarrow> okj (op_add ops a b)"
    and add_ge: "okj a \<Longrightarrow> okg p \<Longrightarrow> okj (op_add_ge ops a p)"
    and double: "okj a \<Longrightarrow> okj (op_double ops a)"
    and neg: "okg p \<Longrightarrow> okg (op_neg ops p)"
begin

lemma list_update_all: "\<forall>b \<in> set bs. okj b \<Longrightarrow> okj x \<Longrightarrow> \<forall>b \<in> set (bs[k := x]). okj b"
  using set_update_subset_insert [of bs k x] by blast

lemma add_at: "\<forall>b \<in> set bs. okj b \<Longrightarrow> okg p \<Longrightarrow> \<forall>b \<in> set (bs[k := op_add_ge ops (bs ! k) p]). okj b"
  using list_update_all [of bs "op_add_ge ops (bs ! k) p" k] add_ge [of "bs ! k" p]
  by (cases "k < length bs") (simp_all add: list_update_beyond)

lemma bucket_add_ok:
  assumes b: "\<forall>b \<in> set bs. okj b" and p: "okg (pt ! input_pos st)"
  shows "\<forall>b \<in> set (bucket_add ops pt i st bs). okj b"
proof -
  define b0 where "b0 = (if i = 0 \<and> skew_na st \<noteq> 0 then bs[0 := op_add_ge ops (bs ! 0) (op_neg ops (pt ! input_pos st))] else bs)"
  have "\<forall>b \<in> set b0. okj b" unfolding b0_def using add_at [OF b neg [OF p]] b by auto
  then show ?thesis unfolding bucket_add_def Let_def b0_def [symmetric] using add_at [of b0] neg p by auto
qed

lemma bucket_add_len: "length (bucket_add ops pt i st bs) = length bs"
  by (simp add: bucket_add_def Let_def)

lemma buckets_ok:
  assumes "\<forall>b \<in> set bs. okj b" "\<And>st. st \<in> set ps \<Longrightarrow> okg (pt ! input_pos st)"
  shows "(\<forall>b \<in> set (fold (bucket_add ops pt i) ps bs). okj b) \<and> length (fold (bucket_add ops pt i) ps bs) = length bs"
  using assms
proof (induction ps arbitrary: bs)
  case (Cons st ps)
  have "\<forall>b \<in> set (bucket_add ops pt i st bs). okj b" 
    by (rule bucket_add_ok [OF Cons.prems(1)]) (simp add: Cons.prems(2))
  from Cons.IH [OF this] Cons.prems(2) show ?case by (simp add: bucket_add_len)
qed simp

lemma running_sums_ok:
  "\<forall>b \<in> set bs. okj b \<Longrightarrow> j < length bs \<Longrightarrow> okj s \<Longrightarrow> okj r \<Longrightarrow>
    okj (fst (running_sums ops bs j s r)) \<and> okj (snd (running_sums ops bs j s r))"
  by (induction j arbitrary: s r) (simp_all add: Let_def add)

lemma round_ok:
  assumes "\<And>st. st \<in> set ps \<Longrightarrow> okg (pt ! input_pos st)" "okj r"
  shows "okj (pippenger_round ops bw ps pt i r)"
proof -
  define bs where "bs = fold (bucket_add ops pt i) ps (replicate (ECMULT_TABLE_SIZE (bw + 2)) (op_infinity ops))"
  have b: "\<forall>b \<in> set bs. okj b" "length bs = ECMULT_TABLE_SIZE (bw + 2)"
    using buckets_ok [of "replicate (ECMULT_TABLE_SIZE (bw + 2)) (op_infinity ops)" ps pt i] assms(1) infinity by (auto simp: bs_def)
  have pos: "0 < length bs" by (simp add: b(2) ECMULT_TABLE_SIZE_def)
  have "okj ((op_double ops ^^ k) r)" for k by (induction k) (simp_all add: assms(2) double)
  with running_sums_ok [OF b(1) _ infinity, of "ECMULT_TABLE_SIZE (bw + 2) - 1"] pos b
  have "okj (fst (running_sums ops bs (ECMULT_TABLE_SIZE (bw + 2) - 1) (op_infinity ops) ((op_double ops ^^ bw) r)))"
    "okj (snd (running_sums ops bs (ECMULT_TABLE_SIZE (bw + 2) - 1) (op_infinity ops) ((op_double ops ^^ bw) r)))" by simp_all
  moreover have "okj (bs ! 0)" using b(1) pos by simp
  ultimately show ?thesis unfolding pippenger_round_def Let_def bs_def [symmetric] by (simp add: case_prod_beta add double)
qed

lemma pippenger_ok:
  assumes "\<forall>p \<in> set pt. okg p" "length pt = length sc"
  shows "okj (pippenger_wnaf ops bw sc pt)"
proof -
  define ps where "ps = pippenger_points ops bw sc pt"
  have "st \<in> set ps \<Longrightarrow> okg (pt ! input_pos st)" for st
    using assms unfolding ps_def pippenger_points_def by (auto split: prod.splits)
  then have "okj (fold (pippenger_round ops bw ps pt) is r)" if "okj r" for "is" r
    using that by (induction "is" arbitrary: r) (simp_all add: round_ok)
  then show ?thesis using infinity by (simp add: pippenger_wnaf_def ps_def Let_def)
qed

end

text \<open>The points of the code on the curve are such a set.\<close>

lemma infinity_good: "gej_good secp256k1_gej_set_infinity"
  by (simp add: gej_good_def secp256k1_gej_set_infinity_def)

interpretation gej: point_set gej_ops gej_good ge_good
  by unfold_locales
    (simp_all add: gej_ops_def add_var_good add_ge_var_good double_good ge_neg_good infinity_good)

section \<open>The split for the endomorphism\<close>

lemma beta_value: "SECP256K1_FE_CONST 0x7ae96a2b 0x657c0710 0x6e64479e 0xac3434e9 0x9cf04975 0x12f58995 0xc1396c28 0x719501ee =
    fe_make 0x96c28719501ee 0x7512f58995c13 0xc3434e99cf049 0x7106e64479ea 0x7ae96a2b657c"
  unfolding SECP256K1_FE_CONST_def fe_make_def by simp

definition beta :: int where "beta = 0x7ae96a2b657c07106e64479eac3434e99cf0497512f58995c1396c28719501ee"

lemma beta_den: "den 1 (SECP256K1_FE_CONST 0x7ae96a2b 0x657c0710 0x6e64479e 0xac3434e9 0x9cf04975 0x12f58995 0xc1396c28 0x719501ee) beta"
  unfolding beta_value by (simp add: den_def fe_mag_def fe_val_def beta_def)

lemma beta_cube: "beta ^ 3 mod fe_p = 1"
proof -
  have "beta ^ 3 = 1 + 0x1c5561a92fcef40ffd987005d9737cfe85a78c7e6ba77875579aeef843c66a0b755d1035589264211b09d98057eca56d743b7d941302c88bd2a8f620b638e179 * fe_p"
    by (simp add: beta_def fe_p_def power3_eq_cube)
  moreover have "(1 :: int) < fe_p" by (simp add: fe_p_def)
  ultimately show ?thesis by (simp only: mod_mult_self1 mod_pos_pos_trivial zero_le_one)
qed

lemma mul_lambda_good: "ge_good p \<Longrightarrow> ge_good (secp256k1_ge_mul_lambda p)"
proof -
  assume g: "ge_good p"
  show ?thesis
  proof (cases "ge_inf p")
    case False
    define X Y where "X = fe_val (ge_x p)" and "Y = fe_val (ge_y p)"
    have d: "den 8 (ge_x p) X" "den 8 (ge_y p) Y" and on: "ge_on p"
      using g False den_self unfolding X_def Y_def by (auto simp: ge_good_def ge_mag_def)
    have n: "den 1 (ge_x (secp256k1_ge_mul_lambda p)) (X * beta)" "den 8 (ge_y (secp256k1_ge_mul_lambda p)) Y"
      using den_mul [OF d(1) beta_den] d(2) by (simp_all add: secp256k1_ge_mul_lambda_def Let_def)
    have "(X * beta) ^ 3 mod fe_p = X ^ 3 mod fe_p"
      unfolding power_mult_distrib using beta_cube by (metis mod_mult_right_eq mult.right_neutral)
    then have "(Y ^ 2 - (X * beta) ^ 3 - CURVE_B) mod fe_p = (Y ^ 2 - X ^ 3 - CURVE_B) mod fe_p" by (intro mod_diff_cong refl)
    then show ?thesis using ge_on_den [OF n] ge_on_den [OF d] on by (simp add: ge_good_def)
  qed (simp add: ge_good_def secp256k1_ge_mul_lambda_def Let_def)
qed

lemma short_half:
  assumes r: "sc_val r < 2 ^ 128 \<or> sc_n - 2 ^ 128 < sc_val r" and ok: "sc_ok r"
  defines "h \<equiv> secp256k1_scalar_is_high r"
  shows "sc_val (if h then secp256k1_scalar_negate r else r) < 2 ^ 128"
    and "sc_val r mod sc_n = (if h then - sc_val (secp256k1_scalar_negate r) else sc_val r) mod sc_n"
proof -
  have b: "0 \<le> sc_val r" "sc_val r < sc_n" using ok sc_val_bounds(1) [of r] by (simp_all add: sc_ok_def)
  have n: "(2 :: int) ^ 200 < sc_n" by (simp add: sc_n_def sc_c_def)
  have neg: "sc_val (secp256k1_scalar_negate r) = (- sc_val r) mod sc_n" by (rule negate_spec [OF ok])
  have hi: "h \<longleftrightarrow> sc_n < 2 * sc_val r" by (simp add: h_def is_high_iff)
  show "sc_val (if h then secp256k1_scalar_negate r else r) < 2 ^ 128"
  proof (cases h)
    case True
    then have "sc_val r \<noteq> 0" using hi n by auto
    then have "sc_val (secp256k1_scalar_negate r) = sc_n - sc_val r"
      unfolding neg using zmod_zminus1_eq_if [of "sc_val r" sc_n] b by simp
    moreover have "sc_n - 2 ^ 128 < sc_val r" using r True hi n by auto
    ultimately show ?thesis using True by simp
  next
    case False
    then show ?thesis using r hi n by auto
  qed
  show "sc_val r mod sc_n = (if h then - sc_val (secp256k1_scalar_negate r) else sc_val r) mod sc_n"
    unfolding neg by (simp add: mod_minus_eq)
qed

lemma endo_split_cases:
  assumes "sc_ok s"
  obtains h1 h2 s1 s2 where
    "endo_split neg lam s p = (s1, s2, if h1 then neg p else p, if h2 then neg (lam p) else lam p)"
    "sc_val s1 < 2 ^ 128" "sc_val s2 < 2 ^ 128"
    "sc_val s = ((if h1 then - sc_val s1 else sc_val s1) + sc_lambda * (if h2 then - sc_val s2 else sc_val s2)) mod sc_n"
proof -
  define r1 r2 where "r1 = fst (secp256k1_scalar_split_lambda s)" and "r2 = snd (secp256k1_scalar_split_lambda s)"
  define h1 h2 where "h1 = secp256k1_scalar_is_high r1" and "h2 = secp256k1_scalar_is_high r2"
  note sp = split_lambda_spec [OF assms, folded r1_def r2_def]
  have pos: "0 < sc_n" by (simp add: sc_n_def sc_c_def)
  have ok: "sc_ok r1" "sc_ok r2" using sp pos by (simp_all add: sc_ok_def)
  have a: "0 \<le> sc_val s" "sc_val s < sc_n" using assms sc_val_bounds(1) [of s] by (simp_all add: sc_ok_def)
  have size: "sc_val r1 < 2 ^ 128 \<or> sc_n - 2 ^ 128 < sc_val r1" "sc_val r2 < 2 ^ 128 \<or> sc_n - 2 ^ 128 < sc_val r2"
    unfolding sp by (rule split_size, rule split_small [OF a])+
  note half = short_half [OF size(1) ok(1), folded h1_def] short_half [OF size(2) ok(2), folded h2_def]
  have e: "endo_split neg lam s p = (if h1 then secp256k1_scalar_negate r1 else r1, if h2 then secp256k1_scalar_negate r2 else r2,
      if h1 then neg p else p, if h2 then neg (lam p) else lam p)"
    by (simp add: endo_split_def r1_def r2_def h1_def h2_def case_prod_beta Let_def)
  have "(x mod n + l * (y mod n)) mod n = (x + l * y) mod n" for x y l n :: int
    by (rule mod_add_cong) (simp_all add: mod_mult_right_eq)
  moreover have "sc_val s = (split_k1 (sc_val s) + sc_lambda * split_k2 (sc_val s)) mod sc_n"
    using split_sum [of "sc_val s"] a by simp
  ultimately have "sc_val s = (sc_val r1 mod sc_n + sc_lambda * (sc_val r2 mod sc_n)) mod sc_n" unfolding sp by simp
  also have "\<dots> = ((if h1 then - sc_val (secp256k1_scalar_negate r1) else sc_val r1) +
      sc_lambda * (if h2 then - sc_val (secp256k1_scalar_negate r2) else sc_val r2)) mod sc_n"
    unfolding half(2,4) by (rule mod_add_cong) (simp_all add: mod_mult_right_eq)
  finally show ?thesis using that [OF e half(1,3)] by (cases h1; cases h2) simp_all
qed

lemma zmul_nmul: "zmul (int k) a = nmul k a"
  by (simp add: zmul_def)

lemma zmul_zmul: "zmul (m * n) a = zmul m (zmul n a)"
proof -
  have "zmul (int k * n) a = zmul (int k) (zmul n a)" for k
  proof (induction k)
    case (Suc k)
    have "int (Suc k) * n = n + int k * n" by (simp add: algebra_simps)
    then show ?case using Suc zmul_add [of n "int k * n" a] zmul_Suc [of k "zmul n a"] by simp
  qed simp
  from this [of "nat m"] this [of "nat (- m)"] show ?thesis
    using zmul_minus(1) [of "- m * n" a] zmul_minus(1) [of "- m" "zmul n a"] by (cases "0 \<le> m") simp_all
qed

lemma zmul_mod: "zmul n a = 0 \<Longrightarrow> zmul (k mod n) a = zmul k a"
  using zmul_add [of "k div n * n" "k mod n" a] by (simp add: zmul_zmul)

lemma split_entries_Cons:
  assumes "endo_split neg lam (fst e) (snd e) = (s1, s2, p1, p2)"
  shows "fst (split_entries neg lam (e # es)) = s1 # s2 # fst (split_entries neg lam es)"
    "snd (split_entries neg lam (e # es)) = p1 # p2 # snd (split_entries neg lam es)"
  using assms by (cases e; simp add: case_prod_beta Let_def)+

lemma split_entries_len: "length (fst (split_entries neg lam es)) = 2 * length es" "length (snd (split_entries neg lam es)) = 2 * length es"
proof (induction es)
  case (Cons e es)
  obtain s1 s2 p1 p2 where e: "endo_split neg lam (fst e) (snd e) = (s1, s2, p1, p2)" by (metis prod_cases4)
  { case 1 then show ?case using Cons split_entries_Cons [OF e] by simp }
  { case 2 then show ?case using Cons split_entries_Cons [OF e] by simp }
qed simp_all

lemma split_entries_short:
  "\<forall>e \<in> set es. sc_ok (fst e) \<Longrightarrow> \<forall>s \<in> set (fst (split_entries neg lam es)). sc_val s < 2 ^ 128"
proof (induction es)
  case (Cons e es)
  have "sc_ok (fst e)" using Cons.prems by simp
  from endo_split_cases [OF this, of neg lam "snd e"] obtain h1 h2 s1 s2 where
    d: "endo_split neg lam (fst e) (snd e) = (s1, s2, if h1 then neg (snd e) else snd e, if h2 then neg (lam (snd e)) else lam (snd e))"
      "sc_val s1 < 2 ^ 128" "sc_val s2 < 2 ^ 128" by metis
  then show ?case using Cons split_entries_Cons [OF d(1)] by simp
qed simp

lemma split_entries_good:
  "\<forall>e \<in> set es. sc_ok (fst e) \<and> ge_good (snd e) \<Longrightarrow>
    \<forall>p \<in> set (snd (split_entries secp256k1_ge_neg secp256k1_ge_mul_lambda es)). ge_good p"
proof (induction es)
  case (Cons e es)
  have g: "sc_ok (fst e)" "ge_good (snd e)" using Cons.prems by simp_all
  from endo_split_cases [OF g(1), of secp256k1_ge_neg secp256k1_ge_mul_lambda "snd e"] obtain h1 h2 s1 s2 where
    d: "endo_split secp256k1_ge_neg secp256k1_ge_mul_lambda (fst e) (snd e) = (s1, s2, if h1 then secp256k1_ge_neg (snd e) else snd e,
      if h2 then secp256k1_ge_neg (secp256k1_ge_mul_lambda (snd e)) else secp256k1_ge_mul_lambda (snd e))" by metis
  then show ?case using Cons g split_entries_Cons [OF d] by (simp add: ge_neg_good mul_lambda_good)
qed simp

lemma sum_pairs: "(\<Sum>np\<leftarrow>[0..<Suc (Suc n)]. f np) = f 0 + (f 1 + (\<Sum>np\<leftarrow>[0..<n]. f (Suc (Suc np))))" for f :: "nat \<Rightarrow> 'a :: comm_monoid_add"
proof -
  have "[2..<n + 2] = map (\<lambda>k. Suc (Suc k)) [0..<n]" by (induction n) simp_all
  then have "[0..<Suc (Suc n)] = 0 # 1 # map (\<lambda>k. Suc (Suc k)) [0..<n]"
    by (simp add: upt_conv_Cons numeral_2_eq_2 del: upt_Suc)
  then show ?thesis by (simp add: o_def del: upt_Suc)
qed

lemma split_entries_sum:
  "\<forall>e \<in> set es. sc_ok (fst e) \<and> zmul sc_n (snd e) = 0 \<Longrightarrow>
    (\<Sum>np\<leftarrow>[0..<2 * length es]. zmul (sc_val (fst (split_entries uminus (zmul sc_lambda) es) ! np)) (snd (split_entries uminus (zmul sc_lambda) es) ! np)) =
    (\<Sum>e\<leftarrow>es. zmul (sc_val (fst e)) (snd e))"
proof (induction es)
  case (Cons e es)
  define s p where "s = fst e" and "p = snd e"
  have g: "sc_ok s" "zmul sc_n p = 0" using Cons.prems by (simp_all add: s_def p_def)
  from endo_split_cases [OF g(1), of uminus "zmul sc_lambda" p] obtain h1 h2 s1 s2 where
    d: "endo_split uminus (zmul sc_lambda) s p = (s1, s2, if h1 then - p else p, if h2 then - zmul sc_lambda p else zmul sc_lambda p)"
      "sc_val s = ((if h1 then - sc_val s1 else sc_val s1) + sc_lambda * (if h2 then - sc_val s2 else sc_val s2)) mod sc_n" by metis
  have "zmul (sc_val s) p = zmul (if h1 then - sc_val s1 else sc_val s1) p + zmul ((if h2 then - sc_val s2 else sc_val s2) * sc_lambda) p"
    unfolding d(2) zmul_mod [OF g(2)] zmul_add by (simp only: mult.commute)
  also have "\<dots> = zmul (sc_val s1) (if h1 then - p else p) + zmul (sc_val s2) (if h2 then - zmul sc_lambda p else zmul sc_lambda p)"
    unfolding zmul_zmul by (simp add: zmul_minus)
  finally have v: "zmul (sc_val s) p = \<dots>" .
  have IH: "(\<Sum>np\<leftarrow>[0..<2 * length es]. zmul (sc_val (fst (split_entries uminus (zmul sc_lambda) es) ! np)) (snd (split_entries uminus (zmul sc_lambda) es) ! np)) =
    (\<Sum>e\<leftarrow>es. zmul (sc_val (fst e)) (snd e))" using Cons by simp
  have n: "2 * length (e # es) = Suc (Suc (2 * length es))" by simp
  show ?case unfolding n sum_pairs split_entries_Cons [OF d(1) [unfolded s_def p_def]]
    using v IH unfolding s_def p_def by (simp add: add.assoc)
qed simp

section \<open>Batches for Pippenger's method\<close>

text \<open>The callback gives a scalar and a point for an index, or fails.\<close>

type_synonym ecmult_multi_callback = "nat \<Rightarrow> (secp256k1_scalar \<times> secp256k1_gej) option"

fun fetch_points :: "ecmult_multi_callback \<Rightarrow> nat \<Rightarrow> nat \<Rightarrow> (secp256k1_scalar \<times> secp256k1_gej) list option" where
  "fetch_points cb offset 0 = Some []"
| "fetch_points cb offset (Suc n) =
     (case cb offset of None \<Rightarrow> None | Some e \<Rightarrow> map_option (\<lambda>es. e # es) (fetch_points cb (offset + 1) n))"

definition pippenger_objects :: "nat \<Rightarrow> nat \<Rightarrow> nat list" where
  "pippenger_objects entries bucket_window =
     [entries * sizeof_ge, entries * sizeof_scalar, sizeof_pippenger_state, entries * sizeof_pippenger_point_state,
      entries * WNAF_SIZE (bucket_window + 1) * sizeof_int, 2 ^ bucket_window * sizeof_gej]"

text \<open>
  The success, the result and the scratch space; None where the code would follow a \<open>NULL\<close> that
  \<open>secp256k1_scratch_alloc\<close> returned.
\<close>

definition secp256k1_ecmult_pippenger_batch ::
    "secp256k1_scratch \<Rightarrow> secp256k1_scalar option \<Rightarrow> ecmult_multi_callback \<Rightarrow> nat \<Rightarrow> nat \<Rightarrow>
     (bool \<times> secp256k1_gej \<times> secp256k1_scratch) option" where
  "secp256k1_ecmult_pippenger_batch scratch inp_g_sc cb n_points cb_offset =
     (if inp_g_sc = None \<and> n_points = 0 then Some (True, secp256k1_gej_set_infinity, scratch)
      else
        let entries = 2 * n_points + 2;
            bucket_window = secp256k1_pippenger_bucket_window n_points;
            (ok, scratch) = secp256k1_scratch_allocate_frame scratch (secp256k1_pippenger_scratch_size n_points bucket_window) PIPPENGER_SCRATCH_OBJECTS
        in if \<not> ok then Some (False, secp256k1_gej_set_infinity, scratch)
           else case scratch_allocs scratch (pippenger_objects entries bucket_window) of
             None \<Rightarrow> None
           | Some scratch \<Rightarrow>
               (case fetch_points cb cb_offset n_points of
                  None \<Rightarrow> Some (False, secp256k1_gej_set_infinity, secp256k1_scratch_deallocate_frame scratch)
                | Some es \<Rightarrow>
                    let es = map (\<lambda>(s, p). (s, fst (secp256k1_ge_set_gej p))) es;
                        es = (case inp_g_sc of None \<Rightarrow> es | Some g \<Rightarrow> (g, secp256k1_ge_const_g) # es);
                        (scalars, points) = split_entries secp256k1_ge_neg secp256k1_ge_mul_lambda es
                    in Some (True, secp256k1_ecmult_pippenger_wnaf bucket_window scalars points,
                             secp256k1_scratch_deallocate_frame scratch)))"

primrec max_points_loop :: "nat \<Rightarrow> nat list \<Rightarrow> nat \<Rightarrow> nat" where
  "max_points_loop max_alloc [] res = res"
| "max_points_loop max_alloc (bucket_window # ws) res =
     (let max_points = secp256k1_pippenger_bucket_window_inv bucket_window;
          entry_size = sizeof_ge + sizeof_scalar + sizeof_pippenger_point_state + (WNAF_SIZE (bucket_window + 1) + 1) * sizeof_int;
          entry_size = 2 * entry_size;
          space_overhead = 2 ^ bucket_window * sizeof_gej + entry_size + sizeof_pippenger_state
      in if max_alloc < space_overhead then res
         else
           let space_for_points = max_alloc - space_overhead;
               n_points = space_for_points div entry_size;
               n_points = (if max_points < n_points then max_points else n_points);
               res = (if res < n_points then n_points else res)
           in if n_points < max_points then res else max_points_loop max_alloc ws res)"

definition secp256k1_pippenger_max_points :: "secp256k1_scratch \<Rightarrow> nat" where
  "secp256k1_pippenger_max_points scratch =
     (let max_alloc = secp256k1_scratch_max_allocation scratch PIPPENGER_SCRATCH_OBJECTS
      in max_points_loop max_alloc [1..<PIPPENGER_MAX_BUCKET_WINDOW + 1] 0)"

section \<open>Strauss' method\<close>

text \<open>
  The table of odd multiples; \<open>prej\<close> and \<open>zr\<close> hold what the arrays contain before. The doubled point is
  written whole, since the argument is not infinity.
\<close>

definition odd_multiples_step ::
    "secp256k1_ge \<Rightarrow> nat \<Rightarrow> secp256k1_gej list \<times> secp256k1_fe list \<Rightarrow> secp256k1_gej list \<times> secp256k1_fe list" where
  "odd_multiples_step d_ge i st =
     (case st of (prej, zr) \<Rightarrow>
        (case secp256k1_gej_add_ge_var (prej ! i) (prej ! (i - 1)) d_ge (Some (zr ! i)) of
           (p, rzr) \<Rightarrow> (prej[i := p], zr[i := the rzr])))"

definition secp256k1_ecmult_odd_multiples_table ::
    "nat \<Rightarrow> secp256k1_gej list \<Rightarrow> secp256k1_fe list \<Rightarrow> secp256k1_gej \<Rightarrow> secp256k1_gej list \<times> secp256k1_fe list" where
  "secp256k1_ecmult_odd_multiples_table n prej zr a =
     (let d = fst (secp256k1_gej_double_var secp256k1_gej_clear a None);
          d_ge = \<lparr>ge_x = gej_x d, ge_y = gej_y d, ge_inf = False\<rparr>;
          a_ge = secp256k1_ge_set_gej_zinv a (gej_z d);
          prej = prej[0 := \<lparr>gej_x = ge_x a_ge, gej_y = ge_y a_ge, gej_z = gej_z a, gej_inf = False\<rparr>];
          zr = zr[0 := gej_z d];
          (prej, zr) = fold (odd_multiples_step d_ge) [1..<n] (prej, zr)
      in (prej[n - 1 := (prej ! (n - 1))\<lparr>gej_z := secp256k1_fe_mul (gej_z (prej ! (n - 1))) (gej_z d)\<rparr>], zr))"

definition secp256k1_ecmult_odd_multiples_table_storage_var :: "nat \<Rightarrow> secp256k1_ge_storage list \<Rightarrow> secp256k1_gej \<Rightarrow> secp256k1_ge_storage list" where
  "secp256k1_ecmult_odd_multiples_table_storage_var n pre a =
     (let (prej, zr) = secp256k1_ecmult_odd_multiples_table n (replicate n secp256k1_gej_clear) (replicate n secp256k1_fe_clear) a;
          prea = secp256k1_ge_set_table_gej_var (replicate n secp256k1_ge_clear) prej zr
      in map secp256k1_ge_to_storage prea @ drop n pre)"

text \<open>The precomputed multiples of the generator; None for a table that was never built.\<close>

record secp256k1_ecmult_context =
  pre_g :: "secp256k1_ge_storage list option"
  pre_g_128 :: "secp256k1_ge_storage list option"

definition secp256k1_ecmult_context_init :: secp256k1_ecmult_context where
  "secp256k1_ecmult_context_init = \<lparr>pre_g = None, pre_g_128 = None\<rparr>"

definition secp256k1_ecmult_context_build :: "secp256k1_ecmult_context \<Rightarrow> secp256k1_ecmult_context" where
  "secp256k1_ecmult_context_build ctx =
     (if pre_g ctx \<noteq> None then ctx
      else
        let gj = secp256k1_gej_set_ge secp256k1_ge_const_g;
            ctx = ctx\<lparr>pre_g := Some (secp256k1_ecmult_odd_multiples_table_storage_var (ECMULT_TABLE_SIZE WINDOW_G) [] gj)\<rparr>;
            g_128j = ((\<lambda>g. fst (secp256k1_gej_double_var g g None)) ^^ 128) gj
        in ctx\<lparr>pre_g_128 := Some (secp256k1_ecmult_odd_multiples_table_storage_var (ECMULT_TABLE_SIZE WINDOW_G) [] g_128j)\<rparr>)"

definition secp256k1_ecmult_context_is_built :: "secp256k1_ecmult_context \<Rightarrow> bool" where
  "secp256k1_ecmult_context_is_built ctx = (pre_g ctx \<noteq> None)"

definition ECMULT_TABLE_GET_GE :: "secp256k1_ge list \<Rightarrow> int \<Rightarrow> secp256k1_ge" where
  "ECMULT_TABLE_GET_GE pre n =
     (if 0 < n then pre ! nat ((n - 1) div 2) else secp256k1_ge_neg (pre ! nat ((- n - 1) div 2)))"

definition ECMULT_TABLE_GET_GE_STORAGE :: "secp256k1_ge_storage list \<Rightarrow> int \<Rightarrow> secp256k1_ge" where
  "ECMULT_TABLE_GET_GE_STORAGE pre n =
     (if 0 < n then secp256k1_ge_from_storage (pre ! nat ((n - 1) div 2))
      else secp256k1_ge_neg (secp256k1_ge_from_storage (pre ! nat ((- n - 1) div 2))))"

record strauss_point_state =
  st_pos :: nat
  wnaf_na_1 :: "int list"
  bits_na_1 :: int
  wnaf_na_lam :: "int list"
  bits_na_lam :: int

definition strauss_points :: "secp256k1_gej list \<Rightarrow> secp256k1_scalar list \<Rightarrow> strauss_point_state list" where
  "strauss_points a na =
     map (\<lambda>np.
            let (na_1, na_lam) = secp256k1_scalar_split_lambda (na ! np);
                (wnaf_1, bits_1) = secp256k1_ecmult_wnaf (replicate 130 0) 130 na_1 WINDOW_A;
                (wnaf_lam, bits_lam) = secp256k1_ecmult_wnaf (replicate 130 0) 130 na_lam WINDOW_A
            in \<lparr>st_pos = np, wnaf_na_1 = wnaf_1, bits_na_1 = bits_1, wnaf_na_lam = wnaf_lam, bits_na_lam = bits_lam\<rparr>)
       (filter (\<lambda>np. \<not> (secp256k1_scalar_is_zero (na ! np) \<or> secp256k1_gej_is_infinity (a ! np))) [0..<length na])"

text \<open>The tables of all points after each other, each on the isomorphic curve of the one before.\<close>

definition strauss_table_step ::
    "secp256k1_gej list \<Rightarrow> strauss_point_state \<Rightarrow> secp256k1_gej list \<times> secp256k1_fe list \<Rightarrow> secp256k1_gej list \<times> secp256k1_fe list" where
  "strauss_table_step a ps st =
     (case st of (prej, zr) \<Rightarrow>
        let tmp = secp256k1_gej_rescale (a ! st_pos ps) (gej_z (last prej));
            (p, z) = secp256k1_ecmult_odd_multiples_table (ECMULT_TABLE_SIZE WINDOW_A) (replicate 8 secp256k1_gej_clear) (replicate 8 secp256k1_fe_clear) tmp;
            z = z[0 := secp256k1_fe_mul (z ! 0) (gej_z (a ! st_pos ps))]
        in (prej @ p, zr @ z))"

definition strauss_tables :: "secp256k1_gej list \<Rightarrow> strauss_point_state list \<Rightarrow> secp256k1_ge list \<times> secp256k1_fe" where
  "strauss_tables a ps =
     (case ps of
        [] \<Rightarrow> ([], secp256k1_fe_set_int 1)
      | p # ps' \<Rightarrow>
          let st = secp256k1_ecmult_odd_multiples_table (ECMULT_TABLE_SIZE WINDOW_A) (replicate 8 secp256k1_gej_clear) (replicate 8 secp256k1_fe_clear) (a ! st_pos p);
              (prej, zr) = fold (strauss_table_step a) ps' st
          in secp256k1_ge_globalz_set_table_gej (replicate (length prej) secp256k1_ge_clear) secp256k1_fe_clear prej zr)"

definition strauss_digit :: "secp256k1_ge list \<Rightarrow> int list \<Rightarrow> int \<Rightarrow> nat \<Rightarrow> secp256k1_gej \<Rightarrow> secp256k1_gej" where
  "strauss_digit pre wnaf bits i r =
     (let n = wnaf ! i
      in if int i < bits \<and> n \<noteq> 0 then fst (secp256k1_gej_add_ge_var r r (ECMULT_TABLE_GET_GE pre n) None) else r)"

definition strauss_digit_g :: "secp256k1_ge_storage list option \<Rightarrow> secp256k1_fe \<Rightarrow> int list \<Rightarrow> int \<Rightarrow> nat \<Rightarrow> secp256k1_gej \<Rightarrow> secp256k1_gej" where
  "strauss_digit_g pre Z wnaf bits i r =
     (let n = wnaf ! i
      in if int i < bits \<and> n \<noteq> 0 then secp256k1_gej_add_zinv_var r r (ECMULT_TABLE_GET_GE_STORAGE (the pre) n) Z else r)"

text \<open>One bit of all scalars: point \<open>np\<close> has its tables at \<open>8 * np\<close>.\<close>

definition strauss_round ::
    "secp256k1_ecmult_context \<Rightarrow> secp256k1_ge list \<Rightarrow> secp256k1_fe \<Rightarrow> strauss_point_state list \<Rightarrow>
     (int list \<times> int) \<Rightarrow> (int list \<times> int) \<Rightarrow> nat \<Rightarrow> secp256k1_gej \<Rightarrow> secp256k1_gej" where
  "strauss_round ctx pre_a Z ps dg1 dg128 i r =
     (let r = fst (secp256k1_gej_double_var r r None);
          r = fold (\<lambda>(np, p) r.
                let pre = drop (np * ECMULT_TABLE_SIZE WINDOW_A) pre_a;
                    pre_lam = drop (np * ECMULT_TABLE_SIZE WINDOW_A) (map secp256k1_ge_mul_lambda pre_a);
                    r = strauss_digit pre (wnaf_na_1 p) (bits_na_1 p) i r
                in strauss_digit pre_lam (wnaf_na_lam p) (bits_na_lam p) i r) (enumerate 0 ps) r;
          r = strauss_digit_g (pre_g ctx) Z (fst dg1) (snd dg1) i r
      in strauss_digit_g (pre_g_128 ctx) Z (fst dg128) (snd dg128) i r)"

definition secp256k1_ecmult_strauss_wnaf ::
    "secp256k1_ecmult_context \<Rightarrow> secp256k1_gej list \<Rightarrow> secp256k1_scalar list \<Rightarrow> secp256k1_scalar option \<Rightarrow> secp256k1_gej" where
  "secp256k1_ecmult_strauss_wnaf ctx a na ng =
     (let ps = strauss_points a na;
          bits = fold (\<lambda>p bits. max (max bits (bits_na_1 p)) (bits_na_lam p)) ps 0;
          (pre_a, Z) = strauss_tables a ps;
          (dg1, dg128) = (case ng of
             None \<Rightarrow> (([], 0), ([], 0))
           | Some ng \<Rightarrow>
               let (ng_1, ng_128) = secp256k1_scalar_split_128 ng
               in (secp256k1_ecmult_wnaf (replicate 129 0) 129 ng_1 WINDOW_G, secp256k1_ecmult_wnaf (replicate 129 0) 129 ng_128 WINDOW_G));
          bits = max (max bits (snd dg1)) (snd dg128);
          r = fold (strauss_round ctx pre_a Z ps dg1 dg128) (rev [0..<nat bits]) secp256k1_gej_set_infinity
      in if \<not> gej_inf r then r\<lparr>gej_z := secp256k1_fe_mul (gej_z r) Z\<rparr> else r)"

definition secp256k1_ecmult ::
    "secp256k1_ecmult_context \<Rightarrow> secp256k1_gej \<Rightarrow> secp256k1_scalar \<Rightarrow> secp256k1_scalar \<Rightarrow> secp256k1_gej" where
  "secp256k1_ecmult ctx a na ng = secp256k1_ecmult_strauss_wnaf ctx [a] [na] (Some ng)"

definition strauss_objects :: "nat \<Rightarrow> nat list" where
  "strauss_objects n_points =
     [n_points * sizeof_gej, n_points * sizeof_scalar, n_points * ECMULT_TABLE_SIZE WINDOW_A * sizeof_gej,
      n_points * ECMULT_TABLE_SIZE WINDOW_A * sizeof_fe, n_points * 2 * ECMULT_TABLE_SIZE WINDOW_A * sizeof_ge,
      n_points * sizeof_strauss_point_state]"

definition secp256k1_ecmult_strauss_batch ::
    "secp256k1_ecmult_context \<Rightarrow> secp256k1_scratch \<Rightarrow> secp256k1_scalar option \<Rightarrow> ecmult_multi_callback \<Rightarrow> nat \<Rightarrow> nat \<Rightarrow>
     (bool \<times> secp256k1_gej \<times> secp256k1_scratch) option" where
  "secp256k1_ecmult_strauss_batch ctx scratch inp_g_sc cb n_points cb_offset =
     (if inp_g_sc = None \<and> n_points = 0 then Some (True, secp256k1_gej_set_infinity, scratch)
      else
        let (ok, scratch) = secp256k1_scratch_allocate_frame scratch (secp256k1_strauss_scratch_size n_points) STRAUSS_SCRATCH_OBJECTS
        in if \<not> ok then Some (False, secp256k1_gej_set_infinity, scratch)
           else case scratch_allocs scratch (strauss_objects n_points) of
             None \<Rightarrow> None
           | Some scratch \<Rightarrow>
               (case fetch_points cb cb_offset n_points of
                  None \<Rightarrow> Some (False, secp256k1_gej_set_infinity, secp256k1_scratch_deallocate_frame scratch)
                | Some es \<Rightarrow> Some (True, secp256k1_ecmult_strauss_wnaf ctx (map snd es) (map fst es) inp_g_sc,
                                   secp256k1_scratch_deallocate_frame scratch)))"

definition secp256k1_strauss_max_points :: "secp256k1_scratch \<Rightarrow> nat" where
  "secp256k1_strauss_max_points scratch =
     secp256k1_scratch_max_allocation scratch STRAUSS_SCRATCH_OBJECTS div secp256k1_strauss_scratch_size 1"

section \<open>Many points\<close>

fun multi_loop ::
    "(secp256k1_scratch \<Rightarrow> secp256k1_scalar option \<Rightarrow> ecmult_multi_callback \<Rightarrow> nat \<Rightarrow> nat \<Rightarrow> (bool \<times> secp256k1_gej \<times> secp256k1_scratch) option) \<Rightarrow>
     secp256k1_scalar option \<Rightarrow> ecmult_multi_callback \<Rightarrow> nat \<Rightarrow> nat \<Rightarrow> nat \<Rightarrow> nat \<Rightarrow> secp256k1_gej \<Rightarrow> secp256k1_scratch \<Rightarrow>
     (bool \<times> secp256k1_gej \<times> secp256k1_scratch) option" where
  "multi_loop f inp_g_sc cb n_batch_points 0 i n r scratch = Some (True, r, scratch)"
| "multi_loop f inp_g_sc cb n_batch_points (Suc k) i n r scratch =
     (let nbp = (if n < n_batch_points then n else n_batch_points);
          offset = n_batch_points * i
      in case f scratch (if i = 0 then inp_g_sc else None) cb nbp offset of
           None \<Rightarrow> None
         | Some (ok, tmp, scratch) \<Rightarrow>
             if \<not> ok then Some (False, r, scratch)
             else multi_loop f inp_g_sc cb n_batch_points k (i + 1) (n - nbp) (fst (secp256k1_gej_add_var r r tmp None)) scratch)"

definition batches :: "nat \<Rightarrow> nat \<Rightarrow> nat \<times> nat" where
  "batches n max_points =
     (let n_batches = (n + max_points - 1) div max_points;
          n_batch_points = (n + n_batches - 1) div n_batches
      in (n_batches, n_batch_points))"

definition secp256k1_ecmult_multi_var ::
    "secp256k1_ecmult_context \<Rightarrow> secp256k1_scratch \<Rightarrow> secp256k1_scalar option \<Rightarrow> ecmult_multi_callback \<Rightarrow> nat \<Rightarrow>
     (bool \<times> secp256k1_gej \<times> secp256k1_scratch) option" where
  "secp256k1_ecmult_multi_var ctx scratch inp_g_sc cb n =
     (let r = secp256k1_gej_set_infinity
      in if inp_g_sc = None \<and> n = 0 then Some (True, r, scratch)
         else if n = 0 then
           Some (True, secp256k1_ecmult ctx r (secp256k1_scalar_set_int 0) (the inp_g_sc), scratch)
         else
           let max_points = secp256k1_pippenger_max_points scratch
           in if max_points = 0 then Some (False, r, scratch)
              else
                let max_points = (if ECMULT_MAX_POINTS_PER_BATCH < max_points then ECMULT_MAX_POINTS_PER_BATCH else max_points);
                    (n_batches, n_batch_points) = batches n max_points
                in if ECMULT_PIPPENGER_THRESHOLD \<le> n_batch_points then
                     multi_loop secp256k1_ecmult_pippenger_batch inp_g_sc cb n_batch_points n_batches 0 n r scratch
                   else
                     let max_points = secp256k1_strauss_max_points scratch
                     in if max_points = 0 then Some (False, r, scratch)
                        else
                          let (n_batches, n_batch_points) = batches n max_points
                          in multi_loop (secp256k1_ecmult_strauss_batch ctx) inp_g_sc cb n_batch_points n_batches 0 n r scratch)"

text \<open>The class \<open>MultiExponent\<close>; the constructor throws when the counts differ.\<close>

record MultiExponent =
  me_sc :: "secp256k1_scalar list"
  me_pt :: "secp256k1_gej list"
  me_n_points :: nat

definition MultiExponent_new :: "secp256k1_gej list \<Rightarrow> secp256k1_scalar list \<Rightarrow> string + MultiExponent" where
  "MultiExponent_new generators powers =
     (if length generators \<noteq> length powers then Inl ''MultiExponent: generator and scalar counts must match''
      else Inr \<lparr>me_sc = powers, me_pt = generators, me_n_points = length generators\<rparr>)"

definition multi_callback :: "MultiExponent \<Rightarrow> ecmult_multi_callback" where
  "multi_callback data idx = Some (me_sc data ! idx, me_pt data ! idx)"

definition MultiExponent_scratch :: "MultiExponent \<Rightarrow> secp256k1_scratch" where
  "MultiExponent_scratch m =
     (if ECMULT_PIPPENGER_THRESHOLD < me_n_points m then
        let bucket_window = secp256k1_pippenger_bucket_window (me_n_points m);
            scratch_size = secp256k1_pippenger_scratch_size (me_n_points m) bucket_window
        in secp256k1_scratch_create (scratch_size + PIPPENGER_SCRATCH_OBJECTS * ALIGNMENT)
      else
        let scratch_size = secp256k1_strauss_scratch_size (me_n_points m)
        in secp256k1_scratch_create (scratch_size + STRAUSS_SCRATCH_OBJECTS * ALIGNMENT))"

text \<open>The multiplication, whose success \<open>get_multiple\<close> does not look at; its context is never initialised.\<close>

definition MultiExponent_run :: "secp256k1_ecmult_context \<Rightarrow> MultiExponent \<Rightarrow> (bool \<times> secp256k1_gej \<times> secp256k1_scratch) option" where
  "MultiExponent_run ctx m = secp256k1_ecmult_multi_var ctx (MultiExponent_scratch m) None (multi_callback m) (me_n_points m)"

definition MultiExponent_get_multiple :: "secp256k1_ecmult_context \<Rightarrow> MultiExponent \<Rightarrow> secp256k1_gej option" where
  "MultiExponent_get_multiple ctx m = map_option (\<lambda>(ok, r, scratch). r) (MultiExponent_run ctx m)"

text \<open>The product of a point and a scalar, with the static context and no multiple of the generator.\<close>

definition GroupElement_times :: "secp256k1_ecmult_context \<Rightarrow> secp256k1_gej \<Rightarrow> secp256k1_scalar \<Rightarrow> secp256k1_gej" where
  "GroupElement_times ctx g multiplier =
     (let ng = secp256k1_scalar_set_int 0 in secp256k1_ecmult ctx g multiplier ng)"

section \<open>The memory of a multi-exponentiation\<close>

lemma align_up: "(s + ALIGNMENT - 1) div ALIGNMENT * ALIGNMENT \<le> s + 15"
  by (simp add: ALIGNMENT_def)

lemma scratch_allocs_fit:
  "scratch_frames scratch = (fs, offset) # rest \<Longrightarrow> offset + sum_list (map (\<lambda>s. s + 15) sizes) \<le> fs \<Longrightarrow>
    \<exists>offset'. scratch_allocs scratch sizes = Some (scratch\<lparr>scratch_frames := (fs, offset') # rest\<rparr>)"
proof (induction sizes arbitrary: scratch offset)
  case (Cons s sizes)
  define a where "a = (s + ALIGNMENT - 1) div ALIGNMENT * ALIGNMENT"
  have a: "a \<le> s + 15" unfolding a_def by (rule align_up)
  have o: "secp256k1_scratch_alloc scratch s = Some (offset, scratch\<lparr>scratch_frames := (fs, offset + a) # rest\<rparr>)"
    using Cons.prems a unfolding secp256k1_scratch_alloc_def a_def [symmetric] Let_def by simp
  show ?case
    using Cons.IH [of "scratch\<lparr>scratch_frames := (fs, offset + a) # rest\<rparr>" "offset + a"] Cons.prems(2) a o by simp
next
  case Nil
  then show ?case by (cases scratch) auto
qed

lemma fetch_all: "(\<And>i. offset \<le> i \<Longrightarrow> i < offset + n \<Longrightarrow> cb i = Some (e i)) \<Longrightarrow> fetch_points cb offset n = Some (map e [offset..<offset + n])"
proof (induction n arbitrary: offset)
  case (Suc n)
  have "fetch_points cb (offset + 1) n = Some (map e [offset + 1..<offset + 1 + n])" by (rule Suc.IH) (simp add: Suc.prems)
  moreover have "[offset..<offset + Suc n] = offset # [offset + 1..<offset + 1 + n]" by (simp add: upt_conv_Cons)
  ultimately show ?case using Suc.prems [of offset] by simp
qed simp

lemma frame_fits:
  assumes "scratch_frames scratch = []" "n + 96 \<le> scratch_max_size scratch"
  shows "0 < n \<Longrightarrow> secp256k1_scratch_allocate_frame scratch n 6 = (True, scratch\<lparr>scratch_frames := [(n + 96, 0)]\<rparr>)"
  using assms by (simp add: secp256k1_scratch_allocate_frame_def secp256k1_scratch_max_allocation_def ALIGNMENT_def Let_def)

lemmas sizeofs = sizeof_ge_def sizeof_gej_def sizeof_fe_def sizeof_scalar_def sizeof_int_def sizeof_pippenger_point_state_def
  sizeof_pippenger_state_def sizeof_strauss_point_state_def WINDOW_A_def ECMULT_TABLE_SIZE_def

lemma pippenger_size: "secp256k1_pippenger_scratch_size n b = 2 ^ b * 128 + 16 + (2 * n + 2) * (140 + 4 * WNAF_SIZE (b + 1))"
  by (simp add: secp256k1_pippenger_scratch_size_def sizeofs)

lemma strauss_size: "secp256k1_strauss_scratch_size n = 4032 * n"
  by (simp add: secp256k1_strauss_scratch_size_def sizeofs)

text \<open>The objects of both batch routines fit into the frame that is asked for them.\<close>

lemma pippenger_batch_runs:
  assumes "scratch_frames scratch = []" "secp256k1_pippenger_scratch_size n (secp256k1_pippenger_bucket_window n) + 96 \<le> scratch_max_size scratch"
    and "0 < n" "fetch_points cb 0 n = Some es"
  shows "secp256k1_ecmult_pippenger_batch scratch None cb n 0 =
    Some (True, case split_entries secp256k1_ge_neg secp256k1_ge_mul_lambda (map (\<lambda>(s, p). (s, fst (secp256k1_ge_set_gej p))) es) of
      (ss, ps) \<Rightarrow> secp256k1_ecmult_pippenger_wnaf (secp256k1_pippenger_bucket_window n) ss ps, scratch)"
proof -
  define b where "b = secp256k1_pippenger_bucket_window n"
  define N where "N = secp256k1_pippenger_scratch_size n b"
  have N: "0 < N" by (simp add: N_def pippenger_size)
  have s: "sum_list (map (\<lambda>s. s + 15) (pippenger_objects (2 * n + 2) b)) \<le> N + 96"
    by (simp add: pippenger_objects_def sizeofs N_def pippenger_size algebra_simps)
  obtain o' where o: "scratch_allocs (scratch\<lparr>scratch_frames := [(N + 96, 0)]\<rparr>) (pippenger_objects (2 * n + 2) b) =
      Some (scratch\<lparr>scratch_frames := [(N + 96, o')]\<rparr>)"
    using scratch_allocs_fit [of "scratch\<lparr>scratch_frames := [(N + 96, 0)]\<rparr>" "N + 96" 0 "[]" "pippenger_objects (2 * n + 2) b"] s by auto
  have f: "secp256k1_scratch_allocate_frame scratch N PIPPENGER_SCRATCH_OBJECTS = (True, scratch\<lparr>scratch_frames := [(N + 96, 0)]\<rparr>)"
    unfolding PIPPENGER_SCRATCH_OBJECTS_def using frame_fits [OF assms(1) _ N] assms(2) by (simp add: N_def b_def)
  have d: "secp256k1_scratch_deallocate_frame (scratch\<lparr>scratch_frames := [(N + 96, o')]\<rparr>) = scratch"
    using assms(1) by (simp add: secp256k1_scratch_deallocate_frame_def)
  show ?thesis unfolding secp256k1_ecmult_pippenger_batch_def Let_def b_def [symmetric] N_def [symmetric] f
    using assms(3,4) by (simp add: o d case_prod_beta del: add_2_eq_Suc')
qed

lemma strauss_batch_runs:
  assumes "scratch_frames scratch = []" "4032 * n + 96 \<le> scratch_max_size scratch" "0 < n" "fetch_points cb 0 n = Some es"
  shows "secp256k1_ecmult_strauss_batch ctx scratch None cb n 0 =
    Some (True, secp256k1_ecmult_strauss_wnaf ctx (map snd es) (map fst es) None, scratch)"
proof -
  have s: "sum_list (map (\<lambda>s. s + 15) (strauss_objects n)) \<le> 4032 * n + 96"
    by (simp add: strauss_objects_def sizeofs)
  obtain o' where o: "scratch_allocs (scratch\<lparr>scratch_frames := [(4032 * n + 96, 0)]\<rparr>) (strauss_objects n) =
      Some (scratch\<lparr>scratch_frames := [(4032 * n + 96, o')]\<rparr>)"
    using scratch_allocs_fit [of "scratch\<lparr>scratch_frames := [(4032 * n + 96, 0)]\<rparr>" "4032 * n + 96" 0 "[]" "strauss_objects n"] s by auto
  have f: "secp256k1_scratch_allocate_frame scratch (4032 * n) STRAUSS_SCRATCH_OBJECTS = (True, scratch\<lparr>scratch_frames := [(4032 * n + 96, 0)]\<rparr>)"
    unfolding STRAUSS_SCRATCH_OBJECTS_def using frame_fits [OF assms(1,2)] assms(3) by simp
  have d: "secp256k1_scratch_deallocate_frame (scratch\<lparr>scratch_frames := [(4032 * n + 96, o')]\<rparr>) = scratch"
    using assms(1) by (simp add: secp256k1_scratch_deallocate_frame_def)
  show ?thesis unfolding secp256k1_ecmult_strauss_batch_def Let_def strauss_size f using assms(3,4) by (simp add: o d)
qed

text \<open>How many points fit: the loop passes every window whose full share fits.\<close>

definition share :: "nat \<Rightarrow> nat \<Rightarrow> nat" where
  "share b n = 2 ^ b * 128 + 16 + (2 * n + 2) * (140 + 4 * WNAF_SIZE (b + 1))"

lemma max_points_mono: "res \<le> max_points_loop al ws res"
proof (induction ws arbitrary: res)
  case (Cons b ws)
  show ?case unfolding max_points_loop.simps Let_def using Cons by (auto intro: order_trans [OF _ Cons])
qed simp

lemma max_points_loop_step:
  assumes "share b n \<le> al" "n \<le> secp256k1_pippenger_bucket_window_inv b"
  shows "n \<le> max_points_loop al (b # ws) res"
    and "n = secp256k1_pippenger_bucket_window_inv b \<Longrightarrow> \<exists>res'. max_points_loop al (b # ws) res = max_points_loop al ws res'"
proof -
  define e where "e = 2 * (140 + 4 * WNAF_SIZE (b + 1))"
  define h where "h = 2 ^ b * 128 + e + 16"
  define M where "M = secp256k1_pippenger_bucket_window_inv b"
  define q where "q = (if M < (al - h) div e then M else (al - h) div e)"
  have s: "share b n = h + n * e" by (simp add: share_def h_def e_def algebra_simps)
  have pos: "0 < e" by (simp add: e_def)
  have "n * e \<le> al - h" using assms(1) s by simp
  then have "n \<le> (al - h) div e" using pos by (simp add: less_eq_div_iff_mult_less_eq)
  then have n: "n \<le> q" using assms(2) by (simp add: q_def M_def)
  have l: "max_points_loop al (b # ws) res =
      (if q < M then (if res < q then q else res) else max_points_loop al ws (if res < q then q else res))"
  proof -
    have "2 * (sizeof_ge + sizeof_scalar + sizeof_pippenger_point_state + (WNAF_SIZE (b + 1) + 1) * sizeof_int) = e"
      by (simp add: sizeofs e_def)
    moreover have "2 ^ b * sizeof_gej + e + sizeof_pippenger_state = h" by (simp add: sizeofs h_def)
    moreover have "\<not> al < h" using assms(1) s by simp
    ultimately show ?thesis unfolding max_points_loop.simps Let_def M_def [symmetric] by (simp add: q_def)
  qed
  show "n \<le> max_points_loop al (b # ws) res"
    using n max_points_mono [of "if res < q then q else res" al ws] unfolding l by (auto split: if_splits)
  show "\<exists>res'. max_points_loop al (b # ws) res = max_points_loop al ws res'" if "n = secp256k1_pippenger_bucket_window_inv b"
    using n that unfolding l M_def [symmetric] by auto
qed

lemma max_points_loop_ge:
  "\<forall>b \<in> set bs. share b (secp256k1_pippenger_bucket_window_inv b) \<le> al \<Longrightarrow> share b n \<le> al \<Longrightarrow>
    n \<le> secp256k1_pippenger_bucket_window_inv b \<Longrightarrow> n \<le> max_points_loop al (bs @ b # ws) res"
proof (induction bs arbitrary: res)
  case Nil
  then show ?case using max_points_loop_step(1) by simp
next
  case (Cons c bs)
  obtain res' where "max_points_loop al (c # (bs @ b # ws)) res = max_points_loop al (bs @ b # ws) res'"
    using max_points_loop_step(2) [of c "secp256k1_pippenger_bucket_window_inv c" al "bs @ b # ws" res] Cons.prems(1) by auto
  then show ?case using Cons by simp
qed

text \<open>Every number of points gets a share of the memory its own size asks for, and so one batch.\<close>

lemma wnaf_sizes: "WNAF_SIZE 2 = 64" "WNAF_SIZE 3 = 43" "WNAF_SIZE 4 = 32" "WNAF_SIZE 5 = 26" "WNAF_SIZE 6 = 22" "WNAF_SIZE 7 = 19"
  "WNAF_SIZE 8 = 16" "WNAF_SIZE 9 = 15" "WNAF_SIZE 10 = 13" "WNAF_SIZE 11 = 12" "WNAF_SIZE 12 = 11" "WNAF_SIZE 13 = 10"
  by (simp_all add: WNAF_SIZE_def WNAF_SIZE_BITS_def WNAF_BITS_def)

lemma window_inv:
  "secp256k1_pippenger_bucket_window_inv 1 = 1" "secp256k1_pippenger_bucket_window_inv 2 = 4" "secp256k1_pippenger_bucket_window_inv 3 = 20"
  "secp256k1_pippenger_bucket_window_inv 4 = 57" "secp256k1_pippenger_bucket_window_inv 5 = 136" "secp256k1_pippenger_bucket_window_inv 6 = 235"
  "secp256k1_pippenger_bucket_window_inv 7 = 1260" "secp256k1_pippenger_bucket_window_inv 8 = 1260" "secp256k1_pippenger_bucket_window_inv 9 = 4420"
  "secp256k1_pippenger_bucket_window_inv 10 = 7880" "secp256k1_pippenger_bucket_window_inv 11 = 16050" "secp256k1_pippenger_bucket_window_inv 12 = SIZE_MAX"
  by (simp_all add: secp256k1_pippenger_bucket_window_inv_def bucket_sizes_def PIPPENGER_MAX_BUCKET_WINDOW_def)

lemma shares:
  "share 1 n = 272 + (2 * n + 2) * 396" "share 2 n = 528 + (2 * n + 2) * 312" "share 3 n = 1040 + (2 * n + 2) * 268"
  "share 4 n = 2064 + (2 * n + 2) * 244" "share 5 n = 4112 + (2 * n + 2) * 228" "share 6 n = 8208 + (2 * n + 2) * 216"
  "share 7 n = 16400 + (2 * n + 2) * 204" "share 8 n = 32784 + (2 * n + 2) * 200" "share 9 n = 65552 + (2 * n + 2) * 192"
  "share 10 n = 131088 + (2 * n + 2) * 188" "share 11 n = 262160 + (2 * n + 2) * 184" "share 12 n = 524304 + (2 * n + 2) * 180"
  by (simp_all add: share_def wnaf_sizes wnaf_sizes(1) [unfolded numeral_2_eq_2])

text \<open>The windows that sizes from the threshold on are given, with the sizes between which they are chosen.\<close>

lemma bucket_window_class:
  assumes "88 \<le> n"
  obtains (w5) "secp256k1_pippenger_bucket_window n = 5" "n \<le> 136"
    | (w6) "secp256k1_pippenger_bucket_window n = 6" "136 < n" "n \<le> 235"
    | (w7) "secp256k1_pippenger_bucket_window n = 7" "235 < n" "n \<le> 1260"
    | (w9) "secp256k1_pippenger_bucket_window n = 9" "1260 < n" "n \<le> 4420"
    | (w10) "secp256k1_pippenger_bucket_window n = 10" "4420 < n" "n \<le> 7880"
    | (w11) "secp256k1_pippenger_bucket_window n = 11" "7880 < n" "n \<le> 16050"
    | (w12) "secp256k1_pippenger_bucket_window n = 12" "16050 < n"
proof -
  have v: "secp256k1_pippenger_bucket_window n = (if n \<le> 136 then 5 else if n \<le> 235 then 6 else if n \<le> 1260 then 7
      else if n \<le> 4420 then 9 else if n \<le> 7880 then 10 else if n \<le> 16050 then 11 else 12)"
    using assms by (simp add: secp256k1_pippenger_bucket_window_def bucket_sizes_def PIPPENGER_MAX_BUCKET_WINDOW_def)
  consider "n \<le> 136" | "136 < n" "n \<le> 235" | "235 < n" "n \<le> 1260" | "1260 < n" "n \<le> 4420" | "4420 < n" "n \<le> 7880"
    | "7880 < n" "n \<le> 16050" | "16050 < n" by linarith
  then show ?thesis by cases (use v that in simp_all)
qed

lemma windows_split:
  "[1..<13] = [1, 2, 3, 4] @ 5 # [6..<13]" "[1..<13] = [1, 2, 3, 4, 5] @ 6 # [7..<13]" "[1..<13] = [1, 2, 3, 4, 5, 6] @ 7 # [8..<13]"
  "[1..<13] = [1, 2, 3, 4, 5, 6, 7, 8] @ 9 # [10..<13]" "[1..<13] = [1, 2, 3, 4, 5, 6, 7, 8, 9] @ 10 # [11..<13]"
  "[1..<13] = [1, 2, 3, 4, 5, 6, 7, 8, 9, 10] @ 11 # [12..<13]" "[1..<13] = [1, 2, 3, 4, 5, 6, 7, 8, 9, 10, 11] @ 12 # []"
  by (simp_all add: upt_conv_Cons)

lemma own_share:
  assumes n: "88 \<le> n" "n \<le> SIZE_MAX"
  shows "n \<le> max_points_loop (share (secp256k1_pippenger_bucket_window n) n) [1..<13] 0"
  using n(1)
proof (cases rule: bucket_window_class)
  case w5
  show ?thesis unfolding w5(1) windows_split(1) by (rule max_points_loop_ge) (use n w5 in \<open>simp_all add: window_inv shares del: One_nat_def\<close>)
next
  case w6
  show ?thesis unfolding w6(1) windows_split(2) by (rule max_points_loop_ge) (use w6 in \<open>simp_all add: window_inv shares del: One_nat_def\<close>)
next
  case w7
  show ?thesis unfolding w7(1) windows_split(3) by (rule max_points_loop_ge) (use w7 in \<open>simp_all add: window_inv shares del: One_nat_def\<close>)
next
  case w9
  show ?thesis unfolding w9(1) windows_split(4) by (rule max_points_loop_ge) (use w9 in \<open>simp_all add: window_inv shares del: One_nat_def\<close>)
next
  case w10
  show ?thesis unfolding w10(1) windows_split(5) by (rule max_points_loop_ge) (use w10 in \<open>simp_all add: window_inv shares del: One_nat_def\<close>)
next
  case w11
  show ?thesis unfolding w11(1) windows_split(6) by (rule max_points_loop_ge) (use w11 in \<open>simp_all add: window_inv shares del: One_nat_def\<close>)
next
  case w12
  show ?thesis unfolding w12(1) windows_split(7) by (rule max_points_loop_ge) (use w12 n in \<open>simp_all add: window_inv shares del: One_nat_def\<close>)
qed

lemma threshold_share: "88 \<le> max_points_loop (4032 * 88) [1..<13] 0"
  unfolding windows_split(1) by (rule max_points_loop_ge) (simp_all add: window_inv shares del: One_nat_def)

lemma some_share: "0 < n \<Longrightarrow> 0 < max_points_loop (4032 * n) [1..<13] 0"
proof -
  assume "0 < n"
  then have "1 \<le> max_points_loop (4032 * n) ([] @ 1 # [2..<13]) 0" using max_points_loop_ge [of "[]" "4032 * n" 1 1 "[2..<13]" 0] window_inv(1) shares(1) by simp
  moreover have "[1..<13] = [] @ 1 # [2 :: nat..<13]" by (simp add: upt_conv_Cons)
  ultimately show ?thesis by (metis less_le_trans zero_less_one)
qed

lemma one_batch: "0 < n \<Longrightarrow> n \<le> max_points \<Longrightarrow> batches n max_points = (1, n)"
proof -
  assume a: "0 < n" "n \<le> max_points"
  have "(n + max_points - 1) div max_points = 1" using a by (intro div_nat_eqI) simp_all
  then show ?thesis by (simp add: batches_def Let_def)
qed

lemma batch_at_most: "0 < n \<Longrightarrow> 0 < max_points \<Longrightarrow> snd (batches n max_points) \<le> n"
proof -
  assume a: "0 < n" "0 < max_points"
  define k where "k = (n + max_points - 1) div max_points"
  have "max_points div max_points \<le> (n + max_points - 1) div max_points" using a by (intro div_le_mono) simp
  then have k: "0 < k" using a by (simp add: k_def)
  have "n \<le> n * k" using k by simp
  then have "n + k - 1 \<le> n * k + (k - 1)" using k by linarith
  then have "(n + k - 1) div k \<le> (n * k + (k - 1)) div k" by (rule div_le_mono)
  also have "\<dots> = n" using k by (intro div_nat_eqI) (simp_all add: algebra_simps)
  finally have "(n + k - 1) div k \<le> n" .
  then show ?thesis by (simp add: batches_def Let_def k_def)
qed

text \<open>What the multiplication of many points returns: one batch, of the method its size selects.\<close>

definition multi_entries :: "MultiExponent \<Rightarrow> (secp256k1_scalar \<times> secp256k1_ge) list" where
  "multi_entries m = map (\<lambda>i. (me_sc m ! i, fst (secp256k1_ge_set_gej (me_pt m ! i)))) [0..<me_n_points m]"

definition multi_result :: "MultiExponent \<Rightarrow> secp256k1_gej" where
  "multi_result m =
     (if me_n_points m = 0 then secp256k1_gej_set_infinity
      else if me_n_points m < 88 then
        secp256k1_ecmult_strauss_wnaf secp256k1_ecmult_context_init
          (map (\<lambda>i. me_pt m ! i) [0..<me_n_points m]) (map (\<lambda>i. me_sc m ! i) [0..<me_n_points m]) None
      else case split_entries secp256k1_ge_neg secp256k1_ge_mul_lambda (multi_entries m) of
        (scalars, points) \<Rightarrow>
          secp256k1_ecmult_pippenger_wnaf (secp256k1_pippenger_bucket_window (me_n_points m)) scalars points)"

lemma strauss_round_idle: "strauss_round ctx pre_a Z ps ([], 0) ([], 0) i r = strauss_round ctx' pre_a Z ps ([], 0) ([], 0) i r"
  by (simp add: strauss_round_def strauss_digit_g_def Let_def)

lemma strauss_without_generator: "secp256k1_ecmult_strauss_wnaf ctx a na None = secp256k1_ecmult_strauss_wnaf ctx' a na None"
proof -
  have e: "(\<lambda>i r. strauss_round ctx pre_a Z ps ([], 0) ([], 0) i r) = (\<lambda>i r. strauss_round ctx' pre_a Z ps ([], 0) ([], 0) i r)" for pre_a Z ps
    by (intro ext strauss_round_idle)
  then have "strauss_round ctx pre_a Z ps ([], 0) ([], 0) = strauss_round ctx' pre_a Z ps ([], 0) ([], 0)" for pre_a Z ps by simp
  then show ?thesis by (simp add: secp256k1_ecmult_strauss_wnaf_def Let_def case_prod_beta)
qed

lemma add_to_infinity: "fst (secp256k1_gej_add_var r secp256k1_gej_set_infinity b rzr) = b"
  by (simp add: secp256k1_gej_add_var_def secp256k1_gej_set_infinity_def)

lemma multi_loop_one:
  assumes "f scratch None cb n 0 = Some (True, b, scratch')"
  shows "multi_loop f None cb n 1 0 n secp256k1_gej_set_infinity scratch = Some (True, b, scratch')"
  using assms by (simp add: Let_def add_to_infinity)

lemma multi_runs:
  assumes n: "me_n_points m \<le> ECMULT_MAX_POINTS_PER_BATCH"
  shows "MultiExponent_run ctx m = Some (True, multi_result m, MultiExponent_scratch m)"
proof (cases "me_n_points m = 0")
  case True
  then show ?thesis by (simp add: MultiExponent_run_def secp256k1_ecmult_multi_var_def multi_result_def Let_def)
next
  case False
  define k where "k = me_n_points m"
  define sc where "sc = MultiExponent_scratch m"
  define mp where "mp = secp256k1_pippenger_max_points sc"
  define cap where "cap = (if ECMULT_MAX_POINTS_PER_BATCH < mp then ECMULT_MAX_POINTS_PER_BATCH else mp)"
  have k: "0 < k" "k \<le> ECMULT_MAX_POINTS_PER_BATCH" using False n by (simp_all add: k_def)
  have fr: "scratch_frames sc = []" by (simp add: sc_def MultiExponent_scratch_def secp256k1_scratch_create_def Let_def)
  have f: "fetch_points (multi_callback m) 0 k = Some (map (\<lambda>i. (me_sc m ! i, me_pt m ! i)) [0..<k])"
    using fetch_all [of 0 k "multi_callback m" "\<lambda>i. (me_sc m ! i, me_pt m ! i)"] by (simp add: multi_callback_def)
  have size: "scratch_max_size sc = (if 88 < k then secp256k1_pippenger_scratch_size k (secp256k1_pippenger_bucket_window k) else 4032 * k) + 96"
    by (simp add: sc_def MultiExponent_scratch_def secp256k1_scratch_create_def k_def ECMULT_PIPPENGER_THRESHOLD_def
        PIPPENGER_SCRATCH_OBJECTS_def STRAUSS_SCRATCH_OBJECTS_def ALIGNMENT_def strauss_size Let_def)
  have al: "secp256k1_scratch_max_allocation sc 6 = scratch_max_size sc - 96"
    by (simp add: secp256k1_scratch_max_allocation_def fr ALIGNMENT_def Let_def)
  have mpl: "mp = max_points_loop (scratch_max_size sc - 96) [1..<13] 0"
    by (simp add: mp_def secp256k1_pippenger_max_points_def PIPPENGER_SCRATCH_OBJECTS_def PIPPENGER_MAX_BUCKET_WINDOW_def al Let_def)
  have run: "MultiExponent_run ctx m = (if mp = 0 then Some (False, secp256k1_gej_set_infinity, sc)
      else case batches k cap of (nb, nbp) \<Rightarrow>
        if 88 \<le> nbp then multi_loop secp256k1_ecmult_pippenger_batch None (multi_callback m) nbp nb 0 k secp256k1_gej_set_infinity sc
        else if secp256k1_strauss_max_points sc = 0 then Some (False, secp256k1_gej_set_infinity, sc)
        else case batches k (secp256k1_strauss_max_points sc) of (nb, nbp) \<Rightarrow>
          multi_loop (secp256k1_ecmult_strauss_batch ctx) None (multi_callback m) nbp nb 0 k secp256k1_gej_set_infinity sc)"
    using k(1) unfolding MultiExponent_run_def secp256k1_ecmult_multi_var_def Let_def k_def [symmetric] sc_def [symmetric] mp_def [symmetric] cap_def
    by (simp add: ECMULT_PIPPENGER_THRESHOLD_def)
  show ?thesis
  proof (cases "88 \<le> k")
    case True
    have big: "k \<le> mp"
    proof (cases "88 < k")
      case True
      have "share (secp256k1_pippenger_bucket_window k) k = scratch_max_size sc - 96"
        using True by (simp add: size share_def pippenger_size)
      moreover have "k \<le> SIZE_MAX" using k(2) by (simp add: SIZE_MAX_def ECMULT_MAX_POINTS_PER_BATCH_def)
      ultimately show ?thesis using own_share [of k] True by (simp add: mpl)
    next
      case False
      then have "k = 88" using True by simp
      then show ?thesis using threshold_share by (simp add: mpl size)
    qed
    have fit: "secp256k1_pippenger_scratch_size k (secp256k1_pippenger_bucket_window k) + 96 \<le> scratch_max_size sc"
    proof (cases "88 < k")
      case False
      then have "k = 88" using True by simp
      moreover have "secp256k1_pippenger_bucket_window 88 = 5"
        by (simp add: secp256k1_pippenger_bucket_window_def bucket_sizes_def)
      ultimately show ?thesis by (simp add: size pippenger_size wnaf_sizes)
    qed (simp add: size)
    have "batches k cap = (1, k)" using one_batch [of k cap] k big by (simp add: cap_def)
    then have "MultiExponent_run ctx m = multi_loop secp256k1_ecmult_pippenger_batch None (multi_callback m) k 1 0 k secp256k1_gej_set_infinity sc"
      using run big k(1) True by simp
    also have "\<dots> = Some (True, multi_result m, sc)"
      using True k(1) by (intro multi_loop_one, subst pippenger_batch_runs [OF fr fit k(1) f])
        (simp add: multi_result_def k_def [symmetric] multi_entries_def o_def)
    finally show ?thesis by (simp add: sc_def)
  next
    case False
    have s: "scratch_max_size sc = 4032 * k + 96" using False size by simp
    have "0 < mp" using some_share [OF k(1)] by (simp add: mpl s)
    moreover have "snd (batches k cap) \<le> k"
      using batch_at_most [OF k(1), of cap] calculation by (simp add: cap_def ECMULT_MAX_POINTS_PER_BATCH_def)
    moreover have st: "secp256k1_strauss_max_points sc = k"
      by (simp add: secp256k1_strauss_max_points_def STRAUSS_SCRATCH_OBJECTS_def strauss_size al s)
    ultimately have "MultiExponent_run ctx m = multi_loop (secp256k1_ecmult_strauss_batch ctx) None (multi_callback m) k 1 0 k secp256k1_gej_set_infinity sc"
      using run False k(1) one_batch [of k k] by (cases "batches k cap") simp
    also have "\<dots> = Some (True, multi_result m, sc)"
      using False k(1) strauss_without_generator [of ctx _ _ secp256k1_ecmult_context_init] s
      by (intro multi_loop_one, subst strauss_batch_runs [OF fr _ k(1) f]) (simp_all add: multi_result_def k_def [symmetric] o_def)
    finally show ?thesis by (simp add: sc_def)
  qed
qed

text \<open>The product of a point and a scalar looks at no table: the expansion of zero has no digits.\<close>

lemma wnaf_loop_zero:
  "sc_val s = 0 \<Longrightarrow> len \<le> 256 \<Longrightarrow> wnaf_loop s len w sign b 0 lsb ds = (ds, lsb, 0)"
proof (induction s len w sign b "0 :: int" lsb ds rule: wnaf_loop.induct)
  case (1 s len w sign b lsb ds)
  show ?case
  proof (cases "b < len \<and> 0 < w")
    case True
    then have z: "uint (secp256k1_scalar_get_bits s b 1) = 0" using "1.prems" get_bit_spec [of b s] by simp
    show ?thesis using "1.hyps"(1) [OF True z "1.prems"] True z by (subst wnaf_loop.simps) simp
  next
    case False
    then show ?thesis by (subst wnaf_loop.simps) auto
  qed
qed

lemma wnaf_zero:
  assumes "sc_val s = 0" "len \<le> 256" "length ds = len"
  shows "secp256k1_ecmult_wnaf ds len s w = (replicate len 0, 0)"
proof -
  have "\<not> secp256k1_scalar_get_bits s 255 1 \<noteq> 0" using top_bit [of s] assms(1) by simp
  then show ?thesis using assms wnaf_loop_zero [of s len w 1 0 "- 1" "replicate len 0"]
    by (simp add: secp256k1_ecmult_wnaf_def Let_def)
qed

lemma strauss_round_no_digits:
  "strauss_round ctx pre_a Z ps (ds, 0) (ds', 0) i r = strauss_round ctx' pre_a Z ps (ds, 0) (ds', 0) i r"
  by (simp add: strauss_round_def strauss_digit_g_def Let_def)

lemma times_ignores: "GroupElement_times ctx g s = GroupElement_times ctx' g s"
proof -
  have "sc_val (fst (secp256k1_scalar_split_128 (secp256k1_scalar_set_int 0))) = 0"
    "sc_val (snd (secp256k1_scalar_split_128 (secp256k1_scalar_set_int 0))) = 0"
    by (simp_all add: secp256k1_scalar_split_128_def secp256k1_scalar_set_int_def sc_val_make)
  then have w: "secp256k1_ecmult_wnaf (replicate 129 0) 129 (fst (secp256k1_scalar_split_128 (secp256k1_scalar_set_int 0))) WINDOW_G = (replicate 129 0, 0)"
    "secp256k1_ecmult_wnaf (replicate 129 0) 129 (snd (secp256k1_scalar_split_128 (secp256k1_scalar_set_int 0))) WINDOW_G = (replicate 129 0, 0)"
    by (auto intro: wnaf_zero)
  have "strauss_round ctx pre_a Z ps (ds, 0) (ds', 0) = strauss_round ctx' pre_a Z ps (ds, 0) (ds', 0)" for pre_a Z ps ds ds'
    by (intro ext strauss_round_no_digits)
  then show ?thesis
    unfolding GroupElement_times_def secp256k1_ecmult_def secp256k1_ecmult_strauss_wnaf_def
    by (simp only: Let_def case_prod_beta option.case w fst_conv snd_conv)
qed

section \<open>A group of the right order\<close>

text \<open>The integers modulo the order of the curve, a group in which the sums above can be evaluated.\<close>

typedef scalar_group = "{0 ..< sc_n}"
proof
  show "0 \<in> {0 ..< sc_n}" by (simp add: sc_n_def sc_c_def)
qed

lemma sc_n_pos: "0 < sc_n"
  by (simp add: sc_n_def sc_c_def)

definition sg :: "int \<Rightarrow> scalar_group" where
  "sg k = Abs_scalar_group (k mod sc_n)"

lemma Rep_sg: "Rep_scalar_group (sg k) = k mod sc_n"
  using sc_n_pos by (simp add: sg_def Abs_scalar_group_inverse)

lemma sg_Rep: "sg (Rep_scalar_group a) = a"
proof -
  have "Rep_scalar_group a \<in> {0 ..< sc_n}" by (rule Rep_scalar_group)
  then have "Rep_scalar_group a mod sc_n = Rep_scalar_group a" by simp
  then show ?thesis by (simp add: sg_def Rep_scalar_group_inverse)
qed

lemma sg_eq: "sg j = sg k \<longleftrightarrow> j mod sc_n = k mod sc_n"
  using Rep_sg by (metis sg_def)

instantiation scalar_group :: ab_group_add
begin

definition zero_scalar_group :: scalar_group where "0 = sg 0"
definition plus_scalar_group :: "scalar_group \<Rightarrow> scalar_group \<Rightarrow> scalar_group" where
  "a + b = sg (Rep_scalar_group a + Rep_scalar_group b)"
definition uminus_scalar_group :: "scalar_group \<Rightarrow> scalar_group" where
  "- a = sg (- Rep_scalar_group a)"
definition minus_scalar_group :: "scalar_group \<Rightarrow> scalar_group \<Rightarrow> scalar_group" where
  "a - b = sg (Rep_scalar_group a - Rep_scalar_group b)"

instance
proof
  fix a b c :: scalar_group
  show "a + b + c = a + (b + c)"
    by (simp add: plus_scalar_group_def Rep_sg sg_eq mod_add_left_eq mod_add_right_eq add.assoc)
  show "a + b = b + a" by (simp add: plus_scalar_group_def add.commute)
  show "0 + a = a" by (simp add: plus_scalar_group_def zero_scalar_group_def Rep_sg sg_Rep)
  show "- a + a = 0"
    by (simp add: plus_scalar_group_def uminus_scalar_group_def zero_scalar_group_def Rep_sg sg_eq mod_add_left_eq)
  show "a - b = a + - b"
    by (simp add: plus_scalar_group_def uminus_scalar_group_def minus_scalar_group_def Rep_sg sg_eq mod_add_right_eq)
qed

end

lemma sg_add: "sg j + sg k = sg (j + k)"
  by (simp add: plus_scalar_group_def Rep_sg sg_eq mod_add_eq)

lemma sg_nmul: "nmul n (sg k) = sg (int n * k)"
  by (induction n) (simp_all add: zero_scalar_group_def sg_add algebra_simps)

lemma sg_order: "zmul sc_n (sg k) = 0"
proof -
  have "sg (sc_n * k) = 0" by (simp add: zero_scalar_group_def sg_eq)
  then show ?thesis using sc_n_pos by (simp add: zmul_def sg_nmul zero_scalar_group_def [symmetric])
qed

text \<open>The method over an abelian group in which the endomorphism is the multiplication by \<open>lambda\<close>.\<close>

lemma pippenger_split_sum:
  fixes es :: "(secp256k1_scalar \<times> 'a :: ab_group_add) list"
  assumes "\<forall>e \<in> set es. sc_ok (fst e) \<and> zmul sc_n (snd e) = 0" "1 \<le> bw" "bw < 31"
  shows "(case split_entries uminus (zmul sc_lambda) es of (scalars, points) \<Rightarrow> pippenger_wnaf group_ops bw scalars points) =
    (\<Sum>e\<leftarrow>es. zmul (sc_val (fst e)) (snd e))"
proof -
  define ss ps where "ss = fst (split_entries uminus (zmul sc_lambda) es)" and "ps = snd (split_entries uminus (zmul sc_lambda) es)"
  have l: "length ss = 2 * length es" "length ps = 2 * length es" by (simp_all add: ss_def ps_def split_entries_len)
  have short: "sc_val s < 2 ^ 128" if "s \<in> set ss" for s
    using split_entries_short [of es uminus "zmul sc_lambda"] assms(1) that by (simp add: ss_def)
  have "pippenger_wnaf group_ops bw ss ps = (\<Sum>np\<leftarrow>[0..<length ss]. zmul (sc_val (ss ! np)) (ps ! np))"
    using l short by (intro pippenger_group assms) simp_all
  also have "\<dots> = (\<Sum>e\<leftarrow>es. zmul (sc_val (fst e)) (snd e))"
    unfolding l(1) unfolding ss_def ps_def using assms(1) by (rule split_entries_sum)
  finally show ?thesis by (simp add: ss_def ps_def case_prod_beta)
qed

lemma pippenger_split_good:
  assumes "\<forall>e \<in> set es. sc_ok (fst e) \<and> ge_good (snd e)"
  shows "case split_entries secp256k1_ge_neg secp256k1_ge_mul_lambda es of
    (scalars, points) \<Rightarrow> gej_good (secp256k1_ecmult_pippenger_wnaf bw scalars points)"
  using split_entries_good [OF assms] split_entries_len [of secp256k1_ge_neg secp256k1_ge_mul_lambda es]
    gej.pippenger_ok [of "snd (split_entries secp256k1_ge_neg secp256k1_ge_mul_lambda es)" "fst (split_entries secp256k1_ge_neg secp256k1_ge_mul_lambda es)" bw]
  by (simp add: case_prod_beta secp256k1_ecmult_pippenger_wnaf_def)

section \<open>Properties\<close>

text \<open>
  C26: Pippenger's method computes the sum it is for. Run over any abelian group in which the order of the
  curve annihilates the elements and the endomorphism is the multiplication by \<open>lambda\<close>, the split of every
  scalar into two short ones, the signed digits with their skew, the buckets and the running sums give
  \<open>s\<^sub>1 P\<^sub>1 + ... + s\<^sub>n P\<^sub>n\<close> for every list of reduced scalars and every window of 1 to 30 bits. Run over the
  additions of the code, on entries with reduced scalars and points that are infinity or on the curve, the same
  method returns infinity or a point on the curve.
\<close>

theorem pippenger_is_the_sum:
  fixes es :: "(secp256k1_scalar \<times> 'a :: ab_group_add) list"
  assumes "\<forall>e \<in> set es. sc_ok (fst e) \<and> zmul sc_n (snd e) = 0" and "\<forall>e \<in> set ps. sc_ok (fst e) \<and> ge_good (snd e)"
    and "1 \<le> bw" and "bw < 31"
  shows "(case split_entries uminus (zmul sc_lambda) es of (scalars, points) \<Rightarrow> pippenger_wnaf group_ops bw scalars points) =
      (\<Sum>e\<leftarrow>es. zmul (sc_val (fst e)) (snd e)) \<and>
    (case split_entries secp256k1_ge_neg secp256k1_ge_mul_lambda ps of
      (scalars, points) \<Rightarrow> gej_good (secp256k1_ecmult_pippenger_wnaf bw scalars points))"
  using pippenger_split_sum [OF assms(1,3,4)] pippenger_split_good [OF assms(2), of bw] by blast

theorem pippenger_is_the_sum_witness:
  "(case split_entries uminus (zmul sc_lambda) [(secp256k1_scalar_set_int 5, sg 1), (secp256k1_scalar_set_int 7, sg 2)] of
      (scalars, points) \<Rightarrow> pippenger_wnaf group_ops 4 scalars points) = sg 19 \<and>
   (case split_entries secp256k1_ge_neg secp256k1_ge_mul_lambda [(secp256k1_scalar_set_int 5, secp256k1_ge_const_g)] of
      (scalars, points) \<Rightarrow> gej_good (secp256k1_ecmult_pippenger_wnaf 4 scalars points))"
proof -
  have ok: "sc_ok (secp256k1_scalar_set_int 5)" "sc_ok (secp256k1_scalar_set_int 7)"
    and v: "sc_val (secp256k1_scalar_set_int 5) = 5" "sc_val (secp256k1_scalar_set_int 7) = 7"
    by (simp_all add: secp256k1_scalar_set_int_def sc_ok_def sc_val_make sc_n_def sc_c_def)
  have g: "ge_good secp256k1_ge_const_g" by (simp add: ge_good_def generator_mag generator_on)
  have "zmul 5 (sg 1) + zmul 7 (sg 2) = sg 19" by (simp add: zmul_def sg_nmul sg_add zero_scalar_group_def [symmetric])
  then show ?thesis
    using pippenger_is_the_sum [of "[(secp256k1_scalar_set_int 5, sg 1), (secp256k1_scalar_set_int 7, sg 2)]"
        "[(secp256k1_scalar_set_int 5, secp256k1_ge_const_g)]" 4] ok v g sg_order by simp
qed

text \<open>
  C28: a multi-exponentiation of up to five million points never fails, though \<open>get_multiple\<close> ignores the
  success: the scratch space it creates is large enough, no allocation in it returns \<open>NULL\<close>, the points are
  taken in a single batch, by Strauss' method below 88 points and by Pippenger's from 88 on (where for exactly 88
  points the space was computed for the other method), the context that is never initialised has no influence,
  and all frames are given back.
\<close>

theorem multi_exponentiation_succeeds:
  assumes "me_n_points m \<le> ECMULT_MAX_POINTS_PER_BATCH"
  shows "MultiExponent_run ctx m = Some (True, multi_result m, MultiExponent_scratch m) \<and>
    MultiExponent_get_multiple ctx m = Some (multi_result m)"
  using multi_runs [OF assms, of ctx] by (simp add: MultiExponent_get_multiple_def)

theorem multi_exponentiation_succeeds_witness:
  "\<exists>r. MultiExponent_get_multiple secp256k1_ecmult_context_init
      \<lparr>me_sc = replicate 88 (secp256k1_scalar_set_int 5), me_pt = replicate 88 (secp256k1_gej_set_ge secp256k1_ge_const_g), me_n_points = 88\<rparr> = Some r"
proof -
  have "me_n_points \<lparr>me_sc = replicate 88 (secp256k1_scalar_set_int 5),
      me_pt = replicate 88 (secp256k1_gej_set_ge secp256k1_ge_const_g), me_n_points = 88\<rparr> \<le> ECMULT_MAX_POINTS_PER_BATCH"
    by (simp add: ECMULT_MAX_POINTS_PER_BATCH_def)
  from multi_exponentiation_succeeds [OF this] show ?thesis by blast
qed

end
