(* ===== verification/Spec2Isabelle.thy ===== *)
theory Spec2Isabelle
  imports CoinSelection AesCbc SparkName Bech32 FieldBytes Hmac GroupAdd ScalarImpl Sha512 Address Ecmult
begin

text \<open>
  Verification of the Spark wallet library (\<^verbatim>\<open>flutter_libsparkmobile\<close>).

  The program. A Dart front end calls, through C bindings (\<^verbatim>\<open>src/src/flutter_libsparkmobile.cpp\<close>), the C++
  library \<^verbatim>\<open>src/src/deps/sparkmobile\<close>: keys, addresses and transactions of the Spark protocol. It stands on
  three layers, each modelled from its own sources: bitcoin helpers (streams, serialisation, scripts, amounts,
  AES, Bech32), the C library \<^verbatim>\<open>secp256k1\<close> (field, scalars, curve points, SHA-256, HMAC) with C++ classes over
  it, and the parts of the vendored OpenSSL the protocol code calls.

  Conventions. Machine integers are words of the width of the source; a C++ exception is the left value of a
  \<open>res\<close>; a loop that is not structural is a \<open>function\<close> with a termination proof, or a \<open>partial_function\<close> where
  the source gives no bound; a function that writes through pointers returns what it writes. Names are those
  of the source, with a prefix or suffix where HOL has the name already.

  Theories, in the order of the layers.

  \<^item> \<open>SparkPrelude\<close>: bytes, exceptions, sequencing, little-endian layout, generic lemmas. \<open>MachineWords\<close>: 64- and
    128-bit words as numbers. \<open>Residues\<close>: the locale \<open>residue_products\<close> of addition chains, interpreted on field
    elements (\<open>FieldImpl\<close>) and on scalars (\<open>ScalarImpl\<close>).
  \<^item> \<open>Streams\<close>, \<open>Serialize\<close>, \<open>Containers\<close>, \<open>Uint256\<close> (\<^verbatim>\<open>bitcoin/streams.h\<close>, \<^verbatim>\<open>serialize.h\<close>, \<^verbatim>\<open>uint256\<close>): the stream as
    a buffer with a 32-bit read position; readers and writers of integers, compact sizes, strings, vectors and
    blobs; each reader inverts its writer and accepts only what is written.
  \<^item> \<open>Script\<close>, \<open>Amount\<close>, \<open>Transaction\<close> (\<^verbatim>\<open>script.h\<close>, \<^verbatim>\<open>script.cpp\<close>, \<^verbatim>\<open>amount\<close>, \<^verbatim>\<open>src/src/transaction.h\<close>): script numbers,
    pushes and parsing, the classifiers, fee rates, outpoints, inputs and outputs.
  \<^item> \<open>SparkName\<close> (\<^verbatim>\<open>src/sparkname\<close>): name records in both versions of the format.
  \<^item> \<open>CoinSelection\<close> (\<^verbatim>\<open>src/spark.cpp\<close>): balance, selection, the fee loop, the distribution of a spend over
    recipients, fee and change; the lemmas show that value is conserved and that a selection is found exactly
    when the funds are there.
  \<^item> \<open>Ctaes\<close>, \<open>AesCbc\<close> (\<^verbatim>\<open>bitcoin/crypto/ctaes\<close>, \<^verbatim>\<open>aes.cpp\<close>, \<^verbatim>\<open>src/util.cpp\<close>): bit-sliced AES against FIPS 197, CBC with
    padding, the encryption of diversifiers.
  \<^item> \<open>Bech32\<close> (\<^verbatim>\<open>src/bech32.cpp\<close>): checksum, encoding, decoding and regrouping of bits.
  \<^item> \<open>Field5x52\<close>, \<open>FieldBytes\<close>, \<open>FieldImpl\<close> (\<^verbatim>\<open>field_5x52\<close>, \<^verbatim>\<open>field_impl.h\<close>): field elements on five 52-bit limbs. The
    magnitude of an element (\<open>fe_mag\<close>) bounds its limbs; every operation is exact modulo the prime for the
    magnitudes its comment allows, so no carry is lost.
  \<^item> \<open>Scalar\<close>, \<open>ScalarImpl\<close> (\<^verbatim>\<open>scalar_4x64\<close>, \<^verbatim>\<open>scalar_impl.h\<close>, \<^verbatim>\<open>cpp/Scalar.cpp\<close>): scalars modulo the order of the
    curve; \<open>sc_ok\<close> is the invariant of the type. The split for the endomorphism is shown short by the lattice
    of the comment in the source.
  \<^item> \<open>Group\<close>, \<open>GroupAdd\<close> (\<^verbatim>\<open>group_impl.h\<close>): affine and Jacobian points; the additions compute the chord and tangent
    law, and stay on the curve.
  \<^item> \<open>Wnaf\<close>, \<open>Ecmult\<close> (\<^verbatim>\<open>ecmult_impl.h\<close>, \<^verbatim>\<open>scratch_impl.h\<close>, \<^verbatim>\<open>cpp/MultiExponent.cpp\<close>): the signed digits of scalars and the
    multiplication of many points. Pippenger's method is written over the operations it uses: on the points of the
    code it stays on the curve (locale \<open>point_set\<close>), on an abelian group it is the sum of the multiples. The sizes of
    batches and of the scratch space are shown to suffice. Strauss' method is modelled; its sum is not proved.
  \<^item> \<open>RootWords\<close>: the constants of FIPS 180-4 from roots of primes, for the specifications only.
  \<^item> \<open>Sha256\<close>, \<open>Hmac\<close> (\<^verbatim>\<open>hash_impl.h\<close>), \<open>Sha512\<close> (OpenSSL's \<^verbatim>\<open>crypto/sha/sha512.c\<close>): the unrolled block functions are
    the loops of FIPS 180-4, incremental hashing is hashing of the whole message, HMAC is RFC 2104, the generator
    is the stream of RFC 6979.
  \<^item> \<open>GroupElement\<close> (\<^verbatim>\<open>cpp/GroupElement.cpp\<close>): the class over points, its encoding, hashing to a point. Decoding
    gives members of the curve only; an encoding that is canonical is what \<open>serialize\<close> writes.
  \<^item> \<open>SparkHash\<close> (\<^verbatim>\<open>src/hash.cpp\<close>, \<^verbatim>\<open>kdf.cpp\<close>, \<^verbatim>\<open>transcript.cpp\<close>, \<^verbatim>\<open>util.cpp\<close>): labelled hashing over the locale \<open>digest\<close>,
    interpreted on OpenSSL's contexts. The inputs of the digest are a datatype; the locale \<open>prefix_code\<close> carries
    the proof that they can be read back, and the lemmas say what every operation absorbs and when the loops over
    the counter end.
  \<^item> \<open>F4Grumble\<close>, \<open>Address\<close> (\<^verbatim>\<open>src/f4grumble.cpp\<close>, \<^verbatim>\<open>src/keys.cpp\<close>): the scrambling as an interpretation of the locale
    \<open>feistel\<close>, and address strings, which compose it with Bech32m and the encoding of points.

  Bounds. The decoding of compact integers ends because each step consumes a byte; \<open>partial_function\<close>
  is used for loops with no such bound (\<open>ReadVarInt_loop\<close> and the loops that hash until a
  candidate is accepted), and the properties say when they return. Lengths are natural numbers; where the
  source holds them in 64 bits a hypothesis keeps them below \<open>2^64\<close>.

  Not modelled. The zero-knowledge proofs (\<^verbatim>\<open>grootle\<close>, \<^verbatim>\<open>bpplus\<close>, \<^verbatim>\<open>chaum\<close>, \<^verbatim>\<open>schnorr\<close>) and the transactions built from
  them: what makes them correct are the group laws, associativity above all, and these do not follow from the
  formulas alone. ECDSA and the constant-time multiplications of \<^verbatim>\<open>secp256k1\<close>, which the wallet does not call. The
  32-bit variants (10x26 and 8x32 limbs), which \<^verbatim>\<open>secp256k1/CMakeLists.txt\<close> selects on Windows and on 32-bit targets:
  what is modelled is the build with 64-bit limbs and 128-bit products. The assembly variants; printing, locking and
  allocation, which is taken to succeed; the drawing of random numbers; the bindings and the example application.
\<close>

end
